(* ===== verification/Prelude.thy ===== *)
theory Prelude
  imports Main "HOL-Library.Word" "HOL-Library.Multiset"
begin

text \<open>
  Shared vocabulary of the development: the machine types of the library, the collections of
  facts that the component theories extend, and generic lemmas on lists, options and words.
\<close>

unbundle bit_operations_syntax

text \<open>\<open>size_t\<close> and \<open>uint32_t\<close> of a 64-bit build, \<open>TMC_ONE_BIT\<close> and \<open>TMC_ALL_ONES\<close>.\<close>

type_synonym size_t = "64 word"
type_synonym u32 = "32 word"

abbreviation TMC_PLATFORM_BITS :: nat where
  "TMC_PLATFORM_BITS \<equiv> 64"

abbreviation TMC_ONE_BIT :: size_t where
  "TMC_ONE_BIT \<equiv> 1"

abbreviation TMC_ALL_ONES :: size_t where
  "TMC_ALL_ONES \<equiv> - 1"

named_theorems word_facts \<open>facts about fields and bits of machine words\<close>
named_theorems list_facts \<open>facts about permutations, slices and rotations of lists\<close>
named_theorems step_facts \<open>effects of the atomic steps of the concurrent components\<close>

section \<open>Lists\<close>

text \<open>Index ranges stay lists under \<open>mset\<close>.\<close>

declare mset_upt [simp del]

lemma mset_rotate_eq [simp]: "mset (rotate k xs) = mset xs"
  by (metis append_take_drop_id mset_append rotate_drop_take union_commute)

lemma mset_eq_upt_distinct [list_facts]:
  assumes "mset xs = mset [a..<b]"
  shows "distinct xs"
  using assms by (metis distinct_upt mset_eq_imp_distinct_iff)

lemma mset_eq_upt_set [list_facts]:
  assumes "mset xs = mset [a..<b]"
  shows "set xs = {a..<b}"
  using assms by (metis set_mset_mset set_upt)

lemma mset_eq_upt_length [list_facts]:
  assumes "mset xs = mset [a..<b]"
  shows "length xs = b - a"
  using assms by (metis length_upt size_mset)

lemma upt_split [list_facts]:
  assumes "a \<le> m" and "m \<le> b"
  shows "[a..<b] = [a..<m] @ [m..<b]"
  using assms by (metis le_add_diff_inverse upt_add_eq_append)

section \<open>Options\<close>

lemma bind_eq_Some_iff:
  "Option.bind x f = Some y \<longleftrightarrow> (\<exists>z. x = Some z \<and> f z = Some y)"
  by (cases x) auto

section \<open>Numbers\<close>

lemma mod_distinct: "i < j \<Longrightarrow> j < i + N \<Longrightarrow> i mod N \<noteq> j mod (N::nat)"
proof
  assume "i < j" "j < i + N" "i mod N = j mod N"
  then have "N dvd j - i" using mod_eq_dvd_iff_nat [of i j N] by simp
  then show False using \<open>i < j\<close> \<open>j < i + N\<close> nat_dvd_not_less [of "j - i" N] by simp
qed

section \<open>Sums of multisets\<close>

lemma sum_upd:
  fixes f :: "'b \<Rightarrow> 'a multiset"
  assumes "finite A" and "a \<in> A"
  shows "(\<Sum>i\<in>A. f ((g(a := v)) i)) + f (g a) = (\<Sum>i\<in>A. f (g i)) + f v"
proof -
  have "(\<Sum>i\<in>A - {a}. f ((g(a := v)) i)) = (\<Sum>i\<in>A - {a}. f (g i))" by (rule sum.cong) auto
  then show ?thesis using sum.remove [OF assms, of "\<lambda>i. f ((g(a := v)) i)"] sum.remove [OF assms, of "\<lambda>i. f (g i)"]
    by (simp add: ac_simps)
qed

text \<open>The sum over those agents, finitely many, whose share is not empty.\<close>

lemma support_sum_upd:
  fixes c :: "'b \<Rightarrow> 'a multiset"
  assumes "finite {a. c (f a) \<noteq> {#}}" and f': "f' = f(a := v)"
  shows "finite {b. c (f' b) \<noteq> {#}}"
    and "(\<Sum>b | c (f' b) \<noteq> {#}. c (f' b)) + c (f a) = (\<Sum>b | c (f b) \<noteq> {#}. c (f b)) + c v"
proof -
  let ?A = "insert a {b. c (f b) \<noteq> {#}}"
  have A: "finite ?A" using assms(1) by simp
  have sub: "{b. c (f' b) \<noteq> {#}} \<subseteq> ?A" by (auto simp: f')
  then show "finite {b. c (f' b) \<noteq> {#}}" using A finite_subset by blast
  have "(\<Sum>b | c (f' b) \<noteq> {#}. c (f' b)) = (\<Sum>b\<in>?A. c (f' b))" by (rule sum.mono_neutral_left [OF A sub]) auto
  moreover have "(\<Sum>b | c (f b) \<noteq> {#}. c (f b)) = (\<Sum>b\<in>?A. c (f b))" by (rule sum.mono_neutral_left [OF A]) auto
  ultimately show "(\<Sum>b | c (f' b) \<noteq> {#}. c (f' b)) + c (f a) = (\<Sum>b | c (f b) \<noteq> {#}. c (f b)) + c v"
    using sum_upd [OF A, of a c f v] by (simp add: f')
qed

lemma balance:
  fixes p :: "'a multiset"
  assumes "p = c + q + h + x" and "c' + d = c + d'" and "q' + d' + p = q + d + p'"
  shows "p' = c' + q' + h + x"
proof -
  have "p' + (q + d + d') = (q + d + p') + d'" by (simp add: ac_simps)
  also have "\<dots> = q' + d' + (c + q + h + x) + d'" using assms(1,3) by simp
  also have "\<dots> = q' + d' + q + h + x + (c' + d)" using assms(2) by (simp add: ac_simps)
  also have "\<dots> = c' + q' + h + x + (q + d + d')" by (simp add: ac_simps)
  finally show ?thesis by simp
qed

end
