(* ===== verification/GroupOrder.thy ===== *)
theory GroupOrder
  imports Prelude
begin

text \<open>
  The order in which a thread visits the groups of cores of one level of the cache hierarchy:
  \<open>recursively_subdivide\<close>, \<open>enumerate_paths\<close> and \<open>get_flat_group_iteration_order\<close> of
  \<open>include/tmc/detail/thread_layout.ipp\<close>. The tree of index ranges is kept in a vector, as in
  the code; a read outside the vector is the value \<open>None\<close>.
\<close>

section \<open>The code\<close>

record SubdivideNode =
  lowIdx :: nat
  highIdx :: nat
  node_min :: nat
  node_max :: nat

function recursively_subdivide :: "SubdivideNode list \<Rightarrow> SubdivideNode list" where
  "recursively_subdivide Results =
    (let idx = length Results - 1;
         node = Results ! idx
     in if node_max node - node_min node > 1 then
          let half = (node_max node - node_min node) div 2;
              mid = node_max node - half;
              R1 = Results[idx := (Results ! idx)\<lparr>lowIdx := length Results\<rparr>];
              R2 = recursively_subdivide
                     (R1 @ [\<lparr>lowIdx = 0, highIdx = 0, node_min = node_min node, node_max = mid\<rparr>]);
              R3 = R2[idx := (R2 ! idx)\<lparr>highIdx := length R2\<rparr>]
          in recursively_subdivide
               (R3 @ [\<lparr>lowIdx = 0, highIdx = 0, node_min = mid, node_max = node_max node\<rparr>])
        else Results)"
  by pat_completeness auto
termination
proof (relation "measure (\<lambda>R. node_max (R ! (length R - 1)) - node_min (R ! (length R - 1)))",
    goal_cases)
  case 1
  show ?case by simp
next
  case (2 R idx node half mid R1)
  then show ?case by (simp add: nth_append) arith
next
  case (3 R idx node half mid R1 R2 R3)
  from "3"(1-5) show ?case by (simp add: nth_append) arith
qed

declare recursively_subdivide.simps [simp del]

partial_function (option) enumerate_paths ::
  "size_t \<Rightarrow> size_t \<Rightarrow> SubdivideNode list \<Rightarrow> nat \<Rightarrow> nat list \<Rightarrow> nat list option" where
  "enumerate_paths Path DepthBit PathTree NodeIdx Results =
    (if \<not> NodeIdx < length PathTree then None
     else let node = PathTree ! NodeIdx in
       if lowIdx node = 0 \<and> highIdx node = 0 then Some (Results @ [node_min node])
       else if Path AND DepthBit = 0 then
         Option.bind
           (if lowIdx node \<noteq> 0
            then enumerate_paths Path (push_bit 1 DepthBit) PathTree (lowIdx node) Results
            else Some Results)
           (\<lambda>R. if highIdx node \<noteq> 0
                then enumerate_paths (Path XOR DepthBit) (push_bit 1 DepthBit) PathTree (highIdx node) R
                else Some R)
       else
         Option.bind
           (if highIdx node \<noteq> 0
            then enumerate_paths Path (push_bit 1 DepthBit) PathTree (highIdx node) Results
            else Some Results)
           (\<lambda>R. if lowIdx node \<noteq> 0
                then enumerate_paths (Path XOR DepthBit) (push_bit 1 DepthBit) PathTree (lowIdx node) R
                else Some R))"

text \<open>The loop that encodes the path to \<open>StartGroup\<close> in the bits of \<open>startPath\<close>.\<close>

partial_function (option) find_start_path ::
  "nat \<Rightarrow> SubdivideNode list \<Rightarrow> SubdivideNode \<Rightarrow> size_t \<Rightarrow> nat \<Rightarrow> (SubdivideNode \<times> size_t) option" where
  "find_start_path StartGroup pathTree node startPath depth =
    (if lowIdx node \<noteq> 0 then
       if \<not> (lowIdx node < length pathTree \<and> highIdx node < length pathTree) then None
       else if StartGroup < node_max (pathTree ! lowIdx node) then
         find_start_path StartGroup pathTree (pathTree ! lowIdx node) startPath (Suc depth)
       else
         find_start_path StartGroup pathTree (pathTree ! highIdx node)
           (startPath OR push_bit depth TMC_ONE_BIT) (Suc depth)
     else Some (node, startPath))"

definition get_flat_group_iteration_order :: "nat \<Rightarrow> nat \<Rightarrow> nat list option" where
  "get_flat_group_iteration_order GroupCount StartGroup =
    (if GroupCount = 0 then Some []
     else
       let pathTree = recursively_subdivide
             [\<lparr>lowIdx = 0, highIdx = 0, node_min = 0, node_max = GroupCount\<rparr>]
       in Option.bind (find_start_path StartGroup pathTree (pathTree ! 0) 0 0)
            (\<lambda>(node, startPath). enumerate_paths startPath 1 pathTree 0 []))"

section \<open>The tree of ranges and the orders it yields\<close>

abbreviation range_mid :: "nat \<Rightarrow> nat \<Rightarrow> nat" where
  "range_mid lo hi \<equiv> hi - (hi - lo) div 2"

abbreviation leaf_node :: "nat \<Rightarrow> nat \<Rightarrow> SubdivideNode" where
  "leaf_node lo hi \<equiv> \<lparr>lowIdx = 0, highIdx = 0, node_min = lo, node_max = hi\<rparr>"

text \<open>The nodes that subdividing \<open>[lo, hi)\<close> appends when they start at index \<open>i\<close>.\<close>

function sub_nodes :: "nat \<Rightarrow> nat \<Rightarrow> nat \<Rightarrow> SubdivideNode list" where
  "sub_nodes i lo hi =
    (if hi - lo > 1 then
       let low = sub_nodes (Suc i) lo (range_mid lo hi) in
       \<lparr>lowIdx = Suc i, highIdx = Suc i + length low, node_min = lo, node_max = hi\<rparr>
         # low @ sub_nodes (Suc i + length low) (range_mid lo hi) hi
     else [leaf_node lo hi])"
  by pat_completeness auto
termination
proof (relation "measure (\<lambda>(i, lo, hi). hi - lo)", goal_cases)
  case 1
  show ?case by simp
next
  case (2 i lo hi)
  then show ?case by (simp; arith)
next
  case (3 i lo hi)
  then show ?case by (simp; arith)
qed

declare sub_nodes.simps [simp del]

text \<open>The order in which \<open>enumerate_paths\<close> lists the leaves below a range at depth \<open>d\<close>.\<close>

function flat_order :: "size_t \<Rightarrow> nat \<Rightarrow> nat \<Rightarrow> nat \<Rightarrow> nat list" where
  "flat_order P d lo hi =
    (if hi - lo > 1 then
       (if \<not> bit P d
        then flat_order P (Suc d) lo (range_mid lo hi)
               @ flat_order (P XOR push_bit d 1) (Suc d) (range_mid lo hi) hi
        else flat_order P (Suc d) (range_mid lo hi) hi
               @ flat_order (P XOR push_bit d 1) (Suc d) lo (range_mid lo hi))
     else [lo])"
  by pat_completeness auto
termination
proof (relation "measure (\<lambda>(P, d, lo, hi). hi - lo)", goal_cases)
  case 1
  show ?case by simp
next
  case (2 P d lo hi)
  then show ?case by (simp; arith)
next
  case (3 P d lo hi)
  then show ?case by (simp; arith)
next
  case (4 P d lo hi)
  then show ?case by (simp; arith)
next
  case (5 P d lo hi)
  then show ?case by (simp; arith)
qed

declare flat_order.simps [simp del]

lemma range_mid_bounds:
  assumes "hi - lo > (1::nat)"
  shows "lo < range_mid lo hi" and "range_mid lo hi < hi"
    and "range_mid lo hi - lo < hi - lo" and "hi - range_mid lo hi < hi - lo"
  using assms by arith+

lemma recursively_subdivide_appends:
  "recursively_subdivide (pre @ [leaf_node lo hi]) = pre @ sub_nodes (length pre) lo hi"
proof (induction "hi - lo" arbitrary: pre lo hi rule: less_induct)
  case less
  show ?case
  proof (cases "hi - lo > 1")
    case False
    then show ?thesis
      by (simp add: recursively_subdivide.simps [of "pre @ [leaf_node lo hi]"]
          sub_nodes.simps [of "length pre" lo hi])
  next
    case True
    note mid = range_mid_bounds [OF True]
    let ?m = "range_mid lo hi"
    let ?i = "length pre"
    let ?low = "sub_nodes (Suc ?i) lo ?m"
    let ?R1 = "pre @ [\<lparr>lowIdx = Suc ?i, highIdx = 0, node_min = lo, node_max = hi\<rparr>]"
    let ?R3 = "pre @ \<lparr>lowIdx = Suc ?i, highIdx = Suc ?i + length ?low, node_min = lo,
                       node_max = hi\<rparr> # ?low"
    have R2: "recursively_subdivide (?R1 @ [leaf_node lo ?m]) = ?R1 @ ?low"
      using less(1) [OF mid(3), of ?R1] by simp
    have R3: "recursively_subdivide (?R3 @ [leaf_node ?m hi])
                = ?R3 @ sub_nodes (Suc ?i + length ?low) ?m hi"
      using less(1) [OF mid(4), of ?R3] by simp
    show ?thesis
      using True R2 R3
      by (simp add: recursively_subdivide.simps [of "pre @ [leaf_node lo hi]"] Let_def nth_append
          sub_nodes.simps [of "length pre" lo hi] list_update_append del: One_nat_def)
  qed
qed

lemma sub_nodes_not_empty: "sub_nodes i lo hi \<noteq> []"
  by (subst sub_nodes.simps) (simp add: Let_def)

lemma enumerate_paths_sub_nodes:
  "enumerate_paths P (2 ^ d) (pre @ sub_nodes (length pre) lo hi @ post) (length pre) R
     = Some (R @ flat_order P d lo hi)"
proof (induction "hi - lo" arbitrary: P d pre post lo hi R rule: less_induct)
  case less
  show ?case
  proof (cases "hi - lo > 1")
    case False
    then show ?thesis
      by (simp add: enumerate_paths.simps [of P] sub_nodes.simps [of "length pre" lo hi]
          flat_order.simps [of P d lo hi] nth_append)
  next
    case True
    note mid = range_mid_bounds [OF True]
    let ?m = "range_mid lo hi"
    let ?i = "length pre"
    let ?low = "sub_nodes (Suc ?i) lo ?m"
    let ?high = "sub_nodes (Suc ?i + length ?low) ?m hi"
    let ?n = "\<lparr>lowIdx = Suc ?i, highIdx = Suc ?i + length ?low, node_min = lo, node_max = hi\<rparr>"
    let ?T = "pre @ sub_nodes ?i lo hi @ post"
    have T: "?T = pre @ ?n # ?low @ ?high @ post"
      using True by (simp add: sub_nodes.simps [of ?i lo hi] Let_def)
    have low: "enumerate_paths Q (2 ^ d * 2) ?T (Suc ?i) R'
                 = Some (R' @ flat_order Q (Suc d) lo ?m)" for Q R'
      using less [OF mid(3), of Q "Suc d" "pre @ [?n]" "?high @ post" R'] T by (simp add: mult.commute)
    have high: "enumerate_paths Q (2 ^ d * 2) ?T (Suc ?i + length ?low) R'
                 = Some (R' @ flat_order Q (Suc d) ?m hi)" for Q R'
      using less [OF mid(4), of Q "Suc d" "pre @ ?n # ?low" post R'] T by (simp add: mult.commute)
    have "?T ! ?i = ?n" and "?i < length ?T"
      unfolding T by (simp_all add: nth_append)
    then show ?thesis
      using True low high
      by (simp add: enumerate_paths.simps [of P "2 ^ d" ?T ?i R] Let_def
          and_exp_eq_0_iff_not_bit flat_order.simps [of P d lo hi])
  qed
qed

text \<open>Every order is a permutation of the range.\<close>

lemma mset_flat_order:
  assumes "lo < hi"
  shows "mset (flat_order P d lo hi) = mset [lo..<hi]"
  using assms
proof (induction "hi - lo" arbitrary: P d lo hi rule: less_induct)
  case less
  show ?case
  proof (cases "hi - lo > 1")
    case False
    with less.prems have "hi = Suc lo" by simp
    then show ?thesis by (simp add: flat_order.simps [of P d lo])
  next
    case True
    note mid = range_mid_bounds [OF True]
    have "mset (flat_order Q d' lo (range_mid lo hi)) = mset [lo..<range_mid lo hi]"
      and "mset (flat_order Q d' (range_mid lo hi) hi) = mset [range_mid lo hi..<hi]" for Q d'
      using less.hyps [OF mid(3) mid(1)] less.hyps [OF mid(4) mid(2)] by simp_all
    then show ?thesis
      using True upt_split [of lo "range_mid lo hi" hi] mid(1,2)
      by (simp add: flat_order.simps [of P d lo hi] union_commute del: mset_upt)
  qed
qed

text \<open>A path follows the way to \<open>g\<close> when its bits are the turns taken towards \<open>g\<close>.\<close>

function follows :: "size_t \<Rightarrow> nat \<Rightarrow> nat \<Rightarrow> nat \<Rightarrow> nat \<Rightarrow> bool" where
  "follows P d lo hi g =
    (if hi - lo > 1 then
       (if g < range_mid lo hi then \<not> bit P d \<and> follows P (Suc d) lo (range_mid lo hi) g
        else bit P d \<and> follows P (Suc d) (range_mid lo hi) hi g)
     else True)"
  by pat_completeness auto
termination
proof (relation "measure (\<lambda>(P, d, lo, hi, g). hi - lo)", goal_cases)
  case 1
  show ?case by simp
next
  case (2 P d lo hi g)
  then show ?case by (simp; arith)
next
  case (3 P d lo hi g)
  then show ?case by (simp; arith)
qed

declare follows.simps [simp del]

lemma flat_order_not_empty: "flat_order P d lo hi \<noteq> []"
proof (induction "hi - lo" arbitrary: P d lo hi rule: less_induct)
  case less
  show ?case
    using range_mid_bounds [of lo hi] less.hyps
    by (subst flat_order.simps) auto
qed

lemma hd_flat_order:
  assumes "lo \<le> g" and "g < hi" and "follows P d lo hi g"
  shows "hd (flat_order P d lo hi) = g"
  using assms
proof (induction "hi - lo" arbitrary: P d lo hi rule: less_induct)
  case less
  show ?case
  proof (cases "hi - lo > 1")
    case False
    with less.prems show ?thesis by (simp add: flat_order.simps [of P d lo])
  next
    case True
    note mid = range_mid_bounds [OF True]
    show ?thesis
    proof (cases "g < range_mid lo hi")
      case low: True
      then have "hd (flat_order P (Suc d) lo (range_mid lo hi)) = g" and "\<not> bit P d"
        using less.hyps [OF mid(3)] less.prems True by (simp_all add: follows.simps [of P d lo hi])
      then show ?thesis
        using True by (simp add: flat_order.simps [of P d lo hi] flat_order_not_empty)
    next
      case high: False
      then have "hd (flat_order P (Suc d) (range_mid lo hi) hi) = g" and "bit P d"
        using less.hyps [OF mid(4)] less.prems True by (simp_all add: follows.simps [of P d lo hi])
      then show ?thesis
        using True by (simp add: flat_order.simps [of P d lo hi] flat_order_not_empty)
    qed
  qed
qed

text \<open>
  \<open>find_start_path\<close> returns the leaf of the group it looks for and a path that leads to it, as
  long as the tree is not deeper than the bits of the path. Halving \<open>2^(64 - d)\<close> indices takes
  at most \<open>64 - d\<close> turns, so any count that a \<open>size_t\<close> holds is in bounds.
\<close>

lemma find_start_path_sub_nodes:
  assumes "lo \<le> g" and "g < hi" and "d \<le> 64" and "hi - lo \<le> 2 ^ (64 - d)"
    and "\<And>k. d \<le> k \<Longrightarrow> \<not> bit S k"
  shows "\<exists>P. find_start_path g (pre @ sub_nodes (length pre) lo hi @ post)
              (sub_nodes (length pre) lo hi ! 0) S d = Some (leaf_node g (Suc g), P)
           \<and> follows P d lo hi g \<and> (\<forall>k < d. bit P k = bit S k) \<and> (g = lo \<longrightarrow> P = S)"
  using assms
proof (induction "hi - lo" arbitrary: pre post lo hi S d rule: less_induct)
  case less
  show ?case
  proof (cases "hi - lo > 1")
    case False
    with less.prems(1,2) have "hi = Suc g" and "lo = g" by simp_all
    then show ?thesis
      by (simp add: find_start_path.simps sub_nodes.simps [of _ g "Suc g"]
          follows.simps [of _ _ g "Suc g"])
  next
    case True
    note mid = range_mid_bounds [OF True]
    let ?m = "range_mid lo hi"
    let ?i = "length pre"
    let ?low = "sub_nodes (Suc ?i) lo ?m"
    let ?high = "sub_nodes (Suc ?i + length ?low) ?m hi"
    let ?n = "\<lparr>lowIdx = Suc ?i, highIdx = Suc ?i + length ?low, node_min = lo, node_max = hi\<rparr>"
    let ?T = "pre @ sub_nodes ?i lo hi @ post"
    have T: "?T = pre @ ?n # ?low @ ?high @ post" and n: "sub_nodes ?i lo hi ! 0 = ?n"
      using True by (simp_all add: sub_nodes.simps [of ?i lo hi] Let_def)
    have d: "d < 64" using True less.prems(3,4) by (cases "d = 64") auto
    have bound: "?m - lo \<le> 2 ^ (64 - Suc d)" "hi - ?m \<le> 2 ^ (64 - Suc d)"
    proof -
      have "hi - lo \<le> 2 * 2 ^ (64 - Suc d)"
        using less.prems(4) d by (metis Suc_diff_Suc power_Suc)
      then show "?m - lo \<le> 2 ^ (64 - Suc d)" "hi - ?m \<le> 2 ^ (64 - Suc d)" by arith+
    qed
    have ne: "?low \<noteq> []" "?high \<noteq> []" by (rule sub_nodes_not_empty)+
    have at: "?T ! Suc ?i = ?low ! 0" "?T ! (Suc ?i + length ?low) = ?high ! 0"
      unfolding T using ne by (simp_all add: nth_append)
    have len: "Suc ?i < length ?T" "Suc ?i + length ?low < length ?T"
      unfolding T using ne by simp_all
    have max: "node_max (?low ! 0) = ?m"
      by (subst sub_nodes.simps) (simp add: Let_def)
    have step: "find_start_path g ?T (sub_nodes ?i lo hi ! 0) S d =
      (if g < ?m then find_start_path g ?T (?low ! 0) S (Suc d)
       else find_start_path g ?T (?high ! 0) (S OR push_bit d 1) (Suc d))"
      unfolding n by (subst find_start_path.simps) (use len at max in simp)
    show ?thesis
    proof (cases "g < ?m")
      case low: True
      have "Suc d \<le> 64" using d by simp
      moreover have "\<not> bit S k" if "Suc d \<le> k" for k
        using that less.prems(5) [of k] by simp
      moreover have IH: "lo \<le> g \<Longrightarrow> g < ?m \<Longrightarrow> Suc d \<le> 64 \<Longrightarrow> ?m - lo \<le> 2 ^ (64 - Suc d) \<Longrightarrow>
          (\<And>k. Suc d \<le> k \<Longrightarrow> \<not> bit S k) \<Longrightarrow>
        \<exists>P. find_start_path g ?T (?low ! 0) S (Suc d) = Some (leaf_node g (Suc g), P)
          \<and> follows P (Suc d) lo ?m g \<and> (\<forall>k < Suc d. bit P k = bit S k) \<and> (g = lo \<longrightarrow> P = S)"
        using less.hyps [OF mid(3), of "Suc d" S "pre @ [?n]" "?high @ post"] unfolding T by simp
      ultimately obtain P where
        "find_start_path g ?T (?low ! 0) S (Suc d) = Some (leaf_node g (Suc g), P)"
        and "follows P (Suc d) lo ?m g" and bits: "\<forall>k < Suc d. bit P k = bit S k"
        and "g = lo \<longrightarrow> P = S"
        using less.prems(1) low bound(1) by blast
      moreover have "\<not> bit P d" using bits less.prems(5) by simp
      ultimately show ?thesis
        using True low by (simp add: step follows.simps [of P d lo hi])
    next
      case high: False
      let ?S = "S OR push_bit d 1"
      have S: "bit ?S k = (bit S k \<or> k = d)" for k
        using d by (auto simp: bit_simps dest: bit_imp_le_length)
      have "?m \<le> g" and "Suc d \<le> 64" using high d by simp_all
      moreover have "\<not> bit ?S k" if "Suc d \<le> k" for k
        unfolding S using that less.prems(5) [of k] by simp
      ultimately obtain P where
        "find_start_path g ?T (?high ! 0) ?S (Suc d) = Some (leaf_node g (Suc g), P)"
        and "follows P (Suc d) ?m hi g" and bits: "\<forall>k < Suc d. bit P k = bit ?S k"
        using less.hyps [OF mid(4) _ less.prems(2) _ bound(2), of ?S "pre @ ?n # ?low" post]
        unfolding T by auto
      moreover have "bit P d" and "\<forall>k < d. bit P k = bit S k" using bits unfolding S by simp_all
      ultimately show ?thesis
        using True high mid(1) by (simp add: step follows.simps [of P d lo hi])
    qed
  qed
qed

lemma get_flat_group_iteration_order_eq:
  assumes "g < n" and "n < 2 ^ 64"
  shows "\<exists>P. get_flat_group_iteration_order n g = Some (flat_order P 0 0 n) \<and> follows P 0 0 n g
           \<and> (g = 0 \<longrightarrow> P = 0)"
proof -
  have tree: "recursively_subdivide [leaf_node 0 n] = sub_nodes 0 0 n"
    using recursively_subdivide_appends [of "[]" 0 n] by simp
  obtain P where "find_start_path g (sub_nodes 0 0 n) (sub_nodes 0 0 n ! 0) 0 0
      = Some (leaf_node g (Suc g), P)" and "follows P 0 0 n g" and "g = 0 \<longrightarrow> P = 0"
    using find_start_path_sub_nodes [of 0 g n 0 0 "[]" "[]"] assms by auto
  moreover have "enumerate_paths P 1 (sub_nodes 0 0 n) 0 [] = Some (flat_order P 0 0 n)"
    using enumerate_paths_sub_nodes [of P 0 "[]" 0 n "[]" "[]"] by simp
  ultimately show ?thesis
    using assms(1) by (auto simp: get_flat_group_iteration_order_def tree)
qed

text \<open>Without turns to the high half the leaves are listed from left to right.\<close>

lemma flat_order_no_turns:
  assumes "lo < hi" and "\<And>k. d \<le> k \<Longrightarrow> \<not> bit P k"
  shows "flat_order P d lo hi = [lo..<hi]"
  using assms
proof (induction "hi - lo" arbitrary: P d lo hi rule: less_induct)
  case less
  show ?case
  proof (cases "hi - lo > 1")
    case False
    with less.prems(1) have "hi = Suc lo" by simp
    then show ?thesis by (simp add: flat_order.simps [of P d lo])
  next
    case True
    note mid = range_mid_bounds [OF True]
    have "\<not> bit (P XOR push_bit d 1) k" if "Suc d \<le> k" for k
      using that less.prems(2) [of k] by (simp add: bit_simps)
    then have "flat_order (P XOR push_bit d 1) (Suc d) (range_mid lo hi) hi = [range_mid lo hi..<hi]"
      using less.hyps [OF mid(4) mid(2)] by blast
    moreover have "flat_order P (Suc d) lo (range_mid lo hi) = [lo..<range_mid lo hi]"
      using less.hyps [OF mid(3) mid(1), of "Suc d" P] less.prems(2) by simp
    ultimately show ?thesis
      using True mid(1,2) less.prems(2) [of d] upt_split [of lo "range_mid lo hi" hi]
      by (simp add: flat_order.simps [of P d lo hi])
  qed
qed

section \<open>Properties\<close>

lemma iteration_order_Some:
  assumes "g < n" and "n < 2 ^ 64"
  obtains os where "get_flat_group_iteration_order n g = Some os"
    and "mset os = mset [0..<n]" and "hd os = g"
proof -
  obtain P where "get_flat_group_iteration_order n g = Some (flat_order P 0 0 n)"
    and "follows P 0 0 n g"
    using get_flat_group_iteration_order_eq [OF assms] by blast
  then show thesis
    using that assms(1) mset_flat_order [of 0 n P 0] hd_flat_order [of 0 g n P 0] by simp
qed

lemma iteration_order_0_eq:
  assumes "n < 2 ^ 64"
  shows "get_flat_group_iteration_order n 0 = Some [0..<n]"
proof (cases "n = 0")
  case False
  then show ?thesis
    using get_flat_group_iteration_order_eq [of 0 n] flat_order_no_turns [of 0 n 0 0] assms by auto
qed (simp add: get_flat_group_iteration_order_def)

text \<open>
  for every group that exists, the visiting order is found, starts with that group and lists
  every group exactly once, whatever the shape of the subdivision tree is.
\<close>

lemma iteration_order_is_permutation:
  assumes "StartGroup < GroupCount" and "GroupCount < 2 ^ 64"
  shows "\<exists>order. get_flat_group_iteration_order GroupCount StartGroup = Some order
           \<and> mset order = mset [0..<GroupCount] \<and> distinct order \<and> hd order = StartGroup"
  using iteration_order_Some [OF assms] mset_eq_upt_distinct by metis

theorem iteration_order_is_permutation_witness:
  "(3::nat) < 5 \<and> (\<exists>order. get_flat_group_iteration_order 5 3 = Some order
     \<and> mset order = mset [0..<5] \<and> distinct order \<and> hd order = 3)"
  using iteration_order_is_permutation [of 3 5] by simp

text \<open>
  from group 0 the groups are visited from left to right, which is what makes the traversal
  of the hierarchy by \<open>ThreadCacheGroupIterator\<close> list the leaves in the order of their indexes.
\<close>

lemma iteration_order_from_0:
  assumes "GroupCount < 2 ^ 64"
  shows "get_flat_group_iteration_order GroupCount 0 = Some [0..<GroupCount]"
  using assms by (rule iteration_order_0_eq)

theorem iteration_order_from_0_witness:
  "get_flat_group_iteration_order 6 0 = Some [0, 1, 2, 3, 4, 5]"
  using iteration_order_from_0 [of 6] by (simp add: upt_rec)

end
