(* ===== verification/GroupIterator.thy ===== *)
theory GroupIterator
  imports GroupOrder
begin

text \<open>
  The cache-group hierarchy of \<open>include/tmc/detail/thread_layout.hpp\<close> and the two iterators of
  \<open>thread_layout.ipp\<close> that walk its leaves: \<open>ThreadCacheGroupIterator\<close> (with \<open>for_all_groups\<close>
  and \<open>flatten_groups\<close>) and \<open>WorkStealingMatrixIterator\<close>. The vector of iterator states is a
  list whose head is \<open>states_.back()\<close>; a read outside a vector is the value \<open>None\<close>.
\<close>

section \<open>Topology data\<close>

text \<open>
  A core: the number of its processing units, the library's own index, the logical index of its
  NUMA node (\<open>None\<close> for a null pointer) and its kind. The \<open>cpuset\<close> and \<open>cache\<close> handles of hwloc
  are not read by the code modelled here.
\<close>

record TopologyCore =
  core_pus :: nat
  core_index :: nat
  core_numa :: "nat option"
  core_cpu_kind :: nat

datatype CacheGroup = CacheGroup
  (cg_index: int) (cg_cpu_kind: nat) (cg_children: "CacheGroup list")
  (cg_cores: "TopologyCore list") (cg_size: nat) (cg_start: nat)

section \<open>ThreadCacheGroupIterator\<close>

record iter_state =
  orderIdx :: nat
  st_cores :: "CacheGroup list"
  st_order :: "nat list"

definition current_group :: "iter_state \<Rightarrow> CacheGroup option" where
  "current_group s =
    (if orderIdx s < length (st_order s) \<and> st_order s ! orderIdx s < length (st_cores s)
     then Some (st_cores s ! (st_order s ! orderIdx s)) else None)"

definition iter_init :: "CacheGroup list \<Rightarrow> iter_state list option" where
  "iter_init groups =
    map_option (\<lambda>order. [\<lparr>orderIdx = 0, st_cores = groups, st_order = order\<rparr>])
      (get_flat_group_iteration_order (length groups) 0)"

text \<open>The descent of \<open>next\<close>: recurse into the first child until the current group is a leaf.\<close>

partial_function (option) iter_descend :: "iter_state list \<Rightarrow> iter_state list option" where
  "iter_descend states =
    (case states of
       [] \<Rightarrow> None
     | s # rest \<Rightarrow>
         (case current_group s of
            None \<Rightarrow> None
          | Some grp \<Rightarrow>
              if cg_children grp \<noteq> [] then
                Option.bind (get_flat_group_iteration_order (length (cg_children grp)) 0)
                  (\<lambda>order. iter_descend
                     (\<lparr>orderIdx = 0, st_cores = cg_children grp, st_order = order\<rparr> # states))
              else Some states))"

text \<open>The loop after \<open>process_\<close>: step to the next sibling, popping exhausted levels.\<close>

fun iter_advance :: "iter_state list \<Rightarrow> iter_state list" where
  "iter_advance [] = []"
| "iter_advance (s # rest) =
    (let s' = s\<lparr>orderIdx := orderIdx s + 1\<rparr>
     in if orderIdx s' < length (st_order s') then s' # rest else iter_advance rest)"

text \<open>
  \<open>next\<close> returns the stack of states at which \<open>process_\<close> is called (\<open>None\<close> when nothing remains
  to visit and \<open>next\<close> is false) and the stack it leaves behind.
\<close>

definition iter_next :: "iter_state list \<Rightarrow> (iter_state list option \<times> iter_state list) option" where
  "iter_next states =
    (if states = [] then Some (None, [])
     else map_option (\<lambda>st. (Some st, iter_advance st)) (iter_descend states))"

text \<open>\<open>for_all_groups\<close> with the callback of \<open>flatten_groups\<close>, which appends the group.\<close>

partial_function (option) for_all_groups ::
  "iter_state list \<Rightarrow> CacheGroup list \<Rightarrow> CacheGroup list option" where
  "for_all_groups states flatGroups =
    Option.bind (iter_next states)
      (\<lambda>(visited, states').
         case visited of
           None \<Rightarrow> Some flatGroups
         | Some st \<Rightarrow> Option.bind (current_group (hd st))
             (\<lambda>grp. for_all_groups states' (flatGroups @ [grp])))"

definition flatten_groups :: "CacheGroup list \<Rightarrow> CacheGroup list option" where
  "flatten_groups groups = Option.bind (iter_init groups) (\<lambda>states. for_all_groups states [])"

section \<open>WorkStealingMatrixIterator\<close>

text \<open>Rewrite each level of the copied stack to start from the current index of that level.\<close>

fun reorder_levels :: "iter_state list \<Rightarrow> iter_state list option" where
  "reorder_levels [] = Some []"
| "reorder_levels (s # rest) =
    (if orderIdx s < length (st_order s) then
       Option.bind
         (get_flat_group_iteration_order (length (st_cores s)) (st_order s ! orderIdx s))
         (\<lambda>order. map_option (\<lambda>rest'. s\<lparr>orderIdx := 0, st_order := order\<rparr> # rest')
            (reorder_levels rest))
     else None)"

definition child_start :: "nat list \<Rightarrow> nat \<Rightarrow> nat \<Rightarrow> nat" where
  "child_start startIndexes depth n =
    (if depth < length startIndexes then startIndexes ! depth mod n
     else last startIndexes mod n)"

partial_function (option) group_order_loop ::
  "nat list \<Rightarrow> iter_state list \<Rightarrow> CacheGroup list \<Rightarrow> CacheGroup list option" where
  "group_order_loop startIndexes myState Output =
    (case myState of
       [] \<Rightarrow> Some Output
     | s # rest \<Rightarrow>
         (case current_group s of
            None \<Rightarrow> None
          | Some grp \<Rightarrow>
              if cg_children grp \<noteq> [] then
                Option.bind
                  (get_flat_group_iteration_order (length (cg_children grp))
                     (child_start startIndexes (length myState) (length (cg_children grp))))
                  (\<lambda>order. group_order_loop startIndexes
                     (\<lparr>orderIdx = 0, st_cores = cg_children grp, st_order = order\<rparr> # myState)
                     Output)
              else group_order_loop startIndexes (iter_advance myState) (Output @ [grp])))"

definition get_group_order :: "iter_state list \<Rightarrow> CacheGroup list option" where
  "get_group_order states =
    Option.bind (reorder_levels states)
      (\<lambda>myState. group_order_loop (map (\<lambda>s. st_order s ! 0) (rev myState)) myState [])"

text \<open>\<open>next\<close> of the derived iterator: its \<open>process_\<close> computes \<open>Output\<close>.\<close>

definition matrix_iter_next ::
  "iter_state list \<Rightarrow> (CacheGroup list option \<times> iter_state list) option" where
  "matrix_iter_next states =
    Option.bind (iter_next states)
      (\<lambda>(visited, states').
         case visited of
           None \<Rightarrow> Some (None, states')
         | Some st \<Rightarrow> map_option (\<lambda>Output. (Some Output, states')) (get_group_order st))"

section \<open>The leaves of a hierarchy and what is left to visit\<close>

fun leaves :: "CacheGroup \<Rightarrow> CacheGroup list" where
  "leaves (CacheGroup i k cs co sz start) =
    (if cs = [] then [CacheGroup i k cs co sz start] else concat (map leaves cs))"

definition all_leaves :: "CacheGroup list \<Rightarrow> CacheGroup list" where
  "all_leaves gs = concat (map leaves gs)"

fun group_weight :: "CacheGroup \<Rightarrow> nat" where
  "group_weight (CacheGroup i k cs co sz start) = Suc (sum_list (map group_weight cs))"

text \<open>The vectors of the hierarchy have sizes that a \<open>size_t\<close> can hold.\<close>

fun fits :: "CacheGroup \<Rightarrow> bool" where
  "fits (CacheGroup i k cs co sz start) = (length cs < 2 ^ 64 \<and> list_all fits cs)"

definition fits_all :: "CacheGroup list \<Rightarrow> bool" where
  "fits_all gs \<longleftrightarrow> length gs < 2 ^ 64 \<and> list_all fits gs"

lemma leaves_leaf: "cg_children g = [] \<Longrightarrow> leaves g = [g]"
  by (cases g) simp

lemma leaves_inner: "cg_children g \<noteq> [] \<Longrightarrow> leaves g = all_leaves (cg_children g)"
  by (cases g) (simp add: all_leaves_def)

lemma group_weight_children: "group_weight g = Suc (sum_list (map group_weight (cg_children g)))"
  by (cases g) simp

lemma fits_children: "fits g \<Longrightarrow> fits_all (cg_children g)"
  by (cases g) (simp add: fits_all_def)

definition level_groups :: "iter_state \<Rightarrow> CacheGroup list" where
  "level_groups s = map (\<lambda>i. st_cores s ! i) (drop (orderIdx s) (st_order s))"

text \<open>What remains below the top level, and what remains in all.\<close>

fun pend_up :: "iter_state list \<Rightarrow> CacheGroup list" where
  "pend_up [] = []"
| "pend_up (s # rest) = all_leaves (tl (level_groups s)) @ pend_up rest"

fun pend :: "iter_state list \<Rightarrow> CacheGroup list" where
  "pend [] = []"
| "pend (s # rest) = all_leaves (level_groups s) @ pend_up rest"

fun pend_weight_up :: "iter_state list \<Rightarrow> nat" where
  "pend_weight_up [] = 0"
| "pend_weight_up (s # rest) =
    sum_list (map group_weight (tl (level_groups s))) + pend_weight_up rest"

fun pend_weight :: "iter_state list \<Rightarrow> nat" where
  "pend_weight [] = 0"
| "pend_weight (s # rest) = sum_list (map group_weight (level_groups s)) + pend_weight_up rest"

definition level_ok :: "iter_state \<Rightarrow> bool" where
  "level_ok s \<longleftrightarrow> orderIdx s < length (st_order s)
     \<and> mset (st_order s) = mset [0..<length (st_cores s)] \<and> fits_all (st_cores s)"

lemma level_ok_current:
  assumes "level_ok s"
  obtains g where "current_group s = Some g" and "g \<in> set (st_cores s)" and "fits g"
    and "\<exists>gs. level_groups s = g # gs"
proof -
  from assms have lt: "orderIdx s < length (st_order s)"
    and perm: "mset (st_order s) = mset [0..<length (st_cores s)]"
    and fits: "fits_all (st_cores s)" by (simp_all add: level_ok_def)
  let ?i = "st_order s ! orderIdx s"
  have "?i \<in> set (st_order s)" using lt by simp
  then have i: "?i < length (st_cores s)" using mset_eq_upt_set [OF perm] by simp
  have drop: "drop (orderIdx s) (st_order s) = ?i # drop (Suc (orderIdx s)) (st_order s)"
    using lt by (simp add: Cons_nth_drop_Suc)
  show thesis
  proof (rule that [of "st_cores s ! ?i"])
    show "current_group s = Some (st_cores s ! ?i)" using lt i by (simp add: current_group_def)
    show "fits (st_cores s ! ?i)" using fits i by (simp add: fits_all_def list_all_length)
    show "\<exists>gs. level_groups s = st_cores s ! ?i # gs"
      unfolding level_groups_def drop by simp
  qed (use i in simp)
qed

lemma level_groups_step:
  "level_groups (s\<lparr>orderIdx := Suc (orderIdx s)\<rparr>) = tl (level_groups s)"
  by (simp add: level_groups_def drop_Suc tl_drop flip: map_tl)

lemma level_groups_last:
  "\<not> Suc (orderIdx s) < length (st_order s) \<Longrightarrow> tl (level_groups s) = []"
  by (simp add: level_groups_def tl_drop flip: map_tl drop_Suc)

lemma pend_advance: "pend (iter_advance st) = pend_up st"
proof (induction st rule: iter_advance.induct)
  case (2 s rest)
  then show ?case
    by (auto simp: Let_def level_groups_step level_groups_last all_leaves_def)
qed simp

lemma pend_weight_advance: "pend_weight (iter_advance st) = pend_weight_up st"
proof (induction st rule: iter_advance.induct)
  case (2 s rest)
  then show ?case
    by (auto simp: Let_def level_groups_step level_groups_last)
qed simp

lemma level_ok_advance: "list_all level_ok st \<Longrightarrow> list_all level_ok (iter_advance st)"
  by (induction st rule: iter_advance.induct) (auto simp: Let_def level_ok_def)

lemma level_groups_start:
  assumes "st_order s = order" and "mset order = mset [0..<length (st_cores s)]" and "orderIdx s = 0"
  shows "mset (level_groups s) = mset (st_cores s)"
    and "order = [0..<length (st_cores s)] \<Longrightarrow> level_groups s = st_cores s"
proof -
  have "mset (level_groups s) = image_mset (\<lambda>i. st_cores s ! i) (mset order)"
    using assms by (simp add: level_groups_def)
  also have "\<dots> = mset (map (\<lambda>i. st_cores s ! i) [0..<length (st_cores s)])"
    using assms(2) by simp
  finally show "mset (level_groups s) = mset (st_cores s)" by (simp only: map_nth)
  show "order = [0..<length (st_cores s)] \<Longrightarrow> level_groups s = st_cores s"
    using assms by (simp add: level_groups_def map_nth)
qed

lemma mset_all_leaves: "mset (all_leaves gs) = (\<Sum>g \<in># mset gs. mset (leaves g))"
  unfolding all_leaves_def by (induction gs) auto

text \<open>Pushing the children of the current group does not change what remains, up to the order.\<close>

lemma push_children:
  assumes ok: "list_all level_ok (s # rest)" and cur: "current_group s = Some g"
    and inner: "cg_children g \<noteq> []"
    and order: "mset order = mset [0..<length (cg_children g)]"
  defines "c \<equiv> \<lparr>orderIdx = 0, st_cores = cg_children g, st_order = order\<rparr>"
  shows "level_ok c"
    and "mset (pend (c # s # rest)) = mset (pend (s # rest))"
    and "pend_weight (c # s # rest) < pend_weight (s # rest)"
    and "order = [0..<length (cg_children g)] \<Longrightarrow> pend (c # s # rest) = pend (s # rest)"
proof -
  have s: "level_ok s" using ok by simp
  obtain gs where g: "fits g" "level_groups s = g # gs"
    using level_ok_current [OF s] cur by (metis option.inject)
  show "level_ok c"
    using fits_children [OF g(1)] inner order mset_eq_upt_length [OF order]
    by (simp add: c_def level_ok_def)
  have c: "st_order c = order" "st_cores c = cg_children g" "orderIdx c = 0"
    by (simp_all add: c_def)
  have perm: "mset (level_groups c) = mset (cg_children g)"
    using level_groups_start(1) [OF c(1) _ c(3)] order c(2) by simp
  have same: "level_groups c = cg_children g" if "order = [0..<length (cg_children g)]"
    using level_groups_start(2) [OF c(1) _ c(3)] order c(2) that by metis
  show "mset (pend (c # s # rest)) = mset (pend (s # rest))"
    by (simp add: g(2) mset_all_leaves leaves_inner [OF inner] perm)
  show "order = [0..<length (cg_children g)] \<Longrightarrow> pend (c # s # rest) = pend (s # rest)"
    by (simp add: g(2) same all_leaves_def leaves_inner [OF inner])
  have "sum_list (map group_weight (level_groups c)) = sum_list (map group_weight (cg_children g))"
    using perm by (metis mset_map sum_mset_sum_list)
  moreover have "sum_list (map group_weight (level_groups s))
      = group_weight g + sum_list (map group_weight gs)"
    by (simp add: g(2))
  ultimately show "pend_weight (c # s # rest) < pend_weight (s # rest)"
    using group_weight_children [of g] by (simp add: g(2))
qed

lemma leaf_first:
  assumes "level_ok s" and "current_group s = Some g" and "cg_children g = []"
  shows "pend (s # rest) = g # pend_up (s # rest)"
    and "pend_weight_up (s # rest) < pend_weight (s # rest)"
proof -
  obtain gs where split: "level_groups s = g # gs"
    using level_ok_current [OF assms(1)] assms(2) by (metis option.inject)
  then show "pend (s # rest) = g # pend_up (s # rest)"
    using leaves_leaf [OF assms(3)] by (simp add: all_leaves_def)
  show "pend_weight_up (s # rest) < pend_weight (s # rest)"
    using group_weight_children [of g] split by simp
qed

section \<open>ThreadCacheGroupIterator visits the leaves from left to right\<close>

lemma iter_descend_leaf:
  assumes "list_all level_ok st" and "st \<noteq> []"
  shows "\<exists>st' g. iter_descend st = Some st' \<and> list_all level_ok st' \<and> st' \<noteq> []
           \<and> current_group (hd st') = Some g \<and> cg_children g = [] \<and> pend st' = pend st
           \<and> (\<exists>up. st' = up @ st)"
  using assms
proof (induction "pend_weight st" arbitrary: st rule: less_induct)
  case less
  obtain s rest where st: "st = s # rest" using less.prems(2) by (cases st) auto
  then obtain g where g: "current_group s = Some g" "fits g"
    using less.prems(1) level_ok_current [of s] by auto
  show ?case
  proof (cases "cg_children g = []")
    case True
    then show ?thesis using less.prems st g by (simp add: iter_descend.simps [of "s # rest"])
  next
    case False
    let ?n = "length (cg_children g)"
    let ?c = "\<lparr>orderIdx = 0, st_cores = cg_children g, st_order = [0..<?n]\<rparr>"
    have "?n < 2 ^ 64" using fits_children [OF g(2)] by (simp add: fits_all_def)
    then have step: "iter_descend st = iter_descend (?c # st)"
      using g False st by (subst iter_descend.simps) (simp add: iteration_order_0_eq)
    note push = push_children [OF less.prems(1) [unfolded st] g(1) False refl]
    have "\<exists>st' g. iter_descend (?c # st) = Some st' \<and> list_all level_ok st' \<and> st' \<noteq> []
           \<and> current_group (hd st') = Some g \<and> cg_children g = [] \<and> pend st' = pend (?c # st)
           \<and> (\<exists>up. st' = up @ ?c # st)"
      using push(1,3) less.prems st by (intro less.hyps) simp_all
    then show ?thesis
      unfolding step using push(4) st by (metis append.assoc append_Cons append_Nil)
  qed
qed

lemma for_all_groups_pend:
  assumes "list_all level_ok st"
  shows "for_all_groups st acc = Some (acc @ pend st)"
  using assms
proof (induction "length (pend st)" arbitrary: st acc rule: less_induct)
  case less
  show ?case
  proof (cases "st = []")
    case True
    then show ?thesis by (simp add: for_all_groups.simps iter_next_def)
  next
    case False
    then obtain st' g where d: "iter_descend st = Some st'" "list_all level_ok st'" "st' \<noteq> []"
      "current_group (hd st') = Some g" "cg_children g = []" "pend st' = pend st"
      using iter_descend_leaf [OF less.prems] by blast
    then obtain s rest where st': "st' = s # rest" by (cases st') auto
    have p: "pend st = g # pend (iter_advance st')"
      using leaf_first(1) [of s g rest] d st' by (simp add: pend_advance del: iter_advance.simps)
    then have "for_all_groups (iter_advance st') (acc @ [g]) = Some (acc @ [g] @ pend (iter_advance st'))"
      using less.hyps [of "iter_advance st'" "acc @ [g]"] level_ok_advance [OF d(2)]
      by (simp del: iter_advance.simps)
    then show ?thesis
      using False d p by (simp add: for_all_groups.simps [of st] iter_next_def del: iter_advance.simps)
  qed
qed

lemma iter_init_Some:
  assumes "fits_all H"
  shows "iter_init H = Some [\<lparr>orderIdx = 0, st_cores = H, st_order = [0..<length H]\<rparr>]"
  using assms by (simp add: iter_init_def fits_all_def iteration_order_0_eq)

section \<open>WorkStealingMatrixIterator visits every leaf once, from the current one\<close>

lemma child_start_bound: "0 < n \<Longrightarrow> child_start starts depth n < n"
  by (simp add: child_start_def)

lemma child_start_0: "starts \<noteq> [] \<Longrightarrow> set starts \<subseteq> {0} \<Longrightarrow> child_start starts depth n = 0"
  using nth_mem [of depth starts] last_in_set [of starts]
  by (auto simp: child_start_def subset_iff simp del: nth_mem last_in_set)

lemma group_order_loop_pend:
  assumes "list_all level_ok st"
  shows "\<exists>Out. group_order_loop starts st acc = Some (acc @ Out) \<and> mset Out = mset (pend st)
           \<and> (starts \<noteq> [] \<and> set starts \<subseteq> {0} \<longrightarrow> Out = pend st)"
  using assms
proof (induction "pend_weight st" arbitrary: st acc rule: less_induct)
  case less
  show ?case
  proof (cases st)
    case Nil
    then show ?thesis by (simp add: group_order_loop.simps)
  next
    case (Cons s rest)
    then obtain g where g: "current_group s = Some g" "fits g"
      using less.prems level_ok_current [of s] by auto
    show ?thesis
    proof (cases "cg_children g = []")
      case True
      have step: "group_order_loop starts st acc = group_order_loop starts (iter_advance st) (acc @ [g])"
        using Cons g True by (subst group_order_loop.simps) (simp del: iter_advance.simps)
      have w: "pend_weight (iter_advance st) < pend_weight st"
        using leaf_first(2) [of s g rest] Cons g True less.prems
        by (simp add: pend_weight_advance del: iter_advance.simps)
      have p: "pend st = g # pend (iter_advance st)"
        using leaf_first(1) [of s g rest] Cons g True less.prems
        by (simp add: pend_advance del: iter_advance.simps)
      show ?thesis
        using less.hyps [OF w level_ok_advance [OF less.prems], of "acc @ [g]"] step p by auto
    next
      case False
      let ?n = "length (cg_children g)"
      let ?k = "child_start starts (length st) ?n"
      have n: "?n < 2 ^ 64" using fits_children [OF g(2)] by (simp add: fits_all_def)
      have "?k < ?n" using False by (simp add: child_start_bound)
      then obtain order where o: "get_flat_group_iteration_order ?n ?k = Some order"
        "mset order = mset [0..<?n]" using iteration_order_Some [OF _ n] by blast
      let ?c = "\<lparr>orderIdx = 0, st_cores = cg_children g, st_order = order\<rparr>"
      have step: "group_order_loop starts st acc = group_order_loop starts (?c # st) acc"
        using Cons g False o by (subst group_order_loop.simps) simp
      note push = push_children [OF less.prems [unfolded Cons] g(1) False o(2)]
      have "list_all level_ok (?c # st)" "pend_weight (?c # st) < pend_weight st"
        using push(1,3) less.prems Cons by simp_all
      then obtain Out where Out: "group_order_loop starts (?c # st) acc = Some (acc @ Out)"
        "mset Out = mset (pend (?c # st))"
        "starts \<noteq> [] \<and> set starts \<subseteq> {0} \<longrightarrow> Out = pend (?c # st)"
        using less.hyps by blast
      have "order = [0..<?n]" if "starts \<noteq> [] \<and> set starts \<subseteq> {0}"
        using that o(1) iteration_order_0_eq [OF n] child_start_0 [of starts "length st" ?n] by simp
      then show ?thesis
        unfolding step using Out push(2,4) Cons by auto
    qed
  qed
qed

text \<open>
  The stacks the iterator goes through: the bottom level holds the hierarchy and each level above
  holds the children of the current group of the level below it.
\<close>

fun chain :: "CacheGroup list \<Rightarrow> iter_state list \<Rightarrow> bool" where
  "chain H [] \<longleftrightarrow> True"
| "chain H [s] \<longleftrightarrow> st_cores s = H"
| "chain H (s # t # rest) \<longleftrightarrow>
    (\<exists>g. current_group t = Some g \<and> st_cores s = cg_children g \<and> cg_children g \<noteq> [])
    \<and> chain H (t # rest)"

lemma chain_tl: "chain H (s # rest) \<Longrightarrow> chain H rest"
  by (cases rest) simp_all

lemma chain_advance: "chain H st \<Longrightarrow> chain H (iter_advance st)"
proof (induction st rule: iter_advance.induct)
  case (2 s rest)
  then show ?case by (cases rest) (auto simp: Let_def dest: chain_tl)
qed simp

lemma chain_descend:
  assumes "list_all level_ok st" and "chain H st" and "iter_descend st = Some st'"
  shows "chain H st'"
  using assms
proof (induction "pend_weight st" arbitrary: st rule: less_induct)
  case less
  obtain s rest where st: "st = s # rest"
    using less.prems(3) by (cases st) (auto simp: iter_descend.simps)
  then obtain g where g: "current_group s = Some g" "fits g"
    using less.prems(1) level_ok_current [of s] by auto
  show ?case
  proof (cases "cg_children g = []")
    case True
    then show ?thesis using less.prems st g by (simp add: iter_descend.simps [of "s # rest"])
  next
    case False
    let ?n = "length (cg_children g)"
    let ?c = "\<lparr>orderIdx = 0, st_cores = cg_children g, st_order = [0..<?n]\<rparr>"
    have "?n < 2 ^ 64" using fits_children [OF g(2)] by (simp add: fits_all_def)
    then have "iter_descend st = iter_descend (?c # st)"
      using g False st by (subst iter_descend.simps) (simp add: iteration_order_0_eq)
    moreover have "chain H (?c # st)" using st g False less.prems(2) by simp
    moreover note push = push_children [OF less.prems(1) [unfolded st] g(1) False refl]
    have "list_all level_ok (?c # st)" "pend_weight (?c # st) < pend_weight st"
      using push(1,3) less.prems(1) st by simp_all
    ultimately show ?thesis using less.hyps [of "?c # st"] less.prems(3) by simp
  qed
qed

text \<open>A level after \<open>reorder_levels\<close>: the same groups, listed from the current one.\<close>

definition restarted :: "iter_state \<Rightarrow> iter_state \<Rightarrow> bool" where
  "restarted s s' \<longleftrightarrow> st_cores s' = st_cores s \<and> current_group s' = current_group s
     \<and> orderIdx s' = 0 \<and> st_order s' ! 0 = st_order s ! orderIdx s
     \<and> (st_order s ! orderIdx s = 0 \<longrightarrow> st_order s' = [0..<length (st_cores s)])"

lemma reorder_levels_Some:
  assumes "list_all level_ok st"
  shows "\<exists>st'. reorder_levels st = Some st' \<and> list_all level_ok st' \<and> list_all2 restarted st st'"
  using assms
proof (induction st)
  case (Cons s rest)
  from Cons.prems have lt: "orderIdx s < length (st_order s)"
    and perm: "mset (st_order s) = mset [0..<length (st_cores s)]"
    and fits: "fits_all (st_cores s)" by (simp_all add: level_ok_def)
  let ?g = "st_order s ! orderIdx s" and ?n = "length (st_cores s)"
  have i: "?g < ?n" using lt nth_mem [OF lt] mset_eq_upt_set [OF perm] by auto
  have n: "?n < 2 ^ 64" using fits by (simp add: fits_all_def)
  obtain order where o: "get_flat_group_iteration_order ?n ?g = Some order"
    "mset order = mset [0..<?n]" "hd order = ?g"
    using iteration_order_Some [OF i n] by blast
  have len: "0 < length order" using mset_eq_upt_length [OF o(2)] i by linarith
  then have hd: "order ! 0 = ?g" using o(3) by (cases order) simp_all
  let ?s = "s\<lparr>orderIdx := 0, st_order := order\<rparr>"
  have "order = [0..<?n]" if "?g = 0"
    using o(1) iteration_order_0_eq [OF n] that by simp
  then have "restarted s ?s"
    using hd len lt i by (simp add: restarted_def current_group_def)
  moreover have "level_ok ?s" using o(2) fits len by (simp add: level_ok_def)
  ultimately show ?case using Cons lt o(1) by auto
qed simp

lemma restarted_level:
  assumes "restarted t t'" and "level_ok t'" and "current_group t = Some g"
  obtains gs where "level_groups t' = g # gs" and "mset (st_cores t) = mset (g # gs)"
    and "st_order t ! orderIdx t = 0 \<Longrightarrow> st_cores t = g # gs"
proof -
  have t': "current_group t' = Some g" "st_cores t' = st_cores t" "orderIdx t' = 0"
    using assms(1,3) by (simp_all add: restarted_def)
  have perm: "mset (st_order t') = mset [0..<length (st_cores t')]"
    using assms(2) by (simp add: level_ok_def)
  obtain gs where split: "level_groups t' = g # gs"
    using level_ok_current [OF assms(2)] t'(1) by (metis option.inject)
  moreover have "mset (st_cores t) = mset (g # gs)"
    using level_groups_start(1) [OF refl perm t'(3)] t'(2) split by simp
  moreover have "st_cores t = g # gs" if "st_order t ! orderIdx t = 0"
    using level_groups_start(2) [OF refl perm t'(3)] t'(2) split that assms(1)
    by (simp add: restarted_def)
  ultimately show thesis by (rule that)
qed

lemma reordered_leaves:
  assumes "chain H (s # rest)" and "list_all level_ok rest'" and "list_all2 restarted rest rest'"
  shows "mset (all_leaves (st_cores s)) + mset (pend_up rest') = mset (all_leaves H)"
    and "\<forall>t \<in> set rest. st_order t ! orderIdx t = 0
           \<Longrightarrow> all_leaves (st_cores s) @ pend_up rest' = all_leaves H"
  using assms
proof (induction rest arbitrary: s rest')
  case (Cons t rest)
  have inv: "\<exists>t' rs' g. rest' = t' # rs' \<and> restarted t t' \<and> level_ok t' \<and> current_group t = Some g
      \<and> st_cores s = cg_children g \<and> cg_children g \<noteq> [] \<and> chain H (t # rest)
      \<and> list_all level_ok rs' \<and> list_all2 restarted rest rs'"
    if "chain H (s # t # rest)" "list_all level_ok rest'" "list_all2 restarted (t # rest) rest'"
    for s rest'
    using that by (cases rest') simp_all
  {
    case 1
    obtain t' rs' g where r: "rest' = t' # rs'" "restarted t t'" "level_ok t'"
      "current_group t = Some g" "st_cores s = cg_children g" "cg_children g \<noteq> []"
      "chain H (t # rest)" "list_all level_ok rs'" "list_all2 restarted rest rs'"
      using inv [OF 1] by blast
    obtain gs where gs: "level_groups t' = g # gs" "mset (st_cores t) = mset (g # gs)"
      using restarted_level [OF r(2-4)] by blast
    then show ?case
      using Cons.IH(1) [OF r(7-9)] r(1,5) leaves_inner [OF r(6)] by (simp add: mset_all_leaves ac_simps)
  next
    case 2
    obtain t' rs' g where r: "rest' = t' # rs'" "restarted t t'" "level_ok t'"
      "current_group t = Some g" "st_cores s = cg_children g" "cg_children g \<noteq> []"
      "chain H (t # rest)" "list_all level_ok rs'" "list_all2 restarted rest rs'"
      using inv [OF 2(2-4)] by blast
    obtain gs where gs: "level_groups t' = g # gs" "st_cores t = g # gs"
      using restarted_level [OF r(2-4)] 2(1) by (metis list.set_intros(1))
    then show ?case
      using Cons.IH(2) [OF _ r(7-9)] 2(1) r(1,5) leaves_inner [OF r(6)] by (simp add: all_leaves_def)
  }
qed simp_all

lemma list_all2_right: "list_all2 P xs ys \<Longrightarrow> y \<in> set ys \<Longrightarrow> \<exists>x \<in> set xs. P x y"
  by (induction rule: list_all2_induct) auto

lemma group_order_of_leaf:
  assumes "list_all level_ok (s # rest)" and "chain H (s # rest)"
    and leaf: "current_group s = Some g" "cg_children g = []"
  shows "\<exists>Out. get_group_order (s # rest) = Some (g # Out)
           \<and> mset (g # Out) = mset (all_leaves H)
           \<and> ((\<forall>t \<in> set (s # rest). st_order t ! orderIdx t = 0) \<longrightarrow> g # Out = all_leaves H)"
proof -
  obtain s' rest' where st': "reorder_levels (s # rest) = Some (s' # rest')"
      "list_all level_ok (s' # rest')" "restarted s s'" "list_all2 restarted rest rest'"
    using reorder_levels_Some [OF assms(1)] by (auto simp: list_all2_Cons1)
  let ?st = "s' # rest'"
  let ?starts = "map (\<lambda>s. st_order s ! 0) (rev ?st)"
  have s': "current_group s' = Some g" "level_ok s'" "st_cores s' = st_cores s"
    using st'(2,3) leaf(1) by (simp_all add: restarted_def)
  obtain gs where gs: "level_groups s' = g # gs" "mset (st_cores s) = mset (g # gs)"
    and same: "st_order s ! orderIdx s = 0 \<Longrightarrow> st_cores s = g # gs"
    using restarted_level [OF st'(3) s'(2) leaf(1)] by blast
  obtain Out where Out: "group_order_loop ?starts (iter_advance ?st) [g] = Some ([g] @ Out)"
      "mset Out = mset (pend_up ?st)"
    and inorder: "?starts \<noteq> [] \<and> set ?starts \<subseteq> {0} \<longrightarrow> Out = pend_up ?st"
    using group_order_loop_pend [OF level_ok_advance [OF st'(2)], of ?starts "[g]"]
    unfolding pend_advance by blast
  have "group_order_loop ?starts ?st [] = Some (g # Out)"
    using Out(1) s' leaf(2) by (subst group_order_loop.simps) (simp del: iter_advance.simps)
  then have run: "get_group_order (s # rest) = Some (g # Out)"
    using st'(1) by (simp add: get_group_order_def)
  have ok': "list_all level_ok rest'" using st'(2) by simp
  have all: "mset (g # Out) = mset (all_leaves H)"
    using reordered_leaves(1) [OF assms(2) ok' st'(4)] gs Out(2) leaves_leaf [OF leaf(2)]
    by (simp add: mset_all_leaves)
  have "g # Out = all_leaves H" if zero: "\<forall>t \<in> set (s # rest). st_order t ! orderIdx t = 0"
  proof -
    have "st_order t' ! 0 = 0" if t': "t' \<in> set ?st" for t'
    proof -
      have "list_all2 restarted (s # rest) ?st" using st'(3,4) by simp
      then obtain t where "t \<in> set (s # rest)" and "restarted t t'"
        using list_all2_right [OF _ t'] by blast
      then show ?thesis using zero unfolding restarted_def by metis
    qed
    then have "Out = pend_up ?st" using inorder by auto
    then show ?thesis
      using reordered_leaves(2) [OF assms(2) ok' st'(4)] zero gs same leaves_leaf [OF leaf(2)]
      by (simp add: all_leaves_def)
  qed
  then show ?thesis using run all by blast
qed

lemma descend_zero:
  assumes "list_all level_ok st" and "iter_descend st = Some st'"
    and "\<forall>t \<in> set st. st_order t ! orderIdx t = 0"
  shows "\<forall>t \<in> set st'. st_order t ! orderIdx t = 0"
  using assms
proof (induction "pend_weight st" arbitrary: st rule: less_induct)
  case less
  obtain s rest where st: "st = s # rest"
    using less.prems(2) by (cases st) (auto simp: iter_descend.simps)
  then obtain g where g: "current_group s = Some g" "fits g"
    using less.prems(1) level_ok_current [of s] by auto
  show ?case
  proof (cases "cg_children g = []")
    case True
    then have "st' = st" using less.prems(2) st g by (simp add: iter_descend.simps [of "s # rest"])
    then show ?thesis using less.prems(3) by simp
  next
    case False
    let ?n = "length (cg_children g)"
    let ?c = "\<lparr>orderIdx = 0, st_cores = cg_children g, st_order = [0..<?n]\<rparr>"
    have "?n < 2 ^ 64" using fits_children [OF g(2)] by (simp add: fits_all_def)
    then have step: "iter_descend st = iter_descend (?c # st)"
      using g False st by (subst iter_descend.simps) (simp add: iteration_order_0_eq)
    have "[0..<?n] ! 0 = 0" using False by (intro trans [OF nth_upt]) simp_all
    then have "\<forall>t \<in> set (?c # st). st_order t ! orderIdx t = 0" using less.prems(3) by simp
    moreover note push = push_children [OF less.prems(1) [unfolded st] g(1) False refl]
    have "list_all level_ok (?c # st)" "pend_weight (?c # st) < pend_weight st"
      using push(1,3) less.prems(1) st by simp_all
    ultimately show ?thesis using less.hyps [of "?c # st"] less.prems(2) step by simp
  qed
qed

text \<open>One call of \<open>next\<close> visits the first pending leaf and lists all leaves from it.\<close>

lemma matrix_iter_next_step:
  assumes "list_all level_ok st" and "chain H st" and "st \<noteq> []"
  shows "\<exists>g Out st'. matrix_iter_next st = Some (Some (g # Out), st')
           \<and> mset (g # Out) = mset (all_leaves H) \<and> pend st = g # pend st'
           \<and> list_all level_ok st' \<and> chain H st'
           \<and> ((\<forall>t \<in> set st. st_order t ! orderIdx t = 0) \<longrightarrow> g # Out = all_leaves H)"
proof -
  obtain d g where d: "iter_descend st = Some d" "list_all level_ok d" "d \<noteq> []"
    "current_group (hd d) = Some g" "cg_children g = []" "pend d = pend st"
    using iter_descend_leaf [OF assms(1,3)] by blast
  then obtain s rest where split: "d = s # rest" by (cases d) auto
  have ch: "chain H d" using chain_descend [OF assms(1,2) d(1)] .
  obtain Out where Out: "get_group_order d = Some (g # Out)" "mset (g # Out) = mset (all_leaves H)"
    and inorder: "(\<forall>t \<in> set d. st_order t ! orderIdx t = 0) \<longrightarrow> g # Out = all_leaves H"
    using group_order_of_leaf [of s rest H g] d ch split by auto
  have "matrix_iter_next st = Some (Some (g # Out), iter_advance d)"
    using assms(3) d(1) Out(1) by (simp add: matrix_iter_next_def iter_next_def)
  moreover have "pend st = g # pend (iter_advance d)"
    using leaf_first(1) [of s g rest] d split by (simp add: pend_advance del: iter_advance.simps)
  moreover have "list_all level_ok (iter_advance d)" "chain H (iter_advance d)"
    using level_ok_advance [OF d(2)] chain_advance [OF ch] by simp_all
  moreover have "(\<forall>t \<in> set st. st_order t ! orderIdx t = 0) \<longrightarrow> g # Out = all_leaves H"
    using inorder descend_zero [OF assms(1) d(1)] by blast
  ultimately show ?thesis using Out(2) by blast
qed

lemma iter_init_level:
  assumes "fits_all H" and "H \<noteq> []"
  shows "\<exists>s. iter_init H = Some [s] \<and> level_ok s \<and> st_cores s = H
           \<and> st_order s ! orderIdx s = 0 \<and> pend [s] = all_leaves H"
proof -
  let ?s = "\<lparr>orderIdx = 0, st_cores = H, st_order = [0..<length H]\<rparr>"
  have "[0..<length H] ! 0 = 0" using assms(2) by (intro trans [OF nth_upt]) simp_all
  moreover have "level_groups ?s = H" by (simp add: level_groups_def map_nth)
  ultimately show ?thesis
    using assms iter_init_Some [OF assms(1)] by (simp add: level_ok_def)
qed

section \<open>Properties\<close>

text \<open>
  C34: \<open>flatten_groups\<close> lists the leaf groups of the hierarchy in the order in which a
  depth-first walk meets them; the explicit stack of \<open>ThreadCacheGroupIterator\<close> visits each leaf
  exactly once and stops.
\<close>

theorem flatten_groups_lists_leaves:
  assumes "fits_all groups" and "groups \<noteq> []"
  shows "flatten_groups groups = Some (concat (map leaves groups))"
proof -
  obtain s where "iter_init groups = Some [s]" "level_ok s" "pend [s] = all_leaves groups"
    using iter_init_level [OF assms] by blast
  then show ?thesis
    using for_all_groups_pend [of "[s]" "[]"] by (simp add: flatten_groups_def all_leaves_def)
qed

abbreviation sample_core :: "nat \<Rightarrow> TopologyCore" where
  "sample_core i \<equiv> \<lparr>core_pus = 2, core_index = i, core_numa = None, core_cpu_kind = 0\<rparr>"

text \<open>Two groups that share a parent cache, of two cores and one core, and a third one.\<close>

definition sample_hierarchy :: "CacheGroup list" where
  "sample_hierarchy =
    [CacheGroup (- 1) 0
       [CacheGroup 0 0 [] [sample_core 0, sample_core 1] 2 0, CacheGroup 1 0 [] [sample_core 2] 1 2] [] 0 0,
     CacheGroup 2 0 [] [sample_core 3, sample_core 4] 2 3]"

theorem flatten_groups_lists_leaves_witness:
  "flatten_groups sample_hierarchy =
     Some [CacheGroup 0 0 [] [sample_core 0, sample_core 1] 2 0, CacheGroup 1 0 [] [sample_core 2] 1 2,
           CacheGroup 2 0 [] [sample_core 3, sample_core 4] 2 3]"
  using flatten_groups_lists_leaves [of sample_hierarchy]
  by (simp add: sample_hierarchy_def fits_all_def)

end
