(* ===== verification/StealMatrix.thy ===== *)
theory StealMatrix
  imports GroupIterator
begin

text \<open>
  The work-stealing matrices of \<open>include/tmc/detail/thread_layout.ipp\<close>: \<open>get_lattice_matrix\<close> and
  \<open>get_hierarchical_matrix\<close>. The two share the loops over groups and threads and differ in the
  row they compute for a thread; what a row has to satisfy is the locale \<open>steal_row\<close>.
\<close>

section \<open>The code\<close>

record ThreadGroupData =
  tg_start :: nat
  tg_size :: nat
  tg_stolen :: nat

text \<open>The loop that fills \<open>TData\<close>: the groups and the total number of threads.\<close>

fun setup_groups :: "CacheGroup list \<Rightarrow> nat \<Rightarrow> ThreadGroupData list \<times> nat" where
  "setup_groups [] groupStart = ([], groupStart)"
| "setup_groups (g # gs) groupStart =
    (let (ds, total) = setup_groups gs (groupStart + cg_size g)
     in (\<lparr>tg_start = groupStart, tg_size = cg_size g, tg_stolen = 0\<rparr> # ds, total))"

text \<open>\<open>TData.groups[static_cast<size_t>(g.index)]\<close>; a negative index is out of range.\<close>

definition group_slot :: "ThreadGroupData list \<Rightarrow> CacheGroup \<Rightarrow> nat option" where
  "group_slot T g =
    (if 0 \<le> cg_index g \<and> nat (cg_index g) < length T then Some (nat (cg_index g)) else None)"

text \<open>The first thread of another group that a thread looks at.\<close>

definition peer_offset :: "ThreadGroupData \<Rightarrow> ThreadGroupData \<Rightarrow> nat \<Rightarrow> nat" where
  "peer_offset own grp SubIdx = (if tg_size own = tg_size grp then SubIdx else tg_stolen grp)"

definition mark_stolen :: "ThreadGroupData \<Rightarrow> ThreadGroupData \<Rightarrow> ThreadGroupData" where
  "mark_stolen own grp =
    (if tg_size own \<noteq> tg_size grp then grp\<lparr>tg_stolen := tg_stolen grp + 1\<rparr> else grp)"

definition thread_at :: "ThreadGroupData \<Rightarrow> nat \<Rightarrow> nat \<Rightarrow> nat" where
  "thread_at grp k off = (k + off) mod tg_size grp + tg_start grp"

subsection \<open>Lattice rows\<close>

fun lattice_peers ::
  "ThreadGroupData list \<Rightarrow> nat \<Rightarrow> nat \<Rightarrow> CacheGroup list \<Rightarrow> nat list option" where
  "lattice_peers T own SubIdx [] = Some []"
| "lattice_peers T own SubIdx (g # gs) =
    Option.bind (group_slot T g)
      (\<lambda>gidx. let grp = T ! gidx in
        if tg_size grp = 0 then lattice_peers T own SubIdx gs
        else map_option ((#) (thread_at grp (peer_offset (T ! own) grp SubIdx) 0))
               (lattice_peers T own SubIdx gs))"

fun lattice_rest ::
  "ThreadGroupData list \<Rightarrow> nat \<Rightarrow> nat \<Rightarrow> CacheGroup list
    \<Rightarrow> (ThreadGroupData list \<times> nat list) option" where
  "lattice_rest T own SubIdx [] = Some (T, [])"
| "lattice_rest T own SubIdx (g # gs) =
    Option.bind (group_slot T g)
      (\<lambda>gidx. let grp = T ! gidx in
        if tg_size grp = 0 then lattice_rest T own SubIdx gs
        else map_option
               (\<lambda>(T', r). (T', map (thread_at grp (peer_offset (T ! own) grp SubIdx))
                                 [1..<tg_size grp] @ r))
               (lattice_rest (T[gidx := mark_stolen (T ! own) grp]) own SubIdx gs))"

definition lattice_row ::
  "ThreadGroupData list \<Rightarrow> CacheGroup list \<Rightarrow> nat \<Rightarrow> (ThreadGroupData list \<times> nat list) option" where
  "lattice_row T groupedCores SubIdx =
    (case groupedCores of
       [] \<Rightarrow> None
     | coreGroup # others \<Rightarrow>
         Option.bind (group_slot T coreGroup)
           (\<lambda>own. let mine = map (thread_at (T ! own) SubIdx) [0..<tg_size (T ! own)] in
             Option.bind (lattice_peers T own SubIdx others)
               (\<lambda>peers. map_option (\<lambda>(T', rest). (T', mine @ peers @ rest))
                  (lattice_rest T own SubIdx others))))"

subsection \<open>Hierarchical rows\<close>

fun hierarchical_groups ::
  "ThreadGroupData list \<Rightarrow> nat \<Rightarrow> nat \<Rightarrow> CacheGroup list
    \<Rightarrow> (ThreadGroupData list \<times> nat list) option" where
  "hierarchical_groups T own SubIdx [] = Some (T, [])"
| "hierarchical_groups T own SubIdx (g # gs) =
    Option.bind (group_slot T g)
      (\<lambda>gidx. let grp = T ! gidx in
        if tg_size grp = 0 then hierarchical_groups T own SubIdx gs
        else map_option
               (\<lambda>(T', r). (T', map (thread_at grp (peer_offset (T ! own) grp SubIdx))
                                 [0..<tg_size grp] @ r))
               (hierarchical_groups (T[gidx := mark_stolen (T ! own) grp]) own SubIdx gs))"

definition hierarchical_row ::
  "ThreadGroupData list \<Rightarrow> CacheGroup list \<Rightarrow> nat \<Rightarrow> (ThreadGroupData list \<times> nat list) option" where
  "hierarchical_row T groupedCores SubIdx =
    (case groupedCores of
       [] \<Rightarrow> None
     | coreGroup # others \<Rightarrow>
         Option.bind (group_slot T coreGroup)
           (\<lambda>own. hierarchical_groups T own SubIdx groupedCores))"

subsection \<open>The loops around the rows, which both functions share\<close>

fun matrix_threads ::
  "(ThreadGroupData list \<Rightarrow> CacheGroup list \<Rightarrow> nat \<Rightarrow> (ThreadGroupData list \<times> nat list) option)
    \<Rightarrow> CacheGroup list \<Rightarrow> nat list \<Rightarrow> ThreadGroupData list \<Rightarrow> nat list
    \<Rightarrow> (ThreadGroupData list \<times> nat list) option" where
  "matrix_threads row groupedCores [] T forward = Some (T, forward)"
| "matrix_threads row groupedCores (SubIdx # subs) T forward =
    Option.bind (row T groupedCores SubIdx)
      (\<lambda>(T', r). matrix_threads row groupedCores subs T' (forward @ r))"

partial_function (option) matrix_loop ::
  "(ThreadGroupData list \<Rightarrow> CacheGroup list \<Rightarrow> nat \<Rightarrow> (ThreadGroupData list \<times> nat list) option)
    \<Rightarrow> iter_state list \<Rightarrow> CacheGroup list \<Rightarrow> ThreadGroupData list \<Rightarrow> nat list \<Rightarrow> nat list option" where
  "matrix_loop row states groupedCores T forward =
    (case groupedCores of
       [] \<Rightarrow> None
     | coreGroup # others \<Rightarrow>
         Option.bind (matrix_threads row groupedCores [0..<cg_size coreGroup] T forward)
           (\<lambda>(T', forward').
             Option.bind (matrix_iter_next states)
               (\<lambda>(out, states').
                 case out of
                   None \<Rightarrow> Some forward'
                 | Some Output \<Rightarrow> matrix_loop row states' Output T' forward')))"

definition steal_matrix ::
  "(ThreadGroupData list \<Rightarrow> CacheGroup list \<Rightarrow> nat \<Rightarrow> (ThreadGroupData list \<times> nat list) option)
    \<Rightarrow> CacheGroup list \<Rightarrow> nat list option" where
  "steal_matrix row hierarchy =
    (if hierarchy = [] then None
     else Option.bind (iter_init hierarchy)
       (\<lambda>states. Option.bind (matrix_iter_next states)
         (\<lambda>(out, states').
           case out of
             None \<Rightarrow> None
           | Some Output \<Rightarrow> matrix_loop row states' Output (fst (setup_groups Output 0)) [])))"

definition get_lattice_matrix :: "CacheGroup list \<Rightarrow> nat list option" where
  "get_lattice_matrix hierarchy = steal_matrix lattice_row hierarchy"

definition get_hierarchical_matrix :: "CacheGroup list \<Rightarrow> nat list option" where
  "get_hierarchical_matrix hierarchy = steal_matrix hierarchical_row hierarchy"

section \<open>Rows of a layout\<close>

text \<open>
  \<open>layout T L\<close>: the leaf groups \<open>L\<close> carry their positions as indexes and \<open>T\<close> holds their sizes
  and the numbers of their first threads.
\<close>

definition first_thread :: "CacheGroup list \<Rightarrow> nat \<Rightarrow> nat" where
  "first_thread L i = sum_list (map cg_size (take i L))"

definition total_threads :: "CacheGroup list \<Rightarrow> nat" where
  "total_threads L = sum_list (map cg_size L)"

definition indexed :: "CacheGroup list \<Rightarrow> bool" where
  "indexed L \<longleftrightarrow> (\<forall>i < length L. cg_index (L ! i) = int i)"

definition layout :: "ThreadGroupData list \<Rightarrow> CacheGroup list \<Rightarrow> bool" where
  "layout T L \<longleftrightarrow> indexed L \<and> length T = length L
     \<and> (\<forall>i < length L. tg_size (T ! i) = cg_size (L ! i) \<and> tg_start (T ! i) = first_thread L i)"

definition group_threads :: "CacheGroup list \<Rightarrow> CacheGroup \<Rightarrow> nat multiset" where
  "group_threads L g =
    mset [first_thread L (nat (cg_index g))..<first_thread L (nat (cg_index g)) + cg_size g]"

lemma rotation_perm: "mset (map (thread_at grp k) [0..<tg_size grp]) = mset [tg_start grp..<tg_start grp + tg_size grp]"
proof -
  let ?n = "tg_size grp"
  have "map (\<lambda>off. (k + off) mod ?n) [0..<?n] = rotate k [0..<?n]"
    by (rule nth_equalityI) (simp_all add: nth_rotate)
  then have "mset (map (\<lambda>off. (k + off) mod ?n) [0..<?n]) = mset [0..<?n]"
    by simp
  then have "image_mset (\<lambda>i. i + tg_start grp) (mset (map (\<lambda>off. (k + off) mod ?n) [0..<?n]))
      = image_mset (\<lambda>i. i + tg_start grp) (mset [0..<?n])" by simp
  then have "mset (map (thread_at grp k) [0..<?n]) = mset (map (\<lambda>i. i + tg_start grp) [0..<?n])"
    by (simp add: thread_at_def [abs_def] multiset.map_comp comp_def)
  also have "map (\<lambda>i. i + tg_start grp) [0..<?n] = [tg_start grp..<tg_start grp + ?n]"
    using map_add_upt [of "tg_start grp" ?n] by (simp add: add.commute)
  finally show ?thesis .
qed

lemma sum_group_threads:
  assumes "indexed L"
  shows "(\<Sum>g \<in># mset L. group_threads L g) = mset [0..<total_threads L]"
proof -
  have "(\<Sum>i \<leftarrow> [0..<n]. mset [first_thread L i..<first_thread L i + cg_size (L ! i)])
      = mset [0..<first_thread L n]" if "n \<le> length L" for n
    using that
  proof (induction n)
    case (Suc n)
    have "first_thread L (Suc n) = first_thread L n + cg_size (L ! n)"
      using Suc.prems by (simp add: first_thread_def take_Suc_conv_app_nth)
    then show ?case using Suc upt_split [of 0 "first_thread L n" "first_thread L (Suc n)"] by simp
  qed (simp add: first_thread_def)
  note sum = this [of "length L"]
  have "map (\<lambda>i. group_threads L (L ! i)) [0..<length L]
      = map (\<lambda>i. mset [first_thread L i..<first_thread L i + cg_size (L ! i)]) [0..<length L]"
    using assms by (auto simp: group_threads_def indexed_def)
  then have "(\<Sum>i \<leftarrow> [0..<length L]. group_threads L (L ! i)) = mset [0..<total_threads L]"
    using sum by (simp only: total_threads_def first_thread_def take_all order_refl)
  moreover have "(\<Sum>i \<leftarrow> [0..<length L]. group_threads L (L ! i)) = (\<Sum>g \<leftarrow> L. group_threads L g)"
    by (rule arg_cong [of _ _ sum_list], rule nth_equalityI) simp_all
  ultimately show ?thesis by (simp add: sum_mset_sum_list [symmetric])
qed

lemma layout_slot:
  assumes "layout T L" and "g \<in> set L"
  obtains i where "group_slot T g = Some i" and "i < length T" and "i = nat (cg_index g)"
    and "tg_size (T ! i) = cg_size g" and "tg_start (T ! i) = first_thread L i"
    and "mset [tg_start (T ! i)..<tg_start (T ! i) + tg_size (T ! i)] = group_threads L g"
proof -
  obtain j where "j < length L" and "L ! j = g" using assms(2) by (auto simp: in_set_conv_nth)
  then show thesis
    using assms(1) that [of j] by (auto simp: layout_def indexed_def group_slot_def group_threads_def)
qed

lemma layout_mark:
  assumes "layout T L" and "i < length T"
  shows "layout (T[i := mark_stolen own (T ! i)]) L"
  using assms by (auto simp: layout_def mark_stolen_def nth_list_update)

lemma mark_stolen_frame [simp]:
  "tg_size (mark_stolen own grp) = tg_size grp" "tg_start (mark_stolen own grp) = tg_start grp"
  by (simp_all add: mark_stolen_def)

lemma indexed_distinct:
  assumes "indexed L"
  shows "distinct (map (\<lambda>g. nat (cg_index g)) L)"
  using assms by (auto simp: distinct_conv_nth indexed_def)

section \<open>The contract of a row, and what every row function with it gives\<close>

text \<open>
  A row function reads the layout and, for a thread \<open>SubIdx\<close> of the first group listed, returns
  every thread once, that thread first, and leaves the layout as it was up to the rotation counters.
\<close>

locale steal_row =
  fixes row :: "ThreadGroupData list \<Rightarrow> CacheGroup list \<Rightarrow> nat
      \<Rightarrow> (ThreadGroupData list \<times> nat list) option"
  assumes row_perm: "layout T L \<Longrightarrow> mset (g # gs) = mset L \<Longrightarrow> SubIdx < cg_size g \<Longrightarrow>
    \<exists>T' r. row T (g # gs) SubIdx = Some (T', r) \<and> layout T' L
      \<and> mset r = mset [0..<total_threads L]
      \<and> hd r = first_thread L (nat (cg_index g)) + SubIdx"
begin

lemma threads_rows:
  assumes "layout T L" and "mset (g # gs) = mset L" and "set subs \<subseteq> {..<cg_size g}"
  shows "\<exists>T' rows. matrix_threads row (g # gs) subs T forward = Some (T', forward @ concat rows)
    \<and> layout T' L \<and> map hd rows = map (\<lambda>k. first_thread L (nat (cg_index g)) + k) subs
    \<and> (\<forall>r \<in> set rows. mset r = mset [0..<total_threads L])"
  using assms
proof (induction subs arbitrary: T forward)
  case Nil
  then show ?case by (intro exI [of _ T] exI [of _ "[]"]) simp
next
  case (Cons k subs)
  obtain T1 r where r: "row T (g # gs) k = Some (T1, r)" "layout T1 L"
    "mset r = mset [0..<total_threads L]" "hd r = first_thread L (nat (cg_index g)) + k"
    using row_perm [OF Cons.prems(1,2), of k] Cons.prems(3) by auto
  obtain T' rows where "matrix_threads row (g # gs) subs T1 (forward @ r)
      = Some (T', (forward @ r) @ concat rows)" "layout T' L"
    "map hd rows = map (\<lambda>k. first_thread L (nat (cg_index g)) + k) subs"
    "\<forall>r \<in> set rows. mset r = mset [0..<total_threads L]"
    using Cons.IH [OF r(2) Cons.prems(2), of "forward @ r"] Cons.prems(3) by auto
  then show ?case using r by (intro exI [of _ T'] exI [of _ "r # rows"]) simp
qed

text \<open>The whole loop: one row per thread of every leaf still to visit, in the order of the leaves.\<close>

lemma loop_rows:
  assumes "layout T (all_leaves H)" and "list_all level_ok st" and "chain H st"
    and "mset (g # gs) = mset (all_leaves H)"
  shows "\<exists>rows. matrix_loop row st (g # gs) T forward = Some (forward @ concat rows)
    \<and> map hd rows = concat (map (\<lambda>h. map (\<lambda>k. first_thread (all_leaves H) (nat (cg_index h)) + k)
                                      [0..<cg_size h]) (g # pend st))
    \<and> (\<forall>r \<in> set rows. mset r = mset [0..<total_threads (all_leaves H)])"
  using assms
proof (induction "length (pend st)" arbitrary: st g gs T forward rule: less_induct)
  case less
  let ?L = "all_leaves H"
  obtain T1 rows where rows: "matrix_threads row (g # gs) [0..<cg_size g] T forward
      = Some (T1, forward @ concat rows)" "layout T1 ?L"
    "map hd rows = map (\<lambda>k. first_thread ?L (nat (cg_index g)) + k) [0..<cg_size g]"
    "\<forall>r \<in> set rows. mset r = mset [0..<total_threads ?L]"
    using threads_rows [OF less.prems(1,4), of "[0..<cg_size g]" forward]
    by (auto simp: lessThan_atLeast0)
  show ?case
  proof (cases "st = []")
    case True
    then show ?thesis
      using rows by (intro exI [of _ rows])
        (simp add: matrix_loop.simps [of row "[]"] matrix_iter_next_def iter_next_def)
  next
    case False
    obtain h Out st' where n: "matrix_iter_next st = Some (Some (h # Out), st')"
      "mset (h # Out) = mset ?L" "pend st = h # pend st'" "list_all level_ok st'" "chain H st'"
      using matrix_iter_next_step [OF less.prems(2,3) False] by blast
    then obtain rows' where rows': "matrix_loop row st' (h # Out) T1 (forward @ concat rows)
        = Some ((forward @ concat rows) @ concat rows')"
      "map hd rows' = concat (map (\<lambda>h. map (\<lambda>k. first_thread ?L (nat (cg_index h)) + k)
                                        [0..<cg_size h]) (h # pend st'))"
      "\<forall>r \<in> set rows'. mset r = mset [0..<total_threads ?L]"
      using less.hyps [OF _ rows(2) n(4,5,2)] by fastforce
    have "matrix_loop row st (g # gs) T forward = matrix_loop row st' (h # Out) T1 (forward @ concat rows)"
      using rows(1) n(1) by (subst matrix_loop.simps) simp
    then show ?thesis
      using rows(3,4) rows' n(3) by (intro exI [of _ "rows @ rows'"]) (auto simp del: upt_conv_Nil)
  qed
qed

end

text \<open>The threads of consecutive groups are numbered without gaps.\<close>

lemma first_threads_concat:
  assumes "indexed L"
  shows "concat (map (\<lambda>h. map (\<lambda>k. first_thread L (nat (cg_index h)) + k) [0..<cg_size h]) L)
    = [0..<total_threads L]"
proof -
  have "concat (map (\<lambda>i. map (\<lambda>k. first_thread L i + k) [0..<cg_size (L ! i)]) [0..<n])
      = [0..<first_thread L n]" if "n \<le> length L" for n
    using that
  proof (induction n)
    case (Suc n)
    have "first_thread L (Suc n) = first_thread L n + cg_size (L ! n)"
      using Suc.prems by (simp add: first_thread_def take_Suc_conv_app_nth)
    then show ?case
      using Suc map_add_upt [of "first_thread L n" "cg_size (L ! n)"]
        upt_split [of 0 "first_thread L n" "first_thread L (Suc n)"]
      by (simp add: add.commute)
  qed (simp add: first_thread_def)
  note numbered = this [of "length L"]
  let ?f = "\<lambda>h. map (\<lambda>k. first_thread L (nat (cg_index h)) + k) [0..<cg_size h]"
  have "map ?f L = map (\<lambda>i. ?f (L ! i)) [0..<length L]"
    by (rule nth_equalityI) simp_all
  also have "\<dots> = map (\<lambda>i. map (\<lambda>k. first_thread L i + k) [0..<cg_size (L ! i)]) [0..<length L]"
    using assms by (auto simp: indexed_def)
  finally show ?thesis
    using numbered by (simp only: total_threads_def first_thread_def take_all order_refl)
qed

lemma setup_groups_layout:
  "length (fst (setup_groups gs s)) = length gs
   \<and> (\<forall>i < length gs. tg_size (fst (setup_groups gs s) ! i) = cg_size (gs ! i)
        \<and> tg_start (fst (setup_groups gs s) ! i) = s + sum_list (map cg_size (take i gs)))"
proof (induction gs arbitrary: s)
  case (Cons g gs)
  then show ?case
    by (auto simp: split_beta nth_Cons' less_Suc_eq_0_disj)
qed simp

lemma setup_groups_total: "snd (setup_groups gs s) = s + total_threads gs"
  by (induction gs arbitrary: s) (simp_all add: split_beta total_threads_def)

text \<open>
  A hierarchy is well formed when its vectors have machine sizes and its leaves carry their
  positions as indexes, as \<open>query_internal_parse\<close> numbers them and the code asserts.
\<close>

definition well_formed :: "CacheGroup list \<Rightarrow> bool" where
  "well_formed H \<longleftrightarrow> fits_all H \<and> H \<noteq> [] \<and> indexed (all_leaves H)"

text \<open>The rows of a square matrix kept in one vector.\<close>

definition matrix_row :: "nat list \<Rightarrow> nat \<Rightarrow> nat \<Rightarrow> nat list" where
  "matrix_row M N r = take N (drop (r * N) M)"

definition steal_order :: "nat list \<Rightarrow> nat \<Rightarrow> bool" where
  "steal_order M N \<longleftrightarrow> length M = N * N
     \<and> (\<forall>t < N. mset (matrix_row M N t) = mset [0..<N] \<and> hd (matrix_row M N t) = t)"

lemma matrix_row_concat:
  assumes "\<forall>r \<in> set rows. length r = N" and "t < length rows"
  shows "matrix_row (concat rows) N t = rows ! t"
  using assms
proof (induction rows arbitrary: t)
  case (Cons r rows)
  then show ?case
    by (cases t) (auto simp: matrix_row_def)
qed simp

lemma length_concat_rows:
  "\<forall>r \<in> set rows. length r = N \<Longrightarrow> length (concat rows) = length rows * N"
  by (induction rows) auto

context steal_row
begin

lemma matrix_correct:
  assumes "well_formed H"
  shows "\<exists>M. steal_matrix row H = Some M \<and> steal_order M (total_threads (all_leaves H))"
proof -
  let ?L = "all_leaves H"
  let ?N = "total_threads ?L"
  have H: "fits_all H" "H \<noteq> []" and idx: "indexed ?L"
    using assms by (simp_all add: well_formed_def)
  obtain s where s: "iter_init H = Some [s]" "level_ok s" "st_cores s = H"
    "st_order s ! orderIdx s = 0" "pend [s] = ?L"
    using iter_init_level [OF H] by blast
  obtain g Out st where n: "matrix_iter_next [s] = Some (Some (g # Out), st)"
    "pend [s] = g # pend st" "list_all level_ok st" "chain H st" "g # Out = ?L"
    using matrix_iter_next_step [of "[s]" H] s by auto
  have lay: "layout (fst (setup_groups ?L 0)) ?L"
    using setup_groups_layout [of ?L 0] idx by (simp add: layout_def first_thread_def)
  have gp: "g # pend st = ?L" using n(2) s(5) by simp
  obtain rows where rows: "matrix_loop row st (g # Out) (fst (setup_groups ?L 0)) []
      = Some (concat rows)"
    "map hd rows = concat (map (\<lambda>h. map (\<lambda>k. first_thread ?L (nat (cg_index h)) + k)
                                      [0..<cg_size h]) ?L)"
    "\<forall>r \<in> set rows. mset r = mset [0..<?N]"
    using loop_rows [OF lay n(3,4), of g Out "[]"] n(5) gp by (metis append_Nil)
  have run: "steal_matrix row H = Some (concat rows)"
    using H(2) s(1) n(1,5) rows(1) by (simp add: steal_matrix_def)
  have hds: "map hd rows = [0..<?N]" using rows(2) first_threads_concat [OF idx] by simp
  then have len: "length rows = ?N" by (metis length_map length_upt diff_zero)
  have each: "\<forall>r \<in> set rows. length r = ?N" using rows(3) mset_eq_upt_length by fastforce
  have "steal_order (concat rows) ?N"
    unfolding steal_order_def
  proof (intro conjI allI impI)
    show "length (concat rows) = ?N * ?N" using length_concat_rows [OF each] len by simp
    fix t assume t: "t < ?N"
    then have r: "matrix_row (concat rows) ?N t = rows ! t"
      using matrix_row_concat [OF each] len by simp
    show "mset (matrix_row (concat rows) ?N t) = mset [0..<?N]"
      unfolding r using rows(3) t len by simp
    show "hd (matrix_row (concat rows) ?N t) = t"
      unfolding r using hds t len by (metis add_0 nth_map nth_upt)
  qed
  then show ?thesis using run by blast
qed

end

section \<open>The two row functions keep the contract\<close>

lemma perm_indexes:
  assumes "indexed L" and "mset gs = mset L"
  shows "distinct (map (\<lambda>g. nat (cg_index g)) gs)" and "set gs = set L"
proof -
  have "mset (map (\<lambda>g. nat (cg_index g)) gs) = mset (map (\<lambda>g. nat (cg_index g)) L)"
    using assms(2) by simp
  then show "distinct (map (\<lambda>g. nat (cg_index g)) gs)"
    using indexed_distinct [OF assms(1)] mset_eq_imp_distinct_iff by blast
  show "set gs = set L" using assms(2) by (metis set_mset_mset)
qed

lemma hierarchical_groups_perm:
  assumes "layout T L" and "set gs \<subseteq> set L"
  shows "\<exists>T' r. hierarchical_groups T own SubIdx gs = Some (T', r) \<and> layout T' L
    \<and> mset r = (\<Sum>g \<in># mset gs. group_threads L g)"
  using assms
proof (induction gs arbitrary: T)
  case (Cons g gs)
  have "g \<in> set L" using Cons.prems(2) by simp
  then obtain i where i: "group_slot T g = Some i" "i < length T" "tg_size (T ! i) = cg_size g"
    "mset [tg_start (T ! i)..<tg_start (T ! i) + tg_size (T ! i)] = group_threads L g"
    using layout_slot [OF Cons.prems(1)] by metis
  show ?case
  proof (cases "tg_size (T ! i) = 0")
    case True
    then have "group_threads L g = {#}" using i(3) by (simp add: group_threads_def)
    then show ?thesis using Cons.IH [OF Cons.prems(1)] Cons.prems(2) i True by auto
  next
    case False
    have "layout (T[i := mark_stolen (T ! own) (T ! i)]) L"
      using layout_mark [OF Cons.prems(1) i(2)] .
    then obtain T' r where
      "hierarchical_groups (T[i := mark_stolen (T ! own) (T ! i)]) own SubIdx gs = Some (T', r)"
      "layout T' L" "mset r = (\<Sum>g \<in># mset gs. group_threads L g)"
      using Cons.IH Cons.prems(2) by fastforce
    then show ?thesis
      using i False rotation_perm [of "T ! i"] by (simp add: Let_def del: mset_map)
  qed
qed simp

lemma hierarchical_row_contract:
  assumes "layout T L" and "mset (g # gs) = mset L" and "SubIdx < cg_size g"
  shows "\<exists>T' r. hierarchical_row T (g # gs) SubIdx = Some (T', r) \<and> layout T' L
    \<and> mset r = mset [0..<total_threads L] \<and> hd r = first_thread L (nat (cg_index g)) + SubIdx"
proof -
  have idx: "indexed L" using assms(1) by (simp add: layout_def)
  have sub: "set (g # gs) \<subseteq> set L" using perm_indexes(2) [OF idx assms(2)] by blast
  obtain own where own: "group_slot T g = Some own" "own < length T" "own = nat (cg_index g)"
    "tg_size (T ! own) = cg_size g" "tg_start (T ! own) = first_thread L own"
    using layout_slot [OF assms(1), of g] sub by auto
  obtain T' r where r: "hierarchical_groups T own SubIdx (g # gs) = Some (T', r)" "layout T' L"
    "mset r = (\<Sum>g \<in># mset (g # gs). group_threads L g)"
    using hierarchical_groups_perm [OF assms(1) sub] by blast
  have "hd r = thread_at (T ! own) SubIdx 0"
    using r(1) own assms(3)
    by (auto simp: Let_def peer_offset_def bind_eq_Some_iff hd_map hd_append)
  moreover have "mset r = mset [0..<total_threads L]"
    by (simp only: r(3) assms(2) sum_group_threads [OF idx])
  ultimately show ?thesis
    using r(1,2) own assms(3)
    by (simp add: hierarchical_row_def thread_at_def del: hierarchical_groups.simps)
qed

interpretation hierarchical: steal_row hierarchical_row
  by unfold_locales (rule hierarchical_row_contract)

lemma group_slot_update [simp]: "group_slot (T[i := x]) g = group_slot T g"
  by (simp add: group_slot_def)

lemma group_slot_Some: "group_slot T g = Some i \<Longrightarrow> i = nat (cg_index g) \<and> i < length T"
  by (auto simp: group_slot_def split: if_splits)

lemma peer_offset_mark:
  "peer_offset (T[i := mark_stolen o' (T ! i)] ! own) grp SubIdx = peer_offset (T ! own) grp SubIdx"
proof -
  have "tg_size (T[i := mark_stolen o' (T ! i)] ! own) = tg_size (T ! own)"
    by (cases "i < length T"; cases "own = i") (simp_all add: list_update_beyond)
  then show ?thesis by (simp add: peer_offset_def)
qed

text \<open>The counter of a group does not influence the peers taken from other groups.\<close>

lemma lattice_peers_mark:
  assumes "\<forall>g \<in> set gs. nat (cg_index g) \<noteq> i"
  shows "lattice_peers (T[i := mark_stolen o' (T ! i)]) own SubIdx gs = lattice_peers T own SubIdx gs"
  using assms
proof (induction gs)
  case (Cons g gs)
  then show ?case
    by (cases "group_slot T g")
      (auto simp: Let_def peer_offset_mark dest: group_slot_Some)
qed simp

lemma mset_shuffle:
  "add_mset x R = G \<Longrightarrow> P + r = S \<Longrightarrow> add_mset x (P + (R + r)) = G + S"
  by (auto simp: ac_simps)

lemma lattice_groups_perm:
  assumes "layout T L" and "set gs \<subseteq> set L" and "distinct (map (\<lambda>g. nat (cg_index g)) gs)"
  shows "\<exists>ps T' r. lattice_peers T own SubIdx gs = Some ps
    \<and> lattice_rest T own SubIdx gs = Some (T', r) \<and> layout T' L
    \<and> mset ps + mset r = (\<Sum>g \<in># mset gs. group_threads L g)"
  using assms
proof (induction gs arbitrary: T)
  case (Cons g gs)
  have "g \<in> set L" using Cons.prems(2) by simp
  then obtain i where i: "group_slot T g = Some i" "i < length T" "tg_size (T ! i) = cg_size g"
    "mset [tg_start (T ! i)..<tg_start (T ! i) + tg_size (T ! i)] = group_threads L g"
    using layout_slot [OF Cons.prems(1)] by metis
  show ?case
  proof (cases "tg_size (T ! i) = 0")
    case True
    then have "group_threads L g = {#}" using i(3) by (simp add: group_threads_def)
    then show ?thesis using Cons.IH [OF Cons.prems(1)] Cons.prems(2,3) i True by auto
  next
    case False
    let ?T = "T[i := mark_stolen (T ! own) (T ! i)]"
    let ?k = "peer_offset (T ! own) (T ! i) SubIdx"
    have "layout ?T L" using layout_mark [OF Cons.prems(1) i(2)] .
    then obtain ps T' r where IH: "lattice_peers ?T own SubIdx gs = Some ps"
      "lattice_rest ?T own SubIdx gs = Some (T', r)" "layout T' L"
      "mset ps + mset r = (\<Sum>g \<in># mset gs. group_threads L g)"
      using Cons.IH Cons.prems(2,3) by fastforce
    have "\<forall>h \<in> set gs. nat (cg_index h) \<noteq> i"
      using Cons.prems(3) group_slot_Some [OF i(1)] by (force simp: image_iff)
    then have "lattice_peers T own SubIdx gs = Some ps"
      using IH(1) lattice_peers_mark [of gs i T "T ! own"] by simp
    moreover have "map (thread_at (T ! i) ?k) [0..<tg_size (T ! i)]
        = thread_at (T ! i) ?k 0 # map (thread_at (T ! i) ?k) [1..<tg_size (T ! i)]"
      using False by (simp add: upt_conv_Cons)
    then have "mset (thread_at (T ! i) ?k 0 # map (thread_at (T ! i) ?k) [1..<tg_size (T ! i)])
        = group_threads L g"
      using rotation_perm [of "T ! i" ?k] i(4) by metis
    ultimately show ?thesis
      using IH(2-4) i(1) False mset_shuffle by (auto simp: Let_def simp del: mset_map)
  qed
qed simp

lemma lattice_row_contract:
  assumes "layout T L" and "mset (g # gs) = mset L" and "SubIdx < cg_size g"
  shows "\<exists>T' r. lattice_row T (g # gs) SubIdx = Some (T', r) \<and> layout T' L
    \<and> mset r = mset [0..<total_threads L] \<and> hd r = first_thread L (nat (cg_index g)) + SubIdx"
proof -
  have idx: "indexed L" using assms(1) by (simp add: layout_def)
  have sub: "set gs \<subseteq> set L" and g: "g \<in> set L" using perm_indexes(2) [OF idx assms(2)] by auto
  have dist: "distinct (map (\<lambda>g. nat (cg_index g)) gs)"
    using perm_indexes(1) [OF idx assms(2)] by simp
  obtain own where own: "group_slot T g = Some own" "own = nat (cg_index g)"
    "tg_size (T ! own) = cg_size g" "tg_start (T ! own) = first_thread L own"
    "mset [tg_start (T ! own)..<tg_start (T ! own) + tg_size (T ! own)] = group_threads L g"
    using layout_slot [OF assms(1) g] by metis
  obtain ps T' r where r: "lattice_peers T own SubIdx gs = Some ps"
    "lattice_rest T own SubIdx gs = Some (T', r)" "layout T' L"
    "mset ps + mset r = (\<Sum>g \<in># mset gs. group_threads L g)"
    using lattice_groups_perm [OF assms(1) sub dist] by blast
  let ?mine = "map (thread_at (T ! own) SubIdx) [0..<tg_size (T ! own)]"
  have "mset ?mine = group_threads L g" using rotation_perm [of "T ! own" SubIdx] own(5) by metis
  then have "mset (?mine @ ps @ r) = (\<Sum>g \<in># mset (g # gs). group_threads L g)"
    using r(4) by (simp del: mset_map)
  also have "\<dots> = mset [0..<total_threads L]"
    by (simp only: assms(2) sum_group_threads [OF idx])
  finally have "mset (?mine @ ps @ r) = mset [0..<total_threads L]" .
  moreover have "hd (?mine @ ps @ r) = first_thread L (nat (cg_index g)) + SubIdx"
    using own assms(3) by (simp add: hd_append hd_map thread_at_def)
  moreover have "lattice_row T (g # gs) SubIdx = Some (T', ?mine @ ps @ r)"
    using own(1) r(1,2) by (simp add: lattice_row_def)
  ultimately show ?thesis using r(3) by blast
qed

interpretation lattice: steal_row lattice_row
  by unfold_locales (rule lattice_row_contract)

section \<open>Properties\<close>

text \<open>
  C29: the lattice matrix gives every thread a steal order that starts with the thread itself and
  names every thread exactly once; the matrix is computed for every well-formed hierarchy.
\<close>

theorem lattice_matrix_rows:
  assumes "well_formed hierarchy"
  shows "\<exists>M. get_lattice_matrix hierarchy = Some M
           \<and> steal_order M (total_threads (all_leaves hierarchy))"
  unfolding get_lattice_matrix_def by (rule lattice.matrix_correct [OF assms])

text \<open>C30: so does the hierarchical matrix.\<close>

theorem hierarchical_matrix_rows:
  assumes "well_formed hierarchy"
  shows "\<exists>M. get_hierarchical_matrix hierarchy = Some M
           \<and> steal_order M (total_threads (all_leaves hierarchy))"
  unfolding get_hierarchical_matrix_def by (rule hierarchical.matrix_correct [OF assms])

lemma sample_well_formed: "well_formed sample_hierarchy"
  by (simp add: well_formed_def sample_hierarchy_def fits_all_def indexed_def all_leaves_def
      All_less_Suc)

theorem lattice_matrix_rows_witness:
  "\<exists>M. get_lattice_matrix sample_hierarchy = Some M \<and> steal_order M 5"
  using lattice_matrix_rows [OF sample_well_formed]
  by (simp add: sample_hierarchy_def all_leaves_def total_threads_def)

theorem hierarchical_matrix_rows_witness:
  "\<exists>M. get_hierarchical_matrix sample_hierarchy = Some M \<and> steal_order M 5"
  using hierarchical_matrix_rows [OF sample_well_formed]
  by (simp add: sample_hierarchy_def all_leaves_def total_threads_def)

end
