(* ===== verification/WakeMatrix.thy ===== *)
theory WakeMatrix
  imports StealMatrix
begin

text \<open>
  Waker matrices (\<open>src/include/tmc/detail/thread_layout.ipp\<close>): \<open>invert_matrix\<close> turns the steal order
  of every thread into the order in which the threads that would steal from it should be woken,
  and \<open>slice_matrix\<close> reads one row.  Every vector access is checked: \<open>None\<close> stands for an access
  out of bounds, and the theorems show that there is none on the matrices that the library builds.
\<close>

section \<open>Inverting a steal matrix\<close>

text \<open>One iteration of the inner loop; the state is the output vector and \<open>outCols\<close>.\<close>

definition waker_step ::
  "nat list \<Rightarrow> nat \<Rightarrow> nat \<times> nat \<Rightarrow> nat list \<times> nat list \<Rightarrow> (nat list \<times> nat list) option" where
  "waker_step data cols cell s =
    (let (row, col) = cell; (output, outCols) = s in
     if \<not> row * cols + col < length data then None
     else
       let val = data ! (row * cols);
           outRow = data ! (row * cols + col)
       in if \<not> outRow < length outCols then None
          else
            let outCol = outCols ! outRow
            in if \<not> outRow * cols + outCol < length output then None
               else Some (output[outRow * cols + outCol := val], outCols[outRow := outCol + 1]))"

fun waker_steps ::
  "nat list \<Rightarrow> nat \<Rightarrow> (nat \<times> nat) list \<Rightarrow> nat list \<times> nat list \<Rightarrow> (nat list \<times> nat list) option" where
  "waker_steps data cols [] s = Some s"
| "waker_steps data cols (c # cs) s = Option.bind (waker_step data cols c s) (waker_steps data cols cs)"

text \<open>The cells in the order of the two loops: columns outside, rows inside.\<close>

definition column_major :: "nat \<Rightarrow> nat \<Rightarrow> (nat \<times> nat) list" where
  "column_major rows cols = concat (map (\<lambda>col. map (\<lambda>row. (row, col)) [0..<rows]) [0..<cols])"

definition invert_matrix :: "nat list \<Rightarrow> nat \<Rightarrow> nat list option" where
  "invert_matrix InputMatrix N =
    map_option fst
      (waker_steps InputMatrix N (column_major N N) (replicate (N * N) 0, replicate N 0))"

definition slice_matrix :: "nat list \<Rightarrow> nat \<Rightarrow> nat \<Rightarrow> nat list option" where
  "slice_matrix InputMatrix N Slot =
    (if Slot * N + N \<le> length InputMatrix
     then Some (map (\<lambda>i. InputMatrix ! (Slot * N + i)) [0..<N]) else None)"

section \<open>The order in which the loop meets a thread\<close>

definition hits :: "nat list \<Rightarrow> nat \<Rightarrow> (nat \<times> nat) list \<Rightarrow> nat \<Rightarrow> (nat \<times> nat) list" where
  "hits M N cs r = filter (\<lambda>(row, col). M ! (row * N + col) = r) cs"

definition waker_inv ::
  "nat list \<Rightarrow> nat \<Rightarrow> (nat \<times> nat) list \<Rightarrow> nat list \<times> nat list \<Rightarrow> bool" where
  "waker_inv M N cs s \<longleftrightarrow> length (fst s) = N * N \<and> length (snd s) = N
     \<and> (\<forall>r < N. snd s ! r = length (hits M N cs r)
          \<and> (\<forall>k < length (hits M N cs r). fst s ! (r * N + k) = fst (hits M N cs r ! k)))"

lemma cell_bound: "r < N \<Longrightarrow> k < N \<Longrightarrow> r * N + k < N * N" for r k N :: nat
proof -
  assume "r < N" "k < N"
  then have "r * N + k < Suc r * N" by simp
  also have "\<dots> \<le> N * N" using \<open>r < N\<close> by (intro mult_le_mono1) simp
  finally show ?thesis .
qed

lemma cell_inj:
  assumes "k < N" and "k' < N"
  shows "r * N + k = r' * N + k' \<longleftrightarrow> r = r' \<and> k = (k'::nat)"
proof -
  have "(r * N + k) div N = r" "(r * N + k) mod N = k"
    "(r' * N + k') div N = r'" "(r' * N + k') mod N = k'"
    using assms by simp_all
  then show ?thesis by metis
qed

lemma steal_order_row:
  assumes "steal_order M N" and "row < N"
  shows "col < N \<Longrightarrow> matrix_row M N row ! col = M ! (row * N + col)"
    and "length (matrix_row M N row) = N" and "col < N \<Longrightarrow> row * N + col < length M"
    and "mset (matrix_row M N row) = mset [0..<N]" and "M ! (row * N) = row"
proof -
  have len: "length M = N * N" and perm: "mset (matrix_row M N row) = mset [0..<N]"
    and hd: "hd (matrix_row M N row) = row"
    using assms by (simp_all add: steal_order_def)
  show "mset (matrix_row M N row) = mset [0..<N]" by (rule perm)
  show l: "length (matrix_row M N row) = N" using mset_eq_upt_length [OF perm] by simp
  show "col < N \<Longrightarrow> row * N + col < length M" using cell_bound [OF assms(2)] len by simp
  have at: "matrix_row M N row ! col = M ! (row * N + col)" if "col < N" for col
  proof -
    have "row * N \<le> length M" using cell_bound [OF assms(2) that] len by linarith
    then show ?thesis using that by (simp add: matrix_row_def)
  qed
  then show "col < N \<Longrightarrow> matrix_row M N row ! col = M ! (row * N + col)" .
  show "M ! (row * N) = row"
    using at [of 0] hd l assms(2) by (cases "matrix_row M N row") auto
qed

lemma steal_order_cell_bound:
  "steal_order M N \<Longrightarrow> row < N \<Longrightarrow> col < N \<Longrightarrow> M ! (row * N + col) < N"
  using steal_order_row [of M N row] mset_eq_upt_set [of "matrix_row M N row" 0 N]
    nth_mem [of col "matrix_row M N row"] by auto

lemma hits_append: "hits M N (cs @ ds) r = hits M N cs r @ hits M N ds r"
  by (simp add: hits_def)

lemma waker_step_inv:
  assumes M: "steal_order M N" and inv: "waker_inv M N cs s"
    and cell: "row < N" "col < N" and room: "\<And>r. length (hits M N (cs @ [(row, col)]) r) \<le> N"
  shows "\<exists>s'. waker_step M N (row, col) s = Some s' \<and> waker_inv M N (cs @ [(row, col)]) s'"
proof -
  obtain out oc where s: "s = (out, oc)" by (cases s)
  let ?r = "M ! (row * N + col)"
  let ?k = "oc ! ?r"
  have r: "?r < N" using steal_order_cell_bound [OF M cell] .
  have lens: "length out = N * N" "length oc = N"
    and counts: "\<And>r. r < N \<Longrightarrow> oc ! r = length (hits M N cs r)"
    and vals: "\<And>r k. r < N \<Longrightarrow> k < length (hits M N cs r) \<Longrightarrow> out ! (r * N + k) = fst (hits M N cs r ! k)"
    using inv by (auto simp: waker_inv_def s)
  have k: "?k < N" using room [of ?r] counts [OF r] by (simp add: hits_append) (simp add: hits_def)
  have "row * N + col < length M" using steal_order_row(3) [OF M cell(1) cell(2)] .
  then have step: "waker_step M N (row, col) s
      = Some (out[?r * N + ?k := row], oc[?r := Suc ?k])"
    using r k lens cell_bound [OF r k] steal_order_row(5) [OF M cell(1)]
    by (simp add: waker_step_def s Let_def)
  have hits': "hits M N (cs @ [(row, col)]) r'
      = (if r' = ?r then hits M N cs r' @ [(row, col)] else hits M N cs r')" for r'
    by (simp add: hits_def)
  have "waker_inv M N (cs @ [(row, col)]) (out[?r * N + ?k := row], oc[?r := Suc ?k])"
    unfolding waker_inv_def fst_conv snd_conv
  proof (intro conjI allI impI)
    fix r' assume r': "r' < N"
    show "oc[?r := Suc ?k] ! r' = length (hits M N (cs @ [(row, col)]) r')"
      using counts [OF r'] counts [OF r] r lens by (simp add: hits' nth_list_update)
    fix k' assume k': "k' < length (hits M N (cs @ [(row, col)]) r')"
    have less: "k' < N" using k' room [of r'] by linarith
    have pos: "r' * N + k' = ?r * N + ?k \<longleftrightarrow> r' = ?r \<and> k' = ?k"
      by (rule cell_inj [OF less k])
    have "?r * N + ?k < length out" using cell_bound [OF r k] lens by simp
    then show "out[?r * N + ?k := row] ! (r' * N + k') = fst (hits M N (cs @ [(row, col)]) r' ! k')"
      using k' pos counts [OF r] vals [OF r', of k']
      by (auto simp: hits' nth_list_update nth_append less_Suc_eq split: if_splits)
  qed (use lens in simp_all)
  then show ?thesis using step by blast
qed

lemma waker_steps_inv:
  assumes "steal_order M N" and "waker_inv M N done s"
    and "set cs \<subseteq> {..<N} \<times> {..<N}" and "\<And>r. length (hits M N (done @ cs) r) \<le> N"
  shows "\<exists>s'. waker_steps M N cs s = Some s' \<and> waker_inv M N (done @ cs) s'"
  using assms
proof (induction cs arbitrary: "done" s)
  case (Cons c cs)
  obtain row col where c: "c = (row, col)" "row < N" "col < N" using Cons.prems(3) by auto
  have "length (hits M N (done @ [(row, col)]) r) \<le> N" for r
    using Cons.prems(4) [of r] hits_append [of M N "done @ [c]" cs r] c(1) by simp
  then obtain s1 where "waker_step M N (row, col) s = Some s1" "waker_inv M N (done @ [(row, col)]) s1"
    using waker_step_inv [OF Cons.prems(1,2) c(2,3)] by blast
  then show ?case
    using Cons.IH [of "done @ [(row, col)]" s1] Cons.prems(1,3,4) c by simp
qed simp

subsection \<open>Each thread is met once per row\<close>

definition step_of :: "nat list \<Rightarrow> nat \<Rightarrow> nat \<Rightarrow> nat \<Rightarrow> nat" where
  "step_of M N t r = length (takeWhile (\<lambda>x. x \<noteq> r) (matrix_row M N t))"

lemma length_takeWhile_less_if:
  "\<exists>x \<in> set xs. \<not> P x \<Longrightarrow> length (takeWhile P xs) < length xs"
  by (induction xs) auto

lemma step_of_eq:
  assumes "steal_order M N" and "t < N" and "col < N"
  shows "M ! (t * N + col) = r \<longleftrightarrow> r < N \<and> step_of M N t r = col"
proof -
  let ?row = "matrix_row M N t"
  note row = steal_order_row [OF assms(1,2)]
  have dist: "distinct ?row" using mset_eq_upt_distinct [OF row(4)] .
  have set: "set ?row = {..<N}" using mset_eq_upt_set [OF row(4)] by (simp add: lessThan_atLeast0)
  show ?thesis
  proof
    assume "M ! (t * N + col) = r"
    then have r: "?row ! col = r" using row(1) [OF assms(3)] by simp
    have "takeWhile (\<lambda>x. x \<noteq> r) ?row = take col ?row"
      using r dist assms(3) row(2)
      by (intro takeWhile_eq_take_P_nth) (auto simp: nth_eq_iff_index_eq)
    moreover have "r < N" using set nth_mem [of col ?row] r assms(3) row(2) by auto
    ultimately show "r < N \<and> step_of M N t r = col"
      using assms(3) row(2) by (simp add: step_of_def)
  next
    assume r: "r < N \<and> step_of M N t r = col"
    then have "\<exists>x \<in> set ?row. \<not> x \<noteq> r" using set by auto
    then have "length (takeWhile (\<lambda>x. x \<noteq> r) ?row) < length ?row"
      by (rule length_takeWhile_less_if)
    then have "?row ! step_of M N t r = r"
      unfolding step_of_def using nth_length_takeWhile [of "\<lambda>x. x \<noteq> r" ?row] by blast
    then show "M ! (t * N + col) = r" using r row(1) [OF assms(3)] by simp
  qed
qed

lemma step_of_less:
  assumes "steal_order M N" and "t < N" and "r < N"
  shows "step_of M N t r < N"
proof -
  note row = steal_order_row [OF assms(1,2)]
  have "\<exists>x \<in> set (matrix_row M N t). \<not> x \<noteq> r"
    using mset_eq_upt_set [OF row(4)] assms(3) by auto
  then show ?thesis
    using length_takeWhile_less_if [of "matrix_row M N t" "\<lambda>x. x \<noteq> r"] row(2) by (simp add: step_of_def)
qed

lemma set_column_major: "set (column_major m n) = {..<m} \<times> {..<n}"
  by (auto simp: column_major_def)

lemma column_major_Suc: "column_major m (Suc n) = column_major m n @ map (\<lambda>row. (row, n)) [0..<m]"
  by (simp add: column_major_def)

lemma distinct_column_major: "distinct (column_major m n)"
proof (induction n)
  case (Suc n)
  then show ?case
    by (auto simp: column_major_Suc set_column_major distinct_map inj_on_def)
qed (simp add: column_major_def)

lemma sorted_column_major: "sorted (map snd (column_major m n))"
proof (induction n)
  case (Suc n)
  have "sorted (map snd (map (\<lambda>row. (row, n)) [0..<m]))" by (simp add: comp_def map_replicate_const)
  then show ?case
    using Suc by (auto simp: column_major_Suc sorted_append set_column_major simp del: map_map)
qed (simp add: column_major_def)

lemma hits_all:
  assumes M: "steal_order M N" and "r < N"
  defines "h \<equiv> hits M N (column_major N N) r"
  shows "set h = {(t, step_of M N t r) | t. t < N}" and "distinct h"
    and "mset (map fst h) = mset [0..<N]" and "sorted (map snd h)" and "length h = N"
proof -
  show set: "set h = {(t, step_of M N t r) | t. t < N}"
  proof (rule set_eqI)
    fix c :: "nat \<times> nat"
    obtain t k where c: "c = (t, k)" by (cases c)
    have "c \<in> set h \<longleftrightarrow> t < N \<and> k < N \<and> M ! (t * N + k) = r"
      by (auto simp: c h_def hits_def set_column_major)
    also have "\<dots> \<longleftrightarrow> t < N \<and> step_of M N t r = k"
      using step_of_eq [OF M, of t k r] step_of_less [OF M, of t r] assms(2) by blast
    finally show "c \<in> set h \<longleftrightarrow> c \<in> {(t, step_of M N t r) | t. t < N}" by (auto simp: c)
  qed
  show dist: "distinct h" by (simp add: h_def hits_def distinct_column_major)
  have "inj_on fst (set h)" unfolding set by (auto simp: inj_on_def)
  then have "distinct (map fst h)" using dist by (simp add: distinct_map)
  moreover have "set (map fst h) = set [0..<N]" using set by force
  ultimately show perm: "mset (map fst h) = mset [0..<N]"
    using set_eq_iff_mset_eq_distinct [of "map fst h" "[0..<N]"] by simp
  then show "length h = N" using mset_eq_upt_length by fastforce
  show "sorted (map snd h)"
    unfolding h_def hits_def using sorted_column_major by (rule sorted_filter)
qed

lemma hits_invalid: "steal_order M N \<Longrightarrow> \<not> r < N \<Longrightarrow> hits M N (column_major N N) r = []"
  using steal_order_cell_bound [of M N]
  by (auto simp: hits_def filter_empty_conv set_column_major)


text \<open>The key by which a row of the waker matrix is ordered: the step at which the thread looks at
  \<open>r\<close>, then the number of the thread.\<close>

definition steal_rank :: "nat list \<Rightarrow> nat \<Rightarrow> nat \<Rightarrow> nat \<Rightarrow> nat" where
  "steal_rank M N r t = step_of M N t r * N + t"

lemma column_major_ranks: "sorted (map (\<lambda>(row, col). col * n + row) (column_major n m))"
proof (induction m)
  case (Suc m)
  have "sorted (map (\<lambda>(row, col). col * n + row) (map (\<lambda>row. (row, m)) [0..<n]))"
    by (simp add: comp_def sorted_map)
  moreover have "a + b * n \<le> c + m * n" if "a < n" "b < m" for a b c
  proof -
    have "a + b * n \<le> Suc b * n" using that by simp
    also have "\<dots> \<le> m * n" using that by (intro mult_le_mono1) simp
    finally show ?thesis by simp
  qed
  ultimately show ?case
    using Suc by (auto simp: column_major_Suc sorted_append set_column_major add.commute
        simp del: map_map)
qed (simp add: column_major_def)

lemma hits_ranks:
  assumes "steal_order M N" and "r < N"
  shows "sorted (map (steal_rank M N r) (map fst (hits M N (column_major N N) r)))"
proof -
  let ?h = "hits M N (column_major N N) r"
  have "map (steal_rank M N r) (map fst ?h) = map (\<lambda>(row, col). col * N + row) ?h"
    unfolding map_map
  proof (rule map_cong)
    fix c assume "c \<in> set ?h"
    then show "(steal_rank M N r \<circ> fst) c = (case c of (row, col) \<Rightarrow> col * N + row)"
      using hits_all(1) [OF assms] by (auto simp: steal_rank_def)
  qed simp
  moreover have "sorted (map (\<lambda>(row, col). col * N + row) ?h)"
    unfolding hits_def by (rule sorted_filter) (rule column_major_ranks)
  ultimately show ?thesis by (simp only:)
qed

lemma waker_row:
  assumes "steal_order M N" and "waker_inv M N (column_major N N) s" and "r < N"
  shows "matrix_row (fst s) N r = map fst (hits M N (column_major N N) r)"
proof -
  note h = hits_all [OF assms(1,3)]
  have len: "length (fst s) = N * N" using assms(2) by (simp add: waker_inv_def)
  have le: "r * N + N \<le> N * N"
  proof -
    have "Suc r * N \<le> N * N" using assms(3) by (intro mult_le_mono1) simp
    then show ?thesis by simp
  qed
  show ?thesis
  proof (rule nth_equalityI)
    show "length (matrix_row (fst s) N r) = length (map fst (hits M N (column_major N N) r))"
      using le len h(5) by (simp add: matrix_row_def)
    fix k assume "k < length (matrix_row (fst s) N r)"
    then have k: "k < N" by (simp add: matrix_row_def)
    moreover have "r * N \<le> length (fst s)" using le len by linarith
    ultimately have "matrix_row (fst s) N r ! k = fst s ! (r * N + k)"
      by (simp add: matrix_row_def)
    then show "matrix_row (fst s) N r ! k = map fst (hits M N (column_major N N) r) ! k"
      using assms(2,3) h(5) k by (simp add: waker_inv_def)
  qed
qed

lemma waker_steps_rows:
  assumes M: "steal_order M N" and len: "length out = N * N"
  shows "\<exists>s. waker_steps M N (column_major N N) (out, replicate N 0) = Some s
      \<and> length (fst s) = N * N
      \<and> (\<forall>r < N. matrix_row (fst s) N r = map fst (hits M N (column_major N N) r))"
proof -
  have "waker_inv M N [] (out, replicate N 0)"
    using len by (simp add: waker_inv_def hits_def)
  moreover have "length (hits M N ([] @ column_major N N) r) \<le> N" for r
    using hits_all(5) [OF M, of r] hits_invalid [OF M, of r] by (cases "r < N") simp_all
  moreover have "set (column_major N N) \<subseteq> {..<N} \<times> {..<N}" by (simp add: set_column_major)
  ultimately obtain s where "waker_steps M N (column_major N N) (out, replicate N 0) = Some s"
    and inv: "waker_inv M N ([] @ column_major N N) s"
    using waker_steps_inv [OF M] by blast
  then show ?thesis using waker_row [OF M, of s] by (auto simp: waker_inv_def)
qed

lemma rows_eqI:
  assumes "length A = N * N" and "length B = N * N"
    and "\<And>r. r < N \<Longrightarrow> matrix_row A N r = matrix_row B N r"
  shows "A = B"
proof (rule nth_equalityI)
  fix i assume "i < length A"
  then have i: "i < N * N" using assms(1) by simp
  then have N: "0 < N" by (cases N) auto
  let ?r = "i div N" and ?k = "i mod N"
  have r: "?r < N" and k: "?k < N" using i N by (simp_all add: less_mult_imp_div_less)
  have eq: "?r * N + ?k = i" by simp
  have at: "matrix_row C N ?r ! ?k = C ! i" if "length C = N * N" for C
  proof -
    have "?r * N \<le> length C" using that i eq by linarith
    then show ?thesis using k eq by (simp add: matrix_row_def)
  qed
  show "A ! i = B ! i" using at [OF assms(1)] at [OF assms(2)] assms(3) [OF r] by simp
qed (use assms in simp)

lemma slice_matrix_row:
  assumes "length M = N * N" and "Slot < N"
  shows "slice_matrix M N Slot = Some (matrix_row M N Slot)"
proof -
  have "Suc Slot * N \<le> N * N" using assms(2) by (intro mult_le_mono1) simp
  then have le: "Slot * N + N \<le> length M" using assms(1) by simp
  have "matrix_row M N Slot = map (\<lambda>i. M ! (Slot * N + i)) [0..<N]"
    by (rule nth_equalityI) (use le in \<open>simp_all add: matrix_row_def\<close>)
  then show ?thesis using le by (simp add: slice_matrix_def)
qed

lemma hits_first:
  assumes "steal_order M N" and "r < N"
  shows "hd (map fst (hits M N (column_major N N) r)) = r"
proof -
  note h = hits_all [OF assms]
  obtain x xs where hits: "hits M N (column_major N N) r = x # xs"
    using h(5) assms(2) by (cases "hits M N (column_major N N) r") auto
  obtain t k where x: "x = (t, k)" by (cases x)
  have "step_of M N r r = 0" using step_of_eq [OF assms(1,2), of 0 r] steal_order_row(5) [OF assms] assms(2)
    by simp
  then have "(r, 0) \<in> set (x # xs)" using h(1) assms(2) hits by auto
  then have "k = 0" using h(4) by (auto simp: hits x)
  moreover have "(t, k) \<in> {(t, step_of M N t r) | t. t < N}"
    using h(1) hits by (metis list.set_intros(1) x)
  then have t: "t < N" "step_of M N t r = k" by simp_all
  ultimately have "M ! (t * N) = r" using step_of_eq [OF assms(1) t(1), of 0 r] assms(2) by simp
  then show ?thesis using steal_order_row(5) [OF assms(1) t(1)] by (simp add: hits x)
qed

section \<open>Properties\<close>

text \<open>
  C31: inverting a steal matrix never leaves its buffers and gives, for every thread \<open>r\<close>, a row that
  lists every thread once, \<open>r\<close> first, ordered by the step at which each of them looks at \<open>r\<close> for
  work (and by number where two look at it in the same step); \<open>slice_matrix\<close> returns that row.
\<close>

theorem invert_matrix_rows:
  assumes "steal_order M N"
  shows "\<exists>R. invert_matrix M N = Some R \<and> length R = N * N
      \<and> (\<forall>r < N. slice_matrix R N r = Some (matrix_row R N r)
          \<and> mset (matrix_row R N r) = mset [0..<N]
          \<and> hd (matrix_row R N r) = r
          \<and> sorted (map (steal_rank M N r) (matrix_row R N r)))"
proof -
  obtain s where s: "waker_steps M N (column_major N N) (replicate (N * N) 0, replicate N 0) = Some s"
    "length (fst s) = N * N"
    "\<And>r. r < N \<Longrightarrow> matrix_row (fst s) N r = map fst (hits M N (column_major N N) r)"
    using waker_steps_rows [OF assms, of "replicate (N * N) 0"] by auto
  then have "invert_matrix M N = Some (fst s)" by (simp add: invert_matrix_def)
  then show ?thesis
    using s(2,3) hits_all(3) [OF assms] hits_ranks [OF assms] hits_first [OF assms]
      slice_matrix_row [of "fst s" N] by (simp del: map_map)
qed

lemma sample_steal_order: "steal_order [0, 1, 2, 1, 2, 0, 2, 0, 1] 3"
  by (simp add: steal_order_def matrix_row_def All_less_Suc numeral_eq_Suc upt_rec mset_eq_upt_set)

theorem invert_matrix_rows_witness:
  "\<exists>R. invert_matrix [0, 1, 2, 1, 2, 0, 2, 0, 1] 3 = Some R \<and> matrix_row R 3 1 = [1, 0, 2]"
proof -
  have "invert_matrix [0, 1, 2, 1, 2, 0, 2, 0, 1] 3 = Some [0, 2, 1, 1, 0, 2, 2, 1, 0]" by code_simp
  then show ?thesis
    using invert_matrix_rows [OF sample_steal_order] by (auto simp: matrix_row_def)
qed

end
