(* ===== verification/Matrix.thy ===== *)
theory Matrix
  imports WakeMatrix
begin

text \<open>
  The class \<open>Matrix\<close> (\<open>src/include/tmc/detail/matrix.hpp\<close>, \<open>matrix.ipp\<close>) over an explicit store, since
  matrices own blocks of memory, hand them over by moves and refer to each other's blocks.  A
  double \<open>delete[]\<close>, a read through a dangling or null pointer, or past the end of a block is \<open>None\<close>.
\<close>

section \<open>Objects and blocks\<close>

text \<open>\<open>Matrix\<close>: \<open>m_data\<close> is the address of its block, \<open>None\<close> for \<open>nullptr\<close>.\<close>

record Matrix =
  m_data :: "nat option"
  m_rows :: nat
  m_cols :: nat
  weak_ptr :: bool

text \<open>
  The objects alive, by name, and the blocks allocated by \<open>new size_t[]\<close>, by address; \<open>next_addr\<close>
  is the next address \<open>new\<close> returns.
\<close>

record store =
  objs :: "nat \<Rightarrow> Matrix option"
  blocks :: "nat \<Rightarrow> nat list option"
  next_addr :: nat

definition delete_array :: "nat option \<Rightarrow> store \<Rightarrow> store option" where
  "delete_array p st =
    (case p of None \<Rightarrow> Some st
     | Some a \<Rightarrow> if blocks st a = None then None else Some (st\<lparr>blocks := (blocks st)(a := None)\<rparr>))"

definition new_array :: "nat list \<Rightarrow> store \<Rightarrow> nat \<times> store" where
  "new_array xs st =
    (next_addr st, st\<lparr>blocks := (blocks st)(next_addr st := Some xs), next_addr := next_addr st + 1\<rparr>)"

definition set_obj :: "nat \<Rightarrow> Matrix \<Rightarrow> store \<Rightarrow> store" where
  "set_obj i m st = st\<lparr>objs := (objs st)(i := Some m)\<rparr>"

text \<open>Reading \<open>p[k]\<close>.\<close>

definition load :: "store \<Rightarrow> nat option \<Rightarrow> nat \<Rightarrow> nat option" where
  "load st p k =
    (case Option.bind p (blocks st) of None \<Rightarrow> None
     | Some xs \<Rightarrow> if k < length xs then Some (xs ! k) else None)"

definition store_at :: "nat option \<Rightarrow> nat \<Rightarrow> nat \<Rightarrow> store \<Rightarrow> store option" where
  "store_at p k v st =
    (case p of None \<Rightarrow> None
     | Some a \<Rightarrow> (case blocks st a of None \<Rightarrow> None
       | Some xs \<Rightarrow> if k < length xs then Some (st\<lparr>blocks := (blocks st)(a := Some (xs[k := v]))\<rparr>)
                   else None))"

section \<open>Operations\<close>

definition null_matrix :: Matrix where
  "null_matrix = \<lparr>m_data = None, m_rows = 0, m_cols = 0, weak_ptr = False\<rparr>"

definition matrix_new :: "nat \<Rightarrow> store \<Rightarrow> store option" where
  "matrix_new i st = (if objs st i = None then Some (set_obj i null_matrix st) else None)"

definition clear :: "nat \<Rightarrow> store \<Rightarrow> store option" where
  "clear i st =
    (case objs st i of None \<Rightarrow> None
     | Some m \<Rightarrow>
         map_option (set_obj i (m\<lparr>m_data := None, m_rows := 0, m_cols := 0, weak_ptr := False\<rparr>))
           (if weak_ptr m then Some st else delete_array (m_data m) st))"

definition take_fields :: "nat \<Rightarrow> nat \<Rightarrow> store \<Rightarrow> store option" where
  "take_fields i j st =
    (case objs st j of None \<Rightarrow> None
     | Some other \<Rightarrow> Some (set_obj j null_matrix (set_obj i other st)))"

definition move_construct :: "nat \<Rightarrow> nat \<Rightarrow> store \<Rightarrow> store option" where
  "move_construct i j st = (if objs st i = None then take_fields i j st else None)"

definition move_assign :: "nat \<Rightarrow> nat \<Rightarrow> store \<Rightarrow> store option" where
  "move_assign i j st = Option.bind (clear i st) (take_fields i j)"

definition destroy :: "nat \<Rightarrow> store \<Rightarrow> store option" where
  "destroy i st = map_option (\<lambda>st. st\<lparr>objs := (objs st)(i := None)\<rparr>) (clear i st)"

definition adopt :: "nat \<Rightarrow> nat list \<Rightarrow> nat \<Rightarrow> nat \<Rightarrow> store \<Rightarrow> store" where
  "adopt i xs Rows Cols st =
    (let (a, st) = new_array xs st
     in set_obj i \<lparr>m_data = Some a, m_rows = Rows, m_cols = Cols, weak_ptr = False\<rparr> st)"

definition init :: "nat \<Rightarrow> nat \<Rightarrow> nat \<Rightarrow> nat \<Rightarrow> store \<Rightarrow> store option" where
  "init i Value Rows Cols st =
    map_option (adopt i (replicate (Rows * Cols) Value) Rows Cols) (clear i st)"

text \<open>\<open>copy_from\<close>, whose source is a buffer that the caller owns.\<close>

definition copy_from :: "nat \<Rightarrow> nat list \<Rightarrow> nat \<Rightarrow> nat \<Rightarrow> store \<Rightarrow> store option" where
  "copy_from i Other Rows Cols st =
    (if Rows * Cols \<le> length Other
     then map_option (adopt i (take (Rows * Cols) Other) Rows Cols) (clear i st) else None)"

definition init_square :: "nat \<Rightarrow> nat list \<Rightarrow> nat \<Rightarrow> store \<Rightarrow> store option" where
  "init_square i Other Length st = copy_from i Other Length Length st"

definition init_rect :: "nat \<Rightarrow> nat list \<Rightarrow> nat \<Rightarrow> nat \<Rightarrow> store \<Rightarrow> store option" where
  "init_rect i Other Rows Cols st = copy_from i Other Rows Cols st"

definition set_weak_ref :: "nat \<Rightarrow> nat \<Rightarrow> store \<Rightarrow> store option" where
  "set_weak_ref i j st =
    Option.bind (clear i st) (\<lambda>st.
      case objs st j of None \<Rightarrow> None
      | Some other \<Rightarrow> Some (set_obj i \<lparr>m_data = m_data other, m_rows = m_rows other,
                                        m_cols = m_cols other, weak_ptr = True\<rparr> st))"

definition get_row :: "Matrix \<Rightarrow> nat \<Rightarrow> nat" where
  "get_row m Idx = Idx * m_cols m"

fun read_loop :: "store \<Rightarrow> nat option \<Rightarrow> nat \<Rightarrow> nat \<Rightarrow> nat list option" where
  "read_loop st p src 0 = Some []"
| "read_loop st p src (Suc n) =
    Option.bind (load st p src) (\<lambda>v. map_option (Cons v) (read_loop st p (src + 1) n))"

definition get_slice :: "nat \<Rightarrow> nat \<Rightarrow> store \<Rightarrow> nat list option" where
  "get_slice i Idx st =
    (case objs st i of None \<Rightarrow> None
     | Some m \<Rightarrow> read_loop st (m_data m) (get_row m Idx) (m_cols m))"

fun copy_loop :: "nat option \<Rightarrow> nat \<Rightarrow> nat option \<Rightarrow> nat \<Rightarrow> nat \<Rightarrow> store \<Rightarrow> store option" where
  "copy_loop dp dst sp src 0 st = Some st"
| "copy_loop dp dst sp src (Suc n) st =
    Option.bind (load st sp src) (\<lambda>v.
      Option.bind (store_at dp dst v st) (copy_loop dp (dst + 1) sp (src + 1) n))"

definition copy_row :: "nat \<Rightarrow> nat \<Rightarrow> nat \<Rightarrow> nat \<Rightarrow> store \<Rightarrow> store option" where
  "copy_row i DstIdx SrcIdx j st =
    (case (objs st i, objs st j) of
       (Some m, Some s) \<Rightarrow>
         copy_loop (m_data m) (get_row m DstIdx) (m_data s) (get_row s SrcIdx)
           (if m_cols m < m_cols s then m_cols m else m_cols s) st
     | _ \<Rightarrow> None)"

text \<open>
  \<open>to_wakers\<close>: \<open>junk\<close> is the content of the memory that \<open>new\<close> returns, and the new object is \<open>k\<close>.
  The vector \<open>outCols\<close> has \<open>m_rows\<close> entries.
\<close>

definition wakers_of :: "nat list \<Rightarrow> nat \<Rightarrow> nat \<Rightarrow> nat list \<Rightarrow> nat list option" where
  "wakers_of xs Rows Cols junk =
    map_option fst (waker_steps xs Cols (column_major Rows Cols) (junk, replicate Rows 0))"

definition to_wakers :: "(nat \<Rightarrow> nat) \<Rightarrow> nat \<Rightarrow> nat \<Rightarrow> store \<Rightarrow> store option" where
  "to_wakers junk k i st =
    (if objs st k \<noteq> None then None else
     case objs st i of None \<Rightarrow> None
     | Some m \<Rightarrow>
         (case Option.bind (m_data m) (blocks st) of
            None \<Rightarrow> if m_rows m * m_cols m = 0 then Some (adopt k [] (m_rows m) (m_cols m) st) else None
          | Some xs \<Rightarrow>
              map_option (\<lambda>out. adopt k out (m_rows m) (m_cols m) st)
                (wakers_of xs (m_rows m) (m_cols m) (map junk [0..<m_rows m * m_cols m]))))"

section \<open>Ownership\<close>

datatype matrix_op =
    New nat | MoveConstruct nat nat | MoveAssign nat nat | Clear nat | Destroy nat
  | Init nat nat nat nat | CopyFrom nat "nat list" nat nat | SetWeakRef nat nat
  | CopyRow nat nat nat nat | ToWakers "nat \<Rightarrow> nat" nat nat

fun run_op :: "matrix_op \<Rightarrow> store \<Rightarrow> store option" where
  "run_op (New i) st = matrix_new i st"
| "run_op (MoveConstruct i j) st = move_construct i j st"
| "run_op (MoveAssign i j) st = move_assign i j st"
| "run_op (Clear i) st = clear i st"
| "run_op (Destroy i) st = destroy i st"
| "run_op (Init i v r c) st = init i v r c st"
| "run_op (CopyFrom i xs r c) st = copy_from i xs r c st"
| "run_op (SetWeakRef i j) st = set_weak_ref i j st"
| "run_op (CopyRow i a b j) st = copy_row i a b j st"
| "run_op (ToWakers junk k i) st = to_wakers junk k i st"

fun run_ops :: "matrix_op list \<Rightarrow> store \<Rightarrow> store option" where
  "run_ops [] st = Some st"
| "run_ops (x # xs) st = Option.bind (run_op x st) (run_ops xs)"

text \<open>An object owns the block at its address unless it is a weak reference.\<close>

definition owns :: "store \<Rightarrow> nat \<Rightarrow> nat \<Rightarrow> bool" where
  "owns st i a \<longleftrightarrow> (\<exists>m. objs st i = Some m \<and> \<not> weak_ptr m \<and> m_data m = Some a)"

definition owned :: "store \<Rightarrow> bool" where
  "owned st \<longleftrightarrow> (\<forall>a. blocks st a \<noteq> None \<longleftrightarrow> (\<exists>i. owns st i a))
     \<and> (\<forall>i j a. owns st i a \<longrightarrow> owns st j a \<longrightarrow> i = j)
     \<and> (\<forall>a. blocks st a \<noteq> None \<longrightarrow> a < next_addr st)"

text \<open>What the caller must respect: the objects it names are alive, those it creates are not.\<close>

fun legal :: "matrix_op \<Rightarrow> store \<Rightarrow> bool" where
  "legal (New i) st = (objs st i = None)"
| "legal (MoveConstruct i j) st = (objs st i = None \<and> objs st j \<noteq> None)"
| "legal (MoveAssign i j) st = (objs st i \<noteq> None \<and> objs st j \<noteq> None)"
| "legal (Clear i) st = (objs st i \<noteq> None)"
| "legal (Destroy i) st = (objs st i \<noteq> None)"
| "legal (Init i v r c) st = (objs st i \<noteq> None)"
| "legal (CopyFrom i xs r c) st = (objs st i \<noteq> None \<and> r * c \<le> length xs)"
| "legal (SetWeakRef i j) st = (objs st i \<noteq> None \<and> objs st j \<noteq> None)"
| "legal _ st = False"

lemma owned_block: "owned st \<Longrightarrow> owns st i a \<Longrightarrow> blocks st a \<noteq> None"
  unfolding owned_def by blast

lemma clear_owned:
  assumes "owned st" and "objs st i \<noteq> None"
  shows "\<exists>st'. clear i st = Some st' \<and> owned st' \<and> objs st' = (objs st)(i \<mapsto> null_matrix)
      \<and> next_addr st' = next_addr st"
proof -
  obtain m where m: "objs st i = Some m" using assms(2) by blast
  have null: "m\<lparr>m_data := None, m_rows := 0, m_cols := 0, weak_ptr := False\<rparr> = null_matrix"
    by (cases m) (simp add: null_matrix_def)
  have other: "owns (set_obj i null_matrix s) j a \<longleftrightarrow> j \<noteq> i \<and> owns s j a" for s j a
    by (auto simp: owns_def set_obj_def null_matrix_def)
  show ?thesis
  proof (cases "weak_ptr m \<or> m_data m = None")
    case True
    then have no: "\<not> owns st i a" for a using m by (auto simp: owns_def)
    have "clear i st = Some (set_obj i null_matrix st)"
      using True m null by (auto simp: clear_def delete_array_def)
    moreover have "owned (set_obj i null_matrix st)"
      using assms(1) no unfolding owned_def other by (simp add: set_obj_def) metis
    ultimately show ?thesis by (simp add: set_obj_def)
  next
    case False
    then obtain a where a: "m_data m = Some a" "\<not> weak_ptr m" by blast
    then have own: "owns st i b \<longleftrightarrow> b = a" for b using m by (auto simp: owns_def)
    have "blocks st a \<noteq> None" using owned_block [OF assms(1)] own by blast
    let ?st = "set_obj i null_matrix (st\<lparr>blocks := (blocks st)(a := None)\<rparr>)"
    have "clear i st = Some ?st"
      using a m null \<open>blocks st a \<noteq> None\<close> by (auto simp: clear_def delete_array_def)
    moreover have "owned ?st"
    proof -
      have "owns (st\<lparr>blocks := f\<rparr>) j b = owns st j b" for f j b by (simp add: owns_def)
      then show ?thesis
        using assms(1) own unfolding owned_def other by (simp add: set_obj_def) metis
    qed
    ultimately show ?thesis by (simp add: set_obj_def)
  qed
qed


lemma owned_parts:
  assumes "owned st"
  shows "blocks st a \<noteq> None \<longleftrightarrow> (\<exists>i. owns st i a)" and "owns st i a \<Longrightarrow> owns st j a \<Longrightarrow> i = j"
    and "blocks st a \<noteq> None \<Longrightarrow> a < next_addr st"
  using assms unfolding owned_def by blast+

lemma ownedI:
  assumes "\<And>a. blocks st a \<noteq> None \<Longrightarrow> \<exists>i. owns st i a" and "\<And>i a. owns st i a \<Longrightarrow> blocks st a \<noteq> None"
    and "\<And>i j a. owns st i a \<Longrightarrow> owns st j a \<Longrightarrow> i = j"
    and "\<And>a. blocks st a \<noteq> None \<Longrightarrow> a < next_addr st"
  shows "owned st"
  using assms unfolding owned_def by blast

lemma adopt_owned:
  assumes "owned st" and not: "\<And>a. \<not> owns st i a"
  shows "owned (adopt i xs r c st)"
proof -
  let ?st = "adopt i xs r c st" and ?n = "next_addr st"
  note st = owned_parts [OF assms(1)]
  have own: "owns ?st j a \<longleftrightarrow> (if j = i then a = ?n else owns st j a)" for j a
    by (auto simp: owns_def adopt_def new_array_def set_obj_def)
  have blk: "blocks ?st a = (if a = ?n then Some xs else blocks st a)" "next_addr ?st = ?n + 1" for a
    by (simp_all add: adopt_def new_array_def set_obj_def)
  have none: "\<not> owns st j ?n" for j using st(1) [of ?n] st(3) [of ?n] by blast
  show ?thesis
  proof (rule ownedI)
    fix a assume "blocks ?st a \<noteq> None"
    then have "a = ?n \<or> (\<exists>j. owns st j a)" using blk(1) [of a] st(1) [of a] by metis
    then show "\<exists>j. owns ?st j a" using own not by metis
    show "a < next_addr ?st"
      using \<open>a = ?n \<or> (\<exists>j. owns st j a)\<close> iffD2 [OF st(1) [of a]] st(3) [of a] unfolding blk(2)
      by (metis less_add_one less_trans)
  next
    fix j a assume "owns ?st j a"
    then have "a = ?n \<or> owns st j a" using own by metis
    then show "blocks ?st a \<noteq> None" using blk(1) [of a] st(1) [of a] by auto
  next
    fix j k a assume "owns ?st j a" "owns ?st k a"
    then show "j = k" using own none st(2) by metis
  qed
qed

lemma take_fields_owned:
  assumes "owned st" and "objs st j \<noteq> None" and not: "\<And>a. \<not> owns st i a"
  shows "\<exists>st'. take_fields i j st = Some st' \<and> owned st'"
proof -
  obtain m where m: "objs st j = Some m" using assms(2) by blast
  let ?st = "set_obj j null_matrix (set_obj i m st)"
  note st = owned_parts [OF assms(1)]
  have own: "owns ?st k a \<longleftrightarrow> k \<noteq> j \<and> (if k = i then owns st j a else owns st k a)" for k a
    using m by (auto simp: owns_def set_obj_def null_matrix_def)
  have blk: "blocks ?st = blocks st" "next_addr ?st = next_addr st" by (simp_all add: set_obj_def)
  have "owned ?st"
  proof (rule ownedI)
    fix a assume "blocks ?st a \<noteq> None"
    then have a: "blocks st a \<noteq> None" unfolding blk .
    then obtain k where k: "owns st k a" using st(1) by blast
    then have "k \<noteq> i" using not by blast
    then have "owns ?st (if k = j then i else k) a" using k own not by (cases "i = j") auto
    then show "\<exists>k. owns ?st k a" by blast
    show "a < next_addr ?st" using st(3) [OF a] unfolding blk(2) .
  next
    fix k a assume "owns ?st k a"
    then have "owns st j a \<or> owns st k a" using own by metis
    then show "blocks ?st a \<noteq> None" using st(1) blk(1) by metis
  next
    fix k l a assume "owns ?st k a" "owns ?st l a"
    then show "k = l" using own st(2) by metis
  qed
  then show ?thesis using m by (simp add: take_fields_def)
qed

lemma unowned_null: "objs st i = None \<or> objs st i = Some null_matrix \<Longrightarrow> \<not> owns st i a"
  by (auto simp: owns_def null_matrix_def)

lemma store_at_owned:
  assumes "owned st" and "store_at p k v st = Some st'"
  shows "owned st'"
proof -
  obtain a xs where st': "blocks st a = Some xs" "st' = st\<lparr>blocks := (blocks st)(a := Some (xs[k := v]))\<rparr>"
    using assms(2) by (auto simp: store_at_def split: option.splits if_splits)
  have own: "owns st' i b \<longleftrightarrow> owns st i b" for i b by (simp add: owns_def st'(2))
  have "blocks st' b \<noteq> None \<longleftrightarrow> blocks st b \<noteq> None" for b by (simp add: st')
  moreover have "next_addr st' = next_addr st" by (simp add: st'(2))
  ultimately show ?thesis using assms(1) unfolding owned_def own by simp
qed

lemma copy_loop_owned: "owned st \<Longrightarrow> copy_loop dp dst sp src n st = Some st' \<Longrightarrow> owned st'"
  by (induction n arbitrary: dst src st) (auto simp: bind_eq_Some_iff dest: store_at_owned)

lemma set_weak_owned:
  assumes "owned st" and "\<And>a. \<not> owns st i a" and "weak_ptr m"
  shows "owned (set_obj i m st)"
proof -
  have own: "owns (set_obj i m st) k a \<longleftrightarrow> owns st k a" for k a
    using assms(2) [of a] assms(3) by (auto simp: owns_def set_obj_def)
  show ?thesis using assms(1) unfolding owned_def own by (simp add: set_obj_def)
qed

lemma clear_Some: "clear i st = Some st' \<Longrightarrow> objs st i \<noteq> None"
  by (auto simp: clear_def split: option.splits)

lemma destroy_owned:
  assumes "owned st" and "objs st i = Some null_matrix"
  shows "owned (st\<lparr>objs := (objs st)(i := None)\<rparr>)"
proof -
  have own: "owns (st\<lparr>objs := (objs st)(i := None)\<rparr>) k a \<longleftrightarrow> owns st k a" for k a
    using unowned_null [of st i a] assms(2) by (auto simp: owns_def)
  show ?thesis using assms(1) unfolding owned_def own by simp
qed

lemma new_owned: "owned st \<Longrightarrow> objs st i = None \<Longrightarrow> owned (set_obj i null_matrix st)"
proof -
  assume a: "owned st" "objs st i = None"
  have own: "owns (set_obj i null_matrix st) k b \<longleftrightarrow> owns st k b" for k b
    using a(2) by (auto simp: owns_def set_obj_def null_matrix_def)
  show ?thesis using a(1) unfolding owned_def own by (simp add: set_obj_def)
qed

lemma run_op_legal:
  assumes st: "owned st" and "legal op st"
  shows "\<exists>st'. run_op op st = Some st'"
proof -
  note cl = clear_owned [OF st]
  show ?thesis
    using assms(2)
  proof (cases op)
    case (MoveAssign i j)
    then obtain st1 where "clear i st = Some st1" "objs st1 = (objs st)(i \<mapsto> null_matrix)"
      using assms(2) cl [of i] by auto
    then show ?thesis
      using MoveAssign assms(2) by (auto simp: move_assign_def take_fields_def)
  next
    case (SetWeakRef i j)
    then obtain st1 where "clear i st = Some st1" "objs st1 = (objs st)(i \<mapsto> null_matrix)"
      using assms(2) cl [of i] by auto
    then show ?thesis using SetWeakRef assms(2) by (auto simp: set_weak_ref_def)
  next
    case (Init i v r c)
    then show ?thesis using assms(2) cl [of i] by (auto simp: init_def)
  next
    case (CopyFrom i xs r c)
    then show ?thesis using assms(2) cl [of i] by (auto simp: copy_from_def)
  next
    case (Destroy i)
    then show ?thesis using assms(2) cl [of i] by (auto simp: destroy_def)
  next
    case (Clear i)
    then show ?thesis using assms(2) cl [of i] by auto
  qed (auto simp: matrix_new_def move_construct_def take_fields_def)
qed

lemma clear_SomeE:
  assumes "owned st" and "clear i st = Some st1"
  shows "owned st1" and "objs st1 = (objs st)(i \<mapsto> null_matrix)" and "\<not> owns st1 i a"
  using clear_owned [OF assms(1) clear_Some [OF assms(2)]] assms(2) unowned_null [of st1 i a] by auto

lemma run_op_owned:
  assumes st: "owned st" and run: "run_op op st = Some st'"
  shows "owned st'"
  using run
proof (cases op)
  case (New i)
  then show ?thesis using run st new_owned by (auto simp: matrix_new_def split: if_splits)
next
  case (MoveConstruct i j)
  then show ?thesis
    using run take_fields_owned [OF st, of j i] unowned_null [of st i]
    by (auto simp: move_construct_def take_fields_def split: if_splits option.splits)
next
  case (MoveAssign i j)
  then obtain st1 where c: "clear i st = Some st1" and t: "take_fields i j st1 = Some st'"
    using run by (auto simp: move_assign_def bind_eq_Some_iff)
  have "objs st1 j \<noteq> None" using t by (auto simp: take_fields_def split: option.splits)
  then show ?thesis using take_fields_owned [of st1 j i] clear_SomeE [OF st c] t by auto
next
  case (Clear i)
  then show ?thesis using run clear_SomeE [OF st] by auto
next
  case (Destroy i)
  then obtain st1 where c: "clear i st = Some st1" and st': "st' = st1\<lparr>objs := (objs st1)(i := None)\<rparr>"
    using run by (auto simp: destroy_def)
  then show ?thesis
    using clear_SomeE(1,2) [OF st c] destroy_owned [of st1 i] by simp
next
  case (Init i v r c)
  then show ?thesis using run clear_SomeE [OF st] adopt_owned by (auto simp: init_def)
next
  case (CopyFrom i xs r c)
  then show ?thesis
    using run clear_SomeE [OF st] adopt_owned by (auto simp: copy_from_def split: if_splits)
next
  case (SetWeakRef i j)
  then show ?thesis
    using run clear_SomeE [OF st] set_weak_owned
    by (auto simp: set_weak_ref_def bind_eq_Some_iff split: option.splits)
next
  case (CopyRow i a b j)
  then show ?thesis using run copy_loop_owned [OF st] by (auto simp: copy_row_def split: option.splits)
next
  case (ToWakers junk k i)
  have "\<not> owns st k a" for a
    using run ToWakers unowned_null by (auto simp: to_wakers_def split: if_splits)
  then show ?thesis
    using run ToWakers adopt_owned [OF st]
    by (auto simp: to_wakers_def split: if_splits option.splits)
qed

lemma run_ops_owned: "owned st \<Longrightarrow> run_ops ops st = Some st' \<Longrightarrow> owned st'"
  by (induction ops arbitrary: st) (auto simp: bind_eq_Some_iff dest: run_op_owned)

definition empty_store :: store where
  "empty_store = \<lparr>objs = (\<lambda>_. None), blocks = (\<lambda>_. None), next_addr = 0\<rparr>"

lemma owned_empty: "owned empty_store"
  by (simp add: owned_def owns_def empty_store_def)

section \<open>Reading\<close>

lemma read_loop_eq:
  assumes "Option.bind p (blocks st) = Some xs" and "src + n \<le> length xs"
  shows "read_loop st p src n = Some (take n (drop src xs))"
  using assms(2)
proof (induction n arbitrary: src)
  case (Suc n)
  then have "take (Suc n) (drop src xs) = xs ! src # take n (drop (src + 1) xs)"
    by (simp add: Cons_nth_drop_Suc [symmetric])
  then show ?case using Suc assms(1) by (simp add: load_def)
qed simp

lemma get_slice_row:
  assumes "objs st i = Some m" and "m_data m = Some a" and "blocks st a = Some xs"
    and "length xs = R * m_cols m" and "Idx < R"
  shows "get_slice i Idx st = Some (matrix_row xs (m_cols m) Idx)"
proof -
  have "Suc Idx * m_cols m \<le> R * m_cols m" using assms(5) by (intro mult_le_mono1) simp
  then have "Idx * m_cols m + m_cols m \<le> length xs" using assms(4) by simp
  then show ?thesis
    using assms(1-3) read_loop_eq [of "m_data m" st xs "Idx * m_cols m" "m_cols m"]
    by (simp add: get_slice_def get_row_def matrix_row_def)
qed


lemma copy_loop_eq:
  assumes "blocks st a = Some xs" and "blocks st b = Some ys" and "a \<noteq> b"
    and "dst + n \<le> length xs" and "src + n \<le> length ys"
  shows "copy_loop (Some a) dst (Some b) src n st
      = Some (st\<lparr>blocks := (blocks st)(a := Some (take dst xs @ take n (drop src ys) @ drop (dst + n) xs))\<rparr>)"
  using assms(1,2,4,5)
proof (induction n arbitrary: dst src st xs)
  case 0
  then show ?case by (simp add: fun_upd_idem)
next
  case (Suc n)
  let ?xs = "xs[dst := ys ! src]"
  let ?st = "st\<lparr>blocks := (blocks st)(a := Some ?xs)\<rparr>"
  have step: "copy_loop (Some a) dst (Some b) src (Suc n) st
      = copy_loop (Some a) (dst + 1) (Some b) (src + 1) n ?st"
    using Suc.prems by (simp add: load_def store_at_def)
  have "copy_loop (Some a) (dst + 1) (Some b) (src + 1) n ?st
      = Some (?st\<lparr>blocks := (blocks ?st)(a := Some (take (dst + 1) ?xs @ take n (drop (src + 1) ys)
          @ drop (dst + 1 + n) ?xs))\<rparr>)"
    by (rule Suc.IH) (use Suc.prems assms(3) in simp_all)
  moreover have "?st\<lparr>blocks := (blocks ?st)(a := Some zs)\<rparr> = st\<lparr>blocks := (blocks st)(a := Some zs)\<rparr>" for zs
    by simp
  moreover have "take (dst + 1) ?xs @ take n (drop (src + 1) ys) @ drop (dst + 1 + n) ?xs
      = take dst xs @ take (Suc n) (drop src ys) @ drop (dst + Suc n) xs"
    using Suc.prems(3,4) by (simp add: take_Suc_conv_app_nth Cons_nth_drop_Suc [symmetric])
  ultimately show ?case unfolding step by (simp only:)
qed

section \<open>Properties\<close>

text \<open>
  C35: whatever sequence of operations runs, every allocated block has exactly one matrix that owns it
  (no leak, no second owner, so once no object is left no block is), and every operation whose
  objects are alive completes: \<open>clear\<close>, the moves, the destructor, \<open>init\<close> and \<open>set_weak_ref\<close> never
  free a block twice, also when both arguments are the same object.
\<close>

theorem matrix_blocks_owned:
  assumes "run_ops ops empty_store = Some st"
  shows "owned st \<and> ((\<forall>i. objs st i = None) \<longrightarrow> blocks st = (\<lambda>_. None))
    \<and> (legal op st \<longrightarrow> run_op op st \<noteq> None)"
proof (intro conjI)
  show st: "owned st" using run_ops_owned [OF owned_empty assms] .
  show "(\<forall>i. objs st i = None) \<longrightarrow> blocks st = (\<lambda>_. None)"
    using owned_parts(1) [OF st] by (auto simp: owns_def)
  show "legal op st \<longrightarrow> run_op op st \<noteq> None" using run_op_legal [OF st] by auto
qed

theorem matrix_blocks_owned_witness:
  "\<exists>st. run_ops [New 0, New 1, Init 0 7 2 2, SetWeakRef 1 0, MoveAssign 0 1] empty_store = Some st
     \<and> owned st \<and> run_op (MoveAssign 0 0) st \<noteq> None"
proof -
  have "run_ops [New 0, New 1, Init 0 7 2 2, SetWeakRef 1 0, MoveAssign 0 1] empty_store \<noteq> None"
    by code_simp
  then obtain st where
    st: "run_ops [New 0, New 1, Init 0 7 2 2, SetWeakRef 1 0, MoveAssign 0 1] empty_store = Some st"
    by blast
  then have "objs st 0 \<noteq> None"
    by (auto simp: bind_eq_Some_iff move_assign_def take_fields_def set_obj_def null_matrix_def
        split: option.splits)
  then show ?thesis using st matrix_blocks_owned [OF st, of "MoveAssign 0 0"] by simp
qed

text \<open>
  on a matrix that holds a steal order, \<open>to_wakers\<close> returns a matrix that owns its block and
  whose rows are the rows of \<open>invert_matrix\<close>, whatever the fresh memory holds; the input is unchanged.
\<close>

lemma to_wakers_inverts:
  assumes "objs st i = Some m" and "m_data m = Some a" and "blocks st a = Some M"
    and "m_rows m = N" and "m_cols m = N" and "steal_order M N"
    and "owned st" and "objs st k = None"
  shows "\<exists>R st'. invert_matrix M N = Some R \<and> to_wakers junk k i st = Some st'
      \<and> (\<forall>r < N. get_slice k r st' = slice_matrix R N r \<and> get_slice i r st' = get_slice i r st)"
proof -
  let ?mem = "map junk [0..<N * N]"
  obtain s where s: "waker_steps M N (column_major N N) (?mem, replicate N 0) = Some s"
    "length (fst s) = N * N"
    "\<And>r. r < N \<Longrightarrow> matrix_row (fst s) N r = map fst (hits M N (column_major N N) r)"
    using waker_steps_rows [OF assms(6), of ?mem] by auto
  obtain s' where s': "waker_steps M N (column_major N N) (replicate (N * N) 0, replicate N 0) = Some s'"
    "length (fst s') = N * N"
    "\<And>r. r < N \<Longrightarrow> matrix_row (fst s') N r = map fst (hits M N (column_major N N) r)"
    using waker_steps_rows [OF assms(6), of "replicate (N * N) 0"] by auto
  have same: "fst s = fst s'" by (rule rows_eqI [of _ N]) (use s s' in simp_all)
  have R: "invert_matrix M N = Some (fst s)" using s'(1) same by (simp add: invert_matrix_def)
  let ?st = "adopt k (fst s) N N st"
  have run: "to_wakers junk k i st = Some ?st"
    using assms s(1) by (simp add: to_wakers_def wakers_of_def)
  have "a \<noteq> next_addr st" using owned_parts(3) [OF assms(7), of a] assms(3) by auto
  then have at: "blocks ?st a = Some M" "objs ?st i = Some m" "objs st i = Some m"
    "objs ?st k = Some \<lparr>m_data = Some (next_addr st), m_rows = N, m_cols = N, weak_ptr = False\<rparr>"
    "blocks ?st (next_addr st) = Some (fst s)"
    using assms(1,3,8) by (auto simp: adopt_def new_array_def set_obj_def)
  have len: "length M = N * N" using assms(6) by (simp add: steal_order_def)
  have "get_slice k r ?st = slice_matrix (fst s) N r \<and> get_slice i r ?st = get_slice i r st" if "r < N" for r
    using get_slice_row [OF at(4) _ at(5), of N r] slice_matrix_row [OF s(2) that] s(2) that
      get_slice_row [OF at(2) assms(2) at(1), of N r] get_slice_row [OF at(3) assms(2,3), of N r] len assms(5)
    by simp
  then show ?thesis using R run by blast
qed

definition sample_store :: "store option" where
  "sample_store = run_ops [New 0, CopyFrom 0 [0, 1, 2, 1, 2, 0, 2, 0, 1] 3 3] empty_store"

lemma sample_store_eq:
  "sample_store = Some \<lparr>objs = (\<lambda>_. None)(0 := Some \<lparr>m_data = Some 0, m_rows = 3, m_cols = 3, weak_ptr = False\<rparr>),
     blocks = (\<lambda>_. None)(0 := Some [0, 1, 2, 1, 2, 0, 2, 0, 1]), next_addr = 1\<rparr>"
  by (simp add: sample_store_def empty_store_def matrix_new_def set_obj_def null_matrix_def copy_from_def
      clear_def delete_array_def adopt_def new_array_def)

theorem to_wakers_inverts_witness:
  "\<exists>st st'. sample_store = Some st \<and> to_wakers (\<lambda>_. 99) 1 0 st = Some st'
     \<and> get_slice 1 1 st' = Some [1, 0, 2]"
proof -
  obtain st where st: "sample_store = Some st" by (simp add: sample_store_eq)
  have "owned st"
    using run_ops_owned [OF owned_empty] st unfolding sample_store_def by blast
  then have "\<exists>R st'. invert_matrix [0, 1, 2, 1, 2, 0, 2, 0, 1] 3 = Some R \<and> to_wakers (\<lambda>_. 99) 1 0 st = Some st'
      \<and> (\<forall>r < 3. get_slice 1 r st' = slice_matrix R 3 r \<and> get_slice 0 r st' = get_slice 0 r st)"
    using st by (intro to_wakers_inverts [OF _ _ _ _ _ sample_steal_order]) (auto simp: sample_store_eq)
  moreover have "invert_matrix [0, 1, 2, 1, 2, 0, 2, 0, 1] 3 = Some [0, 2, 1, 1, 0, 2, 2, 1, 0]" by code_simp
  moreover have "slice_matrix [0, 2, 1, 1, 0, 2, 2, 1, 0] 3 1 = Some [1, 0, 2]" by code_simp
  ultimately show ?thesis using st by force
qed

end
