(* ===== verification/ThreadGroups.thy ===== *)
theory ThreadGroups
  imports GroupIterator
begin

text \<open>
  Choosing the number of threads of every cache group (\<open>adjust_thread_groups\<close> in
  \<open>src/include/tmc/detail/thread_layout.ipp\<close>).  The groups are the leaves of the topology in their
  flat order; every loop of the function is a definition of its own.  Floating point is a parameter:
  \<open>'f\<close> is the type of an occupancy, \<open>is_one\<close> the comparison with \<open>1.0f\<close> and \<open>scaled occ n\<close> the
  truncated product.

  What a function does has three outcomes: \<open>Some (Returns x)\<close>, \<open>Some Out_of_bounds\<close> when it reads a vector out of bounds,
  and \<open>None\<close>, the least value of \<open>partial_function\<close>, when it does not end.  The single passes, which end, have \<open>None\<close> for
  a read out of bounds.
\<close>

datatype 'a run_outcome = Out_of_bounds | Returns 'a

definition and_then :: "'a run_outcome option \<Rightarrow> ('a \<Rightarrow> 'b run_outcome option) \<Rightarrow> 'b run_outcome option" where
  "and_then m f = Option.bind m (\<lambda>r. case r of Out_of_bounds \<Rightarrow> Some Out_of_bounds | Returns x \<Rightarrow> f x)"

lemma and_then_simps [simp]:
  "and_then None f = None" "and_then (Some Out_of_bounds) f = Some Out_of_bounds" "and_then (Some (Returns x)) f = f x"
  by (simp_all add: and_then_def)

section \<open>Filters\<close>

record topology_filter =
  core_indexes :: "nat list"
  group_indexes :: "nat list"
  numa_indexes :: "nat list"
  cpu_kinds :: size_t

text \<open>\<open>FilterProcessor\<close>: the offset is its state, the result is the new offset and \<open>Include_out\<close>.\<close>

function process_loop :: "nat list \<Rightarrow> nat \<Rightarrow> nat \<Rightarrow> bool \<Rightarrow> nat \<times> bool" where
  "process_loop indexes offset Idx Include =
    (if length indexes \<le> offset \<or> Idx < indexes ! offset then (offset, False)
     else if indexes ! offset < Idx then process_loop indexes (offset + 1) Idx Include
     else (offset, Include))"
  by pat_completeness auto
termination by (relation "measure (\<lambda>(indexes, offset, _, _). length indexes - offset)") auto

declare process_loop.simps [simp del]

definition process_next :: "nat list \<Rightarrow> nat \<Rightarrow> nat \<Rightarrow> bool \<Rightarrow> nat \<times> bool" where
  "process_next indexes offset Idx Include =
    (if indexes = [] then (offset, Include) else process_loop indexes offset Idx Include)"

text \<open>\<open>--group_size\<close> wraps around at zero.\<close>

definition dec_size :: "nat \<Rightarrow> nat" where
  "dec_size n = (if n = 0 then 2 ^ 64 - 1 else n - 1)"

definition set_size :: "nat \<Rightarrow> CacheGroup \<Rightarrow> CacheGroup" where
  "set_size n g = CacheGroup (cg_index g) (cg_cpu_kind g) (cg_children g) (cg_cores g) n (cg_start g)"

definition set_start :: "nat \<Rightarrow> CacheGroup \<Rightarrow> CacheGroup" where
  "set_start n g = CacheGroup (cg_index g) (cg_cpu_kind g) (cg_children g) (cg_cores g) (cg_size g) n"

definition set_cores :: "TopologyCore list \<Rightarrow> nat \<Rightarrow> CacheGroup \<Rightarrow> CacheGroup" where
  "set_cores cs n g = CacheGroup (cg_index g) (cg_cpu_kind g) (cg_children g) cs n (cg_start g)"

text \<open>The loop over the cores of a group; it returns the cores left, \<open>group_size\<close> and the two offsets.\<close>

fun filter_cores ::
  "topology_filter \<Rightarrow> TopologyCore list \<Rightarrow> nat \<Rightarrow> nat \<Rightarrow> nat \<Rightarrow> TopologyCore list \<times> nat \<times> nat \<times> nat" where
  "filter_cores Filter [] sz numaOff coreOff = ([], sz, numaOff, coreOff)"
| "filter_cores Filter (core # cores) sz numaOff coreOff =
    (let (numaOff, inc) = (case core_numa core of None \<Rightarrow> (numaOff, True)
                           | Some n \<Rightarrow> process_next (numa_indexes Filter) numaOff n True)
     in if \<not> inc then (core # cores, 0, numaOff, coreOff)
        else
          let (coreOff, inc) = process_next (core_indexes Filter) coreOff (core_index core) True
          in if inc
             then let (rest, out) = filter_cores Filter cores sz numaOff coreOff in (core # rest, out)
             else filter_cores Filter cores (dec_size sz) numaOff coreOff)"

text \<open>The conversion of the \<open>int\<close> index to \<open>size_t\<close>.\<close>

definition size_of_int :: "int \<Rightarrow> nat" where
  "size_of_int i = nat (i mod 2 ^ 64)"

fun filter_groups ::
  "topology_filter \<Rightarrow> CacheGroup list \<Rightarrow> nat \<Rightarrow> nat \<Rightarrow> nat \<Rightarrow> CacheGroup list" where
  "filter_groups Filter [] llcOff numaOff coreOff = []"
| "filter_groups Filter (g # gs) llcOff numaOff coreOff =
    (if cpu_kinds Filter AND push_bit (cg_cpu_kind g) 1 = 0
     then set_size 0 g # filter_groups Filter gs llcOff numaOff coreOff
     else
       let (llcOff, inc) = process_next (group_indexes Filter) llcOff (size_of_int (cg_index g)) True
       in if \<not> inc then set_size 0 g # filter_groups Filter gs llcOff numaOff coreOff
          else
            let (cores, sz, numaOff, coreOff) = filter_cores Filter (cg_cores g) (cg_size g) numaOff coreOff
            in set_cores cores sz g # filter_groups Filter gs llcOff numaOff coreOff)"

section \<open>Occupancy and requested count\<close>

definition occupy :: "('f \<Rightarrow> bool) \<Rightarrow> ('f \<Rightarrow> nat \<Rightarrow> nat) \<Rightarrow> 'f list \<Rightarrow> CacheGroup \<Rightarrow> CacheGroup option" where
  "occupy is_one scaled occs g =
    (if \<not> cg_cpu_kind g < length occs then None
     else
       let occ = occs ! cg_cpu_kind g in
       Some (if cg_size g \<noteq> 0 \<and> \<not> is_one occ
             then let newSize = scaled occ (cg_size g) in set_size (if newSize = 0 then 1 else newSize) g
             else g))"

fun occupy_groups ::
  "('f \<Rightarrow> bool) \<Rightarrow> ('f \<Rightarrow> nat \<Rightarrow> nat) \<Rightarrow> 'f list \<Rightarrow> CacheGroup list \<Rightarrow> CacheGroup list option" where
  "occupy_groups is_one scaled occs [] = Some []"
| "occupy_groups is_one scaled occs (g # gs) =
    Option.bind (occupy is_one scaled occs g) (\<lambda>g'. map_option (Cons g') (occupy_groups is_one scaled occs gs))"

text \<open>\<open>quota\<close> is the container's CPU count rounded down, when the container is limited.\<close>

definition apply_quota :: "nat \<Rightarrow> nat option \<Rightarrow> nat" where
  "apply_quota Requested quota =
    (if Requested = 0
     then (case quota of None \<Rightarrow> Requested | Some limit \<Rightarrow> if limit = 0 then 1 else limit)
     else Requested)"

fun total_size :: "CacheGroup list \<Rightarrow> nat" where
  "total_size [] = 0"
| "total_size (g # gs) = cg_size g + total_size gs"

text \<open>The cap of a build without \<open>TMC_MORE_THREADS\<close>.\<close>

definition cap_threads :: "bool \<Rightarrow> nat \<Rightarrow> nat \<Rightarrow> nat" where
  "cap_threads more_threads Requested totalSize =
    (if \<not> more_threads
        \<and> (Requested = 0 \<and> TMC_PLATFORM_BITS < totalSize \<or> TMC_PLATFORM_BITS < Requested)
     then TMC_PLATFORM_BITS else Requested)"

section \<open>Growing\<close>

text \<open>
  One pass of a \<open>for\<close> loop over the groups that stops when \<open>totalSize\<close> is the requested count, changes
  the size of the groups that satisfy a test by \<open>d\<close> (\<open>Suc\<close> for \<open>++\<close>) and records whether it changed any.
\<close>

fun size_pass ::
  "(CacheGroup \<Rightarrow> bool option) \<Rightarrow> (nat \<Rightarrow> nat) \<Rightarrow> nat \<Rightarrow> CacheGroup list \<Rightarrow> nat
    \<Rightarrow> (CacheGroup list \<times> nat \<times> bool) option" where
  "size_pass P d req [] t = Some ([], t, False)"
| "size_pass P d req (g # gs) t =
    (if t = req then Some (g # gs, t, False)
     else
       case P g of None \<Rightarrow> None
       | Some False \<Rightarrow> map_option (\<lambda>(gs', r). (g # gs', r)) (size_pass P d req gs t)
       | Some True \<Rightarrow>
           map_option (\<lambda>(gs', t', _). (set_size (d (cg_size g)) g # gs', t', True))
             (size_pass P d req gs (d t)))"

definition smt_room :: "CacheGroup \<Rightarrow> bool option" where
  "smt_room g =
    (if cg_size g = 0 then Some False
     else case cg_cores g of [] \<Rightarrow> None
       | core # _ \<Rightarrow> Some (cg_size g < length (cg_cores g) * core_pus core))"

definition nonempty :: "CacheGroup \<Rightarrow> bool option" where
  "nonempty g = Some (cg_size g \<noteq> 0)"

partial_function (option) smt_loop ::
  "nat \<Rightarrow> CacheGroup list \<Rightarrow> nat \<Rightarrow> (CacheGroup list \<times> nat) run_outcome option" where
  "smt_loop req gs t =
    (case size_pass smt_room Suc req gs t of None \<Rightarrow> Some Out_of_bounds
     | Some (gs', t', increased) \<Rightarrow> if t' < req \<and> increased then smt_loop req gs' t' else Some (Returns (gs', t')))"

partial_function (option) grow_loop ::
  "nat \<Rightarrow> CacheGroup list \<Rightarrow> nat \<Rightarrow> (CacheGroup list \<times> nat) run_outcome option" where
  "grow_loop req gs t =
    (if t < req
     then case size_pass nonempty Suc req gs t of None \<Rightarrow> Some Out_of_bounds | Some (gs', t', _) \<Rightarrow> grow_loop req gs' t'
     else Some (Returns (gs, t)))"

definition grow :: "nat \<Rightarrow> CacheGroup list \<Rightarrow> nat \<Rightarrow> (CacheGroup list \<times> nat) run_outcome option" where
  "grow req gs t =
    (if t < req then and_then (smt_loop req gs t) (\<lambda>(gs', t'). grow_loop req gs' t') else Some (Returns (gs, t)))"

section \<open>Shrinking\<close>

text \<open>\<open>PACK\<close>: the loop runs from the last group to the first; here over the reversed list.\<close>

fun pack_rev :: "nat \<Rightarrow> CacheGroup list \<Rightarrow> nat \<Rightarrow> CacheGroup list" where
  "pack_rev req [] t = []"
| "pack_rev req (g # gs) t =
    (if t = req then g # gs
     else
       let diff = t - req in
       if cg_size g \<le> diff then set_size 0 g # pack_rev req gs (t - cg_size g)
       else set_size (cg_size g - diff) g # pack_rev req gs req)"

definition pack :: "nat \<Rightarrow> CacheGroup list \<Rightarrow> nat \<Rightarrow> CacheGroup list" where
  "pack req gs t = (if req < t then rev (pack_rev req (rev gs) t) else gs)"

text \<open>\<open>FAN\<close>: the smallest group size that is not zero, the two loops.\<close>

fun find_smallest :: "CacheGroup list \<Rightarrow> nat \<Rightarrow> nat" where
  "find_smallest [] smallest = smallest"
| "find_smallest (g # gs) smallest =
    find_smallest gs (if cg_size g \<noteq> 0 \<and> cg_size g < smallest then cg_size g else smallest)"

definition above :: "nat \<Rightarrow> CacheGroup \<Rightarrow> bool option" where
  "above smallest g = Some (smallest < cg_size g)"

definition minus1 :: "nat \<Rightarrow> nat" where
  "minus1 n = n - 1"

partial_function (option) level_loop ::
  "nat \<Rightarrow> nat \<Rightarrow> CacheGroup list \<Rightarrow> nat \<Rightarrow> (CacheGroup list \<times> nat) run_outcome option" where
  "level_loop smallest req gs t =
    (if req < t
     then case size_pass (above smallest) minus1 req gs t of None \<Rightarrow> Some Out_of_bounds
       | Some (gs', t', removed) \<Rightarrow> if \<not> removed then Some (Returns (gs', t')) else level_loop smallest req gs' t'
     else Some (Returns (gs, t)))"

partial_function (option) fan_loop ::
  "nat \<Rightarrow> CacheGroup list \<Rightarrow> nat \<Rightarrow> (CacheGroup list \<times> nat) run_outcome option" where
  "fan_loop req gs t =
    (if req < t
     then case size_pass nonempty minus1 req (rev gs) t of None \<Rightarrow> Some Out_of_bounds
       | Some (gs', t', _) \<Rightarrow> fan_loop req (rev gs') t'
     else Some (Returns (gs, t)))"

definition fan :: "nat \<Rightarrow> CacheGroup list \<Rightarrow> nat \<Rightarrow> CacheGroup list run_outcome option" where
  "fan req gs t =
    (if req < t
     then and_then (level_loop (find_smallest gs (2 ^ 64 - 1)) req gs t) (\<lambda>(gs', t').
            and_then (fan_loop req gs' t') (\<lambda>r. Some (Returns (fst r))))
     else Some (Returns gs))"

datatype thread_packing_strategy = PACK | FAN

fun assign_starts :: "nat \<Rightarrow> CacheGroup list \<Rightarrow> CacheGroup list" where
  "assign_starts start [] = []"
| "assign_starts start (g # gs) = set_start start g # assign_starts (start + cg_size g) gs"

definition resize_groups ::
  "thread_packing_strategy \<Rightarrow> nat \<Rightarrow> CacheGroup list \<Rightarrow> CacheGroup list run_outcome option" where
  "resize_groups Pack req gs =
    (if req = 0 then Some (Returns gs)
     else and_then (grow req gs (total_size gs)) (\<lambda>(gs', t).
       case Pack of PACK \<Rightarrow> Some (Returns (pack req gs' t)) | FAN \<Rightarrow> fan req gs' t))"

definition adjust_thread_groups ::
  "bool \<Rightarrow> ('f \<Rightarrow> bool) \<Rightarrow> ('f \<Rightarrow> nat \<Rightarrow> nat) \<Rightarrow> nat option \<Rightarrow> nat \<Rightarrow> 'f list \<Rightarrow> CacheGroup list
    \<Rightarrow> topology_filter \<Rightarrow> thread_packing_strategy \<Rightarrow> CacheGroup list run_outcome option" where
  "adjust_thread_groups more_threads is_one scaled quota Requested occs flatGroups Filter Pack =
    (let gs = filter_groups Filter flatGroups 0 0 0 in
     case (if occs = [] then Some gs else occupy_groups is_one scaled occs gs) of None \<Rightarrow> Some Out_of_bounds
     | Some gs \<Rightarrow>
         let req = cap_threads more_threads (apply_quota Requested quota) (total_size gs)
         in and_then (resize_groups Pack req gs) (\<lambda>gs. Some (Returns (assign_starts 0 gs))))"


section \<open>Totals\<close>

lemma set_size_sel [simp]:
  "cg_size (set_size n g) = n" "cg_cores (set_size n g) = cg_cores g" "cg_index (set_size n g) = cg_index g"
  "cg_cpu_kind (set_size n g) = cg_cpu_kind g" "set_size m (set_size n g) = set_size m g"
  "set_size (cg_size g) g = g" "cg_start (set_size n g) = cg_start g"
  by (simp_all add: set_size_def)

lemma total_size_append [simp]: "total_size (xs @ ys) = total_size xs + total_size ys"
  by (induction xs) auto

lemma total_size_rev [simp]: "total_size (rev gs) = total_size gs"
  by (induction gs) auto

text \<open>Two lists of groups that differ in their sizes only, and have the same empty groups.\<close>

definition resized :: "CacheGroup \<Rightarrow> CacheGroup \<Rightarrow> bool" where
  "resized g g' \<longleftrightarrow> set_size 0 g' = set_size 0 g \<and> (cg_size g = 0 \<longrightarrow> cg_size g' = 0)"

lemma resized_refl [simp]: "resized g g"
  by (simp add: resized_def)

lemma resized_set: "cg_size g \<noteq> 0 \<or> n = 0 \<Longrightarrow> resized g (set_size n g)"
  by (auto simp: resized_def)

lemma resized_trans: "resized g h \<Longrightarrow> resized h k \<Longrightarrow> resized g k"
  by (auto simp: resized_def)

lemma resized_cores: "resized g g' \<Longrightarrow> cg_cores g' = cg_cores g"
  unfolding resized_def by (metis set_size_sel(2))

lemma all2_refl: "list_all2 resized gs gs"
  by (simp add: list_all2_same)

lemma all2_trans: "list_all2 resized a b \<Longrightarrow> list_all2 resized b c \<Longrightarrow> list_all2 resized a c"
  by (rule list_all2_trans [OF resized_trans])

definition keeps :: "(CacheGroup \<Rightarrow> bool option) \<Rightarrow> bool" where
  "keeps P \<longleftrightarrow> (\<forall>g. P g = Some True \<longrightarrow> cg_size g \<noteq> 0)"

lemma keeps_tests [simp]: "keeps nonempty" "keeps smt_room" "keeps (above s)"
  by (auto simp: keeps_def nonempty_def smt_room_def above_def split: list.splits if_splits)

lemma size_pass_ConsE:
  assumes "size_pass P d req (g # gs) t = Some (gs', t', b)"
  obtains (stop) "t = req" "gs' = g # gs" "t' = t" "\<not> b"
  | (skip) hs where "t \<noteq> req" "P g = Some False" "size_pass P d req gs t = Some (hs, t', b)" "gs' = g # hs"
  | (change) hs c where "t \<noteq> req" "P g = Some True" "size_pass P d req gs (d t) = Some (hs, t', c)"
      "gs' = set_size (d (cg_size g)) g # hs" "b"
proof (cases "t = req")
  case False
  then obtain p where p: "P g = Some p" using assms by (auto split: option.splits)
  show ?thesis
  proof (cases p)
    case True
    then show ?thesis using change assms False p by auto
  next
    case False
    then show ?thesis using skip assms \<open>t \<noteq> req\<close> p by auto
  qed
qed (use stop assms in auto)

lemma size_pass_frame:
  "keeps P \<Longrightarrow> size_pass P d req gs t = Some (gs', t', b) \<Longrightarrow> list_all2 resized gs gs'"
proof (induction gs arbitrary: t gs' t' b)
  case (Cons g gs)
  from Cons.prems(2) show ?case
  proof (cases rule: size_pass_ConsE)
    case stop
    then show ?thesis using all2_refl [of "g # gs"] by simp
  next
    case (skip hs)
    then show ?thesis using Cons.IH [OF Cons.prems(1)] by simp
  next
    case (change hs c)
    moreover have "cg_size g \<noteq> 0" using change(2) Cons.prems(1) by (simp add: keeps_def)
    ultimately show ?thesis using Cons.IH [OF Cons.prems(1)] by (simp add: resized_def)
  qed
qed auto

lemma size_pass_inc:
  "size_pass P Suc req gs t = Some (gs', t', b) \<Longrightarrow> t \<le> req
    \<Longrightarrow> t' + total_size gs = t + total_size gs' \<and> t \<le> t' \<and> t' \<le> req \<and> (b \<longleftrightarrow> t < t')"
proof (induction gs arbitrary: t gs' t' b)
  case (Cons g gs)
  from Cons.prems(1) show ?case
  proof (cases rule: size_pass_ConsE)
    case (skip hs)
    then show ?thesis using Cons.IH [OF skip(3) Cons.prems(2)] by simp
  next
    case (change hs c)
    moreover have "Suc t \<le> req" using change(1) Cons.prems(2) by simp
    ultimately show ?thesis using Cons.IH [OF change(3)] by auto
  qed (use Cons.prems in simp)
qed auto

lemma size_pass_dec:
  "size_pass P minus1 req gs t = Some (gs', t', b) \<Longrightarrow> keeps P \<Longrightarrow> req \<le> t \<Longrightarrow> total_size gs \<le> t
    \<Longrightarrow> t + total_size gs' = t' + total_size gs \<and> t' \<le> t \<and> req \<le> t' \<and> (b \<longleftrightarrow> t' < t)"
proof (induction gs arbitrary: t gs' t' b)
  case (Cons g gs)
  from Cons.prems(1) show ?case
  proof (cases rule: size_pass_ConsE)
    case (skip hs)
    then show ?thesis using Cons.IH [OF skip(3) Cons.prems(2,3)] Cons.prems(4) by simp
  next
    case (change hs c)
    have g: "cg_size g \<noteq> 0" using change(2) Cons.prems(2) by (simp add: keeps_def)
    have "req \<le> minus1 t" "total_size gs \<le> minus1 t" "0 < t"
      using change(1) Cons.prems(3,4) g by (auto simp: minus1_def)
    with Cons.IH [OF change(3) Cons.prems(2)] show ?thesis
      using change(4,5) g by (auto simp: minus1_def)
  qed (use Cons.prems in simp)
qed auto

lemma size_pass_defined:
  "\<forall>g \<in> set gs. P g \<noteq> None \<Longrightarrow> size_pass P d req gs t \<noteq> None"
proof (induction gs arbitrary: t)
  case (Cons g gs)
  then obtain p where p: "P g = Some p" by auto
  have "size_pass P d req gs u \<noteq> None" for u using Cons by simp
  then show ?case using p by (cases p) (auto simp del: not_None_eq)
qed simp

lemma size_pass_total:
  assumes "\<forall>g \<in> set gs. P g \<noteq> None"
  obtains gs' t' b where "size_pass P d req gs t = Some (gs', t', b)"
  using size_pass_defined [OF assms, of d req t] by auto

lemma size_pass_idle:
  "size_pass P d req gs t = Some (gs', t', b) \<Longrightarrow> \<not> b \<Longrightarrow> gs' = gs \<and> t' = t"
proof (induction gs arbitrary: t gs' t' b)
  case (Cons g gs)
  from Cons.prems(1) show ?case
    by (cases rule: size_pass_ConsE) (use Cons.IH Cons.prems(2) in auto)
qed auto

text \<open>A pass that does not reach its target changes every group that passes the test.\<close>

lemma size_pass_all:
  "size_pass P d req gs t = Some (gs', t', b) \<Longrightarrow> t' \<noteq> req
    \<Longrightarrow> gs' = map (\<lambda>g. if P g = Some True then set_size (d (cg_size g)) g else g) gs
      \<and> (b \<longleftrightarrow> (\<exists>g \<in> set gs. P g = Some True))"
proof (induction gs arbitrary: t gs' t' b)
  case (Cons g gs)
  from Cons.prems(1) show ?case
  proof (cases rule: size_pass_ConsE)
    case (skip hs)
    then show ?thesis using Cons.IH [OF skip(3) Cons.prems(2)] by simp
  next
    case (change hs c)
    then show ?thesis using Cons.IH [OF change(3) Cons.prems(2)] by simp
  qed (use Cons.prems in simp)
qed auto

subsection \<open>The loops end\<close>

definition cored :: "CacheGroup list \<Rightarrow> bool" where
  "cored gs \<longleftrightarrow> (\<forall>g \<in> set gs. cg_size g \<noteq> 0 \<longrightarrow> cg_cores g \<noteq> [])"

lemma resized_cored: "list_all2 resized gs gs' \<Longrightarrow> cored gs \<Longrightarrow> cored gs'"
proof (induction rule: list_all2_induct)
  case (Cons g gs g' gs')
  then have "cg_cores g' = cg_cores g" "cg_size g = 0 \<longrightarrow> cg_size g' = 0"
    by (auto simp: resized_cores) (simp add: resized_def)
  then show ?case using Cons by (auto simp: cored_def)
qed simp

lemma total_size_0: "total_size gs = 0 \<longleftrightarrow> (\<forall>g \<in> set gs. cg_size g = 0)"
  by (induction gs) auto

text \<open>What a loop that moves the total towards the request has as a result.\<close>

definition settles :: "CacheGroup list \<Rightarrow> CacheGroup list \<times> nat \<Rightarrow> bool" where
  "settles gs r \<longleftrightarrow> list_all2 resized gs (fst r) \<and> total_size (fst r) = snd r"

lemma smt_loop_ends:
  assumes "t = total_size gs" and "t \<le> req" and "cored gs"
  shows "\<exists>gs' t'. smt_loop req gs t = Some (Returns (gs', t')) \<and> settles gs (gs', t') \<and> t \<le> t' \<and> t' \<le> req"
  using assms
proof (induction "req - t" arbitrary: gs t rule: less_induct)
  case less
  have "\<forall>g \<in> set gs. smt_room g \<noteq> None"
    using less.prems(3) by (auto simp: smt_room_def cored_def split: list.splits)
  then obtain gs1 t1 b where pass: "size_pass smt_room Suc req gs t = Some (gs1, t1, b)"
    by (rule size_pass_total)
  note inc = size_pass_inc [OF pass less.prems(2)]
  have fr: "list_all2 resized gs gs1" using size_pass_frame [OF _ pass] by simp
  have t1: "t1 = total_size gs1" using inc less.prems(1) by simp
  show ?case
  proof (cases "t1 < req \<and> b")
    case True
    then have "req - t1 < req - t" using inc by auto
    from less.hyps [OF this t1 _ resized_cored [OF fr less.prems(3)]]
    obtain gs' t' where "smt_loop req gs1 t1 = Some (Returns (gs', t'))" "settles gs1 (gs', t')" "t1 \<le> t'" "t' \<le> req"
      using inc by blast
    then show ?thesis
      using pass True inc fr all2_trans by (subst smt_loop.simps) (auto simp: settles_def)
  next
    case False
    then show ?thesis
      using pass inc fr t1 by (subst smt_loop.simps) (auto simp: settles_def)
  qed
qed

lemma grow_loop_ends:
  assumes "t = total_size gs" and "t \<le> req" and "0 < t"
  shows "\<exists>gs' t'. grow_loop req gs t = Some (Returns (gs', t')) \<and> settles gs (gs', t') \<and> t' = req"
  using assms
proof (induction "req - t" arbitrary: gs t rule: less_induct)
  case less
  show ?case
  proof (cases "t < req")
    case True
    have "\<forall>g \<in> set gs. nonempty g \<noteq> None" by (simp add: nonempty_def)
    then obtain gs1 t1 b where pass: "size_pass nonempty Suc req gs t = Some (gs1, t1, b)"
      by (rule size_pass_total)
    note inc = size_pass_inc [OF pass less.prems(2)]
    have fr: "list_all2 resized gs gs1" using size_pass_frame [OF _ pass] by simp
    have t1: "t1 = total_size gs1" using inc less.prems(1) by simp
    obtain g where "g \<in> set gs" "cg_size g \<noteq> 0"
      using less.prems(1,3) total_size_0 [of gs] by auto
    then have "t < t1"
      using size_pass_all [OF pass] inc True by (cases "t1 = req") (auto simp: nonempty_def)
    then have "req - t1 < req - t" using True by auto
    from less.hyps [OF this t1] obtain gs' t' where
      "grow_loop req gs1 t1 = Some (Returns (gs', t'))" "settles gs1 (gs', t')" "t' = req"
      using inc less.prems(3) by auto
    then show ?thesis
      using pass True fr all2_trans by (subst grow_loop.simps) (auto simp: settles_def)
  next
    case False
    then show ?thesis
      using less.prems all2_refl by (subst grow_loop.simps) (auto simp: settles_def)
  qed
qed


lemma size_pass_above:
  "size_pass (above s) minus1 req gs t = Some (gs', t', b) \<Longrightarrow> 0 < k \<Longrightarrow> k \<le> s
    \<Longrightarrow> list_all2 (\<lambda>g g'. k \<le> cg_size g \<longrightarrow> k \<le> cg_size g') gs gs'"
proof (induction gs arbitrary: t gs' t' b)
  case (Cons g gs)
  from Cons.prems(1) show ?case
  proof (cases rule: size_pass_ConsE)
    case (change hs c)
    then show ?thesis using Cons.IH Cons.prems(2,3) by (auto simp: above_def minus1_def)
  qed (use Cons.IH Cons.prems in \<open>auto simp: list_all2_same\<close>)
qed auto

lemma level_loop_ends:
  assumes "t = total_size gs" and "req \<le> t"
  shows "\<exists>gs' t'. level_loop s req gs t = Some (Returns (gs', t')) \<and> settles gs (gs', t') \<and> req \<le> t'
      \<and> (t' = req \<or> (\<forall>g \<in> set gs'. cg_size g \<le> s)) \<and> (\<forall>k. 0 < k \<and> k \<le> s \<longrightarrow> list_all2 (\<lambda>g g'. k \<le> cg_size g \<longrightarrow> k \<le> cg_size g') gs gs')"
  using assms
proof (induction t arbitrary: gs rule: less_induct)
  case (less t)
  show ?case
  proof (cases "req < t")
    case True
    have "\<forall>g \<in> set gs. above s g \<noteq> None" by (simp add: above_def)
    then obtain gs1 t1 b where pass: "size_pass (above s) minus1 req gs t = Some (gs1, t1, b)"
      by (rule size_pass_total)
    note dec = size_pass_dec [OF pass _ less.prems(2)]
    have fr: "list_all2 resized gs gs1" using size_pass_frame [OF _ pass] by simp
    have t1: "t1 = total_size gs1" "req \<le> t1" "b \<longleftrightarrow> t1 < t" using dec less.prems(1) by simp_all
    have keep: "list_all2 (\<lambda>g g'. k \<le> cg_size g \<longrightarrow> k \<le> cg_size g') gs gs1" if "0 < k" "k \<le> s" for k
      using pass that by (rule size_pass_above)
    show ?thesis
    proof (cases b)
      case True
      from less.IH [OF _ t1(1,2)] t1(3) True obtain gs' t' where r:
        "level_loop s req gs1 t1 = Some (Returns (gs', t'))" "settles gs1 (gs', t')" "req \<le> t'"
        "t' = req \<or> (\<forall>g \<in> set gs'. cg_size g \<le> s)"
        "\<forall>k. 0 < k \<and> k \<le> s \<longrightarrow> list_all2 (\<lambda>g g'. k \<le> cg_size g \<longrightarrow> k \<le> cg_size g') gs1 gs'"
        by blast
      have "list_all2 (\<lambda>g g'. k \<le> cg_size g \<longrightarrow> k \<le> cg_size g') gs gs'" if "0 < k" "k \<le> s" for k
        using keep [OF that] r(5) that by (auto intro: list_all2_trans [rotated])
      then show ?thesis
        using r pass \<open>req < t\<close> fr True all2_trans by (subst level_loop.simps) (auto simp: settles_def)
    next
      case False
      then have "gs1 = gs" "t1 = t" using size_pass_idle [OF pass] by auto
      moreover have "\<forall>g \<in> set gs. cg_size g \<le> s"
        using size_pass_all [OF pass] False \<open>req < t\<close> \<open>t1 = t\<close> by (auto simp: above_def)
      ultimately show ?thesis
        using pass \<open>req < t\<close> False less.prems all2_refl
        by (subst level_loop.simps) (auto simp: settles_def list_all2_same)
    qed
  next
    case False
    then show ?thesis
      using less.prems all2_refl by (subst level_loop.simps) (auto simp: settles_def list_all2_same)
  qed
qed


lemma fan_loop_ends:
  assumes "t = total_size gs" and "req \<le> t"
  shows "\<exists>gs' t'. fan_loop req gs t = Some (Returns (gs', t')) \<and> settles gs (gs', t') \<and> t' = req"
  using assms
proof (induction t arbitrary: gs rule: less_induct)
  case (less t)
  show ?case
  proof (cases "req < t")
    case True
    have "\<forall>g \<in> set (rev gs). nonempty g \<noteq> None" by (simp add: nonempty_def)
    then obtain gs1 t1 b where pass: "size_pass nonempty minus1 req (rev gs) t = Some (gs1, t1, b)"
      by (rule size_pass_total)
    note dec = size_pass_dec [OF pass _ less.prems(2)]
    have fr: "list_all2 resized gs (rev gs1)"
      using size_pass_frame [OF _ pass] by (simp add: list_all2_rev1)
    have t1: "t1 = total_size (rev gs1)" "req \<le> t1" "b \<longleftrightarrow> t1 < t" using dec less.prems(1) by simp_all
    obtain g where "g \<in> set gs" "cg_size g \<noteq> 0"
      using less.prems(1) True total_size_0 [of gs] by auto
    then have "t1 < t"
      using size_pass_all [OF pass] t1 True by (cases "t1 = req") (auto simp: nonempty_def)
    from less.IH [OF this t1(1,2)] obtain gs' t' where
      "fan_loop req (rev gs1) t1 = Some (Returns (gs', t'))" "settles (rev gs1) (gs', t')" "t' = req"
      by blast
    then show ?thesis
      using pass True fr all2_trans by (subst fan_loop.simps) (auto simp: settles_def)
  next
    case False
    then show ?thesis
      using less.prems all2_refl by (subst fan_loop.simps) (auto simp: settles_def)
  qed
qed

lemma pack_rev_total:
  assumes "t = pre + total_size gs" and "req \<le> t" and "pre \<le> req"
  shows "pre + total_size (pack_rev req gs t) = req \<and> list_all2 resized gs (pack_rev req gs t)"
  using assms
proof (induction gs arbitrary: t)
  case (Cons g gs)
  show ?case
  proof (cases "t = req \<or> \<not> cg_size g \<le> t - req")
    case True
    then show ?thesis
    proof (cases "t = req")
      case False
      then have "cg_size g - (t - req) + total_size gs + pre = req" "t - req < cg_size g"
        using True Cons.prems by auto
      moreover have "pack_rev req gs req = gs" by (cases gs) auto
      ultimately show ?thesis using False Cons.prems all2_refl by (simp add: Let_def resized_set)
    qed (use Cons.prems all2_refl in auto)
  next
    case False
    then have "pre + total_size (pack_rev req gs (t - cg_size g)) = req
        \<and> list_all2 resized gs (pack_rev req gs (t - cg_size g))"
      using Cons.prems by (intro Cons.IH) auto
    then show ?thesis using False by (simp add: Let_def resized_set)
  qed
qed auto

lemma pack_total:
  assumes "req \<le> total_size gs"
  shows "total_size (pack req gs (total_size gs)) = req \<and> list_all2 resized gs (pack req gs (total_size gs))"
  using assms pack_rev_total [of "total_size gs" 0 "rev gs" req] all2_refl
  by (auto simp: pack_def list_all2_rev1)

lemma grow_ends:
  assumes "cored gs" and "0 < total_size gs"
  shows "\<exists>gs' t'. grow req gs (total_size gs) = Some (Returns (gs', t')) \<and> settles gs (gs', t')
      \<and> t' = max req (total_size gs)"
proof (cases "total_size gs < req")
  case True
  then obtain g1 t1 where s: "smt_loop req gs (total_size gs) = Some (Returns (g1, t1))" "settles gs (g1, t1)"
    "total_size gs \<le> t1" "t1 \<le> req"
    using smt_loop_ends [OF refl _ assms(1), of req] by auto
  then obtain g2 t2 where g: "grow_loop req g1 t1 = Some (Returns (g2, t2))" "settles g1 (g2, t2)" "t2 = req"
    using grow_loop_ends [of t1 g1 req] assms(2) by (auto simp: settles_def)
  have "settles gs (g2, t2)" using s(2) g(2) all2_trans by (auto simp: settles_def)
  then show ?thesis using True s g by (simp add: grow_def)
qed (use all2_refl in \<open>auto simp: grow_def settles_def\<close>)

lemma fan_ends:
  assumes "req \<le> total_size gs"
  shows "\<exists>gs'. fan req gs (total_size gs) = Some (Returns gs') \<and> list_all2 resized gs gs' \<and> total_size gs' = req"
proof (cases "req < total_size gs")
  case True
  obtain g1 t1 where l: "level_loop (find_smallest gs (2 ^ 64 - 1)) req gs (total_size gs) = Some (Returns (g1, t1))"
    "settles gs (g1, t1)" "req \<le> t1"
    using level_loop_ends [OF refl assms] by blast
  then obtain g2 t2 where f: "fan_loop req g1 t1 = Some (Returns (g2, t2))" "settles g1 (g2, t2)" "t2 = req"
    using fan_loop_ends [of t1 g1 req] by (auto simp: settles_def)
  have "settles gs (g2, t2)" using l(2) f(2) all2_trans by (auto simp: settles_def)
  then show ?thesis using True l(1) f by (auto simp: fan_def settles_def)
qed (use assms all2_refl in \<open>auto simp: fan_def\<close>)

lemma resize_groups_total:
  assumes "cored gs" and "0 < total_size gs"
  shows "\<exists>gs'. resize_groups Pack req gs = Some (Returns gs') \<and> list_all2 resized gs gs'
      \<and> total_size gs' = (if req = 0 then total_size gs else req)"
proof (cases "req = 0")
  case False
  obtain g1 t1 where g: "grow req gs (total_size gs) = Some (Returns (g1, t1))" "settles gs (g1, t1)"
    "t1 = max req (total_size gs)"
    using grow_ends [OF assms] by blast
  then have t1: "t1 = total_size g1" "req \<le> total_size g1" by (simp_all add: settles_def)
  have tr: "list_all2 resized gs h" if "list_all2 resized g1 h" for h
    using g(2) that all2_trans by (auto simp: settles_def)
  show ?thesis
  proof (cases Pack)
    case PACK
    then show ?thesis using g(1) False t1 tr pack_total [OF t1(2)] by (simp add: resize_groups_def)
  next
    case FAN
    then show ?thesis using g(1) False t1 tr fan_ends [OF t1(2)] by (auto simp: resize_groups_def)
  qed
qed (use all2_refl in \<open>auto simp: resize_groups_def\<close>)

subsection \<open>The loop that does not end\<close>

lemma size_pass_skip:
  "\<forall>g \<in> set gs. P g = Some False \<Longrightarrow> size_pass P d req gs t = Some (gs, t, False)"
  by (induction gs) auto

lemma grow_loop_empty:
  assumes "\<forall>g \<in> set gs. cg_size g = 0" and "t < req"
  shows "grow_loop req gs t = None"
proof -
  have never: "(\<forall>g \<in> set gs. cg_size g = 0) \<longrightarrow> \<not> t < req" if "grow_loop req gs t = Some r" for r
    using that
  proof (rule grow_loop.raw_induct
      [where P = "\<lambda>req gs t _. (\<forall>g \<in> set gs. cg_size g = 0) \<longrightarrow> \<not> t < req", rotated])
    fix rec req gs t r
    assume IH: "\<And>gs t ba y. rec gs t ba = Some y \<Longrightarrow> (\<forall>g \<in> set t. cg_size g = 0) \<longrightarrow> \<not> ba < gs"
      and body: "(if t < req then case size_pass nonempty Suc req gs t of None \<Rightarrow> Some Out_of_bounds
          | Some (gs', t', _) \<Rightarrow> rec req gs' t' else Some (Returns (gs, t))) = Some r"
    show "(\<forall>g \<in> set gs. cg_size g = 0) \<longrightarrow> \<not> t < req"
    proof (intro impI notI)
      assume zero: "\<forall>g \<in> set gs. cg_size g = 0" and "t < req"
      then have "size_pass nonempty Suc req gs t = Some (gs, t, False)"
        by (intro size_pass_skip) (simp add: nonempty_def)
      then have "rec req gs t = Some r" using body \<open>t < req\<close> by simp
      then show False using IH [of req gs t r] zero \<open>t < req\<close> by blast
    qed
  qed
  show ?thesis using never assms by (cases "grow_loop req gs t") auto
qed

lemma resize_groups_empty:
  assumes "total_size gs = 0" and "0 < req"
  shows "resize_groups Pack req gs = None"
proof -
  have zero: "\<forall>g \<in> set gs. cg_size g = 0" using assms(1) total_size_0 by blast
  then have "size_pass smt_room Suc req gs 0 = Some (gs, 0, False)"
    by (intro size_pass_skip) (simp add: smt_room_def)
  then have "smt_loop req gs 0 = Some (Returns (gs, 0))" by (subst smt_loop.simps) simp
  moreover have "grow_loop req gs 0 = None"
    by (rule grow_loop_empty [OF zero assms(2)])
  ultimately show ?thesis using assms by (simp add: resize_groups_def grow_def)
qed

subsection \<open>The whole function\<close>

lemma set_cores_sel [simp]:
  "cg_size (set_cores cs n g) = n" "cg_cores (set_cores cs n g) = cs"
  "cg_cpu_kind (set_cores cs n g) = cg_cpu_kind g" "cg_index (set_cores cs n g) = cg_index g"
  by (simp_all add: set_cores_def)

lemma filter_cores_size:
  assumes "filter_cores Filter cores sz numaOff coreOff = (cs, n, r)" and "length cores \<le> sz"
  shows "n = 0 \<or> n = sz + length cs - length cores \<and> set cs \<subseteq> set cores \<and> length cs \<le> length cores"
  using assms
proof (induction Filter cores sz numaOff coreOff arbitrary: cs n r rule: filter_cores.induct)
  case (2 Filter core cores sz numaOff coreOff)
  then show ?case
    by (fastforce simp: Let_def dec_size_def split: prod.splits if_splits)
qed auto

definition fresh_groups :: "CacheGroup list \<Rightarrow> bool" where
  "fresh_groups gs \<longleftrightarrow> (\<forall>g \<in> set gs. cg_size g = length (cg_cores g))"

lemma filter_groups_cored:
  "fresh_groups gs \<Longrightarrow> cored (filter_groups Filter gs llcOff numaOff coreOff)"
proof (induction gs arbitrary: llcOff numaOff coreOff)
  case (Cons g gs)
  then have IH: "cored (filter_groups Filter gs a b c)" for a b c by (simp add: fresh_groups_def)
  have g: "length (cg_cores g) \<le> cg_size g" "cg_size g = length (cg_cores g)"
    using Cons.prems by (auto simp: fresh_groups_def)
  obtain off inc where p: "process_next (group_indexes Filter) llcOff (size_of_int (cg_index g)) True = (off, inc)"
    by (rule prod.exhaust)
  obtain cs n a b where f: "filter_cores Filter (cg_cores g) (cg_size g) numaOff coreOff = (cs, n, a, b)"
    by (metis prod_cases4)
  have "n \<noteq> 0 \<longrightarrow> cs \<noteq> []" using filter_cores_size [OF f g(1)] g(2) by auto
  then show ?case using IH p f by (auto simp: cored_def)
qed (simp add: cored_def)

lemma filter_groups_kinds:
  "map cg_cpu_kind (filter_groups Filter gs llcOff numaOff coreOff) = map cg_cpu_kind gs"
  by (induction gs arbitrary: llcOff numaOff coreOff) (auto simp: Let_def split: prod.splits)

lemma occupy_groups_ok:
  assumes "\<forall>g \<in> set gs. cg_cpu_kind g < length occs" and "cored gs"
  shows "\<exists>gs'. occupy_groups is_one scaled occs gs = Some gs' \<and> cored gs'
      \<and> (total_size gs' = 0 \<longleftrightarrow> total_size gs = 0)"
  using assms
proof (induction gs)
  case (Cons g gs)
  then obtain gs' where gs': "occupy_groups is_one scaled occs gs = Some gs'" "cored gs'"
    "total_size gs' = 0 \<longleftrightarrow> total_size gs = 0"
    by (auto simp: cored_def)
  obtain g' where g': "occupy is_one scaled occs g = Some g'" "cg_cores g' = cg_cores g"
    "cg_size g' = 0 \<longleftrightarrow> cg_size g = 0"
    using Cons.prems(1) by (auto simp: occupy_def Let_def)
  have "cg_size g' \<noteq> 0 \<longrightarrow> cg_cores g' \<noteq> []"
    using g'(2,3) Cons.prems(2) by (cases "cg_size g = 0") (simp_all add: cored_def)
  then show ?case using gs' g' by (simp add: cored_def del: neq0_conv)
qed (simp add: cored_def)

lemma assign_starts_sizes: "map cg_size (assign_starts s gs) = map cg_size gs"
  by (induction gs arbitrary: s) (auto simp: set_start_def)

lemma total_size_map: "map cg_size xs = map cg_size ys \<Longrightarrow> total_size xs = total_size ys"
  by (induction xs ys rule: list_induct2') auto

lemma assign_starts_nth:
  "i < length gs \<Longrightarrow> cg_start (assign_starts s gs ! i) = s + total_size (take i gs)"
proof (induction gs arbitrary: s i)
  case (Cons g gs)
  then show ?case by (cases i) (auto simp: set_start_def)
qed simp

lemma length_assign_starts [simp]: "length (assign_starts s gs) = length gs"
  by (induction gs arbitrary: s) auto

text \<open>The count that the loops aim at.\<close>

definition target_count :: "bool \<Rightarrow> nat option \<Rightarrow> nat \<Rightarrow> nat \<Rightarrow> nat" where
  "target_count more_threads quota Requested available =
    (let r = (if Requested \<noteq> 0 then Requested else case quota of None \<Rightarrow> available | Some q \<Rightarrow> max 1 q)
     in if more_threads then r else min r 64)"

lemma target_count_cap:
  assumes "0 < available" and "req = cap_threads more_threads (apply_quota Requested quota) available"
  shows "(if req = 0 then available else req) = target_count more_threads quota Requested available"
  using assms
  by (auto simp: cap_threads_def apply_quota_def target_count_def Let_def split: option.splits)

section \<open>Properties\<close>


definition one_core :: "nat \<Rightarrow> TopologyCore" where
  "one_core i = \<lparr>core_pus = 2, core_index = i, core_numa = Some 0, core_cpu_kind = 0\<rparr>"

definition two_groups :: "CacheGroup list" where
  "two_groups = [CacheGroup 0 0 [] [one_core 0, one_core 1] 2 0, CacheGroup 1 0 [] [one_core 2] 1 0]"

definition no_filter :: topology_filter where
  "no_filter = \<lparr>core_indexes = [], group_indexes = [], numa_indexes = [], cpu_kinds = 3\<rparr>"


text \<open>
  C33: When the filter leaves no core and a number of threads is requested, or a quota applies, the function never returns,
  whatever the occupancies (one for each kind of the groups, or none) and the strategy.  It reads nothing out of bounds on
  the way: the loop that distributes the threads goes on for ever, since it finds no group to add one to.
\<close>

theorem adjust_thread_groups_hangs:
  assumes none: "total_size (filter_groups Filter groups 0 0 0) = 0"
    and occs: "occs = [] \<or> (\<forall>g \<in> set groups. cg_cpu_kind g < length occs)"
    and "Requested \<noteq> 0 \<or> quota \<noteq> None"
  shows "adjust_thread_groups more_threads is_one scaled quota Requested occs groups Filter Pack = None"
proof -
  let ?gs = "filter_groups Filter groups 0 0 0"
  have "cored ?gs" using none by (auto simp: cored_def total_size_0)
  moreover have "set (map cg_cpu_kind ?gs) = set (map cg_cpu_kind groups)" by (simp only: filter_groups_kinds)
  then have "occs = [] \<or> (\<forall>g \<in> set ?gs. cg_cpu_kind g < length occs)"
    using occs by (simp add: image_iff) (metis imageE imageI)
  ultimately obtain mid where mid: "(if occs = [] then Some ?gs else occupy_groups is_one scaled occs ?gs) = Some mid"
    "total_size mid = 0"
    using none occupy_groups_ok [of ?gs occs is_one scaled] by (cases "occs = []") auto
  have "0 < cap_threads more_threads (apply_quota Requested quota) (total_size mid)"
    using assms(3) by (auto simp: cap_threads_def apply_quota_def)
  then show ?thesis
    using mid resize_groups_empty [OF mid(2)] by (simp add: adjust_thread_groups_def)
qed

theorem adjust_thread_groups_hangs_witness:
  "adjust_thread_groups False (\<lambda>x. x = 1) (\<lambda>f n. f * n) None 4 [2 :: nat] two_groups
     (no_filter\<lparr>cpu_kinds := 4\<rparr>) PACK = None"
  by (rule adjust_thread_groups_hangs) (simp_all add: two_groups_def no_filter_def set_size_def)


section \<open>The filter against its specification\<close>

text \<open>The indexes that a processor has passed are below all the queries still to come.\<close>

definition behind :: "nat list \<Rightarrow> nat \<Rightarrow> nat list \<Rightarrow> bool" where
  "behind ixs off xs \<longleftrightarrow> (\<forall>k < off. k < length ixs \<longrightarrow> (\<forall>x \<in> set xs. ixs ! k < x))"

definition allowed :: "nat list \<Rightarrow> nat \<Rightarrow> bool" where
  "allowed ixs i \<longleftrightarrow> ixs = [] \<or> i \<in> set ixs"

lemma behind_0 [simp]: "behind ixs 0 xs"
  by (simp add: behind_def)

lemma behind_subset: "behind ixs off xs \<Longrightarrow> set ys \<subseteq> set xs \<Longrightarrow> behind ixs off ys"
  by (auto simp: behind_def)

lemma process_loop_spec:
  assumes "sorted ixs" and "\<forall>k < off. k < length ixs \<longrightarrow> ixs ! k < x"
  shows "snd (process_loop ixs off x True) \<longleftrightarrow> x \<in> set ixs"
    and "\<forall>k < fst (process_loop ixs off x True). k < length ixs \<longrightarrow> ixs ! k < x"
proof -
  have "(snd (process_loop ixs off x True) \<longleftrightarrow> x \<in> set ixs)
      \<and> (\<forall>k < fst (process_loop ixs off x True). k < length ixs \<longrightarrow> ixs ! k < x)"
    using assms
  proof (induction ixs off x True rule: process_loop.induct)
    case (1 ixs off x)
    consider (out) "length ixs \<le> off" | (past) "off < length ixs" "x < ixs ! off"
      | (on) "off < length ixs" "ixs ! off < x" | (eq) "off < length ixs" "ixs ! off = x" by linarith
    then show ?case
    proof cases
      case out
      then have "\<forall>k < length ixs. ixs ! k < x" using 1(3) by simp
      then have "x \<notin> set ixs" by (metis in_set_conv_nth less_irrefl)
      moreover have "process_loop ixs off x True = (off, False)" using out by (subst process_loop.simps) simp
      ultimately show ?thesis using 1(3) by simp
    next
      case past
      have "x \<noteq> ixs ! k" if "k < length ixs" for k
      proof (cases "k < off")
        case False
        then have "ixs ! off \<le> ixs ! k" using 1(2) that by (simp add: sorted_nth_mono)
        then show ?thesis using past by simp
      qed (use 1(3) that in auto)
      then have "x \<notin> set ixs" by (auto simp: in_set_conv_nth)
      moreover have "process_loop ixs off x True = (off, False)" using past by (subst process_loop.simps) simp
      ultimately show ?thesis using 1(3) by simp
    next
      case on
      then have all: "\<forall>k < off + 1. k < length ixs \<longrightarrow> ixs ! k < x" using 1(3) by (auto simp: less_Suc_eq)
      have eqn: "process_loop ixs off x True = process_loop ixs (off + 1) x True"
        using on by (subst process_loop.simps) simp
      have "\<not> (length ixs \<le> off \<or> x < ixs ! off)" using on by auto
      then show ?thesis unfolding eqn using 1(1) [OF _ on(2) 1(2) all] by blast
    next
      case eq
      then have "process_loop ixs off x True = (off, True)" by (subst process_loop.simps) simp
      moreover have "x \<in> set ixs" using eq by (metis nth_mem)
      ultimately show ?thesis using 1(3) by simp
    qed
  qed
  then show "snd (process_loop ixs off x True) \<longleftrightarrow> x \<in> set ixs"
    and "\<forall>k < fst (process_loop ixs off x True). k < length ixs \<longrightarrow> ixs ! k < x" by simp_all
qed

lemma process_next_spec:
  assumes "sorted ixs" and "behind ixs off (x # xs)" and "sorted (x # xs)"
  obtains off' where "process_next ixs off x True = (off', allowed ixs x)" and "behind ixs off' xs"
proof (cases "ixs = []")
  case False
  obtain off' inc where p: "process_loop ixs off x True = (off', inc)" by fastforce
  have "\<forall>k < off. k < length ixs \<longrightarrow> ixs ! k < x" using assms(2) by (simp add: behind_def)
  note spec = process_loop_spec [OF assms(1) this]
  have "behind ixs off' xs"
    using spec(2) p assms(3) by (fastforce simp: behind_def)
  then show ?thesis using that spec(1) p False by (simp add: process_next_def allowed_def)
qed (use that in \<open>simp add: process_next_def allowed_def behind_def\<close>)

definition numa_list :: "TopologyCore list \<Rightarrow> nat list" where
  "numa_list cores = concat (map (\<lambda>c. case core_numa c of None \<Rightarrow> [] | Some n \<Rightarrow> [n]) cores)"

lemma numa_list_Cons [simp]:
  "numa_list [] = []" "numa_list (c # cs) = (case core_numa c of None \<Rightarrow> [] | Some n \<Rightarrow> [n]) @ numa_list cs"
  by (simp_all add: numa_list_def)

lemma numa_list_append [simp]: "numa_list (xs @ ys) = numa_list xs @ numa_list ys"
  by (simp add: numa_list_def)

lemma filter_cores_spec:
  assumes "sorted (core_indexes F)" and "sorted (numa_indexes F)" and "length cores \<le> sz"
    and "sorted (map core_index (cores @ later))" and "sorted (numa_list (cores @ later))"
    and "behind (core_indexes F) coreOff (map core_index (cores @ later))"
    and "behind (numa_indexes F) numaOff (numa_list (cores @ later))"
  shows "\<exists>cs n no co. filter_cores F cores sz numaOff coreOff = (cs, n, no, co)
      \<and> n = (if \<forall>x \<in> set (numa_list cores). allowed (numa_indexes F) x
             then sz - length cores + length (filter (\<lambda>c. allowed (core_indexes F) (core_index c)) cores) else 0)
      \<and> behind (core_indexes F) co (map core_index later) \<and> behind (numa_indexes F) no (numa_list later)"
  using assms(3-)
proof (induction cores arbitrary: sz numaOff coreOff)
  case (Cons c cores)
  have subset: "set (map core_index later) \<subseteq> set (map core_index ((c # cores) @ later))"
    "set (numa_list later) \<subseteq> set (numa_list ((c # cores) @ later))" by auto
  obtain co where co: "process_next (core_indexes F) coreOff (core_index c) True
      = (co, allowed (core_indexes F) (core_index c))" "behind (core_indexes F) co (map core_index (cores @ later))"
    using process_next_spec [OF assms(1), of coreOff "core_index c" "map core_index (cores @ later)"] Cons.prems
    by auto
  have step: "\<exists>no. (case core_numa c of None \<Rightarrow> (numaOff, True)
        | Some n \<Rightarrow> process_next (numa_indexes F) numaOff n True)
      = (no, \<forall>x \<in> set (numa_list [c]). allowed (numa_indexes F) x)
      \<and> behind (numa_indexes F) no (numa_list (cores @ later))"
  proof (cases "core_numa c")
    case (Some n)
    then show ?thesis
      using process_next_spec [OF assms(2), of numaOff n "numa_list (cores @ later)"] Cons.prems(3,5) by auto
  qed (use Cons.prems(5) in auto)
  then obtain no where no: "(case core_numa c of None \<Rightarrow> (numaOff, True)
        | Some n \<Rightarrow> process_next (numa_indexes F) numaOff n True)
      = (no, \<forall>x \<in> set (numa_list [c]). allowed (numa_indexes F) x)"
    "behind (numa_indexes F) no (numa_list (cores @ later))" by blast
  have tail: "sorted (map core_index (cores @ later))" "sorted (numa_list (cores @ later))"
    using Cons.prems(2,3) by (auto split: option.splits)
  show ?case
  proof (cases "\<forall>x \<in> set (numa_list [c]). allowed (numa_indexes F) x")
    case False
    then have "filter_cores F (c # cores) sz numaOff coreOff = (c # cores, 0, no, coreOff)"
      using no by simp
    moreover have "\<not> (\<forall>x \<in> set (numa_list (c # cores)). allowed (numa_indexes F) x)" using False by auto
    ultimately show ?thesis
      using behind_subset [OF Cons.prems(4) subset(1)] behind_subset [OF no(2)] by (auto simp del: numa_list_Cons)
  next
    case True
    let ?sz = "if allowed (core_indexes F) (core_index c) then sz else dec_size sz"
    have "length cores \<le> ?sz" using Cons.prems(1) by (auto simp: dec_size_def)
    then obtain cs n no' co' where r: "filter_cores F cores ?sz no co = (cs, n, no', co')"
      "n = (if \<forall>x \<in> set (numa_list cores). allowed (numa_indexes F) x
             then ?sz - length cores + length (filter (\<lambda>c. allowed (core_indexes F) (core_index c)) cores) else 0)"
      "behind (core_indexes F) co' (map core_index later)" "behind (numa_indexes F) no' (numa_list later)"
      using Cons.IH [OF _ tail co(2) no(2)] by blast
    have "(\<forall>x \<in> set (numa_list (c # cores)). allowed (numa_indexes F) x)
        \<longleftrightarrow> (\<forall>x \<in> set (numa_list cores). allowed (numa_indexes F) x)" using True by auto
    then show ?thesis
      using r no(1) co(1) True Cons.prems(1) by (auto simp: dec_size_def simp del: numa_list_Cons)
  qed
qed auto

definition allowed_size :: "topology_filter \<Rightarrow> CacheGroup \<Rightarrow> nat" where
  "allowed_size F g =
    (if bit (cpu_kinds F) (cg_cpu_kind g) \<and> allowed (group_indexes F) (nat (cg_index g))
        \<and> (\<forall>n \<in> set (numa_list (cg_cores g)). allowed (numa_indexes F) n)
     then length (filter (\<lambda>c. allowed (core_indexes F) (core_index c)) (cg_cores g)) else 0)"

definition sorted_filter :: "topology_filter \<Rightarrow> bool" where
  "sorted_filter F \<longleftrightarrow> sorted (core_indexes F) \<and> sorted (group_indexes F) \<and> sorted (numa_indexes F)"

definition sorted_topology :: "CacheGroup list \<Rightarrow> bool" where
  "sorted_topology gs \<longleftrightarrow> sorted (map core_index (concat (map cg_cores gs)))
     \<and> sorted (numa_list (concat (map cg_cores gs))) \<and> sorted (map cg_index gs)
     \<and> (\<forall>g \<in> set gs. 0 \<le> cg_index g \<and> cg_index g < 2 ^ 31)"

lemma kind_bit: "(F :: size_t) AND push_bit k 1 = 0 \<longleftrightarrow> \<not> bit F k"
  by (metis and_exp_eq_0_iff_not_bit push_bit_of_1)


lemma filter_groups_sizes:
  assumes F: "sorted_filter F" and "fresh_groups gs" and "sorted_topology gs"
    and "behind (group_indexes F) llc (map (nat \<circ> cg_index) gs)"
    and "behind (core_indexes F) co (map core_index (concat (map cg_cores gs)))"
    and "behind (numa_indexes F) no (numa_list (concat (map cg_cores gs)))"
  shows "map cg_size (filter_groups F gs llc no co) = map (allowed_size F) gs"
  using assms(2-)
proof (induction gs arbitrary: llc no co)
  case (Cons g gs)
  let ?later = "concat (map cg_cores gs)"
  have F': "sorted (core_indexes F)" "sorted (group_indexes F)" "sorted (numa_indexes F)"
    using F by (simp_all add: sorted_filter_def)
  have fresh: "fresh_groups gs" "cg_size g = length (cg_cores g)"
    using Cons.prems(1) by (simp_all add: fresh_groups_def)
  have topo: "sorted_topology gs" "sorted (map core_index (cg_cores g @ ?later))"
    "sorted (numa_list (cg_cores g @ ?later))" "0 \<le> cg_index g" "cg_index g < 2 ^ 31"
    using Cons.prems(2) by (auto simp: sorted_topology_def sorted_append)
  have idx: "sorted (nat (cg_index g) # map (nat \<circ> cg_index) gs)"
  proof -
    have "sorted (map cg_index (g # gs))" using Cons.prems(2) by (simp add: sorted_topology_def)
    then have "sorted (map nat (map cg_index (g # gs)))"
      by (rule sorted_map_mono) (auto simp: mono_on_def)
    then show ?thesis by (simp add: comp_def)
  qed
  have int: "size_of_int (cg_index g) = nat (cg_index g)"
    using topo(4,5) by (simp add: size_of_int_def)
  have rest: "behind (group_indexes F) llc (map (nat \<circ> cg_index) gs)"
    "behind (core_indexes F) co (map core_index ?later)" "behind (numa_indexes F) no (numa_list ?later)"
    using Cons.prems(3-5) by (auto elim: behind_subset)
  show ?case
  proof (cases "bit (cpu_kinds F) (cg_cpu_kind g)")
    case False
    then show ?thesis
      using Cons.IH [OF fresh(1) topo(1) rest] by (simp add: allowed_size_def kind_bit [simplified])
  next
    case True
    have "behind (group_indexes F) llc (nat (cg_index g) # map (nat \<circ> cg_index) gs)"
      using Cons.prems(3) by (simp add: comp_def)
    then obtain llc' where p: "process_next (group_indexes F) llc (nat (cg_index g)) True
        = (llc', allowed (group_indexes F) (nat (cg_index g)))"
      "behind (group_indexes F) llc' (map (nat \<circ> cg_index) gs)"
      using process_next_spec [OF F'(2) _ idx] by blast
    show ?thesis
    proof (cases "allowed (group_indexes F) (nat (cg_index g))")
      case False
      then show ?thesis
        using Cons.IH [OF fresh(1) topo(1) p(2) rest(2,3)] p(1) True
        by (simp add: allowed_size_def kind_bit [simplified] int)
    next
      case al: True
      obtain cs n no' co' where f: "filter_cores F (cg_cores g) (cg_size g) no co = (cs, n, no', co')"
        "n = (if \<forall>x \<in> set (numa_list (cg_cores g)). allowed (numa_indexes F) x
             then cg_size g - length (cg_cores g)
               + length (filter (\<lambda>c. allowed (core_indexes F) (core_index c)) (cg_cores g)) else 0)"
        "behind (core_indexes F) co' (map core_index ?later)" "behind (numa_indexes F) no' (numa_list ?later)"
        using filter_cores_spec [OF F'(1,3) _ topo(2,3), of "cg_size g" co no] Cons.prems(4,5) fresh(2) by auto
      show ?thesis
        using Cons.IH [OF fresh(1) topo(1) p(2) f(3,4)] p(1) f(1,2) True al fresh(2)
        by (simp add: allowed_size_def kind_bit [simplified] int)
    qed
  qed
qed simp

section \<open>Packing and fanning\<close>

lemma pack_rev_shape:
  assumes "total_size gs \<le> t" and "req \<le> t"
  shows "\<exists>k. \<forall>i < length gs. (i < k \<longrightarrow> cg_size (pack_rev req gs t ! i) = 0) \<and> (k < i \<longrightarrow> pack_rev req gs t ! i = gs ! i)"
  using assms
proof (induction gs arbitrary: t)
  case (Cons g gs)
  have same: "pack_rev req gs req = gs" by (cases gs) auto
  show ?case
  proof (cases "t = req \<or> \<not> cg_size g \<le> t - req")
    case True
    then show ?thesis using same by (intro exI [of _ 0]) (auto simp: Let_def nth_Cons split: nat.splits)
  next
    case False
    then have "total_size gs \<le> t - cg_size g" "req \<le> t - cg_size g" using Cons.prems by auto
    then obtain k where "\<forall>i < length gs. (i < k \<longrightarrow> cg_size (pack_rev req gs (t - cg_size g) ! i) = 0)
        \<and> (k < i \<longrightarrow> pack_rev req gs (t - cg_size g) ! i = gs ! i)"
      using Cons.IH [of "t - cg_size g"] by blast
    then show ?thesis
      using False by (intro exI [of _ "Suc k"]) (auto simp: Let_def nth_Cons split: nat.splits)
  qed
qed simp

lemma length_pack_rev [simp]: "length (pack_rev req gs t) = length gs"
  by (induction gs arbitrary: t) (auto simp: Let_def)

definition occupied :: "CacheGroup list \<Rightarrow> nat" where
  "occupied gs = length (filter (\<lambda>g. cg_size g \<noteq> 0) gs)"

definition uniform :: "nat \<Rightarrow> CacheGroup list \<Rightarrow> bool" where
  "uniform s gs \<longleftrightarrow> (\<forall>g \<in> set gs. cg_size g = 0 \<or> cg_size g = s)"

lemma uniform_total: "uniform s gs \<Longrightarrow> total_size gs = s * occupied gs"
  by (induction gs) (auto simp: uniform_def occupied_def)

lemma size_pass_pm:
  "size_pass P minus1 req gs t = Some (gs', t', b) \<Longrightarrow> list_all2 (\<lambda>g g'. cg_size g - 1 \<le> cg_size g') gs gs'"
proof (induction gs arbitrary: t gs' t' b)
  case (Cons g gs)
  from Cons.prems(1) show ?case
    by (cases rule: size_pass_ConsE) (use Cons.IH in \<open>auto simp: minus1_def list_all2_same\<close>)
qed auto

definition survive :: "CacheGroup \<Rightarrow> CacheGroup \<Rightarrow> bool" where
  "survive g g' \<longleftrightarrow> (cg_size g \<noteq> 0 \<longrightarrow> cg_size g' \<noteq> 0)"

lemma survive_trans: "list_all2 survive a b \<Longrightarrow> list_all2 survive b c \<Longrightarrow> list_all2 survive a c"
  by (rule list_all2_trans) (auto simp: survive_def)

lemma survive_refl: "list_all2 survive a a"
  by (simp add: list_all2_same survive_def)

lemma fan_loop_survive:
  assumes "uniform s gs" and "t = total_size gs" and "req \<le> t" and "occupied gs \<le> req"
    and "fan_loop req gs t = Some (Returns (gs', t'))"
  shows "list_all2 survive gs gs'"
  using assms
proof (induction s arbitrary: gs t)
  case 0
  then have "t = 0" using uniform_total by auto
  then show ?case using 0 survive_refl by (simp add: fan_loop.simps)
next
  case (Suc s)
  have t: "t = Suc s * occupied gs" using uniform_total Suc.prems(1,2) by simp
  show ?case
  proof (cases "req < t")
    case True
    have s: "0 < s"
    proof (rule ccontr)
      assume "\<not> 0 < s"
      then have "t = occupied gs" using t by simp
      then show False using Suc.prems(4) True by simp
    qed
    obtain gs1 t1 b where pass: "size_pass nonempty minus1 req (rev gs) t = Some (gs1, t1, b)"
      and rec: "fan_loop req (rev gs1) t1 = Some (Returns (gs', t'))"
      using Suc.prems(5) True by (subst (asm) fan_loop.simps) (auto split: option.splits)
    note dec = size_pass_dec [OF pass _ Suc.prems(3)]
    have t1: "t1 = total_size (rev gs1)" "req \<le> t1" using dec Suc.prems(2) by simp_all
    have pm: "list_all2 (\<lambda>g g'. cg_size g - 1 \<le> cg_size g') gs (rev gs1)"
      using size_pass_pm [OF pass] by (simp add: list_all2_rev1)
    have step: "list_all2 survive gs (rev gs1)"
      unfolding list_all2_conv_all_nth
    proof (intro conjI allI impI)
      show "length gs = length (rev gs1)" using pm by (rule list_all2_lengthD)
      fix i assume i: "i < length gs"
      then have "cg_size (gs ! i) = 0 \<or> cg_size (gs ! i) = Suc s"
        using Suc.prems(1) by (simp add: uniform_def)
      then show "survive (gs ! i) (rev gs1 ! i)"
        using list_all2_nthD [OF pm i] s by (auto simp: survive_def)
    qed
    show ?thesis
    proof (cases "t1 = req")
      case True
      then have "gs' = rev gs1" using rec by (simp add: fan_loop.simps)
      then show ?thesis using step by simp
    next
      case False
      then have g1: "gs1 = map (\<lambda>g. if nonempty g = Some True then set_size (minus1 (cg_size g)) g else g) (rev gs)"
        using size_pass_all [OF pass] by simp
      have uni: "uniform s (rev gs1)"
        using Suc.prems(1) by (auto simp: g1 uniform_def nonempty_def minus1_def)
      have "occupied (rev gs1) = occupied gs"
        using Suc.prems(1) s
        by (simp add: g1 occupied_def rev_filter [symmetric] filter_map comp_def nonempty_def)
          (rule arg_cong [where f = length], rule filter_cong, auto simp: uniform_def minus1_def)
      then have "list_all2 survive (rev gs1) gs'"
        using Suc.IH [OF uni t1] Suc.prems(4) rec by simp
      then show ?thesis using survive_trans [OF step] by blast
    qed
  next
    case False
    then show ?thesis using Suc.prems(5) survive_refl by (simp add: fan_loop.simps)
  qed
qed

lemma find_smallest_le:
  "find_smallest gs m \<le> m \<and> (\<forall>g \<in> set gs. cg_size g \<noteq> 0 \<longrightarrow> find_smallest gs m \<le> cg_size g)
    \<and> (0 < m \<longrightarrow> 0 < find_smallest gs m)"
proof (induction gs arbitrary: m)
  case (Cons g gs)
  show ?case
    using Cons [of "if cg_size g \<noteq> 0 \<and> cg_size g < m then cg_size g else m"] by (auto split: if_splits)
qed simp


text \<open>
  for a sorted filter and a topology whose indexes ascend, the single pass over the groups keeps
  exactly the cores that the filter allows: a group's size is the number of its cores with an allowed
  index, and zero when its kind, its index or the NUMA node of one of its cores is not allowed.
\<close>

lemma filter_groups_spec:
  assumes "sorted_filter F" and "fresh_groups gs" and "sorted_topology gs"
  shows "map cg_size (filter_groups F gs 0 0 0) = map (allowed_size F) gs"
  using filter_groups_sizes [OF assms] by simp

definition odd_cores :: topology_filter where
  "odd_cores = \<lparr>core_indexes = [1, 3], group_indexes = [], numa_indexes = [0], cpu_kinds = 1\<rparr>"

theorem filter_groups_spec_witness:
  "map cg_size (filter_groups odd_cores two_groups 0 0 0) = [1, 0]"
proof -
  have "sorted_filter odd_cores" "fresh_groups two_groups" "sorted_topology two_groups"
    by (simp_all add: sorted_filter_def odd_cores_def fresh_groups_def two_groups_def sorted_topology_def
        one_core_def numa_list_def)
  from filter_groups_spec [OF this] show ?thesis
    by (simp add: allowed_size_def odd_cores_def two_groups_def one_core_def numa_list_def allowed_def)
qed

lemma packing_shapes:
  assumes "0 < req" and "req \<le> total_size gs"
  shows "\<exists>out k. resize_groups PACK req gs = Some (Returns out) \<and> total_size out = req
      \<and> (\<forall>i < length gs. (i < k \<longrightarrow> out ! i = gs ! i) \<and> (k < i \<longrightarrow> cg_size (out ! i) = 0))"
    and "occupied gs \<le> req \<Longrightarrow> \<exists>out. resize_groups FAN req gs = Some (Returns out) \<and> total_size out = req
      \<and> (\<forall>i < length gs. cg_size (gs ! i) \<noteq> 0 \<longrightarrow> cg_size (out ! i) \<noteq> 0)"
proof -
  let ?t = "total_size gs"
  have grow: "grow req gs ?t = Some (Returns (gs, ?t))" using assms(2) by (simp add: grow_def)
  let ?out = "pack req gs ?t"
  have "\<exists>k. \<forall>i < length gs. (i < k \<longrightarrow> ?out ! i = gs ! i) \<and> (k < i \<longrightarrow> cg_size (?out ! i) = 0)"
  proof (cases "req < ?t")
    case True
    obtain k where k: "\<forall>i < length gs. (i < k \<longrightarrow> cg_size (pack_rev req (rev gs) ?t ! i) = 0)
        \<and> (k < i \<longrightarrow> pack_rev req (rev gs) ?t ! i = rev gs ! i)"
      using pack_rev_shape [of "rev gs" ?t req] assms(2) by auto
    have at: "?out ! i = pack_rev req (rev gs) ?t ! (length gs - Suc i)" if "i < length gs" for i
      using True that by (simp add: pack_def rev_nth)
    show ?thesis
    proof (intro exI allI impI)
      fix i assume i: "i < length gs"
      let ?j = "length gs - Suc i"
      have "?j < length gs" "rev gs ! ?j = gs ! i" using i by (simp_all add: rev_nth)
      moreover have "i < length gs - Suc k \<Longrightarrow> k < ?j" "length gs - Suc k < i \<Longrightarrow> ?j < k" using i by auto
      ultimately show "(i < length gs - Suc k \<longrightarrow> ?out ! i = gs ! i)
          \<and> (length gs - Suc k < i \<longrightarrow> cg_size (?out ! i) = 0)"
        using k at [OF i] by auto
    qed
  next
    case False
    then show ?thesis by (intro exI [of _ "length gs"]) (simp add: pack_def)
  qed
  then show "\<exists>out k. resize_groups PACK req gs = Some (Returns out) \<and> total_size out = req
      \<and> (\<forall>i < length gs. (i < k \<longrightarrow> out ! i = gs ! i) \<and> (k < i \<longrightarrow> cg_size (out ! i) = 0))"
    using assms grow pack_total [OF assms(2)] by (auto simp: resize_groups_def)
  show "\<exists>out. resize_groups FAN req gs = Some (Returns out) \<and> total_size out = req
      \<and> (\<forall>i < length gs. cg_size (gs ! i) \<noteq> 0 \<longrightarrow> cg_size (out ! i) \<noteq> 0)" if occ: "occupied gs \<le> req"
  proof (cases "req < ?t")
    case True
    let ?s = "find_smallest gs (2 ^ 64 - 1)"
    have s: "0 < ?s" "\<forall>g \<in> set gs. cg_size g \<noteq> 0 \<longrightarrow> ?s \<le> cg_size g"
      using find_smallest_le [of gs "2 ^ 64 - 1"] by auto
    obtain g1 t1 where l: "level_loop ?s req gs ?t = Some (Returns (g1, t1))" "settles gs (g1, t1)" "req \<le> t1"
      "t1 = req \<or> (\<forall>g \<in> set g1. cg_size g \<le> ?s)"
      "list_all2 (\<lambda>g g'. ?s \<le> cg_size g \<longrightarrow> ?s \<le> cg_size g') gs g1"
      using level_loop_ends [OF refl assms(2), of ?s] s(1) by blast
    obtain out where f: "fan_loop req g1 t1 = Some (Returns (out, req))" "settles g1 (out, req)"
      using fan_loop_ends [of t1 g1 req] l(2,3) by (auto simp: settles_def)
    have len: "length gs = length g1" using l(5) by (rule list_all2_lengthD)
    have keep: "?s \<le> cg_size (g1 ! i)" if "i < length gs" "cg_size (gs ! i) \<noteq> 0" for i
      using list_all2_nthD [OF l(5) that(1)] s(2) that by simp
    have zero: "cg_size (g1 ! i) = 0" if "i < length gs" "cg_size (gs ! i) = 0" for i
      using l(2) that by (auto simp: settles_def resized_def dest: list_all2_nthD)
    have sv: "list_all2 survive g1 out"
    proof (cases "t1 = req")
      case True
      then show ?thesis using f(1) survive_refl by (simp add: fan_loop.simps)
    next
      case False
      have "uniform ?s g1"
        unfolding uniform_def
      proof
        fix g assume g: "g \<in> set g1"
        then obtain i where i: "i < length gs" "g = g1 ! i" using len by (auto simp: in_set_conv_nth)
        have "cg_size g \<le> ?s" using False l(4) g by blast
        then show "cg_size g = 0 \<or> cg_size g = ?s"
          using keep [OF i(1)] zero [OF i(1)] i(2) by (cases "cg_size (gs ! i) = 0") auto
      qed
      moreover have "occupied g1 \<le> occupied gs"
        unfolding occupied_def length_filter_conv_card
      proof (rule card_mono)
        show "{i. i < length g1 \<and> cg_size (g1 ! i) \<noteq> 0} \<subseteq> {i. i < length gs \<and> cg_size (gs ! i) \<noteq> 0}"
        proof
          fix i assume "i \<in> {i. i < length g1 \<and> cg_size (g1 ! i) \<noteq> 0}"
          then have i: "i < length gs" "cg_size (g1 ! i) \<noteq> 0" using len by simp_all
          have "cg_size (gs ! i) \<noteq> 0"
          proof
            assume "cg_size (gs ! i) = 0"
            from zero [OF i(1) this] show False using i(2) by (rule notE [rotated])
          qed
          then show "i \<in> {i. i < length gs \<and> cg_size (gs ! i) \<noteq> 0}" using i(1) by blast
        qed
      qed simp
      ultimately show ?thesis
        using fan_loop_survive [of ?s g1 t1 req out req] l(2,3) occ f(1) by (simp add: settles_def)
    qed
    have "cg_size (out ! i) \<noteq> 0" if "i < length gs" "cg_size (gs ! i) \<noteq> 0" for i
      using list_all2_nthD [OF sv, of i] keep [OF that] s(1) that(1) len by (auto simp: survive_def)
    moreover have "resize_groups FAN req gs = Some (Returns out)"
      using assms(1) grow True l(1) f(1) by (simp add: resize_groups_def fan_def)
    moreover have "total_size out = req" using f(2) by (simp add: settles_def)
    ultimately show ?thesis by blast
  qed (use assms grow in \<open>auto simp: resize_groups_def fan_def\<close>)
qed

text \<open>
  when fewer threads are requested than the groups hold, \<open>PACK\<close> fills the first groups as they
  are, at most one partly, and leaves the others empty; \<open>FAN\<close> leaves no group without a thread as long
  as there are as many threads as groups in use.
\<close>

lemma packing_strategies:
  assumes "0 < req" and "req \<le> total_size gs"
  shows "(\<exists>out k. resize_groups PACK req gs = Some (Returns out) \<and> total_size out = req
      \<and> (\<forall>i < length gs. (i < k \<longrightarrow> out ! i = gs ! i) \<and> (k < i \<longrightarrow> cg_size (out ! i) = 0)))
    \<and> (occupied gs \<le> req \<longrightarrow> (\<exists>out. resize_groups FAN req gs = Some (Returns out) \<and> total_size out = req
      \<and> (\<forall>i < length gs. cg_size (gs ! i) \<noteq> 0 \<longrightarrow> cg_size (out ! i) \<noteq> 0)))"
  using packing_shapes [OF assms] by blast

theorem packing_strategies_witness:
  "\<exists>out. resize_groups FAN 2 two_groups = Some (Returns out) \<and> cg_size (out ! 1) \<noteq> 0"
  using packing_strategies [of 2 two_groups]
  by (auto simp: two_groups_def occupied_def All_less_Suc)

end
