(* ===== verification/CpuQuota.thy ===== *)
theory CpuQuota
  imports Prelude "HOL-Library.Char_ord"
begin

text \<open>
  Detection of the CPU quota of a container (\<open>src/include/tmc/detail/container_cpu_quota.ipp\<close>).  The
  file system is a parameter \<open>fs\<close>: the contents of the file at a path, \<open>None\<close> when it cannot be opened.
  The quota is kept as the quotient of two integers where the code divides two doubles.  A result
  \<open>None\<close> is a read past the end of a vector.
\<close>

section \<open>Strings of the standard library\<close>

text \<open>\<open>std::getline\<close> with a delimiter, until the stream is exhausted.\<close>

function split_string :: "string \<Rightarrow> char \<Rightarrow> string list" where
  "split_string s delim =
    (if s = [] then []
     else case dropWhile (\<lambda>c. c \<noteq> delim) s of
       [] \<Rightarrow> [s]
     | _ # rest \<Rightarrow> takeWhile (\<lambda>c. c \<noteq> delim) s # split_string rest delim)"
  by pat_completeness auto
termination
proof (relation "measure (\<lambda>(s, _). length s)")
  fix s :: string and delim x xs
  assume "dropWhile (\<lambda>c. c \<noteq> delim) s = x # xs"
  then have "Suc (length xs) \<le> length s"
    by (metis length_Cons length_dropWhile_le)
  then show "((xs, delim), (s, delim)) \<in> measure (\<lambda>(s, _). length s)" by simp
qed simp

declare split_string.simps [simp del]

definition NEWLINE :: char where
  "NEWLINE = CHR 0x0A"

definition file_lines :: "string \<Rightarrow> string list" where
  "file_lines contents = split_string contents NEWLINE"

text \<open>\<open>std::string::find\<close>.\<close>

fun find_str :: "string \<Rightarrow> string \<Rightarrow> nat option" where
  "find_str [] pat = (if pat = [] then Some 0 else None)"
| "find_str (c # cs) pat =
    (if take (length pat) (c # cs) = pat then Some 0 else map_option Suc (find_str cs pat))"

definition is_space :: "char \<Rightarrow> bool" where
  "is_space c \<longleftrightarrow> c = CHR '' '' \<or> (CHR 0x09 \<le> c \<and> c \<le> CHR 0x0D)"

definition is_digit :: "char \<Rightarrow> bool" where
  "is_digit c \<longleftrightarrow> CHR ''0'' \<le> c \<and> c \<le> CHR ''9''"

definition digit_value :: "char \<Rightarrow> nat" where
  "digit_value c = of_char c - 48"

fun read_digits :: "string \<Rightarrow> nat \<Rightarrow> nat \<times> string" where
  "read_digits [] acc = (acc, [])"
| "read_digits (c # cs) acc =
    (if is_digit c then read_digits cs (acc * 10 + digit_value c) else (acc, c # cs))"

definition int64_range :: "int \<Rightarrow> bool" where
  "int64_range v \<longleftrightarrow> - (2 ^ 63) \<le> v \<and> v < 2 ^ 63"

text \<open>\<open>std::from_chars\<close> for \<open>int64_t\<close>: a minus sign but no plus sign and no white space; the rest of
  the input is returned, \<open>None\<close> for an error code.\<close>

definition from_chars :: "string \<Rightarrow> (int \<times> string) option" where
  "from_chars s =
    (let neg = (s \<noteq> [] \<and> hd s = CHR ''-''); r = (if neg then tl s else s) in
     if r = [] \<or> \<not> is_digit (hd r) then None
     else
       let (n, rest) = read_digits r 0; v = (if neg then - int n else int n)
       in if int64_range v then Some (v, rest) else None)"

definition signed_number :: "string \<Rightarrow> (int \<times> string) option" where
  "signed_number s =
    (let s = dropWhile is_space s; neg = (s \<noteq> [] \<and> hd s = CHR ''-'');
         r = (if neg \<or> s \<noteq> [] \<and> hd s = CHR ''+'' then tl s else s)
     in if r = [] \<or> \<not> is_digit (hd r) then None
        else let (n, rest) = read_digits r 0 in Some (if neg then - int n else int n, rest))"

text \<open>\<open>std::atoi\<close> (zero without digits) and \<open>file >> value\<close> for \<open>int64_t\<close> (fails out of range).\<close>

definition atoi :: "string \<Rightarrow> int" where
  "atoi s = (case signed_number s of None \<Rightarrow> 0 | Some (v, _) \<Rightarrow> v)"

definition stream_int :: "string \<Rightarrow> int option" where
  "stream_int s =
    (case signed_number s of None \<Rightarrow> None | Some (v, _) \<Rightarrow> if int64_range v then Some v else None)"

section \<open>The code\<close>

record mount_point =
  mount_point_path :: string
  root :: string
  fs_type :: string
  super_options :: string

record cgroup_subsys =
  subsys_id :: int
  subsystems :: string
  subsys_path :: string

datatype container_cpu_status = UNLIMITED | LIMITED | UNKNOWN

record container_cpu_quota =
  cpu_count :: "int \<times> int"
  status :: container_cpu_status

type_synonym files = "string \<Rightarrow> string option"

definition subsys_line :: "string \<Rightarrow> cgroup_subsys option" where
  "subsys_line line =
    (let fields = split_string line CHR '':'' in
     if length fields \<noteq> 3 then None
     else Some \<lparr>subsys_id = atoi (fields ! 0), subsystems = fields ! 1, subsys_path = fields ! 2\<rparr>)"

definition parse_proc_cgroup :: "files \<Rightarrow> string \<Rightarrow> cgroup_subsys list" where
  "parse_proc_cgroup fs path =
    (case fs path of None \<Rightarrow> [] | Some contents \<Rightarrow> List.map_filter subsys_line (file_lines contents))"

text \<open>The search for the separator: the index of the first field \<open>-\<close> from \<open>i\<close> on, or zero.\<close>

fun separator_from :: "string list \<Rightarrow> nat \<Rightarrow> nat" where
  "separator_from [] i = 0"
| "separator_from (f # fs) i = (if f = ''-'' then i else separator_from fs (i + 1))"

text \<open>A line of \<open>mountinfo\<close>: \<open>Inl\<close> skips it, and \<open>fields[separator_idx + 3]\<close> may be out of bounds.\<close>

definition mount_line :: "string \<Rightarrow> (unit + mount_point) option" where
  "mount_line line =
    (let fields = split_string line CHR '' '' in
     if length fields < 10 then Some (Inl ())
     else
       let separator_idx = separator_from (drop 6 fields) 6 in
       if separator_idx = 0 \<or> length fields \<le> separator_idx + 2 then Some (Inl ())
       else if \<not> separator_idx + 3 < length fields then None
       else Some (Inr \<lparr>mount_point_path = fields ! 4, root = fields ! 3,
                       fs_type = fields ! (separator_idx + 1), super_options = fields ! (separator_idx + 3)\<rparr>))"

fun mount_lines :: "string list \<Rightarrow> mount_point list option" where
  "mount_lines [] = Some []"
| "mount_lines (l # ls) =
    (case mount_line l of
       None \<Rightarrow> None
     | Some (Inl _) \<Rightarrow> mount_lines ls
     | Some (Inr mp) \<Rightarrow> map_option (Cons mp) (mount_lines ls))"

definition parse_mountinfo :: "files \<Rightarrow> string \<Rightarrow> mount_point list option" where
  "parse_mountinfo fs path =
    (case fs path of None \<Rightarrow> Some [] | Some contents \<Rightarrow> mount_lines (file_lines contents))"

definition is_cgroups_v2 :: "files \<Rightarrow> bool option" where
  "is_cgroups_v2 fs =
    map_option (list_ex (\<lambda>mp. fs_type mp = ''cgroup2'' \<and> mount_point_path mp = ''/sys/fs/cgroup''))
      (parse_mountinfo fs ''/proc/self/mountinfo'')"

definition find_cgroup_v2_path :: "files \<Rightarrow> string" where
  "find_cgroup_v2_path fs =
    (case find (\<lambda>s. subsys_id s = 0) (parse_proc_cgroup fs ''/proc/self/cgroup'') of
       None \<Rightarrow> [] | Some s \<Rightarrow> subsys_path s)"

fun search_mounts :: "string \<Rightarrow> mount_point list \<Rightarrow> string" where
  "search_mounts cgroup_path [] = []"
| "search_mounts cgroup_path (mp # mps) =
    (if fs_type mp \<noteq> ''cgroup'' then search_mounts cgroup_path mps
     else if find_str (super_options mp) ''cpu'' \<noteq> None
     then if find_str cgroup_path (root mp) = Some 0
          then let relative_path = drop (length (root mp)) cgroup_path
               in mount_point_path mp @ (if relative_path = [] then ''/'' else relative_path)
          else mount_point_path mp @ cgroup_path
     else search_mounts cgroup_path mps)"

definition find_cgroup_v1_path :: "files \<Rightarrow> string option" where
  "find_cgroup_v1_path fs =
    map_option (\<lambda>mounts.
      let cgroup_path = (case find (\<lambda>s. find_str (subsystems s) ''cpu'' \<noteq> None)
                                (parse_proc_cgroup fs ''/proc/self/cgroup'') of
                           None \<Rightarrow> [] | Some s \<Rightarrow> subsys_path s)
      in if cgroup_path = [] then [] else search_mounts cgroup_path mounts)
    (parse_mountinfo fs ''/proc/self/mountinfo'')"

definition read_int_from_file :: "files \<Rightarrow> string \<Rightarrow> int" where
  "read_int_from_file fs path =
    (case fs path of None \<Rightarrow> -1
     | Some contents \<Rightarrow> (case stream_int contents of None \<Rightarrow> -1 | Some v \<Rightarrow> v))"

definition unlimited :: container_cpu_quota where
  "unlimited = \<lparr>cpu_count = (0, 1), status = UNLIMITED\<rparr>"

definition unknown :: container_cpu_quota where
  "unknown = \<lparr>cpu_count = (0, 1), status = UNKNOWN\<rparr>"

definition limited :: "int \<Rightarrow> int \<Rightarrow> container_cpu_quota" where
  "limited quota period = \<lparr>cpu_count = (quota, period), status = LIMITED\<rparr>"

text \<open>The whole field is a number: \<open>ec\<close> is clear and \<open>ptr\<close> is the end.\<close>

definition whole_number :: "string \<Rightarrow> int option" where
  "whole_number s = (case from_chars s of Some (v, []) \<Rightarrow> Some v | _ \<Rightarrow> None)"

definition parse_cpu_max :: "string \<Rightarrow> container_cpu_quota" where
  "parse_cpu_max line =
    (let fields = split_string line CHR '' '' in
     if fields = [] \<or> 2 < length fields then unknown
     else if fields ! 0 = ''max'' then unlimited
     else
       case whole_number (fields ! 0) of
         None \<Rightarrow> unknown
       | Some max_quota \<Rightarrow>
           if length fields = 2
           then (case whole_number (fields ! 1) of
                   None \<Rightarrow> unknown
                 | Some period \<Rightarrow> if period = 0 then unknown else limited max_quota period)
           else limited max_quota 100000)"

definition query_cgroups_v2 :: "files \<Rightarrow> container_cpu_quota" where
  "query_cgroups_v2 fs =
    (case fs (''/sys/fs/cgroup'' @ find_cgroup_v2_path fs @ ''/cpu.max'') of
       None \<Rightarrow> unlimited
     | Some contents \<Rightarrow>
         (case file_lines contents of [] \<Rightarrow> unlimited | line # _ \<Rightarrow> parse_cpu_max line))"

definition query_cgroups_v1 :: "files \<Rightarrow> container_cpu_quota option" where
  "query_cgroups_v1 fs =
    map_option (\<lambda>cgroup_path.
      if cgroup_path = [] then unlimited
      else
        let quota = read_int_from_file fs (cgroup_path @ ''/cpu.cfs_quota_us'');
            period = read_int_from_file fs (cgroup_path @ ''/cpu.cfs_period_us'')
        in if quota \<le> 0 then unlimited else if period \<le> 0 then unlimited else limited quota period)
    (find_cgroup_v1_path fs)"

definition query_container_cpu_quota :: "files \<Rightarrow> container_cpu_quota option" where
  "query_container_cpu_quota fs =
    (case is_cgroups_v2 fs of None \<Rightarrow> None
     | Some True \<Rightarrow> Some (query_cgroups_v2 fs)
     | Some False \<Rightarrow> query_cgroups_v1 fs)"

definition is_container_limited :: "container_cpu_quota \<Rightarrow> bool" where
  "is_container_limited q \<longleftrightarrow> status q = LIMITED"

section \<open>Printing and reading numbers\<close>

text \<open>The decimal form that the kernel writes.\<close>

definition digit :: "nat \<Rightarrow> char" where
  "digit d = char_of (48 + d)"

function decimal :: "nat \<Rightarrow> string" where
  "decimal n = (if n < 10 then [digit n] else decimal (n div 10) @ [digit (n mod 10)])"
  by pat_completeness auto
termination by (relation "measure id") auto

declare decimal.simps [simp del]

lemma digit_table:
  "list_all (\<lambda>d. is_digit (digit d) \<and> digit_value (digit d) = d \<and> digit d \<noteq> CHR ''-''
     \<and> digit d \<noteq> CHR '' '' \<and> digit d \<noteq> NEWLINE \<and> digit d \<noteq> CHR ''m'') [0, 1, 2, 3, 4, 5, 6, 7, 8, 9]"
  by code_simp

lemma digit_char:
  assumes "d < 10"
  shows "is_digit (digit d)" and "digit_value (digit d) = d"
    and "digit d \<noteq> CHR ''-''" "digit d \<noteq> CHR '' ''" "digit d \<noteq> NEWLINE"
    "digit d \<noteq> CHR ''m''"
proof -
  have "d \<in> set [0, 1, 2, 3, 4, 5, 6, 7, 8, 9]" using assms by auto
  then have "is_digit (digit d) \<and> digit_value (digit d) = d \<and> digit d \<noteq> CHR ''-''
     \<and> digit d \<noteq> CHR '' '' \<and> digit d \<noteq> NEWLINE \<and> digit d \<noteq> CHR ''m''"
    using digit_table unfolding list_all_iff by (rule bspec [rotated])
  then show "is_digit (digit d)" "digit_value (digit d) = d"
    "digit d \<noteq> CHR ''-''" "digit d \<noteq> CHR '' ''" "digit d \<noteq> NEWLINE"
    "digit d \<noteq> CHR ''m''" by simp_all
qed

lemma read_digits_append:
  "\<forall>c \<in> set ds. is_digit c \<Longrightarrow> read_digits (ds @ rest) acc = read_digits rest (fst (read_digits ds acc))"
  by (induction ds arbitrary: acc) auto

lemma decimal_props:
  "(\<forall>c \<in> set (decimal n). is_digit c \<and> c \<noteq> CHR ''-'' \<and> c \<noteq> CHR '' '' \<and> c \<noteq> NEWLINE \<and> c \<noteq> CHR ''m'')
    \<and> decimal n \<noteq> [] \<and> fst (read_digits (decimal n) 0) = n"
proof (induction n rule: decimal.induct)
  case (1 n)
  show ?case
  proof (cases "n < 10")
    case True
    then have eq: "decimal n = [digit n]" by (subst decimal.simps) simp
    show ?thesis using digit_char [OF True] unfolding eq by simp
  next
    case False
    have d: "n mod 10 < 10" by simp
    have eq: "decimal n = decimal (n div 10) @ [digit (n mod 10)]"
      using False by (subst decimal.simps) simp
    have "\<forall>c \<in> set (decimal (n div 10)). is_digit c" using 1 [OF False] by blast
    from read_digits_append [OF this] show ?thesis
      using 1 [OF False] digit_char [OF d] unfolding eq by simp
  qed
qed

lemma whole_number_decimal: "whole_number (decimal n) = (if n < 2 ^ 63 then Some (int n) else None)"
proof -
  note p = decimal_props [of n]
  have "read_digits (decimal n @ []) 0 = read_digits [] (fst (read_digits (decimal n) 0))"
    using p by (intro read_digits_append) blast
  then have r: "read_digits (decimal n) 0 = (n, [])" using p by simp
  have "hd (decimal n) \<in> set (decimal n)" using p by simp
  then show ?thesis
    using p r by (auto simp: whole_number_def from_chars_def Let_def int64_range_def)
qed

lemma split_single:
  assumes "delim \<notin> set s" and "s \<noteq> []"
  shows "split_string s delim = [s]"
proof -
  have "dropWhile (\<lambda>c. c \<noteq> delim) s = []" using assms(1) by (auto simp: dropWhile_eq_Nil_conv)
  then show ?thesis using assms(2) by (subst split_string.simps) (simp del: dropWhile_eq_Nil_conv)
qed

lemma split_Cons:
  assumes "delim \<notin> set s"
  shows "split_string (s @ delim # rest) delim = s # split_string rest delim"
proof -
  have "dropWhile (\<lambda>c. c \<noteq> delim) (s @ delim # rest) = delim # rest"
    "takeWhile (\<lambda>c. c \<noteq> delim) (s @ delim # rest) = s"
    using assms by (auto simp: dropWhile_append takeWhile_append dropWhile_eq_Nil_conv)
  then show ?thesis by (subst split_string.simps) simp
qed


section \<open>Properties\<close>

text \<open>The contents of \<open>cpu.max\<close> as the kernel writes them.\<close>

definition cpu_max_file :: "nat option \<Rightarrow> nat \<Rightarrow> string" where
  "cpu_max_file quota period =
    (case quota of None \<Rightarrow> ''max'' | Some q \<Rightarrow> decimal q) @ '' '' @ decimal period @ [NEWLINE]"

text \<open>
  C36: Reading \<open>cpu.max\<close> as the kernel prints it gives no limit for \<open>max\<close>, and the printed quota and period otherwise; when
  one of the two does not fit in 63 bits, or the period is zero, the answer is that the limit is unknown.
\<close>

theorem cpu_max_roundtrip:
  assumes "fs (''/sys/fs/cgroup'' @ find_cgroup_v2_path fs @ ''/cpu.max'') = Some (cpu_max_file quota period)"
  shows "query_cgroups_v2 fs =
    (case quota of None \<Rightarrow> unlimited
     | Some q \<Rightarrow> if q < 2 ^ 63 \<and> period < 2 ^ 63 \<and> period \<noteq> 0 then limited (int q) (int period) else unknown)"
proof -
  let ?q = "case quota of None \<Rightarrow> ''max'' | Some q \<Rightarrow> decimal q"
  let ?line = "?q @ CHR '' '' # decimal period"
  have q: "CHR '' '' \<notin> set ?q" "NEWLINE \<notin> set ?q" "?q \<noteq> []"
    using decimal_props by (auto simp: NEWLINE_def split: option.splits)
  have p: "CHR '' '' \<notin> set (decimal period)" "NEWLINE \<notin> set (decimal period)" "decimal period \<noteq> []"
    using decimal_props [of period] by auto
  have "NEWLINE \<notin> set ?line" using q p by (auto simp: NEWLINE_def)
  then have line: "file_lines (cpu_max_file quota period) = [?line]"
    using split_Cons [of NEWLINE ?line "[]"] by (simp add: cpu_max_file_def file_lines_def split_string.simps)
  have fields: "split_string ?line CHR '' '' = [?q, decimal period]"
    using split_Cons [OF q(1)] split_single [OF p(1,3)] by simp
  have notmax: "decimal n \<noteq> ''max''" for n using decimal_props [of n] by (metis list.set_intros(1))
  show ?thesis
    using assms notmax by (auto simp: whole_number_decimal query_cgroups_v2_def line parse_cpu_max_def fields Let_def split: option.splits)
qed

definition limited_fs :: files where
  "limited_fs p =
    (if p = ''/sys/fs/cgroup/cpu.max'' then Some (cpu_max_file (Some 250000) 100000) else None)"

theorem cpu_max_roundtrip_witness:
  "query_cgroups_v2 limited_fs = limited 250000 100000"
proof -
  have "find_cgroup_v2_path limited_fs = []"
    by (simp add: find_cgroup_v2_path_def parse_proc_cgroup_def limited_fs_def)
  then show ?thesis
    using cpu_max_roundtrip [of limited_fs "Some 250000" 100000] by (simp add: limited_fs_def)
qed

text \<open>
  C37: the reader of \<open>mountinfo\<close> leaves its vector exactly on the lines of at least ten fields that
  have only two fields after the separator, which its guard admits although it reads the third; the
  line of a mount without super options is one.
\<close>

theorem mount_line_out_of_bounds:
  "(mount_line line = None \<longleftrightarrow>
    (let fields = split_string line CHR '' '' in
     10 \<le> length fields \<and> length fields = separator_from (drop 6 fields) 6 + 3))
    \<and> mount_line ''30 25 0:26 / /sys/fs/cgroup rw shared:4 - cgroup2 cgroup2 '' = None"
proof
  show "mount_line line = None \<longleftrightarrow>
    (let fields = split_string line CHR '' '' in
     10 \<le> length fields \<and> length fields = separator_from (drop 6 fields) 6 + 3)"
    by (auto simp: mount_line_def Let_def)
  show "mount_line ''30 25 0:26 / /sys/fs/cgroup rw shared:4 - cgroup2 cgroup2 '' = None" by code_simp
qed

text \<open>A version 1 host: the process is in the group \<open>/job\<close> of the controller \<open>cpu\<close>.\<close>

definition v1_fs :: "string \<Rightarrow> string \<Rightarrow> files" where
  "v1_fs cgroup mounts p =
    (if p = ''/proc/self/cgroup'' then Some cgroup
     else if p = ''/proc/self/mountinfo'' then Some mounts
     else if p = ''/sys/fs/cgroup/cpu/job/cpu.cfs_quota_us'' then Some ''250000''
     else if p = ''/sys/fs/cgroup/cpu/job/cpu.cfs_period_us'' then Some ''100000'' else None)"

definition v1_mount :: "string \<Rightarrow> string" where
  "v1_mount r = ''31 25 0:27 '' @ r @ '' /sys/fs/cgroup/cpu rw shared:9 - cgroup cgroup rw,cpu''"

lemma v1_lines:
  "subsys_line ''4:cpu:/job'' = Some \<lparr>subsys_id = 4, subsystems = ''cpu'', subsys_path = ''/job''\<rparr>"
  "subsys_line ''5:cpuset:/set'' = Some \<lparr>subsys_id = 5, subsystems = ''cpuset'', subsys_path = ''/set''\<rparr>"
  "file_lines ''4:cpu:/job'' = [''4:cpu:/job'']"
  "file_lines (''5:cpuset:/set'' @ NEWLINE # ''4:cpu:/job'') = [''5:cpuset:/set'', ''4:cpu:/job'']"
  by code_simp+

lemma v1_mounts:
  "file_lines (v1_mount ''/'') = [v1_mount ''/'']" "file_lines (v1_mount ''/other'') = [v1_mount ''/other'']"
  "mount_line (v1_mount ''/'') = Some (Inr \<lparr>mount_point_path = ''/sys/fs/cgroup/cpu'', root = ''/'',
     fs_type = ''cgroup'', super_options = ''rw,cpu''\<rparr>)"
  "mount_line (v1_mount ''/other'') = Some (Inr \<lparr>mount_point_path = ''/sys/fs/cgroup/cpu'', root = ''/other'',
     fs_type = ''cgroup'', super_options = ''rw,cpu''\<rparr>)"
  by code_simp+

lemma v1_files:
  "v1_fs c m ''/proc/self/cgroup'' = Some c" "v1_fs c m ''/proc/self/mountinfo'' = Some m"
  "v1_fs c m ''/sys/fs/cgroup/cpu/job/cpu.cfs_quota_us'' = Some ''250000''"
  "v1_fs c m ''/sys/fs/cgroup/cpu/job/cpu.cfs_period_us'' = Some ''100000''"
  "v1_fs c m ''/sys/fs/cgroup/cpujob/cpu.cfs_quota_us'' = None"
  by (simp_all add: v1_fs_def)

lemma v1_numbers: "stream_int ''250000'' = Some 250000" "stream_int ''100000'' = Some 100000"
  by (simp_all add: stream_int_def signed_number_def is_space_def is_digit_def digit_value_def
      less_eq_char_def less_char_def int64_range_def)

lemmas v1_query = query_container_cpu_quota_def query_cgroups_v1_def find_cgroup_v1_path_def
  is_cgroups_v2_def parse_mountinfo_def parse_proc_cgroup_def map_filter_simps v1_lines v1_lines(4) [simplified] v1_mounts
  v1_files v1_numbers
  read_int_from_file_def

text \<open>
  the path of the version 1 hierarchy is built wrongly when the mount has the root \<open>/\<close>, as on a
  host without cgroup namespaces: the separator is lost, and a quota that is set is reported as
  unlimited; likewise a \<open>cpuset\<close> line that comes first is taken for the line of \<open>cpu\<close>.
\<close>

lemma v1_path_wrong:
  "find_cgroup_v1_path (v1_fs ''4:cpu:/job'' (v1_mount ''/'')) = Some ''/sys/fs/cgroup/cpujob''
   \<and> query_container_cpu_quota (v1_fs ''4:cpu:/job'' (v1_mount ''/'')) = Some unlimited
   \<and> query_container_cpu_quota (v1_fs ''4:cpu:/job'' (v1_mount ''/other'')) = Some (limited 250000 100000)
   \<and> find_cgroup_v1_path (v1_fs (''5:cpuset:/set'' @ NEWLINE # ''4:cpu:/job'') (v1_mount ''/other''))
    = Some ''/sys/fs/cgroup/cpu/set''"
  by (simp_all add: v1_query)

end
