(* ===== verification/BitManip.thy ===== *)
theory BitManip
  imports Prelude
begin

text \<open>
  Bit manipulation (\<open>src/include/tmc/detail/bit_manip.hpp\<close>), the loop over the set bits of a mask that
  the library writes with \<open>tzcnt\<close> and \<open>blsr\<close>, and the occupancy setter that uses it
  (\<open>src/include/tmc/detail/init_params.ipp\<close>).
\<close>

text \<open>\<open>TMC_ONE_BIT << k\<close>.\<close>

definition one_at :: "nat \<Rightarrow> size_t" where
  "one_at k = push_bit k TMC_ONE_BIT"

section \<open>Non-atomic operations\<close>

definition blsr :: "size_t \<Rightarrow> size_t" where
  "blsr v = (v - 1) AND v"

definition blsi :: "size_t \<Rightarrow> size_t" where
  "blsi v = v AND (0 - v)"

text \<open>\<open>std::countl_zero\<close>, \<open>std::countr_zero\<close> and \<open>std::popcount\<close> of a 64-bit word.\<close>

definition lzcnt :: "size_t \<Rightarrow> nat" where
  "lzcnt v = length (takeWhile (\<lambda>i. \<not> bit v i) (rev [0..<64]))"

definition tzcnt :: "size_t \<Rightarrow> nat" where
  "tzcnt v = length (takeWhile (\<lambda>i. \<not> bit v i) [0..<64])"

definition popcnt :: "size_t \<Rightarrow> nat" where
  "popcnt v = length (filter (bit v) [0..<64])"

section \<open>Atomic operations\<close>

text \<open>Each is one read-modify-write: the result is the returned value and the new word.\<close>

definition atomic_bit_set_test :: "size_t \<Rightarrow> nat \<Rightarrow> bool \<times> size_t" where
  "atomic_bit_set_test Addr BitIndex =
    (Addr AND one_at BitIndex \<noteq> 0, Addr OR one_at BitIndex)"

definition atomic_bit_set :: "size_t \<Rightarrow> nat \<Rightarrow> size_t" where
  "atomic_bit_set Addr BitIndex = Addr OR one_at BitIndex"

definition atomic_bit_reset_test :: "size_t \<Rightarrow> nat \<Rightarrow> bool \<times> size_t" where
  "atomic_bit_reset_test Addr BitIndex =
    (Addr AND one_at BitIndex \<noteq> 0, Addr AND NOT (one_at BitIndex))"

definition atomic_bit_reset :: "size_t \<Rightarrow> nat \<Rightarrow> size_t" where
  "atomic_bit_reset Addr BitIndex = Addr AND NOT (one_at BitIndex)"

text \<open>The compare-and-exchange of \<open>result\<close> with itself: the value read, the word unchanged.\<close>

definition compare_exchange :: "size_t \<Rightarrow> size_t \<Rightarrow> size_t \<Rightarrow> bool \<times> size_t \<times> size_t" where
  "compare_exchange Addr expected desired =
    (if Addr = expected then (True, expected, desired) else (False, Addr, Addr))"

definition atomic_load_latest :: "size_t \<Rightarrow> size_t \<times> size_t" where
  "atomic_load_latest Addr = snd (compare_exchange Addr 0 0)"

lemma atomic_load_latest_eq: "atomic_load_latest Addr = (Addr, Addr)"
  by (simp add: atomic_load_latest_def compare_exchange_def)

section \<open>Bits of words\<close>

lemma bit_less_64: "bit (v :: size_t) i \<Longrightarrow> i < 64"
  using bit_imp_le_length [of v i] by simp

lemma bit_one_at [word_facts]: "bit (one_at k) i \<longleftrightarrow> i = k \<and> k < 64"
  by (auto simp: one_at_def bit_exp_iff bit_less_64)

lemma and_one_at [word_facts]: "v AND one_at k \<noteq> 0 \<longleftrightarrow> bit v k"
  unfolding one_at_def by (metis and_exp_eq_0_iff_not_bit push_bit_of_1)

lemma bit_or_at [word_facts]: "k < 64 \<Longrightarrow> bit (v OR one_at k) i \<longleftrightarrow> bit v i \<or> i = k"
  by (auto simp: bit_or_iff bit_one_at)

lemma bit_and_not_at [word_facts]: "bit (v AND NOT (one_at k)) i \<longleftrightarrow> bit v i \<and> i \<noteq> k"
  using bit_less_64 [of v i] by (auto simp: bit_and_iff bit_not_iff bit_one_at)

lemma add_one_at: "\<not> bit v k \<Longrightarrow> v + one_at k = v OR one_at k"
  using set_bit_eq [of k v] by (simp add: set_bit_eq_or one_at_def)

lemma sub_one_at: "bit v k \<Longrightarrow> v - one_at k = v AND NOT (one_at k)"
  using unset_bit_eq [of k v] by (simp add: unset_bit_eq_and_not one_at_def)

text \<open>The set of the bits that are set; \<open>popcnt\<close> is its size.\<close>

definition bits :: "size_t \<Rightarrow> nat set" where
  "bits v = {i. bit v i}"

lemma in_bits [simp]: "i \<in> bits v \<longleftrightarrow> bit v i"
  by (simp add: bits_def)

lemma bits_filter: "bits v = set (filter (bit v) [0..<64])"
  using bit_less_64 by (auto simp: bits_def)

lemma finite_bits [simp]: "finite (bits v)"
  unfolding bits_filter by (rule finite_set)

lemma popcnt_card: "popcnt v = card (bits v)"
proof -
  have "distinct (filter (bit v) [0..<64])" by simp
  then show ?thesis unfolding bits_filter popcnt_def by (rule distinct_card [symmetric])
qed

lemma bits_eq_iff: "bits v = bits w \<longleftrightarrow> v = w"
proof
  assume eq: "bits v = bits w"
  have "bit v i = bit w i" for i using eq in_bits by metis
  then show "v = w" by (intro bit_eqI)
qed simp

lemma bits_zero [simp]: "bits 0 = {}" "bits v = {} \<longleftrightarrow> v = 0"
proof -
  show z: "bits 0 = {}" by (simp add: bits_def)
  show "bits v = {} \<longleftrightarrow> v = 0" using bits_eq_iff [of v 0] unfolding z .
qed

section \<open>The lowest set bit\<close>

lemma takeWhile_upt_first:
  assumes "k < n" and "P k" and "\<And>i. i < k \<Longrightarrow> \<not> P i"
  shows "length (takeWhile (\<lambda>i. \<not> P i) [0..<n]) = k"
proof -
  have "[0..<n] = [0..<k] @ k # [Suc k..<n]"
    using assms(1) upt_split [of 0 k n] by (simp add: upt_conv_Cons)
  moreover have "takeWhile (\<lambda>i. \<not> P i) ([0..<k] @ k # [Suc k..<n]) = [0..<k]"
    using assms(2,3) by (subst takeWhile_append2) auto
  ultimately show ?thesis by simp
qed

lemma tzcnt_spec:
  assumes "v \<noteq> 0"
  shows "bit v (tzcnt v)" and "i < tzcnt v \<Longrightarrow> \<not> bit v i" and "tzcnt v < 64"
proof -
  obtain j where j: "bit v j" using assms bits_zero(2) [of v] by (metis in_bits ex_in_conv)
  define k where "k = (LEAST j. bit v j)"
  have k: "bit v k" unfolding k_def by (rule LeastI [of "bit v", OF j])
  have less: "\<And>i. i < k \<Longrightarrow> \<not> bit v i" unfolding k_def by (rule not_less_Least)
  have eq: "tzcnt v = k"
    unfolding tzcnt_def by (rule takeWhile_upt_first [OF bit_less_64 [OF k]]) (fact k, fact less)
  show "bit v (tzcnt v)" unfolding eq by (fact k)
  show "i < tzcnt v \<Longrightarrow> \<not> bit v i" unfolding eq by (fact less)
  show "tzcnt v < 64" unfolding eq by (fact bit_less_64 [OF k])
qed

lemma minus_one_lowest:
  assumes "bit (v :: size_t) n" and "\<And>i. i < n \<Longrightarrow> \<not> bit v i"
  shows "bit (v - 1) i \<longleftrightarrow> i < n \<or> n < i \<and> bit v i"
proof -
  have n: "n < 64" using bit_less_64 [OF assms(1)] .
  let ?w = "unset_bit n v"
  have "v - 1 = ?w + mask n"
    using assms(1) by (simp add: unset_bit_eq mask_eq_exp_minus_1)
  moreover have "?w AND mask n = 0"
    by (rule bit_eqI) (use assms(2) in \<open>auto simp: bit_and_iff bit_unset_bit_iff bit_mask_iff\<close>)
  ultimately have eq: "v - 1 = ?w OR mask n" using disjunctive_add_eq_or by metis
  have "bit ?w i \<longleftrightarrow> bit v i \<and> i \<noteq> n" by (auto simp: bit_unset_bit_iff)
  moreover have "bit (mask n :: size_t) i \<longleftrightarrow> i < n" using n by (auto simp: bit_mask_iff)
  ultimately show ?thesis
    unfolding eq bit_or_iff using assms(2) [of i] by (cases i n rule: linorder_cases) auto
qed

lemma minus_one_bit:
  assumes "v \<noteq> 0"
  shows "bit (v - 1) i \<longleftrightarrow> i < tzcnt v \<or> tzcnt v < i \<and> bit v i"
  using tzcnt_spec(1,2) [OF assms] by (rule minus_one_lowest)

lemma blsr_bit:
  assumes "v \<noteq> 0"
  shows "bit (blsr v) i \<longleftrightarrow> bit v i \<and> i \<noteq> tzcnt v"
  unfolding blsr_def bit_and_iff minus_one_bit [OF assms]
  using tzcnt_spec(2) [OF assms, of i] by (cases i "tzcnt v" rule: linorder_cases) auto

lemma blsr_eq:
  assumes "v \<noteq> 0"
  shows "blsr v = v AND NOT (one_at (tzcnt v))" and "bits (blsr v) = bits v - {tzcnt v}"
proof -
  show "blsr v = v AND NOT (one_at (tzcnt v))"
    by (rule bit_eqI) (simp add: blsr_bit [OF assms] bit_and_not_at)
  show "bits (blsr v) = bits v - {tzcnt v}" by (auto simp: blsr_bit [OF assms])
qed

lemma blsi_eq:
  assumes "v \<noteq> 0"
  shows "blsi v = one_at (tzcnt v)"
proof -
  note tz = tzcnt_spec [OF assms]
  have eq: "blsi v = v AND NOT (v - 1)" by (simp add: blsi_def not_eq_complement)
  have "bit (v AND NOT (v - 1)) i \<longleftrightarrow> i = tzcnt v" for i
    unfolding bit_and_iff bit_not_iff minus_one_bit [OF assms]
    using tz(1) tz(2) [of i] bit_less_64 [of v i] by (cases i "tzcnt v" rule: linorder_cases) auto
  then show ?thesis unfolding eq using tz(3) by (intro bit_eqI) (simp add: bit_one_at)
qed

lemma popcnt_blsr:
  assumes "v \<noteq> 0"
  shows "popcnt (blsr v) < popcnt v"
  unfolding popcnt_card blsr_eq(2) [OF assms]
  using tzcnt_spec(1) [OF assms] by (intro card_Diff1_less) simp_all

section \<open>The loop over the set bits\<close>

function bit_loop :: "size_t \<Rightarrow> nat list" where
  "bit_loop input = (if input = 0 then [] else tzcnt input # bit_loop (blsr input))"
  by pat_completeness auto
termination by (relation "measure popcnt") (simp_all add: popcnt_blsr)

declare bit_loop.simps [simp del]

lemma bit_loop_spec: "sorted_wrt (<) (bit_loop v) \<and> set (bit_loop v) = bits v"
proof (induction v rule: bit_loop.induct)
  case (1 v)
  show ?case
  proof (cases "v = 0")
    case False
    note tz = tzcnt_spec [OF False]
    have "tzcnt v < i" if "i \<in> bits (blsr v)" for i
      using that tz(2) [of i] by (cases i "tzcnt v" rule: linorder_cases) (auto simp: blsr_bit [OF False])
    moreover have "insert (tzcnt v) (bits v - {tzcnt v}) = bits v" using tz(1) by auto
    moreover have "bit_loop v = tzcnt v # bit_loop (blsr v)" using False by (subst bit_loop.simps) simp
    ultimately show ?thesis
      using 1 [OF False] by (simp add: blsr_eq(2) [OF False])
  qed (simp add: bit_loop.simps)
qed

text \<open>The loop visits the set bits, each once and in ascending order.\<close>

lemma bit_loop_eq: "bit_loop v = filter (bit v) [0..<64]"
proof (rule strict_sorted_equal)
  show "sorted_wrt (<) (filter (bit v) [0..<64])" by (rule sorted_wrt_filter) simp
  show "sorted_wrt (<) (bit_loop v)" using bit_loop_spec by blast
  show "set (bit_loop v) = set (filter (bit v) [0..<64])" using bit_loop_spec bits_filter by blast
qed

section \<open>\<open>InitParams::set_thread_occupancy\<close>\<close>

text \<open>\<open>'f\<close> stands for \<open>float\<close> and \<open>one\<close> for \<open>1.0f\<close>.  The loop runs \<open>while (input != 0)\<close>; a write past
  the end of the vector would be \<open>None\<close>.\<close>

function occupancy_loop :: "'f \<Rightarrow> size_t \<Rightarrow> 'f list \<Rightarrow> 'f list option" where
  "occupancy_loop occ input xs =
    (if input = 0 then Some xs
     else if \<not> tzcnt input < length xs then None
     else occupancy_loop occ (blsr input) (xs[tzcnt input := occ]))"
  by pat_completeness auto
termination by (relation "measure (\<lambda>(_, input, _). popcnt input)") (simp_all add: popcnt_blsr)

declare occupancy_loop.simps [simp del]

definition set_thread_occupancy :: "'f \<Rightarrow> 'f \<Rightarrow> size_t \<Rightarrow> 'f list \<Rightarrow> 'f list option" where
  "set_thread_occupancy one ThreadOccupancy CpuKinds thread_occupancy =
    (let xs = (if thread_occupancy = [] then [one, one, one] else thread_occupancy)
     in occupancy_loop ThreadOccupancy (CpuKinds AND 7) xs)"

lemma occupancy_loop_spec:
  assumes "bits input \<subseteq> {..<length xs}"
  shows "\<exists>ys. occupancy_loop occ input xs = Some ys \<and> length ys = length xs
      \<and> (\<forall>k < length xs. ys ! k = (if bit input k then occ else xs ! k))"
  using assms
proof (induction occ input xs rule: occupancy_loop.induct)
  case (1 occ input xs)
  show ?case
  proof (cases "input = 0")
    case False
    note tz = tzcnt_spec [OF False]
    have less: "tzcnt input < length xs" using tz(1) 1(2) by auto
    have "bits (blsr input) \<subseteq> {..<length (xs[tzcnt input := occ])}"
      using 1(2) by (auto simp: blsr_eq(2) [OF False])
    from 1(1) [OF False _ this] less obtain ys where ys:
      "occupancy_loop occ (blsr input) (xs[tzcnt input := occ]) = Some ys" "length ys = length xs"
      "\<forall>k < length xs. ys ! k = (if bit (blsr input) k then occ else xs[tzcnt input := occ] ! k)"
      by auto
    have "bit (blsr input) k \<longleftrightarrow> bit input k \<and> k \<noteq> tzcnt input" for k
      by (rule blsr_bit [OF False])
    then show ?thesis
      using ys less tz(1) False by (subst occupancy_loop.simps) (auto simp: nth_list_update)
  qed (simp add: occupancy_loop.simps)
qed

section \<open>Properties\<close>

text \<open>
  the setter changes exactly the entries of the CPU kinds in the mask (bits above the three kinds
  are ignored), never writes out of bounds, and starts from an occupancy of one for every kind.
\<close>

lemma set_thread_occupancy_spec:
  assumes "length old = 0 \<or> length old = 3"
  shows "\<exists>new. set_thread_occupancy one occ kinds old = Some new \<and> length new = 3
      \<and> (\<forall>k < 3. new ! k = (if bit kinds k then occ else if old = [] then one else old ! k))"
proof -
  let ?xs = "if old = [] then [one, one, one] else old"
  have bit7: "bit (kinds AND 7) k \<longleftrightarrow> bit kinds k \<and> k < 3" for k
  proof -
    have "(7 :: size_t) = mask 3" by (simp add: mask_eq_exp_minus_1)
    then show ?thesis using bit_less_64 [of kinds k] by (auto simp only: bit_and_iff bit_mask_iff possible_bit_word) simp
  qed
  have len: "length ?xs = 3" using assms by auto
  then have "bits (kinds AND 7) \<subseteq> {..<length ?xs}" by (auto simp: bit7)
  from occupancy_loop_spec [OF this, of occ] len obtain new where new:
    "occupancy_loop occ (kinds AND 7) ?xs = Some new" "length new = 3"
    "\<forall>k < 3. new ! k = (if bit (kinds AND 7) k then occ else ?xs ! k)"
    by auto
  have "[one, one, one] ! k = one" if "k < 3" for k
    using that by (auto simp: less_Suc_eq numeral_3_eq_3)
  then show ?thesis using new by (auto simp: set_thread_occupancy_def Let_def bit7)
qed

theorem set_thread_occupancy_spec_witness:
  "\<exists>new. set_thread_occupancy (1 :: nat) 2 6 [] = Some new \<and> new ! 0 = 1 \<and> new ! 1 = 2 \<and> new ! 2 = 2"
  using set_thread_occupancy_spec [of "[] :: nat list" 1 2 6] by (auto simp: bit_numeral_rec)

end
