(* ===== verification/AtomicBitmap.thy ===== *)
theory AtomicBitmap
  imports BitManip
begin

text \<open>
  The thread bitmaps of the executor (\<open>src/include/tmc/detail/atomic_bitmap.hpp\<close>): the class of a
  build with \<open>TMC_MORE_THREADS\<close>, an array of words, and the single-word class of the default build.
  The locale \<open>thread_bitmap\<close> is what the executor relies on, a set of thread numbers with a count; both
  classes interpret it.  Operations on the words are taken one call at a time.
\<close>

section \<open>Several words\<close>

record multi_bitmap =
  mb_words :: "size_t list"
  word_count :: nat
  bit_count :: nat

definition word_index :: "nat \<Rightarrow> nat" where
  "word_index BitIdx = BitIdx div TMC_PLATFORM_BITS"

definition bitOffset :: "nat \<Rightarrow> nat" where
  "bitOffset BitIdx = BitIdx mod TMC_PLATFORM_BITS"

definition valid_mask_for_word :: "multi_bitmap \<Rightarrow> nat \<Rightarrow> size_t" where
  "valid_mask_for_word b WordIdx =
    (if WordIdx + 1 < word_count b then TMC_ALL_ONES
     else let rem = bit_count b mod TMC_PLATFORM_BITS
          in if rem = 0 then TMC_ALL_ONES else one_at rem - 1)"

definition multi_new :: multi_bitmap where
  "multi_new = \<lparr>mb_words = [], word_count = 1, bit_count = 0\<rparr>"

definition multi_init :: "nat \<Rightarrow> multi_bitmap" where
  "multi_init BitCount =
    (let n = (BitCount + TMC_PLATFORM_BITS - 1) div TMC_PLATFORM_BITS
     in \<lparr>mb_words = replicate n 0, word_count = n, bit_count = BitCount\<rparr>)"

definition multi_clear :: "multi_bitmap \<Rightarrow> multi_bitmap" where
  "multi_clear b = \<lparr>mb_words = [], word_count = 1, bit_count = 0\<rparr>"

definition multi_test_bit :: "multi_bitmap \<Rightarrow> nat \<Rightarrow> bool" where
  "multi_test_bit b BitIdx = (mb_words b ! word_index BitIdx AND one_at (bitOffset BitIdx) \<noteq> 0)"

definition multi_set_bit :: "nat \<Rightarrow> multi_bitmap \<Rightarrow> multi_bitmap" where
  "multi_set_bit BitIdx b =
    (let w = word_index BitIdx
     in b\<lparr>mb_words := (mb_words b)[w := mb_words b ! w OR one_at (bitOffset BitIdx)]\<rparr>)"

definition multi_clr_bit :: "nat \<Rightarrow> multi_bitmap \<Rightarrow> multi_bitmap" where
  "multi_clr_bit BitIdx b =
    (let w = word_index BitIdx
     in b\<lparr>mb_words := (mb_words b)[w := mb_words b ! w AND NOT (one_at (bitOffset BitIdx))]\<rparr>)"

text \<open>The counting loops: from word \<open>i\<close> on; the word \<open>w\<close> is updated by \<open>f\<close> when the loop reaches it.\<close>

fun count_loop :: "multi_bitmap \<Rightarrow> nat \<Rightarrow> (size_t \<Rightarrow> size_t) \<Rightarrow> nat \<Rightarrow> nat \<Rightarrow> nat \<Rightarrow> nat \<times> multi_bitmap" where
  "count_loop b w f i 0 cnt = (cnt, b)"
| "count_loop b w f i (Suc n) cnt =
    (let old = mb_words b ! i;
         b' = (if i = w then b\<lparr>mb_words := (mb_words b)[i := f old]\<rparr> else b);
         old = (if i + 1 = word_count b then old AND valid_mask_for_word b i else old)
     in count_loop b' w f (i + 1) n (cnt + popcnt old))"

definition multi_set_bit_popcnt :: "nat \<Rightarrow> multi_bitmap \<Rightarrow> nat \<times> multi_bitmap" where
  "multi_set_bit_popcnt BitIdx b =
    (let (cnt, b') = count_loop b (word_index BitIdx) (\<lambda>old. old + one_at (bitOffset BitIdx)) 0 (word_count b) 0
     in (cnt + 1, b'))"

definition multi_clr_bit_popcnt :: "nat \<Rightarrow> multi_bitmap \<Rightarrow> nat \<times> multi_bitmap" where
  "multi_clr_bit_popcnt BitIdx b =
    (let (cnt, b') = count_loop b (word_index BitIdx) (\<lambda>old. old - one_at (bitOffset BitIdx)) 0 (word_count b) 0
     in (cnt - 1, b'))"

definition multi_load_word :: "multi_bitmap \<Rightarrow> nat \<Rightarrow> size_t" where
  "multi_load_word b WordIdx = mb_words b ! WordIdx"

definition multi_set_first_n_bits :: "nat \<Rightarrow> multi_bitmap \<Rightarrow> multi_bitmap" where
  "multi_set_first_n_bits N b =
    (let fullWords = N div TMC_PLATFORM_BITS; remBits = N mod TMC_PLATFORM_BITS;
         ws = replicate fullWords TMC_ALL_ONES @ drop fullWords (mb_words b)
     in b\<lparr>mb_words := if remBits \<noteq> 0 then ws[fullWords := one_at remBits - 1] else ws\<rparr>)"

definition multi_popcnt :: "multi_bitmap \<Rightarrow> nat" where
  "multi_popcnt b = fst (count_loop b (word_count b) id 0 (word_count b) 0)"

definition multi_load_inverted_or :: "multi_bitmap \<Rightarrow> multi_bitmap \<Rightarrow> nat \<Rightarrow> size_t" where
  "multi_load_inverted_or a other WordIdx =
    valid_mask_for_word a WordIdx AND NOT (mb_words a ! WordIdx OR mb_words other ! WordIdx)"

section \<open>One word\<close>

definition word_init :: "nat \<Rightarrow> size_t" where
  "word_init num_bits = 0"

definition word_clear :: "size_t \<Rightarrow> size_t" where
  "word_clear b = 0"

definition word_popcnt :: "size_t \<Rightarrow> nat" where
  "word_popcnt b = popcnt b"

definition word_set_bit_popcnt :: "nat \<Rightarrow> size_t \<Rightarrow> nat \<times> size_t" where
  "word_set_bit_popcnt BitIdx b = (popcnt b + 1, b + one_at BitIdx)"

definition word_clr_bit_popcnt :: "nat \<Rightarrow> size_t \<Rightarrow> nat \<times> size_t" where
  "word_clr_bit_popcnt BitIdx b = (popcnt b - 1, b - one_at BitIdx)"

definition word_set_bit :: "nat \<Rightarrow> size_t \<Rightarrow> size_t" where
  "word_set_bit BitIdx b = b OR one_at BitIdx"

definition word_clr_bit :: "nat \<Rightarrow> size_t \<Rightarrow> size_t" where
  "word_clr_bit BitIdx b = b AND NOT (one_at BitIdx)"

definition word_set_first_n_bits :: "nat \<Rightarrow> size_t \<Rightarrow> size_t" where
  "word_set_first_n_bits N b = (if N = TMC_PLATFORM_BITS then TMC_ALL_ONES else one_at N - 1)"

definition word_test_bit :: "size_t \<Rightarrow> nat \<Rightarrow> bool" where
  "word_test_bit b BitIdx = (b AND one_at BitIdx \<noteq> 0)"

definition word_load_word :: "size_t \<Rightarrow> nat \<Rightarrow> size_t" where
  "word_load_word b WordIdx = b"

section \<open>The contract\<close>

locale thread_bitmap =
  fixes inv :: "nat \<Rightarrow> 'b \<Rightarrow> bool" and mem :: "'b \<Rightarrow> nat set"
    and empty :: "nat \<Rightarrow> 'b" and test :: "'b \<Rightarrow> nat \<Rightarrow> bool" and cnt :: "'b \<Rightarrow> nat"
    and ins :: "nat \<Rightarrow> 'b \<Rightarrow> 'b" and del :: "nat \<Rightarrow> 'b \<Rightarrow> 'b"
    and ins_count :: "nat \<Rightarrow> 'b \<Rightarrow> nat \<times> 'b" and del_count :: "nat \<Rightarrow> 'b \<Rightarrow> nat \<times> 'b"
    and first_n :: "nat \<Rightarrow> 'b \<Rightarrow> 'b" and limit :: "nat \<Rightarrow> bool"
  assumes inv_mem: "inv n b \<Longrightarrow> mem b \<subseteq> {..<n}"
    and init: "limit n \<Longrightarrow> inv n (empty n) \<and> mem (empty n) = {}"
    and test: "inv n b \<Longrightarrow> i < n \<Longrightarrow> test b i \<longleftrightarrow> i \<in> mem b"
    and cnt: "inv n b \<Longrightarrow> cnt b = card (mem b)"
    and ins: "inv n b \<Longrightarrow> i < n \<Longrightarrow> inv n (ins i b) \<and> mem (ins i b) = insert i (mem b)"
    and del: "inv n b \<Longrightarrow> i < n \<Longrightarrow> inv n (del i b) \<and> mem (del i b) = mem b - {i}"
    and ins_count: "inv n b \<Longrightarrow> i < n \<Longrightarrow> i \<notin> mem b \<Longrightarrow> ins_count i b = (card (mem b) + 1, ins i b)"
    and del_count: "inv n b \<Longrightarrow> i \<in> mem b \<Longrightarrow> del_count i b = (card (mem b) - 1, del i b)"
    and first_n: "inv n b \<Longrightarrow> mem b = {} \<Longrightarrow> k \<le> n \<Longrightarrow> inv n (first_n k b) \<and> mem (first_n k b) = {..<k}"

text \<open>What a thread does to the bitmap: \<open>Set\<close> and \<open>Clr\<close> with or without the count.\<close>

datatype bitmap_op = Set nat | Clr nat | SetCount nat | ClrCount nat

fun op_bit :: "bitmap_op \<Rightarrow> nat" where
  "op_bit (Set i) = i" | "op_bit (Clr i) = i" | "op_bit (SetCount i) = i" | "op_bit (ClrCount i) = i"

text \<open>The counting operations are used on a bit that they change.\<close>

fun set_op :: "bitmap_op \<Rightarrow> nat set \<Rightarrow> nat set option" where
  "set_op (Set i) s = Some (insert i s)"
| "set_op (Clr i) s = Some (s - {i})"
| "set_op (SetCount i) s = (if i \<in> s then None else Some (insert i s))"
| "set_op (ClrCount i) s = (if i \<in> s then Some (s - {i}) else None)"

fun set_ops :: "bitmap_op list \<Rightarrow> nat set \<Rightarrow> nat set option" where
  "set_ops [] s = Some s"
| "set_ops (x # xs) s = Option.bind (set_op x s) (set_ops xs)"

fun apply_op ::
  "(nat \<Rightarrow> 'b \<Rightarrow> 'b) \<Rightarrow> (nat \<Rightarrow> 'b \<Rightarrow> 'b) \<Rightarrow> (nat \<Rightarrow> 'b \<Rightarrow> nat \<times> 'b) \<Rightarrow> (nat \<Rightarrow> 'b \<Rightarrow> nat \<times> 'b)
    \<Rightarrow> bitmap_op \<Rightarrow> 'b \<Rightarrow> nat option \<times> 'b" where
  "apply_op ins del insc delc (Set i) b = (None, ins i b)"
| "apply_op ins del insc delc (Clr i) b = (None, del i b)"
| "apply_op ins del insc delc (SetCount i) b = (let (n, b') = insc i b in (Some n, b'))"
| "apply_op ins del insc delc (ClrCount i) b = (let (n, b') = delc i b in (Some n, b'))"

fun apply_ops ::
  "(nat \<Rightarrow> 'b \<Rightarrow> 'b) \<Rightarrow> (nat \<Rightarrow> 'b \<Rightarrow> 'b) \<Rightarrow> (nat \<Rightarrow> 'b \<Rightarrow> nat \<times> 'b) \<Rightarrow> (nat \<Rightarrow> 'b \<Rightarrow> nat \<times> 'b)
    \<Rightarrow> bitmap_op list \<Rightarrow> 'b \<Rightarrow> nat option list \<times> 'b" where
  "apply_ops ins del insc delc [] b = ([], b)"
| "apply_ops ins del insc delc (x # xs) b =
    (let (r, b) = apply_op ins del insc delc x b; (rs, b) = apply_ops ins del insc delc xs b in (r # rs, b))"

text \<open>The counts that a run reports: the sizes of the set after every counting operation.\<close>

fun set_counts :: "bitmap_op list \<Rightarrow> nat set \<Rightarrow> nat option list" where
  "set_counts [] s = []"
| "set_counts (x # xs) s =
    (case set_op x s of None \<Rightarrow> []
     | Some s' \<Rightarrow> (case x of SetCount _ \<Rightarrow> Some (card s') | ClrCount _ \<Rightarrow> Some (card s') | _ \<Rightarrow> None)
                  # set_counts xs s')"

context thread_bitmap
begin

lemma finite_mem: "inv n b \<Longrightarrow> finite (mem b)"
  using inv_mem finite_subset by blast

lemma apply_op_refines:
  assumes "inv n b" and "op_bit x < n" and "set_op x (mem b) = Some s"
  shows "\<exists>b'. apply_op ins del ins_count del_count x b
        = (case x of SetCount _ \<Rightarrow> Some (card s) | ClrCount _ \<Rightarrow> Some (card s) | _ \<Rightarrow> None, b')
      \<and> inv n b' \<and> mem b' = s"
  using assms ins del ins_count del_count finite_mem [OF assms(1)]
  by (cases x) (auto split: if_splits)

lemma apply_ops_refine:
  assumes "inv n b" and "\<forall>x \<in> set xs. op_bit x < n" and "set_ops xs (mem b) = Some s"
  shows "\<exists>b'. apply_ops ins del ins_count del_count xs b = (set_counts xs (mem b), b')
      \<and> inv n b' \<and> mem b' = s \<and> cnt b' = card s \<and> (\<forall>i < n. test b' i \<longleftrightarrow> i \<in> s)"
  using assms
proof (induction xs arbitrary: b)
  case (Cons x xs)
  obtain s1 where s1: "set_op x (mem b) = Some s1" "set_ops xs s1 = Some s"
    using Cons.prems(3) by (auto simp: bind_eq_Some_iff)
  obtain b1 where b1: "apply_op ins del ins_count del_count x b
        = (case x of SetCount _ \<Rightarrow> Some (card s1) | ClrCount _ \<Rightarrow> Some (card s1) | _ \<Rightarrow> None, b1)"
      "inv n b1" "mem b1 = s1"
    using apply_op_refines [OF Cons.prems(1) _ s1(1)] Cons.prems(2) by auto
  then show ?case using Cons.IH [of b1] Cons.prems(2) s1 by (auto simp: Let_def)
qed (use cnt test in auto)

end


section \<open>One word\<close>

definition word_inv :: "nat \<Rightarrow> size_t \<Rightarrow> bool" where
  "word_inv n b \<longleftrightarrow> n \<le> 64 \<and> bits b \<subseteq> {..<n}"

lemma bits_or_at: "i < 64 \<Longrightarrow> bits (v OR one_at i) = insert i (bits v)"
  by (auto simp: bit_or_at)

lemma bits_and_not_at: "bits (v AND NOT (one_at i)) = bits v - {i}"
  by (auto simp: bit_and_not_at)

lemma bits_low: "k < 64 \<Longrightarrow> bits (one_at k - 1) = {..<k}"
proof -
  assume k: "k < 64"
  have "one_at k - 1 = mask k" by (simp add: one_at_def mask_eq_exp_minus_1)
  then show ?thesis using k by (auto simp: bits_def bit_mask_iff)
qed

lemma bits_ones: "bits (- 1) = {..<64}"
  using bit_less_64 by (auto simp: bits_def bit_minus_1_iff)

interpretation single: thread_bitmap word_inv bits word_init word_test_bit word_popcnt word_set_bit
  word_clr_bit word_set_bit_popcnt word_clr_bit_popcnt word_set_first_n_bits "\<lambda>n. n \<le> 64"
proof
  fix n i k :: nat and b :: size_t
  show "word_inv n b \<Longrightarrow> bits b \<subseteq> {..<n}" by (simp add: word_inv_def)
  show "n \<le> 64 \<Longrightarrow> word_inv n (word_init n) \<and> bits (word_init n) = {}"
    by (simp add: word_inv_def word_init_def)
  show "word_test_bit b i \<longleftrightarrow> i \<in> bits b" by (simp add: word_test_bit_def and_one_at)
  show "word_popcnt b = card (bits b)" by (simp add: word_popcnt_def popcnt_card)
  show ins: "word_inv n (word_set_bit i b) \<and> bits (word_set_bit i b) = insert i (bits b)"
    if "word_inv n b" "i < n" using that by (auto simp: word_inv_def word_set_bit_def bits_or_at)
  show "word_inv n (word_clr_bit i b) \<and> bits (word_clr_bit i b) = bits b - {i}"
    if "word_inv n b" "i < n" using that by (auto simp: word_inv_def word_clr_bit_def bits_and_not_at)
  show "word_set_bit_popcnt i b = (card (bits b) + 1, word_set_bit i b)" if "i \<notin> bits b"
    using that by (simp add: word_set_bit_popcnt_def word_set_bit_def popcnt_card add_one_at)
  show "word_clr_bit_popcnt i b = (card (bits b) - 1, word_clr_bit i b)" if "i \<in> bits b"
    using that by (simp add: word_clr_bit_popcnt_def word_clr_bit_def popcnt_card sub_one_at)
  show "word_inv n (word_set_first_n_bits k b) \<and> bits (word_set_first_n_bits k b) = {..<k}"
    if "word_inv n b" "k \<le> n"
    using that bits_low [of k] bits_ones by (cases "k = 64") (auto simp: word_inv_def word_set_first_n_bits_def)
qed

section \<open>Several words\<close>

definition words_mem :: "size_t list \<Rightarrow> nat set" where
  "words_mem ws = {i. i div 64 < length ws \<and> bit (ws ! (i div 64)) (i mod 64)}"

definition multi_mem :: "multi_bitmap \<Rightarrow> nat set" where
  "multi_mem b = words_mem (mb_words b)"

definition multi_inv :: "nat \<Rightarrow> multi_bitmap \<Rightarrow> bool" where
  "multi_inv n b \<longleftrightarrow> bit_count b = n \<and> word_count b = (n + 63) div 64 \<and> length (mb_words b) = word_count b
     \<and> multi_mem b \<subseteq> {..<n}"

lemma words_mem_append:
  "words_mem (ws @ [w]) = words_mem ws \<union> (\<lambda>k. 64 * length ws + k) ` bits w"
proof -
  have "i \<in> words_mem (ws @ [w]) \<longleftrightarrow> i \<in> words_mem ws \<or> i \<in> (\<lambda>k. 64 * length ws + k) ` bits w" for i
  proof (cases "i div 64" "length ws" rule: linorder_cases)
    case less
    then have "i \<notin> (\<lambda>k. 64 * length ws + k) ` bits w" by auto
    then show ?thesis using less by (simp add: words_mem_def nth_append)
  next
    case equal
    then have i: "i = 64 * length ws + i mod 64" by (metis mult_div_mod_eq)
    have "i \<in> (\<lambda>k. 64 * length ws + k) ` bits w \<longleftrightarrow> bit w (i mod 64)"
      using i by (metis (no_types, lifting) add_left_cancel imageE image_eqI in_bits)
    then show ?thesis using equal by (simp add: words_mem_def nth_append)
  next
    case greater
    have "i \<notin> (\<lambda>k. 64 * length ws + k) ` bits w"
    proof
      assume "i \<in> (\<lambda>k. 64 * length ws + k) ` bits w"
      then obtain k where "i = 64 * length ws + k" "k < 64" using bit_less_64 by auto
      then show False using greater by simp
    qed
    then show ?thesis using greater by (simp add: words_mem_def)
  qed
  then show ?thesis by blast
qed

lemma words_mem_bound: "i \<in> words_mem ws \<Longrightarrow> i < 64 * length ws"
  by (auto simp: words_mem_def)

lemma finite_words_mem: "finite (words_mem ws)"
  using words_mem_bound by (metis finite_nat_set_iff_bounded)

lemma card_words_mem: "card (words_mem ws) = sum_list (map popcnt ws)"
proof (induction ws rule: rev_induct)
  case (snoc w ws)
  have "words_mem ws \<inter> (\<lambda>k. 64 * length ws + k) ` bits w = {}"
    using words_mem_bound by fastforce
  then show ?case
    using snoc finite_words_mem
    by (simp add: words_mem_append card_Un_disjoint card_image popcnt_card)
qed (simp add: words_mem_def)

lemma words_mem_update:
  assumes "w < length ws"
  shows "words_mem (ws[w := v]) = {i \<in> words_mem ws. i div 64 \<noteq> w} \<union> {i. i div 64 = w \<and> bit v (i mod 64)}"
  using assms by (auto simp: words_mem_def nth_list_update)

lemma split_index: "i div 64 = j div 64 \<and> i mod 64 = j mod 64 \<longleftrightarrow> i = (j :: nat)"
  by (metis mult_div_mod_eq)

lemma words_mem_ins:
  assumes "i div 64 < length ws"
  shows "words_mem (ws[i div 64 := ws ! (i div 64) OR one_at (i mod 64)]) = insert i (words_mem ws)"
  unfolding words_mem_update [OF assms]
  using split_index assms by (auto simp: words_mem_def bit_or_at)

lemma words_mem_del:
  assumes "i div 64 < length ws"
  shows "words_mem (ws[i div 64 := ws ! (i div 64) AND NOT (one_at (i mod 64))]) = words_mem ws - {i}"
  unfolding words_mem_update [OF assms]
  using split_index assms by (auto simp: words_mem_def bit_and_not_at)

lemma multi_index:
  assumes "multi_inv n b" and "i < n"
  shows "i div 64 < length (mb_words b)"
proof -
  have "(i + 64) div 64 \<le> (n + 63) div 64" using assms(2) by (intro div_le_mono) simp
  then show ?thesis using assms(1) by (simp add: multi_inv_def)
qed

text \<open>The mask of the last word keeps a word without bits past the end.\<close>

lemma masked_word:
  assumes "multi_inv n b" and "j + 1 = word_count b"
  shows "mb_words b ! j AND valid_mask_for_word b j = mb_words b ! j"
proof -
  have j: "j < length (mb_words b)" "bit_count b = n" "word_count b = (n + 63) div 64"
    using assms by (simp_all add: multi_inv_def)
  have "bit (valid_mask_for_word b j) k" if k: "bit (mb_words b ! j) k" for k
  proof -
    have k64: "k < 64" using bit_less_64 [OF k] .
    then have "64 * j + k \<in> multi_mem b" using j(1) k by (simp add: multi_mem_def words_mem_def)
    then have less: "64 * j + k < n" using assms(1) by (auto simp: multi_inv_def)
    show ?thesis
    proof (cases "n mod 64 = 0")
      case True
      then show ?thesis using k64 j(2) by (simp add: valid_mask_for_word_def assms(2) bit_minus_1_iff)
    next
      case False
      have "64 * (n div 64) + n mod 64 = n" by simp
      moreover have "(n + 63) div 64 = n div 64 + 1"
      proof -
        have "n + 63 = (n mod 64 - 1) + (n div 64 + 1) * 64" using False calculation by simp
        then have "(n + 63) div 64 = (n mod 64 - 1) div 64 + (n div 64 + 1)"
          by (metis div_mult_self1 zero_neq_numeral add.commute)
        then show ?thesis by (simp add: div_less less_imp_diff_less)
      qed
      moreover have "j = n div 64" using calculation(2) assms(2) j(3) by simp
      ultimately have "k < n mod 64" using less by linarith
      moreover have "bits (one_at (n mod 64) - 1) = {..<n mod 64}" by (rule bits_low) simp
      ultimately show ?thesis
        using False j(2) assms(2) by (auto simp: valid_mask_for_word_def Let_def bits_def set_eq_iff)
    qed
  qed
  then show ?thesis by (intro bit_eqI) (auto simp: bit_and_iff)
qed

lemma count_loop_eq:
  assumes "i + n \<le> word_count b" and "length (mb_words b) = word_count b"
    and "\<forall>j \<ge> i. j + 1 = word_count b \<longrightarrow> mb_words b ! j AND valid_mask_for_word b j = mb_words b ! j"
  shows "count_loop b w f i n c =
    (c + sum_list (map popcnt (take n (drop i (mb_words b)))),
     if i \<le> w \<and> w < i + n then b\<lparr>mb_words := (mb_words b)[w := f (mb_words b ! w)]\<rparr> else b)"
  using assms
proof (induction n arbitrary: b i c)
  case (Suc n)
  let ?b = "if i = w then b\<lparr>mb_words := (mb_words b)[i := f (mb_words b ! i)]\<rparr> else b"
  have i: "i < length (mb_words b)" using Suc.prems(1,2) by simp
  have fields: "word_count ?b = word_count b" "length (mb_words ?b) = length (mb_words b)"
    "valid_mask_for_word ?b = valid_mask_for_word b" "\<And>j. j \<noteq> i \<Longrightarrow> mb_words ?b ! j = mb_words b ! j"
    "drop (i + 1) (mb_words ?b) = drop (i + 1) (mb_words b)"
    by (auto simp: valid_mask_for_word_def fun_eq_iff)
  have step: "count_loop b w f i (Suc n) c = count_loop ?b w f (i + 1) n (c + popcnt (mb_words b ! i))"
    using Suc.prems(3) by (simp add: Let_def)
  have rec: "count_loop ?b w f (i + 1) n (c + popcnt (mb_words b ! i)) =
    (c + popcnt (mb_words b ! i) + sum_list (map popcnt (take n (drop (i + 1) (mb_words ?b)))),
     if i + 1 \<le> w \<and> w < i + 1 + n then ?b\<lparr>mb_words := (mb_words ?b)[w := f (mb_words ?b ! w)]\<rparr> else ?b)"
    by (rule Suc.IH) (use Suc.prems fields in auto)
  have "take (Suc n) (drop i (mb_words b)) = mb_words b ! i # take n (drop (i + 1) (mb_words b))"
    using i by (simp add: Cons_nth_drop_Suc [symmetric])
  then show ?case unfolding step rec fields(5) by auto
qed auto

lemma count_loop_whole:
  assumes "multi_inv n b"
  shows "count_loop b w f 0 (word_count b) 0 =
    (card (multi_mem b), if w < word_count b then b\<lparr>mb_words := (mb_words b)[w := f (mb_words b ! w)]\<rparr> else b)"
proof -
  have len: "length (mb_words b) = word_count b" using assms by (simp add: multi_inv_def)
  show ?thesis
    using count_loop_eq [of 0 "word_count b" b w f 0] masked_word [OF assms] len
    by (simp add: card_words_mem multi_mem_def)
qed

lemma multi_inv_words:
  assumes "multi_inv n b" and "length ws = length (mb_words b)" and "words_mem ws \<subseteq> {..<n}"
  shows "multi_inv n (b\<lparr>mb_words := ws\<rparr>)" and "multi_mem (b\<lparr>mb_words := ws\<rparr>) = words_mem ws"
  using assms by (auto simp: multi_inv_def multi_mem_def)

lemma first_n_mem:
  assumes "words_mem ws = {}" and "k \<le> 64 * length ws"
  defines "new \<equiv> (let r = replicate (k div 64) (- 1) @ drop (k div 64) ws
                  in if k mod 64 \<noteq> 0 then r[k div 64 := one_at (k mod 64) - 1] else r)"
  shows "words_mem new = {..<k}" and "length new = length ws"
proof -
  have q: "k div 64 \<le> length ws" using assms(2) by (simp add: div_le_mono [of k "64 * length ws" 64, simplified])
  show len: "length new = length ws" using q by (simp add: new_def Let_def)
  have zero: "\<not> bit (ws ! (i div 64)) (i mod 64)" if "i div 64 < length ws" for i
    using assms(1) that by (auto simp: words_mem_def)
  have low: "bit (one_at (k mod 64) - 1) j \<longleftrightarrow> j < k mod 64" for j
    using bits_low [of "k mod 64"] by (auto simp: bits_def set_eq_iff)
  have "i \<in> words_mem new \<longleftrightarrow> i < k" for i
  proof -
    have k: "64 * (k div 64) + k mod 64 = k" and i: "64 * (i div 64) + i mod 64 = i" by simp_all
    have ikm: "i mod 64 < 64" "k mod 64 < 64" by simp_all
    consider (low) "i div 64 < k div 64" | (at) "i div 64 = k div 64" | (high) "k div 64 < i div 64" by linarith
    then show ?thesis
    proof cases
      case low
      then have "i < k" using k i ikm by linarith
      moreover have "new ! (i div 64) = - 1" using low by (simp add: new_def Let_def nth_append)
      ultimately show ?thesis using low q len by (simp add: words_mem_def bit_minus_1_iff)
    next
      case at
      then have lt: "i < k \<longleftrightarrow> i mod 64 < k mod 64" using k i by linarith
      show ?thesis
      proof (cases "k mod 64 = 0")
        case True
        then have "i div 64 < length ws \<Longrightarrow> new ! (i div 64) = ws ! (i div 64)"
          using at by (simp add: new_def Let_def nth_append)
        then show ?thesis using True lt zero len by (auto simp: words_mem_def)
      next
        case False
        then have less: "k div 64 < length ws" using k assms(2) q by (cases "k div 64 = length ws") auto
        then have "new ! (i div 64) = one_at (k mod 64) - 1"
          using at False by (simp add: new_def Let_def)
        then show ?thesis using lt low less at len by (simp add: words_mem_def)
      qed
    next
      case high
      then have "i div 64 < length ws \<Longrightarrow> new ! (i div 64) = ws ! (i div 64)"
        by (simp add: new_def Let_def nth_append nth_list_update)
      moreover have "\<not> i < k" using high k i ikm by linarith
      ultimately show ?thesis using zero len by (auto simp: words_mem_def)
    qed
  qed
  then show "words_mem new = {..<k}" by blast
qed

interpretation multi: thread_bitmap multi_inv multi_mem multi_init multi_test_bit multi_popcnt multi_set_bit
  multi_clr_bit multi_set_bit_popcnt multi_clr_bit_popcnt multi_set_first_n_bits "\<lambda>n. True"
proof
  fix n i k :: nat and b :: multi_bitmap
  show "multi_inv n b \<Longrightarrow> multi_mem b \<subseteq> {..<n}" by (simp add: multi_inv_def)
  have "words_mem (replicate m 0) = {}" for m by (auto simp: words_mem_def)
  then show "multi_inv n (multi_init n) \<and> multi_mem (multi_init n) = {}"
    by (simp add: multi_inv_def multi_mem_def multi_init_def Let_def)
  show "multi_test_bit b i \<longleftrightarrow> i \<in> multi_mem b" if "multi_inv n b" "i < n"
    using multi_index [OF that]
    by (simp add: multi_test_bit_def and_one_at multi_mem_def words_mem_def word_index_def bitOffset_def)
  show "multi_popcnt b = card (multi_mem b)" if "multi_inv n b"
    using count_loop_whole [OF that] by (simp add: multi_popcnt_def)
  show "multi_inv n (multi_set_bit i b) \<and> multi_mem (multi_set_bit i b) = insert i (multi_mem b)"
    if "multi_inv n b" "i < n"
    using multi_inv_words [OF that(1)] words_mem_ins [OF multi_index [OF that]] that
    by (simp add: multi_set_bit_def Let_def word_index_def bitOffset_def multi_mem_def multi_inv_def)
  show "multi_inv n (multi_clr_bit i b) \<and> multi_mem (multi_clr_bit i b) = multi_mem b - {i}"
    if "multi_inv n b" "i < n"
    using multi_inv_words [OF that(1)] words_mem_del [OF multi_index [OF that]] that
    by (auto simp: multi_clr_bit_def Let_def word_index_def bitOffset_def multi_mem_def multi_inv_def)
  show "multi_set_bit_popcnt i b = (card (multi_mem b) + 1, multi_set_bit i b)"
    if "multi_inv n b" "i < n" "i \<notin> multi_mem b"
  proof -
    have w: "i div 64 < length (mb_words b)" using multi_index [OF that(1,2)] .
    then have "\<not> bit (mb_words b ! (i div 64)) (i mod 64)" using that(3) by (simp add: multi_mem_def words_mem_def)
    then show ?thesis
      using count_loop_whole [OF that(1)] w that(1)
      by (simp add: multi_set_bit_popcnt_def multi_set_bit_def word_index_def bitOffset_def add_one_at
          multi_inv_def Let_def)
  qed
  show "multi_clr_bit_popcnt i b = (card (multi_mem b) - 1, multi_clr_bit i b)"
    if "multi_inv n b" "i \<in> multi_mem b"
  proof -
    have w: "i div 64 < length (mb_words b)" "bit (mb_words b ! (i div 64)) (i mod 64)"
      using that(2) by (simp_all add: multi_mem_def words_mem_def)
    then show ?thesis
      using count_loop_whole [OF that(1)] that(1)
      by (simp add: multi_clr_bit_popcnt_def multi_clr_bit_def word_index_def bitOffset_def sub_one_at
          multi_inv_def Let_def)
  qed
  show "multi_inv n (multi_set_first_n_bits k b) \<and> multi_mem (multi_set_first_n_bits k b) = {..<k}"
    if "multi_inv n b" "multi_mem b = {}" "k \<le> n"
  proof -
    have "64 * ((n + 63) div 64) + (n + 63) mod 64 = n + 63" "(n + 63) mod 64 < 64" by simp_all
    then have "n \<le> 64 * ((n + 63) div 64)" by linarith
    then have "k \<le> 64 * length (mb_words b)" using that by (simp add: multi_inv_def)
    moreover have "words_mem (mb_words b) = {}" using that(2) by (simp add: multi_mem_def)
    ultimately show ?thesis
      using first_n_mem [of "mb_words b" k] multi_inv_words [OF that(1)] that(3)
      by (simp add: multi_set_first_n_bits_def Let_def) 
  qed
qed


section \<open>Properties\<close>

text \<open>
  C38: after \<open>init(n)\<close> and \<open>set_first_n_bits(k)\<close>, any sequence of operations on bits below \<open>n\<close> (the
  counting ones on bits that they change) acts on the words as on a set: the counts returned are the
  sizes of the set, \<open>popcnt\<close> is its size and \<open>test_bit\<close> its membership, over any number of words.
\<close>

theorem multi_bitmap_refines:
  assumes "k \<le> n" and "\<forall>x \<in> set xs. op_bit x < n" and "set_ops xs {..<k} = Some s"
  shows "\<exists>b. apply_ops multi_set_bit multi_clr_bit multi_set_bit_popcnt multi_clr_bit_popcnt xs
        (multi_set_first_n_bits k (multi_init n)) = (set_counts xs {..<k}, b)
      \<and> multi_popcnt b = card s \<and> (\<forall>i < n. multi_test_bit b i \<longleftrightarrow> i \<in> s)"
proof -
  let ?b = "multi_set_first_n_bits k (multi_init n)"
  have b: "multi_inv n ?b" "multi_mem ?b = {..<k}"
    using multi.init [of n] multi.first_n [of n "multi_init n" k] assms(1) by auto
  then show ?thesis using multi.apply_ops_refine [OF b(1) assms(2)] assms(3) by auto
qed

theorem multi_bitmap_refines_witness:
  "\<exists>b. apply_ops multi_set_bit multi_clr_bit multi_set_bit_popcnt multi_clr_bit_popcnt [SetCount 70, Clr 0]
        (multi_set_first_n_bits 2 (multi_init 100)) = ([Some 3, None], b) \<and> multi_test_bit b 70"
proof -
  have low: "{..<2 :: nat} = {0, 1}" by auto
  have "set_ops [SetCount 70, Clr 0] {..<2} = Some {1, 70}"
    "set_counts [SetCount 70, Clr 0] {..<2} = [Some 3, None]"
    unfolding low by auto
  then show ?thesis
    using multi_bitmap_refines [of 2 100 "[SetCount 70, Clr 0]" "{1, 70}"] by (auto simp del: apply_ops.simps)
qed

text \<open>
  for at most 64 threads the two builds agree: the single-word class returns the same counts as
  the array of words, and ends with the same bits and the same \<open>popcnt\<close>.
\<close>

lemma word_bitmap_agrees:
  assumes "n \<le> 64" and "k \<le> n" and "\<forall>x \<in> set xs. op_bit x < n" and "set_ops xs {..<k} \<noteq> None"
  shows "\<exists>rs w b. apply_ops word_set_bit word_clr_bit word_set_bit_popcnt word_clr_bit_popcnt xs
        (word_set_first_n_bits k (word_init n)) = (rs, w)
      \<and> apply_ops multi_set_bit multi_clr_bit multi_set_bit_popcnt multi_clr_bit_popcnt xs
        (multi_set_first_n_bits k (multi_init n)) = (rs, b)
      \<and> word_popcnt w = multi_popcnt b \<and> (\<forall>i < n. word_test_bit w i = multi_test_bit b i)"
proof -
  obtain s where s: "set_ops xs {..<k} = Some s" using assms(4) by blast
  let ?w = "word_set_first_n_bits k (word_init n)" and ?b = "multi_set_first_n_bits k (multi_init n)"
  have w: "word_inv n ?w" "bits ?w = {..<k}"
    using single.init [OF assms(1)] single.first_n [of n "word_init n" k] assms(2) by auto
  have b: "multi_inv n ?b" "multi_mem ?b = {..<k}"
    using multi.init [of n] multi.first_n [of n "multi_init n" k] assms(2) by auto
  show ?thesis
    using single.apply_ops_refine [OF w(1) assms(3), unfolded w(2), OF s]
      multi.apply_ops_refine [OF b(1) assms(3), unfolded b(2), OF s] by auto
qed

theorem word_bitmap_agrees_witness:
  "\<exists>rs w b. apply_ops word_set_bit word_clr_bit word_set_bit_popcnt word_clr_bit_popcnt [SetCount 5]
        (word_set_first_n_bits 2 (word_init 8)) = (rs, w)
      \<and> apply_ops multi_set_bit multi_clr_bit multi_set_bit_popcnt multi_clr_bit_popcnt [SetCount 5]
        (multi_set_first_n_bits 2 (multi_init 8)) = (rs, b)"
  using word_bitmap_agrees [of 8 2 "[SetCount 5]"] by auto

end
