(* ===== verification/WaiterList.thy ===== *)
theory WaiterList
  imports BitManip
begin

text \<open>
  The waiter list (\<open>src/include/tmc/detail/waiter_list.hpp\<close>, \<open>waiter_list.ipp\<close>) on an explicit heap of
  nodes: the two stacks linked through \<open>next\<close>, the packed word of count and waiters, and the calls run
  without interference.  Posting to an executor appends to a log.  \<open>None\<close> is a null dereference or a
  loop that does not end.  Theory \<open>SyncSteps\<close> takes up the same code step by step, interleaved.
\<close>

section \<open>The packed word\<close>

definition WAITERS_OFFSET :: nat where
  "WAITERS_OFFSET = TMC_PLATFORM_BITS div 2"

definition HALF_MASK :: size_t where
  "HALF_MASK = push_bit (TMC_PLATFORM_BITS div 2) TMC_ONE_BIT - 1"

definition unpack_value :: "size_t \<Rightarrow> u32 \<times> size_t" where
  "unpack_value Value = (ucast (Value AND HALF_MASK), drop_bit WAITERS_OFFSET Value AND HALF_MASK)"

definition pack_value :: "u32 \<Rightarrow> size_t \<Rightarrow> size_t" where
  "pack_value Count WaiterCount = push_bit WAITERS_OFFSET WaiterCount OR ucast Count"

text \<open>The two halves as numbers.\<close>

definition count_of :: "size_t \<Rightarrow> nat" where
  "count_of v = unat v mod 2 ^ 32"

definition waiters_of :: "size_t \<Rightarrow> nat" where
  "waiters_of v = unat v div 2 ^ 32"

lemma half_mask: "HALF_MASK = mask 32"
  by (simp add: HALF_MASK_def mask_eq_exp_minus_1)

lemma unat_64: "unat (v :: size_t) < 2 ^ 64"
  using unsigned_less [of v] by simp

lemma unat_32: "unat (c :: u32) < 2 ^ 32"
  using unsigned_less [of c] by simp

lemma waiters_of_less: "waiters_of v < 2 ^ 32"
proof -
  have "unat v < 2 ^ 32 * 2 ^ 32" using unat_64 [of v] by simp
  then show ?thesis unfolding waiters_of_def by (rule less_mult_imp_div_less)
qed

lemma count_of_less: "count_of v < 2 ^ 32"
  by (simp add: count_of_def)

lemma halves_eq: "unat v = waiters_of v * 2 ^ 32 + count_of v"
  unfolding waiters_of_def count_of_def by simp

lemma halves_unique:
  assumes "unat v = w * 2 ^ 32 + c" and "c < 2 ^ 32"
  shows "count_of v = c" and "waiters_of v = w"
  unfolding waiters_of_def count_of_def assms(1) using assms(2) by simp_all

lemma halves_inject:
  assumes "count_of v = count_of v'" and "waiters_of v = waiters_of v'"
  shows "v = v'"
proof -
  have "unat v = unat v'" unfolding halves_eq [of v] halves_eq [of v'] assms ..
  then show ?thesis by (rule unsigned_word_eqI)
qed

lemma offset: "WAITERS_OFFSET = 32"
  by (simp add: WAITERS_OFFSET_def)

lemma unat_low_half: "unat (v AND HALF_MASK) = unat v mod 2 ^ 32"
proof -
  have "v AND HALF_MASK = take_bit 32 v" by (simp only: half_mask take_bit_eq_mask)
  also have "unat (take_bit 32 v) = take_bit 32 (unat v)" by (rule unsigned_take_bit_eq)
  also have "\<dots> = unat v mod 2 ^ 32" by (rule take_bit_eq_mod)
  finally show ?thesis .
qed

lemma unpack_count: "unat (fst (unpack_value v)) = count_of v"
proof -
  have "unat (ucast (v AND HALF_MASK) :: u32) = take_bit LENGTH(32) (unat (v AND HALF_MASK))"
    by (rule unsigned_ucast_eq)
  also have "\<dots> = unat v mod 2 ^ 32" unfolding unat_low_half by (simp add: take_bit_eq_mod)
  finally show ?thesis by (simp only: unpack_value_def fst_conv count_of_def)
qed

lemma unat_high_half: "unat (drop_bit 32 v) = waiters_of v" for v :: size_t
proof -
  have "unat (drop_bit 32 v) = drop_bit 32 (take_bit LENGTH(64) (unat v))" by (rule unsigned_drop_bit_eq)
  also have "take_bit LENGTH(64) (unat v) = unat v" using unat_64 [of v] by (simp add: take_bit_nat_eq_self)
  also have "drop_bit 32 (unat v) = waiters_of v" by (simp add: waiters_of_def drop_bit_eq_div)
  finally show ?thesis .
qed

lemma unpack_waiters: "unat (snd (unpack_value v)) = waiters_of v"
proof -
  have "unat (drop_bit 32 v AND HALF_MASK) = waiters_of v"
    unfolding unat_low_half unat_high_half using waiters_of_less [of v] by simp
  then show ?thesis by (simp only: unpack_value_def snd_conv offset)
qed

lemma unat_shifted:
  assumes "unat w < 2 ^ 32"
  shows "unat (push_bit 32 (w :: size_t)) = unat w * 2 ^ 32"
proof -
  have "unat (push_bit 32 w) = take_bit LENGTH(64) (push_bit 32 (unat w))" by (rule unsigned_push_bit_eq)
  also have "push_bit 32 (unat w) = unat w * 2 ^ 32" by (rule push_bit_eq_mult)
  also have "take_bit LENGTH(64) (unat w * 2 ^ 32) = unat w * 2 ^ 32"
    using assms by (simp add: take_bit_nat_eq_self)
  finally show ?thesis .
qed

lemma unat_plus_fits: "unat v + unat w < 2 ^ 64 \<Longrightarrow> unat (v + w) = unat v + unat w" for v w :: size_t
  by (simp add: unat_word_ariths)

lemma pack_unat:
  assumes "unat w < 2 ^ 32"
  shows "unat (pack_value c w) = unat w * 2 ^ 32 + unat c"
proof -
  have "unat (ucast c :: size_t) = take_bit LENGTH(64) (unat c)" by (rule unsigned_ucast_eq)
  also have "\<dots> = unat c" using unat_32 [of c] by (simp add: take_bit_nat_eq_self)
  finally have c: "unat (ucast c :: size_t) = unat c" .
  have "push_bit 32 w AND ucast c = 0"
  proof (rule bit_eqI)
    fix n
    show "bit (push_bit 32 w AND ucast c) n = bit 0 n"
      using bit_imp_le_length [of c n] by (auto simp: bit_and_iff bit_push_bit_iff bit_ucast_iff)
  qed
  then have "pack_value c w = push_bit 32 w + ucast c"
    by (simp only: pack_value_def offset disjunctive_add_eq_or)
  moreover have "unat w * 2 ^ 32 + unat c < 2 ^ 64" using assms unat_32 [of c] by simp
  ultimately show ?thesis
    using unat_plus_fits [of "push_bit 32 w" "ucast c"] unfolding unat_shifted [OF assms] c by simp
qed

lemma pack_halves [word_facts]:
  assumes "unat w < 2 ^ 32"
  shows "count_of (pack_value c w) = unat c" and "waiters_of (pack_value c w) = unat w"
  using halves_unique [OF pack_unat [OF assms] unat_32] by blast+

text \<open>Adding to one half leaves the other alone as long as the sum fits.\<close>

definition one_waiter :: size_t where
  "one_waiter = push_bit WAITERS_OFFSET TMC_ONE_BIT"

lemma add_waiter [word_facts]:
  assumes "waiters_of v + 1 < 2 ^ 32"
  shows "waiters_of (one_waiter + v) = waiters_of v + 1" and "count_of (one_waiter + v) = count_of v"
proof -
  have one: "unat one_waiter = 2 ^ 32"
    unfolding one_waiter_def offset using unat_shifted [of 1] by simp
  have "2 ^ 32 + unat v < 2 ^ 64"
    using assms count_of_less [of v] unfolding halves_eq [of v] by simp
  then have "unat (one_waiter + v) = (waiters_of v + 1) * 2 ^ 32 + count_of v"
    using unat_plus_fits [of one_waiter v] unfolding one halves_eq [of v] by simp
  from halves_unique [OF this count_of_less]
  show "waiters_of (one_waiter + v) = waiters_of v + 1" "count_of (one_waiter + v) = count_of v" by simp_all
qed

lemma add_count [word_facts]:
  assumes "count_of v + unat k < 2 ^ 32"
  shows "count_of (k + v) = count_of v + unat k" and "waiters_of (k + v) = waiters_of v"
proof -
  have "unat k + unat v < 2 ^ 64"
    using assms waiters_of_less [of v] unfolding halves_eq [of v] by simp
  then have "unat (k + v) = waiters_of v * 2 ^ 32 + (count_of v + unat k)"
    using unat_plus_fits [of k v] unfolding halves_eq [of v] by simp
  from halves_unique [OF this assms]
  show "count_of (k + v) = count_of v + unat k" "waiters_of (k + v) = waiters_of v" by simp_all
qed

lemma or_one: "count_of v = 0 \<Longrightarrow> v OR 1 = 1 + v"
proof -
  assume "count_of v = 0"
  then have "unat v = waiters_of v * 2 ^ 32" using halves_eq [of v] by simp
  then have "\<not> bit (unat v) 0" by (simp add: bit_0)
  then have "\<not> bit v 0" by (simp add: bit_unsigned_iff)
  then have "v AND 1 = 0" by (intro bit_eqI) (auto simp: bit_and_iff bit_1_iff intro!: gr0I)
  then show ?thesis using disjunctive_add_eq_or [of v 1] by (simp only: add.commute)
qed


section \<open>Nodes and lists\<close>

text \<open>Executors and coroutine handles are opaque names; a node is named by its address.\<close>

record waiter_list_node =
  nxt :: "nat option"
  continuation :: nat
  continuation_executor :: nat
  continuation_priority :: nat

record waiter_data =
  nodes :: "nat \<Rightarrow> waiter_list_node"
  in_stack :: "nat option"
  out_list :: "nat option"
  vword :: size_t
  posts :: "(nat \<times> nat \<times> nat list) list"

definition set_next :: "nat \<Rightarrow> nat option \<Rightarrow> waiter_data \<Rightarrow> waiter_data" where
  "set_next n p s = s\<lparr>nodes := (nodes s)(n := (nodes s n)\<lparr>nxt := p\<rparr>)\<rparr>"

text \<open>\<open>this_thread\<close>: the executor and the priority of the calling thread.\<close>

type_synonym this_thread = "nat \<times> nat"

definition exec_prio_is :: "this_thread \<Rightarrow> nat \<Rightarrow> nat \<Rightarrow> bool" where
  "exec_prio_is t ex prio \<longleftrightarrow> t = (ex, prio)"

definition post :: "nat \<Rightarrow> nat \<Rightarrow> nat list \<Rightarrow> waiter_data \<Rightarrow> waiter_data" where
  "post ex prio items s = s\<lparr>posts := posts s @ [(ex, prio, items)]\<rparr>"

definition resume :: "nat \<Rightarrow> waiter_data \<Rightarrow> waiter_data" where
  "resume n s =
    post (continuation_executor (nodes s n)) (continuation_priority (nodes s n)) [continuation (nodes s n)] s"

text \<open>Without interference the exchange of \<open>input\<close> succeeds at the first attempt.\<close>

definition configure_and_add_waiter :: "this_thread \<Rightarrow> nat \<Rightarrow> nat \<Rightarrow> waiter_data \<Rightarrow> waiter_data" where
  "configure_and_add_waiter t n Outer s =
    (let h = in_stack s
     in s\<lparr>nodes := (nodes s)(n := \<lparr>nxt = h, continuation = Outer, continuation_executor = fst t,
                                   continuation_priority = snd t\<rparr>),
         in_stack := Some n\<rparr>)"

partial_function (option) reverse_loop ::
  "nat option \<Rightarrow> nat option \<Rightarrow> waiter_data \<Rightarrow> (nat option \<times> waiter_data) option" where
  "reverse_loop cur prev s =
    (case cur of None \<Rightarrow> Some (prev, s)
     | Some c \<Rightarrow> reverse_loop (nxt (nodes s c)) (Some c) (set_next c prev s))"

definition reverse_chain :: "nat option \<Rightarrow> waiter_data \<Rightarrow> (nat option \<times> waiter_data) option" where
  "reverse_chain cur s = reverse_loop cur None s"

definition must_take_1 :: "waiter_data \<Rightarrow> (nat \<times> waiter_data) option" where
  "must_take_1 s =
    Option.bind
      (if out_list s = None
       then let chain = in_stack s
            in map_option (\<lambda>(p, s). s\<lparr>out_list := p\<rparr>) (reverse_chain chain (s\<lparr>in_stack := None\<rparr>))
       else Some s)
      (\<lambda>s. case out_list s of None \<Rightarrow> None
          | Some toWake \<Rightarrow> Some (toWake, s\<lparr>out_list := nxt (nodes s toWake)\<rparr>))"

partial_function (option) last_loop :: "nat \<Rightarrow> waiter_data \<Rightarrow> nat option" where
  "last_loop tail s = (case nxt (nodes s tail) of None \<Rightarrow> Some tail | Some n \<Rightarrow> last_loop n s)"

definition take_all :: "waiter_data \<Rightarrow> (nat option \<times> waiter_data) option" where
  "take_all s =
    (let inp = in_stack s; s = s\<lparr>in_stack := None\<rparr>
     in case out_list s of None \<Rightarrow> Some (inp, s)
        | Some result \<Rightarrow>
            map_option (\<lambda>tail. (Some result, (set_next tail inp s)\<lparr>out_list := None\<rparr>)) (last_loop result s))"

partial_function (option) length_loop :: "nat option \<Rightarrow> nat \<Rightarrow> waiter_data \<Rightarrow> nat option" where
  "length_loop cur cnt s =
    (case cur of None \<Rightarrow> Some cnt | Some c \<Rightarrow> length_loop (nxt (nodes s c)) (cnt + 1) s)"

definition size_waiters :: "waiter_data \<Rightarrow> nat option" where
  "size_waiters s = Option.bind (length_loop (out_list s) 0 s) (\<lambda>c. length_loop (in_stack s) c s)"

section \<open>Waking in batches\<close>

text \<open>The loop of \<open>wake_waiters_in_batches\<close>: the batch in progress with its executor and priority.\<close>

partial_function (option) batch_loop ::
  "nat option \<Rightarrow> nat list \<Rightarrow> nat \<Rightarrow> nat \<Rightarrow> nat \<Rightarrow> waiter_data \<Rightarrow> (nat \<times> waiter_data) option" where
  "batch_loop Curr batch ex prio wakeCount s =
    (case Curr of
       None \<Rightarrow> Some (wakeCount, if batch \<noteq> [] then post ex prio batch s else s)
     | Some c \<Rightarrow>
         let w = nodes s c;
             flush = (batch \<noteq> [] \<and> (continuation_executor w \<noteq> ex \<or> continuation_priority w \<noteq> prio));
             s = (if flush then post ex prio batch s else s);
             batch = (if flush then [] else batch);
             (ex, prio) = (if batch = [] then (continuation_executor w, continuation_priority w) else (ex, prio));
             batch = batch @ [continuation w];
             full = (length batch = 64)
         in batch_loop (nxt w) (if full then [] else batch) ex prio (wakeCount + 1)
              (if full then post ex prio batch s else s))"

definition wake_waiters_in_batches :: "nat option \<Rightarrow> waiter_data \<Rightarrow> (nat \<times> waiter_data) option" where
  "wake_waiters_in_batches Curr s = batch_loop Curr [] 0 0 0 s"

definition wake_all :: "waiter_data \<Rightarrow> waiter_data option" where
  "wake_all s = Option.bind (take_all s) (\<lambda>(c, s). map_option snd (wake_waiters_in_batches c s))"

section \<open>\<open>maybe_wake\<close>\<close>

text \<open>
  Taking \<open>n\<close> waiters: \<open>tail\<close> is \<open>None\<close> while the chain is empty (\<open>wakeTail\<close> points to the dummy
  \<open>wakeHead\<close>), \<open>hd\<close> is \<open>wakeHead.next\<close>.
\<close>

fun take_loop ::
  "nat \<Rightarrow> nat option \<Rightarrow> nat option \<Rightarrow> waiter_data \<Rightarrow> (nat option \<times> nat option \<times> waiter_data) option" where
  "take_loop 0 h tail s = Some (h, tail, s)"
| "take_loop (Suc n) h tail s =
    Option.bind (must_take_1 s) (\<lambda>(toWake, s).
      case tail of
        None \<Rightarrow> take_loop n (Some toWake) (Some toWake) s
      | Some t \<Rightarrow> take_loop n h (Some toWake) (set_next t (Some toWake) s))"

text \<open>
  One round takes \<open>min count waiters\<close> and subtracts it from both halves; a failed exchange
  reloads the word and subtracts from what it then holds.
\<close>

definition wake_count :: "size_t \<Rightarrow> size_t" where
  "wake_count v = (let (cnt, waiterCount) = unpack_value v
     in if ucast cnt < waiterCount then ucast cnt else waiterCount)"

definition minus_both :: "size_t \<Rightarrow> size_t \<Rightarrow> size_t" where
  "minus_both v wakeCount = (let (cnt, waiterCount) = unpack_value v
     in pack_value (cnt - ucast wakeCount) (waiterCount - wakeCount))"

partial_function (option) wake_rounds ::
  "size_t \<Rightarrow> nat \<Rightarrow> nat option \<Rightarrow> nat option \<Rightarrow> waiter_data \<Rightarrow> (nat \<times> nat option \<times> waiter_data) option" where
  "wake_rounds v totalWake h tail s =
    (if wake_count v = 0 then Some (totalWake, h, s)
     else
       Option.bind (take_loop (unat (wake_count v)) h tail s) (\<lambda>(h, tail, s).
         let newV = minus_both v (wake_count v);
             newV = (if vword s = v then newV else minus_both (vword s) (wake_count v))
         in wake_rounds newV (totalWake + unat (wake_count v)) h tail (s\<lparr>vword := newV\<rparr>)))"

fun resume_loop :: "nat \<Rightarrow> nat option \<Rightarrow> waiter_data \<Rightarrow> waiter_data option" where
  "resume_loop 0 toWake s = Some s"
| "resume_loop (Suc n) toWake s =
    (case toWake of None \<Rightarrow> None
     | Some w \<Rightarrow> let next = nxt (nodes s w) in resume_loop n next (resume w s))"

definition maybe_wake ::
  "size_t \<Rightarrow> size_t \<Rightarrow> bool \<Rightarrow> waiter_data \<Rightarrow> (nat option \<times> waiter_data) option" where
  "maybe_wake v old symmetric s =
    (let (oldCount, oldWaiterCount) = unpack_value old
     in if (oldCount = 0) = (oldWaiterCount = 0) then Some (None, s)
        else
          Option.bind (wake_rounds v 0 None None s) (\<lambda>(totalWake, h, s).
            if totalWake = 0 then Some (None, s)
            else if symmetric
            then (case h of None \<Rightarrow> None
                  | Some w \<Rightarrow> map_option (Pair (Some w)) (resume_loop (totalWake - 1) (nxt (nodes s w)) s))
            else map_option (Pair None) (resume_loop totalWake h s)))"

section \<open>The operations of the awaitables\<close>

text \<open>\<open>try_acquire\<close>: the exchange succeeds at the first attempt.\<close>

definition try_acquire :: "waiter_data \<Rightarrow> bool \<times> waiter_data" where
  "try_acquire s =
    (let v = vword s; (cnt, waiterCount) = unpack_value v
     in if (ucast cnt :: size_t) \<le> waiterCount then (False, s)
        else (True, s\<lparr>vword := pack_value (cnt - 1) waiterCount\<rparr>))"

definition suspend :: "this_thread \<Rightarrow> nat \<Rightarrow> nat \<Rightarrow> waiter_data \<Rightarrow> waiter_data option" where
  "suspend t n Outer s =
    (let s = configure_and_add_waiter t n Outer s;
         add = push_bit WAITERS_OFFSET TMC_ONE_BIT; old = vword s; v = add + old
     in map_option snd (maybe_wake v old False (s\<lparr>vword := v\<rparr>)))"

text \<open>What the caller runs next is returned: itself or the waiter.\<close>

definition try_symmetric_transfer :: "this_thread \<Rightarrow> nat \<Rightarrow> nat \<Rightarrow> waiter_data \<Rightarrow> nat \<times> waiter_data" where
  "try_symmetric_transfer t n Outer s =
    (let w = nodes s n
     in if exec_prio_is t (continuation_executor w) (continuation_priority w)
        then (continuation w, post (continuation_executor w) (continuation_priority w) [Outer] s)
        else (Outer, resume n s))"

definition try_symmetric_transfer2 ::
  "this_thread \<Rightarrow> nat option \<Rightarrow> nat option \<Rightarrow> nat \<Rightarrow> nat \<Rightarrow> waiter_data \<Rightarrow> nat option \<times> waiter_data" where
  "try_symmetric_transfer2 t ToWake Continuation Executor Priority s =
    (case ToWake of
       Some n \<Rightarrow>
         let w = nodes s n
         in if exec_prio_is t (continuation_executor w) (continuation_priority w)
            then (Some (continuation w),
                  case Continuation of None \<Rightarrow> s | Some c \<Rightarrow> post Executor Priority [c] s)
            else
              let s = post (continuation_executor w) (continuation_priority w) [continuation w] s
              in (case Continuation of None \<Rightarrow> (None, s)
                  | Some c \<Rightarrow> if exec_prio_is t Executor Priority then (Some c, s)
                              else (None, post Executor Priority [c] s))
     | None \<Rightarrow>
         (case Continuation of None \<Rightarrow> (None, s)
          | Some c \<Rightarrow> if exec_prio_is t Executor Priority then (Some c, s)
                      else (None, post Executor Priority [c] s)))"


section \<open>Chains\<close>

fun chain :: "(nat \<Rightarrow> waiter_list_node) \<Rightarrow> nat option \<Rightarrow> nat list \<Rightarrow> bool" where
  "chain h p [] \<longleftrightarrow> p = None"
| "chain h p (x # xs) \<longleftrightarrow> p = Some x \<and> chain h (nxt (h x)) xs"

lemma chain_other: "\<forall>x \<in> set xs. h' x = h x \<Longrightarrow> chain h' p xs = chain h p xs"
  by (induction xs arbitrary: p) auto

lemma chain_set_next [simp]: "n \<notin> set xs \<Longrightarrow> chain (nodes (set_next n p s)) q xs = chain (nodes s) q xs"
  by (rule chain_other) (auto simp: set_next_def)

lemma set_next_sel [simp]:
  "nxt (nodes (set_next n p s) m) = (if m = n then p else nxt (nodes s m))"
  "in_stack (set_next n p s) = in_stack s" "out_list (set_next n p s) = out_list s"
  "vword (set_next n p s) = vword s" "posts (set_next n p s) = posts s"
  "continuation (nodes (set_next n p s) m) = continuation (nodes s m)"
  "continuation_executor (nodes (set_next n p s) m) = continuation_executor (nodes s m)"
  "continuation_priority (nodes (set_next n p s) m) = continuation_priority (nodes s m)"
  by (auto simp: set_next_def)

text \<open>\<open>s'\<close> differs from \<open>s\<close> only in the links of the nodes in \<open>A\<close> and in the two heads.\<close>

definition relinked :: "nat set \<Rightarrow> waiter_data \<Rightarrow> waiter_data \<Rightarrow> bool" where
  "relinked A s s' \<longleftrightarrow> vword s' = vword s \<and> posts s' = posts s \<and> (\<forall>m. m \<notin> A \<longrightarrow> nodes s' m = nodes s m)
     \<and> (\<forall>m. continuation (nodes s' m) = continuation (nodes s m)
          \<and> continuation_executor (nodes s' m) = continuation_executor (nodes s m)
          \<and> continuation_priority (nodes s' m) = continuation_priority (nodes s m))"

lemma relinked_refl: "relinked A s s"
  by (simp add: relinked_def)

lemma relinked_trans: "relinked A s s' \<Longrightarrow> relinked A s' s'' \<Longrightarrow> relinked A s s''"
  by (simp add: relinked_def)

lemma relinked_mono: "relinked A s s' \<Longrightarrow> A \<subseteq> B \<Longrightarrow> relinked B s s'"
  by (auto simp: relinked_def)

lemma relinked_set_next: "n \<in> A \<Longrightarrow> relinked A s (set_next n p s)"
  unfolding relinked_def set_next_def by auto

lemma reverse_loop_chain:
  assumes "chain (nodes s) cur xs" and "chain (nodes s) prev ys" and "distinct (xs @ ys)"
  shows "\<exists>p s'. reverse_loop cur prev s = Some (p, s') \<and> chain (nodes s') p (rev xs @ ys)
      \<and> relinked (set xs) s s' \<and> in_stack s' = in_stack s \<and> out_list s' = out_list s"
  using assms
proof (induction xs arbitrary: cur prev ys s)
  case Nil
  then show ?case by (subst reverse_loop.simps) (simp add: relinked_refl)
next
  case (Cons x xs)
  let ?s = "set_next x prev s"
  have c: "cur = Some x" "chain (nodes s) (nxt (nodes s x)) xs" using Cons.prems(1) by auto
  have "chain (nodes ?s) (nxt (nodes s x)) xs" "chain (nodes ?s) (Some x) (x # ys)" "distinct (xs @ x # ys)"
    using c(2) Cons.prems(2,3) by auto
  from Cons.IH [OF this] obtain p s' where r: "reverse_loop (nxt (nodes s x)) (Some x) ?s = Some (p, s')"
    "chain (nodes s') p (rev xs @ x # ys)" "relinked (set xs) ?s s'" "in_stack s' = in_stack ?s"
    "out_list s' = out_list ?s" by blast
  have "relinked (set (x # xs)) s s'"
    using relinked_trans [OF relinked_set_next relinked_mono [OF r(3)]] by auto
  then show ?case using r c(1) by (subst reverse_loop.simps) simp
qed

section \<open>The queue\<close>

text \<open>The waiters in the order in which they are taken: \<open>output\<close>, then the reversed \<open>input\<close>.\<close>

definition queued :: "waiter_data \<Rightarrow> nat list \<Rightarrow> bool" where
  "queued s q \<longleftrightarrow> (\<exists>outs ins. chain (nodes s) (out_list s) outs \<and> chain (nodes s) (in_stack s) ins
     \<and> q = outs @ rev ins \<and> distinct q)"

lemma queued_intro:
  "chain (nodes s) (out_list s) outs \<Longrightarrow> chain (nodes s) (in_stack s) ins \<Longrightarrow> q = outs @ rev ins \<Longrightarrow> distinct q
    \<Longrightarrow> queued s q"
  by (auto simp: queued_def)

text \<open>
  What taking waiters relies on: a first-in first-out queue of nodes, whose \<open>next\<close> fields may be written
  once a node has left it.  \<open>frame A\<close>: only nodes in \<open>A\<close> were touched.
\<close>

locale waiter_queue =
  fixes rep :: "'s \<Rightarrow> 'a list \<Rightarrow> bool" and frame :: "'a set \<Rightarrow> 's \<Rightarrow> 's \<Rightarrow> bool"
    and take1 :: "'s \<Rightarrow> ('a \<times> 's) option" and len :: "'s \<Rightarrow> nat option"
    and link :: "'a \<Rightarrow> 'a \<Rightarrow> 's \<Rightarrow> 's" and linked :: "'s \<Rightarrow> 'a \<Rightarrow> 'a \<Rightarrow> bool"
  assumes take1: "rep s (x # q) \<Longrightarrow> \<exists>s'. take1 s = Some (x, s') \<and> rep s' q \<and> frame (set (x # q)) s s'"
    and take1_empty: "rep s [] \<Longrightarrow> take1 s = None"
    and len: "rep s q \<Longrightarrow> len s = Some (length q)"
    and distinct: "rep s q \<Longrightarrow> distinct q"
    and frame_trans: "frame A s s' \<Longrightarrow> frame A s' s'' \<Longrightarrow> frame A s s''"
    and frame_mono: "frame A s s' \<Longrightarrow> A \<subseteq> B \<Longrightarrow> frame B s s'"
    and frame_refl: "frame A s s"
    and link_rep: "rep s q \<Longrightarrow> t \<notin> set q \<Longrightarrow> rep (link t x s) q"
    and link_frame: "frame {t} s (link t x s)"
    and link_linked: "linked (link t x s) t x"
    and linked_frame: "linked s t x \<Longrightarrow> frame A s s' \<Longrightarrow> t \<notin> A \<Longrightarrow> linked s' t x"

fun take_linked ::
  "('s \<Rightarrow> ('a \<times> 's) option) \<Rightarrow> ('a \<Rightarrow> 'a \<Rightarrow> 's \<Rightarrow> 's) \<Rightarrow> nat \<Rightarrow> 'a option \<Rightarrow> 'a option \<Rightarrow> 's
    \<Rightarrow> ('a option \<times> 'a option \<times> 's) option" where
  "take_linked f lnk 0 h tail s = Some (h, tail, s)"
| "take_linked f lnk (Suc n) h tail s =
    Option.bind (f s) (\<lambda>(x, s).
      case tail of
        None \<Rightarrow> take_linked f lnk n (Some x) (Some x) s
      | Some t \<Rightarrow> take_linked f lnk n h (Some x) (lnk t x s))"

lemma successively_but_last:
  "successively R xs \<Longrightarrow> distinct xs \<Longrightarrow> (\<And>a b. R a b \<Longrightarrow> a \<in> set xs \<Longrightarrow> a \<noteq> last xs \<Longrightarrow> R' a b)
    \<Longrightarrow> successively R' xs"
proof (induction xs)
  case (Cons x xs)
  show ?case
  proof (cases xs)
    case (Cons y ys)
    have "successively R' xs"
    proof (rule Cons.IH)
      show "R' a b" if "R a b" "a \<in> set xs" "a \<noteq> last xs" for a b
        using Cons.prems(3) [of a b] that \<open>xs = y # ys\<close> by simp
    qed (use Cons.prems \<open>xs = y # ys\<close> in simp_all)
    moreover have "x \<noteq> last xs" using Cons.prems(2) \<open>xs = y # ys\<close> by auto
    ultimately show ?thesis using Cons.prems(1,3) \<open>xs = y # ys\<close> by simp
  qed simp
qed simp

context waiter_queue
begin

lemma take_linked_more:
  assumes "rep s q" "n \<le> length q" "xs \<noteq> []" "distinct xs" "set xs \<inter> set q = {}" "successively (linked s) xs"
  shows "\<exists>s'. take_linked take1 link n h (Some (last xs)) s = Some (h, Some (last (xs @ take n q)), s')
    \<and> successively (linked s') (xs @ take n q) \<and> rep s' (drop n q) \<and> frame (set xs \<union> set q) s s'"
  using assms
proof (induction n arbitrary: s q xs)
  case 0
  then show ?case using frame_refl by simp
next
  case (Suc n)
  then obtain x q' where q: "q = x # q'" by (cases q) auto
  then obtain s1 where s1: "take1 s = Some (x, s1)" "rep s1 q'" "frame (set q) s s1"
    using take1 Suc.prems(1) by blast
  let ?t = "last xs" and ?s = "link (last xs) x s1"
  have t: "?t \<in> set xs" using Suc.prems(3) by simp
  have x: "x \<notin> set q'" "x \<notin> set xs" using distinct [OF Suc.prems(1)] Suc.prems(5) q by auto
  have "successively (linked ?s) xs"
  proof (rule successively_but_last [OF Suc.prems(6,4)])
    fix a b assume a: "linked s a b" "a \<in> set xs" "a \<noteq> ?t"
    have "linked s1 a b" using linked_frame [OF a(1) s1(3)] a(2) Suc.prems(5) by blast
    then show "linked ?s a b" using linked_frame [OF _ link_frame] a(3) by simp
  qed
  then have "successively (linked ?s) (xs @ [x])"
    using link_linked Suc.prems(3) by (simp add: successively_append_iff)
  moreover have "rep ?s q'" using link_rep [OF s1(2)] t Suc.prems(5) q by auto
  ultimately obtain s' where s': "take_linked take1 link n h (Some (last (xs @ [x]))) ?s
      = Some (h, Some (last ((xs @ [x]) @ take n q')), s')"
    "successively (linked s') ((xs @ [x]) @ take n q')" "rep s' (drop n q')"
    "frame (set (xs @ [x]) \<union> set q') ?s s'"
    using Suc.IH [of ?s q' "xs @ [x]"] Suc.prems q x by auto
  let ?A = "set xs \<union> set q"
  have "frame ?A s s1" "frame ?A s1 ?s" "frame ?A ?s s'"
    by (rule frame_mono [OF s1(3)] frame_mono [OF link_frame] frame_mono [OF s'(4)]; use t q in auto)+
  then have "frame ?A s s'" using frame_trans by blast
  then show ?case using s1(1) s' q by simp
qed

theorem take_linked_takes:
  assumes "rep s q" and "n \<le> length q" and "0 < n"
  shows "\<exists>t s'. take_linked take1 link n h None s = Some (Some (hd q), t, s')
    \<and> successively (linked s') (take n q) \<and> rep s' (drop n q) \<and> frame (set q) s s'"
proof -
  obtain m where n: "n = Suc m" using assms(3) by (cases n) auto
  obtain x q' where q: "q = x # q'" using assms(2) n by (cases q) auto
  obtain s1 where s1: "take1 s = Some (x, s1)" "rep s1 q'" "frame (set q) s s1"
    using take1 assms(1) q by blast
  have "x \<notin> set q'" using distinct [OF assms(1)] q by simp
  then obtain s' where s': "take_linked take1 link m (Some x) (Some (last [x])) s1
      = Some (Some x, Some (last ([x] @ take m q')), s')"
    "successively (linked s') ([x] @ take m q')" "rep s' (drop m q')" "frame (set [x] \<union> set q') s1 s'"
    using take_linked_more [OF s1(2), of m "[x]" "Some x"] assms(2) n q by auto
  have "frame (set q) s s'" using frame_trans [OF s1(3) frame_mono [OF s'(4)]] q by simp
  then show ?thesis using s1(1) s' n q by simp
qed

end

lemma must_take_1_queue:
  assumes "queued s (x # q)"
  shows "\<exists>s'. must_take_1 s = Some (x, s') \<and> queued s' q \<and> relinked (set (x # q)) s s'"
proof -
  obtain outs ins where q: "chain (nodes s) (out_list s) outs" "chain (nodes s) (in_stack s) ins"
    "x # q = outs @ rev ins" "distinct (x # q)" using assms unfolding queued_def by blast
  show ?thesis
  proof (cases outs)
    case (Cons y ys)
    then have o: "out_list s = Some x" "chain (nodes s) (nxt (nodes s x)) ys" "q = ys @ rev ins"
      using q(1,3) by auto
    let ?s = "s\<lparr>out_list := nxt (nodes s x)\<rparr>"
    have "queued ?s q" using o q(2,4) by (auto simp: queued_def)
    moreover have "relinked (set (x # q)) s ?s" by (simp add: relinked_def)
    ultimately show ?thesis using o(1) by (simp add: must_take_1_def)
  next
    case Nil
    then have o: "out_list s = None" using q(1) by simp
    let ?s = "s\<lparr>in_stack := None\<rparr>"
    have ins: "chain (nodes ?s) (in_stack s) ins" "rev ins = x # q" using q(2,3) Nil by simp_all
    moreover have "distinct ins" using q(4) ins(2) by (metis distinct_rev)
    ultimately obtain p s' where r: "reverse_loop (in_stack s) None ?s = Some (p, s')"
      "chain (nodes s') p (rev ins @ [])" "relinked (set ins) ?s s'" "in_stack s' = None" "out_list s' = None"
      using reverse_loop_chain [of ?s "in_stack s" ins None "[]"] o by auto
    let ?s' = "s'\<lparr>out_list := nxt (nodes s' x)\<rparr>"
    have p: "p = Some x" "chain (nodes s') (nxt (nodes s' x)) q" using r(2) ins(2) by auto
    have "queued ?s' q" using p(2) r(4) q(4) by (intro queued_intro [of _ q "[]"]) auto
    moreover have "set ins = set (x # q)" using ins(2) by (metis set_rev)
    then have "relinked (set (x # q)) s ?s'" using r(3) by (simp add: relinked_def)
    ultimately show ?thesis using o r(1) p(1) by (simp add: must_take_1_def reverse_chain_def Let_def)
  qed
qed

lemma must_take_1_empty: "queued s [] \<Longrightarrow> must_take_1 s = None"
  by (auto simp: queued_def must_take_1_def reverse_chain_def reverse_loop.simps)

lemma length_loop_chain: "chain (nodes s) p xs \<Longrightarrow> length_loop p c s = Some (c + length xs)"
  by (induction xs arbitrary: p c) (subst length_loop.simps; simp)+

definition link_next :: "nat \<Rightarrow> nat \<Rightarrow> waiter_data \<Rightarrow> waiter_data" where
  "link_next t x s = set_next t (Some x) s"

definition linked_next :: "waiter_data \<Rightarrow> nat \<Rightarrow> nat \<Rightarrow> bool" where
  "linked_next s t x \<longleftrightarrow> nxt (nodes s t) = Some x"

interpretation wq: waiter_queue queued relinked must_take_1 size_waiters link_next linked_next
proof
  show "queued s q \<Longrightarrow> t \<notin> set q \<Longrightarrow> queued (link_next t x s) q" for s q t x
    unfolding queued_def link_next_def by (elim exE conjE, intro exI conjI) auto
  show "relinked {t} s (link_next t x s)" for t s x by (simp add: link_next_def relinked_set_next)
  show "linked_next (link_next t x s) t x" for t x s by (simp add: linked_next_def link_next_def)
  show "linked_next s t x \<Longrightarrow> relinked A s s' \<Longrightarrow> t \<notin> A \<Longrightarrow> linked_next s' t x" for s t x A s'
    by (simp add: linked_next_def relinked_def)
  show "queued s q \<Longrightarrow> size_waiters s = Some (length q)" for s q
    by (auto simp: queued_def size_waiters_def length_loop_chain)
  show "queued s q \<Longrightarrow> distinct q" for s q by (auto simp: queued_def)
qed (fact must_take_1_queue must_take_1_empty relinked_trans relinked_mono relinked_refl)+

lemma add_waiter_queue:
  assumes "queued s q" and "n \<notin> set q"
  shows "queued (configure_and_add_waiter t n Outer s) (q @ [n])"
proof -
  obtain outs ins where q: "chain (nodes s) (out_list s) outs" "chain (nodes s) (in_stack s) ins"
    "q = outs @ rev ins" "distinct q" using assms(1) by (auto simp: queued_def)
  let ?s = "configure_and_add_waiter t n Outer s"
  have same: "\<forall>x \<in> set xs. nodes ?s x = nodes s x" if "n \<notin> set xs" for xs
    using that by (auto simp: configure_and_add_waiter_def Let_def)
  have n: "n \<notin> set outs" "n \<notin> set ins" using assms(2) q(3) by auto
  have "chain (nodes ?s) (out_list s) outs" "chain (nodes ?s) (in_stack s) ins"
    using chain_other [OF same [OF n(1)]] chain_other [OF same [OF n(2)]] q(1,2) by simp_all
  then have "chain (nodes ?s) (out_list ?s) outs" "chain (nodes ?s) (in_stack ?s) (n # ins)"
    by (simp_all add: configure_and_add_waiter_def Let_def)
  then show ?thesis using q(3,4) assms(2) by (intro queued_intro [of _ outs "n # ins"]) auto
qed


section \<open>Waking without interference\<close>

lemma take_loop_linked: "take_loop n h tail s = take_linked must_take_1 link_next n h tail s"
proof (induction n arbitrary: h tail s)
  case (Suc n)
  then show ?case by (simp add: fun_eq_iff link_next_def [symmetric] cong: option.case_cong)
qed simp

text \<open>What waking node \<open>n\<close> posts.\<close>

definition wake_post :: "waiter_data \<Rightarrow> nat \<Rightarrow> nat \<times> nat \<times> nat list" where
  "wake_post s n = (let w = nodes s n in (continuation_executor w, continuation_priority w, [continuation w]))"

lemma wake_post_vword [simp]: "wake_post (s\<lparr>vword := v\<rparr>) = wake_post s"
  by (rule ext) (simp add: wake_post_def)

lemma wake_post_relinked: "relinked A s s' \<Longrightarrow> wake_post s' = wake_post s"
  by (rule ext) (simp add: relinked_def wake_post_def Let_def)

lemma resume_sel [simp]:
  "nodes (resume n s) = nodes s" "in_stack (resume n s) = in_stack s" "out_list (resume n s) = out_list s"
  "vword (resume n s) = vword s" "posts (resume n s) = posts s @ [wake_post s n]"
  by (simp_all add: resume_def post_def wake_post_def Let_def)

lemma resume_loop_links:
  assumes "successively (linked_next s) xs"
  shows "\<exists>s'. resume_loop (length xs) (if xs = [] then p else Some (hd xs)) s = Some s'
    \<and> posts s' = posts s @ map (wake_post s) xs \<and> nodes s' = nodes s \<and> in_stack s' = in_stack s
    \<and> out_list s' = out_list s \<and> vword s' = vword s"
  using assms
proof (induction xs arbitrary: s p)
  case (Cons x xs)
  let ?s = "resume x s"
  have "linked_next ?s = linked_next s" by (simp add: linked_next_def fun_eq_iff)
  then have "successively (linked_next ?s) xs" using Cons.prems by (cases xs) auto
  from Cons.IH [OF this, of "nxt (nodes s x)"] obtain s' where s':
    "resume_loop (length xs) (if xs = [] then nxt (nodes s x) else Some (hd xs)) ?s = Some s'"
    "posts s' = posts ?s @ map (wake_post ?s) xs" "nodes s' = nodes ?s" "in_stack s' = in_stack ?s"
    "out_list s' = out_list ?s" "vword s' = vword ?s" by blast
  have "(if xs = [] then nxt (nodes s x) else Some (hd xs)) = nxt (nodes s x)"
    using Cons.prems by (cases xs) (auto simp: linked_next_def)
  moreover have "wake_post ?s = wake_post s" by (simp add: wake_post_def fun_eq_iff)
  ultimately show ?case using s' by simp
qed simp

lemma unat_wake_count [word_facts]: "unat (wake_count v) = min (count_of v) (waiters_of v)"
proof -
  obtain c w where u: "unpack_value v = (c, w)" by (cases "unpack_value v")
  have c: "unat c = count_of v" and w: "unat w = waiters_of v"
    using unpack_count [of v] unpack_waiters [of v] u by simp_all
  have "unat (ucast c :: size_t) = take_bit LENGTH(64) (unat c)" by (rule unsigned_ucast_eq)
  also have "\<dots> = count_of v" unfolding c using count_of_less [of v] by (simp add: take_bit_nat_eq_self)
  finally have "unat (ucast c :: size_t) = count_of v" .
  then show ?thesis by (simp add: wake_count_def u w word_less_nat_alt min_def)
qed

lemma unat_minus: "unat b \<le> unat a \<Longrightarrow> unat (a - b) = unat a - unat b" for a b :: "'a::len word"
  by (rule unat_sub) (simp add: word_le_nat_alt)

lemma minus_both_halves [word_facts]:
  assumes "unat k \<le> count_of v" and "unat k \<le> waiters_of v"
  shows "count_of (minus_both v k) = count_of v - unat k" "waiters_of (minus_both v k) = waiters_of v - unat k"
proof -
  obtain c w where u: "unpack_value v = (c, w)" by (cases "unpack_value v")
  have c: "unat c = count_of v" and w: "unat w = waiters_of v"
    using unpack_count [of v] unpack_waiters [of v] u by simp_all
  have "unat (ucast k :: u32) = take_bit LENGTH(32) (unat k)" by (rule unsigned_ucast_eq)
  also have "\<dots> = unat k" using assms(1) count_of_less [of v] by (simp add: take_bit_nat_eq_self)
  finally have k: "unat (ucast k :: u32) = unat k" .
  have c': "unat (c - ucast k) = count_of v - unat k" using unat_minus [of "ucast k" c] assms(1) k c by simp
  have w': "unat (w - k) = waiters_of v - unat k" using unat_minus [of k w] assms(2) w by simp
  have "unat (w - k) < 2 ^ 32" using w' waiters_of_less [of v] by simp
  from pack_halves [OF this, of "c - ucast k"] c' w'
  show "count_of (minus_both v k) = count_of v - unat k" "waiters_of (minus_both v k) = waiters_of v - unat k"
    by (simp_all add: minus_both_def u)
qed

lemma wake_count_zero: "wake_count v = 0 \<longleftrightarrow> count_of v = 0 \<or> waiters_of v = 0"
proof -
  have "wake_count v = 0 \<longleftrightarrow> unat (wake_count v) = 0" by (simp add: unat_eq_zero)
  then show ?thesis unfolding unat_wake_count by (auto simp: min_def)
qed

lemma unpack_zero:
  "fst (unpack_value v) = 0 \<longleftrightarrow> count_of v = 0" "snd (unpack_value v) = 0 \<longleftrightarrow> waiters_of v = 0"
  by (simp_all flip: unpack_count unpack_waiters add: unat_eq_zero)

lemma queued_vword [simp]: "queued (s\<lparr>vword := v\<rparr>) q = queued s q"
  by (simp add: queued_def)

lemma wake_rounds_once:
  assumes "queued s q" and "vword s = v" and "length q = waiters_of v"
  shows "\<exists>h s'. wake_rounds v 0 None None s = Some (min (count_of v) (length q), h, s')
    \<and> (0 < min (count_of v) (length q) \<longrightarrow> h = Some (hd q))
    \<and> successively (linked_next s') (take (count_of v) q) \<and> queued s' (drop (count_of v) q)
    \<and> relinked (set q) s (s'\<lparr>vword := vword s\<rparr>)
    \<and> count_of (vword s') = count_of v - length q \<and> waiters_of (vword s') = length q - count_of v"
proof (cases "wake_count v = 0")
  case True
  then have z: "count_of v = 0 \<or> q = []" using assms(3) wake_count_zero [of v] by auto
  show ?thesis
  proof (intro exI conjI)
    show "wake_rounds v 0 None None s = Some (min (count_of v) (length q), None, s)"
      using True z by (subst wake_rounds.simps) auto
  qed (use z assms in \<open>auto simp: relinked_def\<close>)
next
  case False
  let ?k = "wake_count v"
  have k: "unat ?k = min (count_of v) (length q)" by (simp add: unat_wake_count assms(3))
  have pos: "0 < unat ?k" using False by (simp add: unat_gt_0)
  obtain t s1 where s1: "take_loop (unat ?k) None None s = Some (Some (hd q), t, s1)"
    "successively (linked_next s1) (take (unat ?k) q)" "queued s1 (drop (unat ?k) q)" "relinked (set q) s s1"
  proof -
    have "unat ?k \<le> length q" using k by simp
    from wq.take_linked_takes [OF assms(1) this pos, of None] show thesis
      unfolding take_loop_linked [symmetric] using that by blast
  qed
  have v: "vword s1 = v" using s1(4) assms(2) by (simp add: relinked_def)
  let ?n = "minus_both v ?k" and ?s = "s1\<lparr>vword := minus_both v ?k\<rparr>"
  have n: "count_of ?n = count_of v - length q" "waiters_of ?n = length q - count_of v"
    using minus_both_halves [of ?k v] k assms(3) by auto
  have "count_of ?n = 0 \<or> waiters_of ?n = 0" unfolding n by linarith
  then have "wake_count ?n = 0" by (simp add: wake_count_zero)
  then have "wake_rounds ?n (unat ?k) (Some (hd q)) t ?s = Some (unat ?k, Some (hd q), ?s)"
    by (subst wake_rounds.simps) simp
  then have r: "wake_rounds v 0 None None s = Some (min (count_of v) (length q), Some (hd q), ?s)"
    using False s1(1) v k by (subst wake_rounds.simps) simp
  have tk: "take (unat ?k) q = take (count_of v) q" "drop (unat ?k) q = drop (count_of v) q"
    using k by (simp_all add: min_def)
  have "linked_next ?s = linked_next s1" by (simp add: linked_next_def fun_eq_iff)
  then show ?thesis unfolding r using s1(2-4) tk n v assms(2) by (auto simp: relinked_def)
qed


lemma successively_tl: "successively R xs \<Longrightarrow> successively R (tl xs)"
  by (cases xs; cases "tl xs") auto

lemma resume_taken:
  assumes "successively (linked_next s) xs" and "xs \<noteq> []"
  shows "\<exists>s'. resume_loop (length xs - 1) (nxt (nodes s (hd xs))) s = Some s'
    \<and> posts s' = posts s @ map (wake_post s) (tl xs) \<and> nodes s' = nodes s \<and> in_stack s' = in_stack s
    \<and> out_list s' = out_list s \<and> vword s' = vword s"
proof -
  obtain x ys where x: "xs = x # ys" using assms(2) by (cases xs) auto
  then have e: "(if ys = [] then nxt (nodes s x) else Some (hd ys)) = nxt (nodes s x)"
    using assms(1) by (cases ys) (auto simp: linked_next_def)
  show ?thesis
    using resume_loop_links [OF successively_tl [OF assms(1)], of "nxt (nodes s x)"] unfolding x list.sel e by simp
qed

text \<open>The caller saw a transition from 0/N or N/0.\<close>

definition one_half_zero :: "size_t \<Rightarrow> bool" where
  "one_half_zero v \<longleftrightarrow> (count_of v = 0) \<noteq> (waiters_of v = 0)"

definition woken :: "size_t \<Rightarrow> nat list \<Rightarrow> nat list" where
  "woken v q = take (count_of v) q"

lemma maybe_wake_wakes:
  assumes "queued s q" and "vword s = v" and "length q = waiters_of v" and "one_half_zero old"
  shows "\<exists>s'. maybe_wake v old symm s = Some (if symm \<and> woken v q \<noteq> [] then Some (hd q) else None, s')
    \<and> queued s' (drop (count_of v) q)
    \<and> posts s' = posts s @ map (wake_post s) (if symm then tl (woken v q) else woken v q)
    \<and> wake_post s' = wake_post s \<and> count_of (vword s') = count_of v - length q \<and> waiters_of (vword s') = length q - count_of v"
proof -
  have old: "fst (unpack_value old) = 0 \<longleftrightarrow> snd (unpack_value old) \<noteq> 0"
    using assms(4) by (auto simp: unpack_zero one_half_zero_def)
  let ?m = "min (count_of v) (length q)" and ?w = "woken v q"
  have m: "?m = length ?w" by (simp add: woken_def)
  obtain h s1 where s1: "wake_rounds v 0 None None s = Some (?m, h, s1)" "0 < ?m \<longrightarrow> h = Some (hd q)"
    "successively (linked_next s1) (take (count_of v) q)" "queued s1 (drop (count_of v) q)"
    "relinked (set q) s (s1\<lparr>vword := vword s\<rparr>)"
    "count_of (vword s1) = count_of v - length q" "waiters_of (vword s1) = length q - count_of v"
    using wake_rounds_once [OF assms(1-3)] by (elim exE conjE) (rule that; assumption)
  note s1 = s1(1,2) s1(3) [folded woken_def] s1(4-)
  have p: "posts s1 = posts s" "wake_post s1 = wake_post s"
    using s1(5) wake_post_relinked [OF s1(5)] unfolding relinked_def wake_post_vword by simp_all
  show ?thesis
  proof (cases "?w = []")
    case True
    then have "maybe_wake v old symm s = Some (None, s1)"
      using s1(1) m old by (simp add: maybe_wake_def split_def)
    then show ?thesis using True s1(4,6,7) p by simp
  next
    case False
    then have h: "h = Some (hd q)" "hd ?w = hd q" "0 < ?m" using s1(2) m by (auto simp: woken_def)
    have same: "queued s' r = queued s1 r" if "nodes s' = nodes s1" "in_stack s' = in_stack s1"
      "out_list s' = out_list s1" for s' r using that by (simp add: queued_def)
    have keep: "wake_post s' = wake_post s1" if "nodes s' = nodes s1" for s'
      using that by (intro ext) (simp add: wake_post_def)
    have go: "maybe_wake v old symm s =
      (if symm then map_option (Pair (Some (hd q))) (resume_loop (length ?w - 1) (nxt (nodes s1 (hd ?w))) s1)
       else map_option (Pair None) (resume_loop (length ?w) (if ?w = [] then None else Some (hd ?w)) s1))"
      using s1(1) old h m False by (simp add: maybe_wake_def split_def)
    show ?thesis
    proof (cases symm)
      case True
      obtain s' where s': "resume_loop (length ?w - 1) (nxt (nodes s1 (hd ?w))) s1 = Some s'"
        "posts s' = posts s1 @ map (wake_post s1) (tl ?w)" "nodes s' = nodes s1" "in_stack s' = in_stack s1"
        "out_list s' = out_list s1" "vword s' = vword s1" using resume_taken [OF s1(3) False] by blast
      show ?thesis unfolding go s'(1) using True False s'(2-) same [OF s'(3-5)] keep [OF s'(3)] s1(4,6,7) p by simp
    next
      case no: False
      obtain s' where s': "resume_loop (length ?w) (if ?w = [] then None else Some (hd ?w)) s1 = Some s'"
        "posts s' = posts s1 @ map (wake_post s1) ?w" "nodes s' = nodes s1" "in_stack s' = in_stack s1"
        "out_list s' = out_list s1" "vword s' = vword s1" using resume_loop_links [OF s1(3), of None] by blast
      show ?thesis unfolding go s'(1) using no s'(2-) same [OF s'(3-5)] keep [OF s'(3)] s1(4,6,7) p by simp
    qed
  qed
qed


text \<open>Between calls the word counts the queue, and one of the two halves is zero.\<close>

definition settled :: "waiter_data \<Rightarrow> nat list \<Rightarrow> bool" where
  "settled s q \<longleftrightarrow> queued s q \<and> length q = waiters_of (vword s) \<and> (count_of (vword s) = 0 \<or> q = [])"

lemma maybe_wake_idle:
  assumes "\<not> one_half_zero old"
  shows "maybe_wake v old symm s = Some (None, s)"
  using assms by (auto simp: maybe_wake_def split_def one_half_zero_def unpack_zero)

lemma maybe_wake_settles:
  assumes "queued s q" and "vword s = v" and "length q = waiters_of v" and "one_half_zero old \<or> woken v q = []"
  shows "\<exists>s'. maybe_wake v old symm s = Some (if symm \<and> woken v q \<noteq> [] then Some (hd q) else None, s')
    \<and> settled s' (drop (count_of v) q)
    \<and> posts s' = posts s @ map (wake_post s) (if symm then tl (woken v q) else woken v q)
    \<and> wake_post s' = wake_post s \<and> count_of (vword s') = count_of v - length q"
proof (cases "one_half_zero old")
  case True
  obtain s' where s': "maybe_wake v old symm s = Some (if symm \<and> woken v q \<noteq> [] then Some (hd q) else None, s')"
    "queued s' (drop (count_of v) q)"
    "posts s' = posts s @ map (wake_post s) (if symm then tl (woken v q) else woken v q)"
    "wake_post s' = wake_post s" "count_of (vword s') = count_of v - length q"
    "waiters_of (vword s') = length q - count_of v"
    using maybe_wake_wakes [OF assms(1-3) True, of symm] by blast
  then have "settled s' (drop (count_of v) q)" by (cases "count_of v \<le> length q") (auto simp: settled_def)
  with s' show ?thesis by blast
next
  case False
  then have w: "woken v q = []" using assms(4) by simp
  then have "count_of v = 0 \<or> q = []" by (auto simp: woken_def)
  then show ?thesis using maybe_wake_idle [OF False] w assms(1-3) by (auto simp: settled_def)
qed

text \<open>Raising the count: what \<open>release\<close>, \<open>unlock\<close> and \<open>set\<close> do with the new word \<open>v\<close>.\<close>

lemma maybe_wake_signalled:
  assumes "settled s q" and "waiters_of v = waiters_of (vword s)"
  shows "\<exists>s'. maybe_wake v (vword s) symm (s\<lparr>vword := v\<rparr>)
      = Some (if symm \<and> woken v q \<noteq> [] then Some (hd q) else None, s')
    \<and> settled s' (drop (count_of v) q)
    \<and> posts s' = posts s @ map (wake_post s) (if symm then tl (woken v q) else woken v q)
    \<and> wake_post s' = wake_post s \<and> count_of (vword s') = count_of v - length q"
proof -
  have q: "queued (s\<lparr>vword := v\<rparr>) q" "length q = waiters_of v" using assms by (simp_all add: settled_def)
  have old: "one_half_zero (vword s) \<or> woken v q = []"
    using assms unfolding settled_def one_half_zero_def woken_def by (metis length_0_conv take_Nil)
  show ?thesis using maybe_wake_settles [OF q(1) _ q(2) old, of symm] by simp
qed

lemma configure_sel [simp]:
  "posts (configure_and_add_waiter t n Outer s) = posts s" "vword (configure_and_add_waiter t n Outer s) = vword s"
  "wake_post (configure_and_add_waiter t n Outer s) =
    (wake_post s)(n := (fst t, snd t, [Outer]))"
  by (auto simp: configure_and_add_waiter_def wake_post_def Let_def)

lemma one_waiter_fold: "push_bit WAITERS_OFFSET TMC_ONE_BIT = one_waiter"
  by (simp only: one_waiter_def)

theorem suspend_spec:
  assumes "settled s q" and "n \<notin> set q" and "length q + 1 < 2 ^ 32"
  shows "\<exists>s'. suspend t n Outer s = Some s' \<and> settled s' (if count_of (vword s) = 0 then q @ [n] else [])
    \<and> posts s' = posts s @ (if count_of (vword s) = 0 then [] else [(fst t, snd t, [Outer])])
    \<and> count_of (vword s') = count_of (vword s) - 1
    \<and> wake_post s' = (wake_post s)(n := (fst t, snd t, [Outer]))"
proof -
  let ?s = "configure_and_add_waiter t n Outer s" and ?v = "one_waiter + vword s"
  have q: "queued s q" "length q = waiters_of (vword s)" "count_of (vword s) = 0 \<or> q = []"
    using assms(1) by (simp_all add: settled_def)
  have v: "waiters_of ?v = length (q @ [n])" "count_of ?v = count_of (vword s)"
    using add_waiter [of "vword s"] assms(3) q(2) by simp_all
  have r: "queued (?s\<lparr>vword := ?v\<rparr>) (q @ [n])" using add_waiter_queue [OF q(1) assms(2)] by simp
  have old: "one_half_zero (vword s) \<or> woken ?v (q @ [n]) = []"
    using q(2,3) v(2) by (auto simp: one_half_zero_def woken_def)
  have w: "wake_post (?s\<lparr>vword := ?v\<rparr>) = (wake_post s)(n := (fst t, snd t, [Outer]))"
    by simp
  obtain s' where s': "maybe_wake ?v (vword s) False (?s\<lparr>vword := ?v\<rparr>) = Some (None, s')"
    "settled s' (drop (count_of ?v) (q @ [n]))"
    "posts s' = posts s @ map (wake_post (?s\<lparr>vword := ?v\<rparr>)) (woken ?v (q @ [n]))"
    "wake_post s' = wake_post (?s\<lparr>vword := ?v\<rparr>)" "count_of (vword s') = count_of ?v - length (q @ [n])"
    using maybe_wake_settles [OF r _ v(1) [symmetric] old, of False] by auto
  have s: "suspend t n Outer s = Some s'" 
    by (simp only: suspend_def Let_def one_waiter_fold configure_sel s'(1) option.map snd_conv)
  show ?thesis
  proof (cases "count_of (vword s) = 0")
    case True
    then show ?thesis using s s'(2-) v w by (simp add: woken_def)
  next
    case False
    then have "q = []" "drop (count_of ?v) [n] = []" "take (count_of ?v) [n] = [n]" using q(3) v(2) by simp_all
    then show ?thesis using False s s'(2-) v w by (simp add: woken_def)
  qed
qed


section \<open>Waking everybody\<close>

text \<open>A batch holds one to 64 continuations of one executor and one priority; it is closed only when full or
  when the next waiter belongs elsewhere.\<close>

fun unbatch :: "nat \<times> nat \<times> nat list \<Rightarrow> (nat \<times> nat \<times> nat list) list" where
  "unbatch (ex, prio, cs) = map (\<lambda>c. (ex, prio, [c])) cs"

fun batch_size :: "nat \<times> nat \<times> nat list \<Rightarrow> nat" where
  "batch_size (ex, prio, cs) = length cs"

fun closed_before :: "nat \<times> nat \<times> nat list \<Rightarrow> nat \<times> nat \<times> nat list \<Rightarrow> bool" where
  "closed_before (ex, prio, cs) (ex', prio', cs') \<longleftrightarrow> length cs = 64 \<or> ex \<noteq> ex' \<or> prio \<noteq> prio'"

definition batches :: "(nat \<times> nat \<times> nat list) list \<Rightarrow> bool" where
  "batches bs \<longleftrightarrow> (\<forall>b \<in> set bs. 1 \<le> batch_size b \<and> batch_size b \<le> 64) \<and> successively closed_before bs"

lemma batches_head:
  assumes "batches (b # bs)" and "concat (map unbatch (b # bs)) = (ex, prio, [c]) # rest"
  shows "fst b = ex \<and> fst (snd b) = prio"
proof -
  obtain a a' cs where b: "b = (a, a', cs)" by (cases b) auto
  then obtain c' cs' where "cs = c' # cs'" using assms(1) by (cases cs) (auto simp: batches_def)
  then show ?thesis using assms(2) b by simp
qed

lemma batches_Cons:
  assumes "batches bs" and "1 \<le> length cs" and "length cs \<le> 64"
    and "\<And>b bs'. bs = b # bs' \<Longrightarrow> closed_before (ex, prio, cs) b"
  shows "batches ((ex, prio, cs) # bs)"
  using assms by (cases bs) (auto simp: batches_def)

definition same_queue :: "waiter_data \<Rightarrow> waiter_data \<Rightarrow> bool" where
  "same_queue s s' \<longleftrightarrow> nodes s' = nodes s \<and> in_stack s' = in_stack s \<and> out_list s' = out_list s \<and> vword s' = vword s"

lemma post_sel [simp]:
  "nodes (post ex prio cs s) = nodes s" "in_stack (post ex prio cs s) = in_stack s"
  "out_list (post ex prio cs s) = out_list s" "vword (post ex prio cs s) = vword s"
  "posts (post ex prio cs s) = posts s @ [(ex, prio, cs)]"
  by (simp_all add: post_def)

lemma batch_loop_spec:
  assumes "chain (nodes s) p xs" and "length batch < 64"
  shows "\<exists>s' bs. batch_loop p batch ex prio n s = Some (n + length xs, s') \<and> same_queue s s'
    \<and> posts s' = posts s @ bs \<and> batches bs
    \<and> concat (map unbatch bs) = unbatch (ex, prio, batch) @ map (wake_post s) xs"
  using assms
proof (induction xs arbitrary: p batch ex prio n s)
  case Nil
  show ?case
    using Nil by (subst batch_loop.simps) (auto simp: same_queue_def batches_def Suc_le_eq
        intro!: exI [of _ "if batch = [] then [] else [(ex, prio, batch)]"])
next
  case (Cons x xs)
  let ?e = "continuation_executor (nodes s x)" and ?p = "continuation_priority (nodes s x)"
    and ?c = "continuation (nodes s x)"
  have p: "p = Some x" "chain (nodes s) (nxt (nodes s x)) xs" using Cons.prems(1) by auto
  have w: "wake_post s x = (?e, ?p, [?c])" by (simp add: wake_post_def Let_def)
  have step: ?case
    if m: "batch_loop p batch ex prio n s = batch_loop (nxt (nodes s x)) b e' p' (n + 1) s1"
      and s1: "nodes s1 = nodes s" "in_stack s1 = in_stack s" "out_list s1 = out_list s" "vword s1 = vword s"
      and l: "length b < 64" and new: "posts s1 = posts s @ new"
      and cat: "concat (map unbatch new) @ unbatch (e', p', b) = unbatch (ex, prio, batch) @ [wake_post s x]"
      and ok: "\<And>bs. batches bs \<Longrightarrow> concat (map unbatch bs) = unbatch (e', p', b) @ map (wake_post s) xs
        \<Longrightarrow> batches (new @ bs)"
    for b e' p' s1 new
  proof -
    have c: "chain (nodes s1) (nxt (nodes s x)) xs" using p(2) s1(1) by simp
    have ws: "wake_post s1 = wake_post s" using s1(1) by (intro ext) (simp add: wake_post_def)
    obtain s' bs where s': "batch_loop (nxt (nodes s x)) b e' p' (n + 1) s1 = Some (n + 1 + length xs, s')"
      "same_queue s1 s'" "posts s' = posts s1 @ bs" "batches bs"
      "concat (map unbatch bs) = unbatch (e', p', b) @ map (wake_post s) xs"
      using Cons.IH [OF c l] unfolding ws by blast
    show ?thesis
    proof (intro exI conjI)
      show "batch_loop p batch ex prio n s = Some (n + length (x # xs), s')" using m s'(1) by simp
      show "same_queue s s'" using s'(2) s1 by (simp add: same_queue_def)
      show "posts s' = posts s @ new @ bs" using s'(3) new by simp
      show "batches (new @ bs)" using ok s'(4,5) by blast
      show "concat (map unbatch (new @ bs)) = unbatch (ex, prio, batch) @ map (wake_post s) (x # xs)"
        using cat s'(5) by (simp flip: append_assoc)
    qed
  qed
  consider (flush) "batch \<noteq> []" "?e \<noteq> ex \<or> ?p \<noteq> prio" | (start) "batch = []"
    | (full) "batch \<noteq> []" "?e = ex" "?p = prio" "length batch = 63"
    | (add) "batch \<noteq> []" "?e = ex" "?p = prio" "length batch < 63" using Cons.prems(2) by linarith
  then show ?case
  proof cases
    case flush
    show ?thesis
    proof (rule step [of "[?c]" ?e ?p "post ex prio batch s" "[(ex, prio, batch)]"])
      show "batch_loop p batch ex prio n s
          = batch_loop (nxt (nodes s x)) [?c] ?e ?p (n + 1) (post ex prio batch s)"
        using flush by (subst batch_loop.simps) (simp add: p(1) Let_def)
      show "batches ([(ex, prio, batch)] @ bs)"
        if "batches bs" "concat (map unbatch bs) = unbatch (?e, ?p, [?c]) @ map (wake_post s) xs" for bs
      proof -
        have "batches ((ex, prio, batch) # bs)"
        proof (rule batches_Cons [OF that(1)])
          fix b bs' assume b: "bs = b # bs'"
          have "fst b = ?e \<and> fst (snd b) = ?p" using batches_head [of b bs'] that b by simp
          then show "closed_before (ex, prio, batch) b" using flush(2) by (cases b) auto
        qed (use flush(1) Cons.prems(2) in \<open>simp_all add: Suc_le_eq\<close>)
        then show ?thesis by simp
      qed
    qed (use w in simp_all)
  next
    case start
    show ?thesis
    proof (rule step [of "[?c]" ?e ?p s "[]"])
      show "batch_loop p batch ex prio n s = batch_loop (nxt (nodes s x)) [?c] ?e ?p (n + 1) s"
        using start by (subst batch_loop.simps) (simp add: p(1) Let_def)
    qed (use w start in simp_all)
  next
    case full
    show ?thesis
    proof (rule step [of "[]" ex prio "post ex prio (batch @ [?c]) s" "[(ex, prio, batch @ [?c])]"])
      show "batch_loop p batch ex prio n s
          = batch_loop (nxt (nodes s x)) [] ex prio (n + 1) (post ex prio (batch @ [?c]) s)"
        using full by (subst batch_loop.simps) (simp add: p(1) Let_def)
      show "batches ([(ex, prio, batch @ [?c])] @ bs)" if "batches bs" for bs
        using that full by (auto intro!: batches_Cons)
    qed (use w full in simp_all)
  next
    case add
    show ?thesis
    proof (rule step [of "batch @ [?c]" ex prio s "[]"])
      show "batch_loop p batch ex prio n s = batch_loop (nxt (nodes s x)) (batch @ [?c]) ex prio (n + 1) s"
        using add by (subst batch_loop.simps) (simp add: p(1) Let_def)
    qed (use w add in simp_all)
  qed
qed

theorem wake_waiters_in_batches_spec:
  assumes "chain (nodes s) p xs"
  shows "\<exists>s' bs. wake_waiters_in_batches p s = Some (length xs, s') \<and> same_queue s s'
    \<and> posts s' = posts s @ bs \<and> batches bs \<and> concat (map unbatch bs) = map (wake_post s) xs"
  using batch_loop_spec [OF assms, of "[]" 0 0 0] by (simp add: wake_waiters_in_batches_def)

lemma last_loop_chain:
  "chain (nodes s) (Some x) (x # xs) \<Longrightarrow> last_loop x s = Some (last (x # xs))"
proof (induction xs arbitrary: x)
  case Nil
  then show ?case by (subst last_loop.simps) simp
next
  case (Cons y ys)
  then show ?case using Cons.IH [of y] by (subst last_loop.simps) simp
qed

lemma chain_upd: "n \<notin> set xs \<Longrightarrow> chain (h(n := v)) p xs = chain h p xs"
  by (rule chain_other) auto

lemma chain_append:
  assumes "chain h p xs" and "chain h q ys" and "distinct (xs @ ys)" and "xs \<noteq> []"
  shows "chain (h(last xs := (h (last xs))\<lparr>nxt := q\<rparr>)) p (xs @ ys)"
  using assms
proof (induction xs arbitrary: p)
  case (Cons x xs)
  let ?h = "h(last (x # xs) := (h (last (x # xs)))\<lparr>nxt := q\<rparr>)"
  show ?case
  proof (cases xs)
    case Nil
    then show ?thesis using Cons.prems by (simp add: chain_upd fun_upd_same del: fun_upd_apply)
  next
    case (Cons y zs)
    then have ne: "xs \<noteq> []" and l: "last (x # xs) = last xs" by simp_all
    have "chain (h(last xs := (h (last xs))\<lparr>nxt := q\<rparr>)) (nxt (h x)) (xs @ ys)"
      by (rule Cons.IH) (use Cons.prems ne in simp_all)
    moreover have "x \<noteq> last xs" using Cons.prems(3) ne by auto
    ultimately show ?thesis using Cons.prems(1) unfolding l by (simp del: fun_upd_apply add: fun_upd_other)
  qed
qed simp

text \<open>\<open>take_all\<close>: both lists become empty; the chain is \<open>output\<close>, then \<open>input\<close> as it stands (newest first).\<close>

theorem take_all_spec:
  assumes "chain (nodes s) (out_list s) outs" and "chain (nodes s) (in_stack s) ins" and "distinct (outs @ ins)"
  shows "\<exists>p s'. take_all s = Some (p, s') \<and> chain (nodes s') p (outs @ ins) \<and> in_stack s' = None
    \<and> out_list s' = None \<and> vword s' = vword s \<and> posts s' = posts s \<and> wake_post s' = wake_post s"
proof (cases outs)
  case Nil
  then show ?thesis using assms by (auto simp: take_all_def Let_def wake_post_def fun_eq_iff)
next
  case (Cons x xs)
  let ?s = "s\<lparr>in_stack := None\<rparr>"
  have o: "out_list s = Some x" using assms(1) Cons by simp
  have "chain (nodes ?s) (Some x) (x # xs)" using assms(1) Cons by simp
  from last_loop_chain [OF this] have l: "last_loop x ?s = Some (last outs)" using Cons by simp
  let ?s' = "(set_next (last outs) (in_stack s) ?s)\<lparr>out_list := None\<rparr>"
  have t: "take_all s = Some (Some x, ?s')" using o l by (simp add: take_all_def Let_def)
  have "chain (nodes ?s') (Some x) (outs @ ins)"
    using chain_append [OF assms(1,2,3)] Cons o by (simp add: set_next_def)
  moreover have "wake_post ?s' = wake_post s" by (rule ext) (simp add: wake_post_def set_next_def Let_def)
  ultimately show ?thesis using t by auto
qed

theorem wake_all_spec:
  assumes "queued s q"
  shows "\<exists>s' bs xs. wake_all s = Some s' \<and> queued s' [] \<and> mset xs = mset q \<and> posts s' = posts s @ bs \<and> batches bs
    \<and> concat (map unbatch bs) = map (wake_post s) xs"
proof -
  obtain outs ins where q: "chain (nodes s) (out_list s) outs" "chain (nodes s) (in_stack s) ins"
    "q = outs @ rev ins" "distinct q" using assms unfolding queued_def by blast
  have d: "distinct (outs @ ins)" using q(3,4) by auto
  obtain p s1 where s1: "take_all s = Some (p, s1)" "chain (nodes s1) p (outs @ ins)" "in_stack s1 = None"
    "out_list s1 = None" "posts s1 = posts s" "wake_post s1 = wake_post s"
    using take_all_spec [OF q(1,2) d] by blast
  obtain s' bs where s': "wake_waiters_in_batches p s1 = Some (length (outs @ ins), s')" "same_queue s1 s'"
    "posts s' = posts s1 @ bs" "batches bs" "concat (map unbatch bs) = map (wake_post s1) (outs @ ins)"
    using wake_waiters_in_batches_spec [OF s1(2)] by blast
  have "wake_all s = Some s'" using s1(1) s'(1) by (simp add: wake_all_def)
  moreover have "queued s' []" using s'(2) s1(3,4) by (simp add: queued_def same_queue_def)
  moreover have "mset (outs @ ins) = mset q" using q(3) by simp
  ultimately show ?thesis using s1(5) s1(6) s'(3,4,5) by metis
qed

end
