(* ===== verification/Customizer.thy ===== *)
theory Customizer
  imports WaiterList
begin

text \<open>
  How a finished awaitable resumes its awaiter (\<open>src/include/tmc/detail/awaitable_customizer.hpp\<close>): alone, as one
  of a group counted by \<open>done_count\<close>, or as one slot of a multiplexed group.  An executor is a number, 0 the null
  pointer; a coroutine handle is an optional number, \<open>None\<close> the null handle (or the no-op coroutine where one is
  returned to be run).  The \<open>void*\<close> fields hold a value or the address of a slot of the group, as in the code.
\<close>

section \<open>The flags word\<close>

definition EACH :: size_t where
  "EACH = push_bit (TMC_PLATFORM_BITS - 1) TMC_ONE_BIT"

definition TASKNUM_HIGH_OFF :: nat where "TASKNUM_HIGH_OFF = 10"
definition TASKNUM_LOW_OFF :: nat where "TASKNUM_LOW_OFF = 4"

definition TASKNUM_MASK :: size_t where
  "TASKNUM_MASK = push_bit TASKNUM_HIGH_OFF TMC_ONE_BIT - push_bit TASKNUM_LOW_OFF TMC_ONE_BIT"

definition PRIORITY_HIGH_OFF :: nat where "PRIORITY_HIGH_OFF = 4"
definition PRIORITY_LOW_OFF :: nat where "PRIORITY_LOW_OFF = 0"

definition PRIORITY_MASK :: size_t where
  "PRIORITY_MASK = push_bit PRIORITY_HIGH_OFF TMC_ONE_BIT - push_bit PRIORITY_LOW_OFF TMC_ONE_BIT"

definition task_num :: "size_t \<Rightarrow> nat" where
  "task_num Flags = unat (drop_bit TASKNUM_LOW_OFF (Flags AND TASKNUM_MASK))"

definition continuation_prio :: "size_t \<Rightarrow> nat" where
  "continuation_prio Flags = unat (Flags AND PRIORITY_MASK)"

section \<open>The group\<close>

text \<open>The cells that the awaitables of a group point to, and what has been posted.\<close>

record group_memory =
  counters :: "nat \<Rightarrow> size_t"
  handle_slots :: "nat \<Rightarrow> nat option"
  executor_slots :: "nat \<Rightarrow> nat"
  submitted :: "(nat \<times> nat \<times> nat list) list"

record customizer =
  c_continuation :: "nat option"
  c_executor :: nat
  c_done_count :: "nat option"
  c_flags :: size_t

definition customizer_new :: "this_thread \<Rightarrow> customizer" where
  "customizer_new t = \<lparr>c_continuation = None, c_executor = fst t, c_done_count = None, c_flags = of_nat (snd t)\<rparr>"

definition fetch_sub1 :: "nat \<Rightarrow> group_memory \<Rightarrow> int \<times> group_memory" where
  "fetch_sub1 d m = (sint (counters m d), m\<lparr>counters := (counters m)(d := counters m d - 1)\<rparr>)"

definition done_count_arrived :: "nat \<Rightarrow> group_memory \<Rightarrow> bool \<times> group_memory" where
  "done_count_arrived DoneCount m = (let (old, m) = fetch_sub1 DoneCount m in (old \<le> 0, m))"

definition submit :: "nat \<Rightarrow> nat list \<Rightarrow> nat \<Rightarrow> group_memory \<Rightarrow> group_memory" where
  "submit ex items prio m = m\<lparr>submitted := submitted m @ [(ex, prio, items)]\<rparr>"

text \<open>\<open>None\<close>: a null \<open>Continuation\<close> is dereferenced.\<close>

definition get_continuation ::
  "nat \<Rightarrow> nat option \<Rightarrow> nat option \<Rightarrow> size_t \<Rightarrow> group_memory \<Rightarrow> ((nat option \<times> nat) \<times> group_memory) option" where
  "get_continuation ContinuationExecutor Continuation DoneCount Flags m =
    (case DoneCount of
       None \<Rightarrow> Some ((Continuation, ContinuationExecutor), m)
     | Some d \<Rightarrow>
         let (shouldResume, m) =
           (if Flags AND EACH \<noteq> 0
            then (0 = EACH AND counters m d,
                  m\<lparr>counters := (counters m)
                     (d := counters m d OR (EACH OR
                        push_bit (unat (drop_bit TASKNUM_LOW_OFF (Flags AND TASKNUM_MASK))) TMC_ONE_BIT))\<rparr>)
            else done_count_arrived d m)
         in if shouldResume
            then (case Continuation of None \<Rightarrow> None
                  | Some c \<Rightarrow> Some ((handle_slots m c, executor_slots m ContinuationExecutor), m))
            else Some ((None, ContinuationExecutor), m))"

definition post_continuation_impl ::
  "nat \<Rightarrow> nat option \<Rightarrow> nat option \<Rightarrow> size_t \<Rightarrow> group_memory \<Rightarrow> group_memory option" where
  "post_continuation_impl ContinuationExecutor Continuation DoneCount Flags m =
    map_option (\<lambda>((final, ex), m).
        case final of None \<Rightarrow> m | Some h \<Rightarrow> submit ex [h] (continuation_prio Flags) m)
      (get_continuation ContinuationExecutor Continuation DoneCount Flags m)"

definition resume_continuation_impl ::
  "this_thread \<Rightarrow> nat \<Rightarrow> nat option \<Rightarrow> nat option \<Rightarrow> size_t \<Rightarrow> group_memory \<Rightarrow> (nat option \<times> group_memory) option" where
  "resume_continuation_impl t ContinuationExecutor Continuation DoneCount Flags m =
    map_option (\<lambda>((final, ex), m).
        case final of
          None \<Rightarrow> (None, m)
        | Some h \<Rightarrow>
            if ex \<noteq> 0 \<and> \<not> exec_prio_is t ex (continuation_prio Flags)
            then (None, submit ex [h] (continuation_prio Flags) m)
            else (Some h, m))
      (get_continuation ContinuationExecutor Continuation DoneCount Flags m)"

definition post_continuation :: "customizer \<Rightarrow> group_memory \<Rightarrow> group_memory option" where
  "post_continuation c = post_continuation_impl (c_executor c) (c_continuation c) (c_done_count c) (c_flags c)"

definition resume_continuation :: "this_thread \<Rightarrow> customizer \<Rightarrow> group_memory \<Rightarrow> (nat option \<times> group_memory) option" where
  "resume_continuation t c =
    resume_continuation_impl t (c_executor c) (c_continuation c) (c_done_count c) (c_flags c)"

section \<open>Encoding the flags\<close>

lemma EACH_eq: "EACH = one_at 63"
  by (simp only: EACH_def one_at_def) simp

lemma and_EACH [word_facts]: "v AND EACH \<noteq> 0 \<longleftrightarrow> bit v 63" "EACH AND v \<noteq> 0 \<longleftrightarrow> bit v 63"
  unfolding EACH_eq by (simp_all only: and_one_at and.commute [of "one_at 63" v])

lemma bit_TASKNUM_MASK: "bit TASKNUM_MASK i \<longleftrightarrow> 4 \<le> i \<and> i < 10"
proof -
  have t: "TASKNUM_MASK = push_bit 4 (mask 6)"
    by (simp add: TASKNUM_MASK_def TASKNUM_HIGH_OFF_def TASKNUM_LOW_OFF_def mask_eq_exp_minus_1)
  show ?thesis unfolding t bit_push_bit_iff bit_mask_iff by auto
qed

lemma PRIORITY_MASK_eq: "PRIORITY_MASK = mask 4"
  by (simp add: PRIORITY_MASK_def PRIORITY_HIGH_OFF_def PRIORITY_LOW_OFF_def mask_eq_exp_minus_1)

definition each_flags :: "nat \<Rightarrow> nat \<Rightarrow> size_t" where
  "each_flags Idx ContinuationPrio = EACH OR push_bit TASKNUM_LOW_OFF (of_nat Idx) OR of_nat ContinuationPrio"

lemma bit_of_nat_word: "bit (of_nat n :: size_t) i \<longleftrightarrow> i < 64 \<and> bit n i"
  by (simp add: bit_of_nat_iff possible_bit_def)

lemma bit_less_exp: "n < 2 ^ k \<Longrightarrow> bit n i \<Longrightarrow> i < k" for n :: nat
proof (rule ccontr)
  assume n: "n < 2 ^ k" "bit n i" and "\<not> i < k"
  then have "n < 2 ^ i" by (meson leI less_le_trans power_increasing one_le_numeral)
  then have "\<not> bit n i" by (simp add: bit_iff_odd)
  then show False using n(2) by simp
qed

lemma bit_each_flags:
  "bit (each_flags Idx prio) i \<longleftrightarrow> i = 63 \<or> 4 \<le> i \<and> i < 64 \<and> bit Idx (i - 4) \<or> i < 64 \<and> bit prio i"
  unfolding each_flags_def EACH_eq TASKNUM_LOW_OFF_def
  by (auto simp: bit_or_iff bit_one_at bit_push_bit_iff bit_of_nat_word)

lemma each_flags_fields:
  assumes "Idx < 63" and "prio < 16"
  shows "bit (each_flags Idx prio) 63" "unat (drop_bit TASKNUM_LOW_OFF (each_flags Idx prio AND TASKNUM_MASK)) = Idx"
    "unat (each_flags Idx prio AND PRIORITY_MASK) = prio"
proof -
  have I: "i < 6" if "bit Idx i" for i using bit_less_exp [of Idx 6] that assms(1) by simp
  have P: "i < 4" if "bit prio i" for i using bit_less_exp [of prio 4] that assms(2) by simp
  have "drop_bit 4 (each_flags Idx prio AND TASKNUM_MASK) = of_nat Idx"
    by (rule bit_eqI) (use I P in \<open>fastforce simp: bit_drop_bit_eq bit_and_iff bit_TASKNUM_MASK bit_each_flags
      bit_of_nat_word\<close>)
  then show "unat (drop_bit TASKNUM_LOW_OFF (each_flags Idx prio AND TASKNUM_MASK)) = Idx"
    using assms(1) by (simp add: TASKNUM_LOW_OFF_def unat_of_nat)
  have "each_flags Idx prio AND PRIORITY_MASK = of_nat prio"
    by (rule bit_eqI) (use P in \<open>auto simp: PRIORITY_MASK_eq bit_and_iff bit_mask_iff bit_each_flags bit_of_nat_word\<close>)
  then show "unat (each_flags Idx prio AND PRIORITY_MASK) = prio" using assms(2) by (simp add: unat_of_nat)
qed (simp add: bit_each_flags)

text \<open>
  The flags word that a multiplexed group gives a child (lock bit, slot number, awaiter priority) is read back
  without loss by every reader: the lock bit is set, the slot and the priority are the ones packed.
\<close>

lemma each_flags_roundtrip:
  assumes "Idx < 63" and "prio < 16"
  shows "each_flags Idx prio AND EACH \<noteq> 0 \<and> task_num (each_flags Idx prio) = Idx
    \<and> continuation_prio (each_flags Idx prio) = prio"
  using each_flags_fields [OF assms] by (simp add: task_num_def continuation_prio_def and_EACH)

theorem each_flags_roundtrip_witness: "task_num (each_flags 62 15) = 62 \<and> continuation_prio (each_flags 62 15) = 15"
  using each_flags_roundtrip [of 62 15] by simp

end
