(* ===== verification/SyncPrimitives.thy ===== *)
theory SyncPrimitives
  imports Customizer
begin

text \<open>
  The primitives built on the waiter list, each call run without interference: \<open>tmc::mutex\<close> (\<open>mutex.hpp\<close>,
  \<open>detail/mutex.ipp\<close>), \<open>tmc::semaphore\<close> (\<open>semaphore.hpp\<close>, \<open>detail/semaphore.ipp\<close>) and \<open>tmc::auto_reset_event\<close>
  (\<open>auto_reset_event.hpp\<close>, \<open>detail/auto_reset_event.ipp\<close>), and their refinement of one abstract counter with a
  queue.  Theory \<open>SyncSteps\<close> interleaves them.
\<close>

section \<open>The mutex\<close>

definition LOCKED :: size_t where "LOCKED = 0"
definition UNLOCKED :: size_t where "UNLOCKED = 1"

definition mutex_new :: "waiter_data \<Rightarrow> waiter_data" where
  "mutex_new s = s\<lparr>in_stack := None, out_list := None, vword := UNLOCKED\<rparr>"

definition waiter_count :: "waiter_data \<Rightarrow> size_t" where
  "waiter_count s = drop_bit WAITERS_OFFSET (vword s) AND HALF_MASK"

definition is_locked :: "waiter_data \<Rightarrow> bool" where
  "is_locked s \<longleftrightarrow> 0 = HALF_MASK AND vword s"

definition try_lock :: "waiter_data \<Rightarrow> bool \<times> waiter_data" where
  "try_lock s = try_acquire s"

definition mutex_unlock :: "waiter_data \<Rightarrow> waiter_data option" where
  "mutex_unlock s = (let old = vword s; v = UNLOCKED OR old
     in map_option snd (maybe_wake v old False (s\<lparr>vword := v\<rparr>)))"

text \<open>The end of every symmetric wake: without a waiter the caller goes on.\<close>

definition hand_over :: "this_thread \<Rightarrow> nat \<Rightarrow> nat option \<times> waiter_data \<Rightarrow> nat \<times> waiter_data" where
  "hand_over t Outer r = (case r of (None, s) \<Rightarrow> (Outer, s) | (Some toWake, s) \<Rightarrow> try_symmetric_transfer t toWake Outer s)"

definition mutex_co_unlock :: "this_thread \<Rightarrow> nat \<Rightarrow> waiter_data \<Rightarrow> (nat \<times> waiter_data) option" where
  "mutex_co_unlock t Outer s = (let old = vword s; v = UNLOCKED OR old
     in map_option (hand_over t Outer) (maybe_wake v old True (s\<lparr>vword := v\<rparr>)))"

text \<open>\<open>co_unlock_return\<close> also ends the calling coroutine, whose \<open>customizer\<close> is \<open>c\<close>.\<close>

definition return_and_wake ::
  "this_thread \<Rightarrow> customizer \<Rightarrow> group_memory \<Rightarrow> nat option \<times> waiter_data
    \<Rightarrow> (nat option \<times> group_memory \<times> waiter_data) option" where
  "return_and_wake t c m r = (case r of (toWake, s) \<Rightarrow>
     map_option (\<lambda>((continuation, ex), m).
         let (next, s) = try_symmetric_transfer2 t toWake continuation ex (continuation_prio (c_flags c)) s
         in (next, m, s))
       (get_continuation (c_executor c) (c_continuation c) (c_done_count c) (c_flags c) m))"

definition mutex_co_unlock_return ::
  "this_thread \<Rightarrow> customizer \<Rightarrow> group_memory \<Rightarrow> waiter_data \<Rightarrow> (nat option \<times> group_memory \<times> waiter_data) option" where
  "mutex_co_unlock_return t c m s = (let old = vword s; v = UNLOCKED OR old
     in Option.bind (maybe_wake v old True (s\<lparr>vword := v\<rparr>)) (return_and_wake t c m))"

definition mutex_destroy :: "waiter_data \<Rightarrow> waiter_data option" where
  "mutex_destroy s = wake_all s"

text \<open>A \<open>mutex_scope\<close> is whether its \<open>parent\<close> is set; moving it leaves the source without one.\<close>

definition mutex_scope_move :: "bool \<Rightarrow> bool \<times> bool" where
  "mutex_scope_move Other = (Other, False)"

definition mutex_scope_destroy :: "bool \<Rightarrow> waiter_data \<Rightarrow> waiter_data option" where
  "mutex_scope_destroy parent s = (if parent then mutex_unlock s else Some s)"

section \<open>The semaphore\<close>

definition semaphore_new :: "u32 \<Rightarrow> waiter_data \<Rightarrow> waiter_data" where
  "semaphore_new InitialCount s = s\<lparr>in_stack := None, out_list := None, vword := ucast InitialCount\<rparr>"

definition semaphore_count :: "waiter_data \<Rightarrow> size_t" where
  "semaphore_count s = HALF_MASK AND vword s"

definition semaphore_release :: "size_t \<Rightarrow> waiter_data \<Rightarrow> waiter_data option" where
  "semaphore_release ReleaseCount s = (let old = vword s; v = ReleaseCount + old
     in map_option snd (maybe_wake v old False (s\<lparr>vword := v\<rparr>)))"

definition semaphore_co_release :: "this_thread \<Rightarrow> nat \<Rightarrow> waiter_data \<Rightarrow> (nat \<times> waiter_data) option" where
  "semaphore_co_release t Outer s = (let old = vword s; v = 1 + old
     in map_option (hand_over t Outer) (maybe_wake v old True (s\<lparr>vword := v\<rparr>)))"

definition semaphore_co_release_return ::
  "this_thread \<Rightarrow> customizer \<Rightarrow> group_memory \<Rightarrow> waiter_data \<Rightarrow> (nat option \<times> group_memory \<times> waiter_data) option" where
  "semaphore_co_release_return t c m s = (let old = vword s; v = 1 + old
     in Option.bind (maybe_wake v old True (s\<lparr>vword := v\<rparr>)) (return_and_wake t c m))"

definition semaphore_scope_destroy :: "bool \<Rightarrow> waiter_data \<Rightarrow> waiter_data option" where
  "semaphore_scope_destroy parent s = (if parent then semaphore_release 1 s else Some s)"

section \<open>The automatic-reset event\<close>

definition auto_reset_event_new :: "bool \<Rightarrow> waiter_data \<Rightarrow> waiter_data" where
  "auto_reset_event_new Ready s = s\<lparr>in_stack := None, out_list := None, vword := (if Ready then 1 else 0)\<rparr>"

definition is_set :: "waiter_data \<Rightarrow> bool" where
  "is_set s \<longleftrightarrow> 0 \<noteq> HALF_MASK AND vword s"

definition event_reset :: "waiter_data \<Rightarrow> waiter_data" where
  "event_reset s = snd (try_acquire s)"

text \<open>The count may exceed the waiters by one at most; the exchange succeeds at the first attempt.\<close>

definition event_full :: "size_t \<Rightarrow> bool" where
  "event_full old = (let (oldCount, oldWaiterCount) = unpack_value old in oldWaiterCount + 1 \<le> ucast oldCount)"

definition event_set :: "waiter_data \<Rightarrow> waiter_data option" where
  "event_set s = (let old = vword s in
     if event_full old then Some s
     else let v = 1 + old in map_option snd (maybe_wake v old False (s\<lparr>vword := v\<rparr>)))"

definition event_co_set :: "this_thread \<Rightarrow> nat \<Rightarrow> waiter_data \<Rightarrow> (nat \<times> waiter_data) option" where
  "event_co_set t Outer s = (let old = vword s in
     if event_full old then Some (Outer, s)
     else let v = 1 + old in map_option (hand_over t Outer) (maybe_wake v old True (s\<lparr>vword := v\<rparr>)))"

section \<open>Awaiting\<close>

text \<open>\<open>aw_acquire\<close>: \<open>await_ready\<close>, then \<open>await_suspend\<close>; the result says whether the caller goes on.\<close>

definition acquire :: "this_thread \<Rightarrow> nat \<Rightarrow> nat \<Rightarrow> waiter_data \<Rightarrow> (bool \<times> waiter_data) option" where
  "acquire t me Outer s =
    (let (ready, s) = try_acquire s
     in if ready then Some (True, s) else map_option (Pair False) (suspend t me Outer s))"

section \<open>The abstract counter\<close>

text \<open>
  A count, the queue of waiters (node, executor, priority, continuation), and what was posted.  At most one of
  count and queue is non-empty.
\<close>

type_synonym waiter = "nat \<times> nat \<times> nat \<times> nat"
type_synonym counter = "nat \<times> waiter list \<times> (nat \<times> nat \<times> nat list) list"

definition posted :: "waiter \<Rightarrow> nat \<times> nat \<times> nat list" where
  "posted w = (case w of (n, ex, prio, h) \<Rightarrow> (ex, prio, [h]))"

datatype sync_op =
    Acquire this_thread nat nat
  | TryAcquire
  | Release size_t
  | CoRelease this_thread nat
  | Unlock
  | CoUnlock this_thread nat
  | Set
  | CoSet this_thread nat

text \<open>The result of a call: whether it acquired, or which coroutine runs next.\<close>

datatype outcome = Acquired bool | Done | Next nat

fun run_op :: "sync_op \<Rightarrow> waiter_data \<Rightarrow> (outcome \<times> waiter_data) option" where
  "run_op (Acquire t n h) s = map_option (\<lambda>(b, s). (Acquired b, s)) (acquire t n h s)"
| "run_op TryAcquire s = (let (b, s) = try_acquire s in Some (Acquired b, s))"
| "run_op (Release k) s = map_option (Pair Done) (semaphore_release k s)"
| "run_op (CoRelease t h) s = map_option (\<lambda>(h, s). (Next h, s)) (semaphore_co_release t h s)"
| "run_op Unlock s = map_option (Pair Done) (mutex_unlock s)"
| "run_op (CoUnlock t h) s = map_option (\<lambda>(h, s). (Next h, s)) (mutex_co_unlock t h s)"
| "run_op Set s = map_option (Pair Done) (event_set s)"
| "run_op (CoSet t h) s = map_option (\<lambda>(h, s). (Next h, s)) (event_co_set t h s)"

definition spec_signal :: "nat \<Rightarrow> counter \<Rightarrow> outcome \<times> counter" where
  "spec_signal c' a = (case a of (c, q, out) \<Rightarrow>
     (Done, c' - length q, drop c' q, out @ map posted (take c' q)))"

definition spec_co_signal :: "this_thread \<Rightarrow> nat \<Rightarrow> nat \<Rightarrow> counter \<Rightarrow> outcome \<times> counter" where
  "spec_co_signal t Outer c' a = (case a of (c, q, out) \<Rightarrow>
     (case take c' q of
        [] \<Rightarrow> (Next Outer, c' - length q, drop c' q, out)
      | (n, ex, prio, h) # ws \<Rightarrow>
          if exec_prio_is t ex prio
          then (Next h, c' - length q, drop c' q, out @ map posted ws @ [(ex, prio, [Outer])])
          else (Next Outer, c' - length q, drop c' q, out @ map posted ws @ [(ex, prio, [h])])))"

fun spec_op :: "sync_op \<Rightarrow> counter \<Rightarrow> outcome \<times> counter" where
  "spec_op (Acquire t n h) (c, q, out) =
    (if 0 < c then (Acquired True, c - 1, q, out) else (Acquired False, 0, q @ [(n, fst t, snd t, h)], out))"
| "spec_op TryAcquire (c, q, out) = (if 0 < c then (Acquired True, c - 1, q, out) else (Acquired False, 0, q, out))"
| "spec_op (Release k) (c, q, out) = spec_signal (c + unat k) (c, q, out)"
| "spec_op (CoRelease t h) (c, q, out) = spec_co_signal t h (c + 1) (c, q, out)"
| "spec_op Unlock (c, q, out) = spec_signal 1 (c, q, out)"
| "spec_op (CoUnlock t h) (c, q, out) = spec_co_signal t h 1 (c, q, out)"
| "spec_op Set (c, q, out) = spec_signal (if 0 < c then c else 1) (c, q, out)"
| "spec_op (CoSet t h) (c, q, out) = spec_co_signal t h (if 0 < c then c else 1) (c, q, out)"

text \<open>
  What the callers owe: a node is not queued twice, the halves do not overflow, and the count of a mutex is at most
  one.
\<close>

fun admissible :: "sync_op \<Rightarrow> counter \<Rightarrow> bool" where
  "admissible (Acquire t n h) (c, q, out) \<longleftrightarrow> n \<notin> fst ` set q \<and> length q + 1 < 2 ^ 32"
| "admissible TryAcquire (c, q, out) \<longleftrightarrow> True"
| "admissible (Release k) (c, q, out) \<longleftrightarrow> c + unat k < 2 ^ 32"
| "admissible (CoRelease t h) (c, q, out) \<longleftrightarrow> c + 1 < 2 ^ 32"
| "admissible Unlock (c, q, out) \<longleftrightarrow> c \<le> 1"
| "admissible (CoUnlock t h) (c, q, out) \<longleftrightarrow> c \<le> 1"
| "admissible Set (c, q, out) \<longleftrightarrow> True"
| "admissible (CoSet t h) (c, q, out) \<longleftrightarrow> True"

fun run_ops :: "sync_op list \<Rightarrow> waiter_data \<Rightarrow> (outcome list \<times> waiter_data) option" where
  "run_ops [] s = Some ([], s)"
| "run_ops (op # ops) s = Option.bind (run_op op s) (\<lambda>(r, s). map_option (\<lambda>(rs, s). (r # rs, s)) (run_ops ops s))"

fun spec_ops :: "sync_op list \<Rightarrow> counter \<Rightarrow> outcome list \<times> counter" where
  "spec_ops [] a = ([], a)"
| "spec_ops (op # ops) a = (let (r, a) = spec_op op a; (rs, a) = spec_ops ops a in (r # rs, a))"

fun admissible_ops :: "sync_op list \<Rightarrow> counter \<Rightarrow> bool" where
  "admissible_ops [] a \<longleftrightarrow> True"
| "admissible_ops (op # ops) a \<longleftrightarrow> admissible op a \<and> admissible_ops ops (snd (spec_op op a))"

section \<open>Refinement\<close>

definition represents :: "waiter_data \<Rightarrow> counter \<Rightarrow> bool" where
  "represents s a = (case a of (c, q, out) \<Rightarrow>
     settled s (map fst q) \<and> count_of (vword s) = c \<and> posts s = out \<and> (\<forall>w \<in> set q. wake_post s (fst w) = posted w))"

text \<open>What a signal does to the word: \<open>raise\<close> in the code, \<open>amount\<close> on the count.\<close>

locale signal =
  fixes raise :: "size_t \<Rightarrow> size_t" and amount :: "nat \<Rightarrow> nat" and ok :: "nat \<Rightarrow> bool"
  assumes raise_count: "ok (count_of v) \<Longrightarrow> count_of (raise v) = amount (count_of v)"
    and raise_waiters: "ok (count_of v) \<Longrightarrow> waiters_of (raise v) = waiters_of v"
begin

lemma wakes:
  assumes "represents s (c, q, out)" and "ok c"
  shows "\<exists>s'. maybe_wake (raise (vword s)) (vword s) symm (s\<lparr>vword := raise (vword s)\<rparr>)
      = Some (if symm \<and> take (amount c) q \<noteq> [] then Some (fst (hd q)) else None, s')
    \<and> represents s' (amount c - length q, drop (amount c) q,
        out @ map posted (if symm then tl (take (amount c) q) else take (amount c) q))
    \<and> wake_post s' = wake_post s"
proof -
  let ?v = "raise (vword s)" and ?w = "take (amount c) q"
  have r: "settled s (map fst q)" "count_of (vword s) = c" "posts s = out" "\<forall>w \<in> set q. wake_post s (fst w) = posted w"
    using assms(1) by (simp_all add: represents_def)
  have v: "count_of ?v = amount c" "waiters_of ?v = waiters_of (vword s)"
    using raise_count [of "vword s"] raise_waiters [of "vword s"] assms(2) r(2) by simp_all
  have w: "woken ?v (map fst q) = map fst ?w" by (simp add: woken_def v(1) take_map)
  have p: "map (wake_post s) (map fst ws) = map posted ws" if "set ws \<subseteq> set q" for ws using r(4) that by auto
  have tl: "map fst (tl ws) = tl (map fst ws)" for ws :: "waiter list" by (cases ws) auto
  have sub2: "set ?w \<subseteq> set q" by (rule set_take_subset)
  then have sub: "set (tl ?w) \<subseteq> set q" "set ?w \<subseteq> set q" by (cases ?w; auto)+
  obtain s' where s': "maybe_wake ?v (vword s) symm (s\<lparr>vword := ?v\<rparr>)
      = Some (if symm \<and> ?w \<noteq> [] then Some (hd (map fst q)) else None, s')"
    "settled s' (map fst (drop (amount c) q))"
    "posts s' = out @ map (wake_post s) (map fst (if symm then tl ?w else ?w))"
    "wake_post s' = wake_post s" "count_of (vword s') = amount c - length q"
    using maybe_wake_signalled [OF r(1) v(2), of symm] unfolding w v(1) r(3) drop_map
    by (auto simp: tl simp del: map_map split: if_splits)
  have "hd (map fst q) = fst (hd q)" if "?w \<noteq> []" using that by (cases q) auto
  moreover have "\<forall>w \<in> set (drop (amount c) q). wake_post s (fst w) = posted w"
    using r(4) set_drop_subset [of "amount c" q] by blast
  ultimately show ?thesis using s' p [OF sub(1)] p [OF sub(2)]
    by (auto simp: represents_def simp del: map_map split: if_splits)
qed

end


lemma unat_ucast_count: "unat (ucast (fst (unpack_value v)) :: size_t) = count_of v"
proof -
  have "unat (ucast (fst (unpack_value v)) :: size_t) = take_bit LENGTH(64) (unat (fst (unpack_value v)))"
    by (rule unsigned_ucast_eq)
  also have "\<dots> = count_of v" unfolding unpack_count using count_of_less [of v] by (simp add: take_bit_nat_eq_self)
  finally show ?thesis .
qed

lemma try_acquire_halves:
  "count_of v \<le> waiters_of v \<Longrightarrow> vword s = v \<Longrightarrow> try_acquire s = (False, s)"
  "waiters_of v < count_of v \<Longrightarrow> vword s = v \<Longrightarrow> \<exists>v'. try_acquire s = (True, s\<lparr>vword := v'\<rparr>)
    \<and> count_of v' = count_of v - 1 \<and> waiters_of v' = waiters_of v"
proof -
  obtain cnt w where u: "unpack_value v = (cnt, w)" by (cases "unpack_value v")
  have c: "unat (ucast cnt :: size_t) = count_of v" "unat cnt = count_of v" "unat w = waiters_of v"
    using unat_ucast_count [of v] unpack_count [of v] unpack_waiters [of v] u by simp_all
  show "try_acquire s = (False, s)" if "count_of v \<le> waiters_of v" "vword s = v"
    using that u c by (simp add: try_acquire_def word_le_nat_alt)
  assume a: "waiters_of v < count_of v" "vword s = v"
  have "try_acquire s = (True, s\<lparr>vword := pack_value (cnt - 1) w\<rparr>)"
    using a u c by (simp add: try_acquire_def word_le_nat_alt)
  moreover have "unat (cnt - 1) = count_of v - 1" using unat_minus [of 1 cnt] a(1) c(2) by simp
  moreover have "unat w < 2 ^ 32" using c(3) waiters_of_less [of v] by simp
  ultimately show "\<exists>v'. try_acquire s = (True, s\<lparr>vword := v'\<rparr>) \<and> count_of v' = count_of v - 1
      \<and> waiters_of v' = waiters_of v"
    using pack_halves [of w "cnt - 1"] c(3) by auto
qed

lemma event_full_iff: "event_full v \<longleftrightarrow> waiters_of v + 1 \<le> count_of v"
proof -
  have "unat (snd (unpack_value v) + 1) = waiters_of v + 1"
    using waiters_of_less [of v] unat_plus_fits [of "snd (unpack_value v)" 1] by (simp add: unpack_waiters)
  then show ?thesis by (simp add: event_full_def split_def word_le_nat_alt unat_ucast_count)
qed

section \<open>The three signals\<close>

interpretation release: signal "\<lambda>v. k + v" "\<lambda>c. c + unat k" "\<lambda>c. c + unat k < 2 ^ 32" for k
  by unfold_locales (simp_all add: add_count)

lemma unlock_halves:
  assumes "count_of v \<le> 1"
  shows "count_of (UNLOCKED OR v) = 1" and "waiters_of (UNLOCKED OR v) = waiters_of v"
proof -
  have "count_of (v OR 1) = 1 \<and> waiters_of (v OR 1) = waiters_of v"
  proof (cases "count_of v = 0")
    case True
    then show ?thesis using or_one [OF True] add_count [of v 1] by simp
  next
    case False
    then have "unat v = waiters_of v * 2 ^ 32 + 1" using assms halves_eq [of v] by simp
    then have "bit (unat v) 0" by (simp add: bit_0)
    then have "bit v 0" by (simp add: bit_unsigned_iff)
    then have "v OR 1 = v" by (intro bit_eqI) (auto simp: bit_or_iff bit_1_iff)
    then show ?thesis using False assms by simp
  qed
  then show "count_of (UNLOCKED OR v) = 1" "waiters_of (UNLOCKED OR v) = waiters_of v"
    by (simp_all add: UNLOCKED_def or.commute)
qed

interpretation unlock: signal "\<lambda>v. UNLOCKED OR v" "\<lambda>c. 1" "\<lambda>c. c \<le> 1"
  by unfold_locales (simp_all add: unlock_halves)

text \<open>What the caller runs after a symmetric wake.\<close>

lemma hand_over_represents:
  assumes "represents s' (c, q, out)" and "wake_post s' n = (ex, prio, [h])"
  shows "\<exists>s''. hand_over t Outer (Some n, s') = (if exec_prio_is t ex prio then h else Outer, s'')
    \<and> represents s'' (c, q, out @ [(ex, prio, [if exec_prio_is t ex prio then Outer else h])])"
proof -
  have n: "continuation_executor (nodes s' n) = ex" "continuation_priority (nodes s' n) = prio"
    "continuation (nodes s' n) = h" using assms(2) by (simp_all add: wake_post_def Let_def)
  have keep: "represents (post e p cs s') (c, q, out @ [(e, p, cs)])" for e p cs
    using assms(1) by (auto simp: represents_def settled_def queued_def wake_post_def)
  have "resume n s' = post ex prio [h] s'" using n by (simp add: resume_def)
  then show ?thesis using keep n by (auto simp: hand_over_def try_symmetric_transfer_def Let_def)
qed

context signal
begin

lemma signal_refines:
  assumes "represents s (c, q, out)" and "ok c"
  shows "\<exists>s'. map_option (Pair Done) (map_option snd
      (maybe_wake (raise (vword s)) (vword s) False (s\<lparr>vword := raise (vword s)\<rparr>))) = Some (Done, s')
    \<and> represents s' (snd (spec_signal (amount c) (c, q, out)))"
  using wakes [OF assms, of False] by (auto simp: spec_signal_def)

lemma co_signal_refines:
  assumes "represents s (c, q, out)" and "ok c"
  shows "\<exists>s' h'. map_option (hand_over t Outer)
      (maybe_wake (raise (vword s)) (vword s) True (s\<lparr>vword := raise (vword s)\<rparr>)) = Some (h', s')
    \<and> fst (spec_co_signal t Outer (amount c) (c, q, out)) = Next h'
    \<and> represents s' (snd (spec_co_signal t Outer (amount c) (c, q, out)))"
proof -
  obtain s' where s': "maybe_wake (raise (vword s)) (vword s) True (s\<lparr>vword := raise (vword s)\<rparr>)
      = Some (if take (amount c) q \<noteq> [] then Some (fst (hd q)) else None, s')"
    "represents s' (amount c - length q, drop (amount c) q, out @ map posted (tl (take (amount c) q)))"
    "wake_post s' = wake_post s" using wakes [OF assms, of True] by auto
  show ?thesis
  proof (cases "take (amount c) q")
    case Nil
    then show ?thesis using s'(1,2) by (auto simp: hand_over_def spec_co_signal_def)
  next
    case (Cons w ws)
    obtain n ex prio h where w: "w = (n, ex, prio, h)" by (cases w)
    have q: "q \<noteq> []" "hd q = w" using Cons by (cases q; cases "amount c"; auto)+
    then have "w \<in> set q" using hd_in_set by metis
    then have "wake_post s n = (ex, prio, [h])"
      using assms(1) w by (auto simp: represents_def posted_def dest!: bspec [of _ _ w])
    then have p: "wake_post s' n = (ex, prio, [h])" using s'(3) by simp
    obtain s'' where s'': "hand_over t Outer (Some n, s') = (if exec_prio_is t ex prio then h else Outer, s'')"
      "represents s'' (amount c - length q, drop (amount c) q,
        (out @ map posted ws) @ [(ex, prio, [if exec_prio_is t ex prio then Outer else h])])"
      using hand_over_represents [OF s'(2) p, of t Outer] Cons by auto
    show ?thesis using s'(1) s'' q w Cons by (auto simp: spec_co_signal_def)
  qed
qed

end


section \<open>Every call refines the abstract counter\<close>

lemma try_acquire_refines:
  assumes "represents s (c, q, out)"
  shows "if 0 < c then \<exists>s'. try_acquire s = (True, s') \<and> represents s' (c - 1, q, out) \<and> q = []
    else try_acquire s = (False, s)"
proof -
  have r: "settled s (map fst q)" "count_of (vword s) = c" "length q = waiters_of (vword s)" "c = 0 \<or> q = []"
    using assms by (auto simp: represents_def settled_def)
  show ?thesis
  proof (cases "0 < c")
    case True
    then have q: "q = []" "waiters_of (vword s) < count_of (vword s)" using r by auto
    obtain v' where "try_acquire s = (True, s\<lparr>vword := v'\<rparr>)" "count_of v' = c - 1" "waiters_of v' = 0"
      using try_acquire_halves(2) [OF q(2) refl] r(2,3) q(1) by auto
    then show ?thesis using True assms q(1) by (auto simp: represents_def settled_def)
  next
    case False
    then show ?thesis using try_acquire_halves(1) [OF _ refl, of s] r by simp
  qed
qed

lemma acquire_refines:
  assumes "represents s (c, q, out)" and "n \<notin> fst ` set q" and "length q + 1 < 2 ^ 32"
  shows "\<exists>s'. acquire t n h s = Some (0 < c, s')
    \<and> represents s' (if 0 < c then (c - 1, q, out) else (0, q @ [(n, fst t, snd t, h)], out))"
proof (cases "0 < c")
  case True
  then show ?thesis using try_acquire_refines [OF assms(1)] by (auto simp: acquire_def)
next
  case False
  have r: "settled s (map fst q)" "count_of (vword s) = 0" "posts s = out"
    "\<forall>w \<in> set q. wake_post s (fst w) = posted w" using assms(1) False by (simp_all add: represents_def)
  have n: "n \<notin> set (map fst q)" "length (map fst q) + 1 < 2 ^ 32" using assms(2,3) by simp_all
  obtain s' where s': "suspend t n h s = Some s'" "settled s' (map fst q @ [n])" "posts s' = out"
    "count_of (vword s') = 0" "wake_post s' = (wake_post s)(n := (fst t, snd t, [h]))"
    using suspend_spec [OF r(1) n, of t h] r(2,3) by auto
  have "\<forall>w \<in> set (q @ [(n, fst t, snd t, h)]). wake_post s' (fst w) = posted w"
    using r(4) s'(5) assms(2) by (auto simp: posted_def)
  then have "represents s' (0, q @ [(n, fst t, snd t, h)], out)"
    unfolding represents_def prod.case using s'(2-4) by (intro conjI) (simp_all only: map_append list.map fst_conv)
  moreover have "acquire t n h s = Some (False, s')"
    using s'(1) try_acquire_refines [OF assms(1)] False by (simp add: acquire_def)
  ultimately show ?thesis using False by simp
qed

lemma event_full_represents:
  assumes "represents s (c, q, out)"
  shows "event_full (vword s) \<longleftrightarrow> 0 < c" and "0 < c \<Longrightarrow> q = []"
proof -
  have r: "count_of (vword s) = c" "length q = waiters_of (vword s)" "c = 0 \<or> q = []"
    using assms by (auto simp: represents_def settled_def)
  then show "event_full (vword s) \<longleftrightarrow> 0 < c" "0 < c \<Longrightarrow> q = []" by (auto simp: event_full_iff)
qed

lemma run_op_refines:
  assumes "represents s a" and "admissible op a"
  shows "\<exists>s'. run_op op s = Some (fst (spec_op op a), s') \<and> represents s' (snd (spec_op op a))"
proof -
  obtain c q out where a: "a = (c, q, out)" by (cases a)
  note r = assms(1) [unfolded a]
  show ?thesis
  proof (cases op)
    case (Acquire t n h)
    then show ?thesis using acquire_refines [OF r, of n t h] assms(2) a by auto
  next
    case TryAcquire
    then show ?thesis using try_acquire_refines [OF r] r a
      by (cases "0 < c") (auto simp: Let_def)
  next
    case (Release k)
    then have ok: "c + unat k < 2 ^ 32" using assms(2) a by simp
    show ?thesis using release.signal_refines [OF r ok] Release a
      by (auto simp: semaphore_release_def Let_def spec_signal_def)
  next
    case (CoRelease t h)
    then have ok: "c + unat (1 :: size_t) < 2 ^ 32" using assms(2) a by simp
    show ?thesis using release.co_signal_refines [OF r ok, of t h] CoRelease a
      by (auto simp: semaphore_co_release_def Let_def)
  next
    case Unlock
    then have ok: "c \<le> 1" using assms(2) a by simp
    show ?thesis using unlock.signal_refines [OF r ok] Unlock a
      by (auto simp: mutex_unlock_def Let_def spec_signal_def)
  next
    case (CoUnlock t h)
    then have ok: "c \<le> 1" using assms(2) a by simp
    show ?thesis using unlock.co_signal_refines [OF r ok, of t h] CoUnlock a
      by (auto simp: mutex_co_unlock_def Let_def)
  next
    case Set
    show ?thesis
    proof (cases "0 < c")
      case True
      then show ?thesis using event_full_represents [OF r] r Set a
        by (auto simp: event_set_def spec_signal_def)
    next
      case False
      then have ok: "c + unat (1 :: size_t) < 2 ^ 32" by simp
      show ?thesis using release.signal_refines [OF r ok] Set a False event_full_represents(1) [OF r]
        by (auto simp: event_set_def Let_def spec_signal_def)
    qed
  next
    case (CoSet t h)
    show ?thesis
    proof (cases "0 < c")
      case True
      then show ?thesis using event_full_represents [OF r] r CoSet a
        by (auto simp: event_co_set_def spec_co_signal_def)
    next
      case False
      then have ok: "c + unat (1 :: size_t) < 2 ^ 32" by simp
      show ?thesis using release.co_signal_refines [OF r ok, of t h] CoSet a False event_full_represents(1) [OF r]
        by (auto simp: event_co_set_def Let_def)
    qed
  qed
qed

lemma run_ops_refine:
  "represents s a \<Longrightarrow> admissible_ops ops a
    \<Longrightarrow> \<exists>s'. run_ops ops s = Some (fst (spec_ops ops a), s') \<and> represents s' (snd (spec_ops ops a))"
proof (induction ops arbitrary: s a)
  case (Cons op ops)
  obtain s1 where s1: "run_op op s = Some (fst (spec_op op a), s1)" "represents s1 (snd (spec_op op a))"
    using run_op_refines [OF Cons.prems(1)] Cons.prems(2) by auto
  then show ?case using Cons.IH [OF s1(2)] Cons.prems(2) by (auto simp: split_def Let_def)
qed simp


lemma represents_new:
  "represents (semaphore_new k s) (unat k, [], posts s)"
  "represents (mutex_new s) (1, [], posts s)"
  "represents (auto_reset_event_new b s) (if b then 1 else 0, [], posts s)"
proof -
  have new: "represents (s\<lparr>in_stack := None, out_list := None, vword := v\<rparr>) (c, [], posts s)"
    if "unat v = 0 * 2 ^ 32 + c" "c < 2 ^ 32" for v c
    using halves_unique [OF that] by (auto simp: represents_def settled_def queued_def)
  have "unat (ucast k :: size_t) = take_bit LENGTH(64) (unat k)" by (rule unsigned_ucast_eq)
  also have "\<dots> = unat k" using unat_32 [of k] by (simp add: take_bit_nat_eq_self)
  finally show "represents (semaphore_new k s) (unat k, [], posts s)"
    unfolding semaphore_new_def using unat_32 [of k] by (intro new) simp_all
  show "represents (mutex_new s) (1, [], posts s)"
    unfolding mutex_new_def UNLOCKED_def by (rule new) simp_all
  show "represents (auto_reset_event_new b s) (if b then 1 else 0, [], posts s)"
    unfolding auto_reset_event_new_def by (rule new) simp_all
qed

text \<open>
  C22: Any admissible sequence of calls on a new mutex, semaphore or automatic-reset event (acquire, try, release,
  unlock, set and their symmetric variants) returns, and gives the results, the posts and the queue of an abstract
  counter with a first-in first-out queue of waiters: a signal posts the oldest waiters, as many as it pays for.
\<close>

theorem sync_calls_refine_counter:
  assumes "(s, c) \<in> {(mutex_new s0, 1), (semaphore_new k s0, unat k), (auto_reset_event_new b s0, if b then 1 else 0)}"
    and "admissible_ops ops (c, [], posts s0)"
  shows "\<exists>s'. run_ops ops s = Some (fst (spec_ops ops (c, [], posts s0)), s')
    \<and> represents s' (snd (spec_ops ops (c, [], posts s0)))"
proof -
  have "represents s (c, [], posts s0)" using assms(1) represents_new by auto
  then show ?thesis using assms(2) by (rule run_ops_refine)
qed

definition no_waiters :: waiter_data where
  "no_waiters = \<lparr>nodes = (\<lambda>_. \<lparr>nxt = None, continuation = 0, continuation_executor = 0, continuation_priority = 0\<rparr>),
     in_stack = None, out_list = None, vword = 0, posts = []\<rparr>"

theorem sync_calls_refine_counter_witness:
  "\<exists>s'. run_ops [Acquire (1, 0) 5 50, Acquire (1, 0) 6 60, Acquire (2, 0) 7 70, Unlock, CoUnlock (1, 0) 80]
      (mutex_new no_waiters) = Some ([Acquired True, Acquired False, Acquired False, Done, Next 80], s')
    \<and> represents s' (0, [], [(1, 0, [60]), (2, 0, [70])])"
proof -
  let ?ops = "[Acquire (1, 0) 5 50, Acquire (1, 0) 6 60, Acquire (2, 0) 7 70, Unlock, CoUnlock (1, 0) 80]"
  have p: "posts no_waiters = []" by (simp add: no_waiters_def)
  have spec: "spec_ops ?ops (1, [], []) = ([Acquired True, Acquired False, Acquired False, Done, Next 80],
      (0, [], [(1, 0, [60]), (2, 0, [70])]))"
    by (simp add: spec_signal_def spec_co_signal_def posted_def exec_prio_is_def)
  have "admissible_ops ?ops (1, [], [])" by (simp add: spec_signal_def posted_def)
  then show ?thesis using sync_calls_refine_counter [of "mutex_new no_waiters" 1 no_waiters 0 False ?ops]
    unfolding p spec by simp
qed

section \<open>Ending the caller while waking\<close>

text \<open>The coroutines that a call hands on: the one returned, and those posted.\<close>

definition handed_on :: "nat option \<times> waiter_data \<Rightarrow> waiter_data \<Rightarrow> nat multiset" where
  "handed_on r s = (case r of (next, s') \<Rightarrow>
     (case next of None \<Rightarrow> {#} | Some h \<Rightarrow> {#h#})
       + mset (concat (map (\<lambda>(ex, prio, cs). cs) (drop (length (posts s)) (posts s')))))"

text \<open>
  \<open>try_symmetric_transfer2_waiter\<close> hands on the waiter and the continuation exactly once each, by returning or by
  posting, and returns one only if its executor and priority are those of the calling thread.
\<close>

lemma transfer2_conserves:
  "handed_on (try_symmetric_transfer2 t ToWake Continuation Executor Priority s) s
     = (case ToWake of None \<Rightarrow> {#} | Some n \<Rightarrow> {#continuation (nodes s n)#})
       + (case Continuation of None \<Rightarrow> {#} | Some c \<Rightarrow> {#c#})
   \<and> (case fst (try_symmetric_transfer2 t ToWake Continuation Executor Priority s) of
        None \<Rightarrow> True
      | Some h \<Rightarrow> (\<exists>n. ToWake = Some n \<and> h = continuation (nodes s n)
          \<and> exec_prio_is t (continuation_executor (nodes s n)) (continuation_priority (nodes s n)))
        \<or> Continuation = Some h \<and> exec_prio_is t Executor Priority)"
  by (cases ToWake; cases Continuation)
    (simp_all add: try_symmetric_transfer2_def handed_on_def Let_def split_def)

end
