(* ===== verification/SyncSteps.thy ===== *)
theory SyncSteps
  imports SyncPrimitives
begin

text \<open>
  The waiter list under contention: any number of threads acquire and signal one mutex, semaphore or
  automatic-reset event, each atomic access to \<open>value\<close> or \<open>input\<close> a step of its own (sequentially consistent).
  The stacks are lists of nodes, newest first for \<open>input\<close>; the pointer structure behind them is that of theory
  \<open>WaiterList\<close>, the words and their operations are the same definitions.
\<close>

section \<open>Threads\<close>

datatype pc =
    Idle
  | TryCas size_t "nat option"             \<comment> \<open>\<open>try_acquire\<close>: the word loaded; the node to queue when it fails\<close>
  | Push nat                               \<comment> \<open>\<open>configure_and_add_waiter\<close> before the load of \<open>input\<close>\<close>
  | PushCas nat "nat option"               \<comment> \<open>\<dots> before the exchange, with the expected head\<close>
  | Pushed nat                             \<comment> \<open>\<open>suspend\<close> before the \<open>fetch_add\<close>\<close>
  | SetCas size_t                          \<comment> \<open>\<open>auto_reset_event::set\<close> before the exchange\<close>
  | Taking size_t nat size_t "nat list"    \<comment> \<open>\<open>maybe_wake\<close>: word, still to take, size of the round, taken so far\<close>
  | SubCas size_t size_t "nat list"        \<comment> \<open>\<dots> before the exchange that subtracts the round\<close>
  | Resuming "nat list"                    \<comment> \<open>\<dots> resuming what it took\<close>

record sync =
  cell :: size_t
  inq :: "nat list"
  outq :: "nat list"
  pcs :: "nat \<Rightarrow> pc"
  pushed :: "nat list"   \<comment> \<open>history: nodes in the order of their pushes\<close>
  taken :: "nat list"    \<comment> \<open>history: nodes in the order in which they were taken\<close>
  resumed :: "nat list"  \<comment> \<open>history: nodes in the order in which they were resumed\<close>
  granted :: nat         \<comment> \<open>history: units handed out\<close>
  signals :: nat         \<comment> \<open>history: units signalled\<close>

datatype kind = Mutex | Semaphore | Event

section \<open>The local decisions\<close>

definition can_take :: "size_t \<Rightarrow> bool" where
  "can_take v = (let (cnt, waiterCount) = unpack_value v in \<not> (ucast cnt :: size_t) \<le> waiterCount)"

definition after_load :: "size_t \<Rightarrow> nat option \<Rightarrow> pc" where
  "after_load v n = (if can_take v then TryCas v n else case n of None \<Rightarrow> Idle | Some n \<Rightarrow> Push n)"

definition minus_one :: "size_t \<Rightarrow> size_t" where
  "minus_one v = (let (cnt, waiterCount) = unpack_value v in pack_value (cnt - 1) waiterCount)"

text \<open>\<open>maybe_wake\<close> from its call to the first \<open>must_take_1\<close>, and from one round to the next.\<close>

definition enters :: "size_t \<Rightarrow> bool" where
  "enters old = (let (oldCount, oldWaiterCount) = unpack_value old in (oldCount = 0) \<noteq> (oldWaiterCount = 0))"

definition after_add :: "size_t \<Rightarrow> size_t \<Rightarrow> pc" where
  "after_add v old =
    (if enters old \<and> wake_count v \<noteq> 0 then Taking v (unat (wake_count v)) (wake_count v) [] else Idle)"

definition next_round :: "size_t \<Rightarrow> nat list \<Rightarrow> pc" where
  "next_round v ws = (if wake_count v \<noteq> 0 then Taking v (unat (wake_count v)) (wake_count v) ws else Resuming ws)"

definition after_set_load :: "size_t \<Rightarrow> pc" where
  "after_set_load v = (if event_full v then Idle else SetCas v)"

fun head_of :: "nat list \<Rightarrow> nat option" where
  "head_of [] = None"
| "head_of (x # xs) = Some x"

fun take_head :: "nat list \<Rightarrow> nat list \<Rightarrow> (nat \<times> nat list \<times> nat list) option" where
  "take_head (x # outs) ins = Some (x, outs, ins)"
| "take_head [] ins = (case rev ins of [] \<Rightarrow> None | x # outs \<Rightarrow> Some (x, outs, []))"

section \<open>Steps\<close>

definition goto :: "nat \<Rightarrow> pc \<Rightarrow> sync \<Rightarrow> sync" where
  "goto a x s = s\<lparr>pcs := (pcs s)(a := x)\<rparr>"

inductive sync_step :: "kind \<Rightarrow> sync \<Rightarrow> sync \<Rightarrow> bool" for K where
  try_load: "pcs s a = Idle \<Longrightarrow> sync_step K s (goto a (after_load (cell s) n) s)"
| try_ok: "pcs s a = TryCas v n \<Longrightarrow> cell s = v \<Longrightarrow>
    sync_step K s (goto a Idle (s\<lparr>cell := minus_one v, granted := granted s + 1\<rparr>))"
| try_fail: "pcs s a = TryCas v n \<Longrightarrow> cell s \<noteq> v \<Longrightarrow> sync_step K s (goto a (after_load (cell s) n) s)"
| push_load: "pcs s a = Push n \<Longrightarrow> sync_step K s (goto a (PushCas n (head_of (inq s))) s)"
| push_ok: "pcs s a = PushCas n h \<Longrightarrow> head_of (inq s) = h \<Longrightarrow>
    sync_step K s (goto a (Pushed n) (s\<lparr>inq := n # inq s, pushed := pushed s @ [n]\<rparr>))"
| push_fail: "pcs s a = PushCas n h \<Longrightarrow> head_of (inq s) \<noteq> h \<Longrightarrow>
    sync_step K s (goto a (PushCas n (head_of (inq s))) s)"
| suspend_add: "pcs s a = Pushed n \<Longrightarrow> waiters_of (cell s) + 1 < 2 ^ 32 \<Longrightarrow> v = one_waiter + cell s \<Longrightarrow>
    sync_step K s (goto a (after_add v (cell s)) (s\<lparr>cell := v\<rparr>))"
| release: "K = Semaphore \<Longrightarrow> pcs s a = Idle \<Longrightarrow> count_of (cell s) + unat k < 2 ^ 32 \<Longrightarrow> v = k + cell s \<Longrightarrow>
    sync_step K s (goto a (after_add v (cell s)) (s\<lparr>cell := v, signals := signals s + unat k\<rparr>))"
| unlock: "K = Mutex \<Longrightarrow> pcs s a = Idle \<Longrightarrow> signals s < granted s \<Longrightarrow> v = UNLOCKED OR cell s \<Longrightarrow>
    sync_step K s (goto a (after_add v (cell s)) (s\<lparr>cell := v, signals := signals s + 1\<rparr>))"
| set_load: "K = Event \<Longrightarrow> pcs s a = Idle \<Longrightarrow> sync_step K s (goto a (after_set_load (cell s)) s)"
| set_ok: "K = Event \<Longrightarrow> pcs s a = SetCas old \<Longrightarrow> cell s = old \<Longrightarrow> count_of old + 1 < 2 ^ 32 \<Longrightarrow> v = 1 + old \<Longrightarrow>
    sync_step K s (goto a (after_add v old) (s\<lparr>cell := v, signals := signals s + 1\<rparr>))"
| set_fail: "K = Event \<Longrightarrow> pcs s a = SetCas old \<Longrightarrow> cell s \<noteq> old \<Longrightarrow> sync_step K s (goto a (after_set_load (cell s)) s)"
| take: "pcs s a = Taking v (Suc i) k ws \<Longrightarrow> take_head (outq s) (inq s) = Some (x, outs, ins) \<Longrightarrow>
    sync_step K s (goto a (Taking v i k (ws @ [x])) (s\<lparr>outq := outs, inq := ins, taken := taken s @ [x]\<rparr>))"
| took: "pcs s a = Taking v 0 k ws \<Longrightarrow> sync_step K s (goto a (SubCas v k ws) s)"
| sub_ok: "pcs s a = SubCas v k ws \<Longrightarrow> cell s = v \<Longrightarrow> v' = minus_both v k \<Longrightarrow>
    sync_step K s (goto a (next_round v' ws) (s\<lparr>cell := v', granted := granted s + unat k\<rparr>))"
| sub_fail: "pcs s a = SubCas v k ws \<Longrightarrow> cell s \<noteq> v \<Longrightarrow> sync_step K s (goto a (SubCas (cell s) k ws) s)"
| resume: "pcs s a = Resuming (x # ws) \<Longrightarrow>
    sync_step K s (goto a (if ws = [] then Idle else Resuming ws) (s\<lparr>resumed := resumed s @ [x]\<rparr>))"

definition sync_new :: "size_t \<Rightarrow> sync" where
  "sync_new v = \<lparr>cell = v, inq = [], outq = [], pcs = (\<lambda>_. Idle), pushed = [], taken = [], resumed = [],
     granted = 0, signals = 0\<rparr>"

fun initial :: "kind \<Rightarrow> size_t \<Rightarrow> bool" where
  "initial Mutex v \<longleftrightarrow> v = UNLOCKED"
| "initial Semaphore v \<longleftrightarrow> unat v < 2 ^ 32"
| "initial Event v \<longleftrightarrow> v = 0 \<or> v = 1"

inductive sync_reachable :: "kind \<Rightarrow> size_t \<Rightarrow> sync \<Rightarrow> bool" for K v where
  start: "initial K v \<Longrightarrow> sync_reachable K v (sync_new v)"
| step: "sync_reachable K v s \<Longrightarrow> sync_step K s s' \<Longrightarrow> sync_reachable K v s'"

section \<open>The invariant\<close>

fun crit :: "pc \<Rightarrow> bool" where
  "crit (Taking v i k ws) \<longleftrightarrow> True"
| "crit (SubCas v k ws) \<longleftrightarrow> True"
| "crit _ \<longleftrightarrow> False"

fun hand :: "pc \<Rightarrow> nat" where
  "hand (Taking v i k ws) = unat k - i"
| "hand (SubCas v k ws) = unat k"
| "hand _ = 0"

fun round_ok :: "pc \<Rightarrow> nat \<Rightarrow> nat \<Rightarrow> bool" where
  "round_ok (Taking v i k ws) c w \<longleftrightarrow> i \<le> unat k \<and> 0 < unat k \<and> unat k \<le> c \<and> unat k \<le> w"
| "round_ok (SubCas v k ws) c w \<longleftrightarrow> 0 < unat k \<and> unat k \<le> c \<and> unat k \<le> w"
| "round_ok _ c w \<longleftrightarrow> True"

fun is_pushed :: "pc \<Rightarrow> bool" where
  "is_pushed (Pushed n) \<longleftrightarrow> True"
| "is_pushed _ \<longleftrightarrow> False"

definition uncounted :: "sync \<Rightarrow> nat" where
  "uncounted s = card {a. is_pushed (pcs s a)}"

abbreviation cnt :: "sync \<Rightarrow> nat" where "cnt s \<equiv> count_of (cell s)"
abbreviation wtr :: "sync \<Rightarrow> nat" where "wtr s \<equiv> waiters_of (cell s)"
abbreviation waiting :: "sync \<Rightarrow> nat list" where "waiting s \<equiv> outq s @ rev (inq s)"
abbreviation busy :: "sync \<Rightarrow> bool" where "busy s \<equiv> 0 < cnt s \<and> 0 < wtr s"

definition sync_inv :: "sync \<Rightarrow> bool" where
  "sync_inv s \<longleftrightarrow> finite {a. pcs s a \<noteq> Idle}
     \<and> (\<forall>a b. crit (pcs s a) \<longrightarrow> crit (pcs s b) \<longrightarrow> a = b)
     \<and> (if busy s then \<exists>a. crit (pcs s a) \<and> wtr s + uncounted s = length (waiting s) + hand (pcs s a)
        else (\<forall>a. \<not> crit (pcs s a)) \<and> wtr s + uncounted s = length (waiting s))
     \<and> (\<forall>a. round_ok (pcs s a) (cnt s) (wtr s))"


lemma not_crit [simp]: "\<not> crit x \<Longrightarrow> hand x = 0" "\<not> crit x \<Longrightarrow> round_ok x c w"
  by (cases x; simp)+

lemma round_ok_mono: "round_ok x c w \<Longrightarrow> min c w \<le> min c' w' \<Longrightarrow> round_ok x c' w'"
  by (cases x) auto

lemma finite_upd: "finite {b. f b \<noteq> Idle} \<Longrightarrow> finite {b. (f(a := x)) b \<noteq> Idle}"
  by (rule finite_subset [of _ "insert a {b. f b \<noteq> Idle}"]) auto

lemma sync_inv_busyI:
  assumes "finite {a. pcs s a \<noteq> Idle}" and "busy s" and "crit (pcs s a)" and "\<And>b. crit (pcs s b) \<Longrightarrow> b = a"
    and "wtr s + uncounted s = length (waiting s) + hand (pcs s a)" and "round_ok (pcs s a) (cnt s) (wtr s)"
  shows "sync_inv s"
proof -
  have r: "round_ok (pcs s b) (cnt s) (wtr s)" for b
    using assms(4) [of b] assms(6) by (cases "crit (pcs s b)") simp_all
  show ?thesis unfolding sync_inv_def if_P [OF assms(2)]
    by (intro conjI allI impI assms(1) exI [of _ a] assms(3,5) r) (metis assms(4))
qed

lemma sync_inv_idleI:
  assumes "finite {a. pcs s a \<noteq> Idle}" and "\<not> busy s" and "\<And>a. \<not> crit (pcs s a)"
    and "wtr s + uncounted s = length (waiting s)"
  shows "sync_inv s"
  unfolding sync_inv_def if_not_P [OF assms(2)] using assms(3) by (intro conjI allI impI assms(1,4)) simp_all

lemma sync_inv_finite: "sync_inv s \<Longrightarrow> finite {a. pcs s a \<noteq> Idle}"
  by (simp only: sync_inv_def)

lemma sync_inv_idle:
  assumes "sync_inv s" and "\<not> busy s"
  shows "\<not> crit (pcs s a)" and "wtr s + uncounted s = length (waiting s)"
  using assms(1) unfolding sync_inv_def if_not_P [OF assms(2)] by blast+

lemma sync_inv_busy:
  assumes "sync_inv s" and "busy s"
  obtains a where "crit (pcs s a)" and "\<And>b. crit (pcs s b) \<Longrightarrow> b = a"
    and "wtr s + uncounted s = length (waiting s) + hand (pcs s a)" and "round_ok (pcs s a) (cnt s) (wtr s)"
  using assms(1) unfolding sync_inv_def if_P [OF assms(2)] by blast

lemma crit_busy:
  assumes "sync_inv s" and "crit (pcs s a)"
  shows "busy s" and "wtr s + uncounted s = length (waiting s) + hand (pcs s a)" and "round_ok (pcs s a) (cnt s) (wtr s)"
    and "crit (pcs s b) \<Longrightarrow> b = a"
proof -
  show b: "busy s" using sync_inv_idle(1) [OF assms(1)] assms(2) by blast
  obtain a' where a': "crit (pcs s a')" "\<And>b. crit (pcs s b) \<Longrightarrow> b = a'"
    "wtr s + uncounted s = length (waiting s) + hand (pcs s a')" "round_ok (pcs s a') (cnt s) (wtr s)"
    using sync_inv_busy [OF assms(1) b] by blast
  have eq: "a' = a" using a'(2) [OF assms(2)] by (rule sym)
  show "wtr s + uncounted s = length (waiting s) + hand (pcs s a)" "round_ok (pcs s a) (cnt s) (wtr s)"
    "crit (pcs s b) \<Longrightarrow> b = a" using a'(2-4) unfolding eq by auto
qed

text \<open>The four kinds of step: outside the critical section, entering it, inside it, leaving it.\<close>

lemma inv_stay:
  assumes "sync_inv s" and "pcs s' = (pcs s)(a := x)" and "\<not> crit (pcs s a)" and "\<not> crit x"
    and "busy s' \<longleftrightarrow> busy s" and "min (cnt s) (wtr s) \<le> min (cnt s') (wtr s')"
    and "wtr s' + uncounted s' + length (waiting s) = wtr s + uncounted s + length (waiting s')"
  shows "sync_inv s'"
proof -
  have fin: "finite {b. pcs s' b \<noteq> Idle}" unfolding assms(2) by (rule finite_upd [OF sync_inv_finite [OF assms(1)]])
  have c: "crit (pcs s' b) = crit (pcs s b)" and h: "crit (pcs s b) \<Longrightarrow> pcs s' b = pcs s b" for b
    using assms(3,4) unfolding assms(2) by auto
  show ?thesis
  proof (cases "busy s")
    case True
    obtain b where b: "crit (pcs s b)" "\<And>d. crit (pcs s d) \<Longrightarrow> d = b"
      "wtr s + uncounted s = length (waiting s) + hand (pcs s b)" "round_ok (pcs s b) (cnt s) (wtr s)"
      using sync_inv_busy [OF assms(1) True] by blast
    show ?thesis
    proof (rule sync_inv_busyI [OF fin])
      show "busy s'" using True assms(5) by blast
      show "crit (pcs s' b)" "\<And>d. crit (pcs s' d) \<Longrightarrow> d = b" using b(1,2) unfolding c by blast+
      show "wtr s' + uncounted s' = length (waiting s') + hand (pcs s' b)"
        using b(3) assms(7) unfolding h [OF b(1)] by linarith
      show "round_ok (pcs s' b) (cnt s') (wtr s')"
        unfolding h [OF b(1)] by (rule round_ok_mono [OF b(4) assms(6)])
    qed
  next
    case False
    note n = sync_inv_idle [OF assms(1) False]
    have "\<not> busy s'" using False assms(5) by blast
    then show ?thesis
    proof (rule sync_inv_idleI [OF fin])
      show "\<not> crit (pcs s' b)" for b using n(1) c by simp
      show "wtr s' + uncounted s' = length (waiting s')" using n(2) assms(7) by linarith
    qed
  qed
qed

lemma inv_enter:
  assumes "sync_inv s" and "pcs s' = (pcs s)(a := x)" and "crit x" and "hand x = 0"
    and "\<not> busy s" and "busy s'" and "round_ok x (cnt s') (wtr s')"
    and "wtr s' + uncounted s' + length (waiting s) = wtr s + uncounted s + length (waiting s')"
  shows "sync_inv s'"
proof -
  note n = sync_inv_idle [OF assms(1,5)]
  have a: "pcs s' a = x" by (simp add: assms(2))
  have "b = a" if "crit (pcs s' b)" for b using n(1) [of b] that by (cases "b = a") (simp_all add: assms(2))
  then show ?thesis
  proof (intro sync_inv_busyI [OF _ assms(6), of a])
    show "finite {b. pcs s' b \<noteq> Idle}" unfolding assms(2) by (rule finite_upd [OF sync_inv_finite [OF assms(1)]])
    show "wtr s' + uncounted s' = length (waiting s') + hand (pcs s' a)" unfolding a using n(2) assms(4,8) by linarith
  qed (use a assms(3,7) in simp_all)
qed

lemma inv_inside:
  assumes "sync_inv s" and "pcs s' = (pcs s)(a := x)" and "crit (pcs s a)" and "crit x"
    and "busy s'" and "round_ok x (cnt s') (wtr s')"
    and "wtr s' + uncounted s' + length (waiting s) + hand (pcs s a) = wtr s + uncounted s + length (waiting s') + hand x"
  shows "sync_inv s'"
proof -
  note o = crit_busy [OF assms(1,3)]
  have a: "pcs s' a = x" by (simp add: assms(2))
  have "b = a" if "crit (pcs s' b)" for b using o(4) [of b] that by (cases "b = a") (simp_all add: assms(2))
  then show ?thesis
  proof (intro sync_inv_busyI [OF _ assms(5), of a])
    show "finite {b. pcs s' b \<noteq> Idle}" unfolding assms(2) by (rule finite_upd [OF sync_inv_finite [OF assms(1)]])
    show "wtr s' + uncounted s' = length (waiting s') + hand (pcs s' a)" unfolding a using o(2) assms(7) by linarith
  qed (use a assms(4,6) in simp_all)
qed

lemma inv_leave:
  assumes "sync_inv s" and "pcs s' = (pcs s)(a := x)" and "crit (pcs s a)" and "\<not> crit x" and "\<not> busy s'"
    and "wtr s' + uncounted s' + length (waiting s) + hand (pcs s a) = wtr s + uncounted s + length (waiting s')"
  shows "sync_inv s'"
proof (rule sync_inv_idleI [OF _ assms(5)])
  note o = crit_busy [OF assms(1,3)]
  show "finite {b. pcs s' b \<noteq> Idle}" unfolding assms(2) by (rule finite_upd [OF sync_inv_finite [OF assms(1)]])
  show "\<not> crit (pcs s' b)" for b using o(4) [of b] assms(4) by (cases "b = a") (auto simp: assms(2))
  show "wtr s' + uncounted s' = length (waiting s')" using o(2) assms(6) by linarith
qed

text \<open>The waiters that are pushed but not yet counted.\<close>

lemma uncounted_same:
  assumes "pcs s' = (pcs s)(a := x)" and "is_pushed (pcs s a) \<longleftrightarrow> is_pushed x"
  shows "uncounted s' = uncounted s"
proof -
  have "{b. is_pushed (pcs s' b)} = {b. is_pushed (pcs s b)}" using assms by auto
  then show ?thesis by (simp add: uncounted_def)
qed

lemma finite_pushed: "sync_inv s \<Longrightarrow> finite {b. is_pushed (pcs s b)}"
  by (rule finite_subset [OF _ sync_inv_finite]) auto

lemma uncounted_push:
  assumes "sync_inv s" and "pcs s' = (pcs s)(a := x)" and "\<not> is_pushed (pcs s a)" and "is_pushed x"
  shows "uncounted s' = uncounted s + 1"
proof -
  have "{b. is_pushed (pcs s' b)} = insert a {b. is_pushed (pcs s b)}" using assms(2,4) by auto
  then show ?thesis using assms(3) finite_pushed [OF assms(1)] by (simp add: uncounted_def)
qed

lemma uncounted_add:
  assumes "sync_inv s" and "pcs s' = (pcs s)(a := x)" and "is_pushed (pcs s a)" and "\<not> is_pushed x"
  shows "uncounted s = uncounted s' + 1"
proof -
  have "{b. is_pushed (pcs s b)} = insert a {b. is_pushed (pcs s' b)}" using assms(2,3) by auto
  moreover have "finite {b. is_pushed (pcs s' b)}"
    using finite_pushed [OF assms(1)] by (rule finite_subset [rotated]) (use assms(2,4) in auto)
  ultimately show ?thesis using assms(2,4) by (simp add: uncounted_def)
qed

section \<open>The decisions in terms of the two halves\<close>

lemma can_take_iff: "can_take v \<longleftrightarrow> waiters_of v < count_of v"
  by (simp add: can_take_def split_def word_le_nat_alt unat_ucast_count unpack_waiters not_le)

lemma enters_iff: "enters v \<longleftrightarrow> one_half_zero v"
  by (auto simp: enters_def split_def unpack_zero one_half_zero_def)

lemma minus_one_halves:
  assumes "0 < count_of v"
  shows "count_of (minus_one v) = count_of v - 1" "waiters_of (minus_one v) = waiters_of v"
proof -
  obtain c w where u: "unpack_value v = (c, w)" by (cases "unpack_value v")
  have c: "unat c = count_of v" and w: "unat w = waiters_of v"
    using unpack_count [of v] unpack_waiters [of v] u by simp_all
  have "unat (c - 1) = count_of v - 1" using unat_minus [of 1 c] assms c by simp
  moreover have "unat w < 2 ^ 32" using w waiters_of_less [of v] by simp
  ultimately show "count_of (minus_one v) = count_of v - 1" "waiters_of (minus_one v) = waiters_of v"
    using pack_halves [of w "c - 1"] w by (simp_all add: minus_one_def u)
qed

lemma after_load_facts [simp]: "\<not> crit (after_load v n)" "\<not> is_pushed (after_load v n)"
  by (simp_all add: after_load_def split: option.split)

lemma after_set_load_facts [simp]: "\<not> crit (after_set_load v)" "\<not> is_pushed (after_set_load v)"
  by (simp_all add: after_set_load_def)

lemma after_add_pushed [simp]: "\<not> is_pushed (after_add v old)" "\<not> is_pushed (next_round v ws)"
  by (simp_all add: after_add_def next_round_def)

text \<open>Adding to one half of the word.\<close>

lemma inv_add:
  assumes "sync_inv s" and "\<not> crit (pcs s a)" and s': "pcs s' = (pcs s)(a := after_add (cell s') (cell s))"
    and "waiting s' = waiting s" and "wtr s' + uncounted s' = wtr s + uncounted s"
    and "cnt s \<le> cnt s'" and "wtr s \<le> wtr s'" and "cnt s = cnt s' \<or> wtr s = wtr s'"
  shows "sync_inv s'"
proof (cases "enters (cell s) \<and> wake_count (cell s') \<noteq> 0")
  case True
  let ?x = "Taking (cell s') (unat (wake_count (cell s'))) (wake_count (cell s')) []"
  have x: "after_add (cell s') (cell s) = ?x" using True by (simp add: after_add_def)
  have "busy s'" using True wake_count_zero [of "cell s'"] by auto
  moreover have "\<not> busy s" using True by (auto simp: enters_iff one_half_zero_def)
  moreover have "round_ok ?x (cnt s') (wtr s')" using \<open>busy s'\<close> by (simp add: unat_wake_count)
  ultimately show ?thesis using inv_enter [OF assms(1), of s' a ?x] s' x assms(4,5) by simp
next
  case False
  then have x: "after_add (cell s') (cell s) = Idle" by (auto simp: after_add_def)
  have "busy s' \<longleftrightarrow> busy s"
    using False assms(6-8) wake_count_zero [of "cell s'"] by (auto simp: enters_iff one_half_zero_def)
  moreover have "min (cnt s) (wtr s) \<le> min (cnt s') (wtr s')" using assms(6,7) by linarith
  ultimately show ?thesis using inv_stay [OF assms(1), of s' a Idle] assms(2,4,5) s' x by simp
qed


section \<open>Every step keeps the invariant\<close>

text \<open>What the words, the histories and the queue add to it.\<close>

definition sync_good :: "kind \<Rightarrow> size_t \<Rightarrow> sync \<Rightarrow> bool" where
  "sync_good K v0 s \<longleftrightarrow> sync_inv s \<and> cnt s + granted s = count_of v0 + signals s \<and> taken s @ waiting s = pushed s
     \<and> (K = Mutex \<longrightarrow> count_of v0 = 1 \<and> signals s \<le> granted s)
     \<and> (K = Event \<longrightarrow> cnt s \<le> wtr s + 1 \<and> (\<forall>a old. pcs s a = SetCas old \<longrightarrow> count_of old \<le> waiters_of old))
     \<and> (\<forall>a v n. pcs s a = TryCas v n \<longrightarrow> waiters_of v < count_of v)"

lemma goto_sel [simp]:
  "cell (goto a x s) = cell s" "inq (goto a x s) = inq s" "outq (goto a x s) = outq s" "pushed (goto a x s) = pushed s"
  "taken (goto a x s) = taken s" "resumed (goto a x s) = resumed s" "granted (goto a x s) = granted s"
  "signals (goto a x s) = signals s" "pcs (goto a x s) = (pcs s)(a := x)"
  by (simp_all add: goto_def)

lemma after_load_try: "after_load v n = TryCas v' n' \<Longrightarrow> v' = v \<and> waiters_of v < count_of v"
  by (auto simp: after_load_def can_take_iff split: if_splits option.splits)

lemma after_set_load_set: "after_set_load v = SetCas old \<Longrightarrow> old = v \<and> count_of v \<le> waiters_of v"
  by (auto simp: after_set_load_def event_full_iff split: if_splits)

lemma after_add_no [simp]:
  "after_add v old \<noteq> TryCas v' n" "after_add v old \<noteq> SetCas v'"
  "next_round v ws \<noteq> TryCas v' n" "next_round v ws \<noteq> SetCas v'"
  "after_set_load v \<noteq> TryCas v' n" "after_load v n' \<noteq> SetCas v'"
  by (simp_all add: after_add_def next_round_def after_set_load_def after_load_def split: option.split)

lemma take_head_waiting: "take_head outs ins = Some (x, outs', ins') \<Longrightarrow> outs @ rev ins = x # outs' @ rev ins'"
  by (cases outs; cases "rev ins") auto

text \<open>A step that changes neither the word nor the lists, outside the critical section.\<close>

lemma good_local:
  assumes "sync_good K v0 s" and "\<not> crit (pcs s a)" and "\<not> crit x" and "is_pushed (pcs s a) \<longleftrightarrow> is_pushed x"
    and "\<And>v n. x = TryCas v n \<Longrightarrow> waiters_of v < count_of v"
    and "\<And>old. x = SetCas old \<Longrightarrow> count_of old \<le> waiters_of old"
  shows "sync_good K v0 (goto a x s)"
proof -
  have "sync_inv (goto a x s)"
    by (rule inv_stay [of s _ a x]) (use assms uncounted_same [of "goto a x s" s a x] in \<open>simp_all add: sync_good_def\<close>)
  then show ?thesis using assms(1,5,6) by (auto simp: sync_good_def)
qed

lemma good_try_ok:
  assumes "sync_good K v0 s" and "pcs s a = TryCas v n" and "cell s = v"
  shows "sync_good K v0 (goto a Idle (s\<lparr>cell := minus_one v, granted := granted s + 1\<rparr>))" (is "sync_good K v0 ?s")
proof -
  have v: "wtr s < cnt s" using assms by (auto simp: sync_good_def)
  then have h: "cnt ?s = cnt s - 1" "wtr ?s = wtr s" using minus_one_halves [of v] assms(3) by simp_all
  have "sync_inv ?s"
  proof (rule inv_stay [of s _ a Idle])
    show "busy ?s \<longleftrightarrow> busy s" unfolding h using v by auto
    show "min (cnt s) (wtr s) \<le> min (cnt ?s) (wtr ?s)" unfolding h using v by auto
    show "wtr ?s + uncounted ?s + length (waiting s) = wtr s + uncounted s + length (waiting ?s)"
      using uncounted_same [of ?s s a Idle] assms(2) h(2) by simp
  qed (use assms in \<open>simp_all add: sync_good_def\<close>)
  then show ?thesis unfolding sync_good_def h using assms(1) v by (auto simp: sync_good_def)
qed

lemma good_push_ok:
  assumes "sync_good K v0 s" and "pcs s a = PushCas n h"
  shows "sync_good K v0 (goto a (Pushed n) (s\<lparr>inq := n # inq s, pushed := pushed s @ [n]\<rparr>))" (is "sync_good K v0 ?s")
proof -
  have i: "sync_inv s" using assms(1) by (simp add: sync_good_def)
  have "sync_inv ?s"
  proof (rule inv_stay [OF i, of _ a "Pushed n"])
    show "wtr ?s + uncounted ?s + length (waiting s) = wtr s + uncounted s + length (waiting ?s)"
      using uncounted_push [OF i, of ?s a "Pushed n"] assms(2) by simp
  qed (use assms(2) in simp_all)
  then show ?thesis using assms(1) by (auto simp: sync_good_def)
qed

text \<open>A step that adds to the word.\<close>

lemma good_add:
  assumes "sync_good K v0 s" and "\<not> crit (pcs s a)" and s': "s' = goto a (after_add v (cell s)) (s\<lparr>cell := v, signals := sg\<rparr>)"
    and "waiters_of v + uncounted s' = wtr s + uncounted s" and "cnt s \<le> count_of v" and "wtr s \<le> waiters_of v"
    and "cnt s = count_of v \<or> wtr s = waiters_of v"
    and "count_of v + signals s = cnt s + sg" and "K = Mutex \<Longrightarrow> sg \<le> granted s" and "K = Event \<Longrightarrow> count_of v \<le> waiters_of v + 1"
  shows "sync_good K v0 s'"
proof -
  have i: "sync_inv s" using assms(1) by (simp add: sync_good_def)
  have "sync_inv s'"
    by (rule inv_add [OF i assms(2)]) (use assms(4-7) in \<open>simp_all add: s'\<close>)
  moreover have "cnt s' + granted s' = count_of v0 + signals s'"
    using assms(1,8) by (simp add: sync_good_def s')
  ultimately show ?thesis using assms(1,9,10) by (auto simp: sync_good_def s')
qed

lemma good_take:
  assumes "sync_good K v0 s" and "pcs s a = Taking v (Suc i) k ws" and "take_head (outq s) (inq s) = Some (x, outs, ins)"
  shows "sync_good K v0 (goto a (Taking v i k (ws @ [x])) (s\<lparr>outq := outs, inq := ins, taken := taken s @ [x]\<rparr>))"
    (is "sync_good K v0 ?s")
proof -
  have i: "sync_inv s" using assms(1) by (simp add: sync_good_def)
  have w: "waiting s = x # waiting ?s" using take_head_waiting [OF assms(3)] by simp
  have c: "crit (pcs s a)" using assms(2) by simp
  note o = crit_busy [OF i c]
  have "sync_inv ?s"
  proof (rule inv_inside [OF i _ c, of _ "Taking v i k (ws @ [x])"])
    have "uncounted ?s = uncounted s"
      using uncounted_same [of ?s s a "Taking v i k (ws @ [x])"] assms(2) by simp
    moreover have "length (waiting s) = length (waiting ?s) + 1" using w by simp
    ultimately show "wtr ?s + uncounted ?s + length (waiting s) + hand (pcs s a)
        = wtr s + uncounted s + length (waiting ?s) + hand (Taking v i k (ws @ [x]))"
      using o(3) assms(2) by simp arith
  qed (use o assms(2) in simp_all)
  moreover have "taken ?s @ waiting ?s = pushed ?s" using w assms(1) by (simp add: sync_good_def)
  ultimately show ?thesis using assms(1) by (auto simp: sync_good_def)
qed

lemma good_sub_ok:
  assumes "sync_good K v0 s" and "pcs s a = SubCas v k ws" and "cell s = v"
  shows "sync_good K v0 (goto a (next_round (minus_both v k) ws) (s\<lparr>cell := minus_both v k, granted := granted s + unat k\<rparr>))"
    (is "sync_good K v0 ?s")
proof -
  have i: "sync_inv s" using assms(1) by (simp add: sync_good_def)
  have c: "crit (pcs s a)" using assms(2) by simp
  note o = crit_busy [OF i c]
  have k: "unat k \<le> cnt s" "unat k \<le> wtr s" using o(3) assms(2) by simp_all
  have h: "cnt ?s = cnt s - unat k" "wtr ?s = wtr s - unat k" using minus_both_halves [of k v] k assms(3) by simp_all
  have u: "uncounted ?s = uncounted s"
    using uncounted_same [of ?s s a "next_round (minus_both v k) ws"] assms(2) by simp
  have bal: "wtr ?s + uncounted ?s + length (waiting s) + hand (pcs s a) = wtr s + uncounted s + length (waiting ?s)"
    unfolding h(2) u using assms(2) k(2) by simp
  have "sync_inv ?s"
  proof (cases "wake_count (minus_both v k) = 0")
    case True
    then have "\<not> busy ?s" using wake_count_zero [of "minus_both v k"] by auto
    then show ?thesis using inv_leave [OF i _ c, of ?s "Resuming ws"] bal True by (simp add: next_round_def)
  next
    case False
    let ?x = "Taking (minus_both v k) (unat (wake_count (minus_both v k))) (wake_count (minus_both v k)) ws"
    have b: "busy ?s" using False wake_count_zero [of "minus_both v k"] by auto
    then have "round_ok ?x (cnt ?s) (wtr ?s)" by (simp add: unat_wake_count)
    then show ?thesis using inv_inside [OF i _ c, of ?s ?x] b bal False by (simp add: next_round_def)
  qed
  moreover have "cnt ?s + granted ?s = count_of v0 + signals ?s"
    unfolding h using assms(1) k(1) by (simp add: sync_good_def)
  moreover have "K = Event \<longrightarrow> cnt ?s \<le> wtr ?s + 1" unfolding h using assms(1) k by (auto simp: sync_good_def)
  ultimately show ?thesis using assms(1) by (auto simp: sync_good_def)
qed


lemma goto_resumed: "goto a x (s\<lparr>resumed := r\<rparr>) = (goto a x s)\<lparr>resumed := r\<rparr>"
  by (simp add: goto_def)

lemma sync_good_resumed: "sync_good K v0 (s\<lparr>resumed := r\<rparr>) = sync_good K v0 s"
  unfolding sync_good_def sync_inv_def uncounted_def by simp

lemma mutex_free: "sync_good Mutex v0 s \<Longrightarrow> signals s < granted s \<Longrightarrow> cnt s = 0"
  by (simp add: sync_good_def)

lemma sync_step_good:
  assumes "sync_step K s s'" and "sync_good K v0 s"
  shows "sync_good K v0 s'"
  using assms
proof (induction rule: sync_step.induct)
  case (try_load s a n)
  then show ?case using after_load_try by (intro good_local) auto
next
  case (try_ok s a v n)
  then show ?case by (intro good_try_ok)
next
  case (try_fail s a v n)
  then show ?case using after_load_try by (intro good_local) auto
next
  case (push_ok s a n h)
  then show ?case by (intro good_push_ok)
next
  case (suspend_add s a n v)
  have i: "sync_inv s" using suspend_add.prems by (simp add: sync_good_def)
  let ?s = "goto a (after_add v (cell s)) (s\<lparr>cell := v\<rparr>)"
  have h: "waiters_of v = wtr s + 1" "count_of v = cnt s" using add_waiter [of "cell s"] suspend_add.hyps by simp_all
  have "uncounted s = uncounted ?s + 1"
    using uncounted_add [OF i, of ?s a "after_add v (cell s)"] suspend_add.hyps(1) by simp
  then show ?case
    by (intro good_add [OF suspend_add.prems, of a _ v "signals s"])
      (use h suspend_add.hyps(1) suspend_add.prems in \<open>simp_all add: sync_good_def\<close>)
next
  case (release s a k v)
  have h: "waiters_of v = wtr s" "count_of v = cnt s + unat k" using add_count [of "cell s" k] release.hyps by simp_all
  let ?s = "goto a (after_add v (cell s)) (s\<lparr>cell := v, signals := signals s + unat k\<rparr>)"
  have "uncounted ?s = uncounted s"
    using uncounted_same [of ?s s a "after_add v (cell s)"] release.hyps(2) by simp
  then show ?case
    by (intro good_add [OF release.prems, of a _ v "signals s + unat k"]) (use h release.hyps in simp_all)
next
  case (unlock s a v)
  have z: "cnt s = 0" using unlock mutex_free by blast
  have h: "waiters_of v = wtr s" "count_of v = cnt s + 1" using unlock_halves [of "cell s"] z unlock.hyps(4) by simp_all
  let ?s = "goto a (after_add v (cell s)) (s\<lparr>cell := v, signals := signals s + 1\<rparr>)"
  have "uncounted ?s = uncounted s"
    using uncounted_same [of ?s s a "after_add v (cell s)"] unlock.hyps(2) by simp
  then show ?case
    by (intro good_add [OF unlock.prems, of a _ v "signals s + 1"]) (use h unlock.hyps in simp_all)
next
  case (set_load s a)
  then show ?case using after_set_load_set by (intro good_local) auto
next
  case (set_ok s a old v)
  have h: "waiters_of v = wtr s" "count_of v = cnt s + 1" using add_count [of old 1] set_ok.hyps by simp_all
  let ?s = "goto a (after_add v old) (s\<lparr>cell := v, signals := signals s + 1\<rparr>)"
  have "uncounted ?s = uncounted s" using uncounted_same [of ?s s a "after_add v old"] set_ok.hyps(2) by simp
  moreover have "cnt s \<le> wtr s" using set_ok.prems set_ok.hyps(1-3) by (auto simp: sync_good_def)
  ultimately show ?case
    by (intro good_add [OF set_ok.prems, of a _ v "signals s + 1"]) (use h set_ok.hyps in simp_all)
next
  case (set_fail s a old)
  then show ?case using after_set_load_set by (intro good_local) auto
next
  case (take s a v i k ws x outs ins)
  then show ?case by (intro good_take)
next
  case (took s a v k ws)
  have i: "sync_inv s" and c: "crit (pcs s a)" using took by (simp_all add: sync_good_def)
  note o = crit_busy [OF i c]
  let ?s = "goto a (SubCas v k ws) s"
  have "uncounted ?s = uncounted s" using uncounted_same [of ?s s a "SubCas v k ws"] took.hyps by simp
  then have "sync_inv ?s"
    by (intro inv_inside [OF i _ c, of _ "SubCas v k ws"]) (use o took.hyps in simp_all)
  then show ?case using took.prems by (auto simp: sync_good_def)
next
  case (sub_ok s a v k ws v')
  then show ?case using good_sub_ok by blast
next
  case (sub_fail s a v k ws)
  have i: "sync_inv s" and c: "crit (pcs s a)" using sub_fail by (simp_all add: sync_good_def)
  note o = crit_busy [OF i c]
  let ?s = "goto a (SubCas (cell s) k ws) s"
  have "uncounted ?s = uncounted s" using uncounted_same [of ?s s a "SubCas (cell s) k ws"] sub_fail.hyps by simp
  then have "sync_inv ?s"
    by (intro inv_inside [OF i _ c, of _ "SubCas (cell s) k ws"]) (use o sub_fail.hyps in simp_all)
  then show ?case using sub_fail.prems by (auto simp: sync_good_def)
next
  case (resume s a x ws)
  let ?x = "if ws = [] then Idle else Resuming ws"
  have "sync_good K v0 (goto a ?x s)" 
    using good_local [OF resume.prems, of a Idle] good_local [OF resume.prems, of a "Resuming ws"] resume.hyps
    by (cases "ws = []") simp_all
  then show ?case by (simp only: goto_resumed sync_good_resumed)
qed (intro good_local; simp)+

lemma sync_new_good:
  assumes "initial K v"
  shows "sync_good K v (sync_new v)"
proof -
  have v: "waiters_of v = 0" "K = Mutex \<longrightarrow> count_of v = 1" "K = Event \<longrightarrow> count_of v \<le> 1"
    using assms by (cases K; auto simp: waiters_of_def count_of_def UNLOCKED_def)+
  then show ?thesis by (simp add: sync_good_def sync_inv_def sync_new_def uncounted_def)
qed

lemma sync_reachable_good: "sync_reachable K v s \<Longrightarrow> sync_good K v s"
  by (induction rule: sync_reachable.induct) (blast intro: sync_new_good sync_step_good)+

section \<open>Two short runs\<close>

text \<open>A semaphore of zero units with one waiter queued, then signalled once.\<close>

definition one_queued :: sync where
  "one_queued = \<lparr>cell = one_waiter, inq = [7], outq = [], pcs = (\<lambda>_. Idle), pushed = [7], taken = [], resumed = [],
     granted = 0, signals = 0\<rparr>"

definition one_signalled :: sync where
  "one_signalled = goto 1 (Taking (1 + one_waiter) (Suc 0) (wake_count (1 + one_waiter)) [])
     (one_queued\<lparr>cell := 1 + one_waiter, signals := 1\<rparr>)"

lemma halves_small [simp]: "count_of 0 = 0" "waiters_of 0 = 0" "count_of 1 = 1" "waiters_of 1 = 0"
  by (simp_all add: count_of_def waiters_of_def)

lemma halves_one_waiter: "count_of one_waiter = 0" "waiters_of one_waiter = 1"
  using add_waiter [of 0] by simp_all

lemma halves_signalled: "count_of (1 + one_waiter) = 1" "waiters_of (1 + one_waiter) = 1"
  using add_count [of one_waiter 1] by (simp_all add: halves_one_waiter)

lemma one_queued_reachable: "sync_reachable Semaphore 0 one_queued"
proof -
  let ?s0 = "sync_new 0"
  let ?s1 = "goto 0 (Push 7) ?s0"
  let ?s2 = "goto 0 (PushCas 7 None) ?s1"
  let ?s3 = "goto 0 (Pushed 7) (?s2\<lparr>inq := [7], pushed := [7]\<rparr>)"
  have 0: "sync_reachable Semaphore 0 ?s0" by (rule sync_reachable.start) simp
  have "sync_step Semaphore ?s0 ?s1"
    using sync_step.try_load [of ?s0 0 Semaphore "Some 7"] by (simp add: sync_new_def after_load_def can_take_iff)
  with 0 have 1: "sync_reachable Semaphore 0 ?s1" by (rule sync_reachable.step)
  have "sync_step Semaphore ?s1 ?s2"
    using sync_step.push_load [of ?s1 0 7 Semaphore] by (simp add: sync_new_def)
  with 1 have 2: "sync_reachable Semaphore 0 ?s2" by (rule sync_reachable.step)
  have "sync_step Semaphore ?s2 ?s3"
    using sync_step.push_ok [of ?s2 0 7 None Semaphore] by (simp add: sync_new_def)
  with 2 have 3: "sync_reachable Semaphore 0 ?s3" by (rule sync_reachable.step)
  have "sync_step Semaphore ?s3 one_queued"
    using sync_step.suspend_add [of ?s3 0 7 "one_waiter + cell ?s3" Semaphore]
    by (simp add: sync_new_def one_queued_def after_add_def enters_iff one_half_zero_def goto_def fun_upd_idem)
  with 3 show ?thesis by (rule sync_reachable.step)
qed

lemma one_signalled_reachable: "sync_reachable Semaphore 0 one_signalled"
proof -
  have "enters one_waiter" by (simp add: enters_iff one_half_zero_def halves_one_waiter)
  moreover have "unat (wake_count (1 + one_waiter)) = Suc 0" by (simp add: unat_wake_count halves_signalled)
  moreover have "wake_count (1 + one_waiter) \<noteq> 0" by (simp add: wake_count_zero halves_signalled)
  ultimately have "after_add (1 + one_waiter) one_waiter
      = Taking (1 + one_waiter) (Suc 0) (wake_count (1 + one_waiter)) []" by (simp add: after_add_def)
  then have "sync_step Semaphore one_queued one_signalled"
    using sync_step.release [of Semaphore one_queued 1 1 "1 + one_waiter"]
    by (simp add: one_signalled_def one_queued_def halves_one_waiter)
  then show ?thesis by (rule sync_reachable.step [OF one_queued_reachable])
qed

text \<open>A mutex that has been locked.\<close>

definition locked_once :: sync where
  "locked_once = (sync_new UNLOCKED)\<lparr>cell := minus_one UNLOCKED, granted := 1\<rparr>"

lemma locked_once_reachable: "sync_reachable Mutex UNLOCKED locked_once"
proof -
  let ?s0 = "sync_new UNLOCKED" and ?s1 = "goto 0 (TryCas UNLOCKED None) (sync_new UNLOCKED)"
  have 0: "sync_reachable Mutex UNLOCKED ?s0" by (rule sync_reachable.start) simp
  have "sync_step Mutex ?s0 ?s1"
    using sync_step.try_load [of ?s0 0 Mutex None]
    by (simp add: sync_new_def after_load_def can_take_iff UNLOCKED_def)
  with 0 have 1: "sync_reachable Mutex UNLOCKED ?s1" by (rule sync_reachable.step)
  have "sync_step Mutex ?s1 locked_once"
    using sync_step.try_ok [of ?s1 0 UNLOCKED None Mutex]
    by (simp add: sync_new_def locked_once_def goto_def fun_upd_idem)
  with 1 show ?thesis by (rule sync_reachable.step)
qed

lemma event_reachable: "sync_reachable Event 1 (sync_new 1)"
  by (rule sync_reachable.start) simp

section \<open>Properties of every interleaving\<close>

text \<open>
  In every interleaving at most one thread is between entering and leaving the critical section of
  \<open>maybe_wake\<close>, the only code that touches \<open>output\<close>, and one is inside exactly while both halves of the word are
  positive.
\<close>

lemma single_consumer:
  assumes "sync_reachable K v s"
  shows "(\<forall>a b. crit (pcs s a) \<longrightarrow> crit (pcs s b) \<longrightarrow> a = b)
    \<and> ((\<exists>a. crit (pcs s a)) \<longleftrightarrow> 0 < count_of (cell s) \<and> 0 < waiters_of (cell s))"
proof -
  have i: "sync_inv s" using sync_reachable_good [OF assms] by (simp add: sync_good_def)
  have "(\<exists>a. crit (pcs s a)) \<longleftrightarrow> busy s" using crit_busy(1) [OF i] sync_inv_busy [OF i] by blast
  moreover have "a = b" if "crit (pcs s a)" "crit (pcs s b)" for a b using crit_busy(4) [OF i that(2)] that(1) by blast
  ultimately show ?thesis by blast
qed

theorem single_consumer_witness: "{b. crit (pcs one_signalled b)} = {1}"
proof -
  have "crit (pcs one_signalled 1)" by (simp add: one_signalled_def)
  then show ?thesis using single_consumer [OF one_signalled_reachable] by blast
qed

text \<open>
  C2: Mutual exclusion: in every interleaving of lock, try-lock and unlock calls (unlocking only what was locked),
  at most one acquisition of the mutex is outstanding, and the mutex is locked exactly while one is.
\<close>

theorem mutex_mutual_exclusion:
  assumes "sync_reachable Mutex v s"
  shows "granted s \<le> signals s + 1 \<and> (count_of (cell s) = 0 \<longleftrightarrow> granted s = signals s + 1)"
  using sync_reachable_good [OF assms] by (auto simp: sync_good_def)

theorem mutex_mutual_exclusion_witness: "granted locked_once = 1 \<and> count_of (cell locked_once) = 0"
  using mutex_mutual_exclusion [OF locked_once_reachable] by (simp add: locked_once_def sync_new_def)

text \<open>
  C18: First in, first out: in every interleaving the waiters taken, followed by those still in the two stacks, are
  exactly the waiters pushed, in the order of their pushes; nobody is lost or taken twice.
\<close>

theorem waiters_fifo:
  assumes "sync_reachable K v s"
  shows "taken s @ outq s @ rev (inq s) = pushed s"
  using sync_reachable_good [OF assms] by (simp add: sync_good_def)

theorem waiters_fifo_witness: "taken one_signalled @ outq one_signalled @ rev (inq one_signalled) = [7]"
  using waiters_fifo [OF one_signalled_reachable] by (simp add: one_signalled_def one_queued_def)

text \<open>
  \<open>must_take_1\<close> is never called on an empty list: a thread with waiters left to take in its round finds one,
  so the unchecked dereference is safe.
\<close>

lemma must_take_finds_waiter:
  assumes "sync_reachable K v s" and "pcs s a = Taking u (Suc i) k ws"
  shows "take_head (outq s) (inq s) \<noteq> None"
proof
  assume n: "take_head (outq s) (inq s) = None"
  have i: "sync_inv s" using sync_reachable_good [OF assms(1)] by (simp add: sync_good_def)
  have c: "crit (pcs s a)" using assms(2) by simp
  note o = crit_busy [OF i c]
  have "waiting s = []" using n by (cases "outq s"; cases "rev (inq s)") auto
  then have "wtr s + uncounted s = unat k - Suc i" using o(2) assms(2) by simp
  moreover have "unat k \<le> wtr s" "Suc i \<le> unat k" using o(3) assms(2) by simp_all
  ultimately show False by linarith
qed

theorem must_take_finds_waiter_witness: "take_head (outq one_signalled) (inq one_signalled) = Some (7, [], [])"
proof -
  have "pcs one_signalled 1 = Taking (1 + one_waiter) (Suc 0) (wake_count (1 + one_waiter)) []"
    by (simp add: one_signalled_def)
  from must_take_finds_waiter [OF one_signalled_reachable this] show ?thesis
    by (simp add: one_signalled_def one_queued_def)
qed

text \<open>
  C1: No lost wakeup: whenever no thread is in the middle of a call, the word counts exactly the waiters in the
  lists, and no waiter sleeps while a unit is available.
\<close>

theorem no_lost_wakeup:
  assumes "sync_reachable K v s" and "\<forall>a. pcs s a = Idle"
  shows "waiters_of (cell s) = length (outq s @ rev (inq s)) \<and> (count_of (cell s) = 0 \<or> outq s @ rev (inq s) = [])"
proof -
  have i: "sync_inv s" using sync_reachable_good [OF assms(1)] by (simp add: sync_good_def)
  have n: "\<not> busy s" using sync_inv_busy [OF i] assms(2) by (metis crit.simps(3))
  moreover have "uncounted s = 0" using assms(2) by (simp add: uncounted_def)
  ultimately show ?thesis using sync_inv_idle(2) [OF i n] by auto
qed

theorem no_lost_wakeup_witness: "waiters_of (cell one_queued) = 1 \<and> count_of (cell one_queued) = 0"
proof -
  have "\<forall>a. pcs one_queued a = Idle" by (simp add: one_queued_def)
  from no_lost_wakeup [OF one_queued_reachable this] show ?thesis by (simp add: one_queued_def)
qed

text \<open>
  Units are conserved by every interleaving: what is in the word plus what was handed out is what there was at
  the start plus what was signalled; a semaphore neither loses nor invents a unit.
\<close>

lemma units_conserved:
  assumes "sync_reachable K v s"
  shows "count_of (cell s) + granted s = count_of v + signals s"
  using sync_reachable_good [OF assms] by (simp add: sync_good_def)

theorem units_conserved_witness: "count_of (cell one_signalled) + granted one_signalled = 1"
  using units_conserved [OF one_signalled_reachable] by (simp add: one_signalled_def one_queued_def)

text \<open>
  In every interleaving an automatic-reset event stores at most one set beyond those that its waiters consume.
\<close>

lemma event_bounded:
  assumes "sync_reachable Event v s"
  shows "count_of (cell s) \<le> waiters_of (cell s) + 1"
  using sync_reachable_good [OF assms] by (simp add: sync_good_def)

theorem event_bounded_witness: "count_of (cell (sync_new 1)) \<le> waiters_of (cell (sync_new 1)) + 1"
  by (rule event_bounded [OF event_reachable])

end
