(* ===== verification/SpawnGroup.thy ===== *)
theory SpawnGroup
  imports Customizer
begin

text \<open>
  Launching a group of awaitables (\<open>src/include/tmc/spawn_many.hpp\<close>, \<open>spawn_tuple.hpp\<close>, \<open>fork_group.hpp\<close>): the
  constructors of the awaitables as the sequence of what they do to the outside world, in order.  An awaitable and
  the work item made of it share a name; an iterator is the list of what it still produces.  \<open>None\<close>: an iterator
  without an end is read past what it produces.
\<close>

section \<open>Events\<close>

datatype mode = TMC_TASK | COROUTINE | ASYNC_INITIATE | WRAPPER

datatype event =
    Resize nat                       \<comment> \<open>\<open>result_arr.resize\<close>\<close>
  | Prepare nat nat                  \<comment> \<open>\<open>prepare_work\<close>: the awaitable and its result slot\<close>
  | SetDone nat                      \<comment> \<open>\<open>set_done_count\<close>\<close>
  | PostBulk nat "nat list" nat      \<comment> \<open>\<open>executor->post_bulk\<close>\<close>
  | Initiate nat nat nat             \<comment> \<open>\<open>async_initiate\<close>\<close>

definition post_bulk_checked :: "nat \<Rightarrow> nat list \<Rightarrow> nat \<Rightarrow> event list" where
  "post_bulk_checked ex items prio = (if length items = 0 then [] else [PostBulk ex items prio])"

section \<open>Loops over iterators\<close>

text \<open>Exactly \<open>n\<close> items, the first for slot \<open>i\<close>.\<close>

fun initiate_n :: "nat \<Rightarrow> nat \<Rightarrow> nat \<Rightarrow> nat \<Rightarrow> nat list \<Rightarrow> event list option" where
  "initiate_n 0 i ex prio it = Some []"
| "initiate_n (Suc n) i ex prio [] = None"
| "initiate_n (Suc n) i ex prio (t # it) =
    map_option (\<lambda>es. Prepare t i # Initiate t ex prio # es) (initiate_n n (i + 1) ex prio it)"

fun collect_n :: "nat \<Rightarrow> nat \<Rightarrow> nat list \<Rightarrow> (event list \<times> nat list) option" where
  "collect_n 0 i it = Some ([], [])"
| "collect_n (Suc n) i [] = None"
| "collect_n (Suc n) i (t # it) = map_option (\<lambda>(es, arr). (Prepare t i # es, t # arr)) (collect_n n (i + 1) it)"

text \<open>At most \<open>n\<close> items, stopping at the end.\<close>

fun initiate_until :: "nat \<Rightarrow> nat \<Rightarrow> nat \<Rightarrow> nat \<Rightarrow> nat list \<Rightarrow> event list" where
  "initiate_until (Suc n) i ex prio (t # it) = Prepare t i # Initiate t ex prio # initiate_until n (i + 1) ex prio it"
| "initiate_until _ i ex prio _ = []"

fun collect_until :: "nat \<Rightarrow> nat \<Rightarrow> nat list \<Rightarrow> event list \<times> nat list" where
  "collect_until (Suc n) i (t # it) = (let (es, arr) = collect_until n (i + 1) it in (Prepare t i # es, t # arr))"
| "collect_until _ i _ = ([], [])"

fun gather_until :: "nat \<Rightarrow> nat list \<Rightarrow> nat list" where
  "gather_until (Suc n) (t # it) = t # gather_until n it"
| "gather_until _ _ = []"

fun prepare_all :: "nat \<Rightarrow> nat list \<Rightarrow> event list" where
  "prepare_all i [] = []"
| "prepare_all i (t # ts) = Prepare t i # prepare_all (i + 1) ts"

function submit_batches :: "nat \<Rightarrow> nat \<Rightarrow> nat list \<Rightarrow> event list" where
  "submit_batches ex prio items =
    (if items = [] then [] else post_bulk_checked ex (take 64 items) prio @ submit_batches ex prio (drop 64 items))"
  by pat_completeness auto
termination by (relation "measure (\<lambda>(ex, prio, items). length items)") auto

section \<open>Submitting an array\<close>

text \<open>The counter is stored before anything is posted; the last task may be kept for a symmetric transfer.\<close>

definition submit_array :: "nat \<Rightarrow> nat \<Rightarrow> bool \<Rightarrow> nat list \<Rightarrow> event list \<times> nat option" where
  "submit_array ex prio DoSymmetricTransfer arr =
    (let size = length arr
     in if size = 0 then ([SetDone 0], None)
        else let postCount = (if DoSymmetricTransfer then size - 1 else size)
             in (SetDone postCount # post_bulk_checked ex (take postCount arr) prio,
                 if DoSymmetricTransfer then Some (arr ! (size - 1)) else None))"

definition initiate_array :: "nat \<Rightarrow> nat \<Rightarrow> nat list \<Rightarrow> event list" where
  "initiate_array ex prio arr =
    (if length arr = 0 then [SetDone 0] else SetDone (length arr) # map (\<lambda>t. Initiate t ex prio) arr)"

definition submit_coroutines :: "nat \<Rightarrow> nat \<Rightarrow> bool \<Rightarrow> nat list \<Rightarrow> event list \<times> nat option" where
  "submit_coroutines ex prio DoSymmetricTransfer arr =
    (let size = length arr; postCount = (if DoSymmetricTransfer then size - 1 else size)
     in (SetDone postCount # submit_batches ex prio (take postCount arr),
         if DoSymmetricTransfer then Some (arr ! (size - 1)) else None))"

section \<open>\<open>aw_spawn_many_impl\<close>\<close>

text \<open>\<open>Cnt\<close> is the template argument \<open>Count\<close>, 0 for a run-time count; \<open>isVoid\<close>: there are no results to store.\<close>

definition spawn_count ::
  "mode \<Rightarrow> nat \<Rightarrow> bool \<Rightarrow> nat list \<Rightarrow> nat \<Rightarrow> nat \<Rightarrow> nat \<Rightarrow> bool \<Rightarrow> (event list \<times> nat option) option" where
  "spawn_count mode Cnt isVoid Iter TaskCount Executor Prio DoSymmetricTransfer =
    (let size = (if Cnt \<noteq> 0 then Cnt else TaskCount);
         resize = (if Cnt = 0 \<and> \<not> isVoid then [Resize size] else [])
     in if mode = ASYNC_INITIATE
        then map_option (\<lambda>es. (resize @ SetDone size # es, None)) (initiate_n size 0 Executor Prio Iter)
        else map_option
          (\<lambda>(es, taskArr). let (pst, symmetric_task) = submit_array Executor Prio DoSymmetricTransfer taskArr
             in (resize @ es @ pst, symmetric_task))
          (collect_n size 0 Iter))"

text \<open>With an end: \<open>sized\<close> says whether the iterators can be subtracted.\<close>

definition spawn_range ::
  "mode \<Rightarrow> nat \<Rightarrow> bool \<Rightarrow> bool \<Rightarrow> nat list \<Rightarrow> nat \<Rightarrow> nat \<Rightarrow> nat \<Rightarrow> bool \<Rightarrow> event list \<times> nat option" where
  "spawn_range mode Cnt isVoid sized Items MaxCount Executor Prio DoSymmetricTransfer =
    (let size = (if Cnt \<noteq> 0 then Cnt
                 else if sized \<and> length Items < MaxCount then length Items else MaxCount);
         resize = (if Cnt = 0 \<and> sized \<and> \<not> isVoid then [Resize size] else [])
     in if Cnt \<noteq> 0 \<or> sized
        then if mode = ASYNC_INITIATE \<and> sized
             then let actualSize = (if size < length Items then size else length Items)
                  in (resize @ SetDone actualSize # initiate_until actualSize 0 Executor Prio Items, None)
             else let (es, taskArr) = collect_until size 0 Items
                  in if mode = ASYNC_INITIATE then (resize @ es @ initiate_array Executor Prio taskArr, None)
                     else let (pst, symmetric_task) = submit_array Executor Prio DoSymmetricTransfer taskArr
                          in (resize @ es @ pst, symmetric_task)
        else let taskArr = gather_until size Items; taskCount = length taskArr;
                 resize = (if isVoid then [] else [Resize taskCount])
             in if mode \<noteq> COROUTINE
                then if mode = ASYNC_INITIATE
                     then (resize @ prepare_all 0 taskArr @ initiate_array Executor Prio taskArr, None)
                     else let (pst, symmetric_task) = submit_array Executor Prio DoSymmetricTransfer taskArr
                          in (resize @ prepare_all 0 taskArr @ pst, symmetric_task)
                else if taskCount = 0 then ([SetDone 0], None)
                     else let (pst, symmetric_task) = submit_coroutines Executor Prio DoSymmetricTransfer taskArr
                          in (resize @ prepare_all 0 taskArr @ pst, symmetric_task))"

text \<open>\<open>operator co_await\<close>, \<open>fork\<close> and \<open>detach\<close> of \<open>aw_spawn_many\<close>.\<close>

datatype sentinel = Count_of nat | End_of bool nat   \<comment> \<open>a count, or an end (sized or not) with \<open>maxCount\<close>\<close>

definition spawn_impl ::
  "mode \<Rightarrow> nat \<Rightarrow> bool \<Rightarrow> nat list \<Rightarrow> sentinel \<Rightarrow> nat \<Rightarrow> nat \<Rightarrow> bool \<Rightarrow> (event list \<times> nat option) option" where
  "spawn_impl mode Cnt isVoid iter sent executor prio doSymmetricTransfer =
    (case sent of
       Count_of n \<Rightarrow> spawn_count mode Cnt isVoid iter n executor prio doSymmetricTransfer
     | End_of sized maxCount \<Rightarrow>
         Some (spawn_range mode Cnt isVoid sized iter maxCount executor prio doSymmetricTransfer))"

definition spawn_co_await ::
  "this_thread \<Rightarrow> mode \<Rightarrow> nat \<Rightarrow> bool \<Rightarrow> nat list \<Rightarrow> sentinel \<Rightarrow> nat \<Rightarrow> nat \<Rightarrow> (event list \<times> nat option) option" where
  "spawn_co_await t mode Cnt isVoid iter sent executor prio =
    (let doSymmetricTransfer = exec_prio_is t executor prio;
         doSymmetricTransfer = (if mode = ASYNC_INITIATE then False else doSymmetricTransfer)
     in spawn_impl mode Cnt isVoid iter sent executor prio doSymmetricTransfer)"

definition spawn_fork ::
  "mode \<Rightarrow> nat \<Rightarrow> bool \<Rightarrow> nat list \<Rightarrow> sentinel \<Rightarrow> nat \<Rightarrow> nat \<Rightarrow> (event list \<times> nat option) option" where
  "spawn_fork mode Cnt isVoid iter sent executor prio = spawn_impl mode Cnt isVoid iter sent executor prio False"

fun take_n :: "nat \<Rightarrow> nat list \<Rightarrow> nat list option" where
  "take_n 0 it = Some []"
| "take_n (Suc n) [] = None"
| "take_n (Suc n) (t # it) = map_option (Cons t) (take_n n it)"

definition spawn_detach :: "mode \<Rightarrow> nat \<Rightarrow> nat list \<Rightarrow> sentinel \<Rightarrow> nat \<Rightarrow> nat \<Rightarrow> event list option" where
  "spawn_detach mode Cnt iter sent executor prio =
    (if mode \<noteq> ASYNC_INITIATE
     then case sent of
            Count_of n \<Rightarrow> map_option (\<lambda>taskArr. post_bulk_checked executor taskArr prio)
              (take_n (if Cnt = 0 then n else Cnt) iter)
          | End_of sized maxCount \<Rightarrow>
              let size = (if Cnt \<noteq> 0 then Cnt
                          else if sized then (if maxCount < length iter then maxCount else length iter) else maxCount)
              in Some (post_bulk_checked executor (gather_until size iter) prio)
     else case sent of
            Count_of n \<Rightarrow> map_option (map (\<lambda>t. Initiate t executor prio)) (take_n (if Cnt \<noteq> 0 then Cnt else n) iter)
          | End_of sized maxCount \<Rightarrow>
              Some (map (\<lambda>t. Initiate t executor prio) (gather_until (if Cnt \<noteq> 0 then Cnt else maxCount) iter)))"

section \<open>\<open>aw_spawn_tuple_impl\<close>\<close>

text \<open>
  The awaitables of the tuple with their modes, in order; \<open>Prepare t i\<close> binds element \<open>i\<close> of the result.  Those
  treated as coroutines are posted in bulk, the others initiated one by one after that.
\<close>

definition tuple_work :: "(mode \<times> nat) list \<Rightarrow> nat list" where
  "tuple_work Tasks = map snd (filter (\<lambda>(m, t). m \<noteq> ASYNC_INITIATE) Tasks)"

definition spawn_tuple :: "(mode \<times> nat) list \<Rightarrow> nat \<Rightarrow> nat \<Rightarrow> bool \<Rightarrow> event list \<times> nat option" where
  "spawn_tuple Tasks Executor Prio DoSymmetricTransfer =
    (let Cnt = length Tasks; taskArr = tuple_work Tasks; WorkItemCount = length taskArr;
         prepared = prepare_all 0 (map snd Tasks);
         initiated = map (\<lambda>(m, t). Initiate t Executor Prio) (filter (\<lambda>(m, t). m = ASYNC_INITIATE) Tasks)
     in if WorkItemCount \<noteq> 0
        then let doneCount = (if DoSymmetricTransfer then Cnt - 1 else Cnt);
                 postCount = (if DoSymmetricTransfer then WorkItemCount - 1 else WorkItemCount)
             in (prepared @ SetDone doneCount # post_bulk_checked Executor (take postCount taskArr) Prio @ initiated,
                 if DoSymmetricTransfer then Some (taskArr ! (WorkItemCount - 1)) else None)
        else (prepared @ SetDone Cnt # initiated, None))"

section \<open>What was launched\<close>

text \<open>Read off the events: the tasks handed to an executor, and the counter that was stored.\<close>

fun launched :: "event list \<Rightarrow> nat list" where
  "launched [] = []"
| "launched (PostBulk ex items prio # es) = items @ launched es"
| "launched (Initiate t ex prio # es) = t # launched es"
| "launched (_ # es) = launched es"

fun prepared :: "event list \<Rightarrow> (nat \<times> nat) list" where
  "prepared [] = []"
| "prepared (Prepare t i # es) = (t, i) # prepared es"
| "prepared (_ # es) = prepared es"

fun stored :: "event list \<Rightarrow> nat list" where
  "stored [] = []"
| "stored (SetDone n # es) = n # stored es"
| "stored (_ # es) = stored es"

text \<open>The counter is stored before the first launch, and every task is prepared before it is launched.\<close>

fun safe_order :: "nat list \<Rightarrow> bool \<Rightarrow> event list \<Rightarrow> bool" where
  "safe_order ready counted [] \<longleftrightarrow> True"
| "safe_order ready counted (Resize n # es) \<longleftrightarrow> ready = [] \<and> safe_order ready counted es"
| "safe_order ready counted (Prepare t i # es) \<longleftrightarrow> safe_order (t # ready) counted es"
| "safe_order ready counted (SetDone n # es) \<longleftrightarrow> \<not> counted \<and> safe_order ready True es"
| "safe_order ready counted (PostBulk ex items prio # es) \<longleftrightarrow>
    counted \<and> set items \<subseteq> set ready \<and> safe_order ready counted es"
| "safe_order ready counted (Initiate t ex prio # es) \<longleftrightarrow> counted \<and> t \<in> set ready \<and> safe_order ready counted es"

definition kept :: "nat option \<Rightarrow> nat list" where
  "kept symmetric_task = (case symmetric_task of None \<Rightarrow> [] | Some t \<Rightarrow> [t])"

text \<open>
  \<open>ts\<close> is launched: each task prepared for its own slot, then launched or kept for the transfer exactly once, after
  the one store of the counter, which leaves out the kept task.
\<close>

definition launches :: "event list \<times> nat option \<Rightarrow> nat list \<Rightarrow> bool" where
  "launches r ts \<longleftrightarrow> (case r of (es, symmetric_task) \<Rightarrow>
     mset (launched es @ kept symmetric_task) = mset ts \<and> prepared es = zip ts [0..<length ts]
     \<and> stored es = [length ts - length (kept symmetric_task)] \<and> safe_order [] False es)"

lemma launched_append [simp]: "launched (es @ es') = launched es @ launched es'"
  by (induction es rule: launched.induct) auto

lemma prepared_append [simp]: "prepared (es @ es') = prepared es @ prepared es'"
  by (induction es rule: prepared.induct) auto

lemma stored_append [simp]: "stored (es @ es') = stored es @ stored es'"
  by (induction es rule: stored.induct) auto

lemma prepare_all_facts [simp]:
  "launched (prepare_all i ts) = []" "stored (prepare_all i ts) = []"
  "prepared (prepare_all i ts) = zip ts [i..<i + length ts]"
  "safe_order R c (prepare_all i ts @ es) = safe_order (rev ts @ R) c es"
  by (induction ts arbitrary: i R) (auto simp: upt_rec)

lemma post_bulk_facts [simp]:
  "launched (post_bulk_checked ex items prio) = items" "stored (post_bulk_checked ex items prio) = []"
  "prepared (post_bulk_checked ex items prio) = []"
  "safe_order R True (post_bulk_checked ex items prio @ es) \<longleftrightarrow> set items \<subseteq> set R \<and> safe_order R True es"
  "safe_order R True (post_bulk_checked ex items prio) \<longleftrightarrow> set items \<subseteq> set R"
  by (auto simp: post_bulk_checked_def)

lemma initiate_map_facts [simp]:
  "launched (map (\<lambda>t. Initiate t ex prio) ts) = ts" "stored (map (\<lambda>t. Initiate t ex prio) ts) = []"
  "prepared (map (\<lambda>t. Initiate t ex prio) ts) = []"
  "safe_order R True (map (\<lambda>t. Initiate t ex prio) ts) \<longleftrightarrow> set ts \<subseteq> set R"
  by (induction ts) auto

lemma submit_batches_facts [simp]:
  "launched (submit_batches ex prio ts) = ts" "stored (submit_batches ex prio ts) = []"
  "prepared (submit_batches ex prio ts) = []"
  "set ts \<subseteq> set R \<Longrightarrow> safe_order R True (submit_batches ex prio ts)"
proof (induction ex prio ts rule: submit_batches.induct)
  case (1 ex prio ts)
  have s: "submit_batches ex prio ts = (if ts = [] then []
      else post_bulk_checked ex (take 64 ts) prio @ submit_batches ex prio (drop 64 ts))"
    by (rule submit_batches.simps)
  { case 1 then show ?case using "1.IH"(1) by (subst s) simp }
  { case 2 then show ?case using "1.IH"(2) by (subst s) simp }
  { case 3 then show ?case using "1.IH"(3) by (subst s) simp }
  { case 4 then show ?case using "1.IH"(4) set_take_subset [of 64 ts] set_drop_subset [of 64 ts]
      by (subst s) auto }
qed

text \<open>The collecting loops prepare what they collect.\<close>

lemma collect_n_eq: "collect_n n i it = (if n \<le> length it then Some (prepare_all i (take n it), take n it) else None)"
  by (induction n i it rule: collect_n.induct) auto

lemma collect_until_eq: "collect_until n i it = (prepare_all i (take n it), take n it)"
  by (induction n i it rule: collect_until.induct) auto

lemma gather_until_eq: "gather_until n it = take n it"
  by (induction n it rule: gather_until.induct) auto

lemma take_n_eq: "take_n n it = (if n \<le> length it then Some (take n it) else None)"
  by (induction n it rule: take_n.induct) auto

fun initiate_all :: "nat \<Rightarrow> nat \<Rightarrow> nat \<Rightarrow> nat list \<Rightarrow> event list" where
  "initiate_all i ex prio [] = []"
| "initiate_all i ex prio (t # ts) = Prepare t i # Initiate t ex prio # initiate_all (i + 1) ex prio ts"

lemma initiate_n_eq: "initiate_n n i ex prio it = (if n \<le> length it then Some (initiate_all i ex prio (take n it)) else None)"
  by (induction n i ex prio it rule: initiate_n.induct) auto

lemma initiate_until_eq: "initiate_until n i ex prio it = initiate_all i ex prio (take n it)"
  by (induction n i ex prio it rule: initiate_until.induct) auto

lemma initiate_all_facts [simp]:
  "launched (initiate_all i ex prio ts) = ts" "stored (initiate_all i ex prio ts) = []"
  "prepared (initiate_all i ex prio ts) = zip ts [i..<i + length ts]"
  "safe_order R True (initiate_all i ex prio ts)"
  by (induction ts arbitrary: i R) (auto simp: upt_rec)

text \<open>Submitting the array that has been prepared.\<close>

lemma split_last: "ts \<noteq> [] \<Longrightarrow> take (length ts - 1) ts @ [ts ! (length ts - 1)] = ts"
  by (metis append_butlast_last_id butlast_conv_take last_conv_nth)

lemma split_last_mset: "ts \<noteq> [] \<Longrightarrow> mset (take (length ts - 1) ts) + {#ts ! (length ts - 1)#} = mset ts"
  using split_last [of ts] by (metis mset_append mset_single_iff mset.simps(1) mset.simps(2) add_mset_add_single add_0)

lemma launches_submit:
  assumes "submit_array ex prio sy ts = (pst, symmetric_task)" and "resize = [] \<or> (\<exists>n. resize = [Resize n])"
  shows "launches (resize @ prepare_all 0 ts @ pst, symmetric_task) ts"
  using assms split_last_mset [of ts] set_take_subset [of "length ts - 1" ts]
  by (auto simp: launches_def submit_array_def kept_def Let_def split: if_splits)

lemma launches_coroutines:
  assumes "submit_coroutines ex prio sy ts = (pst, symmetric_task)" and "resize = [] \<or> (\<exists>n. resize = [Resize n])"
    and "ts \<noteq> []"
  shows "launches (resize @ prepare_all 0 ts @ pst, symmetric_task) ts"
  using assms split_last_mset [of ts] set_take_subset [of "length ts - 1" ts]
  by (auto simp: launches_def submit_coroutines_def kept_def Let_def simp del: submit_batches.simps split: if_splits)

lemma launches_initiate:
  assumes "resize = [] \<or> (\<exists>n. resize = [Resize n])"
  shows "launches (resize @ prepare_all 0 ts @ initiate_array ex prio ts, None) ts"
    and "launches (resize @ SetDone (length ts) # initiate_all 0 ex prio ts, None) ts"
  using assms by (auto simp: launches_def initiate_array_def kept_def)


definition group_size :: "nat \<Rightarrow> sentinel \<Rightarrow> nat list \<Rightarrow> nat" where
  "group_size Cnt sent iter = (case sent of
     Count_of n \<Rightarrow> if Cnt \<noteq> 0 then Cnt else n
   | End_of sized maxCount \<Rightarrow> min (length iter) (if Cnt \<noteq> 0 then Cnt else maxCount))"

lemmas launches_plain = launches_submit [of _ _ _ _ _ _ "[]", simplified] launches_coroutines [of _ _ _ _ _ _ "[]", simplified]
  launches_initiate [of "[]", simplified]

lemmas launches_resized = launches_submit [of _ _ _ _ _ _ "[Resize n]" for n, simplified]
  launches_coroutines [of _ _ _ _ _ _ "[Resize n]" for n, simplified] launches_initiate [of "[Resize n]" for n, simplified]

lemma spawn_count_launches:
  assumes "n = (if Cnt \<noteq> 0 then Cnt else TaskCount)" and "n \<le> length Iter"
  shows "\<exists>r. spawn_count mode Cnt isVoid Iter TaskCount ex prio sy = Some r \<and> launches r (take n Iter)"
proof -
  let ?ts = "take n Iter"
  obtain pst symmetric_task where p: "submit_array ex prio sy ?ts = (pst, symmetric_task)" by (cases "submit_array ex prio sy ?ts")
  have l: "length ?ts = n" using assms(2) by simp
  show ?thesis
    unfolding spawn_count_def assms(1) [symmetric] Let_def collect_n_eq initiate_n_eq if_P [OF assms(2)]
    using launches_plain(1) [OF p] launches_plain(4) [of ?ts ex prio] launches_resized(1) [OF p]
      launches_resized(4) [of _ ?ts ex prio] p unfolding l by simp
qed

lemma spawn_range_launches:
  "launches (spawn_range mode Cnt isVoid sized Items MaxCount ex prio sy)
     (take (min (length Items) (if Cnt \<noteq> 0 then Cnt else MaxCount)) Items)"
proof -
  define size where "size = (if Cnt \<noteq> 0 then Cnt
    else if sized \<and> length Items < MaxCount then length Items else MaxCount)"
  have ts: "take (min (length Items) (if Cnt \<noteq> 0 then Cnt else MaxCount)) Items = take size Items"
    by (auto simp: size_def min_def)
  define us where "us = take size Items"
  have m: "(if size < length Items then size else length Items) = length us" "take (length us) Items = us"
    by (auto simp: us_def min_def)
  obtain pst symm where p: "submit_array ex prio sy us = (pst, symm)" by (cases "submit_array ex prio sy us")
  obtain pst' symm' where q: "submit_coroutines ex prio sy us = (pst', symm')" by (cases "submit_coroutines ex prio sy us")
  have empty: "launches ([SetDone 0], None) []" by (simp add: launches_def kept_def)
  show ?thesis
    unfolding ts spawn_range_def size_def [symmetric] Let_def collect_until_eq gather_until_eq initiate_until_eq
      us_def [symmetric] m p q prod.case
    using launches_plain(1) [OF p] launches_plain(2) [OF q] launches_plain(3,4) [of us ex prio]
      launches_resized(1) [OF p] launches_resized(2) [OF q] launches_resized(3,4) [of _ us ex prio] empty
    by (cases "us = []") simp_all
qed

text \<open>
  C23: \<open>spawn_many\<close>, awaited or forked, in every mode of awaitable and for every kind of iterator, launches exactly the
  tasks that the count, the end and the limit select: each is bound to its own result slot, posted, initiated or kept
  for the symmetric transfer exactly once, after the counter was stored, and the counter is their number less the kept
  one.
\<close>

theorem spawn_many_launches:
  assumes "group_size Cnt sent iter \<le> length iter"
  shows "\<exists>r. spawn_impl mode Cnt isVoid iter sent ex prio sy = Some r \<and> launches r (take (group_size Cnt sent iter) iter)"
proof (cases sent)
  case (Count_of n)
  then show ?thesis using spawn_count_launches [of "group_size Cnt sent iter" Cnt n iter] assms
    by (simp add: spawn_impl_def group_size_def)
next
  case (End_of sized maxCount)
  then show ?thesis using spawn_range_launches [of mode Cnt isVoid sized iter maxCount ex prio sy]
    by (simp add: spawn_impl_def group_size_def)
qed

theorem spawn_many_launches_witness:
  "\<exists>r. spawn_impl COROUTINE 0 False [11, 12, 13] (End_of False 2) 1 0 True = Some r \<and> launches r [11, 12]"
  using spawn_many_launches [of 0 "End_of False 2" "[11, 12, 13]" COROUTINE False 1 0 True]
  by (simp add: group_size_def)

lemma filter_partition_mset: "mset (filter P xs) + mset (filter (\<lambda>x. \<not> P x) xs) = mset xs"
  by (induction xs) auto

lemma spawn_tuple_launches: "launches (spawn_tuple Tasks ex prio sy) (map snd Tasks)"
proof -
  let ?w = "tuple_work Tasks" and ?a = "map snd (filter (\<lambda>(m, t). m = ASYNC_INITIATE) Tasks)"
  have m: "mset ?w + mset ?a = mset (map snd Tasks)"
    using filter_partition_mset [of "\<lambda>(m, t). m \<noteq> ASYNC_INITIATE" Tasks]
    unfolding tuple_work_def mset_map by (simp add: split_def flip: image_mset_union)
  have i: "map (\<lambda>(m, t). Initiate t ex prio) xs = map (\<lambda>t. Initiate t ex prio) (map snd xs)" for xs :: "(mode \<times> nat) list"
    by (simp add: split_def)
  have sub: "set ?w \<subseteq> snd ` set Tasks" "set ?a \<subseteq> snd ` set Tasks" by (auto simp: tuple_work_def)
  have l: "length ?w \<le> length Tasks" by (simp add: tuple_work_def)
  show ?thesis
  proof (cases "?w = []")
    case True
    then show ?thesis using m sub(2) by (simp add: spawn_tuple_def launches_def kept_def Let_def i del: map_map)
  next
    case False
    have k: "add_mset (?w ! (length ?w - Suc 0)) (mset (take (length ?w - Suc 0) ?w) + C) = mset ?w + C" for C
      using split_last_mset [OF False] by (metis One_nat_def add_mset_add_single union_mset_add_mset_left)
    show ?thesis using False m sub set_take_subset [of "length ?w - 1" ?w] l
      by (auto simp: spawn_tuple_def launches_def kept_def Let_def i k simp del: map_map)
  qed
qed

end
