(* ===== verification/JoinGroup.thy ===== *)
theory JoinGroup
  imports SpawnGroup
begin

text \<open>
  Joining a group (\<open>await_suspend\<close> of \<open>spawn_many.hpp\<close>, \<open>spawn_tuple.hpp\<close> and \<open>fork_group.hpp\<close>): the children run
  on any threads and finish through their customizer while the parent goes on, forks more, and finally awaits.  The
  group's cells have the addresses below; a child's customizer points to all three.
\<close>

definition continuation_cell :: nat where "continuation_cell = 0"
definition executor_cell :: nat where "executor_cell = 0"
definition done_cell :: nat where "done_cell = 0"

definition exec_is :: "this_thread \<Rightarrow> nat \<Rightarrow> bool" where
  "exec_is t Executor \<longleftrightarrow> Executor = fst t"

text \<open>\<open>prepare_work\<close>: the customizer of a child, whose flags keep the priority they had.\<close>

definition prepare_work :: "size_t \<Rightarrow> customizer" where
  "prepare_work flags = \<lparr>c_continuation = Some continuation_cell, c_executor = executor_cell,
     c_done_count = Some done_cell, c_flags = flags\<rparr>"

definition set_done_count :: "nat \<Rightarrow> group_memory \<Rightarrow> group_memory" where
  "set_done_count NumTasks m = m\<lparr>counters := (counters m)(done_cell := of_nat NumTasks)\<rparr>"

section \<open>Awaiting the group\<close>

definition store_continuation :: "nat \<Rightarrow> group_memory \<Rightarrow> group_memory" where
  "store_continuation Outer m = m\<lparr>handle_slots := (handle_slots m)(continuation_cell := Some Outer)\<rparr>"

definition resume_here :: "this_thread \<Rightarrow> nat \<Rightarrow> nat \<Rightarrow> bool \<Rightarrow> group_memory \<Rightarrow> nat option \<times> group_memory" where
  "resume_here t Outer ex orNull m =
    (if orNull \<and> ex = 0 \<or> exec_is t ex then (Some Outer, m) else (None, submit ex [Outer] (snd t) m))"

text \<open>After the continuation is stored: transfer to the kept task, or count the parent down.\<close>

definition await_arrive :: "this_thread \<Rightarrow> nat \<Rightarrow> nat option \<Rightarrow> group_memory \<Rightarrow> nat option \<times> group_memory" where
  "await_arrive t Outer symmetric_task m =
    (case symmetric_task of
       Some next \<Rightarrow> (Some next, m)
     | None \<Rightarrow>
         let (remaining, m) = fetch_sub1 done_cell m
         in if remaining > 0 then (None, m)
            else resume_here t Outer (executor_slots m executor_cell) True m)"

definition await_suspend :: "this_thread \<Rightarrow> nat \<Rightarrow> nat option \<Rightarrow> group_memory \<Rightarrow> nat option \<times> group_memory" where
  "await_suspend t Outer symmetric_task m = await_arrive t Outer symmetric_task (store_continuation Outer m)"

section \<open>\<open>fork_group\<close>\<close>

record fork_group =
  task_count :: nat
  fg_mem :: group_memory

definition fork_group_new :: "group_memory \<Rightarrow> fork_group" where
  "fork_group_new m = \<lparr>task_count = 0, fg_mem = m\<lparr>counters := (counters m)(done_cell := 0),
     executor_slots := (executor_slots m)(executor_cell := 0)\<rparr>\<rparr>"

text \<open>\<open>fork\<close>: the result slot, the counter, then the launch.\<close>

definition fork_count :: "group_memory \<Rightarrow> group_memory" where
  "fork_count m = m\<lparr>counters := (counters m)(done_cell := counters m done_cell + 1)\<rparr>"

definition fork :: "mode \<Rightarrow> nat \<Rightarrow> nat \<Rightarrow> nat \<Rightarrow> fork_group \<Rightarrow> event list \<times> fork_group" where
  "fork mode Aw executor Priority g =
    (let prep = Prepare Aw (task_count g);
         g = \<lparr>task_count = task_count g + 1, fg_mem = fork_count (fg_mem g)\<rparr>
     in (if mode = ASYNC_INITIATE then [prep, Initiate Aw executor Priority] else [prep, PostBulk executor [Aw] Priority], g))"

definition fork_group_arrive :: "this_thread \<Rightarrow> nat \<Rightarrow> group_memory \<Rightarrow> nat option \<times> group_memory" where
  "fork_group_arrive t Outer m =
    (let (remaining, m) = fetch_sub1 done_cell m
     in if remaining > 0 then (None, m) else resume_here t Outer (executor_slots m executor_cell) False m)"

definition capture_executor :: "this_thread \<Rightarrow> group_memory \<Rightarrow> group_memory" where
  "capture_executor t m =
    (if executor_slots m executor_cell = 0
     then m\<lparr>executor_slots := (executor_slots m)(executor_cell := fst t)\<rparr> else m)"

definition fork_group_await_suspend :: "this_thread \<Rightarrow> nat \<Rightarrow> fork_group \<Rightarrow> nat option \<times> fork_group" where
  "fork_group_await_suspend t Outer g =
    (let (next, m) = fork_group_arrive t Outer (capture_executor t (store_continuation Outer (fg_mem g)))
     in (next, g\<lparr>fg_mem := m\<rparr>))"

definition fork_group_reset :: "fork_group \<Rightarrow> fork_group" where
  "fork_group_reset g = g\<lparr>task_count := 0, fg_mem := (fg_mem g)\<lparr>counters := (counters (fg_mem g))(done_cell := 0)\<rparr>\<rparr>"

section \<open>A group as a machine\<close>

text \<open>
  One machine for the groups whose constructor launches all children (\<open>fg\<close> false) and one for \<open>fork_group\<close>.  \<open>Running\<close>:
  before \<open>await_suspend\<close>; \<open>Stored\<close>: the continuation is stored; \<open>Captured\<close>: \<open>fork_group\<close> has looked at its executor;
  \<open>Away\<close>: \<open>await_suspend\<close> has returned.  \<open>wakeups\<close> logs each resumption of the parent with the executor that resumes it.
\<close>

datatype phase = Running | Stored | Captured this_thread | Away

record join =
  mem :: group_memory
  phase :: phase
  active :: "nat set"
  kept_task :: "nat option"
  wakeups :: "(nat \<times> nat) list"
  resume_arg :: nat                 \<comment> \<open>history: what \<open>resume_on\<close> of a fork group got, or 0\<close>
  awaited_on :: nat                 \<comment> \<open>history: the executor on which a fork group is awaited\<close>

definition resumptions :: "this_thread \<Rightarrow> nat option \<Rightarrow> group_memory \<Rightarrow> group_memory \<Rightarrow> (nat \<times> nat) list" where
  "resumptions t next m m' = (case next of None \<Rightarrow> [] | Some h \<Rightarrow> [(h, fst t)])
     @ concat (map (\<lambda>(ex, prio, hs). map (\<lambda>h. (h, ex)) hs) (drop (length (submitted m)) (submitted m')))"

definition resume_on :: "nat \<Rightarrow> group_memory \<Rightarrow> group_memory" where
  "resume_on Executor m = m\<lparr>executor_slots := (executor_slots m)(executor_cell := Executor)\<rparr>"

inductive join_step :: "bool \<Rightarrow> nat \<Rightarrow> join \<Rightarrow> join \<Rightarrow> bool" for fg Outer where
  finish: "i \<in> active s \<Longrightarrow> \<not> bit flags 63 \<Longrightarrow>
    resume_continuation t (prepare_work flags) (mem s) = Some (next, m) \<Longrightarrow>
    join_step fg Outer s (s\<lparr>mem := m, active := active s - {i}, wakeups := wakeups s @ resumptions t next (mem s) m\<rparr>)"
| store: "phase s = Running \<Longrightarrow>
    join_step fg Outer s (s\<lparr>mem := store_continuation Outer (mem s), phase := Stored\<rparr>)"
| transfer: "\<not> fg \<Longrightarrow> phase s = Stored \<Longrightarrow> kept_task s = Some i \<Longrightarrow> await_arrive t Outer (Some i) (mem s) = (Some i, m) \<Longrightarrow>
    join_step fg Outer s (s\<lparr>mem := m, phase := Away, active := insert i (active s), kept_task := None\<rparr>)"
| arrive: "\<not> fg \<Longrightarrow> phase s = Stored \<Longrightarrow> kept_task s = None \<Longrightarrow> await_arrive t Outer None (mem s) = (next, m) \<Longrightarrow>
    join_step fg Outer s (s\<lparr>mem := m, phase := Away, wakeups := wakeups s @ resumptions t next (mem s) m\<rparr>)"
| fork: "fg \<Longrightarrow> phase s = Running \<Longrightarrow> i \<notin> active s \<Longrightarrow> card (active s) + 2 < 2 ^ 63 \<Longrightarrow>
    fork md i ex prio \<lparr>task_count = k, fg_mem = mem s\<rparr> = (es, g) \<Longrightarrow>
    join_step fg Outer s (s\<lparr>mem := fg_mem g, active := insert i (active s)\<rparr>)"
| resume_on: "fg \<Longrightarrow> phase s = Running \<Longrightarrow> e \<noteq> 0 \<Longrightarrow>
    join_step fg Outer s (s\<lparr>mem := resume_on e (mem s), resume_arg := e\<rparr>)"
| capture: "fg \<Longrightarrow> phase s = Stored \<Longrightarrow>
    join_step fg Outer s (s\<lparr>mem := capture_executor t (mem s), phase := Captured t, awaited_on := fst t\<rparr>)"
| fork_arrive: "fg \<Longrightarrow> phase s = Captured t \<Longrightarrow> fork_group_arrive t Outer (mem s) = (next, m) \<Longrightarrow>
    join_step fg Outer s (s\<lparr>mem := m, phase := Away, wakeups := wakeups s @ resumptions t next (mem s) m\<rparr>)"

text \<open>The start: what a constructor of theory \<open>SpawnGroup\<close> leaves behind, or an empty fork group.\<close>

inductive join_start :: "bool \<Rightarrow> event list \<times> nat option \<Rightarrow> group_memory \<Rightarrow> join \<Rightarrow> bool" where
  spawned: "launches (es, symmetric_task) ts \<Longrightarrow> distinct ts \<Longrightarrow> length ts + 1 < 2 ^ 63 \<Longrightarrow> stored es = [d] \<Longrightarrow>
    join_start False (es, symmetric_task) m
      \<lparr>mem = set_done_count d m, phase = Running, active = set (launched es), kept_task = symmetric_task, wakeups = [],
       resume_arg = 0, awaited_on = 0\<rparr>"
| forking: "join_start True r m
      \<lparr>mem = fg_mem (fork_group_new m), phase = Running, active = {}, kept_task = None, wakeups = [], resume_arg = 0, awaited_on = 0\<rparr>"

inductive join_reachable :: "bool \<Rightarrow> nat \<Rightarrow> event list \<times> nat option \<Rightarrow> group_memory \<Rightarrow> join \<Rightarrow> bool" for fg Outer r m where
  start: "join_start fg r m s \<Longrightarrow> join_reachable fg Outer r m s"
| step: "join_reachable fg Outer r m s \<Longrightarrow> join_step fg Outer s s' \<Longrightarrow> join_reachable fg Outer r m s'"

section \<open>The invariant\<close>

text \<open>Decrements still to come: one per child, and one for the parent or its kept task.\<close>

definition outstanding :: "join \<Rightarrow> nat" where
  "outstanding s = card (active s) + (if phase s = Away then 0 else 1)"

text \<open>What the executor cell holds; \<open>ex\<close> is what the constructor of a group that is not a fork group put there.\<close>

definition asked_for :: "bool \<Rightarrow> nat \<Rightarrow> join \<Rightarrow> nat" where
  "asked_for fg ex s = (if fg then if resume_arg s = 0 then awaited_on s else resume_arg s else ex)"

definition join_inv :: "bool \<Rightarrow> nat \<Rightarrow> nat \<Rightarrow> join \<Rightarrow> bool" where
  "join_inv fg Outer ex s \<longleftrightarrow> finite (active s) \<and> card (active s) + 1 < 2 ^ 63
     \<and> (\<forall>i. kept_task s = Some i \<longrightarrow> i \<notin> active s \<and> card (active s) + 2 < 2 ^ 63 \<and> phase s \<noteq> Away \<and> \<not> fg)
     \<and> counters (mem s) done_cell = of_int (int (outstanding s) - 1)
     \<and> executor_slots (mem s) executor_cell = asked_for fg ex s
     \<and> (phase s = Running \<or> phase s = Stored \<longrightarrow> awaited_on s = 0)
     \<and> (phase s \<noteq> Running \<longrightarrow> handle_slots (mem s) continuation_cell = Some Outer)
     \<and> (if outstanding s = 0 then \<exists>e. wakeups s = [(Outer, e)] \<and> (asked_for fg ex s \<noteq> 0 \<longrightarrow> e = asked_for fg ex s) else wakeups s = [])"

lemma sint_of_int_64: "- (2 ^ 63) \<le> k \<Longrightarrow> k < 2 ^ 63 \<Longrightarrow> sint (of_int k :: size_t) = k"
  by (simp add: signed_of_int signed_take_bit_int_eq_self)

lemma fetch_sub1_outstanding:
  assumes "counters m d = of_int (int R - 1)" and "1 \<le> R" and "R \<le> 2 ^ 63"
  shows "fetch_sub1 d m = (int R - 1, m\<lparr>counters := (counters m)(d := of_int (int (R - 1) - 1))\<rparr>)"
proof -
  have "int R \<le> 2 ^ 63" using assms(3) by (metis of_nat_le_iff of_nat_numeral of_nat_power)
  then have "sint (of_int (int R - 1) :: size_t) = int R - 1" by (intro sint_of_int_64) (use assms(2) in auto)
  moreover have "(of_int (int R - 1) - 1 :: size_t) = of_int (int (R - 1) - 1)" using assms(2) by (simp add: of_nat_diff)
  ultimately show ?thesis using assms(1) by (simp add: fetch_sub1_def)
qed

lemma resume_parent:
  assumes "exec_is t ex \<or> orNull \<and> ex = 0 \<or> True"
  shows "\<exists>e. resumptions t (fst (resume_here t Outer ex orNull m)) m (snd (resume_here t Outer ex orNull m)) = [(Outer, e)]
    \<and> (ex \<noteq> 0 \<longrightarrow> e = ex)"
  by (auto simp: resume_here_def resumptions_def submit_def exec_is_def)

lemma resume_here_mem:
  "counters (snd (resume_here t Outer ex orNull m)) = counters m"
  "executor_slots (snd (resume_here t Outer ex orNull m)) = executor_slots m"
  "handle_slots (snd (resume_here t Outer ex orNull m)) = handle_slots m"
  by (simp_all add: resume_here_def submit_def)

text \<open>What a finishing child does, by the number of decrements that are left.\<close>

lemma finish_child:
  assumes "counters m done_cell = of_int (int R - 1)" and "1 \<le> R" and "R \<le> 2 ^ 63" and "\<not> bit flags 63"
    and "handle_slots m continuation_cell = Some Outer \<or> 1 < R"
    and "resume_continuation t (prepare_work flags) m = Some (next, m')"
  shows "counters m' done_cell = of_int (int (R - 1) - 1) \<and> executor_slots m' = executor_slots m
    \<and> handle_slots m' = handle_slots m
    \<and> (if R = 1 then \<exists>e. resumptions t next m m' = [(Outer, e)]
         \<and> (executor_slots m executor_cell \<noteq> 0 \<longrightarrow> e = executor_slots m executor_cell)
       else resumptions t next m m' = [])"
proof -
  let ?m = "m\<lparr>counters := (counters m)(done_cell := of_int (int (R - 1) - 1))\<rparr>"
  have each: "flags AND EACH = 0" using and_EACH(1) [of flags] assms(4) by blast
  have arr: "done_count_arrived done_cell m = (int R - 1 \<le> 0, ?m)"
    by (simp only: done_count_arrived_def fetch_sub1_outstanding [OF assms(1-3)] Let_def prod.case)
  show ?thesis
  proof (cases "R = 1")
    case True
    have h: "handle_slots m continuation_cell = Some Outer" using assms(5) True by simp
    show ?thesis
      using True assms(6) each arr
      by (auto simp: h resume_continuation_def resume_continuation_impl_def get_continuation_def prepare_work_def
          resumptions_def submit_def exec_prio_is_def split: if_splits)
  next
    case False
    then have "\<not> int R - 1 \<le> 0" using assms(2) by simp
    then show ?thesis
      using False assms(6) each arr
      by (auto simp: resume_continuation_def resume_continuation_impl_def get_continuation_def prepare_work_def
          resumptions_def)
  qed
qed

text \<open>The parent counts down: it goes on itself if nobody else is left.\<close>

lemma arrive_parent:
  assumes inv: "join_inv fg Outer ex s" and ph: "phase s \<noteq> Running" "phase s \<noteq> Away" and k: "kept_task s = None"
    and step: "(next, m) = (let (remaining, m) = fetch_sub1 done_cell (mem s) in if remaining > 0 then (None, m)
      else resume_here t Outer (executor_slots m executor_cell) orNull m)"
  shows "join_inv fg Outer ex (s\<lparr>mem := m, phase := Away, wakeups := wakeups s @ resumptions t next (mem s) m\<rparr>)"
proof -
  note I = inv [unfolded join_inv_def]
  let ?R = "outstanding s" and ?m = "mem s\<lparr>counters := (counters (mem s))(done_cell := of_int (int (outstanding s - 1) - 1))\<rparr>"
  have R: "1 \<le> ?R" "?R \<le> 2 ^ 63" "?R = card (active s) + 1" using I ph by (auto simp: outstanding_def)
  have c: "counters (mem s) done_cell = of_int (int ?R - 1)" using I by blast
  note f = fetch_sub1_outstanding [OF c R(1,2)]
  have w: "wakeups s = []" using I R(1) by (auto split: if_splits)
  let ?s = "s\<lparr>mem := m, phase := Away, wakeups := wakeups s @ resumptions t next (mem s) m\<rparr>"
  have o: "outstanding ?s = ?R - 1" using R(3) by (simp add: outstanding_def)
  have a: "asked_for fg ex ?s = asked_for fg ex s" by (simp add: asked_for_def)
  show ?thesis
  proof (cases "active s = {}")
    case True
    let ?ex = "asked_for fg ex s"
    have r: "(next, m) = resume_here t Outer ?ex orNull ?m" "?R = 1"
      using step f R(3) I True by simp_all
    have n: "next = fst (resume_here t Outer ?ex orNull ?m)" "m = snd (resume_here t Outer ?ex orNull ?m)"
      using r(1) by (metis fst_conv, metis snd_conv)
    have "resumptions t next (mem s) m = resumptions t next ?m m" by (simp add: resumptions_def)
    then obtain e where "wakeups ?s = [(Outer, e)]" "?ex \<noteq> 0 \<longrightarrow> e = ?ex"
      using resume_parent [of t ?ex orNull Outer ?m] w n by auto
    then show ?thesis
      using I r(2) resume_here_mem [of t Outer ?ex orNull ?m, folded n(2)] ph k unfolding join_inv_def o a by simp
  next
    case False
    then have "0 < card (active s)" using I by (simp add: card_gt_0_iff)
    then have "next = None" "m = ?m" using step f R(3) by simp_all
    moreover from this have "resumptions t next (mem s) m = []" by (simp add: resumptions_def)
    ultimately show ?thesis using False I \<open>0 < card (active s)\<close> R(3) w ph k unfolding join_inv_def o a by simp
  qed
qed

lemma finish_inv:
  assumes inv: "join_inv fg Outer ex s" and i: "i \<in> active s" and flags: "\<not> bit flags 63"
    and step: "resume_continuation t (prepare_work flags) (mem s) = Some (next', m)"
  shows "join_inv fg Outer ex (s\<lparr>mem := m, active := active s - {i}, wakeups := wakeups s @ resumptions t next' (mem s) m\<rparr>)"
proof -
  note I = inv [unfolded join_inv_def]
  let ?R = "outstanding s"
  have a: "1 \<le> card (active s)" using I i by (metis One_nat_def Suc_leI card_gt_0_iff empty_iff)
  then have R: "1 \<le> ?R" "?R \<le> 2 ^ 63" using I by (auto simp: outstanding_def)
  have h: "handle_slots (mem s) continuation_cell = Some Outer \<or> 1 < ?R"
    using I a by (cases "phase s") (auto simp: outstanding_def)
  have c: "counters (mem s) done_cell = of_int (int ?R - 1)" using I by blast
  note f = finish_child [OF c R flags h step]
  let ?s = "s\<lparr>mem := m, active := active s - {i}, wakeups := wakeups s @ resumptions t next' (mem s) m\<rparr>"
  have card: "card (active ?s) = card (active s) - 1" using I i by simp
  then have o: "outstanding ?s = ?R - 1" using a by (simp add: outstanding_def)
  have k: "asked_for fg ex ?s = asked_for fg ex s" by (simp add: asked_for_def)
  have w: "wakeups s = []" using I R(1) by (auto split: if_splits)
  have "if outstanding ?s = 0 then \<exists>e. wakeups ?s = [(Outer, e)] \<and> (asked_for fg ex ?s \<noteq> 0 \<longrightarrow> e = asked_for fg ex ?s) else wakeups ?s = []"
    using f w I R(1) unfolding o k by (auto split: if_splits)
  then show ?thesis using I f card unfolding join_inv_def o k by auto
qed

lemma join_step_inv:
  assumes "join_step fg Outer s s'" and inv: "join_inv fg Outer ex s"
  shows "join_inv fg Outer ex s'"
  using assms(1)
proof cases
  case (finish i flags t next' m)
  show ?thesis unfolding finish(1) by (rule finish_inv [OF inv finish(2-4)])
next
  case store
  then show ?thesis using inv by (auto simp: join_inv_def outstanding_def store_continuation_def asked_for_def)
next
  case (transfer i t m)
  have "m = mem s" using transfer(5) by (simp add: await_arrive_def)
  then show ?thesis using transfer(1-4) inv by (auto simp: join_inv_def outstanding_def asked_for_def)
next
  case (arrive t next' m)
  show ?thesis unfolding arrive(1)
    by (rule arrive_parent [OF inv]) (use arrive(3,4) arrive(5) [symmetric] in \<open>simp_all add: await_arrive_def\<close>)
next
  case (fork i md e prio k es g)
  have m: "fg_mem g = fork_count (mem s)" using fork(6) by (auto simp: fork_def Let_def)
  have "(of_int (int (outstanding s) - 1) + 1 :: size_t) = of_int (int (outstanding s + 1) - 1)" by simp
  then show ?thesis using inv fork(1-5) unfolding m by (auto simp: join_inv_def outstanding_def fork_count_def asked_for_def)
next
  case (resume_on e)
  then show ?thesis using inv by (auto simp: join_inv_def outstanding_def resume_on_def asked_for_def)
next
  case (capture t)
  then show ?thesis using inv by (auto simp: join_inv_def outstanding_def capture_executor_def asked_for_def)
next
  case (fork_arrive t next' m)
  have k: "kept_task s = None" using inv fork_arrive(2) by (cases "kept_task s") (auto simp: join_inv_def)
  show ?thesis unfolding fork_arrive(1)
    by (rule arrive_parent [OF inv, where orNull = False])
      (use fork_arrive(3) k fork_arrive(4) [symmetric] in \<open>simp_all add: fork_group_arrive_def\<close>)
qed

lemma join_start_inv:
  assumes "join_start fg r m s"
  shows "join_inv fg Outer (executor_slots m executor_cell) s"
  using assms
proof (induction rule: join_start.induct)
  case (spawned es symmetric_task ts d m)
  have l: "mset (launched es @ kept symmetric_task) = mset ts" "stored es = [length ts - length (kept symmetric_task)]"
    using spawned(1) by (simp_all add: launches_def)
  have dist: "distinct (launched es @ kept symmetric_task)" using l(1) spawned(2) by (metis mset_eq_imp_distinct_iff)
  have len: "length (launched es) + length (kept symmetric_task) = length ts"
    using l(1) by (metis length_append size_mset)
  then have d: "d = length (launched es)" using spawned(4) l(2) by simp
  have c: "card (set (launched es)) = length (launched es)" using dist by (simp add: distinct_card)
  have k: "i \<notin> set (launched es) \<and> length (launched es) + 1 = length ts" if "symmetric_task = Some i" for i
    using dist len that by (auto simp: kept_def)
  show ?case
    unfolding join_inv_def outstanding_def using c d k spawned(3) len
    by (auto simp: set_done_count_def asked_for_def)
next
  case (forking r m)
  show ?case by (simp add: join_inv_def outstanding_def fork_group_new_def asked_for_def)
qed

lemma join_reachable_inv:
  "join_reachable fg Outer r m s \<Longrightarrow> join_inv fg Outer (executor_slots m executor_cell) s"
  by (induction rule: join_reachable.induct) (blast intro: join_start_inv join_step_inv)+

text \<open>
  C21: Joining a group, for the groups that launch their children at once and for \<open>fork_group\<close>: in every interleaving of the
  children finishing, the parent awaiting and, for \<open>fork_group\<close>, further forks, the parent is resumed exactly when its
  await has returned or transferred and no child is left, exactly once, by the last of them to arrive, and on the
  executor it asked for: for \<open>fork_group\<close> the one given to \<open>resume_on\<close>, or else the one on which it is awaited; for the others
  the one their constructor stored.  When that executor is null, any thread may resume it.  (Fewer than \<open>2 ^ 63\<close> children
  are active at a time, and a group is awaited once; \<open>reset\<close> between two awaits is not a step.)
\<close>

theorem parent_resumed_once:
  assumes "join_reachable fg Outer r m s"
  shows "if phase s = Away \<and> active s = {}
    then \<exists>e. wakeups s = [(Outer, e)] \<and> (let ex = (if fg then if resume_arg s = 0 then awaited_on s else resume_arg s
        else executor_slots m executor_cell) in ex = 0 \<or> e = ex)
    else wakeups s = []"
proof -
  note I = join_reachable_inv [OF assms, unfolded join_inv_def asked_for_def]
  have "outstanding s = 0 \<longleftrightarrow> phase s = Away \<and> active s = {}" using I by (auto simp: outstanding_def)
  then show ?thesis using I by (auto simp: Let_def split: if_splits)
qed


text \<open>A kept task that is transferred to, and then resumes its parent 5 on executor 3.\<close>

definition cells0 :: group_memory where
  "cells0 = \<lparr>counters = (\<lambda>_. 7), handle_slots = (\<lambda>_. None), executor_slots = (\<lambda>_. 3), submitted = []\<rparr>"

theorem parent_resumed_once_witness:
  "\<exists>s. join_reachable False 5 ([Prepare 11 0, SetDone 0], Some 11) cells0 s \<and> wakeups s = [(5, 3)]"
proof -
  let ?r = "([Prepare 11 0, SetDone 0], Some 11)"
  let ?s0 = "\<lparr>mem = set_done_count 0 cells0, phase = Running, active = {}, kept_task = Some 11, wakeups = [], resume_arg = 0, awaited_on = 0\<rparr>"
  let ?m1 = "store_continuation 5 (set_done_count 0 cells0)"
  let ?s1 = "?s0\<lparr>mem := ?m1, phase := Stored\<rparr>"
  let ?s2 = "?s1\<lparr>phase := Away, active := {11}, kept_task := None\<rparr>"
  let ?m3 = "?m1\<lparr>counters := (counters ?m1)(done_cell := - 1)\<rparr>"
  let ?s3 = "?s2\<lparr>mem := ?m3, active := {}, wakeups := resumptions (3, 0) (Some 5) ?m1 ?m3\<rparr>"
  have "launches ?r [11]" by (simp add: launches_def kept_def)
  then have "join_start False ?r cells0 ?s0" using join_start.spawned [of "[Prepare 11 0, SetDone 0]" "Some 11" "[11]" 0 cells0] by simp
  then have 0: "join_reachable False 5 ?r cells0 ?s0" by (rule join_reachable.start)
  have "join_step False 5 ?s0 ?s1" using join_step.store [of ?s0 False 5] by simp
  with 0 have 1: "join_reachable False 5 ?r cells0 ?s1" by (rule join_reachable.step)
  have "join_step False 5 ?s1 ?s2"
    using join_step.transfer [of False ?s1 11 "(3, 0)" 5 ?m1] by (simp add: await_arrive_def)
  with 1 have 2: "join_reachable False 5 ?r cells0 ?s2" by (rule join_reachable.step)
  have "resume_continuation (3, 0) (prepare_work 0) ?m1 = Some (Some 5, ?m3)"
    by (simp add: resume_continuation_def resume_continuation_impl_def get_continuation_def prepare_work_def
        done_count_arrived_def fetch_sub1_def set_done_count_def store_continuation_def cells0_def exec_prio_is_def
        continuation_prio_def Let_def)
  then have "join_step False 5 ?s2 ?s3"
    using join_step.finish [of 11 ?s2 0 "(3, 0)" "Some 5" ?m3 False 5] by simp
  with 2 have 3: "join_reachable False 5 ?r cells0 ?s3" by (rule join_reachable.step)
  have "\<exists>e. wakeups ?s3 = [(5, e)] \<and> (executor_slots cells0 executor_cell = 0 \<or> e = executor_slots cells0 executor_cell)"
    using parent_resumed_once [OF 3] by (simp add: Let_def)
  then have "wakeups ?s3 = [(5, 3)]" by (auto simp: cells0_def)
  then show ?thesis using 3 by blast
qed

section \<open>Using a fork group again\<close>

text \<open>
  \<open>reset\<close> leaves \<open>continuation_executor\<close> as the first \<open>co_await\<close> captured it: a fork group that is awaited on one
  executor, reset, and awaited again on another, resumes its second awaiter on the first executor.
\<close>

lemma fork_group_resumes_on_first_executor:
  assumes "A \<noteq> 0" and "B \<noteq> A"
  shows "\<exists>g. fork_group_await_suspend (B, q) h2
      (fork_group_reset (snd (fork_group_await_suspend (A, p) h1 (fork_group_new m)))) = (None, g)
    \<and> submitted (fg_mem g) = submitted m @ [(A, q, [h2])]"
  using assms
  by (simp add: fork_group_await_suspend_def fork_group_arrive_def fork_group_reset_def fork_group_new_def
      store_continuation_def capture_executor_def fetch_sub1_def resume_here_def exec_is_def submit_def)

theorem fork_group_resumes_on_first_executor_witness:
  "\<exists>g. fork_group_await_suspend (2, 0) 6 (fork_group_reset (snd (fork_group_await_suspend (1, 0) 5 (fork_group_new cells0))))
    = (None, g) \<and> submitted (fg_mem g) = [(1, 0, [6])]"
  using fork_group_resumes_on_first_executor [of 1 2 0 6 0 5 cells0] by (simp add: cells0_def)

end
