(* ===== verification/MuxGroup.thy ===== *)
theory MuxGroup
  imports JoinGroup
begin

text \<open>
  The multiplexed group (\<open>src/include/tmc/mux_many.hpp\<close>, \<open>detail/mux_shared.ipp\<close>): up to 63 children, each with a slot
  of \<open>sync_flags\<close>, whose results the owner takes one by one while it forks new children into the slots that are free.
  Bit 63 of the flags is the lock bit \<open>EACH\<close>.  The cells of the group are those of theory \<open>JoinGroup\<close>.
\<close>

section \<open>The group\<close>

record mux =
  mux_mem :: group_memory
  remaining_count :: int
  active_slots :: size_t

definition sync_flags :: "mux \<Rightarrow> size_t" where
  "sync_flags x = counters (mux_mem x) done_cell"

definition set_sync_flags :: "size_t \<Rightarrow> mux \<Rightarrow> mux" where
  "set_sync_flags v x = x\<lparr>mux_mem := (mux_mem x)\<lparr>counters := (counters (mux_mem x))(done_cell := v)\<rparr>\<rparr>"

text \<open>\<open>prepare_work\<close>: the customizer of the child in slot \<open>Idx\<close>.\<close>

definition mux_prepare_work :: "nat \<Rightarrow> nat \<Rightarrow> customizer" where
  "mux_prepare_work Idx ContinuationPrio = prepare_work (each_flags Idx ContinuationPrio)"

definition init_active_counts :: "nat \<Rightarrow> mux \<Rightarrow> mux" where
  "init_active_counts NumTasks x =
    x\<lparr>remaining_count := int NumTasks, active_slots := push_bit NumTasks TMC_ONE_BIT - 1\<rparr>"

text \<open>\<open>initiate_eager\<close>: what is launched, and how many.  An iterator without an end produces at least \<open>Size\<close> items.\<close>

definition initiate_eager :: "mode \<Rightarrow> this_thread \<Rightarrow> nat list \<Rightarrow> nat \<Rightarrow> event list \<times> nat" where
  "initiate_eager mode t Items Size =
    (if mode = ASYNC_INITIATE
     then (initiate_until Size 0 (fst t) (snd t) Items, length (gather_until Size Items))
     else let (es, taskArr) = collect_until Size 0 Items; taskCount = length taskArr
          in (es @ (if taskCount \<noteq> 0 then post_bulk_checked (fst t) taskArr (snd t) else []), taskCount))"

definition mux_fields :: "group_memory \<Rightarrow> mux" where
  "mux_fields m = set_sync_flags EACH \<lparr>mux_mem = m, remaining_count = 0, active_slots = 0\<rparr>"

definition mux_new :: "group_memory \<Rightarrow> mux" where
  "mux_new m = init_active_counts 0 (mux_fields m)"

definition mux_many :: "mode \<Rightarrow> this_thread \<Rightarrow> nat \<Rightarrow> nat list \<Rightarrow> nat \<Rightarrow> group_memory \<Rightarrow> event list \<times> mux" where
  "mux_many mode t Cnt Items AwaitableCount m =
    (let size = (if AwaitableCount < Cnt then AwaitableCount else Cnt);
         (es, n) = initiate_eager mode t Items size
     in (es, init_active_counts n (mux_fields m)))"

definition is_active :: "nat \<Rightarrow> mux \<Rightarrow> bool" where
  "is_active Idx x \<longleftrightarrow> 0 \<noteq> active_slots x AND one_at Idx"

text \<open>\<open>fork\<close>: the owner's counts, then the launch.\<close>

definition mux_fork :: "mode \<Rightarrow> nat \<Rightarrow> nat \<Rightarrow> nat \<Rightarrow> nat \<Rightarrow> mux \<Rightarrow> event list \<times> mux" where
  "mux_fork mode Idx Aw exec Priority x =
    (let x = x\<lparr>active_slots := active_slots x OR one_at Idx, remaining_count := remaining_count x + 1\<rparr>
     in (if mode = ASYNC_INITIATE then [Prepare Aw Idx, Initiate Aw exec Priority]
         else [Prepare Aw Idx, PostBulk exec [Aw] Priority], x))"

section \<open>Awaiting one result\<close>

definition mux_end :: nat where "mux_end = TMC_PLATFORM_BITS"
definition mux_pending :: nat where "mux_pending = TMC_PLATFORM_BITS + 1"

definition results_of :: "size_t \<Rightarrow> size_t" where
  "results_of state = state AND NOT EACH"

definition mux_store :: "this_thread \<Rightarrow> nat \<Rightarrow> mux \<Rightarrow> mux" where
  "mux_store t Outer x = x\<lparr>mux_mem := store_continuation Outer
     ((mux_mem x)\<lparr>executor_slots := (executor_slots (mux_mem x))(executor_cell := fst t)\<rparr>)\<rparr>"

text \<open>The loop of \<open>mux_await_suspend\<close> with the state loaded: go on, or exchange.\<close>

definition suspend_check :: "size_t \<Rightarrow> bool" where
  "suspend_check state \<longleftrightarrow> results_of state \<noteq> 0"

text \<open>What \<open>mux_await_resume\<close> and \<open>mux_poll\<close> choose from the state they load.\<close>

definition choose_slot :: "size_t \<Rightarrow> nat" where
  "choose_slot state = tzcnt (results_of state)"

definition take_slot :: "nat \<Rightarrow> mux \<Rightarrow> mux" where
  "take_slot slot x = (let x = set_sync_flags (sync_flags x - one_at slot) x
     in if slot \<noteq> mux_end then x\<lparr>active_slots := active_slots x AND NOT (one_at slot)\<rparr> else x)"

section \<open>The machine\<close>

datatype owner =
    Owner_runs
  | Suspending size_t    \<comment> \<open>in \<open>mux_await_suspend\<close> with the state loaded\<close>
  | Owner_sleeps
  | Owner_resumes        \<comment> \<open>before \<open>await_resume\<close>\<close>
  | Chosen nat           \<comment> \<open>before the \<open>fetch_sub\<close> of \<open>await_resume\<close> or \<open>poll\<close>\<close>

record muxer =
  mx :: mux
  owner :: owner
  children :: "nat set"
  forked :: "nat list"      \<comment> \<open>history: slots forked\<close>
  consumed :: "nat list"    \<comment> \<open>history: slots returned by \<open>co_await\<close> or \<open>poll\<close>\<close>

inductive mux_step :: "nat \<Rightarrow> nat \<Rightarrow> nat \<Rightarrow> muxer \<Rightarrow> muxer \<Rightarrow> bool" for Cnt prio Outer where
  fork: "owner s = Owner_runs \<Longrightarrow> i < Cnt \<Longrightarrow> \<not> is_active i (mx s) \<Longrightarrow> mux_fork mode i aw ex p (mx s) = (es, x) \<Longrightarrow>
    mux_step Cnt prio Outer s (s\<lparr>mx := x, children := insert i (children s), forked := forked s @ [i]\<rparr>)"
| finish: "i \<in> children s \<Longrightarrow>
    get_continuation executor_cell (Some continuation_cell) (Some done_cell) (each_flags i prio) (mux_mem (mx s))
      = Some ((None, ex), m) \<Longrightarrow>
    mux_step Cnt prio Outer s (s\<lparr>mx := (mx s)\<lparr>mux_mem := m\<rparr>, children := children s - {i}\<rparr>)"
| finish_resume: "i \<in> children s \<Longrightarrow>
    get_continuation executor_cell (Some continuation_cell) (Some done_cell) (each_flags i prio) (mux_mem (mx s))
      = Some ((Some h, ex), m) \<Longrightarrow>
    mux_step Cnt prio Outer s
      (s\<lparr>mx := (mx s)\<lparr>mux_mem := m\<rparr>, children := children s - {i}, owner := Owner_resumes\<rparr>)"
| await_none: "owner s = Owner_runs \<Longrightarrow> remaining_count (mx s) = 0 \<Longrightarrow>
    mux_step Cnt prio Outer s (s\<lparr>mx := mux_store t Outer (mx s), owner := Owner_resumes\<rparr>)"
| await_load: "owner s = Owner_runs \<Longrightarrow> remaining_count (mx s) \<noteq> 0 \<Longrightarrow> x = mux_store t Outer (mx s) \<Longrightarrow>
    mux_step Cnt prio Outer s (s\<lparr>mx := x, owner := Suspending (sync_flags x)\<rparr>)"
| await_ready: "owner s = Suspending st \<Longrightarrow> suspend_check st \<Longrightarrow>
    mux_step Cnt prio Outer s (s\<lparr>owner := Owner_resumes\<rparr>)"
| await_sleep: "owner s = Suspending st \<Longrightarrow> \<not> suspend_check st \<Longrightarrow> sync_flags (mx s) = st \<Longrightarrow>
    mux_step Cnt prio Outer s (s\<lparr>mx := set_sync_flags (st AND NOT EACH) (mx s), owner := Owner_sleeps\<rparr>)"
| await_retry: "owner s = Suspending st \<Longrightarrow> \<not> suspend_check st \<Longrightarrow>
    mux_step Cnt prio Outer s (s\<lparr>owner := Suspending (sync_flags (mx s))\<rparr>)"
| resume_none: "owner s = Owner_resumes \<Longrightarrow> remaining_count (mx s) = 0 \<Longrightarrow>
    mux_step Cnt prio Outer s (s\<lparr>owner := Owner_runs\<rparr>)"
| resume_choose: "owner s = Owner_resumes \<Longrightarrow> remaining_count (mx s) \<noteq> 0 \<Longrightarrow>
    mux_step Cnt prio Outer s (s\<lparr>mx := (mx s)\<lparr>remaining_count := remaining_count (mx s) - 1\<rparr>,
      owner := Chosen (choose_slot (sync_flags (mx s)))\<rparr>)"
| poll_choose: "owner s = Owner_runs \<Longrightarrow> remaining_count (mx s) \<noteq> 0 \<Longrightarrow> results_of (sync_flags (mx s)) \<noteq> 0 \<Longrightarrow>
    mux_step Cnt prio Outer s (s\<lparr>mx := (mx s)\<lparr>remaining_count := remaining_count (mx s) - 1\<rparr>,
      owner := Chosen (choose_slot (sync_flags (mx s)))\<rparr>)"
| take: "owner s = Chosen slot \<Longrightarrow>
    mux_step Cnt prio Outer s (s\<lparr>mx := take_slot slot (mx s), owner := Owner_runs, consumed := consumed s @ [slot]\<rparr>)"

inductive mux_reachable :: "nat \<Rightarrow> nat \<Rightarrow> nat \<Rightarrow> muxer \<Rightarrow> bool" for Cnt prio Outer where
  start: "mux_many mode t Cnt items k m = (es, x) \<Longrightarrow>
    mux_reachable Cnt prio Outer \<lparr>mx = x, owner = Owner_runs, children = {0..<nat (remaining_count x)},
      forked = [0..<nat (remaining_count x)], consumed = []\<rparr>"
| step: "mux_reachable Cnt prio Outer s \<Longrightarrow> mux_step Cnt prio Outer s s' \<Longrightarrow> mux_reachable Cnt prio Outer s'"

section \<open>The invariant\<close>

text \<open>Slots with a result not yet chosen by the owner.\<close>

definition ready :: "muxer \<Rightarrow> nat set" where
  "ready s = bits (sync_flags (mx s)) - {63}"

definition chosen :: "muxer \<Rightarrow> nat set" where
  "chosen s = (case owner s of Chosen i \<Rightarrow> {i} | _ \<Rightarrow> {})"

definition mux_inv :: "nat \<Rightarrow> nat \<Rightarrow> muxer \<Rightarrow> bool" where
  "mux_inv Cnt Outer s \<longleftrightarrow> children s \<subseteq> {0..<Cnt} \<and> bits (active_slots (mx s)) = children s \<union> ready s
     \<and> children s \<inter> ready s = {} \<and> chosen s \<subseteq> ready s
     \<and> remaining_count (mx s) + int (card (chosen s)) = int (card (children s \<union> ready s))
     \<and> (bit (sync_flags (mx s)) 63 \<longleftrightarrow> owner s \<noteq> Owner_sleeps)
     \<and> (owner s \<in> {Owner_sleeps} \<union> range Suspending \<longrightarrow> handle_slots (mux_mem (mx s)) continuation_cell = Some Outer
          \<and> remaining_count (mx s) \<noteq> 0)
     \<and> (owner s = Owner_sleeps \<longrightarrow> ready s = {})
     \<and> (owner s = Owner_resumes \<longrightarrow> remaining_count (mx s) = 0 \<or> ready s \<noteq> {})
     \<and> (\<forall>st. owner s = Suspending st \<longrightarrow> bits st - {63} \<subseteq> ready s \<and> bit st 63)
     \<and> mset (consumed s) + mset_set (children s \<union> ready s) = mset (forked s)"

lemma mux_invD:
  assumes "mux_inv Cnt Outer s"
  shows "children s \<subseteq> {0..<Cnt}" and "bits (active_slots (mx s)) = children s \<union> ready s"
    and "children s \<inter> ready s = {}" and "chosen s \<subseteq> ready s"
    and "remaining_count (mx s) + int (card (chosen s)) = int (card (children s \<union> ready s))"
    and "bit (sync_flags (mx s)) 63 \<longleftrightarrow> owner s \<noteq> Owner_sleeps"
    and "mset (consumed s) + mset_set (children s \<union> ready s) = mset (forked s)"
  using assms by (simp_all add: mux_inv_def)

lemma results_zero: "results_of v = 0 \<longleftrightarrow> bits v - {63} = {}"
proof -
  have "bits (results_of v) = bits v - {63}" by (auto simp: results_of_def EACH_eq bit_and_not_at)
  then show ?thesis using bits_zero(2) [of "results_of v"] by simp
qed

lemma choose_slot_ready: "results_of v \<noteq> 0 \<Longrightarrow> choose_slot v \<in> bits v - {63}"
  using tzcnt_spec(1) [of "results_of v"] by (auto simp: choose_slot_def results_of_def EACH_eq bit_and_not_at)

lemma mux_sel [simp]:
  "sync_flags (set_sync_flags v x) = v" "active_slots (set_sync_flags v x) = active_slots x"
  "remaining_count (set_sync_flags v x) = remaining_count x"
  "handle_slots (mux_mem (set_sync_flags v x)) = handle_slots (mux_mem x)"
  "sync_flags (mux_store t Outer x) = sync_flags x" "active_slots (mux_store t Outer x) = active_slots x"
  "remaining_count (mux_store t Outer x) = remaining_count x"
  "handle_slots (mux_mem (mux_store t Outer x)) continuation_cell = Some Outer"
  "sync_flags (x\<lparr>remaining_count := r\<rparr>) = sync_flags x" "sync_flags (x\<lparr>active_slots := a\<rparr>) = sync_flags x"
  by (simp_all add: sync_flags_def set_sync_flags_def mux_store_def store_continuation_def)

text \<open>A child that finishes: its bit and the lock bit are set; it resumes the owner if the lock was free.\<close>

lemma finish_child_each:
  assumes "i < 63" and "prio < 16"
    and "get_continuation executor_cell (Some continuation_cell) (Some done_cell) (each_flags i prio) (mux_mem x)
      = Some ((final, ex), m)"
  shows "m = (mux_mem x)\<lparr>counters := (counters (mux_mem x))(done_cell := sync_flags x OR (EACH OR one_at i))\<rparr>
    \<and> final = (if bit (sync_flags x) 63 then None else handle_slots (mux_mem x) continuation_cell)"
proof -
  note f = each_flags_fields [OF assms(1,2)]
  have e: "each_flags i prio AND EACH \<noteq> 0" using f(1) and_EACH(1) by blast
  have l: "0 = EACH AND sync_flags x \<longleftrightarrow> \<not> bit (sync_flags x) 63" using and_EACH(2) [of "sync_flags x"] by metis
  show ?thesis
    using assms(3) e l unfolding get_continuation_def f(2) one_at_def [symmetric] sync_flags_def
    by (auto split: if_splits)
qed

lemma bits_finish: "i < 64 \<Longrightarrow> bits (v OR (EACH OR one_at i)) = insert 63 (insert i (bits v))"
  unfolding EACH_eq by (auto simp: bit_or_iff bit_one_at)

lemma mux_finish_inv:
  assumes "Cnt \<le> 63" and "prio < 16" and "mux_inv Cnt Outer s" and "i \<in> children s"
    and "get_continuation executor_cell (Some continuation_cell) (Some done_cell) (each_flags i prio) (mux_mem (mx s))
      = Some ((final, ex), m)"
    and "s' = s\<lparr>mx := (mx s)\<lparr>mux_mem := m\<rparr>, children := children s - {i}, owner := (case final of None \<Rightarrow> owner s | Some h \<Rightarrow> Owner_resumes)\<rparr>"
  shows "mux_inv Cnt Outer s' \<and> (final \<noteq> None \<longleftrightarrow> owner s = Owner_sleeps) \<and> (final \<noteq> None \<longrightarrow> final = Some Outer)"
proof -
  note I = assms(3) [unfolded mux_inv_def]
  have i: "i < 63" using I assms(1,4) by auto
  note f = finish_child_each [OF i assms(2,5)]
  have flags: "sync_flags (mx s') = sync_flags (mx s) OR (EACH OR one_at i)"
    and rest: "active_slots (mx s') = active_slots (mx s)" "remaining_count (mx s') = remaining_count (mx s)"
      "handle_slots (mux_mem (mx s')) = handle_slots (mux_mem (mx s))"
      "children s' = children s - {i}" "forked s' = forked s" "consumed s' = consumed s"
    using f by (simp_all add: assms(6) sync_flags_def)
  have r: "ready s' = insert i (ready s)" using i by (auto simp: ready_def flags bits_finish)
  have final: "final = (if owner s = Owner_sleeps then Some Outer else None)" using f I by auto
  have u: "children s' \<union> ready s' = children s \<union> ready s" using assms(4) rest r by auto
  have b: "bit (sync_flags (mx s')) 63" using bits_finish [of i "sync_flags (mx s)"] i in_bits [of 63] unfolding flags by auto
  have o: "owner s' = (if owner s = Owner_sleeps then Owner_resumes else owner s)" using final by (simp add: assms(6))
  have c: "chosen s' = chosen s" using o by (auto simp: chosen_def)
  show ?thesis unfolding mux_inv_def u rest(1-3,5,6) c using I r b o rest(4) final by auto
qed


lemma bits_mask: "n \<le> 63 \<Longrightarrow> bits (push_bit n TMC_ONE_BIT - 1) = {0..<n}"
proof -
  assume n: "n \<le> 63"
  have "push_bit n TMC_ONE_BIT - 1 = mask n" by (simp add: mask_eq_exp_minus_1)
  then show ?thesis using n by (auto simp: bits_def bit_mask_iff)
qed

lemma bit_and_one_at: "0 \<noteq> v AND one_at i \<longleftrightarrow> bit v i"
  using and_one_at [of v i] by metis

lemma mux_fork_inv:
  assumes "Cnt \<le> 63" and "mux_inv Cnt Outer s" and "owner s = Owner_runs" and "i < Cnt" and "\<not> is_active i (mx s)"
    and "mux_fork mode i aw ex p (mx s) = (es, x)"
  shows "mux_inv Cnt Outer (s\<lparr>mx := x, children := insert i (children s), forked := forked s @ [i]\<rparr>)"
proof -
  note D = mux_invD [OF assms(2)]
  let ?s = "s\<lparr>mx := x, children := insert i (children s), forked := forked s @ [i]\<rparr>"
  have x: "x = (mx s)\<lparr>active_slots := active_slots (mx s) OR one_at i, remaining_count := remaining_count (mx s) + 1\<rparr>"
    using assms(6) by (simp add: mux_fork_def)
  have i: "i < 64" using assms(1,4) by simp
  have nb: "\<not> bit (active_slots (mx s)) i" using assms(5) unfolding is_active_def bit_and_one_at .
  have n: "i \<notin> children s \<union> ready s" 
    using nb unfolding D(2) [symmetric] in_bits .
  have fin: "finite (children s \<union> ready s)" unfolding D(2) [symmetric] by (rule finite_bits)
  have r: "ready ?s = ready s" "chosen ?s = chosen s" by (simp_all add: ready_def chosen_def x)
  have b: "bits (active_slots (mx ?s)) = insert i (bits (active_slots (mx s)))"
    using i by (auto simp: x bit_or_at)
  have u: "children ?s \<union> ready ?s = insert i (children s \<union> ready s)" using r by simp
  have s: "children ?s = insert i (children s)" "remaining_count (mx ?s) = remaining_count (mx s) + 1"
    "sync_flags (mx ?s) = sync_flags (mx s)" "owner ?s = Owner_runs" "mset (forked ?s) = add_mset i (mset (forked s))"
    "consumed ?s = consumed s"
    using assms(3) by (simp_all add: x)
  have m: "mset_set (insert i (children s \<union> ready s)) = add_mset i (mset_set (children s \<union> ready s))"
    "card (insert i (children s \<union> ready s)) = Suc (card (children s \<union> ready s))"
    using fin n by simp_all
  show ?thesis
    unfolding mux_inv_def u b m r s(1-6)
    using D n assms(3,4) by (intro conjI) (auto simp: chosen_def m)
qed

lemma mux_take_inv:
  assumes "Cnt \<le> 63" and "mux_inv Cnt Outer s" and "owner s = Chosen slot"
  shows "mux_inv Cnt Outer (s\<lparr>mx := take_slot slot (mx s), owner := Owner_runs, consumed := consumed s @ [slot]\<rparr>)"
proof -
  note I = assms(2) [unfolded mux_inv_def]
  let ?s = "s\<lparr>mx := take_slot slot (mx s), owner := Owner_runs, consumed := consumed s @ [slot]\<rparr>"
  have c: "chosen s = {slot}" using assms(3) by (simp add: chosen_def)
  then have slot: "slot \<in> ready s" "slot \<notin> children s" using I by auto
  then have b: "bit (sync_flags (mx s)) slot" "slot \<noteq> 63" by (auto simp: ready_def)
  then have e: "slot \<noteq> mux_end" using bit_less_64 [of "sync_flags (mx s)" slot] by (simp add: mux_end_def)
  note D = mux_invD [OF assms(2)]
  have fin: "finite (children s \<union> ready s)" unfolding D(2) [symmetric] by (rule finite_bits)
  have f: "bits (sync_flags (mx ?s)) = bits (sync_flags (mx s)) - {slot}"
    "bits (active_slots (mx ?s)) = bits (active_slots (mx s)) - {slot}"
    using e by (auto simp: take_slot_def Let_def sub_one_at [OF b(1)] bit_and_not_at)
  have rest: "remaining_count (mx ?s) = remaining_count (mx s)"
    "handle_slots (mux_mem (mx ?s)) = handle_slots (mux_mem (mx s))" "chosen ?s = {}"
    by (simp_all add: take_slot_def Let_def chosen_def)
  have r: "ready ?s = ready s - {slot}" using f(1) by (auto simp: ready_def)
  have m: "mset_set (children s \<union> ready s) = add_mset slot (mset_set (children s \<union> ready s - {slot}))"
    using fin slot(1) by (intro mset_set.remove) auto
  have card: "card (children s \<union> ready s) = Suc (card (children s \<union> ready s - {slot}))"
    using fin slot(1) by (intro card.remove) auto
  have l: "bit (sync_flags (mx s)) 63" using I assms(3) by simp
  have l': "bit (sync_flags (mx ?s)) 63"
    using f(1) b(2) l unfolding in_bits [symmetric] by blast
  have m': "mset (consumed ?s) + mset_set (children s \<union> ready s - {slot}) = mset (forked ?s)"
    using I m by simp
  have n: "remaining_count (mx s) = int (card (children s \<union> ready s - {slot}))" using I c card by simp
  have s: "children ?s = children s" "owner ?s = Owner_runs" by simp_all
  have sub: "children s \<inter> (ready s - {slot}) = {}" "bits (active_slots (mx s)) - {slot} = children s \<union> ready s - {slot}"
    using D(2,3) by auto
  have u': "children s \<union> (ready s - {slot}) = children s \<union> ready s - {slot}" using slot(2) by auto
  show ?thesis
    unfolding mux_inv_def rest f(2) r s u' sub
    using D(1) l' m' n by auto
qed

lemma mux_choose_inv:
  assumes "mux_inv Cnt Outer s" and "owner s = Owner_runs \<or> owner s = Owner_resumes" and "remaining_count (mx s) \<noteq> 0"
    and "results_of (sync_flags (mx s)) \<noteq> 0"
  shows "mux_inv Cnt Outer (s\<lparr>mx := (mx s)\<lparr>remaining_count := remaining_count (mx s) - 1\<rparr>,
      owner := Chosen (choose_slot (sync_flags (mx s)))\<rparr>)"
proof -
  note I = assms(1) [unfolded mux_inv_def]
  let ?s = "s\<lparr>mx := (mx s)\<lparr>remaining_count := remaining_count (mx s) - 1\<rparr>, owner := Chosen (choose_slot (sync_flags (mx s)))\<rparr>"
  have c: "chosen s = {}" using assms(2) by (auto simp: chosen_def)
  have "choose_slot (sync_flags (mx s)) \<in> ready s" using choose_slot_ready [OF assms(4)] by (simp only: ready_def)
  moreover have r: "ready ?s = ready s" by (simp add: ready_def)
  moreover have "chosen ?s = {choose_slot (sync_flags (mx s))}" by (simp add: chosen_def)
  ultimately show ?thesis unfolding mux_inv_def using I c assms(2) by auto
qed

lemma mux_owner_inv:
  assumes "mux_inv Cnt Outer s" and "owner s \<noteq> Owner_sleeps" and "chosen s = {}" and "o' \<noteq> Owner_sleeps"
    and "\<And>i. o' \<noteq> Chosen i" and "sync_flags x = sync_flags (mx s)" and "active_slots x = active_slots (mx s)"
    and "remaining_count x = remaining_count (mx s)"
    and "o' = Owner_resumes \<Longrightarrow> remaining_count (mx s) = 0 \<or> ready s \<noteq> {}"
    and "\<And>st. o' = Suspending st \<Longrightarrow> bits st - {63} \<subseteq> ready s \<and> bit st 63 \<and> remaining_count (mx s) \<noteq> 0
       \<and> handle_slots (mux_mem x) continuation_cell = Some Outer"
  shows "mux_inv Cnt Outer (s\<lparr>mx := x, owner := o'\<rparr>)"
proof -
  note I = assms(1) [unfolded mux_inv_def]
  have r: "ready (s\<lparr>mx := x, owner := o'\<rparr>) = ready s" using assms(6) by (simp add: ready_def)
  have c: "chosen (s\<lparr>mx := x, owner := o'\<rparr>) = {}" using assms(5) by (cases o') (auto simp: chosen_def)
  show ?thesis unfolding mux_inv_def r c using I assms by auto
qed

lemma mux_step_inv:
  assumes "mux_step Cnt prio Outer s s'" and "mux_inv Cnt Outer s" and "Cnt \<le> 63" and "prio < 16"
  shows "mux_inv Cnt Outer s'"
  using assms
proof (induction rule: mux_step.induct)
  case (fork s i mode aw ex p es x)
  then show ?case using mux_fork_inv by blast
next
  case (finish i s ex m)
  then show ?case
    using mux_finish_inv [of Cnt prio Outer s i None ex m "s\<lparr>mx := (mx s)\<lparr>mux_mem := m\<rparr>, children := children s - {i}\<rparr>"]
    by simp
next
  case (finish_resume i s h ex m)
  then show ?case
    using mux_finish_inv [of Cnt prio Outer s i "Some h" ex m
      "s\<lparr>mx := (mx s)\<lparr>mux_mem := m\<rparr>, children := children s - {i}, owner := Owner_resumes\<rparr>"] by simp
next
  case (await_none s t)
  then show ?case by (intro mux_owner_inv) (auto simp: chosen_def)
next
  case (await_load s x t)
  have "bit (sync_flags (mx s)) 63" using await_load.prems(1) await_load.hyps(1) by (auto simp: mux_inv_def)
  then show ?case
    using await_load by (intro mux_owner_inv) (auto simp: chosen_def ready_def)
next
  case (await_ready s st)
  have "bits st - {63} \<subseteq> ready s" using await_ready by (auto simp: mux_inv_def)
  moreover have "bits st - {63} \<noteq> {}" using await_ready.hyps(2) results_zero by (simp add: suspend_check_def)
  ultimately have "ready s \<noteq> {}" by blast
  then show ?case
    using mux_owner_inv [of Cnt Outer s Owner_resumes "mx s"] await_ready by (simp add: chosen_def)
next
  case (await_sleep s st)
  note I = await_sleep.prems(1) [unfolded mux_inv_def]
  let ?s = "s\<lparr>mx := set_sync_flags (st AND NOT EACH) (mx s), owner := Owner_sleeps\<rparr>"
  have "bits st - {63} = {}" using await_sleep.hyps(2) results_zero by (simp add: suspend_check_def)
  then have r: "ready s = {}" using await_sleep.hyps(3) by (simp add: ready_def)
  have "results_of st = 0" using await_sleep.hyps(2) by (simp only: suspend_check_def not_not)
  then have z: "sync_flags (mx ?s) = 0" by (simp add: results_of_def)
  then have r': "ready ?s = {}" "\<not> bit (sync_flags (mx ?s)) 63" unfolding ready_def by (simp_all add: bits_zero)
  have "chosen s = {}" "chosen ?s = {}" using await_sleep.hyps(1) by (simp_all add: chosen_def)
  then show ?case unfolding mux_inv_def r r' using I r r'(2) await_sleep.hyps(1) by simp
next
  case (await_retry s st)
  have "bit (sync_flags (mx s)) 63" "remaining_count (mx s) \<noteq> 0" "handle_slots (mux_mem (mx s)) continuation_cell = Some Outer"
    using await_retry.prems(1) await_retry.hyps(1) by (auto simp: mux_inv_def)
  then show ?case
    using mux_owner_inv [of Cnt Outer s "Suspending (sync_flags (mx s))" "mx s"] await_retry
    by (simp add: chosen_def ready_def)
next
  case (resume_none s)
  then show ?case using mux_owner_inv [of Cnt Outer s Owner_runs "mx s"] by (simp add: chosen_def)
next
  case (resume_choose s)
  have "ready s \<noteq> {}" using resume_choose by (auto simp: mux_inv_def)
  then have "results_of (sync_flags (mx s)) \<noteq> 0" using results_zero by (simp add: ready_def)
  then show ?case using resume_choose by (intro mux_choose_inv) auto
next
  case (poll_choose s)
  then show ?case by (intro mux_choose_inv) auto
next
  case (take s slot)
  then show ?case using mux_take_inv by blast
qed

lemma mux_start_inv:
  assumes "mux_many mode t Cnt items k m = (es, x)" and "Cnt \<le> 63"
  shows "mux_inv Cnt Outer \<lparr>mx = x, owner = Owner_runs, children = {0..<nat (remaining_count x)},
      forked = [0..<nat (remaining_count x)], consumed = []\<rparr>"
proof -
  let ?size = "if k < Cnt then k else Cnt"
  obtain n where n: "snd (initiate_eager mode t items ?size) = n" "n \<le> ?size"
    by (auto simp: initiate_eager_def gather_until_eq collect_until_eq)
  then have x: "x = init_active_counts n (mux_fields m)" using assms(1) by (auto simp: mux_many_def Let_def split_def)
  have n63: "n \<le> 63" "n \<le> Cnt" using n(2) assms(2) by (auto split: if_splits)
  let ?s = "\<lparr>mx = x, owner = Owner_runs, children = {0..<nat (remaining_count x)},
      forked = [0..<nat (remaining_count x)], consumed = []\<rparr>"
  have f: "sync_flags x = EACH" "remaining_count x = int n" "bits (active_slots x) = {0..<n}"
    using bits_mask [OF n63(1)] by (simp_all add: x init_active_counts_def mux_fields_def)
  have "ready ?s = {}" "bit EACH 63" using f(1) by (auto simp: ready_def EACH_eq bit_one_at)
  then show ?thesis unfolding mux_inv_def using f n63 by (auto simp: chosen_def mset_upt)
qed

lemma mux_reachable_inv: "mux_reachable Cnt prio Outer s \<Longrightarrow> Cnt \<le> 63 \<Longrightarrow> prio < 16 \<Longrightarrow> mux_inv Cnt Outer s"
  by (induction rule: mux_reachable.induct) (auto intro: mux_start_inv mux_step_inv)

section \<open>A run\<close>

text \<open>One child in a group of two; the owner sleeps, and the child resumes it.\<close>

definition run0 :: muxer where
  "run0 = \<lparr>mx = \<lparr>mux_mem = (cells0\<lparr>counters := (counters cells0)(done_cell := EACH)\<rparr>), remaining_count = 1, active_slots = 1\<rparr>,
     owner = Owner_runs, children = {0}, forked = [0], consumed = []\<rparr>"

definition run1 :: muxer where
  "run1 = run0\<lparr>mx := mux_store (3, 0) 5 (mx run0), owner := Suspending EACH\<rparr>"

definition run2 :: muxer where
  "run2 = run1\<lparr>mx := set_sync_flags 0 (mx run1), owner := Owner_sleeps\<rparr>"

definition run3 :: muxer where
  "run3 = run2\<lparr>mx := set_sync_flags (EACH OR one_at 0) (mx run2), children := {}, owner := Owner_resumes\<rparr>"

definition run4 :: muxer where
  "run4 = run3\<lparr>mx := take_slot 0 ((mx run3)\<lparr>remaining_count := 0\<rparr>), owner := Owner_runs, consumed := [0]\<rparr>"

lemma run_sleeps: "mux_reachable 2 0 5 run2"
proof -
  have "mux_many COROUTINE (3, 0) 2 [11] 1 cells0 = ([Prepare 11 0, PostBulk 3 [11] 0], mx run0)"
    by (simp add: mux_many_def initiate_eager_def post_bulk_checked_def init_active_counts_def mux_fields_def
        set_sync_flags_def run0_def cells0_def)
  note start = mux_reachable.start [OF this, of 0 5]
  then have 0: "mux_reachable 2 0 5 run0" by (simp add: run0_def)
  have f: "sync_flags (mx run0) = EACH" by (simp add: run0_def sync_flags_def)
  then have flags: "sync_flags (mux_store (3, 0) 5 (mx run0)) = EACH" "sync_flags (mx run1) = EACH"
    by (simp_all add: run1_def)
  have "mux_step 2 0 5 run0 run1"
    unfolding run1_def flags(1) [symmetric] by (rule mux_step.await_load) (simp_all add: run0_def)
  with 0 have 1: "mux_reachable 2 0 5 run1" by (rule mux_reachable.step)
  have "mux_step 2 0 5 run1 (run1\<lparr>mx := set_sync_flags (EACH AND NOT EACH) (mx run1), owner := Owner_sleeps\<rparr>)"
    by (rule mux_step.await_sleep) (use flags(2) in \<open>simp_all add: run1_def suspend_check_def results_of_def\<close>)
  then have "mux_step 2 0 5 run1 run2" by (simp add: run2_def)
  with 1 show ?thesis by (rule mux_reachable.step)
qed

lemma run_resumes: "mux_reachable 2 0 5 run3"
proof -
  have s: "counters (mux_mem (mx run2)) done_cell = 0" "handle_slots (mux_mem (mx run2)) continuation_cell = Some 5"
    by (simp_all add: run2_def run1_def set_sync_flags_def mux_store_def store_continuation_def)
  have e: "each_flags 0 0 AND EACH \<noteq> 0" using each_flags_fields(1) [of 0 0] and_EACH(1) by simp
  have "get_continuation executor_cell (Some continuation_cell) (Some done_cell) (each_flags 0 0) (mux_mem (mx run2))
      = Some ((Some 5, executor_slots (mux_mem (mx run2)) executor_cell), mux_mem (mx run3))"
    using e each_flags_fields(2) [of 0 0] by (simp add: get_continuation_def s run3_def set_sync_flags_def one_at_def)
  from mux_step.finish_resume [of 0 run2, OF _ this] have "mux_step 2 0 5 run2 run3"
    by (simp add: run3_def run2_def run1_def run0_def set_sync_flags_def)
  with run_sleeps show ?thesis by (rule mux_reachable.step)
qed

lemma run_returns: "mux_reachable 2 0 5 run4"
proof -
  have f: "sync_flags (mx run3) = EACH OR one_at 0" "choose_slot (EACH OR one_at 0) = 0"
    unfolding run3_def by simp code_simp
  let ?s = "run3\<lparr>mx := (mx run3)\<lparr>remaining_count := 0\<rparr>, owner := Chosen 0\<rparr>"
  have "mux_step 2 0 5 run3 ?s"
    using mux_step.resume_choose [of run3 2 0 5] f
    by (simp add: run3_def run2_def run1_def run0_def)
  with run_resumes have "mux_reachable 2 0 5 ?s" by (rule mux_reachable.step)
  moreover have "mux_step 2 0 5 ?s run4"
    using mux_step.take [of ?s 0 2 0 5] by (simp add: run4_def run3_def run2_def run1_def run0_def)
  ultimately show ?thesis by (rule mux_reachable.step)
qed

section \<open>Properties of every interleaving\<close>

text \<open>
  C24: In every interleaving of children finishing, forks, polls and awaits, each submission of a slot is either
  pending, ready, or was returned to the owner, exactly once: the slots returned and those still active are the slots
  forked, counted with multiplicity.
\<close>

theorem mux_returns_each_once:
  assumes "mux_reachable Cnt prio Outer s" and "Cnt \<le> 63" and "prio < 16"
  shows "mset (consumed s) + mset_set (bits (active_slots (mx s))) = mset (forked s)"
  using mux_reachable_inv [OF assms] by (simp add: mux_inv_def)

theorem mux_returns_each_once_witness: "mset (consumed run4) + mset_set (bits (active_slots (mx run4))) = {#0#}"
  using mux_returns_each_once [OF run_returns] by (simp add: run4_def run3_def run2_def run1_def run0_def)

text \<open>
  The owner of a multiplexed group never sleeps through a result: while it sleeps the lock bit is clear, no result
  is ready and some child is still to finish; and a child that finishes resumes the owner exactly if it sleeps.
\<close>

lemma mux_no_lost_wakeup:
  assumes "mux_reachable Cnt prio Outer s" and "Cnt \<le> 63" and "prio < 16"
  shows "(owner s = Owner_sleeps \<longrightarrow> sync_flags (mx s) = 0 \<and> children s \<noteq> {})
    \<and> (\<forall>i \<in> children s. \<forall>final ex m.
        get_continuation executor_cell (Some continuation_cell) (Some done_cell) (each_flags i prio) (mux_mem (mx s))
          = Some ((final, ex), m) \<longrightarrow> final = (if owner s = Owner_sleeps then Some Outer else None))"
proof (intro conjI impI ballI allI)
  note inv = mux_reachable_inv [OF assms]
  note I = inv [unfolded mux_inv_def]
  show "sync_flags (mx s) = 0" if "owner s = Owner_sleeps"
  proof -
    have "bits (sync_flags (mx s)) \<subseteq> {63}" "63 \<notin> bits (sync_flags (mx s))"
      using I that in_bits by (auto simp: ready_def)
    then show ?thesis using bits_zero(2) [of "sync_flags (mx s)"] by blast
  qed
  show "children s \<noteq> {}" if "owner s = Owner_sleeps" using I that by (auto simp: chosen_def)
  show "final = (if owner s = Owner_sleeps then Some Outer else None)"
    if "i \<in> children s" "get_continuation executor_cell (Some continuation_cell) (Some done_cell) (each_flags i prio)
      (mux_mem (mx s)) = Some ((final, ex), m)" for i final ex m
    using mux_finish_inv [OF assms(2,3) inv that refl] by auto
qed

theorem mux_no_lost_wakeup_witness: "owner run2 = Owner_sleeps \<and> sync_flags (mx run2) = 0 \<and> children run2 \<noteq> {}"
  using mux_no_lost_wakeup [OF run_sleeps] by (simp add: run2_def)

text \<open>
  \<open>await_resume\<close> never counts the zeros of an empty mask: when the owner resumes with results outstanding, one is
  ready, so the slot it returns is an index of the group.
\<close>

lemma mux_resume_finds_result:
  assumes "mux_reachable Cnt prio Outer s" and "Cnt \<le> 63" and "prio < 16"
    and "owner s = Owner_resumes" and "remaining_count (mx s) \<noteq> 0"
  shows "results_of (sync_flags (mx s)) \<noteq> 0 \<and> choose_slot (sync_flags (mx s)) < 63"
proof -
  have "ready s \<noteq> {}" using mux_reachable_inv [OF assms(1-3)] assms(4,5) by (auto simp: mux_inv_def)
  then have n: "results_of (sync_flags (mx s)) \<noteq> 0" using results_zero by (simp add: ready_def)
  have "choose_slot (sync_flags (mx s)) \<in> bits (sync_flags (mx s)) - {63}" by (rule choose_slot_ready [OF n])
  then show ?thesis using n bit_less_64 [of "sync_flags (mx s)" "choose_slot (sync_flags (mx s))"] by auto
qed

theorem mux_resume_finds_result_witness:
  "owner run3 = Owner_resumes \<and> results_of (sync_flags (mx run3)) \<noteq> 0 \<and> choose_slot (sync_flags (mx run3)) < 63"
  using mux_resume_finds_result [OF run_resumes] by (simp add: run3_def run2_def run1_def run0_def)

end
