(* ===== verification/RwLock.thy ===== *)
theory RwLock
  imports SyncSteps
begin

text \<open>
  The reader-writer lock (\<open>src/include/tmc/rw_lock.hpp\<close>, \<open>detail/rw_lock.ipp\<close>) as a machine of interleaved atomic
  steps: any number of threads lock, try to lock and unlock in either mode.  The word packs the bits \<open>WAKING\<close> and
  \<open>WRITER\<close> and three counts of 20 bits.  There are two waiter lists, of the readers and of the writers; they are those
  of theory \<open>SyncSteps\<close>.
\<close>

section \<open>The word\<close>

definition WRITER :: size_t where "WRITER = push_bit 1 1"
definition WAKING :: size_t where "WAKING = 1"
definition STATE_BITS :: nat where "STATE_BITS = 64"
definition FIELD_BITS :: nat where "FIELD_BITS = (STATE_BITS - 2) div 3"
definition FIELD_MASK :: size_t where "FIELD_MASK = push_bit FIELD_BITS 1 - 1"
definition READERS_OFFSET :: nat where "READERS_OFFSET = 2"
definition READ_WAITERS_OFFSET :: nat where "READ_WAITERS_OFFSET = READERS_OFFSET + FIELD_BITS"
definition WRITE_WAITERS_OFFSET :: nat where "WRITE_WAITERS_OFFSET = READ_WAITERS_OFFSET + FIELD_BITS"
definition READERS_ONE :: size_t where "READERS_ONE = push_bit READERS_OFFSET 1"
definition READ_WAITERS_ONE :: size_t where "READ_WAITERS_ONE = push_bit READ_WAITERS_OFFSET 1"
definition WRITE_WAITERS_ONE :: size_t where "WRITE_WAITERS_ONE = push_bit WRITE_WAITERS_OFFSET 1"

definition unpack_readers :: "size_t \<Rightarrow> size_t" where
  "unpack_readers V = drop_bit READERS_OFFSET V AND FIELD_MASK"

definition unpack_read_waiters :: "size_t \<Rightarrow> size_t" where
  "unpack_read_waiters V = drop_bit READ_WAITERS_OFFSET V AND FIELD_MASK"

definition unpack_write_waiters :: "size_t \<Rightarrow> size_t" where
  "unpack_write_waiters V = drop_bit WRITE_WAITERS_OFFSET V AND FIELD_MASK"

definition can_wake :: "size_t \<Rightarrow> bool" where
  "can_wake V =
    (if V AND (WRITER OR WAKING) \<noteq> 0 then False
     else unpack_readers V = 0 \<and> 0 < unpack_write_waiters V
        \<or> unpack_write_waiters V = 0 \<and> 0 < unpack_read_waiters V)"

definition is_write_locked :: "size_t \<Rightarrow> bool" where
  "is_write_locked v \<longleftrightarrow> 0 \<noteq> WRITER AND v"

definition rw_waiter_count :: "size_t \<Rightarrow> size_t" where
  "rw_waiter_count v = unpack_read_waiters v + unpack_write_waiters v"

section \<open>Threads\<close>

text \<open>In \<open>RwPush\<close>, \<open>RwPushCas\<close> and \<open>RwPushed\<close> the flag says that the node is for the list of writers.\<close>

datatype rw_pc =
    RwIdle
  | ReadCas size_t "nat option"             \<comment> \<open>\<open>try_lock_read\<close>: the word loaded; the node to queue when it fails\<close>
  | WriteCas "nat option"
  | RwPush bool nat
  | RwPushCas bool nat "nat option"
  | RwPushed bool nat                       \<comment> \<open>\<open>suspend_read\<close>, \<open>suspend_write\<close> before the \<open>fetch_add\<close>\<close>
  | Claim bool size_t                       \<comment> \<open>\<open>try_wake\<close>: \<open>PreferWriters\<close>, \<open>V\<close>\<close>
  | ReleaseCas bool size_t                  \<comment> \<open>nothing left to wake\<close>
  | TakeWriter size_t
  | WriterCas size_t nat
  | TakeReaders size_t nat "nat list"       \<comment> \<open>\<open>V\<close>, \<open>readWaiterCount\<close>, the batch\<close>
  | ReadersCas size_t nat "nat list"
  | RwResuming "nat list"

record rw =
  word_of :: size_t
  incoming :: "bool \<Rightarrow> nat list"
  outgoing :: "bool \<Rightarrow> nat list"
  at_pc :: "nat \<Rightarrow> rw_pc"
  rw_queued :: "bool \<Rightarrow> nat list"     \<comment> \<open>history: nodes in the order of their pushes\<close>
  rw_dequeued :: "bool \<Rightarrow> nat list"   \<comment> \<open>history: nodes in the order in which they were taken\<close>
  granted_to :: "bool \<Rightarrow> nat"      \<comment> \<open>history: read and write locks handed out\<close>
  released :: "bool \<Rightarrow> nat"        \<comment> \<open>history: read and write locks released\<close>

section \<open>The local decisions\<close>

definition read_blocked :: "size_t \<Rightarrow> bool" where
  "read_blocked v \<longleftrightarrow> v AND WRITER \<noteq> 0 \<or> unpack_write_waiters v \<noteq> 0"

definition give_up :: "bool \<Rightarrow> nat option \<Rightarrow> rw_pc" where
  "give_up w node = (case node of None \<Rightarrow> RwIdle | Some n \<Rightarrow> RwPush w n)"

definition after_read_load :: "size_t \<Rightarrow> nat option \<Rightarrow> rw_pc" where
  "after_read_load v node = (if read_blocked v then give_up False node else ReadCas v node)"

definition after_write_load :: "size_t \<Rightarrow> nat option \<Rightarrow> rw_pc" where
  "after_write_load v node = (if v \<noteq> 0 then give_up True node else WriteCas node)"

definition after_change :: "bool \<Rightarrow> size_t \<Rightarrow> rw_pc" where
  "after_change PreferWriters V = (if can_wake V then Claim PreferWriters V else RwIdle)"

text \<open>Whom to wake, with \<open>WAKING\<close> held.\<close>

definition decide :: "bool \<Rightarrow> size_t \<Rightarrow> rw_pc" where
  "decide PreferWriters V =
    (let readers = unpack_readers V; readWaiterCount = unpack_read_waiters V;
         writeWaiterCount = unpack_write_waiters V;
         (wakeWriter, wakeReaders) =
           (if PreferWriters
            then let wakeWriter = readers = 0 \<and> writeWaiterCount > 0
                 in (wakeWriter, \<not> wakeWriter \<and> writeWaiterCount = 0 \<and> readWaiterCount > 0)
            else let wakeReaders = readWaiterCount > 0
                 in (\<not> wakeReaders \<and> readers = 0 \<and> writeWaiterCount > 0, wakeReaders))
     in if \<not> wakeWriter \<and> \<not> wakeReaders then ReleaseCas PreferWriters V
        else if wakeWriter then TakeWriter V
        else TakeReaders V (unat readWaiterCount) [])"

definition accept_more :: "size_t \<Rightarrow> nat \<Rightarrow> nat" where
  "accept_more V readWaiterCount =
    (if unpack_write_waiters V = 0 then unat (unpack_read_waiters V) else readWaiterCount)"

section \<open>Steps\<close>

definition go :: "nat \<Rightarrow> rw_pc \<Rightarrow> rw \<Rightarrow> rw" where
  "go a x s = s\<lparr>at_pc := (at_pc s)(a := x)\<rparr>"

definition grant :: "bool \<Rightarrow> nat \<Rightarrow> rw \<Rightarrow> rw" where
  "grant w k s = s\<lparr>granted_to := (granted_to s)(w := granted_to s w + k)\<rparr>"

definition release_one :: "bool \<Rightarrow> rw \<Rightarrow> rw" where
  "release_one w s = s\<lparr>released := (released s)(w := released s w + 1)\<rparr>"

definition push_node :: "bool \<Rightarrow> nat \<Rightarrow> rw \<Rightarrow> rw" where
  "push_node w n s = s\<lparr>incoming := (incoming s)(w := n # incoming s w), rw_queued := (rw_queued s)(w := rw_queued s w @ [n])\<rparr>"

definition taken_node :: "bool \<Rightarrow> nat \<times> nat list \<times> nat list \<Rightarrow> rw \<Rightarrow> rw" where
  "taken_node w r s = (case r of (x, outs, ins) \<Rightarrow> s\<lparr>incoming := (incoming s)(w := ins), outgoing := (outgoing s)(w := outs),
     rw_dequeued := (rw_dequeued s)(w := rw_dequeued s w @ [x])\<rparr>)"

text \<open>A weak exchange may also fail when the word is as expected.\<close>

inductive rw_step :: "rw \<Rightarrow> rw \<Rightarrow> bool" where
  read_load: "at_pc s a = RwIdle \<Longrightarrow> rw_step s (go a (after_read_load (word_of s) node) s)"
| read_ok: "at_pc s a = ReadCas v node \<Longrightarrow> word_of s = v \<Longrightarrow> unat (unpack_readers v) + 1 < 2 ^ FIELD_BITS \<Longrightarrow>
    rw_step s (go a RwIdle (grant False 1 (s\<lparr>word_of := v + READERS_ONE\<rparr>)))"
| read_fail: "at_pc s a = ReadCas v node \<Longrightarrow> rw_step s (go a (after_read_load (word_of s) node) s)"
| write_load: "at_pc s a = RwIdle \<Longrightarrow> rw_step s (go a (after_write_load (word_of s) node) s)"
| write_ok: "at_pc s a = WriteCas node \<Longrightarrow> word_of s = 0 \<Longrightarrow>
    rw_step s (go a RwIdle (grant True 1 (s\<lparr>word_of := WRITER\<rparr>)))"
| write_fail: "at_pc s a = WriteCas node \<Longrightarrow> rw_step s (go a (after_write_load (word_of s) node) s)"
| push_load: "at_pc s a = RwPush w n \<Longrightarrow> rw_step s (go a (RwPushCas w n (head_of (incoming s w))) s)"
| push_ok: "at_pc s a = RwPushCas w n h \<Longrightarrow> head_of (incoming s w) = h \<Longrightarrow>
    rw_step s (go a (RwPushed w n) (push_node w n s))"
| push_fail: "at_pc s a = RwPushCas w n h \<Longrightarrow> rw_step s (go a (RwPushCas w n (head_of (incoming s w))) s)"
| suspend_read: "at_pc s a = RwPushed False n \<Longrightarrow> unat (unpack_read_waiters (word_of s)) + 1 < 2 ^ FIELD_BITS \<Longrightarrow>
    v = word_of s + READ_WAITERS_ONE \<Longrightarrow> rw_step s (go a (after_change False v) (s\<lparr>word_of := v\<rparr>))"
| suspend_write: "at_pc s a = RwPushed True n \<Longrightarrow> unat (unpack_write_waiters (word_of s)) + 1 < 2 ^ FIELD_BITS \<Longrightarrow>
    v = word_of s + WRITE_WAITERS_ONE \<Longrightarrow> rw_step s (go a (after_change True v) (s\<lparr>word_of := v\<rparr>))"
| claim_ok: "at_pc s a = Claim p v \<Longrightarrow> word_of s = v \<Longrightarrow>
    rw_step s (go a (decide p (v OR WAKING)) (s\<lparr>word_of := v OR WAKING\<rparr>))"
| claim_fail: "at_pc s a = Claim p v \<Longrightarrow> rw_step s (go a (after_change p (word_of s)) s)"
| release_ok: "at_pc s a = ReleaseCas p v \<Longrightarrow> word_of s = v \<Longrightarrow>
    rw_step s (go a RwIdle (s\<lparr>word_of := v AND NOT WAKING\<rparr>))"
| release_fail: "at_pc s a = ReleaseCas p v \<Longrightarrow> word_of s \<noteq> v \<Longrightarrow> rw_step s (go a (decide p (word_of s)) s)"
| take_writer: "at_pc s a = TakeWriter v \<Longrightarrow> take_head (outgoing s True) (incoming s True) = Some r \<Longrightarrow>
    rw_step s (go a (WriterCas v (fst r)) (taken_node True r s))"
| writer_ok: "at_pc s a = WriterCas v x \<Longrightarrow> word_of s = v \<Longrightarrow>
    rw_step s (go a (RwResuming [x]) (grant True 1 (s\<lparr>word_of := v - WAKING - WRITE_WAITERS_ONE + WRITER\<rparr>)))"
| writer_fail: "at_pc s a = WriterCas v x \<Longrightarrow> rw_step s (go a (WriterCas (word_of s) x) s)"
| take_reader: "at_pc s a = TakeReaders v t ws \<Longrightarrow> length ws < t \<Longrightarrow>
    take_head (outgoing s False) (incoming s False) = Some r \<Longrightarrow>
    rw_step s (go a (TakeReaders v t (ws @ [fst r])) (taken_node False r s))"
| took_readers: "at_pc s a = TakeReaders v t ws \<Longrightarrow> \<not> length ws < t \<Longrightarrow> rw_step s (go a (ReadersCas v t ws) s)"
| readers_ok: "at_pc s a = ReadersCas v t ws \<Longrightarrow> word_of s = v \<Longrightarrow>
    unat (unpack_readers v) + length ws < 2 ^ FIELD_BITS \<Longrightarrow>
    v' = v - WAKING - of_nat (length ws) * READ_WAITERS_ONE + of_nat (length ws) * READERS_ONE \<Longrightarrow>
    rw_step s (go a (RwResuming ws) (grant False (length ws) (s\<lparr>word_of := v'\<rparr>)))"
| readers_fail: "at_pc s a = ReadersCas v t ws \<Longrightarrow>
    rw_step s (go a (TakeReaders (word_of s) (accept_more (word_of s) t) ws) s)"
| resume: "at_pc s a = RwResuming (x # ws) \<Longrightarrow> rw_step s (go a (if ws = [] then RwIdle else RwResuming ws) s)"
| unlock_read: "at_pc s a = RwIdle \<Longrightarrow> released s False < granted_to s False \<Longrightarrow> v = word_of s - READERS_ONE \<Longrightarrow>
    rw_step s (go a (after_change True v) (release_one False (s\<lparr>word_of := v\<rparr>)))"
| unlock_write: "at_pc s a = RwIdle \<Longrightarrow> released s True < granted_to s True \<Longrightarrow> v = word_of s - WRITER \<Longrightarrow>
    rw_step s (go a (after_change False v) (release_one True (s\<lparr>word_of := v\<rparr>)))"

definition rw_new :: rw where
  "rw_new = \<lparr>word_of = 0, incoming = (\<lambda>_. []), outgoing = (\<lambda>_. []), at_pc = (\<lambda>_. RwIdle), rw_queued = (\<lambda>_. []),
     rw_dequeued = (\<lambda>_. []), granted_to = (\<lambda>_. 0), released = (\<lambda>_. 0)\<rparr>"

inductive rw_reachable :: "rw \<Rightarrow> bool" where
  start: "rw_reachable rw_new"
| step: "rw_reachable s \<Longrightarrow> rw_step s s' \<Longrightarrow> rw_reachable s'"

section \<open>The fields of the word\<close>

text \<open>A word by its five fields.\<close>

definition pack_rw :: "nat \<Rightarrow> nat \<Rightarrow> nat \<Rightarrow> nat \<Rightarrow> nat \<Rightarrow> size_t" where
  "pack_rw k w r n m = of_nat (k + 2 * w + 4 * r + 2 ^ 22 * n + 2 ^ 42 * m)"

definition in_range :: "nat \<Rightarrow> nat \<Rightarrow> nat \<Rightarrow> nat \<Rightarrow> nat \<Rightarrow> bool" where
  "in_range k w r n m \<longleftrightarrow> k < 2 \<and> w < 2 \<and> r < 2 ^ 20 \<and> n < 2 ^ 20 \<and> m < 2 ^ 20"

lemma rw_constants:
  "WRITER = 2" "WAKING = 1" "FIELD_BITS = 20" "FIELD_MASK = mask 20" "READERS_OFFSET = 2" "READ_WAITERS_OFFSET = 22"
  "WRITE_WAITERS_OFFSET = 42" "READERS_ONE = 4" "READ_WAITERS_ONE = 2 ^ 22" "WRITE_WAITERS_ONE = 2 ^ 42"
  by (simp_all add: WRITER_def WAKING_def FIELD_BITS_def STATE_BITS_def FIELD_MASK_def READERS_OFFSET_def
      READ_WAITERS_OFFSET_def WRITE_WAITERS_OFFSET_def READERS_ONE_def READ_WAITERS_ONE_def WRITE_WAITERS_ONE_def
      mask_eq_exp_minus_1 push_bit_eq_mult)

lemma unat_pack_rw:
  assumes "in_range k w r n m"
  shows "unat (pack_rw k w r n m) = k + 2 * w + 4 * r + 2 ^ 22 * n + 2 ^ 42 * m"
proof -
  have "k + 2 * w + 4 * r + 2 ^ 22 * n + 2 ^ 42 * m < 2 ^ 64" using assms by (simp add: in_range_def)
  then show ?thesis unfolding pack_rw_def unat_of_nat by (intro mod_less) simp
qed

lemma unat_field: "unat (drop_bit k v AND mask 20 :: size_t) = unat v div 2 ^ k mod 2 ^ 20"
proof -
  have "unat (drop_bit k v AND mask 20) = take_bit 20 (unat (drop_bit k v))"
    by (simp only: unsigned_take_bit_eq flip: take_bit_eq_mask)
  then show ?thesis unfolding unat_drop_bit_eq by (simp only: drop_bit_eq_div take_bit_eq_mod)
qed

lemma unpack_pack_rw:
  assumes "in_range k w r n m"
  shows "unat (unpack_readers (pack_rw k w r n m)) = r"
    and "unat (unpack_read_waiters (pack_rw k w r n m)) = n"
    and "unat (unpack_write_waiters (pack_rw k w r n m)) = m"
proof -
  have b: "k + 2 * w < 4" "k + 2 * w + 4 * r < 2 ^ 22" "k + 2 * w + 4 * r + 2 ^ 22 * n < 2 ^ 42"
    "r < 2 ^ 20" "n < 2 ^ 20" "m < 2 ^ 20"
    using assms by (auto simp: in_range_def)
  note u = unat_pack_rw [OF assms]
  have "(k + 2 * w + 4 * r + 2 ^ 22 * n + 2 ^ 42 * m) div 4 = r + 2 ^ 20 * (n + 2 ^ 20 * m)" using b(1) by simp
  moreover have "(r + 2 ^ 20 * (n + 2 ^ 20 * m)) mod 2 ^ 20 = r" using b(4) by (simp only: mod_mult_self2 mod_less)
  ultimately show "unat (unpack_readers (pack_rw k w r n m)) = r"
    unfolding unpack_readers_def rw_constants unat_field u by (simp only: power2_eq_square) simp
  have "(k + 2 * w + 4 * r + 2 ^ 22 * n + 2 ^ 42 * m) div 2 ^ 22 = n + 2 ^ 20 * m" using b(2) by simp
  then show "unat (unpack_read_waiters (pack_rw k w r n m)) = n"
    unfolding unpack_read_waiters_def rw_constants unat_field u using b(5) by (simp only: mod_mult_self2 mod_less)
  have "(k + 2 * w + 4 * r + 2 ^ 22 * n + 2 ^ 42 * m) div 2 ^ 42 = m" using b(3) by simp
  then show "unat (unpack_write_waiters (pack_rw k w r n m)) = m"
    unfolding unpack_write_waiters_def rw_constants unat_field u using b(6) by (simp only: mod_less)
qed

lemma bits_pack_rw:
  assumes "in_range k w r n m"
  shows "pack_rw k w r n m AND WRITER \<noteq> 0 \<longleftrightarrow> w = 1"
    and "pack_rw k w r n m AND (WRITER OR WAKING) \<noteq> 0 \<longleftrightarrow> k = 1 \<or> w = 1"
    and "even (pack_rw k w r n m) \<longleftrightarrow> k = 0"
proof -
  let ?v = "pack_rw k w r n m"
  have kw: "k < 2" "w < 2" using assms by (simp_all add: in_range_def)
  have e: "unat ?v = k + 2 * (w + 2 * (r + 2 ^ 20 * n + 2 ^ 40 * m))" using unat_pack_rw [OF assms] by simp
  have u: "unat ?v div 2 = w + 2 * (r + 2 ^ 20 * n + 2 ^ 40 * m)" "odd (unat ?v) \<longleftrightarrow> k = 1"
    unfolding e using kw(1) by (auto simp: less_2_cases_iff)
  have at: "bit ?v i \<longleftrightarrow> odd (unat ?v div 2 ^ i)" for i
    using bit_iff_odd [of "unat ?v" i] by (simp add: bit_unsigned_iff)
  have b: "bit ?v 0 \<longleftrightarrow> odd (unat ?v)" "bit ?v 1 \<longleftrightarrow> odd (unat ?v div 2)"
    using at [of 0] at [of 1] by (simp_all only: power_0 power_one_right div_by_1)
  have b1: "bit ?v 1 \<longleftrightarrow> w = 1" using u(1) b(2) kw(2) by (auto simp: less_2_cases_iff)
  show "pack_rw k w r n m AND WRITER \<noteq> 0 \<longleftrightarrow> w = 1"
    using b1 and_exp_eq_0_iff_not_bit [of ?v 1] by (simp add: rw_constants)
  show "even (pack_rw k w r n m) \<longleftrightarrow> k = 0" using b(1) u(2) kw(1) by (auto simp: bit_0)
  have "?v AND 3 = 0 \<longleftrightarrow> \<not> bit ?v 0 \<and> \<not> bit ?v 1"
  proof -
    have "?v AND 3 = 0 \<longleftrightarrow> take_bit 2 ?v = 0" by (simp add: take_bit_eq_mask mask_eq_exp_minus_1)
    also have "\<dots> \<longleftrightarrow> (\<forall>i < 2. \<not> bit ?v i)" by (auto simp: bit_eq_iff bit_take_bit_iff)
    also have "\<dots> \<longleftrightarrow> \<not> bit ?v 0 \<and> \<not> bit ?v 1" by (auto simp: less_2_cases_iff)
    finally show ?thesis .
  qed
  then show "pack_rw k w r n m AND (WRITER OR WAKING) \<noteq> 0 \<longleftrightarrow> k = 1 \<or> w = 1" using b1 b(1) u(2) by (simp add: rw_constants)
qed

lemma can_wake_pack:
  assumes "in_range k w r n m"
  shows "can_wake (pack_rw k w r n m) \<longleftrightarrow> k = 0 \<and> w = 0 \<and> (r = 0 \<and> 0 < m \<or> m = 0 \<and> 0 < n)"
proof -
  have "k < 2" "w < 2" using assms by (simp_all add: in_range_def)
  then show ?thesis
    using unpack_pack_rw [OF assms] bits_pack_rw(2) [OF assms]
    unfolding can_wake_def word_less_nat_alt unat_eq_zero [symmetric] by auto
qed

lemma waking_pack:
  "in_range 0 w r n m \<Longrightarrow> pack_rw 0 w r n m OR WAKING = pack_rw 1 w r n m"
  "in_range 1 w r n m \<Longrightarrow> pack_rw 1 w r n m AND NOT WAKING = pack_rw 0 w r n m"
proof -
  show "pack_rw 0 w r n m OR WAKING = pack_rw 1 w r n m" if "in_range 0 w r n m"
    using bits_pack_rw(3) [OF that] by (simp add: rw_constants or_one_eq pack_rw_def)
  show "pack_rw 1 w r n m AND NOT WAKING = pack_rw 0 w r n m" if "in_range 1 w r n m"
  proof -
    let ?v = "pack_rw 1 w r n m"
    have "bit ?v 0" using bits_pack_rw(3) [OF that] by (simp add: bit_0)
    then have "NOT ?v AND 1 = 0" using and_exp_eq_0_iff_not_bit [of "NOT ?v" 0] by (simp add: bit_not_iff)
    then have "?v AND NOT 1 = ?v - 1" using disjunctive_diff_eq_and_not [of ?v 1] by simp
    then show ?thesis by (simp add: rw_constants pack_rw_def)
  qed
qed

section \<open>The invariant\<close>

text \<open>Sums over the threads that are inside a call.\<close>

definition busy_threads :: "rw \<Rightarrow> nat set" where
  "busy_threads s = {a. at_pc s a \<noteq> RwIdle}"

definition tally :: "(rw_pc \<Rightarrow> nat) \<Rightarrow> rw \<Rightarrow> nat" where
  "tally f s = (\<Sum>a \<in> busy_threads s. f (at_pc s a))"

fun waker :: "rw_pc \<Rightarrow> nat" where
  "waker (ReleaseCas p v) = 1"
| "waker (TakeWriter v) = 1"
| "waker (WriterCas v x) = 1"
| "waker (TakeReaders v t ws) = 1"
| "waker (ReadersCas v t ws) = 1"
| "waker _ = 0"

fun in_hand :: "bool \<Rightarrow> rw_pc \<Rightarrow> nat" where
  "in_hand b (WriterCas v x) = (if b then 1 else 0)"
| "in_hand b (TakeReaders v t ws) = (if b then 0 else length ws)"
| "in_hand b (ReadersCas v t ws) = (if b then 0 else length ws)"
| "in_hand b _ = 0"

fun not_counted :: "bool \<Rightarrow> rw_pc \<Rightarrow> nat" where
  "not_counted b (RwPushed w n) = (if w = b then 1 else 0)"
| "not_counted b _ = 0"

fun claims :: "rw_pc \<Rightarrow> nat" where
  "claims (Claim p v) = (if can_wake v then 1 else 0)"
| "claims _ = 0"

fun pc_ok :: "nat \<Rightarrow> nat \<Rightarrow> nat \<Rightarrow> rw_pc \<Rightarrow> bool" where
  "pc_ok r n m (ReadCas v node) \<longleftrightarrow> \<not> read_blocked v"
| "pc_ok r n m (Claim p v) \<longleftrightarrow> can_wake v"
| "pc_ok r n m (ReleaseCas p v) \<longleftrightarrow> \<not> can_wake (v AND NOT WAKING)"
| "pc_ok r n m (TakeWriter v) \<longleftrightarrow> r = 0 \<and> 0 < m"
| "pc_ok r n m (WriterCas v x) \<longleftrightarrow> r = 0 \<and> 0 < m"
| "pc_ok r n m (TakeReaders v t ws) \<longleftrightarrow> length ws \<le> t \<and> t \<le> n \<and> 0 < t
     \<and> (unpack_write_waiters v = 0 \<longrightarrow> unat (unpack_read_waiters v) = t)"
| "pc_ok r n m (ReadersCas v t ws) \<longleftrightarrow> length ws = t \<and> t \<le> n \<and> 0 < t
     \<and> (unpack_write_waiters v = 0 \<longrightarrow> unat (unpack_read_waiters v) = t)"
| "pc_ok r n m _ \<longleftrightarrow> True"

definition queue_length :: "rw \<Rightarrow> bool \<Rightarrow> nat" where
  "queue_length s b = length (outgoing s b) + length (incoming s b)"

definition rw_fields :: "rw \<Rightarrow> nat \<Rightarrow> nat \<Rightarrow> nat \<Rightarrow> nat \<Rightarrow> nat \<Rightarrow> bool" where
  "rw_fields s k w r n m \<longleftrightarrow> in_range k w r n m \<and> word_of s = pack_rw k w r n m \<and> (k = 1 \<longrightarrow> w = 0) \<and> (w = 1 \<longrightarrow> r = 0)
     \<and> granted_to s False = released s False + r \<and> granted_to s True = released s True + w"

definition rw_inv_at :: "rw \<Rightarrow> nat \<Rightarrow> nat \<Rightarrow> nat \<Rightarrow> nat \<Rightarrow> nat \<Rightarrow> bool" where
  "rw_inv_at s k w r n m \<longleftrightarrow> finite (busy_threads s)
     \<and> (\<forall>b. rw_dequeued s b @ outgoing s b @ rev (incoming s b) = rw_queued s b)
     \<and> rw_fields s k w r n m \<and> tally waker s = k
     \<and> (\<forall>b. queue_length s b + tally (in_hand b) s = (if b then m else n) + tally (not_counted b) s)
     \<and> (\<forall>a. pc_ok r n m (at_pc s a)) \<and> (can_wake (word_of s) \<longrightarrow> 0 < tally claims s)"

definition rw_inv :: "rw \<Rightarrow> bool" where
  "rw_inv s \<longleftrightarrow> (\<exists>k w r n m. rw_inv_at s k w r n m)"

lemma idle_measures [simp]: "waker RwIdle = 0" "in_hand b RwIdle = 0" "not_counted b RwIdle = 0" "claims RwIdle = 0"
  by simp_all

lemma tally_go:
  assumes "finite (busy_threads s)" and "f RwIdle = 0"
  shows "tally f (go a x s) + f (at_pc s a) = tally f s + f x"
proof -
  let ?A = "insert a (busy_threads s)"
  have 1: "tally f s = (\<Sum>b \<in> ?A. f (at_pc s b))"
    unfolding tally_def using assms by (intro sum.mono_neutral_left) (auto simp: busy_threads_def)
  have 2: "tally f (go a x s) = (\<Sum>b \<in> ?A. f (at_pc (go a x s) b))"
    unfolding tally_def using assms by (intro sum.mono_neutral_left) (auto simp: busy_threads_def go_def)
  have "(\<Sum>b \<in> ?A. f (at_pc (go a x s) b)) = f x + (\<Sum>b \<in> ?A - {a}. f (at_pc s b))"
    using assms(1) by (subst sum.remove [of _ a]) (auto simp: go_def intro!: sum.cong)
  moreover have "(\<Sum>b \<in> ?A. f (at_pc s b)) = f (at_pc s a) + (\<Sum>b \<in> ?A - {a}. f (at_pc s b))"
    using assms(1) by (subst sum.remove [of _ a]) auto
  ultimately show ?thesis using 1 2 by simp
qed

lemma tally_ge:
  assumes "finite (busy_threads s)" and "f RwIdle = 0"
  shows "f (at_pc s a) \<le> tally f s"
proof (cases "a \<in> busy_threads s")
  case True
  then show ?thesis unfolding tally_def using assms(1) by (intro member_le_sum) auto
qed (use assms(2) in \<open>auto simp: busy_threads_def\<close>)

lemma tally_two:
  assumes "finite (busy_threads s)" and "f RwIdle = 0" and "a \<noteq> b"
  shows "f (at_pc s a) + f (at_pc s b) \<le> tally f s"
proof -
  have "f (at_pc (go a RwIdle s) b) \<le> tally f (go a RwIdle s)"
    by (rule tally_ge) (use assms in \<open>auto simp: busy_threads_def go_def intro: finite_subset\<close>)
  then show ?thesis using tally_go [of s f a RwIdle, OF assms(1,2)] assms(2,3) by (simp add: go_def)
qed

lemma tally_cong: "at_pc t = at_pc s \<Longrightarrow> tally f t = tally f s"
  by (simp add: tally_def busy_threads_def)

text \<open>One thread moves: what has to be checked of the step.\<close>

lemma pc_ok_not_waker: "waker p = 0 \<Longrightarrow> pc_ok r n m p = pc_ok r' n' m' p"
  by (cases p) auto

lemma pc_ok_mono: "pc_ok r n m p \<Longrightarrow> r' \<le> r \<or> m = 0 \<Longrightarrow> n \<le> n' \<Longrightarrow> m \<le> m' \<Longrightarrow> pc_ok r' n' m' p"
  by (cases p) auto

lemma rw_move:
  assumes inv: "rw_inv_at s k w r n m" and s': "at_pc t = at_pc s" and field: "rw_fields t k' w' r' n' m'"
    and k: "k + waker x = k' + waker (at_pc s a)"
    and fifo: "\<And>b. rw_dequeued t b @ outgoing t b @ rev (incoming t b) = rw_queued t b"
    and len: "\<And>b. queue_length t b + in_hand b x + (if b then m else n) + not_counted b (at_pc s a)
       = queue_length s b + in_hand b (at_pc s a) + (if b then m' else n') + not_counted b x"
    and ok: "pc_ok r' n' m' x"
    and mono: "waker (at_pc s a) = 1 \<or> k = 0 \<or> (r' \<le> r \<or> m = 0) \<and> n \<le> n' \<and> m \<le> m'"
    and wake: "can_wake (word_of t) \<Longrightarrow> claims x = 1 \<or> can_wake (word_of s) \<and> claims (at_pc s a) = 0"
  shows "rw_inv_at (go a x t) k' w' r' n' m'"
proof -
  note I = inv [unfolded rw_inv_at_def]
  have fin: "finite (busy_threads s)" and ks: "tally waker s = k" using I by blast+
  have finT: "finite (busy_threads t)" using fin s' by (simp add: busy_threads_def)
  note c = tally_cong [OF s']
  have T: "tally f (go a x t) + f (at_pc s a) = tally f s + f x" if "f RwIdle = 0" for f
    using tally_go [of t f a x, OF finT that] c s' by simp
  have sel: "word_of (go a x t) = word_of t" "rw_dequeued (go a x t) = rw_dequeued t" "outgoing (go a x t) = outgoing t"
    "incoming (go a x t) = incoming t" "rw_queued (go a x t) = rw_queued t" "queue_length (go a x t) = queue_length t"
    "rw_fields (go a x t) = rw_fields t"
    by (auto simp: go_def queue_length_def fun_eq_iff rw_fields_def)
  have g1: "finite (busy_threads (go a x t))"
    by (rule finite_subset [of _ "insert a (busy_threads t)"]) (use finT in \<open>auto simp: busy_threads_def go_def\<close>)
  have g2: "tally waker (go a x t) = k'" using T [of waker] k ks by simp
  have g3: "queue_length t b + tally (in_hand b) (go a x t) = (if b then m' else n') + tally (not_counted b) (go a x t)" for b
  proof -
    have "queue_length s b + tally (in_hand b) s = (if b then m else n) + tally (not_counted b) s" using I by blast
    then show ?thesis using T [of "in_hand b"] T [of "not_counted b"] len [of b] by (cases b) simp_all
  qed
  have one: "k \<le> 1" using I by (simp add: rw_fields_def in_range_def)
  have g4: "pc_ok r' n' m' (at_pc (go a x t) b)" for b
  proof (cases "b = a")
    case False
    have p: "pc_ok r n m (at_pc s b)" using I by blast
    have "waker (at_pc s a) + waker (at_pc s b) \<le> k" using tally_two [OF fin _ False [symmetric], of waker] ks by simp
    then have "waker (at_pc s b) = 0 \<or> (r' \<le> r \<or> m = 0) \<and> n \<le> n' \<and> m \<le> m'" using mono one by auto
    then have "pc_ok r' n' m' (at_pc s b)" using p pc_ok_not_waker [of "at_pc s b" r n m r' n' m'] pc_ok_mono [OF p, of r' n' m'] by auto
    then show ?thesis using False s' by (simp add: go_def)
  qed (use ok in \<open>simp add: go_def\<close>)
  have g5: "0 < tally claims (go a x t)" if "can_wake (word_of t)"
  proof -
    have "can_wake (word_of s) \<Longrightarrow> 0 < tally claims s" using I by blast
    then show ?thesis using wake [OF that] T [of claims] tally_ge [OF fin, of claims a] by auto
  qed
  show ?thesis unfolding rw_inv_at_def sel using g1 g2 g3 g4 g5 field fifo by blast
qed


lemma rw_stay:
  assumes inv: "rw_inv_at s k w r n m" and x: "waker x = waker (at_pc s a)" "\<And>b. in_hand b x = in_hand b (at_pc s a)"
      "\<And>b. not_counted b x = not_counted b (at_pc s a)"
    and ok: "pc_ok r n m x" and wake: "can_wake (word_of s) \<Longrightarrow> claims x = 1 \<or> claims (at_pc s a) = 0"
  shows "rw_inv_at (go a x s) k w r n m"
proof (rule rw_move [OF inv refl])
  show "rw_fields s k w r n m" "rw_dequeued s b @ outgoing s b @ rev (incoming s b) = rw_queued s b" for b
    using inv by (simp_all add: rw_inv_at_def)
qed (use x ok wake in auto)

lemma after_change_facts [simp]:
  "waker (after_change p V) = 0" "in_hand b (after_change p V) = 0" "not_counted b (after_change p V) = 0"
  "pc_ok r n m (after_change p V)" "claims (after_change p V) = (if can_wake V then 1 else 0)"
  by (simp_all add: after_change_def)

lemma give_up_facts [simp]:
  "waker (give_up b' node) = 0" "in_hand b (give_up b' node) = 0" "not_counted b (give_up b' node) = 0"
  "pc_ok r n m (give_up b' node)" "claims (give_up b' node) = 0"
  by (cases node; simp add: give_up_def)+

lemma rw_load_facts [simp]:
  "waker (after_read_load V node) = 0" "in_hand b (after_read_load V node) = 0" "not_counted b (after_read_load V node) = 0"
  "pc_ok r n m (after_read_load V node)" "claims (after_read_load V node) = 0"
  "waker (after_write_load V node) = 0" "in_hand b (after_write_load V node) = 0" "not_counted b (after_write_load V node) = 0"
  "pc_ok r n m (after_write_load V node)" "claims (after_write_load V node) = 0"
  by (simp_all add: after_read_load_def after_write_load_def)

lemma decide_facts:
  assumes "in_range 1 0 r n m"
  shows "waker (decide p (pack_rw 1 0 r n m)) = 1" "in_hand b (decide p (pack_rw 1 0 r n m)) = 0"
    "not_counted b (decide p (pack_rw 1 0 r n m)) = 0" "claims (decide p (pack_rw 1 0 r n m)) = 0"
    "pc_ok r n m (decide p (pack_rw 1 0 r n m))"
proof -
  let ?V = "pack_rw 1 0 r n m"
  note u = unpack_pack_rw [OF assms]
  have "in_range 0 0 r n m" using assms by (simp add: in_range_def)
  then have c: "can_wake (?V AND NOT WAKING) \<longleftrightarrow> r = 0 \<and> 0 < m \<or> m = 0 \<and> 0 < n"
    using can_wake_pack [of 0 0 r n m] waking_pack(2) [OF assms] by simp
  have z: "unpack_readers ?V = 0 \<longleftrightarrow> r = 0" "0 < unpack_read_waiters ?V \<longleftrightarrow> 0 < n" "0 < unpack_write_waiters ?V \<longleftrightarrow> 0 < m"
    "unpack_write_waiters ?V = 0 \<longleftrightarrow> m = 0"
    using u by (simp_all add: word_less_nat_alt unat_eq_zero [symmetric])
  show "waker (decide p ?V) = 1" "in_hand b (decide p ?V) = 0" "not_counted b (decide p ?V) = 0"
    "claims (decide p ?V) = 0" "pc_ok r n m (decide p ?V)"
    unfolding decide_def Let_def z using c u(2) by (auto split: if_splits)
qed


text \<open>The steps that change the word.\<close>

lemma pack_changes:
  "pack_rw k w r n m + READERS_ONE = pack_rw k w (r + 1) n m"
  "pack_rw k w r n m + READ_WAITERS_ONE = pack_rw k w r (n + 1) m"
  "pack_rw k w r n m + WRITE_WAITERS_ONE = pack_rw k w r n (m + 1)"
  "pack_rw k w (r + 1) n m - READERS_ONE = pack_rw k w r n m"
  "pack_rw k 1 r n m - WRITER = pack_rw k 0 r n m"
  "pack_rw 1 0 r n (m + 1) - WAKING - WRITE_WAITERS_ONE + WRITER = pack_rw 0 1 r n m"
  "pack_rw 1 0 r (n + t) m - WAKING - of_nat t * READ_WAITERS_ONE + of_nat t * READERS_ONE = pack_rw 0 0 (r + t) n m"
  by (simp_all add: rw_constants pack_rw_def algebra_simps)

lemma rw_fieldsD:
  assumes "rw_inv_at s k w r n m"
  shows "in_range k w r n m" "word_of s = pack_rw k w r n m" "k = 1 \<Longrightarrow> w = 0" "w = 1 \<Longrightarrow> r = 0"
    "granted_to s False = released s False + r" "granted_to s True = released s True + w"
    "rw_dequeued s b @ outgoing s b @ rev (incoming s b) = rw_queued s b" "pc_ok r n m (at_pc s a)" "waker (at_pc s a) \<le> k"
    "queue_length s b + tally (in_hand b) s = (if b then m else n) + tally (not_counted b) s"
    "can_wake (word_of s) \<Longrightarrow> 0 < tally claims s"
    "k < 2" "w < 2" "r < 2 ^ 20" "n < 2 ^ 20" "m < 2 ^ 20"
  using assms tally_ge [of s waker a] by (auto simp: rw_inv_at_def rw_fields_def in_range_def)

lemma rw_queue_sel [simp]:
  "queue_length (s\<lparr>word_of := v\<rparr>) = queue_length s" "queue_length (grant b j s) = queue_length s"
  "queue_length (release_one b s) = queue_length s"
  "word_of (grant b j s) = word_of s" "word_of (release_one b s) = word_of s"
  "incoming (grant b j s) = incoming s" "outgoing (grant b j s) = outgoing s"
  "rw_queued (grant b j s) = rw_queued s" "rw_dequeued (grant b j s) = rw_dequeued s" "released (grant b j s) = released s"
  "incoming (release_one b s) = incoming s" "outgoing (release_one b s) = outgoing s"
  "rw_queued (release_one b s) = rw_queued s" "rw_dequeued (release_one b s) = rw_dequeued s"
  "granted_to (release_one b s) = granted_to s"
  "granted_to (grant b j s) b' = (if b' = b then granted_to s b + j else granted_to s b')"
  "released (release_one b s) b' = (if b' = b then released s b + 1 else released s b')"
  "at_pc (grant b j s) = at_pc s" "at_pc (release_one b s) = at_pc s" "at_pc (push_node b i s) = at_pc s"
  "at_pc (taken_node b q s) = at_pc s" "word_of (push_node b i s) = word_of s" "word_of (taken_node b q s) = word_of s"
  by (auto simp: queue_length_def grant_def release_one_def push_node_def taken_node_def fun_eq_iff split: prod.splits)

lemma take_head_facts:
  assumes "take_head os is = Some (x, os', is')"
  shows "os @ rev is = x # os' @ rev is'" and "length os + length is = Suc (length os' + length is')"
  using assms by (cases "(os, is)" rule: take_head.cases; auto split: list.splits)+

lemma rw_read_ok:
  assumes inv: "rw_inv_at s k w r n m" and pc: "at_pc s a = ReadCas v node" and v: "word_of s = v"
    and room: "unat (unpack_readers v) + 1 < 2 ^ FIELD_BITS"
  shows "rw_inv (go a RwIdle (grant False 1 (s\<lparr>word_of := v + READERS_ONE\<rparr>)))"
proof -
  note D = rw_fieldsD [OF inv]
  have v': "v = pack_rw k w r n m" using v D(2) by simp
  have "\<not> read_blocked v" using D(8) [of a] pc by simp
  then have wm: "w = 0" "m = 0"
    using D(13) unpack_pack_rw(3) [OF D(1)] bits_pack_rw(1) [OF D(1)] by (auto simp: v' read_blocked_def)
  let ?t = "grant False 1 (s\<lparr>word_of := v + READERS_ONE\<rparr>)"
  have word: "word_of ?t = pack_rw k w (r + 1) n m" by (simp add: v' pack_changes(1))
  have range: "in_range k w (r + 1) n m"
    using room D(1) unpack_pack_rw(1) [OF D(1)] by (simp add: v' in_range_def rw_constants)
  have "rw_inv_at (go a RwIdle ?t) k w (r + 1) n m"
  proof (rule rw_move [OF inv])
    show "rw_fields ?t k w (r + 1) n m" unfolding rw_fields_def word using D wm range by simp
    show "claims RwIdle = 1 \<or> can_wake (word_of s) \<and> claims (at_pc s a) = 0" if "can_wake (word_of ?t)"
      using that wm can_wake_pack [OF range] can_wake_pack [OF D(1)] pc unfolding word D(2) by simp
  qed (use D(7) wm pc in auto)
  then show ?thesis unfolding rw_inv_def by blast
qed

lemma rw_write_ok:
  assumes inv: "rw_inv_at s k w r n m" and pc: "at_pc s a = WriteCas node" and v: "word_of s = 0"
  shows "rw_inv (go a RwIdle (grant True 1 (s\<lparr>word_of := WRITER\<rparr>)))"
proof -
  note D = rw_fieldsD [OF inv]
  have z: "k = 0" "w = 0" "r = 0" "n = 0" "m = 0" using unat_pack_rw [OF D(1)] v D(2) by simp_all
  let ?t = "grant True 1 (s\<lparr>word_of := WRITER\<rparr>)"
  have word: "word_of ?t = pack_rw 0 1 0 0 0" by (simp add: pack_rw_def rw_constants)
  have range: "in_range 0 1 0 0 0" by (simp add: in_range_def)
  have "rw_inv_at (go a RwIdle ?t) 0 1 0 0 0"
  proof (rule rw_move [OF inv])
    show "rw_fields ?t 0 1 0 0 0" unfolding rw_fields_def word using D z range by simp
    show "claims RwIdle = 1 \<or> can_wake (word_of s) \<and> claims (at_pc s a) = 0" if "can_wake (word_of ?t)"
      using that can_wake_pack [OF range] unfolding word by simp
  qed (use D(7) z pc in auto)
  then show ?thesis unfolding rw_inv_def by blast
qed

lemma rw_suspend:
  assumes inv: "rw_inv_at s k w r n m" and pc: "at_pc s a = RwPushed b i"
    and room: "unat (if b then unpack_write_waiters (word_of s) else unpack_read_waiters (word_of s)) + 1 < 2 ^ FIELD_BITS"
    and v: "v = word_of s + (if b then WRITE_WAITERS_ONE else READ_WAITERS_ONE)"
  shows "rw_inv (go a (after_change b v) (s\<lparr>word_of := v\<rparr>))"
proof -
  note D = rw_fieldsD [OF inv]
  let ?n = "if b then n else n + 1" and ?m = "if b then m + 1 else m" and ?t = "s\<lparr>word_of := v\<rparr>"
  have word: "word_of ?t = pack_rw k w r ?n ?m" using D(2) v pack_changes(2,3) by simp
  have range: "in_range k w r ?n ?m"
    using room D(1,2) unpack_pack_rw [OF D(1)] by (auto simp: in_range_def rw_constants)
  have "rw_inv_at (go a (after_change b v) ?t) k w r ?n ?m"
  proof (rule rw_move [OF inv])
    show "rw_fields ?t k w r ?n ?m" unfolding rw_fields_def word using D range by simp
  qed (use D(7) pc in auto)
  then show ?thesis unfolding rw_inv_def by blast
qed

lemma rw_claim_ok:
  assumes inv: "rw_inv_at s k w r n m" and pc: "at_pc s a = Claim p v" and v: "word_of s = v"
  shows "rw_inv (go a (decide p (v OR WAKING)) (s\<lparr>word_of := v OR WAKING\<rparr>))"
proof -
  note D = rw_fieldsD [OF inv]
  have c: "can_wake v" using D(8) [of a] pc by simp
  have kw: "k = 0" "w = 0" using c v D(2) can_wake_pack [OF D(1)] by simp_all
  let ?t = "s\<lparr>word_of := v OR WAKING\<rparr>"
  have word: "v OR WAKING = pack_rw 1 0 r n m" using waking_pack(1) D(1,2) v kw by simp
  have range: "in_range 1 0 r n m" using D(1) by (simp add: in_range_def)
  note d = decide_facts [OF range]
  have "rw_inv_at (go a (decide p (v OR WAKING)) ?t) 1 0 r n m"
  proof (rule rw_move [OF inv])
    show "rw_fields ?t 1 0 r n m" unfolding rw_fields_def using D range word kw by simp
    show "claims (decide p (v OR WAKING)) = 1 \<or> can_wake (word_of s) \<and> claims (at_pc s a) = 0" if "can_wake (word_of ?t)"
      using that can_wake_pack [OF range] by (simp add: word)
  qed (use D(7) pc kw d in \<open>auto simp: word\<close>)
  then show ?thesis unfolding rw_inv_def by blast
qed


lemma rw_release_ok:
  assumes inv: "rw_inv_at s k w r n m" and pc: "at_pc s a = ReleaseCas p v" and v: "word_of s = v"
  shows "rw_inv (go a RwIdle (s\<lparr>word_of := v AND NOT WAKING\<rparr>))"
proof -
  note D = rw_fieldsD [OF inv]
  have kw: "k = 1" "w = 0" using D(9) [of a] D(3,12) pc by simp_all
  have ok: "\<not> can_wake (v AND NOT WAKING)" using D(8) [of a] pc by simp
  let ?t = "s\<lparr>word_of := v AND NOT WAKING\<rparr>"
  have word: "v AND NOT WAKING = pack_rw 0 0 r n m" using waking_pack(2) D(1,2) v kw by simp
  have range: "in_range 0 0 r n m" using D(1) by (simp add: in_range_def)
  have "rw_inv_at (go a RwIdle ?t) 0 0 r n m"
  proof (rule rw_move [OF inv])
    show "rw_fields ?t 0 0 r n m" unfolding rw_fields_def using D range word kw by simp
    show "claims RwIdle = 1 \<or> can_wake (word_of s) \<and> claims (at_pc s a) = 0" if "can_wake (word_of ?t)"
      using that ok by simp
  qed (use D(7) pc kw in auto)
  then show ?thesis unfolding rw_inv_def by blast
qed

lemma rw_writer_ok:
  assumes inv: "rw_inv_at s k w r n m" and pc: "at_pc s a = WriterCas v x" and v: "word_of s = v"
  shows "rw_inv (go a (RwResuming [x]) (grant True 1 (s\<lparr>word_of := v - WAKING - WRITE_WAITERS_ONE + WRITER\<rparr>)))"
proof -
  note D = rw_fieldsD [OF inv]
  have kw: "k = 1" "w = 0" using D(9) [of a] D(3,12) pc by simp_all
  obtain m' where m: "r = 0" "m = m' + 1" using D(8) [of a] pc by (cases m) auto
  let ?t = "grant True 1 (s\<lparr>word_of := v - WAKING - WRITE_WAITERS_ONE + WRITER\<rparr>)"
  have word: "word_of ?t = pack_rw 0 1 0 n m'"
    using D(2) v pack_changes(6) [of 0 n m'] by (simp add: kw m)
  have range: "in_range 0 1 0 n m'" using D(1) m by (simp add: in_range_def)
  have "rw_inv_at (go a (RwResuming [x]) ?t) 0 1 0 n m'"
  proof (rule rw_move [OF inv])
    show "rw_fields ?t 0 1 0 n m'" unfolding rw_fields_def word using D range kw m by simp
    show "claims (RwResuming [x]) = 1 \<or> can_wake (word_of s) \<and> claims (at_pc s a) = 0" if "can_wake (word_of ?t)"
      using that can_wake_pack [OF range] unfolding word by simp
  qed (use D(7) pc kw m in auto)
  then show ?thesis unfolding rw_inv_def by blast
qed

lemma rw_readers_ok:
  assumes inv: "rw_inv_at s k w r n m" and pc: "at_pc s a = ReadersCas v t ws" and v: "word_of s = v"
    and room: "unat (unpack_readers v) + length ws < 2 ^ FIELD_BITS"
    and v': "v' = v - WAKING - of_nat (length ws) * READ_WAITERS_ONE + of_nat (length ws) * READERS_ONE"
  shows "rw_inv (go a (RwResuming ws) (grant False (length ws) (s\<lparr>word_of := v'\<rparr>)))"
proof -
  note D = rw_fieldsD [OF inv]
  have kw: "k = 1" "w = 0" using D(9) [of a] D(3,12) pc by simp_all
  have ok: "length ws = t" "t \<le> n" "0 < t" "unpack_write_waiters v = 0 \<Longrightarrow> unat (unpack_read_waiters v) = t"
    using D(8) [of a] pc by simp_all
  obtain n' where n: "n = n' + length ws" using ok(1,2) by (metis le_Suc_ex add.commute)
  have pv: "v = pack_rw 1 0 r (n' + length ws) m" using D(2) v kw n by simp
  let ?t = "grant False (length ws) (s\<lparr>word_of := v'\<rparr>)"
  have word: "word_of ?t = pack_rw 0 0 (r + length ws) n' m" unfolding v' pv using pack_changes(7) by simp
  have range: "in_range 0 0 (r + length ws) n' m"
    using room D(1) n unpack_pack_rw(1) [OF D(1)] by (simp add: pv kw in_range_def rw_constants)
  have "m = 0 \<Longrightarrow> n' = 0"
    using ok(1,4) n unpack_pack_rw(2,3) [OF D(1)] by (simp add: pv kw unat_eq_zero)
  then have "\<not> can_wake (word_of ?t)" using can_wake_pack [OF range] ok unfolding word by auto
  then have "rw_inv_at (go a (RwResuming ws) ?t) 0 0 (r + length ws) n' m"
  proof (intro rw_move [OF inv])
    show "rw_fields ?t 0 0 (r + length ws) n' m" unfolding rw_fields_def word using D range kw by simp
  qed (use D(7) pc kw n in auto)
  then show ?thesis unfolding rw_inv_def by blast
qed

lemma rw_unlock_read:
  assumes inv: "rw_inv_at s k w r n m" and pc: "at_pc s a = RwIdle" and held: "released s False < granted_to s False"
    and v: "v = word_of s - READERS_ONE"
  shows "rw_inv (go a (after_change True v) (release_one False (s\<lparr>word_of := v\<rparr>)))"
proof -
  note D = rw_fieldsD [OF inv]
  obtain r' where r: "r = r' + 1" using D(5) held by (cases r) auto
  let ?t = "release_one False (s\<lparr>word_of := v\<rparr>)"
  have word: "word_of ?t = pack_rw k w r' n m" using D(2) v pack_changes(4) [of k w r' n m] by (simp add: r)
  have range: "in_range k w r' n m" using D(1) r by (simp add: in_range_def)
  have "rw_inv_at (go a (after_change True v) ?t) k w r' n m"
  proof (rule rw_move [OF inv])
    show "rw_fields ?t k w r' n m" unfolding rw_fields_def word using D range r by auto
  qed (use D(7) pc r in auto)
  then show ?thesis unfolding rw_inv_def by blast
qed

lemma rw_unlock_write:
  assumes inv: "rw_inv_at s k w r n m" and pc: "at_pc s a = RwIdle" and held: "released s True < granted_to s True"
    and v: "v = word_of s - WRITER"
  shows "rw_inv (go a (after_change False v) (release_one True (s\<lparr>word_of := v\<rparr>)))"
proof -
  note D = rw_fieldsD [OF inv]
  have w: "w = 1" "k = 0" "r = 0" using D(3,4,6,12,13) held by (auto simp: less_2_cases_iff)
  let ?t = "release_one True (s\<lparr>word_of := v\<rparr>)"
  have word: "word_of ?t = pack_rw 0 0 0 n m" using D(2) v pack_changes(5) [of 0 0 n m] by (simp add: w)
  have range: "in_range 0 0 0 n m" using D(1) by (simp add: in_range_def)
  have "rw_inv_at (go a (after_change False v) ?t) 0 0 0 n m"
  proof (rule rw_move [OF inv])
    show "rw_fields ?t 0 0 0 n m" unfolding rw_fields_def word using D range w by simp
  qed (use D(7) pc w in auto)
  then show ?thesis unfolding rw_inv_def by blast
qed


lemma rw_lists_move:
  assumes inv: "rw_inv_at s k w r n m" and x: "waker x = waker (at_pc s a)" "claims x = claims (at_pc s a)" "pc_ok r n m x"
    and sel: "at_pc t = at_pc s" "word_of t = word_of s" "granted_to t = granted_to s" "released t = released s"
    and fifo: "\<And>b. rw_dequeued t b @ outgoing t b @ rev (incoming t b) = rw_queued t b"
    and len: "\<And>b. queue_length t b + in_hand b x + not_counted b (at_pc s a)
       = queue_length s b + in_hand b (at_pc s a) + not_counted b x"
  shows "rw_inv_at (go a x t) k w r n m"
proof (rule rw_move [OF inv sel(1)])
  note D = rw_fieldsD [OF inv]
  show "rw_fields t k w r n m" using inv sel by (simp add: rw_inv_at_def rw_fields_def)
  show "claims x = 1 \<or> can_wake (word_of s) \<and> claims (at_pc s a) = 0" if "can_wake (word_of t)"
    using that x(2) sel(2) by (cases "at_pc s a") auto
  show "queue_length t b + in_hand b x + (if b then m else n) + not_counted b (at_pc s a)
      = queue_length s b + in_hand b (at_pc s a) + (if b then m else n) + not_counted b x" for b
    using len [of b] by simp
qed (use x fifo in auto)

lemma rw_take:
  assumes inv: "rw_inv_at s k w r n m" and take: "take_head (outgoing s b) (incoming s b) = Some q"
    and x: "waker x = waker (at_pc s a)" "claims x = claims (at_pc s a)" "pc_ok r n m x"
    and hand: "in_hand b x = in_hand b (at_pc s a) + 1" "in_hand (\<not> b) x = in_hand (\<not> b) (at_pc s a)"
      "\<And>b'. not_counted b' x = not_counted b' (at_pc s a)"
  shows "rw_inv_at (go a x (taken_node b q s)) k w r n m"
proof (rule rw_lists_move [OF inv x])
  note D = rw_fieldsD [OF inv]
  obtain y outs ins where q: "q = (y, outs, ins)" by (cases q)
  note h = take_head_facts [OF take [unfolded q]]
  show "rw_dequeued (taken_node b q s) b' @ outgoing (taken_node b q s) b' @ rev (incoming (taken_node b q s) b')
      = rw_queued (taken_node b q s) b'" for b'
    using D(7) [of b'] h(1) by (cases "b' = b") (auto simp: taken_node_def q)
  show "queue_length (taken_node b q s) b' + in_hand b' x + not_counted b' (at_pc s a)
      = queue_length s b' + in_hand b' (at_pc s a) + not_counted b' x" for b'
    using h(2) hand by (cases "b' = b") (auto simp: taken_node_def q queue_length_def)
qed (simp_all add: taken_node_def split: prod.splits)

lemma rw_step_inv:
  assumes "rw_step s s'" and "rw_inv s"
  shows "rw_inv s'"
proof -
  obtain k w r n m where inv: "rw_inv_at s k w r n m" using assms(2) by (auto simp: rw_inv_def)
  note D = rw_fieldsD [OF inv] and stay = rw_stay [OF inv]
  have found: "rw_inv t" if "rw_inv_at t k w r n m" for t using that unfolding rw_inv_def by blast
  from assms(1) show ?thesis
  proof cases
    case (read_load a node)
    then show ?thesis by (auto intro!: found stay)
  next
    case (read_ok a v node)
    then show ?thesis using rw_read_ok [OF inv] by simp
  next
    case (read_fail a v node)
    then show ?thesis by (auto intro!: found stay)
  next
    case (write_load a node)
    then show ?thesis by (auto intro!: found stay)
  next
    case (write_ok a node)
    then show ?thesis using rw_write_ok [OF inv] by simp
  next
    case (write_fail a node)
    then show ?thesis by (auto intro!: found stay)
  next
    case (push_load a b i)
    then show ?thesis by (auto intro!: found stay)
  next
    case (push_ok a b i h)
    have "rw_inv_at (go a (RwPushed b i) (push_node b i s)) k w r n m"
    proof (rule rw_lists_move [OF inv])
      show "rw_dequeued (push_node b i s) b' @ outgoing (push_node b i s) b' @ rev (incoming (push_node b i s) b')
          = rw_queued (push_node b i s) b'" for b'
        using D(7) [of b'] by (auto simp: push_node_def)
    qed (use push_ok in \<open>auto simp: push_node_def queue_length_def\<close>)
    then show ?thesis using push_ok by (simp add: found)
  next
    case (push_fail a b i h)
    then show ?thesis by (auto intro!: found stay)
  next
    case (suspend_read a i v)
    then show ?thesis using rw_suspend [OF inv, of a False i] by simp
  next
    case (suspend_write a i v)
    then show ?thesis using rw_suspend [OF inv, of a True i] by simp
  next
    case (claim_ok a p v)
    then show ?thesis using rw_claim_ok [OF inv] by simp
  next
    case (claim_fail a p v)
    then show ?thesis by (auto intro!: found stay)
  next
    case (release_ok a p v)
    then show ?thesis using rw_release_ok [OF inv] by simp
  next
    case (release_fail a p v)
    have kw: "k = 1" "w = 0" using D(9) [of a] D(3,12) release_fail by simp_all
    have "in_range 1 0 r n m" using D(1) kw by simp
    note d = decide_facts [OF this]
    show ?thesis unfolding release_fail(1) by (intro found stay) (use release_fail D(2) kw d in auto)
  next
    case (take_writer a v q)
    have "rw_inv_at (go a (WriterCas v (fst q)) (taken_node True q s)) k w r n m"
      by (rule rw_take [OF inv]) (use take_writer D(8) [of a] in auto)
    then show ?thesis using take_writer by (simp add: found)
  next
    case (writer_ok a v x)
    then show ?thesis using rw_writer_ok [OF inv] by simp
  next
    case (writer_fail a v x)
    have "rw_inv_at (go a (WriterCas (word_of s) x) s) k w r n m"
      by (rule stay) (use writer_fail D(8) [of a] in auto)
    then show ?thesis using writer_fail by (simp add: found)
  next
    case (take_reader a v t ws q)
    have "rw_inv_at (go a (TakeReaders v t (ws @ [fst q])) (taken_node False q s)) k w r n m"
      by (rule rw_take [OF inv]) (use take_reader D(8) [of a] in auto)
    then show ?thesis using take_reader by (simp add: found)
  next
    case (took_readers a v t ws)
    then show ?thesis using D(8) [of a] by (auto intro!: found stay)
  next
    case (readers_ok a v t ws v')
    then show ?thesis using rw_readers_ok [OF inv] by simp
  next
    case (readers_fail a v t ws)
    have n: "unat (unpack_read_waiters (word_of s)) = n" using unpack_pack_rw(2) [OF D(1)] D(2) by simp
    have "rw_inv_at (go a (TakeReaders (word_of s) (accept_more (word_of s) t) ws) s) k w r n m"
      by (rule stay) (use readers_fail D(8) [of a] n in \<open>auto simp: accept_more_def\<close>)
    then show ?thesis using readers_fail by (simp add: found)
  next
    case (resume a x ws)
    then show ?thesis by (auto intro!: found stay)
  next
    case (unlock_read a v)
    then show ?thesis using rw_unlock_read [OF inv] by simp
  next
    case (unlock_write a v)
    then show ?thesis using rw_unlock_write [OF inv] by simp
  qed
qed

lemma rw_reachable_inv: "rw_reachable s \<Longrightarrow> rw_inv s"
proof (induction rule: rw_reachable.induct)
  case start
  have "rw_inv_at rw_new 0 0 0 0 0"
    using can_wake_pack [of 0 0 0 0 0]
    by (simp add: rw_inv_at_def rw_new_def busy_threads_def rw_fields_def in_range_def pack_rw_def tally_def queue_length_def)
  then show ?case unfolding rw_inv_def by blast
qed (rule rw_step_inv)

lemma only_waker:
  assumes "rw_inv_at s k w r n m" and "waker (at_pc s a) = 1" and "b \<noteq> a"
  shows "waker (at_pc s b) = 0"
proof -
  have "finite (busy_threads s)" "tally waker s = k" "k \<le> 1"
    using assms(1) by (auto simp: rw_inv_at_def rw_fields_def in_range_def)
  then show ?thesis using tally_two [of s waker a b] assms(2,3) by simp
qed

lemma tally_hand:
  assumes "rw_inv_at s k w r n m" and "waker (at_pc s a) = 1"
  shows "tally (in_hand b) s = in_hand b (at_pc s a)"
proof -
  have fin: "finite (busy_threads s)" using assms(1) by (simp add: rw_inv_at_def)
  have a: "a \<in> busy_threads s" using assms(2) by (auto simp: busy_threads_def)
  have "in_hand b p = 0" if "waker p = 0" for p using that by (cases p) auto
  then have "(\<Sum>c \<in> busy_threads s - {a}. in_hand b (at_pc s c)) = 0"
    using only_waker [OF assms] by (intro sum.neutral) auto
  then show ?thesis unfolding tally_def by (subst sum.remove [OF fin a]) simp
qed

section \<open>A run\<close>

text \<open>Thread 0 locks for writing, thread 1 queues the writer 7, thread 0 unlocks and is about to hand over.\<close>

definition write_locked :: rw where
  "write_locked = go 0 RwIdle (grant True 1 ((go 0 (WriteCas None) rw_new)\<lparr>word_of := WRITER\<rparr>))"

definition writer_pushes :: rw where
  "writer_pushes = go 1 (RwPushCas True 7 None) (go 1 (RwPush True 7) write_locked)"

definition writer_queued :: rw where
  "writer_queued = go 1 RwIdle ((go 1 (RwPushed True 7) (push_node True 7 writer_pushes))\<lparr>word_of := WRITER + WRITE_WAITERS_ONE\<rparr>)"

definition handing_over :: rw where
  "handing_over = go 0 (TakeWriter (WRITE_WAITERS_ONE OR WAKING))
     ((go 0 (Claim False WRITE_WAITERS_ONE) (release_one True (writer_queued\<lparr>word_of := WRITE_WAITERS_ONE\<rparr>)))
       \<lparr>word_of := WRITE_WAITERS_ONE OR WAKING\<rparr>)"

lemmas run_defs = write_locked_def writer_pushes_def writer_queued_def handing_over_def rw_new_def go_def grant_def
  push_node_def release_one_def

lemma write_locked_reachable: "rw_reachable write_locked"
proof -
  have "rw_step rw_new (go 0 (WriteCas None) rw_new)"
    using rw_step.write_load [of rw_new 0 None] by (simp add: rw_new_def after_write_load_def)
  with rw_reachable.start have 1: "rw_reachable (go 0 (WriteCas None) rw_new)" by (rule rw_reachable.step)
  have "rw_step (go 0 (WriteCas None) rw_new) write_locked"
    unfolding write_locked_def by (rule rw_step.write_ok [of _ _ None]) (simp_all add: go_def rw_new_def)
  with 1 show ?thesis by (rule rw_reachable.step)
qed

lemma writer_queued_reachable: "rw_reachable writer_queued"
proof -
  let ?s3 = "go 1 (RwPush True 7) write_locked" and ?s5 = "go 1 (RwPushed True 7) (push_node True 7 writer_pushes)"
  have "rw_step write_locked ?s3"
    using rw_step.write_load [of write_locked 1 "Some 7"]
    by (simp add: run_defs after_write_load_def give_up_def rw_constants)
  with write_locked_reachable have 3: "rw_reachable ?s3" by (rule rw_reachable.step)
  have "rw_step ?s3 writer_pushes" using rw_step.push_load [of ?s3 1 True 7] by (simp add: run_defs)
  with 3 have 4: "rw_reachable writer_pushes" by (rule rw_reachable.step)
  have "rw_step writer_pushes ?s5" by (rule rw_step.push_ok [of _ _ _ _ None]) (simp_all add: run_defs)
  with 4 have 5: "rw_reachable ?s5" by (rule rw_reachable.step)
  have c: "after_change True (WRITER + WRITE_WAITERS_ONE) = RwIdle" "unat (unpack_write_waiters WRITER) = 0" by code_simp+
  have w: "word_of ?s5 = WRITER" "at_pc ?s5 1 = RwPushed True 7" by (simp_all add: run_defs)
  have "rw_step ?s5 writer_queued"
    using rw_step.suspend_write [OF w(2), OF _ refl, unfolded w(1)] c by (simp add: writer_queued_def FIELD_BITS_def STATE_BITS_def)
  with 5 show ?thesis by (rule rw_reachable.step)
qed

lemma handing_over_reachable: "rw_reachable handing_over"
proof -
  let ?s7 = "go 0 (Claim False WRITE_WAITERS_ONE) (release_one True (writer_queued\<lparr>word_of := WRITE_WAITERS_ONE\<rparr>))"
  have c: "after_change False WRITE_WAITERS_ONE = Claim False WRITE_WAITERS_ONE"
    "decide False (WRITE_WAITERS_ONE OR WAKING) = TakeWriter (WRITE_WAITERS_ONE OR WAKING)" by code_simp+
  have "rw_step writer_queued ?s7"
    using rw_step.unlock_write [of writer_queued 0 WRITE_WAITERS_ONE] c(1) by (simp add: run_defs)
  with writer_queued_reachable have 7: "rw_reachable ?s7" by (rule rw_reachable.step)
  have "rw_step ?s7 handing_over"
    using rw_step.claim_ok [of ?s7 0 False WRITE_WAITERS_ONE] c(2) by (simp add: handing_over_def go_def)
  with 7 show ?thesis by (rule rw_reachable.step)
qed

section \<open>Properties of every interleaving\<close>

text \<open>
  C19: Readers exclude writers: in every interleaving of lock, try-lock and unlock calls (unlocking only what was
  granted), at most one write lock is held, and then no read lock; the word shows exactly the locks held.
\<close>

theorem rw_exclusion:
  assumes "rw_reachable s"
  shows "granted_to s True \<le> released s True + 1
    \<and> (released s True < granted_to s True \<longrightarrow> granted_to s False = released s False)
    \<and> (is_write_locked (word_of s) \<longleftrightarrow> released s True < granted_to s True)
    \<and> released s False + unat (unpack_readers (word_of s)) = granted_to s False"
proof -
  obtain k w r n m where inv: "rw_inv_at s k w r n m" using rw_reachable_inv [OF assms] by (auto simp: rw_inv_def)
  note D = rw_fieldsD [OF inv]
  have "is_write_locked (word_of s) \<longleftrightarrow> w = 1"
    using bits_pack_rw(1) [OF D(1)] D(2) by (simp add: is_write_locked_def and.commute)
  then show ?thesis using D(2,4,5,6,13) unpack_pack_rw(1) [OF D(1)] by auto
qed

theorem rw_exclusion_witness: "is_write_locked (word_of write_locked) \<and> granted_to write_locked False = 0"
  using rw_exclusion [OF write_locked_reachable] by (simp add: run_defs)

text \<open>
  C20: No lost wakeup on the reader-writer lock: whenever no thread is in the middle of a call, both counts of waiters
  are the lengths of the lists, a free lock has no waiter at all, and readers wait only behind a writer that holds the
  lock or waits for it.
\<close>

theorem rw_no_lost_wakeup:
  assumes "rw_reachable s" and "\<forall>a. at_pc s a = RwIdle"
  shows "unat (unpack_read_waiters (word_of s)) = length (outgoing s False @ rev (incoming s False))
    \<and> unat (unpack_write_waiters (word_of s)) = length (outgoing s True @ rev (incoming s True))
    \<and> (\<not> is_write_locked (word_of s) \<longrightarrow> unpack_readers (word_of s) = 0 \<longrightarrow>
        outgoing s False @ rev (incoming s False) = [] \<and> outgoing s True @ rev (incoming s True) = [])
    \<and> (\<not> is_write_locked (word_of s) \<longrightarrow> outgoing s True @ rev (incoming s True) = [] \<longrightarrow>
        outgoing s False @ rev (incoming s False) = [])"
proof -
  obtain k w r n m where inv: "rw_inv_at s k w r n m" using rw_reachable_inv [OF assms(1)] by (auto simp: rw_inv_def)
  note D = rw_fieldsD [OF inv]
  have t: "tally f s = 0" for f using assms(2) by (simp add: tally_def busy_threads_def)
  have k: "k = 0" using inv t by (simp add: rw_inv_at_def)
  have len: "queue_length s False = n" "queue_length s True = m" using D(10) [of False] D(10) [of True] t by simp_all
  have c: "\<not> can_wake (pack_rw k w r n m)" using D(2,11) t by auto
  have lock: "is_write_locked (word_of s) \<longleftrightarrow> w = 1"
    using bits_pack_rw(1) [OF D(1)] D(2) by (simp add: is_write_locked_def and.commute)
  have e: "outgoing s b @ rev (incoming s b) = [] \<longleftrightarrow> queue_length s b = 0" for b by (auto simp: queue_length_def)
  show ?thesis
    unfolding e lock len using c can_wake_pack [OF D(1)] D(2,13) unpack_pack_rw [OF D(1)] len k
    by (auto simp: queue_length_def unat_eq_zero [symmetric] less_2_cases_iff)
qed

theorem rw_no_lost_wakeup_witness: "unat (unpack_write_waiters (word_of writer_queued)) = 1"
proof -
  have "\<forall>a. at_pc writer_queued a = RwIdle" by (simp add: run_defs)
  from rw_no_lost_wakeup [OF writer_queued_reachable this] show ?thesis by (simp add: run_defs)
qed

text \<open>
  The thread that holds the bit \<open>WAKING\<close> is alone, and never calls \<open>must_take_1\<close> on an empty list: with a writer
  or readers left to take it finds one.
\<close>

lemma rw_must_take_finds_waiter:
  assumes "rw_reachable s"
  shows "(waker (at_pc s a) = 1 \<longrightarrow> waker (at_pc s b) = 1 \<longrightarrow> a = b)
    \<and> (at_pc s a = TakeWriter v \<longrightarrow> take_head (outgoing s True) (incoming s True) \<noteq> None)
    \<and> (at_pc s a = TakeReaders v t ws \<and> length ws < t \<longrightarrow> take_head (outgoing s False) (incoming s False) \<noteq> None)"
proof -
  obtain k w r n m where inv: "rw_inv_at s k w r n m" using rw_reachable_inv [OF assms] by (auto simp: rw_inv_def)
  note D = rw_fieldsD [OF inv]
  have none: "take_head os ins = None \<longleftrightarrow> os = [] \<and> ins = []" for os ins by (cases os) (auto split: list.splits)
  have found: "take_head (outgoing s b') (incoming s b') \<noteq> None"
    if "waker (at_pc s a) = 1" "in_hand b' (at_pc s a) < (if b' then m else n)" for b'
    using D(10) [of b'] tally_hand [OF inv that(1), of b'] that(2) unfolding none by (auto simp: queue_length_def)
  have "a = b" if "waker (at_pc s a) = 1" "waker (at_pc s b) = 1" using only_waker [OF inv that(1), of b] that(2) by auto
  then show ?thesis using found [of True] found [of False] D(8) [of a] by auto
qed

theorem rw_must_take_finds_waiter_witness: "take_head (outgoing handing_over True) (incoming handing_over True) \<noteq> None"
  using rw_must_take_finds_waiter [OF handing_over_reachable, of 0]
  by (simp add: handing_over_def go_def)

end
