(* ===== verification/ChaseLev.thy ===== *)
theory ChaseLev
  imports Customizer
begin

text \<open>
  The work-stealing deque (\<open>src/include/tmc/detail/qu_chase_lev64.hpp\<close>): its owner pushes and pops at the bottom, any
  number of thieves steal at the top.  Each access to the packed state word, to the tagged buffer pointer or to a slot
  is a step; memory is sequentially consistent.  Work items are names.
\<close>

section \<open>The packed words\<close>

definition unpack_top :: "size_t \<Rightarrow> u32" where
  "unpack_top s = ucast (drop_bit 32 s)"

definition unpack_bottom :: "size_t \<Rightarrow> u32" where
  "unpack_bottom s = ucast s"

definition pack_state :: "u32 \<Rightarrow> u32 \<Rightarrow> size_t" where
  "pack_state t b = push_bit 32 (ucast t) OR ucast b"

text \<open>The 32-bit store to the low half.\<close>

definition store_bottom :: "u32 \<Rightarrow> size_t \<Rightarrow> size_t" where
  "store_bottom b s = pack_state (unpack_top s) b"

definition BUFFER_DATA_ALIGN :: size_t where "BUFFER_DATA_ALIGN = 64"
definition TAG_MASK :: size_t where "TAG_MASK = BUFFER_DATA_ALIGN - 1"

definition unpack_data :: "size_t \<Rightarrow> size_t" where
  "unpack_data w = w AND NOT TAG_MASK"

definition unpack_mask :: "size_t \<Rightarrow> size_t" where
  "unpack_mask w = (let lc = unat (w AND TAG_MASK) in push_bit lc TMC_ONE_BIT - 1)"

definition publish_active :: "size_t \<Rightarrow> size_t \<Rightarrow> size_t" where
  "publish_active data cap = data OR of_nat (tzcnt cap)"

text \<open>\<open>static_cast<int32_t>(b - t)\<close>\<close>

definition diff :: "u32 \<Rightarrow> u32 \<Rightarrow> int" where
  "diff b t = sint (b - t)"

definition slot_at :: "size_t \<Rightarrow> u32 \<Rightarrow> nat" where
  "slot_at m i = unat (ucast i AND m)"

section \<open>Growing\<close>

text \<open>\<open>None\<close>: the capacity overflows to 0 and the loop does not end.\<close>

partial_function (option) double_until :: "size_t \<Rightarrow> size_t \<Rightarrow> size_t option" where
  "double_until cap needed = (if cap < needed then double_until (push_bit 1 cap) needed else Some cap)"

definition grown_cap :: "size_t \<Rightarrow> u32 \<Rightarrow> u32 \<Rightarrow> u32 \<Rightarrow> size_t option" where
  "grown_cap cap b t n = double_until (cap * 2) (ucast (b - t + n))"

lemma countdown: "i \<noteq> b \<Longrightarrow> unat (b - (i + 1)) < unat (b - i)" for i b :: u32
  by (metis add.commute diff_diff_eq eq_iff_diff_eq_0 unat_minus_one lessI measure_unat)

function copy_items ::
  "u32 \<Rightarrow> u32 \<Rightarrow> size_t \<Rightarrow> size_t \<Rightarrow> (nat \<Rightarrow> nat) \<Rightarrow> (nat \<Rightarrow> nat) \<Rightarrow> nat \<Rightarrow> nat" where
  "copy_items i b old_mask new_mask old new =
    (if i = b then new
     else copy_items (i + 1) b old_mask new_mask old (new(slot_at new_mask i := old (slot_at old_mask i))))"
  by pat_completeness auto
termination
  by (relation "measure (\<lambda>(i, b, _). unat (b - i))") (use countdown in auto)

declare copy_items.simps [simp del]

section \<open>The machine\<close>

datatype owner_pc =
    OwnerIdle
  | Growing "nat list" u32 u32            \<comment> \<open>\<open>push\<close> or \<open>post_bulk\<close> of the items, before \<open>publish_active\<close>: \<open>b\<close>, \<open>t\<close>\<close>
  | Storing nat "nat list" u32            \<comment> \<open>the items stored so far\<close>
  | Popping u32 u32 size_t                \<comment> \<open>\<open>try_pop\<close> before it decrements: \<open>b\<close>, \<open>t\<close>, \<open>state\<close>\<close>
  | Popped u32 u32                        \<comment> \<open>\<open>try_pop\<close> after the decrement\<close>

datatype thief_pc =
    ThiefIdle
  | Loaded size_t nat                     \<comment> \<open>\<open>steal\<close>: the snapshot \<open>s\<close>, \<open>retryCount\<close>\<close>
  | Located size_t nat size_t             \<comment> \<open>\<dots> and the tagged pointer\<close>
  | Fetched size_t nat nat                \<comment> \<open>\<dots> and the item read\<close>

record deque =
  state_word :: size_t
  active_data :: size_t
  slots :: "size_t \<Rightarrow> nat \<Rightarrow> nat"
  allocated :: "size_t set"
  owner_at :: owner_pc
  thief_at :: "nat \<Rightarrow> thief_pc"
  top_ix :: nat               \<comment> \<open>history: the top index, unwrapped\<close>
  bottom_ix :: nat            \<comment> \<open>history: the bottom index, unwrapped\<close>
  content :: "nat \<Rightarrow> nat"     \<comment> \<open>history: the item last published at an index\<close>
  seen :: "nat \<Rightarrow> nat"        \<comment> \<open>history: \<open>top_ix\<close> at a thief's snapshot\<close>
  pushed_items :: "nat list"  \<comment> \<open>history: items published\<close>
  stolen :: "nat list"        \<comment> \<open>history: items returned by \<open>steal\<close>\<close>
  claimed :: "nat list"       \<comment> \<open>history: items at the bottom when \<open>try_pop\<close> decremented it\<close>
  popped :: "nat list"        \<comment> \<open>history: items returned by \<open>try_pop\<close>\<close>

definition push_full :: "size_t \<Rightarrow> u32 \<Rightarrow> u32 \<Rightarrow> bool" where
  "push_full aw b t \<longleftrightarrow> diff b t > sint (ucast (unpack_mask aw) :: u32)"

definition bulk_full :: "size_t \<Rightarrow> u32 \<Rightarrow> u32 \<Rightarrow> nat \<Rightarrow> bool" where
  "bulk_full aw b t n \<longleftrightarrow>
    (let needed = b - t + of_nat n; capacity = unpack_mask aw + 1
     in sint needed > sint (ucast capacity :: u32))"

definition after_push_load :: "bool \<Rightarrow> nat list \<Rightarrow> u32 \<Rightarrow> u32 \<Rightarrow> owner_pc" where
  "after_push_load full xs b t = (if full then Growing xs b t else Storing 0 xs b)"

definition after_pop_load :: "u32 \<Rightarrow> size_t \<Rightarrow> owner_pc" where
  "after_pop_load b state = (let t = unpack_top state in if diff b t \<le> 0 then OwnerIdle else Popping b t state)"

definition after_steal_load :: "size_t \<Rightarrow> nat \<Rightarrow> thief_pc" where
  "after_steal_load s retryCount =
    (if diff (unpack_bottom s) (unpack_top s) \<le> 0 then ThiefIdle else Loaded s retryCount)"

definition read_slot :: "size_t \<Rightarrow> u32 \<Rightarrow> deque \<Rightarrow> nat" where
  "read_slot aw i s = slots s (unpack_data aw) (slot_at (unpack_mask aw) i)"

definition write_slot :: "u32 \<Rightarrow> nat \<Rightarrow> deque \<Rightarrow> deque" where
  "write_slot i x s = (let data = unpack_data (active_data s); k = slot_at (unpack_mask (active_data s)) i
     in s\<lparr>slots := (slots s)(data := (slots s data)(k := x))\<rparr>)"

definition grow_buffer :: "size_t \<Rightarrow> size_t \<Rightarrow> (nat \<Rightarrow> nat) \<Rightarrow> u32 \<Rightarrow> u32 \<Rightarrow> deque \<Rightarrow> deque" where
  "grow_buffer data cap fresh b t s =
    (let old_aw = active_data s;
         new = copy_items t b (unpack_mask old_aw) (cap - 1) (slots s (unpack_data old_aw)) fresh
     in s\<lparr>slots := (slots s)(data := new), allocated := insert data (allocated s), active_data := publish_active data cap\<rparr>)"

definition set_thief :: "nat \<Rightarrow> thief_pc \<Rightarrow> deque \<Rightarrow> deque" where
  "set_thief a x s = s\<lparr>thief_at := (thief_at s)(a := x)\<rparr>"

definition snapshot :: "nat \<Rightarrow> nat \<Rightarrow> deque \<Rightarrow> deque" where
  "snapshot a retryCount s = set_thief a (after_steal_load (state_word s) retryCount) (s\<lparr>seen := (seen s)(a := top_ix s)\<rparr>)"

definition publish :: "nat list \<Rightarrow> u32 \<Rightarrow> deque \<Rightarrow> deque" where
  "publish xs b s = s\<lparr>state_word := store_bottom (b + of_nat (length xs)) (state_word s),
     bottom_ix := bottom_ix s + length xs, pushed_items := pushed_items s @ xs,
     content := (\<lambda>i. if bottom_ix s \<le> i \<and> i < bottom_ix s + length xs then xs ! (i - bottom_ix s) else content s i)\<rparr>"

definition claim :: "size_t \<Rightarrow> deque \<Rightarrow> deque" where
  "claim w s = s\<lparr>state_word := w, bottom_ix := bottom_ix s - 1,
     claimed := claimed s @ (if top_ix s < bottom_ix s then [content s (bottom_ix s - 1)] else [])\<rparr>"

inductive deque_step :: "deque \<Rightarrow> deque \<Rightarrow> bool" where
  push_load: "owner_at s = OwnerIdle \<Longrightarrow> bottom_ix s - top_ix s + 1 \<le> 2 ^ 30 \<Longrightarrow>
    b = unpack_bottom (state_word s) \<Longrightarrow> t = unpack_top (state_word s) \<Longrightarrow>
    deque_step s (s\<lparr>owner_at := after_push_load (push_full (active_data s) b t) [x] b t\<rparr>)"
| bulk_load: "owner_at s = OwnerIdle \<Longrightarrow> xs \<noteq> [] \<Longrightarrow> bottom_ix s - top_ix s + length xs \<le> 2 ^ 30 \<Longrightarrow>
    b = unpack_bottom (state_word s) \<Longrightarrow> t = unpack_top (state_word s) \<Longrightarrow>
    deque_step s (s\<lparr>owner_at := after_push_load (bulk_full (active_data s) b t (length xs)) xs b t\<rparr>)"
| grow: "owner_at s = Growing xs b t \<Longrightarrow>
    grown_cap (unpack_mask (active_data s) + 1) b t (of_nat (length xs)) = Some cap \<Longrightarrow>
    data AND TAG_MASK = 0 \<Longrightarrow> data \<notin> allocated s \<Longrightarrow>
    deque_step s ((grow_buffer data cap fresh b t s)\<lparr>owner_at := Storing 0 xs b\<rparr>)"
| store: "owner_at s = Storing i xs b \<Longrightarrow> i < length xs \<Longrightarrow>
    deque_step s ((write_slot (b + of_nat i) (xs ! i) s)\<lparr>owner_at := Storing (i + 1) xs b\<rparr>)"
| stored: "owner_at s = Storing (length xs) xs b \<Longrightarrow>
    deque_step s ((publish xs b s)\<lparr>owner_at := OwnerIdle\<rparr>)"
| pop_load: "owner_at s = OwnerIdle \<Longrightarrow>
    deque_step s (s\<lparr>owner_at := after_pop_load (unpack_bottom (state_word s)) (state_word s)\<rparr>)"
| pop_sub: "owner_at s = Popping b t state \<Longrightarrow> b \<noteq> 0 \<Longrightarrow>
    deque_step s ((claim (state_word s - 1) s)\<lparr>owner_at := Popped (b - 1) (unpack_top (state_word s))\<rparr>)"
| pop_cas_ok: "owner_at s = Popping b t state \<Longrightarrow> b = 0 \<Longrightarrow> state_word s = state \<Longrightarrow>
    deque_step s ((claim (pack_state t (b - 1)) s)\<lparr>owner_at := Popped (b - 1) t\<rparr>)"
| pop_cas_fail: "owner_at s = Popping b t state \<Longrightarrow> b = 0 \<Longrightarrow> state_word s \<noteq> state \<Longrightarrow>
    deque_step s (s\<lparr>owner_at := after_pop_load b (state_word s)\<rparr>)"
| pop_empty: "owner_at s = Popped b t \<Longrightarrow> diff b t < 0 \<Longrightarrow>
    deque_step s (s\<lparr>owner_at := OwnerIdle, state_word := store_bottom (b + 1) (state_word s),
      bottom_ix := bottom_ix s + 1\<rparr>)"
| pop_many: "owner_at s = Popped b t \<Longrightarrow> diff b t > 0 \<Longrightarrow>
    deque_step s (s\<lparr>owner_at := OwnerIdle, popped := popped s @ [read_slot (active_data s) b s]\<rparr>)"
| pop_last: "owner_at s = Popped b t \<Longrightarrow> diff b t = 0 \<Longrightarrow>
    deque_step s (s\<lparr>owner_at := OwnerIdle, popped := popped s @ [read_slot (active_data s) b s],
      state_word := pack_state (b + 1) (b + 1), top_ix := bottom_ix s + 1, bottom_ix := bottom_ix s + 1\<rparr>)"
| steal_load: "thief_at s a = ThiefIdle \<Longrightarrow> deque_step s (snapshot a 0 s)"
| steal_locate: "thief_at s a = Loaded w r \<Longrightarrow> deque_step s (set_thief a (Located w r (active_data s)) s)"
| steal_fetch: "thief_at s a = Located w r aw \<Longrightarrow>
    deque_step s (set_thief a (Fetched w r (read_slot aw (unpack_top w) s)) s)"
| steal_ok: "thief_at s a = Fetched w r x \<Longrightarrow> state_word s = w \<Longrightarrow> top_ix s < seen s a + 2 ^ 32 \<Longrightarrow>
    deque_step s (set_thief a ThiefIdle (s\<lparr>state_word := pack_state (unpack_top w + 1) (unpack_bottom w),
      top_ix := top_ix s + 1, stolen := stolen s @ [x]\<rparr>))"
| steal_fail: "thief_at s a = Fetched w r x \<Longrightarrow> state_word s \<noteq> w \<Longrightarrow>
    deque_step s (if r = 3 then set_thief a ThiefIdle s else snapshot a (r + 1) s)"

definition deque_new :: "size_t \<Rightarrow> size_t \<Rightarrow> (nat \<Rightarrow> nat) \<Rightarrow> deque" where
  "deque_new data cap fresh =
    \<lparr>state_word = pack_state 1 1, active_data = publish_active data cap, slots = (\<lambda>_. fresh), allocated = {data},
     owner_at = OwnerIdle, thief_at = (\<lambda>_. ThiefIdle), top_ix = 1, bottom_ix = 1, content = (\<lambda>_. 0), seen = (\<lambda>_. 0),
     pushed_items = [], stolen = [], claimed = [], popped = []\<rparr>"

inductive deque_reachable :: "size_t \<Rightarrow> deque \<Rightarrow> bool" for initialCapacity where
  start: "double_until 1 initialCapacity = Some cap \<Longrightarrow> data AND TAG_MASK = 0 \<Longrightarrow>
    deque_reachable initialCapacity (deque_new data cap fresh)"
| step: "deque_reachable initialCapacity s \<Longrightarrow> deque_step s s' \<Longrightarrow> deque_reachable initialCapacity s'"

definition size_approx :: "size_t \<Rightarrow> size_t" where
  "size_approx s = (let d = diff (unpack_bottom s) (unpack_top s) in if d > 0 then of_int d else 0)"

definition deque_empty :: "size_t \<Rightarrow> bool" where
  "deque_empty s \<longleftrightarrow> diff (unpack_bottom s) (unpack_top s) \<le> 0"

section \<open>Words and indices\<close>

lemma unpack_pack: "unpack_top (pack_state t b) = t" "unpack_bottom (pack_state t b) = b"
  by (auto simp: unpack_top_def unpack_bottom_def pack_state_def bit_eq_iff bit_simps dest: bit_imp_le_length)

lemma pack_inject: "pack_state t b = pack_state t' b' \<longleftrightarrow> t = t' \<and> b = b'"
  by (metis unpack_pack)

lemma pack_state_value: "pack_state t b = pack_value b (ucast t)"
  by (simp add: pack_state_def pack_value_def offset)

lemma unat_pack_state: "unat (pack_state t b) = unat t * 2 ^ 32 + unat b"
proof -
  have "unat (ucast t :: size_t) = unat t" by (simp add: unsigned_ucast_eq take_bit_nat_eq_self unsigned_less [THEN less_trans])
  then show ?thesis using pack_unat [of "ucast t" b] unat_32 [of t] by (simp add: pack_state_value)
qed

lemma pack_minus_one:
  assumes "b \<noteq> 0"
  shows "pack_state t b - 1 = pack_state t (b - 1)"
proof -
  have b: "1 \<le> unat b" using assms by (simp add: Suc_le_eq unat_gt_0)
  then have "unat (b - 1) = unat b - 1" by (simp add: unat_minus)
  moreover have "unat (pack_state t b - 1) = unat (pack_state t b) - 1"
    by (subst unat_minus) (use b in \<open>simp_all add: unat_pack_state\<close>)
  ultimately have "unat (pack_state t b - 1) = unat (pack_state t (b - 1))" using b by (simp add: unat_pack_state)
  then show ?thesis by (rule unsigned_word_eqI)
qed

lemma sint_of_int_32: "- (2 ^ 31) \<le> k \<Longrightarrow> k < 2 ^ 31 \<Longrightarrow> sint (of_int k :: u32) = k"
  by (simp add: signed_of_int signed_take_bit_int_eq_self)

lemma diff_of_nat:
  assumes "\<bar>int B - int T\<bar> < 2 ^ 31"
  shows "diff (of_nat B) (of_nat T) = int B - int T"
proof -
  have "(of_nat B - of_nat T :: u32) = of_int (int B - int T)" by simp
  then show ?thesis unfolding diff_def using assms by (simp only: sint_of_int_32)
qed

lemma mask_one_at: "lc < 64 \<Longrightarrow> one_at lc - 1 = mask lc"
  by (simp add: one_at_def mask_eq_exp_minus_1)

lemma slot_at_mod:
  assumes "lc \<le> 30"
  shows "slot_at (mask lc) (of_nat i) = i mod 2 ^ lc"
proof -
  have "slot_at (mask lc) (of_nat i) = take_bit lc (unat (ucast (of_nat i :: u32) :: size_t))"
    unfolding slot_at_def by (simp only: unsigned_take_bit_eq flip: take_bit_eq_mask)
  also have "unat (ucast (of_nat i :: u32) :: size_t) = i mod 2 ^ 32"
    by (simp add: unsigned_ucast_eq unat_of_nat take_bit_eq_mod)
  also have "take_bit lc (i mod 2 ^ 32) = i mod 2 ^ lc"
    unfolding take_bit_eq_mod by (rule mod_mod_cancel, rule le_imp_power_dvd) (use assms in simp)
  finally show ?thesis .
qed

lemma tag_mask: "TAG_MASK = mask 6"
  by (simp add: TAG_MASK_def BUFFER_DATA_ALIGN_def mask_eq_exp_minus_1)

lemma tzcnt_one_at: "lc < 64 \<Longrightarrow> tzcnt (one_at lc) = lc"
  using tzcnt_spec(1) [of "one_at lc"] bit_one_at [of lc lc] by (fastforce simp: bit_one_at)

lemma tag_roundtrip:
  assumes "data AND TAG_MASK = 0" and "lc < 64"
  shows "unpack_data (publish_active data (one_at lc)) = data"
    and "unpack_mask (publish_active data (one_at lc)) = mask lc"
proof -
  have lc: "i < 6" if "bit lc i" for i using bit_less_exp [of lc 6] that assms(2) by simp
  have d: "\<not> bit data i" if "i < 6" for i
  proof
    assume "bit data i"
    then have "bit (data AND TAG_MASK) i" using that by (simp add: tag_mask bit_and_iff bit_mask_iff)
    then show False using assms(1) by simp
  qed
  show "unpack_data (publish_active data (one_at lc)) = data"
    unfolding unpack_data_def publish_active_def tzcnt_one_at [OF assms(2)] tag_mask
    by (rule bit_eqI) (use lc d bit_less_64 in \<open>fastforce simp: bit_and_iff bit_or_iff bit_not_iff bit_mask_iff bit_of_nat_word\<close>)
  have "publish_active data (one_at lc) AND TAG_MASK = of_nat lc"
    unfolding publish_active_def tzcnt_one_at [OF assms(2)] tag_mask
    by (rule bit_eqI) (use lc d in \<open>fastforce simp: bit_and_iff bit_or_iff bit_mask_iff bit_of_nat_word\<close>)
  then show "unpack_mask (publish_active data (one_at lc)) = mask lc"
    using assms(2) mask_one_at [OF assms(2)] by (simp add: unpack_mask_def Let_def unat_of_nat one_at_def)
qed

lemma unat_one_at: "lc < 64 \<Longrightarrow> unat (one_at lc) = 2 ^ lc"
proof -
  assume lc: "lc < 64"
  have "unat (of_nat (2 ^ lc) :: size_t) = 2 ^ lc mod 2 ^ 64" by (simp only: unat_of_nat) simp
  also have "\<dots> = 2 ^ lc" using lc by (intro mod_less power_strict_increasing) simp_all
  finally show ?thesis by (simp add: one_at_def)
qed

text \<open>Doubling finds the next power of two.\<close>

lemma double_until_spec:
  assumes "lc \<le> 30" and "unat needed \<le> 2 ^ 30"
  shows "\<exists>lc'. double_until (one_at lc) needed = Some (one_at lc') \<and> lc \<le> lc' \<and> lc' \<le> 30 \<and> unat needed \<le> 2 ^ lc'"
  using assms(1)
proof (induction "30 - lc" arbitrary: lc)
  case 0
  then have "\<not> one_at lc < needed" using assms(2) by (simp add: word_less_nat_alt unat_one_at)
  then show ?case using 0 assms(2) by (subst double_until.simps) (auto simp: unat_one_at word_less_nat_alt)
next
  case (Suc d)
  show ?case
  proof (cases "one_at lc < needed")
    case True
    have "push_bit 1 (one_at lc) = one_at (Suc lc)" by (simp add: one_at_def push_bit_push_bit)
    moreover have "d = 30 - Suc lc" "Suc lc \<le> 30" using Suc.hyps(2) by simp_all
    ultimately show ?thesis using Suc.hyps(1) [of "Suc lc"] True by (subst double_until.simps) auto
  next
    case False
    then show ?thesis using Suc.prems by (subst double_until.simps) (auto simp: unat_one_at word_less_nat_alt)
  qed
qed


section \<open>The invariant\<close>

lemma copy_items_spec:
  assumes "i \<le> b" and "b - i \<le> 2 ^ ln" and "ln \<le> 30" and "lo \<le> 30"
  shows "(\<forall>j. i \<le> j \<and> j < b \<longrightarrow>
      copy_items (of_nat i) (of_nat b) (mask lo) (mask ln) old new (j mod 2 ^ ln) = old (j mod 2 ^ lo))
    \<and> (\<forall>k. (\<forall>j. i \<le> j \<and> j < b \<longrightarrow> k \<noteq> j mod 2 ^ ln) \<longrightarrow>
      copy_items (of_nat i) (of_nat b) (mask lo) (mask ln) old new k = new k)"
  using assms
proof (induction "b - i" arbitrary: i new)
  case 0
  then show ?case by (subst (1 2) copy_items.simps) simp
next
  case (Suc d)
  have lt: "i < b" "d = b - Suc i" "Suc i \<le> b" "b - Suc i \<le> 2 ^ ln" using Suc.hyps(2) Suc.prems(2) by simp_all
  have "b - i \<le> 2 ^ 30" using Suc.prems(2,3) by (meson le_trans one_le_numeral power_increasing)
  then have ne: "(of_nat i :: u32) \<noteq> of_nat b"
    using mod_distinct [of i b "2 ^ 32"] lt(1) by (simp add: word_of_nat_eq_iff take_bit_eq_mod)
  let ?new = "new(i mod 2 ^ ln := old (i mod 2 ^ lo))"
  let ?c = "copy_items (of_nat (Suc i)) (of_nat b) (mask lo) (mask ln) old ?new"
  have e: "copy_items (of_nat i) (of_nat b) (mask lo) (mask ln) old new = ?c"
    by (subst copy_items.simps) (use ne Suc.prems in \<open>simp add: slot_at_mod add.commute\<close>)
  note IH = Suc.hyps(1) [OF lt(2,3,4) Suc.prems(3,4), of ?new]
  have fresh: "i mod 2 ^ ln \<noteq> j mod 2 ^ ln" if "Suc i \<le> j" "j < b" for j
    using mod_distinct [of i j "2 ^ ln"] that Suc.prems(2) by simp
  have 1: "?c (j mod 2 ^ ln) = old (j mod 2 ^ lo)" if "i \<le> j" "j < b" for j
  proof (cases "j = i")
    case True
    have "?c (i mod 2 ^ ln) = ?new (i mod 2 ^ ln)" using IH fresh by blast
    then show ?thesis using True by simp
  qed (use IH that in simp)
  have 2: "?c k = new k" if "\<forall>j. i \<le> j \<and> j < b \<longrightarrow> k \<noteq> j mod 2 ^ ln" for k
  proof -
    have "?c k = ?new k" using IH that by (meson Suc_leD)
    then show ?thesis using that lt(1) by auto
  qed
  show ?case unfolding e using 1 2 by blast
qed

definition capacity :: "deque \<Rightarrow> nat" where
  "capacity s = unat (unpack_mask (active_data s)) + 1"

definition item_at :: "deque \<Rightarrow> nat \<Rightarrow> nat" where
  "item_at s i = slots s (unpack_data (active_data s)) (i mod capacity s)"

definition tag_ok :: "deque \<Rightarrow> size_t \<Rightarrow> bool" where
  "tag_ok s aw \<longleftrightarrow> (\<exists>lc \<le> 30. unpack_mask aw = mask lc) \<and> unpack_data aw \<in> allocated s
     \<and> (unpack_data aw = unpack_data (active_data s) \<longrightarrow> aw = active_data s)"

text \<open>The item at the top is there, or the owner has claimed it as the last one.\<close>

definition held :: "deque \<Rightarrow> bool" where
  "held s \<longleftrightarrow> top_ix s < bottom_ix s
    \<or> (\<exists>b t. owner_at s = Popped b t \<and> diff b t = 0) \<and> bottom_ix s = top_ix s"

definition snapshot_ok :: "deque \<Rightarrow> nat \<Rightarrow> size_t \<Rightarrow> bool" where
  "snapshot_ok s t w \<longleftrightarrow> (\<exists>b. w = pack_state (of_nat t) (of_nat b) \<and> t < b \<and> b - t < 2 ^ 31) \<and> t \<le> top_ix s
     \<and> (t = top_ix s \<longrightarrow> held s)"

fun thief_ok :: "deque \<Rightarrow> nat \<Rightarrow> thief_pc \<Rightarrow> bool" where
  "thief_ok s t ThiefIdle \<longleftrightarrow> True"
| "thief_ok s t (Loaded w r) \<longleftrightarrow> snapshot_ok s t w"
| "thief_ok s t (Located w r aw) \<longleftrightarrow> snapshot_ok s t w \<and> tag_ok s aw
     \<and> (t = top_ix s \<longrightarrow> read_slot aw (of_nat t) s = content s t)"
| "thief_ok s t (Fetched w r x) \<longleftrightarrow> snapshot_ok s t w \<and> (t = top_ix s \<longrightarrow> x = content s t)"

fun owner_ok :: "deque \<Rightarrow> owner_pc \<Rightarrow> bool" where
  "owner_ok s OwnerIdle \<longleftrightarrow> top_ix s \<le> bottom_ix s \<and> bottom_ix s \<le> top_ix s + capacity s \<and> claimed s = popped s"
| "owner_ok s (Growing xs b t) \<longleftrightarrow> b = of_nat (bottom_ix s) \<and> top_ix s \<le> bottom_ix s \<and> xs \<noteq> [] \<and> claimed s = popped s
     \<and> (\<exists>t0. t = of_nat t0 \<and> t0 \<le> top_ix s \<and> bottom_ix s \<le> t0 + capacity s \<and> t0 + capacity s < bottom_ix s + length xs
          \<and> bottom_ix s + length xs \<le> t0 + 2 ^ 30)"
| "owner_ok s (Storing i xs b) \<longleftrightarrow> b = of_nat (bottom_ix s) \<and> top_ix s \<le> bottom_ix s \<and> claimed s = popped s
     \<and> bottom_ix s + length xs \<le> top_ix s + capacity s \<and> i \<le> length xs \<and> (\<forall>j < i. item_at s (bottom_ix s + j) = xs ! j)"
| "owner_ok s (Popping b t w) \<longleftrightarrow> b = of_nat (bottom_ix s) \<and> top_ix s \<le> bottom_ix s \<and> bottom_ix s \<le> top_ix s + capacity s
     \<and> 1 < bottom_ix s \<and> unpack_top w = t \<and> unpack_bottom w = b \<and> claimed s = popped s"
| "owner_ok s (Popped b t) \<longleftrightarrow> b = of_nat (bottom_ix s) \<and> bottom_ix s + 1 \<le> top_ix s + capacity s
     \<and> (\<exists>t0. t = of_nat t0 \<and> t0 \<le> top_ix s \<and> t0 \<le> bottom_ix s + 1 \<and> bottom_ix s < t0 + 2 ^ 30
          \<and> (if t0 = bottom_ix s + 1 then top_ix s = bottom_ix s + 1 \<and> claimed s = popped s
             else top_ix s \<le> bottom_ix s \<and> claimed s = popped s @ [content s (bottom_ix s)]
               \<and> item_at s (bottom_ix s) = content s (bottom_ix s)))"

definition queue_of :: "deque \<Rightarrow> nat list" where
  "queue_of s = map (content s) [top_ix s ..< bottom_ix s]"

definition deque_inv :: "deque \<Rightarrow> bool" where
  "deque_inv s \<longleftrightarrow> state_word s = pack_state (of_nat (top_ix s)) (of_nat (bottom_ix s)) \<and> 1 \<le> top_ix s
     \<and> tag_ok s (active_data s) \<and> owner_ok s (owner_at s)
     \<and> (\<forall>i. top_ix s \<le> i \<and> i < bottom_ix s \<longrightarrow> item_at s i = content s i)
     \<and> (\<forall>a. thief_ok s (seen s a) (thief_at s a))
     \<and> mset (pushed_items s) = mset (queue_of s) + mset (stolen s) + mset (claimed s)"

lemma capacity_mask: "unpack_mask (active_data s) = mask lc \<Longrightarrow> lc \<le> 30 \<Longrightarrow> capacity s = 2 ^ lc"
  by (simp add: capacity_def flip: mask_one_at) (simp add: unat_minus unat_one_at Suc_le_eq)

lemma thief_keep:
  assumes "thief_ok s t pc" and "top_ix s \<le> top_ix s'"
    and "top_ix s' = top_ix s \<Longrightarrow> held s \<Longrightarrow> held s' \<and> content s' (top_ix s) = content s (top_ix s)"
    and "\<And>aw. tag_ok s aw \<Longrightarrow> tag_ok s' aw"
    and "\<And>aw. tag_ok s aw \<Longrightarrow> top_ix s' = top_ix s \<Longrightarrow> held s \<Longrightarrow>
      read_slot aw (of_nat (top_ix s)) s' = read_slot aw (of_nat (top_ix s)) s"
  shows "thief_ok s' t pc"
  using assms by (cases pc) (auto simp: snapshot_ok_def)


text \<open>Steps of a thief that only change its own state.\<close>

lemma thief_move:
  assumes inv: "deque_inv s" and ok: "thief_ok s t' pc"
    and eq: "s' = s\<lparr>thief_at := (thief_at s)(a := pc), seen := (seen s)(a := t')\<rparr>"
  shows "deque_inv s'"
proof -
  have same: "state_word s' = state_word s" "top_ix s' = top_ix s" "bottom_ix s' = bottom_ix s" "owner_at s' = owner_at s"
    "content s' = content s" "slots s' = slots s" "active_data s' = active_data s" "allocated s' = allocated s"
    "capacity s' = capacity s" "item_at s' = item_at s" "tag_ok s' = tag_ok s" "held s' = held s" "queue_of s' = queue_of s"
    "pushed_items s' = pushed_items s" "stolen s' = stolen s" "claimed s' = claimed s" "popped s' = popped s"
    by (auto simp: eq capacity_def item_at_def tag_ok_def held_def queue_of_def fun_eq_iff)
  have rd: "read_slot aw i s' = read_slot aw i s" for aw i by (simp add: read_slot_def same)
  have th: "thief_ok s' t p = thief_ok s t p" for t p
    by (cases p) (auto simp: snapshot_ok_def same rd)
  have ow: "owner_ok s' p = owner_ok s p" for p by (cases p) (auto simp: same)
  have "thief_ok s' (seen s' b) (thief_at s' b)" for b
    using inv ok unfolding th by (auto simp: eq deque_inv_def)
  then show ?thesis using inv unfolding deque_inv_def same ow by blast
qed

lemma deque_invD:
  assumes "deque_inv s"
  shows "state_word s = pack_state (of_nat (top_ix s)) (of_nat (bottom_ix s))" "1 \<le> top_ix s"
    "tag_ok s (active_data s)" "owner_ok s (owner_at s)"
    "top_ix s \<le> i \<Longrightarrow> i < bottom_ix s \<Longrightarrow> item_at s i = content s i"
    "thief_ok s (seen s a) (thief_at s a)"
    "mset (pushed_items s) = mset (queue_of s) + mset (stolen s) + mset (claimed s)"
  using assms unfolding deque_inv_def by blast+

lemma deque_invI:
  assumes "state_word s = pack_state (of_nat (top_ix s)) (of_nat (bottom_ix s))" and "1 \<le> top_ix s"
    and "tag_ok s (active_data s)" and "owner_ok s (owner_at s)"
    and "\<And>i. top_ix s \<le> i \<Longrightarrow> i < bottom_ix s \<Longrightarrow> item_at s i = content s i"
    and "\<And>a. thief_ok s (seen s a) (thief_at s a)"
    and "mset (pushed_items s) = mset (queue_of s) + mset (stolen s) + mset (claimed s)"
  shows "deque_inv s"
  using assms unfolding deque_inv_def by blast

lemma owner_room:
  assumes "deque_inv s"
  shows "bottom_ix s \<le> top_ix s + 2 ^ 30" and "top_ix s \<le> bottom_ix s + 1" and "capacity s \<le> 2 ^ 30"
proof -
  obtain lc where "lc \<le> 30" "unpack_mask (active_data s) = mask lc" using deque_invD(3) [OF assms] by (auto simp: tag_ok_def)
  from capacity_mask [OF this(2,1)] have "capacity s = 2 ^ lc" .
  moreover have "(2::nat) ^ lc \<le> 2 ^ 30" using \<open>lc \<le> 30\<close> by (intro power_increasing) simp_all
  ultimately show c: "capacity s \<le> 2 ^ 30" by simp
  show "bottom_ix s \<le> top_ix s + 2 ^ 30" "top_ix s \<le> bottom_ix s + 1"
    using deque_invD(4) [OF assms] c by (cases "owner_at s"; auto split: if_splits)+
qed

lemma inv_diff:
  assumes "deque_inv s"
  shows "diff (unpack_bottom (state_word s)) (unpack_top (state_word s)) = int (bottom_ix s) - int (top_ix s)"
proof -
  have "\<bar>int (bottom_ix s) - int (top_ix s)\<bar> < 2 ^ 31" using owner_room [OF assms] by auto
  then show ?thesis unfolding deque_invD(1) [OF assms] unpack_pack by (rule diff_of_nat)
qed

lemma snapshot_inv:
  assumes inv: "deque_inv s"
  shows "deque_inv (snapshot a r s)"
proof (rule thief_move [where a = a, OF inv])
  note d = inv_diff [OF inv] and w = deque_invD(1) [OF inv] and room = owner_room [OF inv]
  show "thief_ok s (top_ix s) (after_steal_load (state_word s) r)"
  proof (cases "bottom_ix s \<le> top_ix s")
    case False
    then have "snapshot_ok s (top_ix s) (state_word s)"
      using w room(1) by (auto simp: snapshot_ok_def held_def intro!: exI [of _ "bottom_ix s"])
    then show ?thesis using d False by (simp add: after_steal_load_def)
  qed (use d in \<open>simp add: after_steal_load_def\<close>)
qed (simp add: snapshot_def set_thief_def)

lemma active_mask:
  assumes "deque_inv s"
  obtains lc where "lc \<le> 30" "unpack_mask (active_data s) = mask lc" "capacity s = 2 ^ lc"
  using deque_invD(3) [OF assms] capacity_mask by (auto simp: tag_ok_def)

lemma read_active:
  assumes "deque_inv s"
  shows "read_slot (active_data s) (of_nat i) s = item_at s i"
  using active_mask [OF assms] by (metis read_slot_def item_at_def slot_at_mod)

lemma held_item:
  assumes inv: "deque_inv s" and "held s"
  shows "item_at s (top_ix s) = content s (top_ix s)"
  using deque_invD(4) [OF inv] deque_invD(5) [OF inv, of "top_ix s"] assms(2) by (auto simp: held_def split: if_splits)

lemma locate_inv:
  assumes inv: "deque_inv s" and pc: "thief_at s a = Loaded w r"
  shows "deque_inv (set_thief a (Located w r (active_data s)) s)"
proof (rule thief_move [where a = a, OF inv])
  have "snapshot_ok s (seen s a) w" using deque_invD(6) [OF inv, of a] pc by simp
  then show "thief_ok s (seen s a) (Located w r (active_data s))"
    using deque_invD(3) [OF inv] held_item [OF inv] read_active [OF inv] by (auto simp: snapshot_ok_def)
qed (simp add: set_thief_def)

lemma fetch_inv:
  assumes inv: "deque_inv s" and pc: "thief_at s a = Located w r aw"
  shows "deque_inv (set_thief a (Fetched w r (read_slot aw (unpack_top w) s)) s)"
proof (rule thief_move [where a = a, OF inv])
  show "thief_ok s (seen s a) (Fetched w r (read_slot aw (unpack_top w) s))"
    using deque_invD(6) [OF inv, of a] pc by (auto simp: snapshot_ok_def unpack_pack)
qed (simp add: set_thief_def)

lemma idle_inv:
  assumes inv: "deque_inv s"
  shows "deque_inv (set_thief a ThiefIdle s)"
  by (rule thief_move [where a = a and t' = "seen s a", OF inv]) (simp_all add: set_thief_def)

text \<open>A successful steal takes the first item of the queue.\<close>

lemma nat_wrap: "(of_nat i :: u32) = of_nat j \<Longrightarrow> i \<le> j \<Longrightarrow> j < i + 2 ^ 32 \<Longrightarrow> i = j"
  using mod_distinct [of i j "2 ^ 32"] by (auto simp: word_of_nat_eq_iff take_bit_eq_mod le_less)

lemma steal_facts:
  assumes inv: "deque_inv s" and pc: "thief_at s a = Fetched w r x" and w: "state_word s = w"
    and wrap: "top_ix s < seen s a + 2 ^ 32"
  shows "x = content s (top_ix s)" and "top_ix s < bottom_ix s"
proof -
  note th = deque_invD(6) [OF inv, of a, unfolded pc thief_ok.simps]
  obtain b where b: "w = pack_state (of_nat (seen s a)) (of_nat b)" "seen s a < b" "b - seen s a < 2 ^ 31"
    "seen s a \<le> top_ix s" using th by (auto simp: snapshot_ok_def)
  have p: "(of_nat (seen s a) :: u32) = of_nat (top_ix s)" "(of_nat b :: u32) = of_nat (bottom_ix s)"
    using b(1) w deque_invD(1) [OF inv] by (auto simp: pack_inject)
  have t: "seen s a = top_ix s" by (rule nat_wrap [OF p(1) b(4) wrap])
  then show "x = content s (top_ix s)" using th by simp
  have "top_ix s < bottom_ix s \<or> bottom_ix s = top_ix s" using th t by (auto simp: snapshot_ok_def held_def)
  moreover have "bottom_ix s \<noteq> top_ix s"
  proof
    assume e: "bottom_ix s = top_ix s"
    have "b < top_ix s + 2 ^ 32" using b(3) t by simp
    then have "top_ix s = b" using nat_wrap [of "top_ix s" b] p(2) b(2) t e by simp
    then show False using b(2) t by simp
  qed
  ultimately show "top_ix s < bottom_ix s" by simp
qed

lemma steal_inv:
  assumes inv: "deque_inv s" and pc: "thief_at s a = Fetched w r x" and w: "state_word s = w"
    and wrap: "top_ix s < seen s a + 2 ^ 32"
    and s': "s' = set_thief a ThiefIdle (s\<lparr>state_word := pack_state (unpack_top w + 1) (unpack_bottom w),
      top_ix := top_ix s + 1, stolen := stolen s @ [x]\<rparr>)"
  shows "deque_inv s'" and "queue_of s = x # queue_of s'"
proof -
  note f = steal_facts [OF inv pc w wrap]
  have same: "top_ix s' = top_ix s + 1" "bottom_ix s' = bottom_ix s" "owner_at s' = owner_at s"
    "content s' = content s" "slots s' = slots s" "active_data s' = active_data s" "allocated s' = allocated s"
    "capacity s' = capacity s" "item_at s' = item_at s" "tag_ok s' = tag_ok s" "stolen s' = stolen s @ [x]"
    "pushed_items s' = pushed_items s" "claimed s' = claimed s" "popped s' = popped s" "seen s' = seen s"
    "thief_at s' = (thief_at s)(a := ThiefIdle)"
    by (auto simp: s' set_thief_def capacity_def item_at_def tag_ok_def fun_eq_iff)
  show q: "queue_of s = x # queue_of s'" using f by (simp add: queue_of_def same upt_conv_Cons)
  have word: "state_word s' = pack_state (of_nat (top_ix s')) (of_nat (bottom_ix s'))"
    using deque_invD(1) [OF inv] w by (simp add: s' set_thief_def unpack_pack add.commute)
  have ow: "owner_ok s' (owner_at s')"
  proof (cases "owner_at s")
    case (Popped b t)
    obtain t0 where "t = of_nat t0" "t0 \<le> top_ix s" "t0 \<le> bottom_ix s + 1" "bottom_ix s < t0 + 2 ^ 30" "t0 \<noteq> bottom_ix s + 1"
      "claimed s = popped s @ [content s (bottom_ix s)]" "item_at s (bottom_ix s) = content s (bottom_ix s)"
      using deque_invD(4) [OF inv] f(2) Popped by (auto split: if_splits)
    then show ?thesis using deque_invD(4) [OF inv] f(2) Popped by (auto simp: same intro!: exI [of _ t0])
  qed (use deque_invD(4) [OF inv] f(2) in \<open>auto simp: same\<close>)
  have th: "thief_ok s' (seen s' b) (thief_at s' b)" for b
    using thief_keep [OF deque_invD(6) [OF inv, of b], of s'] by (auto simp: same)
  show "deque_inv s'"
  proof (rule deque_invI [OF word _ _ ow _ th])
    show "item_at s' i = content s' i" if "top_ix s' \<le> i" "i < bottom_ix s'" for i
      using deque_invD(5) [OF inv, of i] that by (simp add: same)
    show "mset (pushed_items s') = mset (queue_of s') + mset (stolen s') + mset (claimed s')"
      using deque_invD(7) [OF inv] q by (simp add: same)
  qed (use deque_invD(2,3) [OF inv] in \<open>simp_all add: same\<close>)
qed

text \<open>Steps of the owner that only change its own state.\<close>

lemma owner_move:
  assumes inv: "deque_inv s" and ok: "owner_ok s pc" and pc: "\<And>b t. owner_at s \<noteq> Popped b t"
  shows "deque_inv (s\<lparr>owner_at := pc\<rparr>)"
proof -
  let ?s = "s\<lparr>owner_at := pc\<rparr>"
  have same: "capacity ?s = capacity s" "item_at ?s = item_at s" "tag_ok ?s = tag_ok s" "queue_of ?s = queue_of s"
    "read_slot aw i ?s = read_slot aw i s" for aw i
    by (auto simp: capacity_def item_at_def tag_ok_def queue_of_def read_slot_def fun_eq_iff)
  have ow: "owner_ok ?s p = owner_ok s p" for p by (cases p) (auto simp: same)
  have th: "thief_ok ?s (seen ?s b) (thief_at ?s b)" for b
    using thief_keep [OF deque_invD(6) [OF inv, of b], of ?s] pc by (auto simp: same held_def)
  show ?thesis
    by (rule deque_invI) (use deque_invD(1-5,7) [OF inv] ok th in \<open>simp_all add: same ow\<close>)
qed


lemma sint_nat: "n < 2 ^ 31 \<Longrightarrow> sint (of_nat n :: u32) = int n"
  using sint_of_int_32 [of "int n"] by simp

lemma sint_ucast_small: "unat w < 2 ^ 31 \<Longrightarrow> sint (ucast (w :: size_t) :: u32) = int (unat w)"
  using sint_nat [of "unat w"] by simp

lemma unat_widen: "n < 2 ^ 32 \<Longrightarrow> unat (ucast (of_nat n :: u32) :: size_t) = n"
  by (simp add: unsigned_ucast_eq unat_of_nat take_bit_nat_eq_self)

lemma load_inv:
  assumes inv: "deque_inv s" and pc: "owner_at s = OwnerIdle" and room: "bottom_ix s - top_ix s + length xs \<le> 2 ^ 30"
    and xs: "xs \<noteq> []" and b: "b = unpack_bottom (state_word s)" and t: "t = unpack_top (state_word s)"
    and full: "full \<longleftrightarrow> int (bottom_ix s) - int (top_ix s) + int (length xs) > int (capacity s)"
  shows "deque_inv (s\<lparr>owner_at := after_push_load full xs b t\<rparr>)"
proof (rule owner_move [OF inv])
  have own: "top_ix s \<le> bottom_ix s" "bottom_ix s \<le> top_ix s + capacity s" "claimed s = popped s"
    using deque_invD(4) [OF inv] pc by simp_all
  have bt: "b = of_nat (bottom_ix s)" "t = of_nat (top_ix s)" unfolding b t deque_invD(1) [OF inv] unpack_pack by (rule refl)+
  show "owner_ok s (after_push_load full xs b t)"
    using own bt xs room full unfolding after_push_load_def by (auto intro!: exI [of _ "top_ix s"])
qed (simp add: pc)

lemma push_full_iff:
  assumes inv: "deque_inv s"
  shows "push_full (active_data s) (unpack_bottom (state_word s)) (unpack_top (state_word s))
    \<longleftrightarrow> int (bottom_ix s) - int (top_ix s) + 1 > int (capacity s)"
proof -
  have "unat (unpack_mask (active_data s)) + 1 = capacity s" by (simp add: capacity_def)
  moreover from this have "unat (unpack_mask (active_data s)) < 2 ^ 31" using owner_room(3) [OF inv] by simp
  ultimately show ?thesis using sint_ucast_small [of "unpack_mask (active_data s)"] inv_diff [OF inv]
    unfolding push_full_def by linarith
qed

lemma bulk_full_iff:
  assumes inv: "deque_inv s" and own: "top_ix s \<le> bottom_ix s" and room: "bottom_ix s - top_ix s + n \<le> 2 ^ 30"
  shows "bulk_full (active_data s) (unpack_bottom (state_word s)) (unpack_top (state_word s)) n
    \<longleftrightarrow> int (bottom_ix s) - int (top_ix s) + int n > int (capacity s)"
proof -
  obtain lc where lc: "lc \<le> 30" "unpack_mask (active_data s) = mask lc" "capacity s = 2 ^ lc"
    by (rule active_mask [OF inv])
  have "mask lc + 1 = one_at lc" using mask_one_at [of lc] lc(1) by (simp flip: mask_one_at)
  then have "unat (unpack_mask (active_data s) + 1) = capacity s" using lc unat_one_at [of lc] by simp
  moreover from this have "unat (unpack_mask (active_data s) + 1) < 2 ^ 31" using owner_room(3) [OF inv] by simp
  ultimately have cap: "sint (ucast (unpack_mask (active_data s) + 1) :: u32) = int (capacity s)"
    using sint_ucast_small by metis
  have e: "unpack_bottom (state_word s) - unpack_top (state_word s) + of_nat n = of_nat (bottom_ix s - top_ix s + n)"
    using own by (simp add: deque_invD(1) [OF inv] unpack_pack of_nat_diff)
  have i: "sint (of_nat (bottom_ix s - top_ix s + n) :: u32) = int (bottom_ix s - top_ix s + n)"
    using room by (intro sint_nat) simp
  show ?thesis unfolding bulk_full_def Let_def cap e i using own by linarith
qed

lemma grow_inv:
  assumes inv: "deque_inv s" and pc: "owner_at s = Growing xs b t"
    and cap: "grown_cap (unpack_mask (active_data s) + 1) b t (of_nat (length xs)) = Some cap"
    and data: "data AND TAG_MASK = 0" "data \<notin> allocated s"
    and s': "s' = (grow_buffer data cap fresh b t s)\<lparr>owner_at := Storing 0 xs b\<rparr>"
  shows "deque_inv s'" and "queue_of s' = queue_of s"
proof -
  let ?B = "bottom_ix s"
  obtain lc where lc: "lc \<le> 30" "unpack_mask (active_data s) = mask lc" "capacity s = 2 ^ lc"
    by (rule active_mask [OF inv])
  obtain t0 where own: "b = of_nat ?B" "top_ix s \<le> ?B" "claimed s = popped s" "t = of_nat t0" "t0 \<le> top_ix s"
    "?B \<le> t0 + capacity s" "t0 + capacity s < ?B + length xs" "?B + length xs \<le> t0 + 2 ^ 30"
    using deque_invD(4) [OF inv] pc by auto
  have "2 ^ lc < (2::nat) ^ 30" using own(7,8) lc(3) by linarith
  then have lc1: "Suc lc \<le> 30" using power_less_imp_less_exp [of "2 :: nat" lc 30] by (simp add: Suc_le_eq)
  have "mask lc + 1 = one_at lc" using lc(1) by (simp flip: mask_one_at)
  then have two: "(mask lc + 1) * 2 = one_at (Suc lc)" by (simp add: one_at_def)
  have needed: "b - t + of_nat (length xs) = of_nat (?B - t0 + length xs)"
    using own(1,2,4,5) by (simp add: of_nat_diff)
  have "unat (ucast (of_nat (?B - t0 + length xs) :: u32) :: size_t) = ?B - t0 + length xs"
    using own(2,5,8) by (intro unat_widen) simp
  then have n: "unat (ucast (b - t + of_nat (length xs)) :: size_t) = ?B - t0 + length xs" by (simp only: needed)
  have "?B - t0 + length xs \<le> 2 ^ 30" using own(2,5,8) by simp
  from double_until_spec [OF lc1, of "ucast (b - t + of_nat (length xs))", unfolded n, OF this]
  obtain lc' where lc': "cap = one_at lc'" "Suc lc \<le> lc'" "lc' \<le> 30" "?B - t0 + length xs \<le> 2 ^ lc'"
    using cap unfolding grown_cap_def lc(2) two by (metis option.inject)
  have m: "unpack_data (publish_active data cap) = data" "unpack_mask (publish_active data cap) = mask lc'" "cap - 1 = mask lc'"
    using tag_roundtrip [OF data(1), of lc'] lc'(1,3) mask_one_at [of lc'] by simp_all
  have same: "state_word s' = state_word s" "top_ix s' = top_ix s" "bottom_ix s' = ?B" "content s' = content s"
    "pushed_items s' = pushed_items s" "stolen s' = stolen s" "claimed s' = claimed s" "popped s' = popped s"
    "seen s' = seen s" "thief_at s' = thief_at s" "queue_of s' = queue_of s" "owner_at s' = Storing 0 xs b"
    "active_data s' = publish_active data cap" "allocated s' = insert data (allocated s)"
    by (simp_all add: s' grow_buffer_def Let_def queue_of_def)
  have cap': "capacity s' = 2 ^ lc'" by (rule capacity_mask [OF _ lc'(3)], unfold same, rule m(2))
  have items: "item_at s' j = item_at s j" if "t0 \<le> j" "j < ?B" for j
  proof -
    have "?B - t0 \<le> 2 ^ lc'" "t0 \<le> ?B" using lc'(4) own(2,5) by simp_all
    from copy_items_spec [OF this(2,1) lc'(3) lc(1)] that show ?thesis
      by (simp add: item_at_def cap' lc(3) same m) (simp add: s' grow_buffer_def Let_def m lc(2) own(1,4))
  qed
  have tag: "tag_ok s' aw" if "tag_ok s aw" for aw using that data(2) by (auto simp: tag_ok_def same m)
  have rd: "read_slot aw i s' = read_slot aw i s" if "tag_ok s aw" for aw i
    using that data(2) by (auto simp: read_slot_def s' grow_buffer_def Let_def tag_ok_def)
  have th: "thief_ok s' (seen s' a) (thief_at s' a)" for a
    using thief_keep [OF deque_invD(6) [OF inv, of a], of s'] tag rd pc unfolding same by (auto simp: same held_def)
  show "queue_of s' = queue_of s" by (rule same(11))
  show "deque_inv s'"
  proof (rule deque_invI [OF _ _ _ _ _ th])
    show "tag_ok s' (active_data s')" using lc'(3) by (auto simp: tag_ok_def same m)
    show "owner_ok s' (owner_at s')" using own lc'(4) by (simp add: same cap')
    show "item_at s' i = content s' i" if "top_ix s' \<le> i" "i < bottom_ix s'" for i
      using items [of i] deque_invD(5) [OF inv, of i] that own(5) by (simp add: same)
  qed (use deque_invD(1,2,7) [OF inv] in \<open>simp_all add: same\<close>)
qed


lemma write_slot_sel [simp]:
  "top_ix (write_slot i x s) = top_ix s" "bottom_ix (write_slot i x s) = bottom_ix s"
  "content (write_slot i x s) = content s"
  by (simp_all add: write_slot_def Let_def)

lemma store_inv:
  assumes inv: "deque_inv s" and pc: "owner_at s = Storing i xs b" and i: "i < length xs"
    and s': "s' = (write_slot (b + of_nat i) (xs ! i) s)\<lparr>owner_at := Storing (i + 1) xs b\<rparr>"
  shows "deque_inv s'" and "queue_of s' = queue_of s"
proof -
  let ?B = "bottom_ix s" and ?T = "top_ix s"
  obtain lc where lc: "lc \<le> 30" "unpack_mask (active_data s) = mask lc" "capacity s = 2 ^ lc"
    by (rule active_mask [OF inv])
  have own: "b = of_nat ?B" "?T \<le> ?B" "claimed s = popped s" "?B + length xs \<le> ?T + capacity s"
    "\<And>j. j < i \<Longrightarrow> item_at s (?B + j) = xs ! j"
    using deque_invD(4) [OF inv] pc by simp_all
  have k: "slot_at (unpack_mask (active_data s)) (b + of_nat i) = (?B + i) mod capacity s"
    using slot_at_mod [OF lc(1), of "?B + i"] by (simp add: lc(2,3) own(1))
  have same: "state_word s' = state_word s" "top_ix s' = top_ix s" "bottom_ix s' = ?B" "content s' = content s"
    "pushed_items s' = pushed_items s" "stolen s' = stolen s" "claimed s' = claimed s" "popped s' = popped s"
    "seen s' = seen s" "thief_at s' = thief_at s" "queue_of s' = queue_of s" "owner_at s' = Storing (i + 1) xs b"
    "active_data s' = active_data s" "allocated s' = allocated s" "tag_ok s' = tag_ok s" "capacity s' = capacity s"
    by (auto simp: s' write_slot_def Let_def queue_of_def tag_ok_def capacity_def fun_eq_iff)
  have items: "item_at s' j = (if j mod capacity s = (?B + i) mod capacity s then xs ! i else item_at s j)" for j
  proof -
    have sl: "slots s' (unpack_data (active_data s)) = (slots s (unpack_data (active_data s)))((?B + i) mod capacity s := xs ! i)"
      by (simp add: s' write_slot_def Let_def k)
    show ?thesis by (simp only: item_at_def same sl fun_upd_apply)
  qed
  have apart: "j mod capacity s \<noteq> (?B + i) mod capacity s" if "?T \<le> j" "j < ?B + i" for j
    using mod_distinct [of j "?B + i" "capacity s"] that own(4) i by simp
  have rd: "read_slot aw (of_nat ?T) s' = read_slot aw (of_nat ?T) s" if "tag_ok s aw" "held s" for aw
  proof -
    have T: "?T < ?B" using that(2) pc by (auto simp: held_def)
    have "?T mod capacity s \<noteq> (?B + i) mod capacity s" by (rule apart) (use T in simp_all)
    moreover have "aw = active_data s" if "unpack_data aw = unpack_data (active_data s)"
      using \<open>tag_ok s aw\<close> that by (simp add: tag_ok_def)
    ultimately show ?thesis
      using slot_at_mod [OF lc(1), of ?T] k [unfolded lc(2,3)]
      by (auto simp: read_slot_def s' write_slot_def Let_def lc(2,3))
  qed
  have th: "thief_ok s' (seen s' a) (thief_at s' a)" for a
    using thief_keep [OF deque_invD(6) [OF inv, of a], of s'] rd pc unfolding same by (auto simp: same held_def)
  show "queue_of s' = queue_of s" by (rule same(11))
  show "deque_inv s'"
  proof (rule deque_invI [OF _ _ _ _ _ th])
    have "item_at s' (?B + j) = xs ! j" if "j < i + 1" for j
      using own(2) own(5) [of j] apart [of "?B + j"] that unfolding items by (cases "j = i") auto
    then show "owner_ok s' (owner_at s')" using own i by (simp add: same)
    show "item_at s' j = content s' j" if "top_ix s' \<le> j" "j < bottom_ix s'" for j
      using apart [of j] deque_invD(5) [OF inv, of j] that unfolding items by (simp add: same)
  qed (use deque_invD(1-3,7) [OF inv] in \<open>simp_all add: same\<close>)
qed

lemma publish_inv:
  assumes inv: "deque_inv s" and pc: "owner_at s = Storing (length xs) xs b"
    and s': "s' = (publish xs b s)\<lparr>owner_at := OwnerIdle\<rparr>"
  shows "deque_inv s'" and "queue_of s' = queue_of s @ xs"
proof -
  let ?B = "bottom_ix s" and ?T = "top_ix s"
  have own: "b = of_nat ?B" "?T \<le> ?B" "claimed s = popped s" "?B + length xs \<le> ?T + capacity s"
    "\<And>j. j < length xs \<Longrightarrow> item_at s (?B + j) = xs ! j"
    using deque_invD(4) [OF inv] pc by simp_all
  have same: "top_ix s' = ?T" "bottom_ix s' = ?B + length xs" "pushed_items s' = pushed_items s @ xs" "stolen s' = stolen s"
    "claimed s' = claimed s" "popped s' = popped s" "seen s' = seen s" "thief_at s' = thief_at s" "owner_at s' = OwnerIdle"
    "active_data s' = active_data s" "allocated s' = allocated s" "slots s' = slots s" "tag_ok s' = tag_ok s"
    "capacity s' = capacity s" "item_at s' = item_at s" "read_slot aw j s' = read_slot aw j s" for aw j
    by (auto simp: s' publish_def tag_ok_def capacity_def item_at_def read_slot_def fun_eq_iff)
  have c: "content s' j = (if ?B \<le> j \<and> j < ?B + length xs then xs ! (j - ?B) else content s j)" for j
    by (simp add: s' publish_def)
  have word: "state_word s' = pack_state (of_nat (top_ix s')) (of_nat (bottom_ix s'))"
    by (simp add: same own(1)) (simp add: s' publish_def store_bottom_def deque_invD(1) [OF inv] unpack_pack own(1))
  show q: "queue_of s' = queue_of s @ xs"
    using own(2) by (intro nth_equalityI) (auto simp: queue_of_def same c nth_append add.commute)
  have th: "thief_ok s' (seen s' a) (thief_at s' a)" for a
    using thief_keep [OF deque_invD(6) [OF inv, of a], of s'] pc by (auto simp: same held_def c)
  show "deque_inv s'"
  proof (rule deque_invI [OF word _ _ _ _ th])
    show "item_at s' j = content s' j" if "top_ix s' \<le> j" "j < bottom_ix s'" for j
      using own(5) [of "j - ?B"] deque_invD(5) [OF inv, of j] that by (auto simp: same c)
    show "mset (pushed_items s') = mset (queue_of s') + mset (stolen s') + mset (claimed s')"
      using deque_invD(7) [OF inv] q by (simp add: same)
  qed (use deque_invD(2,3) [OF inv] own in \<open>simp_all add: same\<close>)
qed


text \<open>The decrement of the bottom: a claim of the last item, if the thieves have left one.\<close>

lemma claim_inv:
  assumes inv: "deque_inv s" and pc: "owner_at s = Popping b t w0"
    and w: "w = pack_state (of_nat (top_ix s)) (b - 1)" and t': "t' = of_nat (top_ix s)"
    and s': "s' = (claim w s)\<lparr>owner_at := Popped (b - 1) t'\<rparr>"
  shows "deque_inv s'"
    and "if top_ix s < bottom_ix s then queue_of s = queue_of s' @ [content s (bottom_ix s - 1)]
         else queue_of s = [] \<and> queue_of s' = []"
proof -
  let ?B = "bottom_ix s" and ?T = "top_ix s"
  have own: "b = of_nat ?B" "?T \<le> ?B" "?B \<le> ?T + capacity s" "1 < ?B" "claimed s = popped s"
    using deque_invD(4) [OF inv] pc by simp_all
  have b1: "b - 1 = of_nat (?B - 1)" using own(1,4) by (simp add: of_nat_diff)
  have same: "top_ix s' = ?T" "bottom_ix s' = ?B - 1" "pushed_items s' = pushed_items s" "stolen s' = stolen s"
    "popped s' = popped s" "seen s' = seen s" "thief_at s' = thief_at s" "owner_at s' = Popped (b - 1) t'"
    "active_data s' = active_data s" "allocated s' = allocated s" "slots s' = slots s" "tag_ok s' = tag_ok s"
    "capacity s' = capacity s" "item_at s' = item_at s" "read_slot aw j s' = read_slot aw j s" "content s' = content s"
    "claimed s' = claimed s @ (if ?T < ?B then [content s (?B - 1)] else [])" for aw j
    by (auto simp: s' claim_def tag_ok_def capacity_def item_at_def read_slot_def fun_eq_iff)
  have word: "state_word s' = pack_state (of_nat (top_ix s')) (of_nat (bottom_ix s'))"
    unfolding same(1,2) b1 [symmetric] by (simp add: s' claim_def w)
  have up: "[?T..<?B] = [?T..<?B - 1] @ [?B - 1]" if "?T < ?B"
    using that upt_Suc_append [of ?T "?B - 1"] by simp
  show q: "if ?T < ?B then queue_of s = queue_of s' @ [content s (?B - 1)] else queue_of s = [] \<and> queue_of s' = []"
    using up by (simp add: queue_of_def same)
  have "held s'" if "held s"
  proof -
    have "?T < ?B" using that pc by (simp add: held_def)
    moreover have "diff (b - 1) t' = 0" if "?T = ?B - 1" using that b1 t' by (simp add: diff_def)
    ultimately show ?thesis unfolding held_def same by force
  qed
  then have th: "thief_ok s' (seen s' a) (thief_at s' a)" for a
    using thief_keep [OF deque_invD(6) [OF inv, of a], of s'] by (auto simp: same)
  have room: "?B \<le> ?T + 2 ^ 30" using owner_room(1) [OF inv] .
  have ow: "owner_ok s' (owner_at s')"
  proof (cases "?T < ?B")
    case True
    then show ?thesis
      using own b1 t' room deque_invD(5) [OF inv, of "?B - 1"]
      by (auto simp: same intro!: exI [of _ ?T])
  next
    case False
    then show ?thesis using own b1 t' room by (auto simp: same intro!: exI [of _ ?T])
  qed
  show "deque_inv s'"
  proof (rule deque_invI [OF word _ _ ow _ th])
    show "item_at s' j = content s' j" if "top_ix s' \<le> j" "j < bottom_ix s'" for j
      using deque_invD(5) [OF inv, of j] that by (simp add: same)
    show "mset (pushed_items s') = mset (queue_of s') + mset (stolen s') + mset (claimed s')"
      using deque_invD(7) [OF inv] q by (auto simp: same split: if_splits)
  qed (use deque_invD(2,3) [OF inv] own in \<open>simp_all add: same\<close>)
qed

lemma popped_facts:
  assumes inv: "deque_inv s" and pc: "owner_at s = Popped b t"
  shows "b = of_nat (bottom_ix s)" and "bottom_ix s + 1 \<le> top_ix s + capacity s"
    and "if diff b t < 0 then top_ix s = bottom_ix s + 1 \<and> claimed s = popped s
      else top_ix s \<le> bottom_ix s \<and> (diff b t = 0 \<longrightarrow> top_ix s = bottom_ix s)
        \<and> claimed s = popped s @ [content s (bottom_ix s)] \<and> item_at s (bottom_ix s) = content s (bottom_ix s)"
proof -
  let ?B = "bottom_ix s" and ?T = "top_ix s"
  have o: "owner_ok s (Popped b t)" using deque_invD(4) [OF inv] pc by simp
  then show b: "b = of_nat ?B" and "?B + 1 \<le> ?T + capacity s" by simp_all
  from o obtain t0 where t0: "t = of_nat t0 \<and> t0 \<le> ?T \<and> t0 \<le> ?B + 1 \<and> ?B < t0 + 2 ^ 30
      \<and> (if t0 = ?B + 1 then ?T = ?B + 1 \<and> claimed s = popped s
         else ?T \<le> ?B \<and> claimed s = popped s @ [content s ?B] \<and> item_at s ?B = content s ?B)"
    unfolding owner_ok.simps by blast
  then have "t = of_nat t0" "t0 \<le> ?B + 1" "?B < t0 + 2 ^ 30" by simp_all
  then have "diff b t = int ?B - int t0" unfolding b using diff_of_nat [of ?B t0] by simp
  then show "if diff b t < 0 then ?T = ?B + 1 \<and> claimed s = popped s
      else ?T \<le> ?B \<and> (diff b t = 0 \<longrightarrow> ?T = ?B) \<and> claimed s = popped s @ [content s ?B] \<and> item_at s ?B = content s ?B"
    using t0 by (cases "t0 = ?B + 1") simp_all
qed

lemma pop_empty_inv:
  assumes inv: "deque_inv s" and pc: "owner_at s = Popped b t" and d: "diff b t < 0"
    and s': "s' = s\<lparr>owner_at := OwnerIdle, state_word := store_bottom (b + 1) (state_word s), bottom_ix := bottom_ix s + 1\<rparr>"
  shows "deque_inv s'" and "queue_of s = [] \<and> queue_of s' = []"
proof -
  let ?B = "bottom_ix s" and ?T = "top_ix s"
  note p = popped_facts [OF inv pc]
  have T: "?T = ?B + 1" "claimed s = popped s" using p(3) d by simp_all
  have same: "top_ix s' = ?T" "bottom_ix s' = ?B + 1" "pushed_items s' = pushed_items s" "stolen s' = stolen s"
    "popped s' = popped s" "seen s' = seen s" "thief_at s' = thief_at s" "owner_at s' = OwnerIdle"
    "active_data s' = active_data s" "allocated s' = allocated s" "slots s' = slots s" "tag_ok s' = tag_ok s"
    "capacity s' = capacity s" "item_at s' = item_at s" "read_slot aw j s' = read_slot aw j s" "content s' = content s"
    "claimed s' = claimed s" for aw j
    by (auto simp: s' tag_ok_def capacity_def item_at_def read_slot_def fun_eq_iff)
  have word: "state_word s' = pack_state (of_nat (top_ix s')) (of_nat (bottom_ix s'))"
    by (simp add: same) (simp add: s' store_bottom_def deque_invD(1) [OF inv] unpack_pack p(1) add.commute)
  show q: "queue_of s = [] \<and> queue_of s' = []" using T by (simp add: queue_of_def same)
  have th: "thief_ok s' (seen s' a) (thief_at s' a)" for a
    using thief_keep [OF deque_invD(6) [OF inv, of a], of s'] T by (auto simp: same held_def)
  show "deque_inv s'"
    by (rule deque_invI [OF word _ _ _ _ th]) (use deque_invD(2,3,7) [OF inv] p(2) T q in \<open>simp_all add: same\<close>)
qed

lemma pop_item:
  assumes inv: "deque_inv s" and pc: "owner_at s = Popped b t" and d: "diff b t \<ge> 0"
  shows "claimed s = popped s @ [read_slot (active_data s) b s]"
  using popped_facts [OF inv pc] d read_active [OF inv, of "bottom_ix s"] by (simp split: if_splits)

lemma pop_many_inv:
  assumes inv: "deque_inv s" and pc: "owner_at s = Popped b t" and d: "diff b t > 0"
    and s': "s' = s\<lparr>owner_at := OwnerIdle, popped := popped s @ [read_slot (active_data s) b s]\<rparr>"
  shows "deque_inv s'" and "queue_of s' = queue_of s"
proof -
  let ?B = "bottom_ix s" and ?T = "top_ix s"
  note p = popped_facts [OF inv pc] and item = pop_item [OF inv pc]
  have T: "?T \<le> ?B" using p(3) d by simp
  have same: "top_ix s' = ?T" "bottom_ix s' = ?B" "pushed_items s' = pushed_items s" "stolen s' = stolen s"
    "popped s' = popped s @ [read_slot (active_data s) b s]" "seen s' = seen s" "thief_at s' = thief_at s" "owner_at s' = OwnerIdle"
    "active_data s' = active_data s" "allocated s' = allocated s" "slots s' = slots s" "tag_ok s' = tag_ok s"
    "capacity s' = capacity s" "item_at s' = item_at s" "read_slot aw j s' = read_slot aw j s" "content s' = content s"
    "claimed s' = claimed s" "state_word s' = state_word s" for aw j
    by (auto simp: s' tag_ok_def capacity_def item_at_def read_slot_def fun_eq_iff)
  show q: "queue_of s' = queue_of s" by (simp add: queue_of_def same)
  have th: "thief_ok s' (seen s' a) (thief_at s' a)" for a
    using thief_keep [OF deque_invD(6) [OF inv, of a], of s'] d pc by (auto simp: same held_def)
  show "deque_inv s'"
    by (rule deque_invI [OF _ _ _ _ _ th]) (use deque_invD(1-3,5,7) [OF inv] p(2) T q item d in \<open>simp_all add: same\<close>)
qed

lemma pop_last_inv:
  assumes inv: "deque_inv s" and pc: "owner_at s = Popped b t" and d: "diff b t = 0"
    and s': "s' = s\<lparr>owner_at := OwnerIdle, popped := popped s @ [read_slot (active_data s) b s],
      state_word := pack_state (b + 1) (b + 1), top_ix := bottom_ix s + 1, bottom_ix := bottom_ix s + 1\<rparr>"
  shows "deque_inv s'" and "queue_of s = [] \<and> queue_of s' = []"
proof -
  let ?B = "bottom_ix s" and ?T = "top_ix s"
  note p = popped_facts [OF inv pc] and item = pop_item [OF inv pc]
  have T: "?T = ?B" using p(3) d by simp
  have same: "top_ix s' = ?B + 1" "bottom_ix s' = ?B + 1" "pushed_items s' = pushed_items s" "stolen s' = stolen s"
    "popped s' = popped s @ [read_slot (active_data s) b s]" "seen s' = seen s" "thief_at s' = thief_at s" "owner_at s' = OwnerIdle"
    "active_data s' = active_data s" "allocated s' = allocated s" "slots s' = slots s" "tag_ok s' = tag_ok s"
    "capacity s' = capacity s" "item_at s' = item_at s" "read_slot aw j s' = read_slot aw j s" "content s' = content s"
    "claimed s' = claimed s" for aw j
    by (auto simp: s' tag_ok_def capacity_def item_at_def read_slot_def fun_eq_iff)
  have word: "state_word s' = pack_state (of_nat (top_ix s')) (of_nat (bottom_ix s'))"
    by (simp add: same) (simp add: s' p(1) add.commute)
  show q: "queue_of s = [] \<and> queue_of s' = []" using T by (simp add: queue_of_def same)
  have th: "thief_ok s' (seen s' a) (thief_at s' a)" for a
    using thief_keep [OF deque_invD(6) [OF inv, of a], of s'] T by (auto simp: same held_def)
  show "deque_inv s'"
    by (rule deque_invI [OF word _ _ _ _ th]) (use deque_invD(2,3,7) [OF inv] p(2) T q item d in \<open>simp_all add: same\<close>)
qed


section \<open>The queue that the machine implements\<close>

text \<open>
  The queue, the items pushed, stolen, and taken from the bottom.  Owner and thieves each act on it in one step.
\<close>

type_synonym abs_deque = "nat list \<times> nat list \<times> nat list \<times> nat list"

definition abs_of :: "deque \<Rightarrow> abs_deque" where
  "abs_of s = (queue_of s, pushed_items s, stolen s, claimed s)"

inductive abs_step :: "abs_deque \<Rightarrow> abs_deque \<Rightarrow> bool" where
  internal: "abs_step a a"
| pushes: "abs_step (q, p, st, cl) (q @ xs, p @ xs, st, cl)"
| steals: "abs_step (x # q, p, st, cl) (q, p, st @ [x], cl)"
| pops: "abs_step (q @ [x], p, st, cl) (q, p, st, cl @ [x])"

lemma abs_same: "abs_of s' = abs_of s \<Longrightarrow> abs_step (abs_of s) (abs_of s')"
  by (simp add: internal)

lemma abs_owner [simp]: "abs_of (s\<lparr>owner_at := pc\<rparr>) = abs_of s"
  by (simp add: abs_of_def queue_of_def)

lemma abs_thief [simp]: "abs_of (set_thief a pc s) = abs_of s" "abs_of (snapshot a r s) = abs_of s"
  by (simp_all add: abs_of_def queue_of_def set_thief_def snapshot_def)

lemma after_pop_load_ok:
  assumes inv: "deque_inv s" and ok: "owner_ok s OwnerIdle" and b: "b = of_nat (bottom_ix s)"
  shows "owner_ok s (after_pop_load b (state_word s))"
proof -
  note w = deque_invD(1) [OF inv]
  have d: "diff b (unpack_top (state_word s)) = int (bottom_ix s) - int (top_ix s)"
    using inv_diff [OF inv] unfolding w unpack_pack b .
  show ?thesis
    unfolding after_pop_load_def Let_def d using ok deque_invD(2) [OF inv] b by (simp add: w unpack_pack)
qed

lemma popping_idle: "owner_ok s (Popping b t w) \<Longrightarrow> owner_ok s OwnerIdle"
  by simp

lemma claim_abs:
  assumes "if top_ix s < bottom_ix s then queue_of s = queue_of s' @ [content s (bottom_ix s - 1)]
      else queue_of s = [] \<and> queue_of s' = []"
    and s': "s' = (claim w s)\<lparr>owner_at := pc\<rparr>"
  shows "abs_step (abs_of s) (abs_of s')"
proof -
  have "pushed_items s' = pushed_items s" "stolen s' = stolen s"
    "claimed s' = claimed s @ (if top_ix s < bottom_ix s then [content s (bottom_ix s - 1)] else [])"
    by (simp_all add: s' claim_def)
  then show ?thesis using assms(1) by (auto simp: abs_of_def intro: internal pops split: if_splits)
qed

lemma deque_step_inv:
  assumes "deque_step s s'" and inv: "deque_inv s"
  shows "deque_inv s' \<and> abs_step (abs_of s) (abs_of s')"
  using assms(1)
proof cases
  case (push_load b t x)
  have own: "top_ix s \<le> bottom_ix s" using deque_invD(4) [OF inv] push_load(2) by simp
  show ?thesis unfolding push_load(1)
    using load_inv [OF inv push_load(2) _ _ push_load(4,5), of "[x]"] push_full_iff [OF inv] push_load(3-5) own
    by (auto intro: abs_same)
next
  case (bulk_load xs b t)
  have own: "top_ix s \<le> bottom_ix s" using deque_invD(4) [OF inv] bulk_load(2) by simp
  have "bulk_full (active_data s) b t (length xs) \<longleftrightarrow> int (bottom_ix s) - int (top_ix s) + int (length xs) > int (capacity s)"
    unfolding bulk_load(5,6) by (rule bulk_full_iff [OF inv own bulk_load(4)])
  then show ?thesis unfolding bulk_load(1)
    using load_inv [OF inv bulk_load(2,4,3,5,6)] by (auto intro: abs_same)
next
  case (grow xs b t cap data fresh)
  note g = grow_inv [OF inv grow(2,3,4,5,1)]
  have "pushed_items s' = pushed_items s" "stolen s' = stolen s" "claimed s' = claimed s"
    by (simp_all add: grow(1) grow_buffer_def Let_def)
  then show ?thesis using g by (simp add: abs_of_def internal)
next
  case (store i xs b)
  note g = store_inv [OF inv store(2,3,1)]
  have "pushed_items s' = pushed_items s" "stolen s' = stolen s" "claimed s' = claimed s"
    by (simp_all add: store(1) write_slot_def Let_def)
  then show ?thesis using g by (simp add: abs_of_def internal)
next
  case (stored xs b)
  note g = publish_inv [OF inv stored(2,1)]
  have "pushed_items s' = pushed_items s @ xs" "stolen s' = stolen s" "claimed s' = claimed s"
    by (simp_all add: stored(1) publish_def)
  then show ?thesis using g by (simp add: abs_of_def pushes)
next
  case pop_load
  have "owner_ok s OwnerIdle" using deque_invD(4) [OF inv] pop_load(2) by simp
  then have "owner_ok s (after_pop_load (unpack_bottom (state_word s)) (state_word s))"
    by (rule after_pop_load_ok [OF inv]) (simp add: deque_invD(1) [OF inv] unpack_pack)
  from owner_move [OF inv this] show ?thesis unfolding pop_load(1) using pop_load(2) by (auto intro: abs_same)
next
  case (pop_sub b t state)
  have o: "b = of_nat (bottom_ix s)" using deque_invD(4) [OF inv] pop_sub(2) by simp
  have "state_word s - 1 = pack_state (of_nat (top_ix s)) (b - 1)"
    using pack_minus_one [OF pop_sub(3)] deque_invD(1) [OF inv] o by simp
  moreover have "unpack_top (state_word s) = of_nat (top_ix s)" by (simp add: deque_invD(1) [OF inv] unpack_pack)
  ultimately show ?thesis
    using claim_inv [OF inv pop_sub(2) _ _ pop_sub(1)] claim_abs [OF _ pop_sub(1)] by blast
next
  case (pop_cas_ok b t state)
  have "t = of_nat (top_ix s)"
    using deque_invD(4) [OF inv] pop_cas_ok(2,4) deque_invD(1) [OF inv] by (auto simp: unpack_pack)
  then show ?thesis
    using claim_inv [OF inv pop_cas_ok(2) _ _ pop_cas_ok(1)] claim_abs [OF _ pop_cas_ok(1)] by blast
next
  case (pop_cas_fail b t state)
  have "owner_ok s (Popping b t state)" using deque_invD(4) [OF inv] pop_cas_fail(2) by simp
  then have "owner_ok s (after_pop_load b (state_word s))"
    using after_pop_load_ok [OF inv popping_idle] by auto
  from owner_move [OF inv this] show ?thesis unfolding pop_cas_fail(1) using pop_cas_fail(2) by (auto intro: abs_same)
next
  case (pop_empty b t)
  show ?thesis using pop_empty_inv [OF inv pop_empty(2,3,1)] by (auto simp: pop_empty(1) abs_of_def internal)
next
  case (pop_many b t)
  show ?thesis using pop_many_inv [OF inv pop_many(2,3,1)] by (auto simp: pop_many(1) abs_of_def internal)
next
  case (pop_last b t)
  show ?thesis using pop_last_inv [OF inv pop_last(2,3,1)] by (auto simp: pop_last(1) abs_of_def internal)
next
  case (steal_load a)
  then show ?thesis using snapshot_inv [OF inv] by (simp add: internal)
next
  case (steal_locate a w r)
  then show ?thesis using locate_inv [OF inv] by (simp add: internal)
next
  case (steal_fetch a w r aw)
  then show ?thesis using fetch_inv [OF inv] by (simp add: internal)
next
  case (steal_ok a w r x)
  have "pushed_items s' = pushed_items s" "stolen s' = stolen s @ [x]" "claimed s' = claimed s"
    by (simp_all add: steal_ok(1) set_thief_def)
  then show ?thesis using steal_inv [OF inv steal_ok(2-4,1)] by (simp add: abs_of_def steals)
next
  case (steal_fail a w r x)
  then show ?thesis using snapshot_inv [OF inv] idle_inv [OF inv] by (simp add: internal)
qed

lemma new_inv:
  assumes "double_until 1 initialCapacity = Some cap" and "data AND TAG_MASK = 0" and "unat initialCapacity \<le> 2 ^ 30"
  shows "deque_inv (deque_new data cap fresh)"
proof -
  have "one_at 0 = 1" by (simp add: one_at_def)
  with double_until_spec [of 0 initialCapacity] assms(1,3) obtain lc where lc: "cap = one_at lc" "lc \<le> 30" by auto
  have m: "unpack_data (publish_active data cap) = data" "unpack_mask (publish_active data cap) = mask lc"
    using tag_roundtrip [OF assms(2), of lc] lc by simp_all
  have c: "capacity (deque_new data cap fresh) = 2 ^ lc"
    by (rule capacity_mask [OF _ lc(2)]) (simp add: deque_new_def m)
  show ?thesis
    by (rule deque_invI) (use lc(2) c in \<open>auto simp: deque_new_def tag_ok_def m queue_of_def\<close>)
qed

lemma observers:
  assumes "deque_inv s"
  shows "deque_empty (state_word s) = (queue_of s = [])" and "size_approx (state_word s) = of_nat (length (queue_of s))"
  unfolding deque_empty_def size_approx_def Let_def inv_diff [OF assms]
  by (auto simp: queue_of_def of_nat_diff)

lemma deque_reachable_inv:
  assumes "deque_reachable initialCapacity s" and "unat initialCapacity \<le> 2 ^ 30"
  shows "deque_inv s"
  using assms(1) by induction (use assms(2) new_inv deque_step_inv in blast)+

text \<open>
  C3: The work-stealing deque is linearizable: whatever the interleaving of the owner's accesses with those of any
  number of thieves, and across growing buffers and wrapped indices, each step either leaves the abstract queue as it
  was, or appends the pushed items, or gives its first item to a thief, or its last item to the owner.
\<close>

theorem deque_refines:
  assumes "deque_reachable initialCapacity s" and "unat initialCapacity \<le> 2 ^ 30" and "deque_step s s'"
  shows "abs_step (abs_of s) (abs_of s')"
  using deque_step_inv [OF assms(3) deque_reachable_inv [OF assms(1,2)]] by blast

text \<open>
  No work item is lost or run twice: the items pushed so far are those in the queue, those stolen and those taken
  by the owner, each as often as it was pushed; an owner between calls has returned all that it took, and its queue
  is the one whose emptiness and size \<open>empty\<close> and \<open>size_approx\<close> report.
\<close>

lemma work_conserved:
  assumes "deque_reachable initialCapacity s" and "unat initialCapacity \<le> 2 ^ 30" and "owner_at s = OwnerIdle"
  shows "mset (pushed_items s) = mset (queue_of s) + mset (stolen s) + mset (popped s)
    \<and> deque_empty (state_word s) = (queue_of s = [])
    \<and> size_approx (state_word s) = of_nat (length (queue_of s))"
  using deque_invD(4,7) [OF deque_reachable_inv [OF assms(1,2)]] assms(3)
    observers [OF deque_reachable_inv [OF assms(1,2)]] by simp


text \<open>A run: the owner of a deque of capacity 1 pushes an item.\<close>

definition run_a :: deque where "run_a = deque_new 0 1 (\<lambda>_. 0)"
definition run_b :: deque where "run_b = (write_slot (1 + of_nat 0) ([7] ! 0) (run_a\<lparr>owner_at := Storing 0 [7] 1\<rparr>))\<lparr>owner_at := Storing (0 + 1) [7] 1\<rparr>"
definition run_c :: deque where "run_c = (publish [7] 1 run_b)\<lparr>owner_at := OwnerIdle\<rparr>"

lemma run_b_reachable: "deque_reachable 1 run_b"
proof -
  have "double_until 1 1 = Some 1" by (subst double_until.simps) simp
  then have a: "deque_reachable 1 run_a" unfolding run_a_def by (rule deque_reachable.start) simp
  have "unpack_mask (publish_active 0 1) = 0" using tag_roundtrip(2) [of 0 0] by (simp add: one_at_def)
  then have "run_a\<lparr>owner_at := Storing 0 [7] 1\<rparr>
      = run_a\<lparr>owner_at := after_push_load (push_full (active_data run_a) (unpack_bottom (state_word run_a))
          (unpack_top (state_word run_a))) [7] (unpack_bottom (state_word run_a)) (unpack_top (state_word run_a))\<rparr>"
    unfolding run_a_def by (simp add: deque_new_def unpack_pack push_full_def diff_def after_push_load_def)
  then have "deque_step run_a (run_a\<lparr>owner_at := Storing 0 [7] 1\<rparr>)"
    using deque_step.push_load [of run_a _ _ 7] by (simp add: run_a_def deque_new_def)
  moreover have "deque_step (run_a\<lparr>owner_at := Storing 0 [7] 1\<rparr>) run_b"
    unfolding run_b_def by (rule deque_step.store) simp_all
  ultimately show ?thesis using a deque_reachable.step by blast
qed

lemma run_c_step: "deque_step run_b run_c"
  unfolding run_c_def by (rule deque_step.stored) (simp add: run_b_def)

lemma run_values:
  "owner_at run_c = OwnerIdle" "pushed_items run_c = [7]" "stolen run_c = []" "popped run_c = []" "claimed run_c = []"
  "queue_of run_c = [7]" "abs_of run_b = ([], [], [], [])"
  "unpack_bottom (state_word run_c) = 2" "unpack_top (state_word run_c) = 1"
  by (simp_all add: run_c_def run_b_def run_a_def deque_new_def publish_def write_slot_def Let_def queue_of_def abs_of_def
      store_bottom_def unpack_pack)

lemma deque_refines_witness: "abs_step ([], [], [], []) ([7], [7], [], [])"
  using deque_refines [OF run_b_reachable _ run_c_step] run_values by (simp add: abs_of_def)

lemma work_conserved_witness: "mset [7] = mset (queue_of run_c) + {#} + mset (popped run_c)"
  using work_conserved [of 1 run_c] deque_reachable.step [OF run_b_reachable run_c_step] run_values by simp

end
