(* ===== verification/ManualEvent.thy ===== *)
theory ManualEvent
  imports SyncSteps
begin

text \<open>
  The manual-reset event (\<open>src/include/tmc/manual_reset_event.hpp\<close>, \<open>detail/manual_reset_event.ipp\<close>), on the heap of
  nodes of theory \<open>WaiterList\<close>: one call at a time.  Theory \<open>LatchBarrier\<close> interleaves its steps.
\<close>

section \<open>Operations\<close>

text \<open>The word \<open>head\<close> is 0, 1, or the address of a node.\<close>

type_synonym manual_reset_event = "nat \<times> waiter_data"

definition NOT_READY :: nat where "NOT_READY = 0"
definition READY :: nat where "READY = 1"

definition as_node :: "nat \<Rightarrow> nat option" where
  "as_node h = (if h = 0 then None else Some h)"

definition manual_new :: "bool \<Rightarrow> waiter_data \<Rightarrow> manual_reset_event" where
  "manual_new Ready s = (if Ready then READY else NOT_READY, s)"

definition manual_is_set :: "manual_reset_event \<Rightarrow> bool" where
  "manual_is_set e \<longleftrightarrow> READY = fst e"

definition manual_reset :: "manual_reset_event \<Rightarrow> manual_reset_event" where
  "manual_reset e = (if fst e = READY then (NOT_READY, snd e) else e)"

definition manual_set :: "manual_reset_event \<Rightarrow> (nat \<times> manual_reset_event) option" where
  "manual_set e = (let (h, s) = e in
     if READY = h then Some (0, (READY, s))
     else map_option (\<lambda>(n, s). (n, (READY, s))) (wake_waiters_in_batches (as_node h) s))"

text \<open>\<open>aw_manual_reset_event::await_suspend\<close>; the result says whether the caller is suspended.\<close>

definition manual_await_suspend :: "this_thread \<Rightarrow> nat \<Rightarrow> nat \<Rightarrow> manual_reset_event \<Rightarrow> bool \<times> manual_reset_event" where
  "manual_await_suspend t me Outer e =
    (let (h, s) = e;
         node = \<lparr>nxt = nxt (nodes s me), continuation = Outer, continuation_executor = fst t, continuation_priority = snd t\<rparr>
     in if READY = h then (False, (h, s\<lparr>nodes := (nodes s)(me := node)\<rparr>))
        else (True, (me, s\<lparr>nodes := (nodes s)(me := node\<lparr>nxt := as_node h\<rparr>)\<rparr>)))"

text \<open>\<open>aw_manual_reset_event_co_set\<close>: the number woken and what runs next.\<close>

definition manual_co_set :: "this_thread \<Rightarrow> nat \<Rightarrow> manual_reset_event \<Rightarrow> ((nat \<times> nat) \<times> manual_reset_event) option" where
  "manual_co_set t Outer e =
    (let (h, s) = e
     in if READY = h \<or> NOT_READY = h then Some ((0, Outer), (READY, s))
        else map_option (\<lambda>(n, s). let (next, s) = try_symmetric_transfer t h Outer s in ((1 + n, next), (READY, s)))
               (wake_waiters_in_batches (nxt (nodes s h)) s))"

definition manual_waiter_count :: "manual_reset_event \<Rightarrow> nat option" where
  "manual_waiter_count e =
    (let (h, s) = e in if h = NOT_READY \<or> h = READY then Some 0 else length_loop (as_node h) 0 s)"

definition manual_destroy :: "manual_reset_event \<Rightarrow> manual_reset_event option" where
  "manual_destroy e = map_option snd (manual_set e)"

datatype event_op =
    IsSet
  | ResetEvent
  | SetEvent
  | CoSet this_thread nat
  | AwaitEvent this_thread nat nat
  | WaiterCount
  | DestroyEvent

datatype event_result = Unit | Flag bool | Number nat | Resumes nat nat

fun run_event :: "event_op \<Rightarrow> manual_reset_event \<Rightarrow> (event_result \<times> manual_reset_event) option" where
  "run_event IsSet e = Some (Flag (manual_is_set e), e)"
| "run_event ResetEvent e = Some (Unit, manual_reset e)"
| "run_event SetEvent e = map_option (\<lambda>(n, e). (Number n, e)) (manual_set e)"
| "run_event (CoSet t Outer) e = map_option (\<lambda>((n, next), e). (Resumes n next, e)) (manual_co_set t Outer e)"
| "run_event (AwaitEvent t me Outer) e = (let (b, e) = manual_await_suspend t me Outer e in Some (Flag b, e))"
| "run_event WaiterCount e = map_option (\<lambda>n. (Number n, e)) (manual_waiter_count e)"
| "run_event DestroyEvent e = map_option (\<lambda>e. (Unit, e)) (manual_destroy e)"

fun run_events :: "event_op list \<Rightarrow> manual_reset_event \<Rightarrow> (event_result list \<times> manual_reset_event) option" where
  "run_events [] e = Some ([], e)"
| "run_events (x # xs) e =
    (case run_event x e of None \<Rightarrow> None
     | Some (r, e) \<Rightarrow> map_option (\<lambda>(rs, e). (r # rs, e)) (run_events xs e))"

section \<open>What the event promises\<close>

text \<open>Set, or a stack of suspended coroutines, each with its node, executor and priority; and the resumptions posted.\<close>

type_synonym resumption = "nat \<times> nat \<times> nat list"
type_synonym event_spec = "(nat \<times> resumption) list option \<times> resumption list"

fun spec_event :: "event_op \<Rightarrow> event_spec \<Rightarrow> event_result \<times> event_spec" where
  "spec_event IsSet (w, l) = (Flag (w = None), (w, l))"
| "spec_event ResetEvent (w, l) = (Unit, (Some (case w of None \<Rightarrow> [] | Some ws \<Rightarrow> ws), l))"
| "spec_event SetEvent (None, l) = (Number 0, (None, l))"
| "spec_event SetEvent (Some ws, l) = (Number (length ws), (None, l @ map snd ws))"
| "spec_event (CoSet t Outer) (Some ((n, ex, prio, c) # ws), l) =
    (if t = (ex, prio) then (Resumes (1 + length ws) (hd c), (None, l @ map snd ws @ [(ex, prio, [Outer])]))
     else (Resumes (1 + length ws) Outer, (None, l @ map snd ws @ [(ex, prio, c)])))"
| "spec_event (CoSet t Outer) (w, l) = (Resumes 0 Outer, (None, l))"
| "spec_event (AwaitEvent t me Outer) (None, l) = (Flag False, (None, l))"
| "spec_event (AwaitEvent t me Outer) (Some ws, l) = (Flag True, (Some ((me, fst t, snd t, [Outer]) # ws), l))"
| "spec_event WaiterCount (w, l) = (Number (case w of None \<Rightarrow> 0 | Some ws \<Rightarrow> length ws), (w, l))"
| "spec_event DestroyEvent (w, l) = (Unit, (None, l @ (case w of None \<Rightarrow> [] | Some ws \<Rightarrow> map snd ws)))"

fun spec_events :: "event_op list \<Rightarrow> event_spec \<Rightarrow> event_result list \<times> event_spec" where
  "spec_events [] a = ([], a)"
| "spec_events (x # xs) a = (let (r, a) = spec_event x a; (rs, a) = spec_events xs a in (r # rs, a))"

text \<open>A node is an address, and not in use.\<close>

fun event_op_ok :: "event_op \<Rightarrow> event_spec \<Rightarrow> bool" where
  "event_op_ok (AwaitEvent t me Outer) (w, l) \<longleftrightarrow> 1 < me \<and> (case w of None \<Rightarrow> True | Some ws \<Rightarrow> me \<notin> fst ` set ws)"
| "event_op_ok _ _ \<longleftrightarrow> True"

fun event_ops_ok :: "event_op list \<Rightarrow> event_spec \<Rightarrow> bool" where
  "event_ops_ok [] a \<longleftrightarrow> True"
| "event_ops_ok (x # xs) a \<longleftrightarrow> event_op_ok x a \<and> event_ops_ok xs (snd (spec_event x a))"

fun shows_event :: "manual_reset_event \<Rightarrow> event_spec \<Rightarrow> bool" where
  "shows_event (h, s) (None, l) \<longleftrightarrow> h = READY \<and> concat (map unbatch (posts s)) = l"
| "shows_event (h, s) (Some ws, l) \<longleftrightarrow> h \<noteq> READY \<and> chain (nodes s) (as_node h) (map fst ws) \<and> distinct (map fst ws)
     \<and> map (wake_post s) (map fst ws) = map snd ws \<and> concat (map unbatch (posts s)) = l"

lemma shows_event_empty: "shows_event (h, s) (Some [], l) \<longleftrightarrow> h = NOT_READY \<and> concat (map unbatch (posts s)) = l"
  by (auto simp: as_node_def NOT_READY_def READY_def)

lemma shows_event_head:
  assumes "shows_event (h, s) (Some ((n, w) # ws), l)"
  shows "h = n" "h \<noteq> NOT_READY" "h \<noteq> READY" "wake_post s n = w" "chain (nodes s) (nxt (nodes s n)) (map fst ws)"
    "map (wake_post s) (map fst ws) = map snd ws"
  using assms by (auto simp: as_node_def NOT_READY_def split: if_splits)

lemma set_shows:
  assumes "shows_event (h, s) (Some ws, l)"
  shows "\<exists>s'. manual_set (h, s) = Some (length ws, (READY, s')) \<and> shows_event (READY, s') (None, l @ map snd ws)"
proof -
  have c: "chain (nodes s) (as_node h) (map fst ws)" using assms by simp
  from wake_waiters_in_batches_spec [OF c] obtain s' bs
    where "wake_waiters_in_batches (as_node h) s = Some (length ws, s')" "posts s' = posts s @ bs"
      "concat (map unbatch bs) = map snd ws" using assms by auto
  then show ?thesis using assms by (auto simp: manual_set_def)
qed

lemma co_set_shows:
  assumes "shows_event (h, s) (Some ((n, w) # ws), l)"
  shows "\<exists>e'. run_event (CoSet t Outer) (h, s) = Some (fst (spec_event (CoSet t Outer) (Some ((n, w) # ws), l)), e')
    \<and> shows_event e' (snd (spec_event (CoSet t Outer) (Some ((n, w) # ws), l)))"
proof -
  note f = shows_event_head [OF assms]
  from wake_waiters_in_batches_spec [OF f(5)] obtain s' bs
    where s': "wake_waiters_in_batches (nxt (nodes s n)) s = Some (length ws, s')" "posts s' = posts s @ bs"
      "same_queue s s'" "concat (map unbatch bs) = map snd ws" using f(6) by auto
  have w: "w = (continuation_executor (nodes s n), continuation_priority (nodes s n), [continuation (nodes s n)])"
    using f(4) by (simp add: wake_post_def Let_def)
  have "nodes s' = nodes s" using s'(3) by (simp add: same_queue_def)
  then show ?thesis
    using f(1-3) s'(1,2,4) assms unfolding w
    by (auto simp: manual_co_set_def try_symmetric_transfer_def exec_prio_is_def resume_def post_def Let_def)
qed

lemma await_shows:
  assumes "shows_event (h, s) (Some ws, l)" and "1 < me" and "me \<notin> fst ` set ws"
  shows "\<exists>s'. manual_await_suspend t me Outer (h, s) = (True, (me, s'))
    \<and> shows_event (me, s') (Some ((me, fst t, snd t, [Outer]) # ws), l)"
proof -
  let ?node = "\<lparr>nxt = as_node h, continuation = Outer, continuation_executor = fst t, continuation_priority = snd t\<rparr>"
  let ?s = "s\<lparr>nodes := (nodes s)(me := ?node)\<rparr>"
  have "map (wake_post ?s) (map fst ws) = map (wake_post s) (map fst ws)"
    using assms(3) by (auto simp: wake_post_def)
  moreover have "chain (nodes ?s) (as_node h) (map fst ws)" using assms by (simp add: chain_upd)
  moreover have "wake_post ?s me = (fst t, snd t, [Outer])" by (simp add: wake_post_def)
  ultimately have "shows_event (me, ?s) (Some ((me, fst t, snd t, [Outer]) # ws), l)"
    using assms by (auto simp: as_node_def READY_def)
  moreover have "manual_await_suspend t me Outer (h, s) = (True, (me, ?s))" using assms(1) by (simp add: manual_await_suspend_def)
  ultimately show ?thesis by blast
qed

lemma run_event_refines:
  assumes "shows_event e a" and "event_op_ok x a"
  shows "\<exists>e'. run_event x e = Some (fst (spec_event x a), e') \<and> shows_event e' (snd (spec_event x a))"
proof -
  obtain h s w l where e: "e = (h, s)" "a = (w, l)" by (cases e, cases a)
  show ?thesis
  proof (cases w)
    case None
    then show ?thesis using assms unfolding e
      by (cases x) (auto simp: manual_is_set_def manual_reset_def manual_set_def manual_co_set_def manual_await_suspend_def
          manual_waiter_count_def manual_destroy_def as_node_def NOT_READY_def READY_def)
  next
    case (Some ws)
    have sh: "shows_event (h, s) (Some ws, l)" using assms(1) e Some by simp
    have ready: "READY \<noteq> h" using sh by auto
    show ?thesis
    proof (cases x)
      case (CoSet t Outer)
      show ?thesis
      proof (cases ws)
        case Nil
        then have "h = NOT_READY" "concat (map unbatch (posts s)) = l" using sh by (simp_all only: shows_event_empty)
        then show ?thesis using CoSet Some Nil unfolding e by (auto simp: manual_co_set_def)
      next
        case (Cons y ys)
        obtain n v where y: "y = (n, v)" by (cases y)
        show ?thesis using co_set_shows [of h s n v ys l] sh unfolding e CoSet Some Cons y by simp
      qed
    next
      case (AwaitEvent t me Outer)
      then show ?thesis using await_shows [OF sh, of me t Outer] assms(2) unfolding e Some by auto
    next
      case WaiterCount
      have "length_loop (as_node h) 0 s = Some (length ws)" using length_loop_chain [of s "as_node h" "map fst ws" 0] sh by simp
      moreover have "ws = []" if "h = 0" using sh that by (cases ws) (simp_all add: as_node_def)
      ultimately show ?thesis using sh ready WaiterCount unfolding e Some
        by (cases "h = NOT_READY") (auto simp: manual_waiter_count_def NOT_READY_def as_node_def)
    next
      case SetEvent
      then show ?thesis using set_shows [OF sh] unfolding e Some by auto
    next
      case DestroyEvent
      then show ?thesis using set_shows [OF sh] unfolding e Some by (auto simp: manual_destroy_def)
    qed (use sh ready e Some in \<open>auto simp: manual_is_set_def manual_reset_def\<close>)
  qed
qed

lemma run_events_refine:
  "shows_event e a \<Longrightarrow> event_ops_ok xs a \<Longrightarrow>
    \<exists>e'. run_events xs e = Some (fst (spec_events xs a), e') \<and> shows_event e' (snd (spec_events xs a))"
proof (induction xs arbitrary: e a)
  case (Cons x xs)
  obtain r a' where a': "spec_event x a = (r, a')" by (cases "spec_event x a")
  from run_event_refines [OF Cons.prems(1), of x] Cons.prems(2) obtain e'
    where e': "run_event x e = Some (r, e')" "shows_event e' a'" by (auto simp: a')
  then show ?case using Cons.IH [of e' a'] Cons.prems(2) by (auto simp: a' split_def Let_def)
qed simp

text \<open>
  C26: The manual-reset event refines a flag or a stack of waiters, for every sequence of calls: \<open>set\<close>, \<open>co_set\<close> and
  the destructor leave the event set and resume each waiter exactly once, on its own executor and priority.  \<open>set\<close> and the
  destructor post the newest first.  \<open>co_set\<close> posts the others first, newest first, and then deals with the newest: if
  that one runs where the caller does, it transfers to it and posts the caller, else it posts it, as the last.  An await
  suspends exactly while the event is not set; \<open>reset\<close> keeps the waiters; no call follows a null pointer.
\<close>

theorem manual_event_refines:
  assumes "event_ops_ok xs (if b then None else Some [], concat (map unbatch (posts s)))"
  shows "\<exists>e'. run_events xs (manual_new b s)
      = Some (fst (spec_events xs (if b then None else Some [], concat (map unbatch (posts s)))), e')
    \<and> shows_event e' (snd (spec_events xs (if b then None else Some [], concat (map unbatch (posts s)))))"
proof (rule run_events_refine)
  show "shows_event (manual_new b s) (if b then None else Some [], concat (map unbatch (posts s)))"
    by (simp add: manual_new_def shows_event_empty del: shows_event.simps(2))
qed (rule assms)

definition bare_heap :: waiter_data where
  "bare_heap = \<lparr>nodes = (\<lambda>_. \<lparr>nxt = None, continuation = 0, continuation_executor = 0, continuation_priority = 0\<rparr>),
     in_stack = None, out_list = None, vword = 0, posts = []\<rparr>"

theorem manual_event_refines_witness:
  "\<exists>e'. run_events [AwaitEvent (1, 0) 5 50, AwaitEvent (2, 0) 6 60, CoSet (2, 0) 70, IsSet] (manual_new False bare_heap)
      = Some ([Flag True, Flag True, Resumes 2 60, Flag True], e')
    \<and> shows_event e' (None, [(1, 0, [50]), (2, 0, [70])])"
proof -
  let ?xs = "[AwaitEvent (1, 0) 5 50, AwaitEvent (2, 0) 6 60, CoSet (2, 0) 70, IsSet]"
  have log: "concat (map unbatch (posts bare_heap)) = []" by (simp add: bare_heap_def)
  have ok: "event_ops_ok ?xs (if False then None else Some [], [])" by simp
  have spec: "spec_events ?xs (Some [], []) = ([Flag True, Flag True, Resumes 2 60, Flag True], (None, [(1, 0, [50]), (2, 0, [70])]))"
    by (simp add: numeral_eq_Suc)
  show ?thesis using manual_event_refines [of ?xs False bare_heap] ok unfolding log by (simp only: spec if_False fst_conv snd_conv)
qed

end
