(* ===== verification/LatchBarrier.thy ===== *)
theory LatchBarrier
  imports ManualEvent JoinGroup
begin

text \<open>
  The latch and the barrier (\<open>src/include/tmc/latch.hpp\<close>, \<open>barrier.hpp\<close>, \<open>detail/barrier.ipp\<close>) as machines whose
  steps are the atomic accesses of any number of threads.  A latch is a counter and a manual-reset event.
\<close>

section \<open>The latch\<close>

text \<open>
  A thread of the machine is a coroutine; its awaiter has the address below.  \<open>Waking h\<close> walks the chain that \<open>set\<close>
  exchanged for \<open>READY\<close>; it reads the next pointer of a node before it resumes the node's coroutine.
\<close>

definition awaiter_of :: "nat \<Rightarrow> nat" where "awaiter_of a = a + 2"

datatype latch_pc =
    LatchIdle
  | PushCas nat      \<comment> \<open>\<open>me.next\<close> is stored; before the compare-exchange that expects this head\<close>
  | Suspended
  | Setting          \<comment> \<open>\<open>count_down\<close> has made the latch ready; before the exchange in \<open>set\<close>\<close>
  | Waking nat       \<comment> \<open>\<open>wake_waiters_in_batches\<close> of the rest of the chain\<close>

record latch =
  event_head :: nat
  link :: "nat \<Rightarrow> nat"
  latch_count :: size_t
  latch_at :: "nat \<Rightarrow> latch_pc"
  downs :: nat                \<comment> \<open>history: calls of \<open>count_down\<close>\<close>
  released :: "nat list"      \<comment> \<open>history: awaits that have returned\<close>
  chained :: "nat list"       \<comment> \<open>history: the awaiters suspended, the newest first\<close>

definition latch_new :: "size_t \<Rightarrow> (nat \<Rightarrow> nat) \<Rightarrow> latch" where
  "latch_new N l = \<lparr>event_head = (if sint N \<le> 0 then READY else NOT_READY), link = l, latch_count = N - 1,
     latch_at = (\<lambda>_. LatchIdle), downs = 0, released = [], chained = []\<rparr>"

definition latch_is_ready :: "latch \<Rightarrow> bool" where
  "latch_is_ready s \<longleftrightarrow> sint (latch_count s) < 0"

definition latch_goto :: "nat \<Rightarrow> latch_pc \<Rightarrow> latch \<Rightarrow> latch" where
  "latch_goto a pc s = s\<lparr>latch_at := (latch_at s)(a := pc)\<rparr>"

definition count_down :: "nat \<Rightarrow> latch \<Rightarrow> latch" where
  "count_down a s = (let remaining = sint (latch_count s)
     in latch_goto a (if remaining \<le> 0 then Setting else LatchIdle)
          (s\<lparr>latch_count := latch_count s - 1, downs := downs s + 1\<rparr>))"

definition exchange_ready :: "nat \<Rightarrow> latch \<Rightarrow> latch" where
  "exchange_ready a s =
    latch_goto a (if READY = event_head s then LatchIdle else Waking (event_head s)) (s\<lparr>event_head := READY\<rparr>)"

text \<open>What \<open>await_suspend\<close> does with the head it has read.\<close>

definition see_head :: "nat \<Rightarrow> latch \<Rightarrow> latch" where
  "see_head a s = (let h = event_head s
     in if READY = h then latch_goto a LatchIdle (s\<lparr>released := released s @ [a]\<rparr>)
        else latch_goto a (PushCas h) (s\<lparr>link := (link s)(awaiter_of a := h)\<rparr>))"

inductive latch_step :: "latch \<Rightarrow> latch \<Rightarrow> bool" where
  down: "latch_at s a = LatchIdle \<Longrightarrow> downs s < 2 ^ 62 \<Longrightarrow> latch_step s (count_down a s)"
| set_exchange: "latch_at s a = Setting \<Longrightarrow> latch_step s (exchange_ready a s)"
| wake: "latch_at s a = Waking (awaiter_of b) \<Longrightarrow>
    latch_step s (latch_goto b LatchIdle (latch_goto a (Waking (link s (awaiter_of b)))
      (s\<lparr>released := released s @ [b], chained := tl (chained s)\<rparr>)))"
| wake_end: "latch_at s a = Waking 0 \<Longrightarrow> latch_step s (latch_goto a LatchIdle s)"
| await_load: "latch_at s a = LatchIdle \<Longrightarrow> latch_step s (see_head a s)"
| await_ok: "latch_at s a = PushCas h \<Longrightarrow> event_head s = h \<Longrightarrow>
    latch_step s (latch_goto a Suspended (s\<lparr>event_head := awaiter_of a, chained := awaiter_of a # chained s\<rparr>))"
| await_fail: "latch_at s a = PushCas h \<Longrightarrow> event_head s \<noteq> h \<Longrightarrow> latch_step s (see_head a s)"

inductive latch_reachable :: "size_t \<Rightarrow> latch \<Rightarrow> bool" for N where
  start: "latch_reachable N (latch_new N l)"
| step: "latch_reachable N s \<Longrightarrow> latch_step s s' \<Longrightarrow> latch_reachable N s'"

subsection \<open>Its invariant\<close>

fun linked :: "(nat \<Rightarrow> nat) \<Rightarrow> nat \<Rightarrow> nat list \<Rightarrow> bool" where
  "linked l h [] \<longleftrightarrow> h = 0"
| "linked l h (x # xs) \<longleftrightarrow> h = x \<and> 1 < x \<and> linked l (l x) xs"

lemma linked_upd [simp]: "x \<notin> set xs \<Longrightarrow> linked (l(x := y)) h xs = linked l h xs"
  by (induction xs arbitrary: h) auto

lemma linked_not_ready: "linked l h xs \<Longrightarrow> h \<noteq> READY"
  by (cases xs) (auto simp: READY_def)

lemma linked_zero: "linked l h xs \<Longrightarrow> h = 0 \<longleftrightarrow> xs = []"
  by (cases xs) auto

definition wakers :: "latch \<Rightarrow> (nat \<times> nat) set" where
  "wakers s = {(a, h). latch_at s a = Waking h \<and> h \<noteq> 0}"

text \<open>\<open>counted\<close>: the counter; \<open>parked\<close>: the suspended coroutines; \<open>open_to\<close> and \<open>shut\<close>: the latch released or not.\<close>

definition counted :: "int \<Rightarrow> latch \<Rightarrow> bool" where
  "counted K s \<longleftrightarrow> latch_count s = of_int (K - 1 - int (downs s)) \<and> downs s \<le> 2 ^ 62
     \<and> (\<forall>a. latch_at s a = Setting \<longrightarrow> K \<le> int (downs s))"

definition parked :: "latch \<Rightarrow> bool" where
  "parked s \<longleftrightarrow> distinct (chained s) \<and> set (chained s) = awaiter_of ` {a. latch_at s a = Suspended}
     \<and> (\<forall>a h. latch_at s a = PushCas h \<longrightarrow> h \<noteq> READY \<and> link s (awaiter_of a) = h)"

definition open_to :: "int \<Rightarrow> latch \<Rightarrow> bool" where
  "open_to K s \<longleftrightarrow> event_head s = READY \<and> K \<le> int (downs s)
     \<and> (chained s = [] \<and> wakers s = {} \<or> (\<exists>a h. wakers s = {(a, h)} \<and> linked (link s) h (chained s)))"

definition shut :: "int \<Rightarrow> latch \<Rightarrow> bool" where
  "shut K s \<longleftrightarrow> linked (link s) (event_head s) (chained s) \<and> wakers s = {} \<and> released s = []
     \<and> (K \<le> int (downs s) \<longrightarrow> (\<exists>a. latch_at s a = Setting))"

definition latch_inv :: "int \<Rightarrow> latch \<Rightarrow> bool" where
  "latch_inv K s \<longleftrightarrow> counted K s \<and> parked s \<and> (open_to K s \<or> shut K s)"

lemma awaiter_inject [simp]: "awaiter_of a = awaiter_of b \<longleftrightarrow> a = b"
  by (simp add: awaiter_of_def)

lemma awaiter_address [simp]: "1 < awaiter_of a" "awaiter_of a \<noteq> READY" "0 < awaiter_of a" "awaiter_of a \<noteq> 0" "Suc 0 < awaiter_of a"
  by (simp_all add: awaiter_of_def READY_def)

lemma latch_goto_sel [simp]:
  "event_head (latch_goto a pc s) = event_head s" "link (latch_goto a pc s) = link s"
  "latch_count (latch_goto a pc s) = latch_count s" "downs (latch_goto a pc s) = downs s"
  "released (latch_goto a pc s) = released s" "chained (latch_goto a pc s) = chained s"
  "latch_at (latch_goto a pc s) = (latch_at s)(a := pc)"
  by (simp_all add: latch_goto_def)

lemma shut_head: "shut K s \<Longrightarrow> event_head s \<noteq> READY"
  using linked_not_ready by (auto simp: shut_def)

text \<open>A thread that neither is nor becomes suspended or a waker.\<close>

definition resting :: "latch_pc \<Rightarrow> bool" where
  "resting pc \<longleftrightarrow> pc \<noteq> Suspended \<and> (\<forall>h. pc = Waking h \<longrightarrow> h = 0)"

lemma parked_move:
  assumes "parked s" and "resting (latch_at s a)" and "resting pc"
    and "latch_at s' = (latch_at s)(a := pc)" and "chained s' = chained s"
    and "\<And>h. pc = PushCas h \<Longrightarrow> h \<noteq> READY \<and> link s' (awaiter_of a) = h"
    and "\<And>b. b \<noteq> a \<Longrightarrow> link s' (awaiter_of b) = link s (awaiter_of b)"
  shows "parked s'"
proof -
  have "{b. latch_at s' b = Suspended} = {b. latch_at s b = Suspended}" using assms(2-4) by (auto simp: resting_def)
  then show ?thesis using assms unfolding parked_def by auto
qed

lemma wakers_move:
  assumes "resting (latch_at s a)" and "resting pc" and "latch_at s' = (latch_at s)(a := pc)"
  shows "wakers s' = wakers s"
  using assms by (auto simp: wakers_def resting_def split: if_splits)

lemma linked_own:
  assumes "parked s" and "latch_at s a \<noteq> Suspended" and "linked (link s) h (chained s)"
  shows "linked ((link s)(awaiter_of a := x)) h (chained s)"
proof -
  have "awaiter_of a \<notin> set (chained s)" using assms(1,2) by (auto simp: parked_def)
  then show ?thesis using assms(3) by simp
qed

lemma gate_move:
  assumes I: "latch_inv K s" and old: "resting (latch_at s a)" and pc: "resting pc"
    and s': "latch_at s' = (latch_at s)(a := pc)" "chained s' = chained s" "event_head s' = event_head s"
      "downs s' = downs s" "link s' = link s \<or> link s' = (link s)(awaiter_of a := x)"
    and rel: "released s' = released s \<or> event_head s = READY" and set': "latch_at s a \<noteq> Setting"
  shows "open_to K s' \<or> shut K s'"
proof -
  have p: "parked s" "latch_at s a \<noteq> Suspended" using I old by (auto simp: latch_inv_def resting_def)
  have l: "linked (link s') h (chained s')" if "linked (link s) h (chained s)" for h
    using linked_own [OF p that] that s'(2,5) by auto
  have w: "wakers s' = wakers s" by (rule wakers_move [OF old pc s'(1)])
  consider "open_to K s" | "shut K s" using I by (auto simp: latch_inv_def)
  then show ?thesis
  proof cases
    case 1
    then show ?thesis using l w s'(2-4) unfolding open_to_def by metis
  next
    case 2
    then have "released s' = released s" using rel shut_head by blast
    moreover have "\<exists>b. latch_at s' b = Setting" if "\<exists>b. latch_at s b = Setting"
      using that set' s'(1) by (metis fun_upd_apply)
    ultimately show ?thesis using 2 l w s'(2-4) unfolding shut_def by auto
  qed
qed

lemma see_head_inv:
  assumes I: "latch_inv K s" and old: "resting (latch_at s a)" and set': "latch_at s a \<noteq> Setting"
  shows "latch_inv K (see_head a s)"
proof (cases "event_head s = READY")
  case True
  then have e: "see_head a s = latch_goto a LatchIdle (s\<lparr>released := released s @ [a]\<rparr>)" by (simp add: see_head_def)
  show ?thesis unfolding latch_inv_def e
  proof (intro conjI)
    show "open_to K (latch_goto a LatchIdle (s\<lparr>released := released s @ [a]\<rparr>))
        \<or> shut K (latch_goto a LatchIdle (s\<lparr>released := released s @ [a]\<rparr>))"
      by (rule gate_move [OF I old, of LatchIdle]) (use set' True in \<open>simp_all add: resting_def\<close>)
    show "parked (latch_goto a LatchIdle (s\<lparr>released := released s @ [a]\<rparr>))"
      by (rule parked_move [of s a LatchIdle]) (use I old in \<open>simp_all add: resting_def latch_inv_def\<close>)
  qed (use I in \<open>auto simp: latch_inv_def counted_def\<close>)
next
  case False
  let ?s = "latch_goto a (PushCas (event_head s)) (s\<lparr>link := (link s)(awaiter_of a := event_head s)\<rparr>)"
  have e: "see_head a s = ?s" using False by (simp add: see_head_def Let_def)
  show ?thesis unfolding latch_inv_def e
  proof (intro conjI)
    show "open_to K ?s \<or> shut K ?s"
      by (rule gate_move [OF I old, of "PushCas (event_head s)" _ "event_head s"]) (use set' in \<open>simp_all add: resting_def\<close>)
    show "parked ?s"
      by (rule parked_move [of s a "PushCas (event_head s)"]) (use I old False in \<open>simp_all add: resting_def latch_inv_def\<close>)
  qed (use I in \<open>auto simp: latch_inv_def counted_def\<close>)
qed

lemma counter_value:
  assumes "\<bar>K\<bar> \<le> 2 ^ 61" and "0 \<le> d" and "d \<le> 2 ^ 62"
  shows "sint (of_int (K - 1 - d) :: size_t) = K - 1 - d"
  by (rule sint_of_int_64) (use abs_le_D1 [OF assms(1)] abs_le_D2 [OF assms(1)] assms(2,3) in simp_all)

lemma count_down_inv:
  assumes I: "latch_inv K s" and pc: "latch_at s a = LatchIdle" and d: "downs s < 2 ^ 62" and K: "\<bar>K\<bar> \<le> 2 ^ 61"
  shows "latch_inv K (count_down a s)"
proof -
  have c: "latch_count s = of_int (K - 1 - int (downs s))" using I by (simp add: latch_inv_def counted_def)
  have "int (downs s) \<le> 2 ^ 62" using d by simp
  then have si: "sint (latch_count s) = K - 1 - int (downs s)" unfolding c by (rule counter_value [OF K of_nat_0_le_iff])
  let ?pc = "if K - 1 - int (downs s) \<le> 0 then Setting else LatchIdle"
  let ?s = "latch_goto a ?pc (s\<lparr>latch_count := latch_count s - 1, downs := downs s + 1\<rparr>)"
  have e: "count_down a s = ?s" by (simp add: count_down_def si Let_def)
  have w: "wakers ?s = wakers s" by (rule wakers_move [of s a ?pc]) (simp_all add: pc resting_def)
  show ?thesis unfolding latch_inv_def e
  proof (intro conjI)
    show "counted K ?s" using I d c by (auto simp: latch_inv_def counted_def)
    show "parked ?s" by (rule parked_move [of s a ?pc]) (use I pc in \<open>auto simp: resting_def latch_inv_def split: if_splits\<close>)
    consider "open_to K s" | "shut K s" using I by (auto simp: latch_inv_def)
    then show "open_to K ?s \<or> shut K ?s"
    proof cases
      case 1
      then have "open_to K ?s" unfolding open_to_def w by simp
      then show ?thesis ..
    next
      case 2
      have "\<exists>b. latch_at ?s b = Setting" if "K \<le> int (downs s + 1)"
        using that by (intro exI [of _ a]) simp
      then have "shut K ?s" using 2 unfolding shut_def w by simp
      then show ?thesis ..
    qed
  qed
qed

lemma exchange_inv:
  assumes I: "latch_inv K s" and pc: "latch_at s a = Setting"
  shows "latch_inv K (exchange_ready a s)"
proof -
  let ?pc = "if READY = event_head s then LatchIdle else Waking (event_head s)"
  let ?s = "latch_goto a ?pc (s\<lparr>event_head := READY\<rparr>)"
  have k: "K \<le> int (downs s)" using I pc by (auto simp: latch_inv_def counted_def)
  have "{b. latch_at ?s b = Suspended} = {b. latch_at s b = Suspended}" using pc by auto
  then have p: "parked ?s" using I pc by (auto simp: latch_inv_def parked_def)
  have "open_to K ?s"
  proof (cases "open_to K s")
    case True
    then have "wakers ?s = wakers s" by (intro wakers_move [of s a ?pc]) (simp_all add: pc resting_def open_to_def)
    then show ?thesis using True k by (simp add: open_to_def)
  next
    case False
    then have sh: "shut K s" using I by (simp add: latch_inv_def)
    have z: "k = 0" if "latch_at s c = Waking k" for c k using sh that by (auto simp: shut_def wakers_def)
    have w: "wakers ?s = (if event_head s = 0 then {} else {(a, event_head s)})"
      using sh shut_head [OF sh] pc by (auto simp: wakers_def shut_def split: if_splits dest: z)
    show ?thesis using sh k linked_zero [of "link s" "event_head s" "chained s"] unfolding open_to_def w by (auto simp: shut_def)
  qed
  then show ?thesis using I p by (auto simp: exchange_ready_def latch_inv_def counted_def)
qed

lemma wake_inv:
  assumes I: "latch_inv K s" and pc: "latch_at s a = Waking (awaiter_of b)"
    and s': "s' = latch_goto b LatchIdle (latch_goto a (Waking (link s (awaiter_of b)))
      (s\<lparr>released := released s @ [b], chained := tl (chained s)\<rparr>))"
  shows "latch_inv K s'"
proof -
  have w: "(a, awaiter_of b) \<in> wakers s" using pc by (simp add: wakers_def)
  then have o: "open_to K s" "wakers s = {(a, awaiter_of b)}" "linked (link s) (awaiter_of b) (chained s)"
    using I by (auto simp: latch_inv_def open_to_def shut_def)
  then obtain xs where xs: "chained s = awaiter_of b # xs" "linked (link s) (link s (awaiter_of b)) xs"
    using o(3) by (cases "chained s") simp_all
  have park: "distinct (chained s)" "set (chained s) = awaiter_of ` {c. latch_at s c = Suspended}"
    using I by (auto simp: latch_inv_def parked_def)
  have "awaiter_of b \<in> awaiter_of ` {c. latch_at s c = Suspended}" unfolding park(2) [symmetric] xs(1) by simp
  then have b: "latch_at s b = Suspended" by auto
  then have ab: "a \<noteq> b" using pc by auto
  have at: "latch_at s' = (latch_at s)(a := Waking (link s (awaiter_of b)), b := LatchIdle)" by (simp add: s')
  have "{c. latch_at s' c = Suspended} = {c. latch_at s c = Suspended} - {b}" using at pc ab by auto
  moreover have "inj awaiter_of" by (simp add: inj_def)
  ultimately have "awaiter_of ` {c. latch_at s' c = Suspended} = set (chained s) - {awaiter_of b}"
    by (simp add: image_set_diff park(2))
  then have "awaiter_of ` {c. latch_at s' c = Suspended} = set xs" using park(1) xs(1) by simp
  then have p: "parked s'" using I park(1) xs(1) unfolding latch_inv_def parked_def by (auto simp: s')
  have only: "c = a" if "latch_at s c = Waking k" "0 < k" for c k
  proof -
    have "(c, k) \<in> wakers s" using that by (simp add: wakers_def)
    then show ?thesis using o(2) by simp
  qed
  have "wakers s' = (if link s (awaiter_of b) = 0 then {} else {(a, link s (awaiter_of b))})"
    using ab unfolding wakers_def at by (auto split: if_splits dest: only)
  then have "open_to K s'"
    using o(1) xs linked_zero [OF xs(2)] by (auto simp: open_to_def s')
  then show ?thesis using I p by (auto simp: latch_inv_def counted_def s')
qed

lemma await_ok_inv:
  assumes I: "latch_inv K s" and pc: "latch_at s a = PushCas (event_head s)"
    and s': "s' = latch_goto a Suspended (s\<lparr>event_head := awaiter_of a, chained := awaiter_of a # chained s\<rparr>)"
  shows "latch_inv K s'"
proof -
  have h: "event_head s \<noteq> READY" "link s (awaiter_of a) = event_head s" using I pc by (auto simp: latch_inv_def parked_def)
  then have sh: "shut K s" using I by (auto simp: latch_inv_def open_to_def)
  have "{c. latch_at s' c = Suspended} = insert a {c. latch_at s c = Suspended}" by (auto simp: s')
  then have p: "parked s'" using I pc unfolding latch_inv_def parked_def by (auto simp: s')
  have w: "wakers s' = wakers s" using pc by (auto simp: wakers_def s' split: if_splits)
  have "\<exists>c. latch_at s' c = Setting" if "\<exists>c. latch_at s c = Setting"
  proof -
    from that obtain c where c: "latch_at s c = Setting" ..
    then have "c \<noteq> a" using pc by auto
    then show ?thesis using c by (intro exI [of _ c]) (simp add: s')
  qed
  then have "shut K s'" using sh h(2) unfolding shut_def w by (auto simp: s')
  then show ?thesis using I p by (auto simp: latch_inv_def counted_def s')
qed

lemma latch_step_inv:
  assumes "latch_step s s'" and I: "latch_inv K s" and K: "\<bar>K\<bar> \<le> 2 ^ 61"
  shows "latch_inv K s'"
  using assms(1)
proof cases
  case (down a)
  then show ?thesis using count_down_inv [OF I _ _ K] by simp
next
  case (set_exchange a)
  then show ?thesis using exchange_inv [OF I] by simp
next
  case (wake a b)
  show ?thesis by (rule wake_inv [OF I wake(2,1)])
next
  case (wake_end a)
  have "open_to K s' \<or> shut K s'"
    by (rule gate_move [OF I, of a LatchIdle]) (use wake_end in \<open>simp_all add: resting_def\<close>)
  moreover have "parked s'"
    by (rule parked_move [of s a LatchIdle]) (use wake_end I in \<open>simp_all add: resting_def latch_inv_def\<close>)
  ultimately show ?thesis using I wake_end by (auto simp: latch_inv_def counted_def)
next
  case (await_load a)
  then show ?thesis using see_head_inv [OF I, of a] by (simp add: resting_def)
next
  case (await_ok a h)
  then show ?thesis using await_ok_inv [OF I] by simp
next
  case (await_fail a h)
  then show ?thesis using see_head_inv [OF I, of a] by (simp add: resting_def)
qed

lemma latch_new_inv: "latch_inv (sint N) (latch_new N l)"
  by (auto simp: latch_inv_def counted_def parked_def open_to_def shut_def latch_new_def wakers_def READY_def NOT_READY_def)

lemma latch_reachable_inv: "latch_reachable N s \<Longrightarrow> \<bar>sint N\<bar> \<le> 2 ^ 61 \<Longrightarrow> latch_inv (sint N) s"
  by (induction rule: latch_reachable.induct) (blast intro: latch_new_inv latch_step_inv)+

text \<open>
  A latch of \<open>N\<close> opens with the \<open>N\<close>-th \<open>count_down\<close>, in every interleaving: as long as fewer calls have counted it
  down, no await returns and no waiter is resumed; and \<open>is_ready\<close> says exactly whether that many calls have been made.
\<close>

lemma latch_gate:
  assumes "latch_reachable N s" and "\<bar>sint N\<bar> \<le> 2 ^ 61"
  shows "(released s = [] \<or> sint N \<le> int (downs s)) \<and> latch_is_ready s = (sint N \<le> int (downs s))"
proof -
  have I: "latch_inv (sint N) s" by (rule latch_reachable_inv [OF assms])
  have c: "latch_count s = of_int (sint N - 1 - int (downs s))" "int (downs s) \<le> 2 ^ 62"
    using I by (auto simp: latch_inv_def counted_def)
  have "sint (latch_count s) = sint N - 1 - int (downs s)"
    unfolding c(1) by (rule counter_value [OF assms(2) _ c(2)]) simp
  moreover have "released s = [] \<or> sint N \<le> int (downs s)" using I by (auto simp: latch_inv_def open_to_def shut_def)
  ultimately show ?thesis by (auto simp: latch_is_ready_def)
qed

text \<open>
  No waiter of a latch is lost: once \<open>N\<close> calls have counted it down and every call on the latch has returned, no
  coroutine is suspended on it, even one that was reading the head while \<open>set\<close> exchanged it.
\<close>

lemma latch_no_lost_wakeup:
  assumes "latch_reachable N s" and "\<bar>sint N\<bar> \<le> 2 ^ 61" and "sint N \<le> int (downs s)"
    and "\<And>a. latch_at s a \<in> {LatchIdle, Suspended}"
  shows "{a. latch_at s a = Suspended} = {}"
proof -
  have I: "latch_inv (sint N) s" by (rule latch_reachable_inv [OF assms(1,2)])
  have none: "latch_at s a \<noteq> Setting" "latch_at s a \<noteq> Waking h" for a h using assms(4) [of a] by auto
  then have "wakers s = {}" by (simp add: wakers_def)
  then have "chained s = []" using I assms(3) none by (auto simp: latch_inv_def open_to_def shut_def)
  then show ?thesis using I by (auto simp: latch_inv_def parked_def)
qed

definition latch_run :: latch where
  "latch_run = (let s0 = latch_new 1 (\<lambda>_. 0); s1 = see_head 5 s0;
     s2 = latch_goto 5 Suspended (s1\<lparr>event_head := 7, chained := 7 # chained s1\<rparr>);
     s3 = exchange_ready 6 (count_down 6 s2)
   in latch_goto 6 LatchIdle (latch_goto 5 LatchIdle (latch_goto 6 (Waking (link s3 7))
      (s3\<lparr>released := released s3 @ [5], chained := tl (chained s3)\<rparr>))))"

lemma latch_run_reachable: "latch_reachable 1 latch_run"
proof -
  define s0 where "s0 = latch_new 1 (\<lambda>_. 0)"
  define s1 where "s1 = see_head 5 s0"
  define s2 where "s2 = latch_goto 5 Suspended (s1\<lparr>event_head := 7, chained := 7 # chained s1\<rparr>)"
  define s3 where "s3 = exchange_ready 6 (count_down 6 s2)"
  note d = s0_def s1_def s2_def s3_def latch_new_def see_head_def Let_def READY_def NOT_READY_def count_down_def
    exchange_ready_def awaiter_of_def
  have a: "awaiter_of 5 = 7" by (simp add: awaiter_of_def)
  have r0: "latch_reachable 1 s0" unfolding s0_def by (rule latch_reachable.start)
  have r1: "latch_reachable 1 s1" unfolding s1_def
    by (rule latch_reachable.step [OF r0 latch_step.await_load]) (simp add: d)
  have r2: "latch_reachable 1 s2" unfolding s2_def
    using latch_reachable.step [OF r1 latch_step.await_ok [of s1 5 0]] by (simp add: d)
  have r3: "latch_reachable 1 (count_down 6 s2)"
    by (rule latch_reachable.step [OF r2 latch_step.down]) (simp_all add: d)
  have r4: "latch_reachable 1 s3" unfolding s3_def
    by (rule latch_reachable.step [OF r3 latch_step.set_exchange]) (simp add: d)
  have "latch_at s3 6 = Waking (awaiter_of 5)" by (simp add: d)
  from latch_reachable.step [OF r4 latch_step.wake [OF this]]
  have r5: "latch_reachable 1 (latch_goto 5 LatchIdle (latch_goto 6 (Waking (link s3 7))
      (s3\<lparr>released := released s3 @ [5], chained := tl (chained s3)\<rparr>)))" unfolding a .
  show ?thesis
    using latch_reachable.step [OF r5 latch_step.wake_end [of _ 6]]
    by (simp add: latch_run_def Let_def flip: s0_def s1_def s2_def s3_def) (simp add: d)
qed

lemma latch_run_values:
  "released latch_run = [5]" "downs latch_run = 1" "latch_at latch_run = (\<lambda>_. LatchIdle)"
  by (simp_all add: latch_run_def latch_new_def see_head_def Let_def READY_def NOT_READY_def count_down_def
      exchange_ready_def awaiter_of_def fun_eq_iff)

theorem latch_gate_witness: "latch_is_ready latch_run \<and> released latch_run = [5]"
  using latch_gate [OF latch_run_reachable] latch_run_values by simp

theorem latch_no_lost_wakeup_witness: "{a. latch_at latch_run a = Suspended} = {} \<and> released latch_run = [5]"
  using latch_no_lost_wakeup [OF latch_run_reachable] latch_run_values by simp

section \<open>The barrier\<close>

text \<open>
  \<open>waiting\<close> is the chain of the waiter list (theory \<open>SyncSteps\<close> has the steps of its list), as coroutine names.
\<close>

datatype barrier_pc =
    BarrierIdle
  | Joined                   \<comment> \<open>in the list, before the decrement\<close>
  | BarrierSuspended
  | LastOne                  \<comment> \<open>the count was reached; before \<open>take_all\<close>\<close>
  | TakenAll "nat list"      \<comment> \<open>before the count is reset\<close>
  | BarrierWaking "nat list" \<comment> \<open>waking the others in batches\<close>

record barrier =
  waiting :: "nat list"
  start_count :: size_t
  done_count :: size_t
  barrier_at :: "nat \<Rightarrow> barrier_pc"
  round :: nat               \<comment> \<open>history: how often the barrier was completed\<close>
  arrivals :: "nat \<Rightarrow> nat"   \<comment> \<open>history: how often a coroutine has arrived\<close>
  departures :: "nat \<Rightarrow> nat" \<comment> \<open>history: how often it was released\<close>
  leaving :: "nat set"       \<comment> \<open>history: coroutines of the last round that are still to be released\<close>

definition barrier_new :: "size_t \<Rightarrow> barrier" where
  "barrier_new N = \<lparr>waiting = [], start_count = N - 1, done_count = N - 1, barrier_at = (\<lambda>_. BarrierIdle), round = 0,
     arrivals = (\<lambda>_. 0), departures = (\<lambda>_. 0), leaving = {}\<rparr>"

definition barrier_goto :: "nat \<Rightarrow> barrier_pc \<Rightarrow> barrier \<Rightarrow> barrier" where
  "barrier_goto a pc s = s\<lparr>barrier_at := (barrier_at s)(a := pc)\<rparr>"

text \<open>The loop that unlinks \<open>me\<close>: \<open>None\<close> if it runs off the chain.\<close>

fun unlink :: "nat \<Rightarrow> nat list \<Rightarrow> nat list option" where
  "unlink me [] = None"
| "unlink me (x # xs) = (if x = me then Some xs else map_option (Cons x) (unlink me xs))"

definition arrive :: "nat \<Rightarrow> barrier \<Rightarrow> barrier" where
  "arrive a s = barrier_goto a Joined (s\<lparr>waiting := a # waiting s, arrivals := (arrivals s)(a := arrivals s a + 1)\<rparr>)"

definition decrement :: "nat \<Rightarrow> barrier \<Rightarrow> barrier" where
  "decrement a s = (let remaining = sint (done_count s)
     in barrier_goto a (if remaining > 0 then BarrierSuspended else LastOne) (s\<lparr>done_count := done_count s - 1\<rparr>))"

definition depart :: "nat \<Rightarrow> barrier \<Rightarrow> barrier" where
  "depart a s = barrier_goto a BarrierIdle
     (s\<lparr>departures := (departures s)(a := departures s a + 1), leaving := leaving s - {a}\<rparr>)"

text \<open>The participants are \<open>0, \<dots>, P - 1\<close>.\<close>

inductive barrier_step :: "nat \<Rightarrow> barrier \<Rightarrow> barrier \<Rightarrow> bool" for P where
  arrive: "barrier_at s a = BarrierIdle \<Longrightarrow> a < P \<Longrightarrow> barrier_step P s (arrive a s)"
| decrement: "barrier_at s a = Joined \<Longrightarrow> barrier_step P s (decrement a s)"
| take_all: "barrier_at s a = LastOne \<Longrightarrow>
    barrier_step P s (barrier_goto a (TakenAll (waiting s)) (s\<lparr>waiting := [], round := round s + 1, leaving := set (waiting s)\<rparr>))"
| reset: "barrier_at s a = TakenAll ws \<Longrightarrow> unlink a ws = Some others \<Longrightarrow>
    barrier_step P s (barrier_goto a (BarrierWaking others) (s\<lparr>done_count := start_count s\<rparr>))"
| wake: "barrier_at s a = BarrierWaking (b # bs) \<Longrightarrow>
    barrier_step P s (depart b (barrier_goto a (BarrierWaking bs) s))"
| wake_end: "barrier_at s a = BarrierWaking [] \<Longrightarrow> barrier_step P s (depart a s)"

inductive barrier_reachable :: "size_t \<Rightarrow> barrier \<Rightarrow> bool" for N where
  start: "barrier_reachable N (barrier_new N)"
| step: "barrier_reachable N s \<Longrightarrow> barrier_step (max 1 (nat (sint N))) s s' \<Longrightarrow> barrier_reachable N s'"

subsection \<open>Its invariant\<close>

lemma unlink_member: "a \<in> set xs \<Longrightarrow> distinct xs \<Longrightarrow> \<exists>ys. unlink a xs = Some ys \<and> set ys = set xs - {a} \<and> distinct ys"
  by (induction xs) (auto simp: insert_Diff_if)

definition outside :: "barrier \<Rightarrow> nat \<Rightarrow> bool" where
  "outside s a \<longleftrightarrow> barrier_at s a = BarrierIdle \<and> a \<notin> set (waiting s) \<and> arrivals s a = round s \<and> departures s a = round s"

definition gathered :: "barrier \<Rightarrow> nat \<Rightarrow> bool" where
  "gathered s a \<longleftrightarrow> barrier_at s a \<in> {Joined, BarrierSuspended, LastOne} \<and> a \<in> set (waiting s)
     \<and> arrivals s a = round s + 1 \<and> departures s a = round s"

fun waker_ok :: "nat \<Rightarrow> barrier \<Rightarrow> nat \<Rightarrow> barrier_pc \<Rightarrow> bool" where
  "waker_ok P s a (TakenAll ws) \<longleftrightarrow> distinct ws \<and> set ws = {..<P} \<and> leaving s = {..<P} \<and> a < P
     \<and> (\<forall>b \<in> leaving s - {a}. barrier_at s b = BarrierSuspended)"
| "waker_ok P s a (BarrierWaking bs) \<longleftrightarrow> distinct bs \<and> a \<notin> set bs \<and> leaving s = insert a (set bs) \<and> a < P
     \<and> (\<forall>b \<in> leaving s - {a}. barrier_at s b = BarrierSuspended)"
| "waker_ok P s a LastOne \<longleftrightarrow> set (waiting s) = {..<P} \<and> a < P \<and> leaving s = {}
     \<and> (\<forall>b < P. b \<noteq> a \<longrightarrow> barrier_at s b = BarrierSuspended)"
| "waker_ok P s a _ \<longleftrightarrow> True"

definition counted_in :: "barrier \<Rightarrow> nat set" where
  "counted_in s = {a \<in> set (waiting s). barrier_at s a \<noteq> Joined}"

definition placed :: "nat \<Rightarrow> barrier \<Rightarrow> bool" where
  "placed P s \<longleftrightarrow> distinct (waiting s) \<and> set (waiting s) \<subseteq> {..<P} \<and> leaving s \<subseteq> {..<P}
     \<and> (\<forall>a. P \<le> a \<longrightarrow> barrier_at s a = BarrierIdle) \<and> (\<forall>a < P. a \<notin> leaving s \<longrightarrow> outside s a \<or> gathered s a)
     \<and> (\<forall>a \<in> leaving s. a \<notin> set (waiting s) \<and> arrivals s a = round s \<and> departures s a + 1 = round s)"

definition wakers_ok :: "nat \<Rightarrow> barrier \<Rightarrow> bool" where
  "wakers_ok P s \<longleftrightarrow> (\<forall>a. waker_ok P s a (barrier_at s a))
     \<and> (leaving s \<noteq> {} \<longrightarrow> (\<exists>a ws. barrier_at s a = TakenAll ws \<or> barrier_at s a = BarrierWaking ws))"

text \<open>Somebody has seen the count reached, if all are counted in.\<close>

definition last_seen :: "nat \<Rightarrow> barrier \<Rightarrow> bool" where
  "last_seen P s \<longleftrightarrow> counted_in s \<noteq> {..<P} \<or> (\<exists>a. barrier_at s a = LastOne)"

definition counter_ok :: "int \<Rightarrow> barrier \<Rightarrow> bool" where
  "counter_ok K s \<longleftrightarrow> start_count s = of_int (K - 1)
     \<and> ((\<exists>a ws. barrier_at s a = TakenAll ws) \<or> done_count s = of_int (K - 1 - int (card (counted_in s))))"

definition barrier_inv :: "int \<Rightarrow> nat \<Rightarrow> barrier \<Rightarrow> bool" where
  "barrier_inv K P s \<longleftrightarrow> placed P s \<and> wakers_ok P s \<and> counter_ok K s \<and> last_seen P s"

lemma placedD:
  assumes "placed P s"
  shows "distinct (waiting s)" "set (waiting s) \<subseteq> {..<P}" "leaving s \<subseteq> {..<P}" "P \<le> a \<Longrightarrow> barrier_at s a = BarrierIdle"
    "a < P \<Longrightarrow> a \<notin> leaving s \<Longrightarrow> outside s a \<or> gathered s a"
    "a \<in> leaving s \<Longrightarrow> a \<notin> set (waiting s)" "a \<in> leaving s \<Longrightarrow> arrivals s a = round s"
    "a \<in> leaving s \<Longrightarrow> departures s a + 1 = round s"
  using assms unfolding placed_def by simp_all

lemma barrier_goto_sel [simp]:
  "waiting (barrier_goto a pc s) = waiting s" "start_count (barrier_goto a pc s) = start_count s"
  "done_count (barrier_goto a pc s) = done_count s" "round (barrier_goto a pc s) = round s"
  "arrivals (barrier_goto a pc s) = arrivals s" "departures (barrier_goto a pc s) = departures s"
  "leaving (barrier_goto a pc s) = leaving s" "barrier_at (barrier_goto a pc s) = (barrier_at s)(a := pc)"
  by (simp_all add: barrier_goto_def)

text \<open>A waker excludes every other waker and every thread in a call that is not suspended.\<close>

lemma leaving_pc:
  assumes "wakers_ok P s" and "b \<in> leaving s"
  shows "barrier_at s b = BarrierSuspended \<or> (\<exists>ws. barrier_at s b = TakenAll ws \<or> barrier_at s b = BarrierWaking ws)"
proof -
  obtain a ws where a: "barrier_at s a = TakenAll ws \<or> barrier_at s a = BarrierWaking ws"
    using assms by (auto simp: wakers_ok_def)
  have "waker_ok P s a (barrier_at s a)" using assms(1) by (simp add: wakers_ok_def)
  then show ?thesis using a assms(2) by (cases "b = a") auto
qed

lemma waker_okD: "wakers_ok P s \<Longrightarrow> barrier_at s a = pc \<Longrightarrow> waker_ok P s a pc"
  by (auto simp: wakers_ok_def)

lemma only_barrier_waker:
  assumes "wakers_ok P s" and "barrier_at s a = TakenAll ws \<or> barrier_at s a = BarrierWaking ws"
  shows "a \<in> leaving s" and "b \<in> leaving s \<Longrightarrow> b \<noteq> a \<Longrightarrow> barrier_at s b = BarrierSuspended"
    and "barrier_at s c \<noteq> LastOne"
proof -
  note ok = waker_okD [OF assms(1), OF refl]
  show "a \<in> leaving s" "b \<in> leaving s \<Longrightarrow> b \<noteq> a \<Longrightarrow> barrier_at s b = BarrierSuspended"
    using ok [of a] assms(2) by auto
  then show "barrier_at s c \<noteq> LastOne" using ok [of c] by auto
qed

lemma one_waker:
  assumes "wakers_ok P s" and "barrier_at s a = TakenAll ws \<or> barrier_at s a = BarrierWaking ws"
    and "barrier_at s c = TakenAll vs \<or> barrier_at s c = BarrierWaking vs"
  shows "c = a"
proof (rule ccontr)
  assume "c \<noteq> a"
  with only_barrier_waker(2) [OF assms(1,2) only_barrier_waker(1) [OF assms(1,3)]] assms(3) show False by simp
qed

lemma placed_cases:
  assumes "placed P s" and "wakers_ok P s" and "barrier_at s a \<in> {BarrierIdle, Joined}" and "a < P"
  shows "a \<notin> leaving s" and "barrier_at s a = BarrierIdle \<Longrightarrow> outside s a" and "barrier_at s a = Joined \<Longrightarrow> gathered s a"
proof -
  show l: "a \<notin> leaving s" using leaving_pc [OF assms(2), of a] assms(3) by auto
  then have "outside s a \<or> gathered s a" using assms(1,4) by (simp add: placed_def)
  then show "barrier_at s a = BarrierIdle \<Longrightarrow> outside s a" "barrier_at s a = Joined \<Longrightarrow> gathered s a"
    by (auto simp: outside_def gathered_def)
qed

lemma not_taking:
  assumes "wakers_ok P s" and "a < P" and "a \<notin> leaving s"
  shows "barrier_at s b \<noteq> TakenAll ws"
  using waker_okD [OF assms(1), of b "TakenAll ws"] assms(2,3) by auto

lemma arrive_inv:
  assumes I: "barrier_inv K P s" and pc: "barrier_at s a = BarrierIdle" and a: "a < P"
  shows "barrier_inv K P (arrive a s)"
proof -
  have pl: "placed P s" and w: "wakers_ok P s" and c: "counter_ok K s" and f: "last_seen P s"
    using I by (auto simp: barrier_inv_def)
  let ?s = "arrive a s"
  have o: "a \<notin> leaving s" "outside s a" using placed_cases [OF pl w _ a] pc by simp_all
  have same: "barrier_at ?s = (barrier_at s)(a := Joined)" "waiting ?s = a # waiting s" "leaving ?s = leaving s"
    "round ?s = round s" "arrivals ?s = (arrivals s)(a := arrivals s a + 1)" "departures ?s = departures s"
    "start_count ?s = start_count s" "done_count ?s = done_count s"
    by (simp_all add: arrive_def)
  have "placed P ?s" using pl o a unfolding placed_def same by (auto simp: outside_def gathered_def same)
  moreover have "wakers_ok P ?s"
  proof -
    have "waker_ok P ?s b (barrier_at ?s b)" for b
      using waker_okD [OF w, of b] a o(1) pc by (cases "barrier_at s b") (auto simp: same)
    moreover have "\<exists>b ws. barrier_at ?s b = TakenAll ws \<or> barrier_at ?s b = BarrierWaking ws" if l: "leaving s \<noteq> {}"
    proof -
      obtain b ws where "barrier_at s b = TakenAll ws \<or> barrier_at s b = BarrierWaking ws"
        using w l by (auto simp: wakers_ok_def)
      then show ?thesis using pc by (intro exI [of _ b] exI [of _ ws]) (auto simp: same)
    qed
    ultimately show ?thesis by (simp add: wakers_ok_def same)
  qed
  moreover have ci: "counted_in ?s = counted_in s" using o(2) by (auto simp: counted_in_def same outside_def)
  moreover have "last_seen P ?s"
  proof -
    have "barrier_at s b \<noteq> LastOne" for b using waker_okD [OF w, of b LastOne] pc a by (cases "a = b") auto
    then show ?thesis using f by (simp add: last_seen_def ci)
  qed
  moreover have "counter_ok K ?s"
  proof -
    note ci
    moreover have "barrier_at s b \<noteq> TakenAll ws" for b ws by (rule not_taking [OF w a o(1)])
    ultimately show ?thesis using c by (simp add: counter_ok_def same)
  qed
  ultimately show ?thesis by (simp add: barrier_inv_def)
qed

lemma decrement_inv:
  assumes I: "barrier_inv K P s" and pc: "barrier_at s a = Joined" and a: "a < P"
    and K: "\<bar>K\<bar> \<le> 2 ^ 61" and P: "P = max 1 (nat K)"
  shows "barrier_inv K P (decrement a s)"
proof -
  have pl: "placed P s" and w: "wakers_ok P s" and c: "counter_ok K s" and f: "last_seen P s"
    using I by (auto simp: barrier_inv_def)
  let ?C = "counted_in s" and ?s = "decrement a s"
  have o: "a \<notin> leaving s" "gathered s a" using placed_cases [OF pl w _ a] pc by simp_all
  have nt: "barrier_at s b \<noteq> TakenAll ws" for b ws by (rule not_taking [OF w a o(1)])
  have nl: "barrier_at s b \<noteq> LastOne" for b
    using waker_okD [OF w, of b LastOne] pc a by (cases "a = b") auto
  have C: "?C \<subseteq> {..<P} - {a}" "a \<in> set (waiting s)" using pl o(2) pc by (auto simp: placed_def counted_in_def gathered_def)
  then have card: "card ?C \<le> P - 1" using card_mono [OF _ C(1)] a by simp
  have d: "done_count s = of_int (K - 1 - int (card ?C))" using c nt by (simp add: counter_ok_def)
  have "int (card ?C) \<le> 2 ^ 62" using card K by (auto simp: P)
  then have si: "sint (done_count s) = K - 1 - int (card ?C)" unfolding d by (rule counter_value [OF K of_nat_0_le_iff])
  let ?pc = "if K - 1 - int (card ?C) > 0 then BarrierSuspended else LastOne"
  have same: "barrier_at ?s = (barrier_at s)(a := ?pc)" "waiting ?s = waiting s" "leaving ?s = leaving s"
    "round ?s = round s" "arrivals ?s = arrivals s" "departures ?s = departures s"
    "start_count ?s = start_count s" "done_count ?s = done_count s - 1"
    by (simp_all add: decrement_def si Let_def)
  have C': "counted_in ?s = insert a ?C" using C(2) unfolding counted_in_def same by auto
  have all: "?C = {..<P} - {a}" if "K - 1 - int (card ?C) \<le> 0"
  proof (rule card_subset_eq [OF _ C(1)])
    show "card ?C = card ({..<P} - {a})" using card a that by (simp add: P)
  qed simp
  have "placed P ?s" using pl o a unfolding placed_def same by (auto simp: outside_def gathered_def same)
  moreover have "wakers_ok P ?s"
  proof -
    have last: "waker_ok P ?s a LastOne" if "K - 1 - int (card ?C) \<le> 0"
    proof -
      have full: "set (waiting s) = {..<P}" using all [OF that] C(2) pl by (auto simp: placed_def counted_in_def)
      then have l: "leaving s = {}" using pl by (auto simp: placed_def)
      have "barrier_at s b = BarrierSuspended" if "b < P" "b \<noteq> a" for b
      proof -
        have "b \<in> ?C" using all [OF \<open>K - 1 - int (card ?C) \<le> 0\<close>] that by simp
        moreover have "outside s b \<or> gathered s b" using pl that l by (auto simp: placed_def)
        ultimately show ?thesis using nl [of b] by (auto simp: counted_in_def outside_def gathered_def)
      qed
      then show ?thesis using full a l by (simp add: same)
    qed
    have "waker_ok P ?s b (barrier_at ?s b)" for b
    proof (cases "b = a")
      case True
      then show ?thesis using last by (auto simp: same)
    next
      case False
      then show ?thesis using waker_okD [OF w, of b] o(1) nl [of b] nt [of b] by (cases "barrier_at s b") (auto simp: same)
    qed
    moreover have "\<exists>b ws. barrier_at ?s b = TakenAll ws \<or> barrier_at ?s b = BarrierWaking ws" if l: "leaving s \<noteq> {}"
    proof -
      obtain b ws where "barrier_at s b = BarrierWaking ws"
        using w l nt by (auto simp: wakers_ok_def)
      then show ?thesis using pc by (intro exI [of _ b] exI [of _ ws]) (auto simp: same)
    qed
    ultimately show ?thesis by (simp add: wakers_ok_def same)
  qed
  moreover have "counter_ok K ?s" and "last_seen P ?s"
  proof -
    have "a \<notin> ?C" "finite ?C" using C(1) finite_subset by auto
    then have cc: "card (counted_in ?s) = card ?C + 1" unfolding C' by simp
    then show "counter_ok K ?s" using c d by (simp add: counter_ok_def same)
    have "counted_in ?s \<noteq> {..<P}" if "K - 1 - int (card ?C) > 0"
    proof
      assume "counted_in ?s = {..<P}"
      then have "card ?C + 1 = P" using cc by simp
      then show False using that by (simp add: P)
    qed
    then show "last_seen P ?s" by (auto simp: last_seen_def same)
  qed
  ultimately show ?thesis by (simp add: barrier_inv_def)
qed

lemma take_inv:
  assumes I: "barrier_inv K P s" and pc: "barrier_at s a = LastOne"
    and s': "s' = barrier_goto a (TakenAll (waiting s)) (s\<lparr>waiting := [], round := round s + 1, leaving := set (waiting s)\<rparr>)"
  shows "barrier_inv K P s'"
proof -
  have pl: "placed P s" and w: "wakers_ok P s" and c: "counter_ok K s" and f: "last_seen P s"
    using I by (auto simp: barrier_inv_def)
  have l: "set (waiting s) = {..<P}" "a < P" "leaving s = {}" "\<And>b. b < P \<Longrightarrow> b \<noteq> a \<Longrightarrow> barrier_at s b = BarrierSuspended"
    using waker_okD [OF w pc] by auto
  have same: "barrier_at s' = (barrier_at s)(a := TakenAll (waiting s))" "waiting s' = []" "leaving s' = {..<P}"
    "round s' = round s + 1" "arrivals s' = arrivals s" "departures s' = departures s" "start_count s' = start_count s"
    by (simp_all add: s' l(1))
  have "gathered s b" if "b < P" for b
  proof -
    have "outside s b \<or> gathered s b" using pl that l(3) by (simp add: placed_def)
    then show ?thesis using that l(1) by (auto simp: outside_def)
  qed
  moreover have "P \<le> b \<Longrightarrow> barrier_at s' b = BarrierIdle" for b using placedD(4) [OF pl] l(2) by (simp add: same)
  ultimately have "placed P s'" by (simp add: placed_def same gathered_def)
  moreover have "wakers_ok P s'"
  proof -
    have "waker_ok P s' b (barrier_at s' b)" for b
    proof (cases "b = a")
      case True
      then show ?thesis using l pl by (auto simp: same placed_def)
    next
      case False
      show ?thesis
      proof (cases "b < P")
        case True
        then show ?thesis using l(4) False by (simp add: same)
      next
        case False
        then show ?thesis using waker_okD [OF w refl, of b] by (cases "barrier_at s b") (auto simp: same l)
      qed
    qed
    then show ?thesis by (auto simp: wakers_ok_def same)
  qed
  moreover have "counter_ok K s'" using c by (auto simp: counter_ok_def same)
  moreover have "last_seen P s'" using l(2) by (auto simp: last_seen_def counted_in_def same)
  ultimately show ?thesis by (simp add: barrier_inv_def)
qed

lemma reset_inv:
  assumes I: "barrier_inv K P s" and pc: "barrier_at s a = TakenAll ws" and u: "unlink a ws = Some others"
    and s': "s' = barrier_goto a (BarrierWaking others) (s\<lparr>done_count := start_count s\<rparr>)"
  shows "barrier_inv K P s'"
proof -
  have pl: "placed P s" and w: "wakers_ok P s" and c: "counter_ok K s" and f: "last_seen P s"
    using I by (auto simp: barrier_inv_def)
  have l: "distinct ws" "set ws = {..<P}" "leaving s = {..<P}" "a < P" using waker_okD [OF w pc] by auto
  then have o: "set others = {..<P} - {a}" "distinct others" using unlink_member [of a ws] u by auto
  have same: "barrier_at s' = (barrier_at s)(a := BarrierWaking others)" "waiting s' = waiting s" "leaving s' = {..<P}"
    "round s' = round s" "arrivals s' = arrivals s" "departures s' = departures s" "start_count s' = start_count s"
    "done_count s' = start_count s"
    by (simp_all add: s' l(3))
  have "x \<notin> set (waiting s)" for x using placedD(2) [OF pl] placedD(6) [OF pl, of x] l(3) by auto
  then have none: "waiting s = []" by (cases "waiting s") auto
  have "placed P s'" using pl l(3,4) by (simp add: placed_def same)
  moreover have "wakers_ok P s'"
  proof -
    have "waker_ok P s' b (barrier_at s' b)" for b
    proof (cases "b = a")
      case True
      then show ?thesis using l o only_barrier_waker(2) [OF w disjI1 [OF pc]] by (auto simp: same)
    next
      case False
      then show ?thesis using only_barrier_waker(2) [OF w disjI1 [OF pc], of b] waker_okD [OF w refl, of b] l
        by (cases "barrier_at s b") (auto simp: same)
    qed
    then show ?thesis by (auto simp: wakers_ok_def same)
  qed
  moreover have "counter_ok K s'" using c none by (auto simp: counter_ok_def same counted_in_def)
  moreover have "last_seen P s'" using l(4) none by (auto simp: last_seen_def counted_in_def same)
  ultimately show ?thesis by (simp add: barrier_inv_def)
qed

text \<open>A departure, of a woken coroutine or of the waker itself.\<close>

lemma depart_inv:
  assumes I: "barrier_inv K P s" and pc: "barrier_at s a = BarrierWaking bs"
    and b: "bs = b # bs' \<and> pc' = BarrierWaking bs' \<or> bs = [] \<and> b = a"
    and s': "s' = depart b (if bs = [] then s else barrier_goto a pc' s)"
  shows "barrier_inv K P s'"
proof -
  have pl: "placed P s" and w: "wakers_ok P s" and c: "counter_ok K s" and f: "last_seen P s"
    using I by (auto simp: barrier_inv_def)
  have l: "distinct bs" "leaving s = insert a (set bs)" "a < P" "a \<notin> set bs" using waker_okD [OF w pc] by auto
  have at: "barrier_at s' = (if bs = [] then barrier_at s else (barrier_at s)(a := pc'))(b := BarrierIdle)"
    by (simp add: s' depart_def)
  have same: "waiting s' = waiting s" "leaving s' = leaving s - {b}" "round s' = round s" "arrivals s' = arrivals s"
    "departures s' = (departures s)(b := departures s b + 1)" "start_count s' = start_count s" "done_count s' = done_count s"
    by (simp_all add: s' depart_def)
  have al: "a \<in> leaving s" unfolding l(2) by simp
  have "b \<in> insert a (set bs)" using b by (elim disjE conjE) simp_all
  then have bl: "b \<in> leaving s" unfolding l(2) .
  have ne: "barrier_at s' c = barrier_at s c" if "c \<noteq> b" "c \<notin> leaving s" for c
  proof -
    have "c \<noteq> a" using that(2) al by blast
    then show ?thesis using that(1) by (simp add: at)
  qed
  have ob: "outside s' b" using placedD(6-8) [OF pl bl] by (simp add: outside_def at same)
  have keep: "outside s' c = outside s c" "gathered s' c = gathered s c" if "c \<noteq> b" "c \<notin> leaving s" for c
    using ne [OF that] that(1) by (simp_all add: outside_def gathered_def same)
  have "placed P s'" unfolding placed_def
  proof (intro conjI allI impI ballI)
    fix c assume c: "c < P" "c \<notin> leaving s'"
    show "outside s' c \<or> gathered s' c"
    proof (cases "c = b")
      case False
      then have "c \<notin> leaving s" using c(2) same(2) by simp
      then show ?thesis using keep [OF False] pl c(1) by (simp add: placed_def)
    qed (use ob in simp)
  next
    fix c assume c: "c \<in> leaving s'"
    then have "c \<in> leaving s" "c \<noteq> b" using same(2) by simp_all
    then show "c \<notin> set (waiting s')" "arrivals s' c = round s'" "departures s' c + 1 = round s'"
      using pl by (simp_all add: placed_def same)
  next
    fix c assume c: "P \<le> c"
    then have "c \<notin> leaving s" using placedD(3) [OF pl] by auto
    moreover from this have "c \<noteq> b" using bl by blast
    ultimately show "barrier_at s' c = BarrierIdle" using ne [of c] placedD(4) [OF pl c] by simp
  qed (use pl in \<open>auto simp: placed_def same\<close>)
  moreover have "wakers_ok P s'"
  proof -
    have sus: "barrier_at s c = BarrierSuspended" if "c \<in> leaving s" "c \<noteq> a" for c
      using only_barrier_waker(2) [OF w disjI2 [OF pc] that] .
    have "waker_ok P s' c (barrier_at s' c)" for c
    proof (cases "c = a \<or> c = b")
      case True
      then show ?thesis using b l sus by (auto simp: at same)
    next
      case False
      then have e: "barrier_at s' c = barrier_at s c" using at by auto
      have "barrier_at s c \<noteq> LastOne" by (rule only_barrier_waker(3) [OF w disjI2 [OF pc]])
      moreover have "barrier_at s c \<noteq> TakenAll vs" "barrier_at s c \<noteq> BarrierWaking vs" for vs
        using one_waker [OF w disjI2 [OF pc], of c vs] False by auto
      ultimately show ?thesis unfolding e by (cases "barrier_at s c") auto
    qed
    moreover have "\<exists>c ws. barrier_at s' c = TakenAll ws \<or> barrier_at s' c = BarrierWaking ws" if "leaving s' \<noteq> {}"
      using that b l by (intro exI [of _ a] exI [of _ bs']) (auto simp: at same)
    ultimately show ?thesis by (simp add: wakers_ok_def)
  qed
  moreover have "counter_ok K s'" and "last_seen P s'"
  proof -
    have nt: "barrier_at s c \<noteq> TakenAll vs" for c vs using one_waker [OF w disjI2 [OF pc], of c vs] pc by auto
    have "c \<notin> leaving s" if "c \<in> set (waiting s)" for c using pl that by (auto simp: placed_def)
    then have "barrier_at s' c = barrier_at s c" if "c \<in> set (waiting s)" for c using ne [of c] bl that by fastforce
    then have ci: "counted_in s' = counted_in s" unfolding counted_in_def same by auto
    then show "counter_ok K s'" using c nt by (simp add: counter_ok_def same)
    have "barrier_at s c \<noteq> LastOne" for c by (rule only_barrier_waker(3) [OF w disjI2 [OF pc]])
    then show "last_seen P s'" using f by (simp add: last_seen_def ci)
  qed
  ultimately show ?thesis by (simp add: barrier_inv_def)
qed

lemma barrier_step_inv:
  assumes "barrier_step P s s'" and I: "barrier_inv K P s" and K: "\<bar>K\<bar> \<le> 2 ^ 61" and P: "P = max 1 (nat K)"
  shows "barrier_inv K P s'"
  using assms(1)
proof cases
  case (arrive a)
  then show ?thesis using arrive_inv [OF I] by simp
next
  case (decrement a)
  have "a < P" using I decrement(2) by (metis barrier_inv_def barrier_pc.distinct(1) not_le placed_def)
  then show ?thesis using decrement_inv [OF I decrement(2) _ K P] decrement(1) by simp
next
  case (take_all a)
  show ?thesis by (rule take_inv [OF I take_all(2,1)])
next
  case (reset a ws others)
  show ?thesis by (rule reset_inv [OF I reset(2,3,1)])
next
  case (wake a b bs)
  show ?thesis by (rule depart_inv [OF I wake(2), of b bs "BarrierWaking bs"]) (simp_all add: wake(1))
next
  case (wake_end a)
  show ?thesis by (rule depart_inv [OF I wake_end(2), of a]) (simp_all add: wake_end(1))
qed

lemma barrier_new_inv: "0 < P \<Longrightarrow> barrier_inv (sint N) P (barrier_new N)"
  by (auto simp: last_seen_def barrier_inv_def placed_def wakers_ok_def counter_ok_def barrier_new_def outside_def counted_in_def)

lemma barrier_reachable_inv:
  "barrier_reachable N s \<Longrightarrow> \<bar>sint N\<bar> \<le> 2 ^ 61 \<Longrightarrow> barrier_inv (sint N) (max 1 (nat (sint N))) s"
  by (induction rule: barrier_reachable.induct) (auto intro: barrier_new_inv barrier_step_inv)

text \<open>
  C25: A barrier for at most \<open>2 ^ 61\<close> participants separates the rounds, in every interleaving of its participants, who may
  arrive again as soon as they are released.  \<open>round\<close> counts the rounds that are complete: everybody has arrived in each of
  them and in at most one more; everybody has been released from none beyond them and from all but at most the last;
  and each participant arrives and is released in turn.  So nobody is released from a round before everybody has arrived
  in it, and nobody arrives for a round before everybody has been released from the last but one.
\<close>

theorem barrier_rounds:
  assumes "barrier_reachable N s" and "\<bar>sint N\<bar> \<le> 2 ^ 61" and "a < max 1 (nat (sint N))" and "b < max 1 (nat (sint N))"
  shows "departures s a \<le> round s \<and> round s \<le> departures s a + 1 \<and> round s \<le> arrivals s b \<and> arrivals s b \<le> round s + 1 \<and>
    departures s a \<le> arrivals s a \<and> arrivals s a \<le> departures s a + 1 \<and>
    departures s a \<le> arrivals s b \<and> arrivals s b \<le> departures s a + 2"
proof -
  have pl: "placed (max 1 (nat (sint N))) s" using barrier_reachable_inv [OF assms(1,2)] by (simp add: barrier_inv_def)
  have ab: "outside s c \<or> gathered s c \<or> arrivals s c = round s \<and> departures s c + 1 = round s"
    if "c < max 1 (nat (sint N))" for c
    using pl that unfolding placed_def by blast
  show ?thesis using ab [OF assms(3)] ab [OF assms(4)] by (auto simp: outside_def gathered_def)
qed

text \<open>
  A barrier does not leave its participants behind: in no reachable state are they all suspended, and the last one
  to arrive always finds its own awaiter in the chain it has taken.
\<close>

lemma barrier_not_stuck:
  assumes "barrier_reachable N s" and "\<bar>sint N\<bar> \<le> 2 ^ 61"
  shows "(\<exists>a < max 1 (nat (sint N)). barrier_at s a \<noteq> BarrierSuspended)
    \<and> (\<forall>a ws. barrier_at s a \<noteq> TakenAll ws \<or> unlink a ws \<noteq> None)"
proof -
  let ?P = "max 1 (nat (sint N))"
  have I: "barrier_inv (sint N) ?P s" by (rule barrier_reachable_inv [OF assms])
  then have pl: "placed ?P s" and w: "wakers_ok ?P s" and f: "last_seen ?P s" by (auto simp: barrier_inv_def)
  show ?thesis
  proof (intro conjI allI)
    show "\<exists>a < ?P. barrier_at s a \<noteq> BarrierSuspended"
    proof (rule ccontr)
      assume "\<not> ?thesis"
      then have all: "barrier_at s a = BarrierSuspended" if "a < ?P" for a using that by blast
      have "leaving s = {}"
      proof (rule ccontr)
        assume "leaving s \<noteq> {}"
        then obtain a ws where a: "barrier_at s a = TakenAll ws \<or> barrier_at s a = BarrierWaking ws"
          using w by (auto simp: wakers_ok_def)
        then have "a < ?P" using waker_okD [OF w refl, of a] by auto
        then show False using all [of a] a by auto
      qed
      then have "a \<in> counted_in s \<longleftrightarrow> a < ?P" for a
        using placedD(2) [OF pl] placedD(5) [OF pl, of a] all [of a] by (auto simp: counted_in_def outside_def gathered_def)
      then have "counted_in s = {..<?P}" by blast
      then obtain a where a: "barrier_at s a = LastOne" using f by (auto simp: last_seen_def)
      then have "a < ?P" using waker_okD [OF w a] by simp
      then show False using all [of a] a by simp
    qed
    fix a ws
    show "barrier_at s a \<noteq> TakenAll ws \<or> unlink a ws \<noteq> None"
      using waker_okD [OF w, of a "TakenAll ws"] unlink_member [of a ws] by auto
  qed
qed

text \<open>A round of two coroutines.\<close>

definition barrier_run :: barrier where
  "barrier_run = depart 1 (depart 0 (barrier_goto 1 (BarrierWaking [])
     \<lparr>waiting = [], start_count = 1, done_count = 1, barrier_at = (\<lambda>_. BarrierIdle)(0 := BarrierSuspended, 1 := BarrierWaking [0]),
      round = 1, arrivals = (\<lambda>_. 0)(0 := 1, 1 := 1), departures = (\<lambda>_. 0), leaving = {0, 1}\<rparr>))"

lemma barrier_run_reachable: "barrier_reachable 2 barrier_run"
proof -
  have two: "sint (2 :: size_t) = 2" by simp
  define s1 where "s1 = arrive 0 (barrier_new 2)"
  define s2 where "s2 = decrement 0 s1"
  define s3 where "s3 = arrive 1 s2"
  define s4 where "s4 = decrement 1 s3"
  define s5 where "s5 = barrier_goto 1 (TakenAll (waiting s4)) (s4\<lparr>waiting := [], round := round s4 + 1, leaving := set (waiting s4)\<rparr>)"
  define s6 where "s6 = barrier_goto 1 (BarrierWaking [0]) (s5\<lparr>done_count := start_count s5\<rparr>)"
  note d = s1_def s2_def s3_def s4_def s5_def s6_def barrier_new_def arrive_def decrement_def Let_def barrier_goto_def
  have r1: "barrier_reachable 2 s1" unfolding s1_def
    by (rule barrier_reachable.step [OF barrier_reachable.start barrier_step.arrive]) (simp_all add: d two)
  have r2: "barrier_reachable 2 s2" unfolding s2_def
    by (rule barrier_reachable.step [OF r1 barrier_step.decrement]) (simp add: d)
  have r3: "barrier_reachable 2 s3" unfolding s3_def
    by (rule barrier_reachable.step [OF r2 barrier_step.arrive]) (simp_all add: d two)
  have r4: "barrier_reachable 2 s4" unfolding s4_def
    by (rule barrier_reachable.step [OF r3 barrier_step.decrement]) (simp add: d)
  have r5: "barrier_reachable 2 s5" unfolding s5_def
    by (rule barrier_reachable.step [OF r4 barrier_step.take_all]) (simp add: d)
  have r6: "barrier_reachable 2 s6" unfolding s6_def
    by (rule barrier_reachable.step [OF r5 barrier_step.reset [of s5 1 "[1, 0]"]]) (simp_all add: d)
  have r7: "barrier_reachable 2 (depart 0 (barrier_goto 1 (BarrierWaking []) s6))"
    by (rule barrier_reachable.step [OF r6 barrier_step.wake]) (simp add: d)
  have r8: "barrier_reachable 2 (depart 1 (depart 0 (barrier_goto 1 (BarrierWaking []) s6)))"
    by (rule barrier_reachable.step [OF r7 barrier_step.wake_end]) (simp add: depart_def d)
  moreover have "depart 1 (depart 0 (barrier_goto 1 (BarrierWaking []) s6)) = barrier_run"
    by (auto simp: barrier_run_def d depart_def fun_eq_iff)
  ultimately show ?thesis by simp
qed

lemma barrier_run_values: "departures barrier_run 1 = 1" "arrivals barrier_run 0 = 1" "barrier_at barrier_run = (\<lambda>_. BarrierIdle)"
  by (simp_all add: barrier_run_def depart_def barrier_goto_def fun_eq_iff)

theorem barrier_rounds_witness: "round barrier_run = 1"
  using barrier_rounds [OF barrier_run_reachable, of 1 0] barrier_run_values by simp

theorem barrier_not_stuck_witness: "\<exists>a. barrier_at barrier_run a \<noteq> BarrierSuspended"
  using barrier_not_stuck [OF barrier_run_reachable] by auto

end
