(* ===== verification/CondVar.thy ===== *)
theory CondVar
  imports SyncSteps
begin

text \<open>
  The atomic condition variable (\<open>src/include/tmc/atomic_condvar.hpp\<close>): a value that anybody may store to, and a vector
  of waiters under a mutex.  A waiter is the value it expects and where it resumes.
\<close>

section \<open>Choosing waiters\<close>

record cv_waiter =
  expected :: nat
  cv_continuation :: nat
  cv_executor :: nat
  cv_priority :: nat

text \<open>
  The index runs from \<open>size () - 1\<close> down to the wrap-around; the argument is the index plus one.  \<open>waiters[i] =
  waiters[sz - 1]; waiters.pop_back ()\<close> is \<open>drop_swap\<close>.
\<close>

definition drop_swap :: "nat \<Rightarrow> 'a list \<Rightarrow> 'a list" where
  "drop_swap i ws = butlast (ws[i := ws ! (length ws - 1)])"

fun get_one_loop :: "nat \<Rightarrow> nat \<Rightarrow> cv_waiter list \<Rightarrow> cv_waiter option \<times> cv_waiter list" where
  "get_one_loop v 0 ws = (None, ws)"
| "get_one_loop v (Suc i) ws =
    (if expected (ws ! i) \<noteq> v then (Some (ws ! i), drop_swap i ws) else get_one_loop v i ws)"

definition get_one_waiter :: "nat \<Rightarrow> cv_waiter list \<Rightarrow> cv_waiter option \<times> cv_waiter list" where
  "get_one_waiter v ws = get_one_loop v (length ws) ws"

fun get_n_loop :: "nat \<Rightarrow> nat \<Rightarrow> size_t \<Rightarrow> cv_waiter list \<Rightarrow> cv_waiter list \<Rightarrow> cv_waiter list \<times> cv_waiter list" where
  "get_n_loop v 0 N wakeList ws = (wakeList, ws)"
| "get_n_loop v (Suc i) N wakeList ws =
    (if expected (ws ! i) \<noteq> v
     then let wakeList = wakeList @ [ws ! i]; ws = drop_swap i ws; N = N - 1
          in if N = 0 then (wakeList, ws) else get_n_loop v i N wakeList ws
     else get_n_loop v i N wakeList ws)"

definition get_n_waiters :: "nat \<Rightarrow> size_t \<Rightarrow> cv_waiter list \<Rightarrow> cv_waiter list \<times> cv_waiter list" where
  "get_n_waiters v N ws = get_n_loop v (length ws) N [] ws"

section \<open>The machine\<close>

text \<open>
  Threads between the steps of a call; the mutex is held from its acquisition to the end of the scope.  A call of
  \<open>notify_one\<close> is \<open>Notifying None\<close>.
\<close>

datatype cv_pc =
    CvIdle
  | AwaitLock cv_waiter          \<comment> \<open>\<open>await_ready\<close> has seen the expected value\<close>
  | AwaitCheck cv_waiter         \<comment> \<open>holds the mutex\<close>
  | AwaitPush cv_waiter          \<comment> \<open>has seen the expected value again\<close>
  | NotifyLock "size_t option"
  | NotifyLoad "size_t option"   \<comment> \<open>holds the mutex\<close>
  | NotifyScan "size_t option" nat
  | Leaving "cv_waiter list"     \<comment> \<open>about to release the mutex, with these to resume\<close>
  | Resuming "cv_waiter list"

record condvar =
  cv_value :: nat
  cv_waiters :: "cv_waiter list"
  cv_lock :: "nat option"
  cv_at :: "nat \<Rightarrow> cv_pc"
  cv_posts :: "(nat \<times> nat \<times> nat) list"
  pushed :: "cv_waiter list"      \<comment> \<open>history: waiters that suspended\<close>
  resumed :: "cv_waiter list"     \<comment> \<open>history: waiters that have been resumed\<close>
  stale :: bool                   \<comment> \<open>history: a store since the last \<open>notify_all\<close> loaded the value\<close>

definition cv_new :: "nat \<Rightarrow> condvar" where
  "cv_new v = \<lparr>cv_value = v, cv_waiters = [], cv_lock = None, cv_at = (\<lambda>_. CvIdle), cv_posts = [], pushed = [],
     resumed = [], stale = False\<rparr>"

definition cv_goto :: "nat \<Rightarrow> cv_pc \<Rightarrow> condvar \<Rightarrow> condvar" where
  "cv_goto a pc s = s\<lparr>cv_at := (cv_at s)(a := pc)\<rparr>"

definition collect :: "size_t option \<Rightarrow> nat \<Rightarrow> cv_waiter list \<Rightarrow> cv_waiter list \<times> cv_waiter list" where
  "collect n v ws = (case n of
     None \<Rightarrow> let (toWake, ws) = get_one_waiter v ws in ((case toWake of None \<Rightarrow> [] | Some w \<Rightarrow> [w]), ws)
   | Some N \<Rightarrow> get_n_waiters v N ws)"

definition resume_waiter :: "cv_waiter \<Rightarrow> nat \<times> nat \<times> nat" where
  "resume_waiter w = (cv_executor w, cv_priority w, cv_continuation w)"

inductive cv_step :: "condvar \<Rightarrow> condvar \<Rightarrow> bool" where
  store: "cv_step s (s\<lparr>cv_value := v, stale := True\<rparr>)"
| await_ready: "cv_at s a = CvIdle \<Longrightarrow>
    cv_step s (cv_goto a (if cv_value s \<noteq> expected w then CvIdle else AwaitLock w) s)"
| await_lock: "cv_at s a = AwaitLock w \<Longrightarrow> cv_lock s = None \<Longrightarrow>
    cv_step s (cv_goto a (AwaitCheck w) (s\<lparr>cv_lock := Some a\<rparr>))"
| await_check: "cv_at s a = AwaitCheck w \<Longrightarrow>
    cv_step s (cv_goto a (if cv_value s \<noteq> expected w then Leaving [] else AwaitPush w) s)"
| await_push: "cv_at s a = AwaitPush w \<Longrightarrow> length (cv_waiters s) < 2 ^ 63 \<Longrightarrow>
    cv_step s (cv_goto a (Leaving []) (s\<lparr>cv_waiters := cv_waiters s @ [w], pushed := pushed s @ [w]\<rparr>))"
| notify: "cv_at s a = CvIdle \<Longrightarrow> n \<noteq> Some 0 \<Longrightarrow> cv_step s (cv_goto a (NotifyLock n) s)"
| notify_lock: "cv_at s a = NotifyLock n \<Longrightarrow> cv_lock s = None \<Longrightarrow>
    cv_step s (cv_goto a (NotifyLoad n) (s\<lparr>cv_lock := Some a\<rparr>))"
| notify_load: "cv_at s a = NotifyLoad n \<Longrightarrow>
    cv_step s (cv_goto a (NotifyScan n (cv_value s)) (s\<lparr>stale := (if n = Some TMC_ALL_ONES then False else stale s)\<rparr>))"
| notify_scan: "cv_at s a = NotifyScan n v \<Longrightarrow> collect n v (cv_waiters s) = (wakeList, ws) \<Longrightarrow>
    cv_step s (cv_goto a (Leaving wakeList) (s\<lparr>cv_waiters := ws\<rparr>))"
| unlock: "cv_at s a = Leaving wakeList \<Longrightarrow> cv_step s (cv_goto a (Resuming wakeList) (s\<lparr>cv_lock := None\<rparr>))"
| resume: "cv_at s a = Resuming (w # ws) \<Longrightarrow>
    cv_step s (cv_goto a (Resuming ws) (s\<lparr>cv_posts := cv_posts s @ [resume_waiter w], resumed := resumed s @ [w]\<rparr>))"
| return: "cv_at s a = Resuming [] \<Longrightarrow> cv_step s (cv_goto a CvIdle s)"

inductive cv_reachable :: "nat \<Rightarrow> condvar \<Rightarrow> bool" for v where
  start: "cv_reachable v (cv_new v)"
| step: "cv_reachable v s \<Longrightarrow> cv_step s s' \<Longrightarrow> cv_reachable v s'"

text \<open>
  \<open>aw_atomic_condvar_co_notify::await_suspend\<close>, after the waiters are collected: what is posted, and what runs next.
\<close>

definition co_notify_resume :: "this_thread \<Rightarrow> nat \<Rightarrow> cv_waiter list \<Rightarrow> nat \<times> (nat \<times> nat \<times> nat) list" where
  "co_notify_resume t Outer wakeList = (case wakeList of
     [] \<Rightarrow> (Outer, [])
   | w # ws \<Rightarrow> let posted = map resume_waiter ws
       in if exec_prio_is t (cv_executor w) (cv_priority w)
          then (cv_continuation w, posted @ [(cv_executor w, cv_priority w, Outer)])
          else (Outer, posted @ [resume_waiter w]))"

text \<open>The destructor holds the mutex and resumes every waiter.\<close>

definition cv_destroy :: "condvar \<Rightarrow> condvar" where
  "cv_destroy s = s\<lparr>cv_posts := cv_posts s @ map resume_waiter (cv_waiters s)\<rparr>"

text \<open>The coroutines that \<open>co_notify\<close> hands on: each waiter and the caller, once.\<close>

lemma co_notify_hands_on:
  "add_mset (fst (co_notify_resume t Outer ws)) (mset (map (snd \<circ> snd) (snd (co_notify_resume t Outer ws))))
    = add_mset Outer (mset (map cv_continuation ws))"
  by (cases ws) (simp_all add: co_notify_resume_def resume_waiter_def Let_def comp_def multiset.map_comp)

section \<open>What is collected\<close>

definition mismatched :: "nat \<Rightarrow> cv_waiter list \<Rightarrow> cv_waiter list" where
  "mismatched v ws = filter (\<lambda>w. expected w \<noteq> v) ws"

lemma drop_swap_split: "drop_swap (length ys) (ys @ x # zs) = ys @ (if zs = [] then [] else last zs # butlast zs)"
  by (cases zs rule: rev_cases) (auto simp: drop_swap_def nth_append butlast_append list_update_append)

lemma mismatched_simps [simp]:
  "mismatched v [] = []" "mismatched v (w # ws) = (if expected w \<noteq> v then w # mismatched v ws else mismatched v ws)"
  "mismatched v (ws @ ws') = mismatched v ws @ mismatched v ws'" "mismatched v (rev ws) = rev (mismatched v ws)"
  by (simp_all add: mismatched_def rev_filter)

lemma mismatched_mset: "mset ws = mset ws' \<Longrightarrow> mismatched v ws = [] \<longleftrightarrow> mismatched v ws' = []"
  by (metis mismatched_def mset_filter mset_zero_iff_right)

text \<open>One waiter is collected as by the loop for one.\<close>

lemma get_one_as_n:
  "get_one_loop v i ws = (case get_n_loop v i 1 [] ws of (wakeList, ws') \<Rightarrow>
     (case wakeList of [] \<Rightarrow> None | w # _ \<Rightarrow> Some w, ws'))"
  by (induction i) simp_all

lemma get_n_loop_spec:
  assumes "mismatched v zs = []" and "0 < unat N"
  shows "fst (get_n_loop v (length ys) N wakeList (ys @ zs)) = wakeList @ take (unat N) (mismatched v (rev ys))
    \<and> mset (snd (get_n_loop v (length ys) N wakeList (ys @ zs))) + mset (take (unat N) (mismatched v (rev ys))) = mset (ys @ zs)
    \<and> (mismatched v (snd (get_n_loop v (length ys) N wakeList (ys @ zs))) = [] \<or> unat N < length (mismatched v ys))"
  using assms
proof (induction ys arbitrary: zs N wakeList rule: rev_induct)
  case (snoc y ys)
  show ?case
  proof (cases "expected y = v")
    case True
    then have "mismatched v (y # zs) = []" using snoc.prems(1) by simp
    from snoc.IH [OF this snoc.prems(2), of wakeList] show ?thesis using True by (simp add: nth_append)
  next
    case False
    define R where "R = (if zs = [] then [] else last zs # butlast zs)"
    have m: "mset R = mset zs" by (cases zs rule: rev_cases) (auto simp: R_def)
    then have R: "mismatched v R = []" using mismatched_mset [OF m] snoc.prems(1) by simp
    have d: "drop_swap (length ys) (ys @ y # zs) = ys @ R" unfolding R_def by (rule drop_swap_split)
    show ?thesis
    proof (cases "N = 1")
      case True
      then show ?thesis using False d R m by (simp add: nth_append)
    next
      case N: False
      have u: "unat (N - 1) = unat N - 1" using snoc.prems(2) by (simp add: unat_minus)
      have "unat N \<noteq> 1" using N by (metis unsigned_1 unsigned_word_eqI)
      then have "0 < unat (N - 1)" using u snoc.prems(2) by simp
      note IH = snoc.IH [OF R this, of "wakeList @ [y]"]
      have e: "get_n_loop v (length (ys @ [y])) N wakeList ((ys @ [y]) @ zs)
          = get_n_loop v (length ys) (N - 1) (wakeList @ [y]) (ys @ R)"
        using False d N by (simp add: nth_append)
      obtain k where k: "unat N = Suc k" using snoc.prems(2) gr0_conv_Suc by blast
      show ?thesis unfolding e using IH m False by (auto simp: u k)
    qed
  qed
qed simp

theorem get_n_waiters_spec:
  assumes "0 < unat N"
  shows "fst (get_n_waiters v N ws) = take (unat N) (rev (mismatched v ws))"
    and "mset (snd (get_n_waiters v N ws)) + mset (fst (get_n_waiters v N ws)) = mset ws"
    and "mismatched v (snd (get_n_waiters v N ws)) = [] \<or> unat N < length (mismatched v ws)"
  using get_n_loop_spec [of v "[]" N ws "[]"] assms by (auto simp: get_n_waiters_def)

lemma collect_None: "collect None v ws = collect (Some 1) v ws"
proof -
  obtain wl ws' where g: "get_n_loop v (length ws) 1 [] ws = (wl, ws')" by force
  have "length wl \<le> 1" using get_n_loop_spec [of v "[]" 1 ws "[]"] g by simp
  then show ?thesis
    using g by (cases wl) (auto simp: collect_def get_one_waiter_def get_n_waiters_def get_one_as_n)
qed

section \<open>The invariant\<close>

fun holds_lock :: "cv_pc \<Rightarrow> bool" where
  "holds_lock (AwaitCheck w) \<longleftrightarrow> True"
| "holds_lock (AwaitPush w) \<longleftrightarrow> True"
| "holds_lock (NotifyLoad n) \<longleftrightarrow> True"
| "holds_lock (NotifyScan n v) \<longleftrightarrow> True"
| "holds_lock (Leaving ws) \<longleftrightarrow> True"
| "holds_lock pc \<longleftrightarrow> False"

text \<open>What the value and the waiters have to do with each other, as seen by the holder of the mutex.\<close>

fun fresh_pc :: "condvar \<Rightarrow> cv_pc \<Rightarrow> bool" where
  "fresh_pc s (AwaitPush w) \<longleftrightarrow> (\<not> stale s \<longrightarrow> expected w = cv_value s \<and> mismatched (cv_value s) (cv_waiters s) = [])"
| "fresh_pc s (NotifyScan n v) \<longleftrightarrow>
    (\<not> stale s \<longrightarrow> v = cv_value s \<and> (n = Some TMC_ALL_ONES \<or> mismatched (cv_value s) (cv_waiters s) = []))"
| "fresh_pc s pc \<longleftrightarrow> (\<not> stale s \<longrightarrow> mismatched (cv_value s) (cv_waiters s) = [])"

fun notify_ok :: "cv_pc \<Rightarrow> bool" where
  "notify_ok (NotifyLock n) \<longleftrightarrow> n \<noteq> Some 0"
| "notify_ok (NotifyLoad n) \<longleftrightarrow> n \<noteq> Some 0"
| "notify_ok (NotifyScan n v) \<longleftrightarrow> n \<noteq> Some 0"
| "notify_ok pc \<longleftrightarrow> True"

definition cv_fresh :: "condvar \<Rightarrow> bool" where
  "cv_fresh s \<longleftrightarrow> (case cv_lock s of
     None \<Rightarrow> stale s \<or> mismatched (cv_value s) (cv_waiters s) = []
   | Some a \<Rightarrow> fresh_pc s (cv_at s a))"

definition cv_inv :: "condvar \<Rightarrow> bool" where
  "cv_inv s \<longleftrightarrow> (\<forall>a. holds_lock (cv_at s a) \<longleftrightarrow> cv_lock s = Some a) \<and> (\<forall>a. notify_ok (cv_at s a)) \<and> cv_fresh s
     \<and> length (cv_waiters s) \<le> 2 ^ 63"

lemma cv_goto_sel [simp]:
  "cv_value (cv_goto a pc s) = cv_value s" "cv_waiters (cv_goto a pc s) = cv_waiters s" "cv_lock (cv_goto a pc s) = cv_lock s"
  "cv_at (cv_goto a pc s) = (cv_at s)(a := pc)" "pushed (cv_goto a pc s) = pushed s"
  "resumed (cv_goto a pc s) = resumed s" "cv_posts (cv_goto a pc s) = cv_posts s" "stale (cv_goto a pc s) = stale s"
  by (simp_all add: cv_goto_def)

lemma fresh_pc_cong:
  "cv_value s' = cv_value s \<Longrightarrow> cv_waiters s' = cv_waiters s \<Longrightarrow> stale s' = stale s \<Longrightarrow> fresh_pc s' pc = fresh_pc s pc"
  by (cases pc) simp_all

text \<open>A thread that does not hold the mutex moves, or the holder moves under it.\<close>

lemma cv_outside:
  assumes I: "cv_inv s" and "\<not> holds_lock (cv_at s a)" and "\<not> holds_lock pc" and "notify_ok pc"
    and same: "cv_at s' = (cv_at s)(a := pc)" "cv_lock s' = cv_lock s" "cv_value s' = cv_value s" "cv_waiters s' = cv_waiters s"
      "stale s' = stale s"
  shows "cv_inv s'"
proof -
  have "cv_lock s \<noteq> Some a" using assms(1,2) by (auto simp: cv_inv_def)
  then have "cv_fresh s' = cv_fresh s"
    using fresh_pc_cong [OF same(3-5)] by (auto simp: cv_fresh_def same split: option.splits)
  then show ?thesis using I assms(2-4) unfolding cv_inv_def same by auto
qed

lemma cv_inside:
  assumes I: "cv_inv s" and h: "holds_lock (cv_at s a)" "holds_lock pc" and ok: "notify_ok pc"
    and same: "cv_at s' = (cv_at s)(a := pc)" "cv_lock s' = cv_lock s"
    and f: "fresh_pc s (cv_at s a) \<Longrightarrow> fresh_pc s' pc"
    and l: "length (cv_waiters s') \<le> 2 ^ 63"
  shows "cv_inv s'"
proof -
  have a: "cv_lock s = Some a" using I h(1) by (simp add: cv_inv_def)
  then have "cv_fresh s'" using f I by (simp add: cv_fresh_def cv_inv_def same)
  then show ?thesis using I h ok l a unfolding cv_inv_def same by auto
qed

lemma cv_lock_inv:
  assumes I: "cv_inv s" and "\<not> holds_lock (cv_at s a)" and n: "cv_lock s = None" and pc: "holds_lock pc" "notify_ok pc"
    and same: "cv_at s' = (cv_at s)(a := pc)" "cv_lock s' = Some a" "cv_value s' = cv_value s" "cv_waiters s' = cv_waiters s"
      "stale s' = stale s"
    and f: "stale s \<or> mismatched (cv_value s) (cv_waiters s) = [] \<Longrightarrow> fresh_pc s pc"
  shows "cv_inv s'"
proof -
  have "cv_fresh s'" using I f n fresh_pc_cong [OF same(3-5)] by (simp add: cv_fresh_def same cv_inv_def)
  then show ?thesis using I n pc unfolding cv_inv_def same by auto
qed

lemma collect_facts:
  assumes "collect n v ws = (wakeList, ws')" and "n \<noteq> Some 0" and "length ws \<le> 2 ^ 63"
  shows "mset ws = mset ws' + mset wakeList" and "n = Some TMC_ALL_ONES \<Longrightarrow> mismatched v ws' = []"
    and "length ws' \<le> length ws" and "mismatched v ws = [] \<Longrightarrow> mismatched v ws' = []"
proof -
  obtain N where N: "0 < unat N" "get_n_waiters v N ws = (wakeList, ws')" "n = Some TMC_ALL_ONES \<Longrightarrow> N = TMC_ALL_ONES"
  proof (cases n)
    case None
    then show ?thesis using that [of 1] assms(1) by (simp add: collect_None) (simp add: collect_def)
  next
    case (Some N)
    then show ?thesis using that [of N] assms(1,2) by (simp add: collect_def unat_gt_0)
  qed
  note g = get_n_waiters_spec [OF N(1), of v ws, unfolded N(2), simplified]
  show m: "mset ws = mset ws' + mset wakeList" using g(2) by simp
  then show "length ws' \<le> length ws" by (metis le_add1 size_mset size_union)
  show "mismatched v ws' = []" if "mismatched v ws = []"
  proof -
    have "wakeList = []" using g(1) that by simp
    then show ?thesis using m that mismatched_mset [of ws ws' v] by simp
  qed
  show "mismatched v ws' = []" if "n = Some TMC_ALL_ONES"
  proof -
    have "unat N = 2 ^ 64 - 1" using N(3) [OF that] by (simp add: unsigned_minus_1_eq_mask mask_eq_exp_minus_1)
    moreover have "length (mismatched v ws) \<le> 2 ^ 63" using assms(3) length_filter_le le_trans unfolding mismatched_def by blast
    ultimately show ?thesis using g(3) by auto
  qed
qed

lemma cv_step_inv:
  assumes "cv_step s s'" and I: "cv_inv s"
  shows "cv_inv s'"
  using assms(1)
proof cases
  case (store v)
  have "fresh_pc s' pc" for pc by (cases pc) (simp_all add: store)
  then have "cv_fresh s'" by (auto simp: cv_fresh_def store split: option.splits)
  then show ?thesis using I by (simp add: cv_inv_def store)
next
  case (await_ready a w)
  show ?thesis by (rule cv_outside [OF I, of a "if cv_value s \<noteq> expected w then CvIdle else AwaitLock w"]) (simp_all add: await_ready)
next
  case (await_lock a w)
  show ?thesis by (rule cv_lock_inv [OF I _ await_lock(3), of a "AwaitCheck w"]) (auto simp: await_lock)
next
  case (await_check a w)
  show ?thesis
    by (rule cv_inside [OF I, of a "if cv_value s \<noteq> expected w then Leaving [] else AwaitPush w"])
      (use I in \<open>auto simp: await_check cv_inv_def\<close>)
next
  case (await_push a w)
  show ?thesis
    by (rule cv_inside [OF I, of a "Leaving []"]) (use I await_push(3) in \<open>auto simp: await_push(1,2) cv_inv_def\<close>)
next
  case (notify a n)
  show ?thesis by (rule cv_outside [OF I, of a "NotifyLock n"]) (simp_all add: notify)
next
  case (notify_lock a n)
  have "n \<noteq> Some 0" using I notify_lock(2) by (metis cv_inv_def notify_ok.simps(1))
  then show ?thesis by (intro cv_lock_inv [OF I _ notify_lock(3), of a "NotifyLoad n"]) (auto simp: notify_lock)
next
  case (notify_load a n)
  have "n \<noteq> Some 0" using I notify_load(2) by (metis cv_inv_def notify_ok.simps(2))
  then show ?thesis
    by (intro cv_inside [OF I, of a "NotifyScan n (cv_value s)"]) (use I in \<open>auto simp: notify_load cv_inv_def\<close>)
next
  case (notify_scan a n v wakeList ws)
  have n: "n \<noteq> Some 0" using I notify_scan(2) by (metis cv_inv_def notify_ok.simps(3))
  have len: "length (cv_waiters s) \<le> 2 ^ 63" using I by (simp add: cv_inv_def)
  note c = collect_facts [OF notify_scan(3) n len]
  show ?thesis
    by (rule cv_inside [OF I, of a "Leaving wakeList"]) (use len c in \<open>auto simp: notify_scan\<close>)
next
  case (unlock a wakeList)
  have h: "cv_lock s = Some a" using I unlock(2) by (metis cv_inv_def holds_lock.simps(5))
  then have "cv_fresh s'" using I unlock(2) by (auto simp: cv_inv_def cv_fresh_def unlock(1))
  moreover have "holds_lock (cv_at s' b) \<longleftrightarrow> cv_lock s' = Some b" for b
    using I h by (auto simp: cv_inv_def unlock(1))
  ultimately show ?thesis using I by (auto simp: cv_inv_def unlock(1))
next
  case (resume a w ws)
  show ?thesis by (rule cv_outside [OF I, of a "Resuming ws"]) (simp_all add: resume)
next
  case (return a)
  show ?thesis by (rule cv_outside [OF I, of a CvIdle]) (simp_all add: return)
qed

lemma cv_reachable_inv: "cv_reachable v s \<Longrightarrow> cv_inv s"
proof (induction rule: cv_reachable.induct)
  case start
  show ?case by (simp add: cv_inv_def cv_fresh_def cv_new_def)
qed (rule cv_step_inv)

section \<open>Where the waiters are\<close>

text \<open>Taken out of the vector and not resumed yet.\<close>

fun in_wake_list :: "cv_pc \<Rightarrow> cv_waiter multiset" where
  "in_wake_list (Leaving ws) = mset ws" | "in_wake_list (Resuming ws) = mset ws" | "in_wake_list pc = {#}"

definition in_wake_lists :: "condvar \<Rightarrow> cv_waiter multiset" where
  "in_wake_lists s = (\<Sum>a | in_wake_list (cv_at s a) \<noteq> {#}. in_wake_list (cv_at s a))"

definition cv_accounted :: "condvar \<Rightarrow> bool" where
  "cv_accounted s \<longleftrightarrow> finite {a. in_wake_list (cv_at s a) \<noteq> {#}} \<and>
     mset (pushed s) = in_wake_lists s + mset (cv_waiters s) + mset (resumed s) \<and> cv_posts s = map resume_waiter (resumed s)"

lemma cv_accounted_step:
  assumes "cv_step s s'" and "cv_inv s" and c: "cv_accounted s"
  shows "cv_accounted s'"
proof -
  have move: "cv_accounted s'" if at: "cv_at s' = (cv_at s)(a := pc)"
    and m: "mset (cv_waiters s') + mset (resumed s') + in_wake_list pc + mset (pushed s) =
      mset (cv_waiters s) + mset (resumed s) + in_wake_list (cv_at s a) + mset (pushed s')"
    and p: "cv_posts s' = map resume_waiter (resumed s')" for a pc
  proof -
    have fin: "finite {a. in_wake_list (cv_at s a) \<noteq> {#}}"
      and e: "mset (pushed s) = in_wake_lists s + (mset (cv_waiters s) + mset (resumed s)) + {#} + {#}"
      using c by (simp_all add: cv_accounted_def ac_simps)
    note u = support_sum_upd [OF fin at]
    have "in_wake_lists s' + in_wake_list (cv_at s a) = in_wake_lists s + in_wake_list pc" using u(2) by (simp add: in_wake_lists_def)
    from balance [OF e this m] show ?thesis using u(1) p by (simp add: cv_accounted_def ac_simps)
  qed
  have p: "cv_posts s = map resume_waiter (resumed s)" using c by (simp add: cv_accounted_def)
  from assms(1) show ?thesis
  proof cases
    case (store v)
    then show ?thesis using c by (simp add: cv_accounted_def in_wake_lists_def)
  next
    case (notify_scan a n v wakeList ws)
    have "n \<noteq> Some 0" "length (cv_waiters s) \<le> 2 ^ 63"
      using assms(2) notify_scan(2) by (metis cv_inv_def notify_ok.simps(3), simp add: cv_inv_def)
    from collect_facts(1) [OF notify_scan(3) this]
    show ?thesis by (intro move [where a = a and pc = "Leaving wakeList"]) (simp_all add: notify_scan(1,2) p)
  next
    case (resume a w ws)
    show ?thesis by (rule move [where a = a and pc = "Resuming ws"]) (simp_all add: resume p)
  next
    case (await_check a w)
    show ?thesis
      by (rule move [where a = a and pc = "if cv_value s \<noteq> expected w then Leaving [] else AwaitPush w"]) (simp_all add: await_check p)
  next
    case (await_ready a w)
    show ?thesis by (rule move [where a = a and pc = "if cv_value s \<noteq> expected w then CvIdle else AwaitLock w"]) (simp_all add: await_ready p)
  next
    case (await_lock a w)
    show ?thesis by (rule move [where a = a and pc = "AwaitCheck w"]) (simp_all add: await_lock p)
  next
    case (await_push a w)
    show ?thesis by (rule move [where a = a and pc = "Leaving []"]) (simp_all add: await_push p)
  next
    case (notify a n)
    show ?thesis by (rule move [where a = a and pc = "NotifyLock n"]) (simp_all add: notify p)
  next
    case (notify_lock a n)
    show ?thesis by (rule move [where a = a and pc = "NotifyLoad n"]) (simp_all add: notify_lock p)
  next
    case (notify_load a n)
    show ?thesis by (rule move [where a = a and pc = "NotifyScan n (cv_value s)"]) (simp_all add: notify_load p)
  next
    case (unlock a wakeList)
    show ?thesis by (rule move [where a = a and pc = "Resuming wakeList"]) (simp_all add: unlock p)
  next
    case (return a)
    show ?thesis by (rule move [where a = a and pc = "CvIdle"]) (simp_all add: return p)
  qed
qed

lemma cv_reachable_accounted: "cv_reachable v s \<Longrightarrow> cv_accounted s"
proof (induction rule: cv_reachable.induct)
  case start
  show ?case by (simp add: cv_accounted_def in_wake_lists_def cv_new_def)
qed (use cv_reachable_inv cv_accounted_step in blast)

text \<open>
  C27: No waiter of a condition variable is lost, in any interleaving of awaits, calls of \<open>notify_one\<close>, \<open>notify_n\<close> and
  \<open>notify_all\<close>, and stores.  At all times the waiters that have suspended are, each once, those in the vector, those that a
  notification has taken out and not yet resumed, and those resumed, each of these with one post to its executor at its
  priority.  And when nothing has been stored since a \<open>notify_all\<close> loaded the value, or since the construction, and nobody
  holds the mutex, everyone in the vector waits for the present value.  (At most \<open>2 ^ 63\<close> waiters are in the vector at a time.)
\<close>

theorem condvar_no_lost_wakeup:
  assumes "cv_reachable v s"
  shows "(finite {a. in_wake_list (cv_at s a) \<noteq> {#}} \<and>
      mset (pushed s) = mset (cv_waiters s) + in_wake_lists s + mset (resumed s) \<and> cv_posts s = map resume_waiter (resumed s)) \<and>
    (\<not> stale s \<longrightarrow> cv_lock s = None \<longrightarrow> filter (\<lambda>w. expected w \<noteq> cv_value s) (cv_waiters s) = [])"
  using cv_reachable_accounted [OF assms] cv_reachable_inv [OF assms]
  by (auto simp: cv_accounted_def cv_inv_def cv_fresh_def mismatched_def ac_simps)

text \<open>A coroutine waits for 0, another thread stores 1 and notifies all.\<close>

definition cv_run :: condvar where
  "cv_run = \<lparr>cv_value = 1, cv_waiters = [], cv_lock = None, cv_at = (\<lambda>_. CvIdle), cv_posts = [(2, 3, 50)],
     pushed = [\<lparr>expected = 0, cv_continuation = 50, cv_executor = 2, cv_priority = 3\<rparr>],
     resumed = [\<lparr>expected = 0, cv_continuation = 50, cv_executor = 2, cv_priority = 3\<rparr>], stale = False\<rparr>"

lemma cv_run_reachable: "cv_reachable 0 cv_run"
proof -
  let ?w = "\<lparr>expected = 0, cv_continuation = 50, cv_executor = 2, cv_priority = 3\<rparr>"
  have idle: "(\<lambda>_. CvIdle)(a := CvIdle) = (\<lambda>_. CvIdle)" for a :: nat by auto
  note d = cv_new_def cv_goto_def idle
  have "cv_reachable 0 (cv_goto 4 (AwaitLock ?w) (cv_new 0))"
    using cv_reachable.step [OF cv_reachable.start cv_step.await_ready [of "cv_new 0" 4 ?w]] by (simp add: d)
  from cv_reachable.step [OF this cv_step.await_lock [of _ 4 ?w]]
  have "cv_reachable 0 (cv_goto 4 (AwaitCheck ?w) ((cv_new 0)\<lparr>cv_lock := Some 4\<rparr>))" by (simp add: d)
  from cv_reachable.step [OF this cv_step.await_check [of _ 4 ?w]]
  have "cv_reachable 0 (cv_goto 4 (AwaitPush ?w) ((cv_new 0)\<lparr>cv_lock := Some 4\<rparr>))" by (simp add: d)
  from cv_reachable.step [OF this cv_step.await_push [of _ 4 ?w]]
  have "cv_reachable 0 (cv_goto 4 (Leaving []) ((cv_new 0)\<lparr>cv_lock := Some 4, cv_waiters := [?w], pushed := [?w]\<rparr>))" by (simp add: d)
  from cv_reachable.step [OF this cv_step.unlock [of _ 4]]
  have "cv_reachable 0 (cv_goto 4 (Resuming []) ((cv_new 0)\<lparr>cv_waiters := [?w], pushed := [?w]\<rparr>))" by (simp add: d)
  from cv_reachable.step [OF this cv_step.return [of _ 4]]
  have "cv_reachable 0 ((cv_new 0)\<lparr>cv_waiters := [?w], pushed := [?w]\<rparr>)" by (simp add: d)
  from cv_reachable.step [OF this cv_step.store [of _ 1]]
  have "cv_reachable 0 ((cv_new 0)\<lparr>cv_value := 1, stale := True, cv_waiters := [?w], pushed := [?w]\<rparr>)" by (simp add: d)
  from cv_reachable.step [OF this cv_step.notify [of _ 5 "Some TMC_ALL_ONES"]]
  have "cv_reachable 0 (cv_goto 5 (NotifyLock (Some TMC_ALL_ONES))
      ((cv_new 0)\<lparr>cv_value := 1, stale := True, cv_waiters := [?w], pushed := [?w]\<rparr>))" by (simp add: d)
  from cv_reachable.step [OF this cv_step.notify_lock [of _ 5 "Some TMC_ALL_ONES"]]
  have "cv_reachable 0 (cv_goto 5 (NotifyLoad (Some TMC_ALL_ONES))
      ((cv_new 0)\<lparr>cv_value := 1, stale := True, cv_lock := Some 5, cv_waiters := [?w], pushed := [?w]\<rparr>))" by (simp add: d)
  from cv_reachable.step [OF this cv_step.notify_load [of _ 5 "Some TMC_ALL_ONES"]]
  have "cv_reachable 0 (cv_goto 5 (NotifyScan (Some TMC_ALL_ONES) 1)
      ((cv_new 0)\<lparr>cv_value := 1, cv_lock := Some 5, cv_waiters := [?w], pushed := [?w]\<rparr>))" by (simp add: d)
  from cv_reachable.step [OF this cv_step.notify_scan [of _ 5 "Some TMC_ALL_ONES" 1 "[?w]" "[]"]]
  have "cv_reachable 0 (cv_goto 5 (Leaving [?w])
      ((cv_new 0)\<lparr>cv_value := 1, cv_lock := Some 5, pushed := [?w]\<rparr>))"
    by (simp add: d collect_def get_n_waiters_def drop_swap_def)
  from cv_reachable.step [OF this cv_step.unlock [of _ 5 "[?w]"]]
  have "cv_reachable 0 (cv_goto 5 (Resuming [?w]) ((cv_new 0)\<lparr>cv_value := 1, pushed := [?w]\<rparr>))" by (simp add: d)
  from cv_reachable.step [OF this cv_step.resume [of _ 5 ?w "[]"]]
  have "cv_reachable 0 (cv_goto 5 (Resuming [])
      ((cv_new 0)\<lparr>cv_value := 1, pushed := [?w], resumed := [?w], cv_posts := [(2, 3, 50)]\<rparr>))"
    by (simp add: d resume_waiter_def)
  from cv_reachable.step [OF this cv_step.return [of _ 5]]
  show ?thesis by (simp add: d cv_run_def)
qed

theorem condvar_no_lost_wakeup_witness:
  "mset (pushed cv_run) = mset (resumed cv_run) \<and> cv_posts cv_run = [(2, 3, 50)] \<and> \<not> stale cv_run \<and> cv_waiters cv_run = []"
proof -
  have "\<not> stale cv_run" "cv_lock cv_run = None" "cv_waiters cv_run = []" "in_wake_lists cv_run = {#}" "cv_posts cv_run = [(2, 3, 50)]"
    by (simp_all add: cv_run_def in_wake_lists_def)
  then show ?thesis using condvar_no_lost_wakeup [OF cv_run_reachable] by simp
qed

text \<open>
  Against the comments, waiters are not always woken in LIFO order: taking one out of the middle moves the newest into
  its place, so that a later \<open>notify_all\<close> wakes it after older ones.
\<close>

definition cv_wait :: "nat \<Rightarrow> nat \<Rightarrow> cv_waiter" where
  "cv_wait v c = \<lparr>expected = v, cv_continuation = c, cv_executor = 1, cv_priority = 0\<rparr>"

lemma notify_not_lifo:
  "get_one_waiter 1 [cv_wait 0 10, cv_wait 1 20, cv_wait 1 30] = (Some (cv_wait 0 10), [cv_wait 1 30, cv_wait 1 20])"
  "get_n_waiters 2 TMC_ALL_ONES [cv_wait 1 30, cv_wait 1 20] = ([cv_wait 1 20, cv_wait 1 30], [])"
  by (simp_all add: get_one_waiter_def get_n_waiters_def drop_swap_def cv_wait_def)

end
