(* ===== verification/Machines.thy ===== *)
theory Machines
  imports Prelude
begin

text \<open>
  What the concurrent machines share: reachable states, invariants, refinement of a machine by another, and the
  first-in-first-out queue that the queues of the library refine.
\<close>

section \<open>Reachable states\<close>

inductive reach :: "('s \<Rightarrow> bool) \<Rightarrow> ('s \<Rightarrow> 's \<Rightarrow> bool) \<Rightarrow> 's \<Rightarrow> bool" for start step where
  reach_start: "start s \<Longrightarrow> reach start step s"
| reach_step: "reach start step s \<Longrightarrow> step s s' \<Longrightarrow> reach start step s'"

lemma reach_rtranclp: "step\<^sup>*\<^sup>* s s' \<Longrightarrow> reach start step s \<Longrightarrow> reach start step s'"
  by (induction rule: rtranclp_induct) (auto intro: reach.intros)

lemma reach_many_steps: "reach start step\<^sup>*\<^sup>* s \<Longrightarrow> reach start step s"
  by (induction rule: reach.induct) (auto intro: reach_start reach_rtranclp)

locale invariant_of =
  fixes start :: "'s \<Rightarrow> bool" and step :: "'s \<Rightarrow> 's \<Rightarrow> bool" and inv :: "'s \<Rightarrow> bool"
  assumes holds_start: "start s \<Longrightarrow> inv s"
    and holds_step: "inv s \<Longrightarrow> step s s' \<Longrightarrow> inv s'"
begin

lemma holds: "reach start step s \<Longrightarrow> inv s"
  by (induction rule: reach.induct) (auto intro: holds_start holds_step)

end

text \<open>A step of the concrete machine is a step of the abstract one or invisible there.\<close>

locale refines = invariant_of +
  fixes abs :: "'s \<Rightarrow> 'a" and astart :: "'a \<Rightarrow> bool" and astep :: "'a \<Rightarrow> 'a \<Rightarrow> bool"
  assumes sim_start: "start s \<Longrightarrow> astart (abs s)"
    and sim_step: "inv s \<Longrightarrow> step s s' \<Longrightarrow> abs s' = abs s \<or> astep (abs s) (abs s')"
begin

lemma simulates: "reach start step s \<Longrightarrow> reach astart astep (abs s)"
proof (induction rule: reach.induct)
  case (reach_start s)
  then show ?case by (auto intro: reach.reach_start sim_start)
next
  case (reach_step s s')
  then show ?case using sim_step [OF holds [OF reach_step(1)] reach_step(2)] by (metis reach.reach_step)
qed

end

section \<open>The abstract queue\<close>

text \<open>A bounded first-in-first-out queue with its history: what was pushed and what was pulled.\<close>

type_synonym 'a fifo = "'a list \<times> 'a list"

definition fifo_start :: "'a fifo \<Rightarrow> bool" where
  "fifo_start q \<longleftrightarrow> q = ([], [])"

inductive fifo_step :: "nat \<Rightarrow> 'a fifo \<Rightarrow> 'a fifo \<Rightarrow> bool" for K where
  fifo_push: "length pushed < length pulled + K \<Longrightarrow> fifo_step K (pushed, pulled) (pushed @ [x], pulled)"
| fifo_pull: "length pulled < length pushed \<Longrightarrow>
    fifo_step K (pushed, pulled) (pushed, pulled @ [pushed ! length pulled])"

definition fifo_ok :: "nat \<Rightarrow> 'a fifo \<Rightarrow> bool" where
  "fifo_ok K q \<longleftrightarrow> snd q = take (length (snd q)) (fst q) \<and> length (snd q) \<le> length (fst q) \<and>
     length (fst q) \<le> length (snd q) + K"

lemma fifo_ok_start: "fifo_start q \<Longrightarrow> fifo_ok K q"
  by (simp add: fifo_start_def fifo_ok_def)

lemma fifo_ok_step: "fifo_ok K q \<Longrightarrow> fifo_step K q q' \<Longrightarrow> fifo_ok K q'"
  by (erule fifo_step.cases) (auto simp: fifo_ok_def take_Suc_conv_app_nth)

interpretation fifo: invariant_of fifo_start "fifo_step K" "fifo_ok K"
  by unfold_locales (fact fifo_ok_start, fact fifo_ok_step)

text \<open>What was pulled is a prefix of what was pushed, and at most \<open>K\<close> items are inside.\<close>

lemma fifo_prefix:
  assumes "reach fifo_start (fifo_step K) (pushed, pulled)"
  shows "pulled = take (length pulled) pushed" and "length pulled \<le> length pushed"
    and "length pushed \<le> length pulled + K"
  using fifo.holds [OF assms] by (simp_all add: fifo_ok_def)

text \<open>Several pushes at once.\<close>

lemma fifo_pushes:
  "length pushed + length xs \<le> length pulled + K \<Longrightarrow> (fifo_step K)\<^sup>*\<^sup>* (pushed, pulled) (pushed @ xs, pulled)"
proof (induction xs rule: rev_induct)
  case (snoc x xs)
  then have "fifo_step K (pushed @ xs, pulled) ((pushed @ xs) @ [x], pulled)" by (intro fifo_push) simp
  with snoc show ?case by simp
qed simp

section \<open>Positions of a ring\<close>

text \<open>Numbers of one residue class less than a lap apart are equal.\<close>

lemma same_lap: "p mod K = q mod K \<Longrightarrow> p \<le> q \<Longrightarrow> q < p + K \<Longrightarrow> p = (q::nat)"
  using mod_distinct [of p q K] by (metis le_neq_implies_less)

section \<open>Words that stand for unbounded counters\<close>

lemma of_nat_eq_near:
  assumes "of_nat x = (of_nat y :: size_t)" and "x < y + 2 ^ 64" and "y < x + 2 ^ 64"
  shows "x = y"
proof (rule ccontr)
  assume n: "x \<noteq> y"
  have "unat (of_nat x :: size_t) = unat (of_nat y :: size_t)" using assms(1) by simp
  then have e: "x mod 2 ^ 64 = y mod 2 ^ 64" by (simp add: unat_of_nat)
  show False
  proof (cases "x < y")
    case True
    then have "2 ^ 64 dvd y - x" using e [symmetric] mod_eq_dvd_iff_nat [of x y "2 ^ 64"] by simp
    then show False using True assms(3) nat_dvd_not_less [of "y - x" "2 ^ 64"] by (simp add: less_diff_conv2)
  next
    case False
    then have "2 ^ 64 dvd x - y" using e mod_eq_dvd_iff_nat [of y x "2 ^ 64"] by simp
    then show False using False n assms(2) nat_dvd_not_less [of "x - y" "2 ^ 64"] by (simp add: less_diff_conv2)
  qed
qed

lemma and_mask_mod:
  assumes "k \<le> 64"
  shows "unat (of_nat p AND mask k :: size_t) = p mod 2 ^ k"
proof -
  have "unat (of_nat p AND mask k :: size_t) = take_bit k (unat (of_nat p :: size_t))"
    by (simp only: unsigned_take_bit_eq flip: take_bit_eq_mask)
  also have "\<dots> = take_bit k (p mod 2 ^ 64)" by (simp add: unat_of_nat)
  also have "\<dots> = p mod 2 ^ k" unfolding take_bit_eq_mod
    by (rule mod_mod_cancel, rule le_imp_power_dvd) (use assms in simp)
  finally show ?thesis .
qed

lemma sint_diff_near:
  fixes x y :: nat
  assumes "\<bar>int x - int y\<bar> < 2 ^ 63"
  shows "sint (of_nat x - of_nat y :: size_t) = int x - int y"
proof -
  have "(of_nat x - of_nat y :: size_t) = of_int (int x - int y)" by simp
  then show ?thesis using assms by (simp add: signed_of_int signed_take_bit_int_eq_self del: of_int_diff)
qed

end
