(* ===== verification/Inbox.thy ===== *)
theory Inbox
  imports Machines
begin

text \<open>
  The inbox of a thread group (\<open>detail/qu_inbox.hpp\<close>): a ring of \<open>2 ^ k\<close> elements shared by any number of producers
  and consumers.  The flags word of an element says which position of the unbounded sequence it is ready for: \<open>p\<close> when
  it can be written as position \<open>p\<close>, \<open>p + 1\<close> when it holds position \<open>p\<close>.  Each access to a shared word is a step.  Work
  items are names.
\<close>

section \<open>The machine\<close>

datatype inbox_producer =
    ProducerIdle
  | PushTry "nat list" size_t size_t         \<comment> \<open>items left, \<open>Prio\<close>, \<open>woff\<close>\<close>
  | PushReload "nat list" size_t             \<comment> \<open>\<open>diff > 0\<close>: about to load \<open>write_offset\<close> again\<close>
  | PushClaim "nat list" size_t size_t       \<comment> \<open>\<open>diff == 0\<close>: about to exchange \<open>write_offset\<close>\<close>
  | PushData "nat list" size_t size_t        \<comment> \<open>has the ticket; about to store \<open>data\<close>\<close>
  | PushPrio "nat list" size_t size_t
  | PushFlags "nat list" size_t size_t

datatype inbox_consumer =
    ConsumerIdle
  | PullTry size_t                           \<comment> \<open>\<open>roff\<close>\<close>
  | PullReload
  | PullClaim size_t
  | PullData size_t                          \<comment> \<open>has the ticket; about to read \<open>data\<close>\<close>
  | PullPrio size_t nat
  | PullFlags size_t nat size_t

record inbox =
  write_offset :: size_t
  read_offset :: size_t
  elem_data :: "nat \<Rightarrow> nat"
  elem_prio :: "nat \<Rightarrow> size_t"
  elem_flags :: "nat \<Rightarrow> size_t"
  producer_at :: "nat \<Rightarrow> inbox_producer"
  consumer_at :: "nat \<Rightarrow> inbox_consumer"
  write_ix :: nat                            \<comment> \<open>history: \<open>write_offset\<close>, unwrapped\<close>
  read_ix :: nat                             \<comment> \<open>history: \<open>read_offset\<close>, unwrapped\<close>
  position_of :: "nat \<Rightarrow> nat"                \<comment> \<open>history: the position an element is ready for or holds\<close>
  written :: "nat set"                       \<comment> \<open>history: positions whose flags store has been made\<close>
  content :: "nat \<Rightarrow> nat \<times> size_t"           \<comment> \<open>history: item and priority that took a position\<close>
  woff_ix :: "nat \<Rightarrow> nat"                    \<comment> \<open>history: a producer's \<open>woff\<close>, unwrapped\<close>
  roff_ix :: "nat \<Rightarrow> nat"                    \<comment> \<open>history: a consumer's \<open>roff\<close>, unwrapped\<close>
  call :: "nat \<Rightarrow> nat list \<times> size_t"       \<comment> \<open>history: items and priority of a producer's current or last call\<close>
  took :: "nat \<Rightarrow> nat list"                  \<comment> \<open>history: the positions that call has taken\<close>
  returned :: "(nat \<times> nat \<times> size_t) list"   \<comment> \<open>history: position, item and priority of each successful pull\<close>

definition inbox_new :: "nat \<Rightarrow> inbox" where
  "inbox_new k = \<lparr>write_offset = 0, read_offset = 0, elem_data = (\<lambda>_. 0), elem_prio = (\<lambda>_. 0),
     elem_flags = (\<lambda>i. of_nat i), producer_at = (\<lambda>_. ProducerIdle), consumer_at = (\<lambda>_. ConsumerIdle),
     write_ix = 0, read_ix = 0, position_of = (\<lambda>i. i), written = {}, content = (\<lambda>_. (0, 0)), woff_ix = (\<lambda>_. 0),
     roff_ix = (\<lambda>_. 0), call = (\<lambda>_. ([], 0)), took = (\<lambda>_. []), returned = []\<rparr>"

definition element :: "nat \<Rightarrow> size_t \<Rightarrow> nat" where
  "element k off = unat (off AND mask k)"

definition push_diff :: "nat \<Rightarrow> inbox \<Rightarrow> size_t \<Rightarrow> int" where
  "push_diff k s woff = sint (elem_flags s (element k woff) - woff)"

definition pull_diff :: "nat \<Rightarrow> inbox \<Rightarrow> size_t \<Rightarrow> int" where
  "pull_diff k s roff = sint (elem_flags s (element k roff) - (roff + 1))"

definition set_producer :: "nat \<Rightarrow> inbox_producer \<Rightarrow> inbox \<Rightarrow> inbox" where
  "set_producer a x s = s\<lparr>producer_at := (producer_at s)(a := x)\<rparr>"

definition set_consumer :: "nat \<Rightarrow> inbox_consumer \<Rightarrow> inbox \<Rightarrow> inbox" where
  "set_consumer c x s = s\<lparr>consumer_at := (consumer_at s)(c := x)\<rparr>"

text \<open>A load of \<open>write_offset\<close> (\<open>read_offset\<close>) into the local \<open>woff\<close> (\<open>roff\<close>).\<close>

definition load_woff :: "nat \<Rightarrow> nat list \<Rightarrow> size_t \<Rightarrow> inbox \<Rightarrow> inbox" where
  "load_woff a xs pr s = set_producer a (PushTry xs pr (write_offset s)) (s\<lparr>woff_ix := (woff_ix s)(a := write_ix s)\<rparr>)"

definition load_roff :: "nat \<Rightarrow> inbox \<Rightarrow> inbox" where
  "load_roff c s = set_consumer c (PullTry (read_offset s)) (s\<lparr>roff_ix := (roff_ix s)(c := read_ix s)\<rparr>)"

definition after_push_flags :: "int \<Rightarrow> nat list \<Rightarrow> size_t \<Rightarrow> size_t \<Rightarrow> inbox_producer" where
  "after_push_flags d xs pr woff =
    (if d = 0 then PushClaim xs pr woff else if d < 0 then ProducerIdle else PushReload xs pr)"

definition after_pull_flags :: "int \<Rightarrow> size_t \<Rightarrow> inbox_consumer" where
  "after_pull_flags d roff = (if d < 0 then ConsumerIdle else if d = 0 then PullClaim roff else PullReload)"

definition take_ticket :: "nat \<Rightarrow> nat \<Rightarrow> nat list \<Rightarrow> size_t \<Rightarrow> size_t \<Rightarrow> inbox \<Rightarrow> inbox" where
  "take_ticket a x xs pr woff s = set_producer a (PushData (x # xs) pr (woff + 1))
     (s\<lparr>write_offset := woff + 1, write_ix := write_ix s + 1, content := (content s)(write_ix s := (x, pr)),
       woff_ix := (woff_ix s)(a := write_ix s + 1), took := (took s)(a := took s a @ [write_ix s])\<rparr>)"

definition take_read_ticket :: "nat \<Rightarrow> size_t \<Rightarrow> inbox \<Rightarrow> inbox" where
  "take_read_ticket c roff s = set_consumer c (PullData roff) (s\<lparr>read_offset := roff + 1, read_ix := read_ix s + 1\<rparr>)"

text \<open>
  A producer runs \<open>try_push_bulk\<close>; \<open>try_push\<close> is the case of one item.  After a ticket \<open>woff\<close> holds the new offset, so
  the element written is that of \<open>woff - 1\<close>.  A guard bounds how far the others may go while a thread holds a stale offset.
\<close>

inductive inbox_move :: "nat \<Rightarrow> inbox \<Rightarrow> inbox \<Rightarrow> bool" for k where
  push_load: "producer_at s a = ProducerIdle \<Longrightarrow> xs \<noteq> [] \<Longrightarrow>
    inbox_move k s (load_woff a xs pr (s\<lparr>call := (call s)(a := (xs, pr)), took := (took s)(a := [])\<rparr>))"
| push_flags: "producer_at s a = PushTry xs pr woff \<Longrightarrow> write_ix s < woff_ix s a + 2 ^ 63 \<Longrightarrow>
    inbox_move k s (set_producer a (after_push_flags (push_diff k s woff) xs pr woff) s)"
| push_reload: "producer_at s a = PushReload xs pr \<Longrightarrow> inbox_move k s (load_woff a xs pr s)"
| push_cas_ok: "producer_at s a = PushClaim (x # xs) pr woff \<Longrightarrow> write_offset s = woff \<Longrightarrow>
    write_ix s < woff_ix s a + 2 ^ 63 \<Longrightarrow> inbox_move k s (take_ticket a x xs pr woff s)"
| push_cas_fail: "producer_at s a = PushClaim xs pr woff \<Longrightarrow> write_offset s \<noteq> woff \<Longrightarrow>
    inbox_move k s (load_woff a xs pr s)"
| push_data: "producer_at s a = PushData (x # xs) pr woff \<Longrightarrow>
    inbox_move k s (set_producer a (PushPrio (x # xs) pr woff)
      (s\<lparr>elem_data := (elem_data s)(element k (woff - 1) := x)\<rparr>))"
| push_prio: "producer_at s a = PushPrio (x # xs) pr woff \<Longrightarrow>
    inbox_move k s (set_producer a (PushFlags (x # xs) pr woff)
      (s\<lparr>elem_prio := (elem_prio s)(element k (woff - 1) := pr)\<rparr>))"
| push_store: "producer_at s a = PushFlags (x # xs) pr woff \<Longrightarrow>
    inbox_move k s (set_producer a (if xs = [] then ProducerIdle else PushTry xs pr woff)
      (s\<lparr>elem_flags := (elem_flags s)(element k (woff - 1) := woff), written := insert (woff_ix s a - 1) (written s)\<rparr>))"
| pull_load: "consumer_at s c = ConsumerIdle \<Longrightarrow> inbox_move k s (load_roff c s)"
| pull_flags: "consumer_at s c = PullTry roff \<Longrightarrow> read_ix s < roff_ix s c + 2 ^ 63 \<Longrightarrow>
    inbox_move k s (set_consumer c (after_pull_flags (pull_diff k s roff) roff) s)"
| pull_reload: "consumer_at s c = PullReload \<Longrightarrow> inbox_move k s (load_roff c s)"
| pull_cas_ok: "consumer_at s c = PullClaim roff \<Longrightarrow> read_offset s = roff \<Longrightarrow>
    read_ix s < roff_ix s c + 2 ^ 63 \<Longrightarrow> inbox_move k s (take_read_ticket c roff s)"
| pull_cas_fail: "consumer_at s c = PullClaim roff \<Longrightarrow> read_offset s \<noteq> roff \<Longrightarrow>
    inbox_move k s (load_roff c s)"
| pull_data: "consumer_at s c = PullData roff \<Longrightarrow>
    inbox_move k s (set_consumer c (PullPrio roff (elem_data s (element k roff))) s)"
| pull_prio: "consumer_at s c = PullPrio roff x \<Longrightarrow>
    inbox_move k s (set_consumer c (PullFlags roff x (elem_prio s (element k roff))) s)"
| pull_store: "consumer_at s c = PullFlags roff x pr \<Longrightarrow>
    inbox_move k s (set_consumer c ConsumerIdle
      (s\<lparr>elem_flags := (elem_flags s)(element k roff := roff + of_nat (2 ^ k)),
        position_of := (position_of s)(element k roff := roff_ix s c + 2 ^ k),
        returned := returned s @ [(roff_ix s c, x, pr)]\<rparr>))"

text \<open>\<open>BlockSize\<close> is a power of two up to \<open>2 ^ 63\<close> (the class asserts it) and not 1 (see \<open>inbox_of_one_overwrites\<close>).\<close>

definition inbox_start :: "nat \<Rightarrow> inbox \<Rightarrow> bool" where
  "inbox_start k s \<longleftrightarrow> 1 \<le> k \<and> k \<le> 63 \<and> s = inbox_new k"

text \<open>\<open>empty()\<close> loads \<open>write_offset\<close> in a state and \<open>read_offset\<close> in a later one.\<close>

definition inbox_empty :: "inbox \<Rightarrow> inbox \<Rightarrow> bool" where
  "inbox_empty s s' \<longleftrightarrow> (let woff = write_offset s; roff = read_offset s' in roff = woff)"

section \<open>The invariant\<close>

text \<open>The position that a producer is writing, that a consumer is reading.\<close>

fun writing :: "inbox_producer \<Rightarrow> bool" where
  "writing (PushData _ _ _) = True" | "writing (PushPrio _ _ _) = True" | "writing (PushFlags _ _ _) = True"
| "writing _ = False"

fun reading :: "inbox_consumer \<Rightarrow> bool" where
  "reading (PullData _) = True" | "reading (PullPrio _ _) = True" | "reading (PullFlags _ _ _) = True"
| "reading _ = False"

fun producer_ok :: "nat \<Rightarrow> inbox \<Rightarrow> nat \<Rightarrow> inbox_producer \<Rightarrow> bool" where
  "producer_ok k s w ProducerIdle = True"
| "producer_ok k s w (PushTry xs pr woff) \<longleftrightarrow> xs \<noteq> [] \<and> woff = of_nat w \<and> w \<le> write_ix s"
| "producer_ok k s w (PushReload xs pr) \<longleftrightarrow> xs \<noteq> []"
| "producer_ok k s w (PushClaim xs pr woff) \<longleftrightarrow> xs \<noteq> [] \<and> woff = of_nat w \<and> w \<le> write_ix s \<and> w \<le> position_of s (w mod 2 ^ k)"
| "producer_ok k s w (PushData xs pr woff) \<longleftrightarrow> woff = of_nat w \<and> w \<le> write_ix s \<and> w > 0 \<and>
     w - 1 \<notin> written s \<and> (\<exists>x ys. xs = x # ys \<and> content s (w - 1) = (x, pr))"
| "producer_ok k s w (PushPrio xs pr woff) \<longleftrightarrow> woff = of_nat w \<and> w \<le> write_ix s \<and> w > 0 \<and>
     w - 1 \<notin> written s \<and> (\<exists>x ys. xs = x # ys \<and> content s (w - 1) = (x, pr)) \<and>
     elem_data s ((w - 1) mod 2 ^ k) = fst (content s (w - 1))"
| "producer_ok k s w (PushFlags xs pr woff) \<longleftrightarrow> woff = of_nat w \<and> w \<le> write_ix s \<and> w > 0 \<and>
     w - 1 \<notin> written s \<and> (\<exists>x ys. xs = x # ys \<and> content s (w - 1) = (x, pr)) \<and>
     elem_data s ((w - 1) mod 2 ^ k) = fst (content s (w - 1)) \<and>
     elem_prio s ((w - 1) mod 2 ^ k) = snd (content s (w - 1))"

definition reader_has :: "nat \<Rightarrow> inbox \<Rightarrow> nat \<Rightarrow> bool" where
  "reader_has k s r \<longleftrightarrow> r < read_ix s \<and> position_of s (r mod 2 ^ k) = r"

fun consumer_ok :: "nat \<Rightarrow> inbox \<Rightarrow> nat \<Rightarrow> inbox_consumer \<Rightarrow> bool" where
  "consumer_ok k s r ConsumerIdle = True"
| "consumer_ok k s r (PullTry roff) \<longleftrightarrow> roff = of_nat r \<and> r \<le> read_ix s"
| "consumer_ok k s r PullReload = True"
| "consumer_ok k s r (PullClaim roff) \<longleftrightarrow> roff = of_nat r \<and> r \<le> read_ix s \<and> r \<in> written s"
| "consumer_ok k s r (PullData roff) \<longleftrightarrow> roff = of_nat r \<and> reader_has k s r"
| "consumer_ok k s r (PullPrio roff x) \<longleftrightarrow> roff = of_nat r \<and> reader_has k s r \<and> x = fst (content s r)"
| "consumer_ok k s r (PullFlags roff x pr) \<longleftrightarrow> roff = of_nat r \<and> reader_has k s r \<and> (x, pr) = content s r"

definition offsets_ok :: "inbox \<Rightarrow> bool" where
  "offsets_ok s \<longleftrightarrow> write_offset s = of_nat (write_ix s) \<and> read_offset s = of_nat (read_ix s)"

definition ring_ok :: "nat \<Rightarrow> inbox \<Rightarrow> bool" where
  "ring_ok k s \<longleftrightarrow>
    (\<forall>i < 2 ^ k. position_of s i mod 2 ^ k = i \<and> position_of s i < read_ix s + 2 ^ k \<and>
       elem_flags s i = of_nat (position_of s i + (if position_of s i \<in> written s then 1 else 0)) \<and>
       (position_of s i \<in> written s \<longrightarrow> (elem_data s i, elem_prio s i) = content s (position_of s i)))"

definition positions_ok :: "nat \<Rightarrow> inbox \<Rightarrow> bool" where
  "positions_ok k s \<longleftrightarrow> (\<forall>p < write_ix s. p \<le> position_of s (p mod 2 ^ k)) \<and>
     (\<forall>p \<in> written s. p < write_ix s) \<and> (\<forall>p < read_ix s. p \<in> written s) \<and>
     (\<forall>p < write_ix s. p \<notin> written s \<longrightarrow> (\<exists>a. writing (producer_at s a) \<and> woff_ix s a = p + 1))"

definition tickets_ok :: "nat \<Rightarrow> inbox \<Rightarrow> bool" where
  "tickets_ok k s \<longleftrightarrow>
    (\<forall>a. producer_ok k s (woff_ix s a) (producer_at s a)) \<and> (\<forall>c. consumer_ok k s (roff_ix s c) (consumer_at s c)) \<and>
    (\<forall>a b. writing (producer_at s a) \<longrightarrow> writing (producer_at s b) \<longrightarrow> woff_ix s a = woff_ix s b \<longrightarrow> a = b) \<and>
    (\<forall>c d. reading (consumer_at s c) \<longrightarrow> reading (consumer_at s d) \<longrightarrow> roff_ix s c = roff_ix s d \<longrightarrow> c = d)"

definition returned_ok :: "nat \<Rightarrow> inbox \<Rightarrow> bool" where
  "returned_ok k s \<longleftrightarrow> distinct (map fst (returned s)) \<and>
    (\<forall>p. p \<in> set (map fst (returned s)) \<longleftrightarrow> p < read_ix s \<and> p < position_of s (p mod 2 ^ k)) \<and>
    (\<forall>(p, x) \<in> set (returned s). x = content s p) \<and>
    (\<forall>p < read_ix s. position_of s (p mod 2 ^ k) = p \<longrightarrow> (\<exists>c. reading (consumer_at s c) \<and> roff_ix s c = p))"

definition inbox_inv :: "nat \<Rightarrow> inbox \<Rightarrow> bool" where
  "inbox_inv k s \<longleftrightarrow> offsets_ok s \<and> ring_ok k s \<and> positions_ok k s \<and> tickets_ok k s \<and> returned_ok k s"


lemma inbox_invD:
  assumes "inbox_inv k s"
  shows "offsets_ok s" "ring_ok k s" "positions_ok k s" "tickets_ok k s" "returned_ok k s"
  using assms by (simp_all add: inbox_inv_def)

lemma ringD:
  assumes "ring_ok k s" and "i < 2 ^ k"
  shows "position_of s i mod 2 ^ k = i" "position_of s i < read_ix s + 2 ^ k"
    "elem_flags s i = of_nat (position_of s i + (if position_of s i \<in> written s then 1 else 0))"
    "position_of s i \<in> written s \<Longrightarrow> (elem_data s i, elem_prio s i) = content s (position_of s i)"
  using assms unfolding ring_ok_def by blast+

lemma positionsD:
  assumes "positions_ok k s"
  shows "p < write_ix s \<Longrightarrow> p \<le> position_of s (p mod 2 ^ k)" "p \<in> written s \<Longrightarrow> p < write_ix s"
    "p < read_ix s \<Longrightarrow> p \<in> written s"
    "p < write_ix s \<Longrightarrow> p \<notin> written s \<Longrightarrow> \<exists>a. writing (producer_at s a) \<and> woff_ix s a = p + 1"
  using assms unfolding positions_ok_def by blast+

lemma ticketsD:
  assumes "tickets_ok k s"
  shows "producer_ok k s (woff_ix s a) (producer_at s a)" "consumer_ok k s (roff_ix s c) (consumer_at s c)"
    "writing (producer_at s a) \<Longrightarrow> writing (producer_at s b) \<Longrightarrow> woff_ix s a = woff_ix s b \<Longrightarrow> a = b"
    "reading (consumer_at s c) \<Longrightarrow> reading (consumer_at s d) \<Longrightarrow> roff_ix s c = roff_ix s d \<Longrightarrow> c = d"
  using assms unfolding tickets_ok_def by blast+

lemma writingD:
  assumes "producer_ok k s w pc" and "writing pc"
  shows "w \<le> write_ix s" "0 < w" "w - 1 \<notin> written s"
  using assms by (cases pc; simp)+

lemma readingD:
  assumes "consumer_ok k s r pc" and "reading pc"
  shows "r < read_ix s" "position_of s (r mod 2 ^ k) = r"
  using assms by (cases pc; simp add: reader_has_def)+

lemma element_of_nat: "k \<le> 63 \<Longrightarrow> element k (of_nat p) = p mod 2 ^ k"
  by (simp only: element_def and_mask_mod)

lemma read_le_write: "positions_ok k s \<Longrightarrow> read_ix s \<le> write_ix s"
  using positionsD(2,3) [of k s "write_ix s"] by (meson leI less_irrefl)

lemma write_le_read: 
  assumes "ring_ok k s" and "positions_ok k s"
  shows "write_ix s \<le> read_ix s + 2 ^ k"
proof (cases "write_ix s")
  case (Suc p)
  then have "p \<le> position_of s (p mod 2 ^ k)" by (intro positionsD(1) [OF assms(2)]) simp
  then show ?thesis using ringD(2) [OF assms(1), of "p mod 2 ^ k"] Suc by simp
qed simp

text \<open>The element of a position that is being written, of one that waits to be read.\<close>

lemma position_of_written:
  assumes "ring_ok k s" and "positions_ok k s" and "p < write_ix s" and "read_ix s \<le> p"
  shows "position_of s (p mod 2 ^ k) = p"
  using same_lap [of p "2 ^ k" "position_of s (p mod 2 ^ k)"] ringD(1,2) [OF assms(1), of "p mod 2 ^ k"]
    positionsD(1) [OF assms(2), of p] assms(3,4) by simp

lemma position_of_ticket:
  assumes "ring_ok k s" and "positions_ok k s" and "producer_ok k s w pc" and "writing pc"
  shows "position_of s ((w - 1) mod 2 ^ k) = w - 1"
  using position_of_written [OF assms(1,2), of "w - 1"] writingD [OF assms(3,4)] positionsD(3) [OF assms(2), of "w - 1"]
  by (metis Suc_diff_1 Suc_le_eq not_le)

lemma position_lower:
  assumes "positions_ok k s" and "w \<le> write_ix s"
  shows "w \<le> position_of s (w mod 2 ^ k) + 2 ^ k"
proof (cases "w < 2 ^ k")
  case False
  moreover have "(0::nat) < 2 ^ k" by simp
  ultimately have "w - 2 ^ k < write_ix s" using assms(2) by linarith
  then have "w - 2 ^ k \<le> position_of s ((w - 2 ^ k) mod 2 ^ k)" by (rule positionsD(1) [OF assms(1)])
  moreover have "(w - 2 ^ k) mod 2 ^ k = w mod 2 ^ k" using False by (simp add: le_mod_geq)
  ultimately show ?thesis by simp
qed simp

text \<open>What the comparison of the flags decides.\<close>

lemma flags_verdict:
  assumes ring: "ring_ok k s" and pos: "positions_ok k s" and k: "1 \<le> k" "k \<le> 63"
    and w: "w \<le> write_ix s" and near: "read_ix s < w + 2 ^ 63"
    and eq: "elem_flags s (w mod 2 ^ k) = of_nat (w + e)" and e: "e \<le> 1"
  shows "position_of s (w mod 2 ^ k) = w \<and> (w \<in> written s \<longleftrightarrow> e = 1)"
proof -
  define P where "P = position_of s (w mod 2 ^ k)"
  define d :: nat where "d = (if P \<in> written s then 1 else 0)"
  have K: "(2::nat) ^ k \<le> 2 ^ 63" using k by (simp only: power_increasing)
  have P: "P mod 2 ^ k = w mod 2 ^ k" "P < read_ix s + 2 ^ k" "w \<le> P + 2 ^ k"
    using ringD(1,2) [OF ring, of "w mod 2 ^ k"] position_lower [OF pos w] by (simp_all add: P_def)
  have "of_nat (P + d) = (of_nat (w + e) :: size_t)"
    using eq ringD(3) [OF ring, of "w mod 2 ^ k"] by (simp add: P_def d_def)
  moreover have "P + d < w + e + 2 ^ 64" "w + e < P + d + 2 ^ 64"
    using P near K e by (simp_all add: d_def)
  ultimately have eq: "P + d = w + e" by (rule of_nat_eq_near)
  have K2: "(2::nat) \<le> 2 ^ k" using k power_increasing [of 1 k "2::nat"] by simp
  have "P = w"
  proof (rule ccontr)
    assume "P \<noteq> w"
    moreover have "d \<le> 1" by (simp add: d_def)
    ultimately have "P = w + 1 \<or> w = P + 1" using eq e by arith
    then show False using mod_distinct [of w P "2 ^ k"] mod_distinct [of P w "2 ^ k"] P(1) K2 by auto
  qed
  then show ?thesis using eq e by (auto simp: P_def [symmetric] d_def split: if_splits)
qed


lemmas inbox_defs = set_producer_def set_consumer_def load_woff_def load_roff_def take_ticket_def take_read_ticket_def
  after_push_flags_def after_pull_flags_def

lemma offsets_step: "inbox_move k s s' \<Longrightarrow> offsets_ok s \<Longrightarrow> offsets_ok s'"
  by (erule inbox_move.cases) (auto simp: inbox_defs offsets_ok_def)

lemma sint_zero: "sint (f - w) = 0 \<longleftrightarrow> f = (w::size_t)"
  by (metis eq_iff_diff_eq_0 signed_0 signed_word_eqI)

text \<open>The ticket of a writer.\<close>

lemma claim_verdict:
  assumes "offsets_ok s" and "ring_ok k s" and "positions_ok k s" and "w \<le> write_ix s" and "write_ix s < w + 2 ^ 63"
    and "write_offset s = of_nat w" and "w \<le> position_of s (w mod 2 ^ k)"
  shows "write_ix s = w" and "position_of s (w mod 2 ^ k) = w" and "w \<notin> written s"
proof -
  show w: "write_ix s = w"
    by (rule of_nat_eq_near) (use assms in \<open>simp_all add: offsets_ok_def\<close>)
  have "position_of s (w mod 2 ^ k) < w + 2 ^ k"
    using ringD(2) [OF assms(2), of "w mod 2 ^ k"] read_le_write [OF assms(3)] w by simp
  then show "position_of s (w mod 2 ^ k) = w"
    using same_lap [of w "2 ^ k" "position_of s (w mod 2 ^ k)"] ringD(1) [OF assms(2), of "w mod 2 ^ k"] assms(7) by simp
  show "w \<notin> written s" using positionsD(2) [OF assms(3), of w] w by auto
qed

lemma pull_verdict:
  assumes "offsets_ok s" and "ring_ok k s" and "positions_ok k s" and "r \<le> read_ix s" and "read_ix s < r + 2 ^ 63"
    and "read_offset s = of_nat r" and "r \<in> written s"
  shows "read_ix s = r" and "position_of s (r mod 2 ^ k) = r"
proof -
  show r: "read_ix s = r"
    by (rule of_nat_eq_near) (use assms in \<open>simp_all add: offsets_ok_def\<close>)
  show "position_of s (r mod 2 ^ k) = r"
    using position_of_written [OF assms(2,3)] positionsD(2) [OF assms(3,7)] r by simp
qed

text \<open>Positions in hand have their element for themselves.\<close>

lemma ticket_alone:
  assumes inv: "inbox_inv k s" and a: "writing (producer_at s a)"
  defines "p \<equiv> woff_ix s a - 1"
  shows "i < 2 ^ k \<Longrightarrow> i = p mod 2 ^ k \<longleftrightarrow> position_of s i = p"
    and "writing (producer_at s b) \<Longrightarrow> (woff_ix s b - 1) mod 2 ^ k = p mod 2 ^ k \<Longrightarrow> b = a"
proof -
  note i = inbox_invD [OF inv]
  have pa: "position_of s (p mod 2 ^ k) = p"
    unfolding p_def by (rule position_of_ticket [OF i(2,3) ticketsD(1) [OF i(4)] a])
  then show "i = p mod 2 ^ k \<longleftrightarrow> position_of s i = p" if "i < 2 ^ k"
    using ringD(1) [OF i(2) that] by metis
  show "b = a" if b: "writing (producer_at s b)" and eq: "(woff_ix s b - 1) mod 2 ^ k = p mod 2 ^ k"
  proof -
    have "position_of s ((woff_ix s b - 1) mod 2 ^ k) = woff_ix s b - 1"
      by (rule position_of_ticket [OF i(2,3) ticketsD(1) [OF i(4)] b])
    then have p: "woff_ix s b - 1 = woff_ix s a - 1" using pa unfolding eq p_def by simp
    have "0 < woff_ix s a" "0 < woff_ix s b"
      by (rule writingD(2) [OF ticketsD(1) [OF i(4)] a], rule writingD(2) [OF ticketsD(1) [OF i(4)] b])
    then have "woff_ix s b = woff_ix s a" using p by linarith
    then show "b = a" using ticketsD(3) [OF i(4) b a] by simp
  qed
qed

lemma ring_step:
  assumes "inbox_move k s s'" and inv: "inbox_inv k s" and k: "1 \<le> k" "k \<le> 63"
  shows "ring_ok k s'"
  using assms(1)
proof cases
  case (push_cas_ok a x xs pr woff)
  note i = inbox_invD [OF inv]
  have "\<forall>p \<in> written s. p \<noteq> write_ix s" using positionsD(2) [OF i(3)] by blast
  then show ?thesis using i(2) push_cas_ok(1) by (auto simp: ring_ok_def inbox_defs)
next
  case (push_data a x xs pr woff)
  note i = inbox_invD [OF inv]
  have w: "woff = of_nat (woff_ix s a)" "woff_ix s a - 1 \<notin> written s" "0 < woff_ix s a"
    using ticketsD(1) [OF i(4), of a] push_data(2) by simp_all
  have e: "element k (woff - 1) = (woff_ix s a - 1) mod 2 ^ k"
    using w(1,3) element_of_nat [OF k(2), of "woff_ix s a - 1"] by (simp add: of_nat_diff)
  show ?thesis using i(2) ticket_alone(1) [OF inv, of a] push_data(2) w e
    unfolding push_data(1) by (auto simp: ring_ok_def inbox_defs)
next
  case (push_prio a x xs pr woff)
  note i = inbox_invD [OF inv]
  have w: "woff = of_nat (woff_ix s a)" "woff_ix s a - 1 \<notin> written s" "0 < woff_ix s a"
    using ticketsD(1) [OF i(4), of a] push_prio(2) by simp_all
  have e: "element k (woff - 1) = (woff_ix s a - 1) mod 2 ^ k"
    using w(1,3) element_of_nat [OF k(2), of "woff_ix s a - 1"] by (simp add: of_nat_diff)
  show ?thesis using i(2) ticket_alone(1) [OF inv, of a] push_prio(2) w e
    unfolding push_prio(1) by (auto simp: ring_ok_def inbox_defs)
next
  case (push_store a x xs pr woff)
  note i = inbox_invD [OF inv]
  have t: "producer_ok k s (woff_ix s a) (PushFlags (x # xs) pr woff)"
    using ticketsD(1) [OF i(4), of a] push_store(2) by simp
  have w: "woff = of_nat (woff_ix s a)" "woff_ix s a - 1 \<notin> written s" "0 < woff_ix s a"
    using t by simp_all
  have e: "element k (woff - 1) = (woff_ix s a - 1) mod 2 ^ k"
    using w(1,3) element_of_nat [OF k(2), of "woff_ix s a - 1"] by (simp add: of_nat_diff)
  have p: "position_of s ((woff_ix s a - 1) mod 2 ^ k) = woff_ix s a - 1"
    using ticket_alone(1) [OF inv, of a "(woff_ix s a - 1) mod 2 ^ k"] push_store(2) by simp
  have c: "(elem_data s ((woff_ix s a - 1) mod 2 ^ k), elem_prio s ((woff_ix s a - 1) mod 2 ^ k)) = content s (woff_ix s a - 1)"
    using t by simp
  show ?thesis unfolding ring_ok_def
  proof (intro allI impI)
    fix j :: nat assume j: "j < 2 ^ k"
    note r = ringD [OF i(2) j] and al = ticket_alone(1) [OF inv, of a j] push_store(2) j
    show "position_of s' j mod 2 ^ k = j \<and> position_of s' j < read_ix s' + 2 ^ k \<and>
       elem_flags s' j = of_nat (position_of s' j + (if position_of s' j \<in> written s' then 1 else 0)) \<and>
       (position_of s' j \<in> written s' \<longrightarrow> (elem_data s' j, elem_prio s' j) = content s' (position_of s' j))"
    proof (cases "j = (woff_ix s a - 1) mod 2 ^ k")
      case True
      then show ?thesis using r(1,2) p w c e unfolding push_store(1) by (simp add: inbox_defs)
    next
      case False
      then have "position_of s j \<noteq> woff_ix s a - 1" using al by simp
      then show ?thesis using r False e unfolding push_store(1) by (simp add: inbox_defs)
    qed
  qed
next
  case (pull_store c roff x pr)
  note i = inbox_invD [OF inv]
  have t: "roff = of_nat (roff_ix s c)" "reader_has k s (roff_ix s c)"
    using ticketsD(2) [OF i(4), of c] pull_store(2) by simp_all
  define r where "r = roff_ix s c"
  have r: "r < read_ix s" "position_of s (r mod 2 ^ k) = r" using t(2) by (simp_all add: reader_has_def r_def)
  have e: "element k roff = r mod 2 ^ k" using t(1) element_of_nat [OF k(2)] by (simp add: r_def)
  have n: "r + 2 ^ k \<notin> written s"
  proof
    assume "r + 2 ^ k \<in> written s"
    then have "r + 2 ^ k \<le> position_of s ((r + 2 ^ k) mod 2 ^ k)"
      by (intro positionsD(1,2) [OF i(3)]) 
    then show False using r(2) by simp
  qed
  show ?thesis unfolding ring_ok_def
  proof (intro allI impI)
    fix j :: nat assume j: "j < 2 ^ k"
    show "position_of s' j mod 2 ^ k = j \<and> position_of s' j < read_ix s' + 2 ^ k \<and>
       elem_flags s' j = of_nat (position_of s' j + (if position_of s' j \<in> written s' then 1 else 0)) \<and>
       (position_of s' j \<in> written s' \<longrightarrow> (elem_data s' j, elem_prio s' j) = content s' (position_of s' j))"
      using ringD [OF i(2) j] n r t(1) e unfolding pull_store(1)
      by (cases "j = r mod 2 ^ k") (simp_all add: inbox_defs r_def)
  qed
qed (use inbox_invD [OF inv] in \<open>auto simp: ring_ok_def inbox_defs\<close>)

lemma positions_step:
  assumes "inbox_move k s s'" and inv: "inbox_inv k s" and k: "1 \<le> k" "k \<le> 63"
  shows "positions_ok k s'"
  using assms(1)
proof cases
  case (push_cas_ok a x xs pr woff)
  note i = inbox_invD [OF inv]
  have t: "woff = of_nat (woff_ix s a)" "woff_ix s a \<le> write_ix s" "woff_ix s a \<le> position_of s (woff_ix s a mod 2 ^ k)"
    using ticketsD(1) [OF i(4), of a] push_cas_ok(2) by simp_all
  note v = claim_verdict [OF i(1-3) t(2) push_cas_ok(4) _ t(3)]
  have o: "write_offset s = of_nat (woff_ix s a)" using t(1) push_cas_ok(3) by simp
  show ?thesis unfolding positions_ok_def
  proof (intro conjI allI impI ballI)
    fix p assume "p < write_ix s'"
    then show "p \<le> position_of s' (p mod 2 ^ k)"
      using positionsD(1) [OF i(3), of p] v(1,2) [OF o] unfolding push_cas_ok(1)
      by (cases "p = write_ix s") (simp_all add: inbox_defs)
  next
    fix p assume "p \<in> written s'"
    then show "p < write_ix s'" using positionsD(2) [OF i(3), of p] unfolding push_cas_ok(1) by (simp add: inbox_defs)
  next
    fix p assume "p < read_ix s'"
    then show "p \<in> written s'" using positionsD(3) [OF i(3), of p] unfolding push_cas_ok(1) by (simp add: inbox_defs)
  next
    fix p assume p: "p < write_ix s'" "p \<notin> written s'"
    show "\<exists>b. writing (producer_at s' b) \<and> woff_ix s' b = p + 1"
    proof (cases "p = write_ix s")
      case True
      then show ?thesis unfolding push_cas_ok(1) by (intro exI [of _ a]) (simp add: inbox_defs)
    next
      case False
      then obtain b where "writing (producer_at s b)" "woff_ix s b = p + 1"
        using positionsD(4) [OF i(3), of p] p unfolding push_cas_ok(1) by (auto simp: inbox_defs)
      then show ?thesis using push_cas_ok(2) unfolding push_cas_ok(1) by (intro exI [of _ b]) (auto simp: inbox_defs)
    qed
  qed
next
  case (push_store a x xs pr woff)
  note i = inbox_invD [OF inv]
  have t: "woff_ix s a \<le> write_ix s" "0 < woff_ix s a"
    using ticketsD(1) [OF i(4), of a] push_store(2) by simp_all
  show ?thesis unfolding positions_ok_def
  proof (intro conjI allI impI ballI)
    fix p assume "p < write_ix s'"
    then show "p \<le> position_of s' (p mod 2 ^ k)"
      using positionsD(1) [OF i(3), of p] unfolding push_store(1) by (simp add: inbox_defs)
  next
    fix p assume "p \<in> written s'"
    then show "p < write_ix s'" using positionsD(2) [OF i(3), of p] t unfolding push_store(1) by (auto simp add: inbox_defs)
  next
    fix p assume "p < read_ix s'"
    then show "p \<in> written s'" using positionsD(3) [OF i(3), of p] unfolding push_store(1) by (simp add: inbox_defs)
  next
    fix p assume p: "p < write_ix s'" "p \<notin> written s'"
    then obtain b where b: "writing (producer_at s b)" "woff_ix s b = p + 1"
      using positionsD(4) [OF i(3), of p] unfolding push_store(1) by (auto simp: inbox_defs)
    then have "b \<noteq> a" using p unfolding push_store(1) by (auto simp: inbox_defs)
    then show "\<exists>b. writing (producer_at s' b) \<and> woff_ix s' b = p + 1"
      using b unfolding push_store(1) by (intro exI [of _ b]) (auto simp: inbox_defs)
  qed
next
  case (pull_cas_ok c roff)
  note i = inbox_invD [OF inv]
  have t: "roff = of_nat (roff_ix s c)" "roff_ix s c \<le> read_ix s" "roff_ix s c \<in> written s"
    using ticketsD(2) [OF i(4), of c] pull_cas_ok(2) by simp_all
  have "read_ix s = roff_ix s c"
    by (rule pull_verdict [OF i(1-3) t(2) pull_cas_ok(4) _ t(3)]) (use t(1) pull_cas_ok(3) in simp)
  then show ?thesis using i(3) t(3) unfolding pull_cas_ok(1) positions_ok_def by (auto simp: inbox_defs less_Suc_eq)
next
  case (pull_store c roff x pr)
  note i = inbox_invD [OF inv]
  have t: "roff = of_nat (roff_ix s c)" "reader_has k s (roff_ix s c)"
    using ticketsD(2) [OF i(4), of c] pull_store(2) by simp_all
  have e: "element k roff = roff_ix s c mod 2 ^ k" using t(1) element_of_nat [OF k(2)] by simp
  show ?thesis using i(3) t(2) e unfolding pull_store(1) positions_ok_def
    by (fastforce simp: inbox_defs reader_has_def)
qed (use inbox_invD(3) [OF inv] in \<open>(simp add: positions_ok_def inbox_defs; metis writing.simps)+\<close>)


text \<open>What a thread knows is kept by the steps of the others.\<close>

lemma producer_ok_frame:
  assumes "producer_ok k s w pc" and "write_ix s \<le> write_ix s'" and "\<forall>i. position_of s i \<le> position_of s' i"
    and "writing pc \<Longrightarrow> w - 1 \<notin> written s' \<and> content s' (w - 1) = content s (w - 1) \<and>
      elem_data s' ((w - 1) mod 2 ^ k) = elem_data s ((w - 1) mod 2 ^ k) \<and>
      elem_prio s' ((w - 1) mod 2 ^ k) = elem_prio s ((w - 1) mod 2 ^ k)"
  shows "producer_ok k s' w pc"
  using assms by (cases pc) (auto intro: order_trans)

lemma consumer_ok_frame:
  assumes "consumer_ok k s r pc" and "read_ix s \<le> read_ix s'" and "written s \<subseteq> written s'"
    and "reading pc \<Longrightarrow> position_of s' (r mod 2 ^ k) = position_of s (r mod 2 ^ k) \<and> content s' r = content s r"
  shows "consumer_ok k s' r pc"
  using assms by (cases pc) (auto simp: reader_has_def)

lemma producer_ok_same:
  assumes "producer_ok k s w pc" and "write_ix s' = write_ix s" "position_of s' = position_of s" "written s' = written s"
    "content s' = content s" "elem_data s' = elem_data s" "elem_prio s' = elem_prio s"
  shows "producer_ok k s' w pc"
  using assms by (cases pc) simp_all

lemma consumer_ok_same:
  assumes "consumer_ok k s r pc" and "read_ix s' = read_ix s" "written s \<subseteq> written s'"
    "position_of s' = position_of s" "content s' = content s"
  shows "consumer_ok k s' r pc"
  using assms by (cases pc) (auto simp: reader_has_def)

lemma producer_other:
  assumes "producer_ok k s (woff_ix s b) (producer_at s b)" and "woff_ix s' b = woff_ix s b" "producer_at s' b = producer_at s b"
    "write_ix s' = write_ix s" "position_of s' = position_of s" "written s' = written s"
    "content s' = content s" "elem_data s' = elem_data s" "elem_prio s' = elem_prio s"
  shows "producer_ok k s' (woff_ix s' b) (producer_at s' b)"
  using producer_ok_same [OF assms(1,4-)] assms(2,3) by simp

lemma consumer_other:
  assumes "consumer_ok k s (roff_ix s d) (consumer_at s d)" and "roff_ix s' d = roff_ix s d" "consumer_at s' d = consumer_at s d"
    "read_ix s' = read_ix s" "written s \<subseteq> written s'" "position_of s' = position_of s" "content s' = content s"
  shows "consumer_ok k s' (roff_ix s' d) (consumer_at s' d)"
  using consumer_ok_same [OF assms(1,4-)] assms(2,3) by simp

lemma producers_step:
  assumes "inbox_move k s s'" and inv: "inbox_inv k s" and k: "1 \<le> k" "k \<le> 63"
  shows "producer_ok k s' (woff_ix s' b) (producer_at s' b)"
  using assms(1)
proof cases
  note i = inbox_invD [OF inv]
  note t = ticketsD(1) [OF i(4)]
  {
    case (push_load a xs pr)
    show ?thesis
    proof (cases "b = a")
      case True
      then show ?thesis using push_load(3) i(1) unfolding push_load(1) by (auto simp: inbox_defs offsets_ok_def)
    next
      case False
      then show ?thesis unfolding push_load(1) by (intro producer_other [OF t]) (simp_all add: inbox_defs)
    qed
  next
    case (push_flags a xs pr woff)
    have w: "xs \<noteq> []" "woff = of_nat (woff_ix s a)" "woff_ix s a \<le> write_ix s"
      using t [of a] push_flags(2) by simp_all
    have "woff_ix s a \<le> position_of s (woff_ix s a mod 2 ^ k)" if "push_diff k s woff = 0"
    proof -
      have "elem_flags s (woff_ix s a mod 2 ^ k) = of_nat (woff_ix s a + 0)"
        using that w(2) by (simp only: push_diff_def sint_zero element_of_nat [OF k(2)]) simp
      moreover have "read_ix s < woff_ix s a + 2 ^ 63" using push_flags(3) read_le_write [OF i(3)] by linarith
      ultimately show ?thesis using flags_verdict [OF i(2,3) k w(3), of 0] by simp
    qed
    show ?thesis
    proof (cases "b = a")
      case True
      then show ?thesis using w \<open>push_diff k s woff = 0 \<Longrightarrow> woff_ix s a \<le> position_of s (woff_ix s a mod 2 ^ k)\<close> unfolding push_flags(1) by (auto simp: inbox_defs offsets_ok_def)
    next
      case False
      then show ?thesis unfolding push_flags(1) by (intro producer_other [OF t]) (simp_all add: inbox_defs)
    qed
  next
    case (push_reload a xs pr)
    show ?thesis
    proof (cases "b = a")
      case True
      then show ?thesis using t [of a] push_reload(2) i(1) unfolding push_reload(1) by (auto simp: inbox_defs offsets_ok_def)
    next
      case False
      then show ?thesis unfolding push_reload(1) by (intro producer_other [OF t]) (simp_all add: inbox_defs)
    qed
  next
    case (push_cas_ok a x xs pr woff)
    have w: "woff = of_nat (woff_ix s a)" "woff_ix s a \<le> write_ix s" "woff_ix s a \<le> position_of s (woff_ix s a mod 2 ^ k)"
      using t [of a] push_cas_ok(2) by simp_all
    have "write_offset s = of_nat (woff_ix s a)" using w(1) push_cas_ok(3) by simp
    note v = claim_verdict [OF i(1-3) w(2) push_cas_ok(4) this w(3)]
    show ?thesis
    proof (cases "b = a")
      case True
      then show ?thesis using v w(1) unfolding push_cas_ok(1) by (simp add: inbox_defs)
    next
      case False
      have "writing (producer_at s b) \<Longrightarrow> woff_ix s b \<le> write_ix s \<and> 0 < woff_ix s b \<and> woff_ix s b - 1 \<notin> written s"
        using writingD [OF t] by simp
      then have "producer_ok k s' (woff_ix s b) (producer_at s b)"
        unfolding push_cas_ok(1) by (intro producer_ok_frame [OF t]) (auto simp: inbox_defs)
      then show ?thesis using False unfolding push_cas_ok(1) by (simp add: inbox_defs)
    qed
  next
    case (push_cas_fail a xs pr woff)
    show ?thesis
    proof (cases "b = a")
      case True
      then show ?thesis using t [of a] push_cas_fail(2) i(1) unfolding push_cas_fail(1) by (auto simp: inbox_defs offsets_ok_def)
    next
      case False
      then show ?thesis unfolding push_cas_fail(1) by (intro producer_other [OF t]) (simp_all add: inbox_defs)
    qed
  next
    case (push_data a x xs pr woff)
    have w: "producer_ok k s (woff_ix s a) (PushData (x # xs) pr woff)" using t [of a] push_data(2) by simp
    have e: "element k (woff - 1) = (woff_ix s a - 1) mod 2 ^ k"
      using w element_of_nat [OF k(2), of "woff_ix s a - 1"] by (simp add: of_nat_diff)
    show ?thesis
    proof (cases "b = a")
      case True
      then show ?thesis using w e unfolding push_data(1) by (auto simp: inbox_defs)
    next
      case False
      then have "producer_ok k s' (woff_ix s b) (producer_at s b)"
        using ticket_alone(2) [OF inv, of a b] push_data(2) writingD(3) [OF t, of b] e
        unfolding push_data(1) by (intro producer_ok_frame [OF t]) (auto simp: inbox_defs)
      then show ?thesis using False unfolding push_data(1) by (simp add: inbox_defs)
    qed
  next
    case (push_prio a x xs pr woff)
    have w: "producer_ok k s (woff_ix s a) (PushPrio (x # xs) pr woff)" using t [of a] push_prio(2) by simp
    have e: "element k (woff - 1) = (woff_ix s a - 1) mod 2 ^ k"
      using w element_of_nat [OF k(2), of "woff_ix s a - 1"] by (simp add: of_nat_diff)
    show ?thesis
    proof (cases "b = a")
      case True
      then show ?thesis using w e unfolding push_prio(1) by (auto simp: inbox_defs)
    next
      case False
      then have "producer_ok k s' (woff_ix s b) (producer_at s b)"
        using ticket_alone(2) [OF inv, of a b] push_prio(2) writingD(3) [OF t, of b] e
        unfolding push_prio(1) by (intro producer_ok_frame [OF t]) (auto simp: inbox_defs)
      then show ?thesis using False unfolding push_prio(1) by (simp add: inbox_defs)
    qed
  next
    case (push_store a x xs pr woff)
    have w: "producer_ok k s (woff_ix s a) (PushFlags (x # xs) pr woff)" using t [of a] push_store(2) by simp
    show ?thesis
    proof (cases "b = a")
      case True
      then show ?thesis using w unfolding push_store(1) by (auto simp: inbox_defs)
    next
      case False
      then have "woff_ix s b - 1 \<noteq> woff_ix s a - 1" if "writing (producer_at s b)"
        using ticket_alone(2) [OF inv, of a b] push_store(2) that by auto
      then have "producer_ok k s' (woff_ix s b) (producer_at s b)"
        using writingD(3) [OF t, of b]
        unfolding push_store(1) by (intro producer_ok_frame [OF t]) (auto simp: inbox_defs)
      then show ?thesis using False unfolding push_store(1) by (simp add: inbox_defs)
    qed
  next
    case (pull_store c roff x pr)
    have h: "roff = of_nat (roff_ix s c)" "reader_has k s (roff_ix s c)"
      using ticketsD(2) [OF i(4), of c] pull_store(2) by simp_all
    then have "position_of s j \<le> position_of s' j" for j
      using element_of_nat [OF k(2), of "roff_ix s c"] unfolding pull_store(1) by (auto simp: inbox_defs reader_has_def)
    then have "producer_ok k s' (woff_ix s b) (producer_at s b)"
      using writingD(3) [OF t, of b]
      unfolding pull_store(1) by (intro producer_ok_frame [OF t]) (auto simp: inbox_defs)
    then show ?thesis unfolding pull_store(1) by (simp add: inbox_defs)
  }
qed (use inbox_invD(4) [OF inv] in \<open>simp_all add: inbox_defs producer_ok_same [OF ticketsD(1)]\<close>)

lemma consumers_step:
  assumes "inbox_move k s s'" and inv: "inbox_inv k s" and k: "1 \<le> k" "k \<le> 63"
  shows "consumer_ok k s' (roff_ix s' d) (consumer_at s' d)"
  using assms(1)
proof cases
  note i = inbox_invD [OF inv]
  note t = ticketsD(2) [OF i(4)]
  {
    case (push_cas_ok a x xs pr woff)
    have "reading (consumer_at s d) \<Longrightarrow> roff_ix s d < write_ix s"
      using readingD(1) [OF t, of d] read_le_write [OF i(3)] by linarith
    then have "consumer_ok k s' (roff_ix s d) (consumer_at s d)"
      unfolding push_cas_ok(1) by (intro consumer_ok_frame [OF t]) (auto simp: inbox_defs)
    then show ?thesis unfolding push_cas_ok(1) by (simp add: inbox_defs)
  next
    case (push_store a x xs pr woff)
    show ?thesis unfolding push_store(1)
      by (intro consumer_other [OF t]) (auto simp: inbox_defs)
  next
    case (pull_load c)
    show ?thesis
    proof (cases "d = c")
      case True
      then show ?thesis using i(1) unfolding pull_load(1) by (auto simp: inbox_defs offsets_ok_def)
    next
      case False
      then show ?thesis unfolding pull_load(1) by (intro consumer_other [OF t]) (simp_all add: inbox_defs)
    qed
  next
    case (pull_flags c roff)
    have r: "roff = of_nat (roff_ix s c)" "roff_ix s c \<le> read_ix s"
      using t [of c] pull_flags(2) by simp_all
    have "roff_ix s c \<in> written s" if "pull_diff k s roff = 0"
    proof -
      have "elem_flags s (roff_ix s c mod 2 ^ k) = of_nat (roff_ix s c + 1)"
        using that r(1) by (simp only: pull_diff_def sint_zero element_of_nat [OF k(2)]) simp
      then show ?thesis
        using flags_verdict [OF i(2,3) k, of "roff_ix s c" 1] r(2) pull_flags(3) read_le_write [OF i(3)] by simp
    qed
    show ?thesis
    proof (cases "d = c")
      case True
      then show ?thesis using r \<open>pull_diff k s roff = 0 \<Longrightarrow> roff_ix s c \<in> written s\<close> unfolding pull_flags(1) by (auto simp: inbox_defs offsets_ok_def)
    next
      case False
      then show ?thesis unfolding pull_flags(1) by (intro consumer_other [OF t]) (simp_all add: inbox_defs)
    qed
  next
    case (pull_reload c)
    show ?thesis
    proof (cases "d = c")
      case True
      then show ?thesis using i(1) unfolding pull_reload(1) by (auto simp: inbox_defs offsets_ok_def)
    next
      case False
      then show ?thesis unfolding pull_reload(1) by (intro consumer_other [OF t]) (simp_all add: inbox_defs)
    qed
  next
    case (pull_cas_fail c roff)
    show ?thesis
    proof (cases "d = c")
      case True
      then show ?thesis using i(1) unfolding pull_cas_fail(1) by (auto simp: inbox_defs offsets_ok_def)
    next
      case False
      then show ?thesis unfolding pull_cas_fail(1) by (intro consumer_other [OF t]) (simp_all add: inbox_defs)
    qed
  next
    case (pull_cas_ok c roff)
    have r: "roff = of_nat (roff_ix s c)" "roff_ix s c \<le> read_ix s" "roff_ix s c \<in> written s"
      using t [of c] pull_cas_ok(2) by simp_all
    have "read_offset s = of_nat (roff_ix s c)" using r(1) pull_cas_ok(3) by simp
    note v = pull_verdict [OF i(1-3) r(2) pull_cas_ok(4) this r(3)]
    show ?thesis
    proof (cases "d = c")
      case True
      then show ?thesis using v r(1) unfolding pull_cas_ok(1) by (simp add: inbox_defs reader_has_def)
    next
      case False
      have "consumer_ok k s' (roff_ix s d) (consumer_at s d)"
        unfolding pull_cas_ok(1) by (intro consumer_ok_frame [OF t]) (auto simp: inbox_defs)
      then show ?thesis using False unfolding pull_cas_ok(1) by (simp add: inbox_defs)
    qed
  next
    case (pull_data c roff)
    have r: "roff = of_nat (roff_ix s c)" "reader_has k s (roff_ix s c)"
      using t [of c] pull_data(2) by simp_all
    have "elem_data s (roff_ix s c mod 2 ^ k) = fst (content s (roff_ix s c))"
      using ringD(4) [OF i(2), of "roff_ix s c mod 2 ^ k"] positionsD(3) [OF i(3), of "roff_ix s c"] r(2)
      by (simp add: reader_has_def) (metis fst_conv)
    show ?thesis
    proof (cases "d = c")
      case True
      then show ?thesis using r element_of_nat [OF k(2), of "roff_ix s c"] \<open>elem_data s (roff_ix s c mod 2 ^ k) = fst (content s (roff_ix s c))\<close> unfolding pull_data(1) by (auto simp: inbox_defs reader_has_def)
    next
      case False
      then show ?thesis unfolding pull_data(1) by (intro consumer_other [OF t]) (simp_all add: inbox_defs)
    qed
  next
    case (pull_prio c roff x)
    have r: "roff = of_nat (roff_ix s c)" "reader_has k s (roff_ix s c)" "x = fst (content s (roff_ix s c))"
      using t [of c] pull_prio(2) by simp_all
    have "elem_prio s (roff_ix s c mod 2 ^ k) = snd (content s (roff_ix s c))"
      using ringD(4) [OF i(2), of "roff_ix s c mod 2 ^ k"] positionsD(3) [OF i(3), of "roff_ix s c"] r(2)
      by (simp add: reader_has_def) (metis snd_conv)
    show ?thesis
    proof (cases "d = c")
      case True
      then show ?thesis using r element_of_nat [OF k(2), of "roff_ix s c"] \<open>elem_prio s (roff_ix s c mod 2 ^ k) = snd (content s (roff_ix s c))\<close> unfolding pull_prio(1) by (auto simp: inbox_defs reader_has_def prod_eq_iff)
    next
      case False
      then show ?thesis unfolding pull_prio(1) by (intro consumer_other [OF t]) (simp_all add: inbox_defs)
    qed
  next
    case (pull_store c roff x pr)
    have r: "roff = of_nat (roff_ix s c)" "reader_has k s (roff_ix s c)"
      using t [of c] pull_store(2) by simp_all
    show ?thesis
    proof (cases "d = c")
      case False
      have rc: "reading (consumer_at s c)" using pull_store(2) by simp
      have "roff_ix s d mod 2 ^ k \<noteq> roff_ix s c mod 2 ^ k" if "reading (consumer_at s d)"
        using readingD(2) [OF t that] readingD(2) [OF t rc] ticketsD(4) [OF i(4) that rc] False by metis
      then have "consumer_ok k s' (roff_ix s d) (consumer_at s d)"
        using r(1) element_of_nat [OF k(2), of "roff_ix s c"]
        unfolding pull_store(1) by (intro consumer_ok_frame [OF t]) (auto simp: inbox_defs)
      then show ?thesis using False unfolding pull_store(1) by (simp add: inbox_defs)
    qed (simp add: pull_store(1) inbox_defs)
  }
qed (use inbox_invD(4) [OF inv] in \<open>simp_all add: inbox_defs consumer_ok_same [OF ticketsD(2)]\<close>)


text \<open>A thread comes to hold a position by the exchange, which gives it the next one.\<close>

lemma writing_step:
  assumes "inbox_move k s s'" and inv: "inbox_inv k s" and "writing (producer_at s' a)"
  shows "(writing (producer_at s a) \<and> woff_ix s' a = woff_ix s a) \<or>
    (woff_ix s' a = write_ix s + 1 \<and> (\<forall>b. b \<noteq> a \<longrightarrow> producer_at s' b = producer_at s b \<and> woff_ix s' b = woff_ix s b))"
  using assms(1,3) by cases (auto simp: inbox_defs split: if_splits)

lemma reading_step:
  assumes "inbox_move k s s'" and inv: "inbox_inv k s" and "reading (consumer_at s' c)"
  shows "(reading (consumer_at s c) \<and> roff_ix s' c = roff_ix s c) \<or>
    (roff_ix s' c = read_ix s \<and> (\<forall>d. d \<noteq> c \<longrightarrow> consumer_at s' d = consumer_at s d \<and> roff_ix s' d = roff_ix s d))"
  using assms(1)
proof cases
  case (pull_cas_ok e roff)
  note i = inbox_invD [OF inv]
  have r: "roff = of_nat (roff_ix s e)" "roff_ix s e \<le> read_ix s" "roff_ix s e \<in> written s"
    using ticketsD(2) [OF i(4), of e] pull_cas_ok(2) by simp_all
  have "read_offset s = of_nat (roff_ix s e)" using r(1) pull_cas_ok(3) by simp
  then have "read_ix s = roff_ix s e" by (rule pull_verdict [OF i(1-3) r(2) pull_cas_ok(4) _ r(3)])
  then show ?thesis using assms(3) unfolding pull_cas_ok(1) by (auto simp: inbox_defs split: if_splits)
qed (use assms(3) in \<open>simp_all add: inbox_defs split: if_splits\<close>)

lemma tickets_step:
  assumes "inbox_move k s s'" and inv: "inbox_inv k s" and k: "1 \<le> k" "k \<le> 63"
  shows "tickets_ok k s'"
proof -
  note i = inbox_invD [OF inv]
  have w: "writing (producer_at s a) \<Longrightarrow> woff_ix s a \<le> write_ix s" for a
    using writingD(1) [OF ticketsD(1) [OF i(4)]] .
  have r: "reading (consumer_at s c) \<Longrightarrow> roff_ix s c < read_ix s" for c
    using readingD(1) [OF ticketsD(2) [OF i(4)]] .
  have "a = b" if "writing (producer_at s' a)" "writing (producer_at s' b)" "woff_ix s' a = woff_ix s' b" for a b
  proof (rule ccontr)
    assume n: "a \<noteq> b"
    show False
      using writing_step [OF assms(1,2) that(1)] writing_step [OF assms(1,2) that(2)]
    proof (elim disjE conjE)
      assume "writing (producer_at s a)" "writing (producer_at s b)" "woff_ix s' a = woff_ix s a" "woff_ix s' b = woff_ix s b"
      then show False using ticketsD(3) [OF i(4), of a b] that(3) n by simp
    qed (use n that w [of a] w [of b] in simp_all)
  qed
  moreover have "c = d" if "reading (consumer_at s' c)" "reading (consumer_at s' d)" "roff_ix s' c = roff_ix s' d" for c d
  proof (rule ccontr)
    assume n: "c \<noteq> d"
    show False
      using reading_step [OF assms(1,2) that(1)] reading_step [OF assms(1,2) that(2)]
    proof (elim disjE conjE)
      assume "reading (consumer_at s c)" "reading (consumer_at s d)" "roff_ix s' c = roff_ix s c" "roff_ix s' d = roff_ix s d"
      then show False using ticketsD(4) [OF i(4), of c d] that(3) n by simp
    qed (use n that r [of c] r [of d] in simp_all)
  qed
  ultimately show ?thesis using producers_step [OF assms] consumers_step [OF assms] by (simp add: tickets_ok_def)
qed

lemma returnedD:
  assumes "returned_ok k s"
  shows "distinct (map fst (returned s))"
    "p \<in> set (map fst (returned s)) \<longleftrightarrow> p < read_ix s \<and> p < position_of s (p mod 2 ^ k)"
    "(p, x) \<in> set (returned s) \<Longrightarrow> x = content s p"
    "p < read_ix s \<Longrightarrow> position_of s (p mod 2 ^ k) = p \<Longrightarrow> \<exists>c. reading (consumer_at s c) \<and> roff_ix s c = p"
  using assms unfolding returned_ok_def by blast+

lemma returned_okI:
  assumes "distinct (map fst (returned s))"
    "\<And>p. p \<in> set (map fst (returned s)) \<longleftrightarrow> p < read_ix s \<and> p < position_of s (p mod 2 ^ k)"
    "\<And>p x. (p, x) \<in> set (returned s) \<Longrightarrow> x = content s p"
    "\<And>p. p < read_ix s \<Longrightarrow> position_of s (p mod 2 ^ k) = p \<Longrightarrow> \<exists>c. reading (consumer_at s c) \<and> roff_ix s c = p"
  shows "returned_ok k s"
  using assms unfolding returned_ok_def by blast

text \<open>Steps that leave the ring and the readers alone.\<close>

lemma returned_same:
  assumes "returned_ok k s" and "returned s' = returned s" "read_ix s' = read_ix s" "position_of s' = position_of s"
    and "\<And>p. p < read_ix s \<Longrightarrow> content s' p = content s p"
    and "\<And>c. reading (consumer_at s c) \<Longrightarrow> reading (consumer_at s' c) \<and> roff_ix s' c = roff_ix s c"
  shows "returned_ok k s'"
proof (rule returned_okI)
  note r = returnedD [OF assms(1)]
  show "distinct (map fst (returned s'))" using r(1) assms(2) by simp
  show "p \<in> set (map fst (returned s')) \<longleftrightarrow> p < read_ix s' \<and> p < position_of s' (p mod 2 ^ k)" for p
    using r(2) assms(2-4) by simp
  show "x = content s' p" if "(p, x) \<in> set (returned s')" for p x
  proof -
    have m: "(p, x) \<in> set (returned s)" using that assms(2) by simp
    then have "p \<in> set (map fst (returned s))" by force
    then show ?thesis using r(3) [OF m] r(2) [of p] assms(5) [of p] by simp
  qed
  show "\<exists>c. reading (consumer_at s' c) \<and> roff_ix s' c = p" if "p < read_ix s'" "position_of s' (p mod 2 ^ k) = p" for p
    using r(4) [of p] that assms(3,4,6) by metis
qed

lemma returned_step:
  assumes "inbox_move k s s'" and inv: "inbox_inv k s" and k: "1 \<le> k" "k \<le> 63"
  shows "returned_ok k s'"
  using assms(1)
proof cases
  note i = inbox_invD [OF inv]
  {
    case (push_cas_ok a x xs pr woff)
    show ?thesis unfolding push_cas_ok(1)
      by (rule returned_same [OF i(5)]) (use read_le_write [OF i(3)] in \<open>auto simp: inbox_defs\<close>)
  next
    case (pull_cas_ok c roff)
    have r: "roff = of_nat (roff_ix s c)" "roff_ix s c \<le> read_ix s" "roff_ix s c \<in> written s"
      using ticketsD(2) [OF i(4), of c] pull_cas_ok(2) by simp_all
    have "read_offset s = of_nat (roff_ix s c)" using r(1) pull_cas_ok(3) by simp
    note v = pull_verdict [OF i(1-3) r(2) pull_cas_ok(4) this r(3)]
    note o = returnedD [OF i(5)]
    show ?thesis
    proof (rule returned_okI)
      show "distinct (map fst (returned s'))" using o(1) unfolding pull_cas_ok(1) by (simp add: inbox_defs)
      show "p \<in> set (map fst (returned s')) \<longleftrightarrow> p < read_ix s' \<and> p < position_of s' (p mod 2 ^ k)" for p
        using o(2) [of p] v unfolding pull_cas_ok(1) by (cases "p = read_ix s") (simp_all add: inbox_defs less_Suc_eq)
      show "x = content s' p" if "(p, x) \<in> set (returned s')" for p x
        using o(3) [of p x] that unfolding pull_cas_ok(1) by (simp add: inbox_defs)
      fix p assume p: "p < read_ix s'" "position_of s' (p mod 2 ^ k) = p"
      show "\<exists>d. reading (consumer_at s' d) \<and> roff_ix s' d = p"
      proof (cases "p = read_ix s")
        case True
        then show ?thesis using v(1) unfolding pull_cas_ok(1) by (intro exI [of _ c]) (simp add: inbox_defs)
      next
        case False
        then obtain d where d: "reading (consumer_at s d)" "roff_ix s d = p"
          using o(4) [of p] p unfolding pull_cas_ok(1) by (auto simp: inbox_defs)
        then show ?thesis using pull_cas_ok(2) unfolding pull_cas_ok(1) by (intro exI [of _ d]) (auto simp: inbox_defs)
      qed
    qed
  next
    case (pull_store c roff x pr)
    define r where "r = roff_ix s c"
    have t: "roff = of_nat r" "reader_has k s r" "(x, pr) = content s r"
      using ticketsD(2) [OF i(4), of c] pull_store(2) by (simp_all add: r_def)
    have rc: "reading (consumer_at s c)" using pull_store(2) by simp
    have h: "r < read_ix s" "position_of s (r mod 2 ^ k) = r" using t(2) by (simp_all add: reader_has_def)
    have e: "element k roff = r mod 2 ^ k" using t(1) element_of_nat [OF k(2)] by simp
    have s': "returned s' = returned s @ [(r, x, pr)]" "read_ix s' = read_ix s" "content s' = content s"
      "position_of s' = (position_of s)(r mod 2 ^ k := r + 2 ^ k)" "consumer_at s' = (consumer_at s)(c := ConsumerIdle)"
      "roff_ix s' = roff_ix s"
      using e unfolding pull_store(1) by (simp_all add: inbox_defs r_def)
    note o = returnedD [OF i(5)]
    have new: "r \<notin> set (map fst (returned s))" using o(2) [of r] h by simp
    show ?thesis
    proof (rule returned_okI)
      show "distinct (map fst (returned s'))" using o(1) new by (simp add: s')
      show "p \<in> set (map fst (returned s')) \<longleftrightarrow> p < read_ix s' \<and> p < position_of s' (p mod 2 ^ k)" for p
      proof (cases "p mod 2 ^ k = r mod 2 ^ k")
        case True
        have "p \<le> r \<longleftrightarrow> p < r + 2 ^ k"
          using same_lap [of r "2 ^ k" p] True by (metis nat_le_linear order_le_less_trans le_add1 less_add_same_cancel1 zero_less_power zero_less_numeral nat_neq_iff order_less_imp_le)
        then have "p < position_of s' (p mod 2 ^ k) \<longleftrightarrow> p \<le> r" using True by (simp add: s')
        moreover have "p < position_of s (p mod 2 ^ k) \<longleftrightarrow> p < r" using True h(2) by simp
        moreover have "p \<in> set (map fst (returned s')) \<longleftrightarrow> p \<in> set (map fst (returned s)) \<or> p = r" by (simp add: s' disj_commute)
        ultimately show ?thesis using o(2) [of p] h(1) by (auto simp: s'(2))
      next
        case False
        then have "p \<noteq> r" by auto
        then show ?thesis using o(2) [of p] False by (simp add: s')
      qed
      show "y = content s' p" if "(p, y) \<in> set (returned s')" for p y
        using o(3) [of p y] that t(3) by (auto simp: s')
      fix p assume p: "p < read_ix s'" "position_of s' (p mod 2 ^ k) = p"
      have n: "p mod 2 ^ k \<noteq> r mod 2 ^ k"
      proof
        assume q: "p mod 2 ^ k = r mod 2 ^ k"
        then have pr: "p = r + 2 ^ k" using p(2) by (simp add: s')
        have "p < write_ix s" using p(1) read_le_write [OF i(3)] by (simp add: s')
        then have "p \<le> r" using positionsD(1) [OF i(3), of p] q h(2) by simp
        then show False using pr by simp
      qed
      then obtain d where d: "reading (consumer_at s d)" "roff_ix s d = p"
        using o(4) [of p] p by (auto simp: s')
      then have "d \<noteq> c" using n by (auto simp: r_def)
      then show "\<exists>d. reading (consumer_at s' d) \<and> roff_ix s' d = p" using d by (intro exI [of _ d]) (simp add: s')
    qed
  }
qed (use inbox_invD(5) [OF inv] in \<open>auto simp: inbox_defs intro!: returned_same [where s = s]\<close>)

definition size_ok :: "nat \<Rightarrow> bool" where
  "size_ok k \<longleftrightarrow> 1 \<le> k \<and> k \<le> 63"

lemma inbox_inv_step:
  assumes "size_ok k \<and> inbox_inv k s" and "inbox_move k s s'"
  shows "size_ok k \<and> inbox_inv k s'"
proof -
  have k: "1 \<le> k" "k \<le> 63" and i: "inbox_inv k s" using assms(1) by (simp_all add: size_ok_def)
  show ?thesis
    using offsets_step [OF assms(2) inbox_invD(1) [OF i]] ring_step [OF assms(2) i k]
      positions_step [OF assms(2) i k] tickets_step [OF assms(2) i k] returned_step [OF assms(2) i k] assms(1)
    by (simp add: inbox_inv_def)
qed

lemma inbox_inv_start: "inbox_start k s \<Longrightarrow> size_ok k \<and> inbox_inv k s"
  by (simp add: inbox_start_def inbox_inv_def inbox_new_def offsets_ok_def ring_ok_def positions_ok_def tickets_ok_def
    returned_ok_def size_ok_def)

section \<open>The queue it implements\<close>

definition inbox_abs :: "inbox \<Rightarrow> (nat \<times> size_t) fifo" where
  "inbox_abs s = (map (content s) [0..<write_ix s], map (content s) [0..<read_ix s])"

lemma inbox_sim_step:
  assumes "size_ok k \<and> inbox_inv k s" and "inbox_move k s s'"
  shows "inbox_abs s' = inbox_abs s \<or> fifo_step (2 ^ k) (inbox_abs s) (inbox_abs s')"
  using assms(2)
proof cases
  have i: "inbox_inv k s" using assms(1) by simp
  note i = inbox_invD [OF i]
  {
    case (push_cas_ok a x xs pr woff)
    have w: "woff = of_nat (woff_ix s a)" "woff_ix s a \<le> write_ix s" "woff_ix s a \<le> position_of s (woff_ix s a mod 2 ^ k)"
      using ticketsD(1) [OF i(4), of a] push_cas_ok(2) by simp_all
    have "write_offset s = of_nat (woff_ix s a)" using w(1) push_cas_ok(3) by simp
    note v = claim_verdict [OF i(1-3) w(2) push_cas_ok(4) this w(3)]
    have "write_ix s < read_ix s + 2 ^ k" using ringD(2) [OF i(2), of "woff_ix s a mod 2 ^ k"] v by simp
    then have "fifo_step (2 ^ k) (inbox_abs s)
      (map (content s) [0..<write_ix s] @ [(x, pr)], map (content s) [0..<read_ix s])"
      unfolding inbox_abs_def by (intro fifo_push) simp
    moreover have "inbox_abs s' = (map (content s) [0..<write_ix s] @ [(x, pr)], map (content s) [0..<read_ix s])"
      using read_le_write [OF i(3)] unfolding push_cas_ok(1) inbox_abs_def by (simp add: inbox_defs)
    ultimately show ?thesis by simp
  next
    case (pull_cas_ok c roff)
    have r: "roff = of_nat (roff_ix s c)" "roff_ix s c \<le> read_ix s" "roff_ix s c \<in> written s"
      using ticketsD(2) [OF i(4), of c] pull_cas_ok(2) by simp_all
    have "read_offset s = of_nat (roff_ix s c)" using r(1) pull_cas_ok(3) by simp
    note v = pull_verdict [OF i(1-3) r(2) pull_cas_ok(4) this r(3)]
    have lt: "read_ix s < write_ix s" using positionsD(2) [OF i(3) r(3)] v(1) by simp
    then have "fifo_step (2 ^ k) (inbox_abs s)
      (map (content s) [0..<write_ix s], map (content s) [0..<read_ix s] @ [map (content s) [0..<write_ix s] ! length (map (content s) [0..<read_ix s])])"
      unfolding inbox_abs_def by (intro fifo_pull) simp
    then show ?thesis using lt unfolding pull_cas_ok(1) inbox_abs_def by (simp add: inbox_defs)
  }
qed (simp_all add: inbox_abs_def inbox_defs)

lemma inbox_abs_start: "inbox_start k s \<Longrightarrow> fifo_start (inbox_abs s)"
  by (simp add: inbox_start_def inbox_new_def inbox_abs_def fifo_start_def)

interpretation inbox: refines "inbox_start k" "inbox_move k" "\<lambda>s. size_ok k \<and> inbox_inv k s"
    inbox_abs fifo_start "fifo_step (2 ^ k)" for k
  by unfold_locales (fact inbox_inv_start inbox_inv_step inbox_abs_start inbox_sim_step)+

lemma inbox_refines_fifo_parts:
  assumes "reach (inbox_start k) (inbox_move k) s"
  shows "reach fifo_start (fifo_step (2 ^ k)) (inbox_abs s)"
    and "distinct (map fst (returned s))"
    and "\<forall>(p, x) \<in> set (returned s). p < read_ix s \<and> x = fst (inbox_abs s) ! p"
    and "p < read_ix s \<longleftrightarrow> p \<in> set (map fst (returned s)) \<or>
      (\<exists>c. reading (consumer_at s c) \<and> roff_ix s c = p)"
proof -
  have "inbox_inv k s" using inbox.holds [OF assms] by simp
  note i = inbox_invD [OF this] note r = returnedD [OF i(5)]
  show "reach fifo_start (fifo_step (2 ^ k)) (inbox_abs s)" by (rule inbox.simulates [OF assms])
  show "distinct (map fst (returned s))" by (rule r(1))
  show "\<forall>(p, x) \<in> set (returned s). p < read_ix s \<and> x = fst (inbox_abs s) ! p"
  proof clarify
    fix p x pr assume m: "(p, x, pr) \<in> set (returned s)"
    then have "p \<in> set (map fst (returned s))" by force
    then have "p < read_ix s" using r(2) by simp
    moreover have "(x, pr) = content s p" by (rule r(3) [OF m])
    ultimately show "p < read_ix s \<and> (x, pr) = fst (inbox_abs s) ! p"
      using read_le_write [OF i(3)] by (simp add: inbox_abs_def)
  qed
  have "p \<le> position_of s (p mod 2 ^ k)" if "p < read_ix s"
    using positionsD(1) [OF i(3)] read_le_write [OF i(3)] that by simp
  then show "p < read_ix s \<longleftrightarrow> p \<in> set (map fst (returned s)) \<or> (\<exists>c. reading (consumer_at s c) \<and> roff_ix s c = p)"
    using r(2,4) [of p] readingD(1) [OF ticketsD(2) [OF i(4)]] by (metis le_neq_implies_less)
qed

text \<open>
  C8: The inbox is a bounded first-in-first-out queue: the exchange of \<open>write_offset\<close> pushes, the exchange of
  \<open>read_offset\<close> pulls, and never more than \<open>BlockSize\<close> elements are inside, for any interleaving of producers and
  consumers.  A pull that wins position \<open>p\<close> returns exactly the item and the priority pushed as position \<open>p\<close>, no two
  pulls return the same position, and every position pulled has been returned or is being read by a consumer.
\<close>

theorem inbox_refines_fifo:
  assumes "reach (inbox_start k) (inbox_move k) s"
  shows "reach fifo_start (fifo_step (2 ^ k)) (inbox_abs s) \<and> distinct (map fst (returned s)) \<and>
    (\<forall>(p, x) \<in> set (returned s). p < read_ix s \<and> x = fst (inbox_abs s) ! p) \<and>
    (\<forall>p. p < read_ix s \<longleftrightarrow> p \<in> set (map fst (returned s)) \<or> (\<exists>c. reading (consumer_at s c) \<and> roff_ix s c = p))"
  using inbox_refines_fifo_parts [OF assms] by blast

section \<open>Bulk pushes\<close>

fun pending :: "inbox_producer \<Rightarrow> nat \<Rightarrow> nat list \<Rightarrow> size_t \<Rightarrow> bool" where
  "pending ProducerIdle n items pr = True"
| "pending (PushTry xs pr' woff) n items pr \<longleftrightarrow> xs = drop n items \<and> pr' = pr"
| "pending (PushReload xs pr') n items pr \<longleftrightarrow> xs = drop n items \<and> pr' = pr"
| "pending (PushClaim xs pr' woff) n items pr \<longleftrightarrow> xs = drop n items \<and> pr' = pr"
| "pending (PushData xs pr' woff) n items pr \<longleftrightarrow> xs = drop (n - 1) items \<and> pr' = pr \<and> 0 < n"
| "pending (PushPrio xs pr' woff) n items pr \<longleftrightarrow> xs = drop (n - 1) items \<and> pr' = pr \<and> 0 < n"
| "pending (PushFlags xs pr' woff) n items pr \<longleftrightarrow> xs = drop (n - 1) items \<and> pr' = pr \<and> 0 < n"

definition call_ok :: "inbox \<Rightarrow> nat \<Rightarrow> bool" where
  "call_ok s a \<longleftrightarrow> sorted_wrt (<) (took s a) \<and> (\<forall>p \<in> set (took s a). p < write_ix s) \<and>
     length (took s a) \<le> length (fst (call s a)) \<and>
     map (content s) (took s a) = map (\<lambda>x. (x, snd (call s a))) (take (length (took s a)) (fst (call s a))) \<and>
     pending (producer_at s a) (length (took s a)) (fst (call s a)) (snd (call s a))"

lemma drop_tail: "x # xs = drop (n - 1) items \<Longrightarrow> 0 < n \<Longrightarrow> xs = drop n items"
  by (metis Suc_diff_1 drop_Suc list.sel(3) tl_drop)

lemma call_step:
  assumes "inbox_move k s s'" and ok: "\<forall>a. call_ok s a"
  shows "call_ok s' b"
  using assms(1)
proof cases
  case (push_cas_ok a x xs pr woff)
  show ?thesis
  proof (cases "b = a")
    case True
    define n where "n = length (took s a)"
    have c: "call_ok s a" using ok by simp
    then have d: "x # xs = drop n (fst (call s a))" "pr = snd (call s a)" using push_cas_ok(2) by (simp_all add: call_ok_def n_def)
    then have n: "n < length (fst (call s a))" "fst (call s a) ! n = x"
      by (metis drop_eq_Nil2 leI list.distinct(1), metis d(1) drop_eq_Nil2 leI list.distinct(1) nth_via_drop)
    have "map (content s') (took s a) = map (content s) (took s a)"
      using c unfolding push_cas_ok(1) by (auto simp: inbox_defs call_ok_def)
    then show ?thesis using c d n True unfolding push_cas_ok(1) call_ok_def n_def
      by (auto simp: inbox_defs take_Suc_conv_app_nth sorted_wrt_append)
  next
    case False
    have c: "call_ok s b" using ok by simp
    then have "map (content s') (took s b) = map (content s) (took s b)"
      unfolding push_cas_ok(1) by (auto simp: inbox_defs call_ok_def)
    then show ?thesis using c False unfolding push_cas_ok(1) call_ok_def by (auto simp: inbox_defs)
  qed
next
  case (push_store a x xs pr woff)
  have "call_ok s a" "call_ok s b" using ok by simp_all
  then show ?thesis using push_store(2) drop_tail [of x xs "length (took s a)" "fst (call s a)"]
    unfolding push_store(1) call_ok_def by (cases "b = a") (simp_all add: inbox_defs)
qed (use ok [rule_format, of b] in \<open>auto simp: inbox_defs call_ok_def\<close>)

lemma call_start: "inbox_start k s \<Longrightarrow> call_ok s a"
  by (simp add: inbox_start_def inbox_new_def call_ok_def)

interpretation inbox_calls: invariant_of "inbox_start k" "inbox_move k" "\<lambda>s. \<forall>a. call_ok s a" for k
  by unfold_locales (auto intro: call_start call_step)

lemma inbox_bulk_prefix_parts:
  fixes a :: nat
  assumes "reach (inbox_start k) (inbox_move k) s"
  defines "n \<equiv> length (took s a)"
  shows "sorted_wrt (<) (took s a)"
    and "map ((!) (fst (inbox_abs s))) (took s a) = map (\<lambda>x. (x, snd (call s a))) (take n (fst (call s a)))"
    and "n \<le> length (fst (call s a))"
proof -
  have c: "call_ok s a" using inbox_calls.holds [OF assms(1)] by simp
  then show "sorted_wrt (<) (took s a)" "n \<le> length (fst (call s a))" by (simp_all add: call_ok_def n_def)
  have "map ((!) (fst (inbox_abs s))) (took s a) = map (content s) (took s a)"
    by (rule map_cong [OF refl]) (use c in \<open>simp add: call_ok_def inbox_abs_def\<close>)
  also have "\<dots> = map (\<lambda>x. (x, snd (call s a))) (take n (fst (call s a)))" using c by (simp add: call_ok_def n_def)
  finally show "map ((!) (fst (inbox_abs s))) (took s a) = map (\<lambda>x. (x, snd (call s a))) (take n (fst (call s a)))" .
qed

text \<open>
  \<open>try_push_bulk\<close> enqueues a prefix of what the iterator yields, in order, and stops at the first element that finds
  the queue full: the positions a call has taken increase, and they hold the first so many of its items with its
  priority.  The number it returns is the length of that prefix.
\<close>

lemma inbox_bulk_prefix:
  fixes a :: nat
  assumes "reach (inbox_start k) (inbox_move k) s"
  defines "n \<equiv> length (took s a)"
  shows "sorted_wrt (<) (took s a) \<and> n \<le> length (fst (call s a)) \<and>
    map ((!) (fst (inbox_abs s))) (took s a) = map (\<lambda>x. (x, snd (call s a))) (take n (fst (call s a)))"
  using inbox_bulk_prefix_parts [OF assms(1)] unfolding n_def by blast

section \<open>Full and empty\<close>

lemma inbox_full_and_empty_parts:
  assumes "reach (inbox_start k) (inbox_move k) s" and "k \<le> 62"
  defines "w \<equiv> push_diff k s (write_offset s)" and "r \<equiv> pull_diff k s (read_offset s)"
    and "quiet \<equiv> (\<forall>a. \<not> writing (producer_at s a)) \<and> (\<forall>c. \<not> reading (consumer_at s c))"
    and "inside \<equiv> write_ix s - read_ix s"
  shows "read_ix s \<in> written s \<Longrightarrow> r = 0" and "read_ix s \<notin> written s \<Longrightarrow> r < 0"
    and "quiet \<Longrightarrow> inside < 2 ^ k \<Longrightarrow> w = 0" and "quiet \<Longrightarrow> inside = 2 ^ k \<Longrightarrow> w < 0"
    and "quiet \<Longrightarrow> 0 < inside \<Longrightarrow> r = 0 \<and> \<not> inbox_empty s s" and "quiet \<Longrightarrow> inside = 0 \<Longrightarrow> r < 0 \<and> inbox_empty s s"
    and "inside \<le> 2 ^ k"
proof -
  have inv: "inbox_inv k s" and k: "1 \<le> k" using inbox.holds [OF assms(1)] by (simp_all add: size_ok_def)
  note i = inbox_invD [OF inv]
  let ?wi = "write_ix s" and ?ri = "read_ix s" and ?K = "2 ^ k :: nat"
  have K: "?K \<le> 2 ^ 62" by (rule power_increasing) (use assms(2) in simp_all)
  have "2 ^ 1 \<le> ?K" by (rule power_increasing) (use k in simp_all)
  then have K2: "2 \<le> ?K" by simp
  note K = K K2
  have le: "?ri \<le> ?wi" "?wi \<le> ?ri + ?K" by (rule read_le_write [OF i(3)], rule write_le_read [OF i(2,3)])
  then show "inside \<le> ?K" by (simp add: inside_def)
  have o: "write_offset s = of_nat ?wi" "read_offset s = of_nat ?ri" using i(1) by (simp_all add: offsets_ok_def)
  have e: "element k (of_nat p) = p mod ?K" for p by (rule element_of_nat) (use assms(2) in simp)
  have flags: "elem_flags s (p mod ?K) = of_nat (position_of s (p mod ?K) + (if position_of s (p mod ?K) \<in> written s then 1 else 0))" for p
    by (rule ringD(3) [OF i(2)]) simp
  have wi: "position_of s (?wi mod ?K) = ?wi \<or> position_of s (?wi mod ?K) + ?K = ?wi"
  proof -
    have P: "position_of s (?wi mod ?K) mod ?K = ?wi mod ?K" "position_of s (?wi mod ?K) < ?ri + ?K"
      using ringD(1,2) [OF i(2), of "?wi mod ?K"] by simp_all
    have "?wi \<le> position_of s (?wi mod ?K) + ?K" by (rule position_lower [OF i(3)]) simp
    moreover have "(position_of s (?wi mod ?K) + ?K) mod ?K = ?wi mod ?K" using P(1) by simp
    ultimately show ?thesis
      using same_lap [of "?wi" ?K "position_of s (?wi mod ?K)"] same_lap [of "?wi" ?K "position_of s (?wi mod ?K) + ?K"]
        P le(1) by (cases "?wi \<le> position_of s (?wi mod ?K)") simp_all
  qed
  have unwritten: "?wi \<notin> written s" using positionsD(2) [OF i(3), of ?wi] by auto
  have w: "w = int (position_of s (?wi mod ?K) + (if position_of s (?wi mod ?K) \<in> written s then 1 else 0)) - int ?wi"
    unfolding w_def push_diff_def o e flags by (rule sint_diff_near) (use wi K in auto)
  have r: "r = int (position_of s (?ri mod ?K) + (if position_of s (?ri mod ?K) \<in> written s then 1 else 0)) - int (?ri + 1)"
    if "position_of s (?ri mod ?K) = ?ri \<or> position_of s (?ri mod ?K) + ?K = ?ri"
  proof -
    have "r = sint (of_nat (position_of s (?ri mod ?K) + (if position_of s (?ri mod ?K) \<in> written s then 1 else 0)) - of_nat (?ri + 1) :: size_t)"
      unfolding r_def pull_diff_def o e flags by (simp add: add.commute)
    also have "\<dots> = int (position_of s (?ri mod ?K) + (if position_of s (?ri mod ?K) \<in> written s then 1 else 0)) - int (?ri + 1)"
      by (rule sint_diff_near) (use that K in auto)
    finally show ?thesis .
  qed
  have ri: "position_of s (?ri mod ?K) = ?ri" if "?ri < ?wi"
    using position_of_written [OF i(2,3) that] by simp
  show r0: "r = 0" if "?ri \<in> written s"
    using r ri positionsD(2) [OF i(3) that] that by simp
  show r1: "r < 0" if "?ri \<notin> written s"
  proof (cases "?ri < ?wi")
    case True
    then show ?thesis using r ri that by simp
  next
    case False
    then have "?ri = ?wi" using le(1) by simp
    then show ?thesis using r wi that K by (auto split: if_splits)
  qed
  have "p \<in> written s" if "quiet" "p < ?wi" for p
    using positionsD(4) [OF i(3) that(2)] that(1) by (auto simp: quiet_def)
  note written = this
  show "w = 0" if q: "quiet" and l: "inside < ?K"
  proof -
    have "position_of s (?wi mod ?K) + ?K \<noteq> ?wi"
    proof
      assume a: "position_of s (?wi mod ?K) + ?K = ?wi"
      define p where "p = position_of s (?wi mod ?K)"
      have "p mod ?K = ?wi mod ?K" using ringD(1) [OF i(2), of "?wi mod ?K"] by (simp add: p_def)
      then have "position_of s (p mod ?K) = p" by (simp add: p_def)
      moreover have "p < ?ri" using a l le K by (simp add: p_def inside_def)
      ultimately show False using returnedD(4) [OF i(5), of p] q by (auto simp: quiet_def)
    qed
    then show "w = 0" using w wi unwritten by simp
  qed
  show "w < 0" if "quiet" "inside = ?K"
  proof -
    have "?wi = ?ri + ?K" using that(2) le K by (simp add: inside_def)
    then have "position_of s (?wi mod ?K) < ?wi" using ringD(2) [OF i(2), of "?wi mod ?K"] by simp
    then show ?thesis using w wi K by (auto split: if_splits)
  qed
  have empty: "inbox_empty s s \<longleftrightarrow> ?ri = ?wi"
  proof
    assume "inbox_empty s s"
    then have "of_nat ?ri = (of_nat ?wi :: size_t)" by (simp add: inbox_empty_def Let_def o)
    then show "?ri = ?wi" by (rule of_nat_eq_near) (use le K in simp_all)
  qed (simp add: inbox_empty_def Let_def o)
  show "r = 0 \<and> \<not> inbox_empty s s" if "quiet" "0 < inside"
    using r0 written [OF that(1), of ?ri] that(2) empty by (simp add: inside_def)
  show "r < 0 \<and> inbox_empty s s" if "quiet" "inside = 0"
    using r1 unwritten that(2) le(1) empty by (simp add: inside_def)
qed

text \<open>
  With no push or pull in hand, a producer that sees the current \<open>write_offset\<close> reports full exactly when
  \<open>BlockSize\<close> elements are inside and goes for a ticket otherwise; a consumer reports empty exactly when nothing is
  inside, as \<open>empty()\<close> does when nothing happens between its two loads.  With pushes or pulls in hand a consumer still goes for a ticket exactly when the element
  at \<open>read_offset\<close> has been written.
\<close>

lemma inbox_full_and_empty:
  assumes "reach (inbox_start k) (inbox_move k) s" and "k \<le> 62"
  defines "w \<equiv> push_diff k s (write_offset s)" and "r \<equiv> pull_diff k s (read_offset s)"
    and "quiet \<equiv> (\<forall>a. \<not> writing (producer_at s a)) \<and> (\<forall>c. \<not> reading (consumer_at s c))"
    and "inside \<equiv> write_ix s - read_ix s"
  shows "(if read_ix s \<in> written s then r = 0 else r < 0) \<and> inside \<le> 2 ^ k \<and>
    (quiet \<longrightarrow> (if inside < 2 ^ k then w = 0 else w < 0) \<and>
      (if 0 < inside then r = 0 \<and> \<not> inbox_empty s s else r < 0 \<and> inbox_empty s s))"
proof -
  note p = inbox_full_and_empty_parts [OF assms(1,2), folded w_def r_def quiet_def inside_def]
  have "inside < 2 ^ k \<or> inside = 2 ^ k" "0 < inside \<or> inside = 0" using p(7) by auto
  then show ?thesis using p by auto
qed

text \<open>
  What \<open>empty()\<close> says with pushes and pulls between its two loads: that it is empty exactly when the consumers have by then
  claimed the elements that were inside when it began, and no others.
\<close>

lemma inbox_empty_loads:
  assumes "reach (inbox_start k) (inbox_move k) s" and "reach (inbox_start k) (inbox_move k) s'"
    and "\<bar>int (write_ix s) - int (read_ix s')\<bar> < 2 ^ 63"
  shows "inbox_empty s s' \<longleftrightarrow> read_ix s' = write_ix s"
proof -
  have "write_offset s = of_nat (write_ix s)" "read_offset s' = of_nat (read_ix s')"
    using inbox_invD(1) [OF conjunct2 [OF inbox.holds [OF assms(1)]]] inbox_invD(1) [OF conjunct2 [OF inbox.holds [OF assms(2)]]]
    by (simp_all add: offsets_ok_def)
  moreover have "read_ix s' = write_ix s" if "of_nat (read_ix s') = (of_nat (write_ix s) :: size_t)"
    by (rule of_nat_eq_near [OF that]) (use assms(3) in simp_all)
  ultimately show ?thesis by (auto simp: inbox_empty_def Let_def)
qed

section \<open>Runs\<close>

text \<open>An undisturbed push of an item, an undisturbed pull.\<close>

definition pushed_once :: "nat \<Rightarrow> nat \<Rightarrow> size_t \<Rightarrow> inbox \<Rightarrow> inbox" where
  "pushed_once k x pr s = (let w = write_offset s; e = element k w in
     s\<lparr>write_offset := w + 1, elem_data := (elem_data s)(e := x), elem_prio := (elem_prio s)(e := pr),
       elem_flags := (elem_flags s)(e := w + 1), producer_at := (producer_at s)(0 := ProducerIdle),
       write_ix := write_ix s + 1, written := insert (write_ix s) (written s),
       content := (content s)(write_ix s := (x, pr)), woff_ix := (woff_ix s)(0 := write_ix s + 1),
       call := (call s)(0 := ([x], pr)), took := (took s)(0 := [write_ix s])\<rparr>)"

definition pulled_once :: "nat \<Rightarrow> inbox \<Rightarrow> inbox" where
  "pulled_once k s = (let r = read_offset s; e = element k r in
     s\<lparr>read_offset := r + 1, elem_flags := (elem_flags s)(e := r + of_nat (2 ^ k)),
       consumer_at := (consumer_at s)(0 := ConsumerIdle), read_ix := read_ix s + 1,
       position_of := (position_of s)(e := read_ix s + 2 ^ k), roff_ix := (roff_ix s)(0 := read_ix s),
       returned := returned s @ [(read_ix s, elem_data s e, elem_prio s e)]\<rparr>)"

lemma push_run:
  assumes "producer_at s 0 = ProducerIdle" and "push_diff k s (write_offset s) = 0"
  shows "(inbox_move k)\<^sup>*\<^sup>* s (pushed_once k x pr s)"
proof -
  define s1 where "s1 = load_woff 0 [x] pr (s\<lparr>call := (call s)(0 := ([x], pr)), took := (took s)(0 := [])\<rparr>)"
  define s2 where "s2 = set_producer 0 (PushClaim [x] pr (write_offset s)) s1"
  define s3 where "s3 = take_ticket 0 x [] pr (write_offset s) s2"
  define s4 where "s4 = set_producer 0 (PushPrio [x] pr (write_offset s + 1))
    (s3\<lparr>elem_data := (elem_data s3)(element k (write_offset s + 1 - 1) := x)\<rparr>)"
  define s5 where "s5 = set_producer 0 (PushFlags [x] pr (write_offset s + 1))
    (s4\<lparr>elem_prio := (elem_prio s4)(element k (write_offset s + 1 - 1) := pr)\<rparr>)"
  note d = s1_def s2_def s3_def s4_def s5_def inbox_defs
  have "inbox_move k s s1" unfolding s1_def by (rule push_load) (simp_all add: assms)
  moreover have "inbox_move k s1 s2"
  proof -
    have "push_diff k s1 (write_offset s) = 0" using assms(2) by (simp add: push_diff_def d)
    then show ?thesis using push_flags [of s1 0 "[x]" pr "write_offset s" k] by (simp add: d)
  qed
  moreover have "inbox_move k s2 s3" unfolding s3_def by (rule push_cas_ok) (simp_all add: d)
  moreover have "inbox_move k s3 s4" unfolding s4_def by (rule push_data [where xs = "[]"]) (simp add: d)
  moreover have "inbox_move k s4 s5" unfolding s5_def by (rule push_prio) (simp add: d)
  moreover have "inbox_move k s5 (pushed_once k x pr s)"
  proof -
    have "pushed_once k x pr s = set_producer 0 (if [] = ([]::nat list) then ProducerIdle else PushTry [] pr (write_offset s + 1))
      (s5\<lparr>elem_flags := (elem_flags s5)(element k (write_offset s + 1 - 1) := write_offset s + 1),
        written := insert (woff_ix s5 0 - 1) (written s5)\<rparr>)"
      by (simp add: pushed_once_def d Let_def)
    also have "inbox_move k s5 \<dots>" by (rule push_store) (simp add: d)
    finally show ?thesis .
  qed
  ultimately show ?thesis by (meson rtranclp.rtrancl_into_rtrancl rtranclp.rtrancl_refl)
qed

lemma pull_run:
  assumes "consumer_at s 0 = ConsumerIdle" and "pull_diff k s (read_offset s) = 0"
  shows "(inbox_move k)\<^sup>*\<^sup>* s (pulled_once k s)"
proof -
  define r where "r = read_offset s"
  define s1 where "s1 = load_roff 0 s"
  define s2 where "s2 = set_consumer 0 (PullClaim r) s1"
  define s3 where "s3 = take_read_ticket 0 r s2"
  define s4 where "s4 = set_consumer 0 (PullPrio r (elem_data s3 (element k r))) s3"
  define s5 where "s5 = set_consumer 0 (PullFlags r (elem_data s3 (element k r)) (elem_prio s4 (element k r))) s4"
  note d = s1_def s2_def s3_def s4_def s5_def inbox_defs r_def
  have "inbox_move k s s1" unfolding s1_def by (rule pull_load) (simp add: assms)
  moreover have "inbox_move k s1 s2"
  proof -
    have "pull_diff k s1 r = 0" using assms(2) by (simp add: pull_diff_def d)
    then show ?thesis using pull_flags [of s1 0 r k] by (simp add: d)
  qed
  moreover have "inbox_move k s2 s3" unfolding s3_def by (rule pull_cas_ok) (simp_all add: d)
  moreover have "inbox_move k s3 s4" unfolding s4_def by (rule pull_data) (simp add: d)
  moreover have "inbox_move k s4 s5" unfolding s5_def by (rule pull_prio) (simp add: d)
  moreover have "inbox_move k s5 (pulled_once k s)"
  proof -
    have "pulled_once k s = set_consumer 0 ConsumerIdle
      (s5\<lparr>elem_flags := (elem_flags s5)(element k r := r + of_nat (2 ^ k)),
        position_of := (position_of s5)(element k r := roff_ix s5 0 + 2 ^ k),
        returned := returned s5 @ [(roff_ix s5 0, elem_data s3 (element k r), elem_prio s4 (element k r))]\<rparr>)"
      by (simp add: pulled_once_def d Let_def)
    also have "inbox_move k s5 \<dots>" by (rule pull_store) (simp add: d)
    finally show ?thesis .
  qed
  ultimately show ?thesis by (meson rtranclp.rtrancl_into_rtrancl rtranclp.rtrancl_refl)
qed

text \<open>One item pushed and pulled.\<close>

definition inbox_example :: inbox where
  "inbox_example = pulled_once 1 (pushed_once 1 7 2 (inbox_new 1))"

lemma inbox_example_reach: "reach (inbox_start 1) (inbox_move 1) inbox_example"
  unfolding inbox_example_def
  by (rule reach_rtranclp [OF pull_run reach_rtranclp [OF push_run reach_start]])
    (simp_all add: pushed_once_def inbox_new_def push_diff_def pull_diff_def element_def inbox_start_def Let_def)

lemma inbox_example_state: "returned inbox_example = [(0, 7, 2)]" "write_ix inbox_example = 1" "read_ix inbox_example = 1"
    "inbox_abs inbox_example = ([(7, 2)], [(7, 2)])" "took inbox_example 0 = [0]" "call inbox_example 0 = ([7], 2)"
    "producer_at inbox_example a = ProducerIdle" "consumer_at inbox_example c = ConsumerIdle"
    "write_offset inbox_example = 1" "read_offset inbox_example = 1"
  by (simp_all add: inbox_example_def inbox_abs_def pushed_once_def pulled_once_def inbox_new_def element_def Let_def)

theorem inbox_refines_fifo_witness:
  "reach fifo_start (fifo_step 2) ([(7, 2)], [(7, 2)::nat \<times> size_t]) \<and> (0 < read_ix inbox_example) = (0 \<in> set (map fst (returned inbox_example)) \<or>
      (\<exists>c. reading (consumer_at inbox_example c) \<and> roff_ix inbox_example c = 0))"
  using inbox_refines_fifo [OF inbox_example_reach] by (simp add: inbox_example_state)

theorem inbox_bulk_prefix_witness: "map ((!) [(7, 2::size_t)]) [0] = map (\<lambda>x. (x, 2)) (take 1 [7::nat])"
  using inbox_bulk_prefix [OF inbox_example_reach, of 0] by (simp add: inbox_example_state)

theorem inbox_full_and_empty_witness: "push_diff 1 inbox_example 1 = 0 \<and> pull_diff 1 inbox_example 1 < 0"
  using inbox_full_and_empty [OF inbox_example_reach] by (simp add: inbox_example_state split: if_splits)

text \<open>
  C40: The class accepts \<open>BlockSize\<close> 1, but then the flags of a full element are those of an element ready for the next
  position: a second push finds room in a full queue and overwrites the element that waits to be read.
\<close>

theorem inbox_of_one_overwrites:
  "\<exists>s. (inbox_move 0)\<^sup>*\<^sup>* (inbox_new 0) s \<and> producer_at s 0 = ProducerIdle \<and> fst (inbox_abs s) = [(5, 0), (6, 0)] \<and>
     read_ix s = 0 \<and> pull_diff 0 s (read_offset s) > 0 \<and> elem_data s 0 = 6"
proof (intro exI conjI)
  let ?s = "pushed_once 0 6 0 (pushed_once 0 5 0 (inbox_new 0))"
  show "(inbox_move 0)\<^sup>*\<^sup>* (inbox_new 0) ?s"
    by (rule rtranclp_trans [OF push_run push_run])
      (simp_all add: pushed_once_def inbox_new_def push_diff_def element_def Let_def)
qed (simp_all add: inbox_abs_def pushed_once_def inbox_new_def pull_diff_def element_def Let_def)

end
