(* ===== verification/CpuMachine.thy ===== *)
theory CpuMachine
  imports Machines
begin

text \<open>
  The worker threads of \<open>ex_cpu\<close> and the calls that post work to them (\<open>detail/ex_cpu.ipp\<close>, \<open>ex_cpu.hpp\<close>), as a machine
  whose steps are the accesses to shared words and queues, in the build where a bitset is one word.  The queues are
  used through what they promise: an inbox is a first-in-first-out queue that may look empty or full
  (theory \<open>Inbox\<close>), a deque is popped by its owner and stolen from by the others, which may fail (theory \<open>ChaseLev\<close>), the
  ingest queue keeps what is put into it.  Bitsets are sets of thread indexes (theory \<open>AtomicBitmap\<close>).  Work items are
  names.

  No test for emptiness is one access.  \<open>empty()\<close> of an inbox loads \<open>write_offset\<close> and then \<open>read_offset\<close>: two steps, with
  pushes and pulls in between.  \<open>empty()\<close> of the ingest queue goes through the queues of the producers, and what it
  promises is: when it says empty, every item that was there when it began has been taken; when it says no, an item is
  there.  \<open>steal_empty\<close> reads two words of each deque while its owner pushes and pops: its answer is taken to be arbitrary.
\<close>

section \<open>The set-up and the state\<close>

text \<open>What \<open>init\<close> computes: the threads, the range of priorities of each, the matrices, the shared inboxes.\<close>

record cpu_layout =
  thread_count :: nat
  PRIORITY_COUNT :: nat
  range_begin :: "nat \<Rightarrow> nat"
  range_end :: "nat \<Rightarrow> nat"
  waker_row :: "nat \<Rightarrow> nat \<Rightarrow> nat list"       \<comment> \<open>\<open>waker_matrix[prio].get_row(thread)\<close>\<close>
  steal_list :: "nat \<Rightarrow> nat \<Rightarrow> nat list"       \<comment> \<open>priority, thread: the others, in the order of the steal matrix\<close>
  inbox_of :: "nat \<Rightarrow> nat"
  group_size :: "nat \<Rightarrow> nat"
  spins :: nat
  careless_hooks :: bool                      \<comment> \<open>a hook may post to its own thread and return false\<close>

definition handles :: "cpu_layout \<Rightarrow> nat \<Rightarrow> nat \<Rightarrow> bool" where
  "handles L t P \<longleftrightarrow> t < thread_count L \<and> range_begin L t \<le> P \<and> P < range_end L t"

text \<open>\<open>threads_by_priority_bitset[P]\<close>\<close>

definition allowed_threads :: "cpu_layout \<Rightarrow> nat \<Rightarrow> nat set" where
  "allowed_threads L P = {t. t < thread_count L \<and> handles L t P}"

definition sentinel_thread :: "cpu_layout \<Rightarrow> nat \<Rightarrow> nat" where
  "sentinel_thread L P = hd (waker_row L P 0)"

datatype fallback = FALLBACK_WAKE_NONE | FALLBACK_WAKE_WAIT | FALLBACK_WAKE_WAKE

datatype worker =
    Clearing nat                    \<comment> \<open>head of the loop: the next fallback state to clear\<close>
  | StopCheck                       \<comment> \<open>\<open>TOP\<close> of \<open>try_run_some\<close>\<close>
  | PopOwn nat | PullInbox | Dequeue nat | StealFrom nat "nat list"
  | SetWorking nat nat              \<comment> \<open>\<open>run_one\<close>, of an item with a priority\<close>
  | ClrSpinning nat nat | WakeOne nat nat | StoreYield nat nat | ClrStopper nat nat | SetStopper nat nat
  | Running nat nat
  | Hook bool                       \<comment> \<open>\<open>ThreadPostRunHook\<close>; has it posted to its own thread?\<close>
  | SetSpinning | ClrWorking nat
  | SpinInbox nat | SpinInboxRead nat nat              \<comment> \<open>with the \<open>write_offset\<close> that \<open>empty()\<close> has loaded\<close>
  | SpinIngest nat nat | SpinIngestEnd nat nat "nat option" | SpinDeques nat nat "nat list"
  | EndStopper | LoadWait
  | Publish nat nat                 \<comment> \<open>priority, \<open>waitValue\<close>\<close>
  | ClearSpin nat | CheckInbox nat | CheckInboxRead nat nat
  | CheckIngest nat nat | CheckIngestEnd nat nat "nat option" | CheckDeques nat "nat list" nat
  | SetSpinTop | StopCheckEnd nat | Waiting nat | Woken
  | Leaving | Exited

datatype poster =
    NotPosting
  | Inboxing "nat list" nat nat nat            \<comment> \<open>items left, priority, \<open>ThreadHint\<close>, number pushed\<close>
  | HintLoad "nat list" nat nat                \<comment> \<open>\<open>notify_hint\<close>: about to read the working set\<close>
  | HintWake "nat list" nat nat                \<comment> \<open>\<dots> about to wake the slot\<close>
  | Queueing "nat list" nat                    \<comment> \<open>the items that did not go to an inbox\<close>
  | NotifySpin nat nat bool bool               \<comment> \<open>\<open>notify_n\<close>: \<open>Count, Priority, AllowedPriority, FromPost\<close>\<close>
  | NotifyWork nat nat bool bool "nat set"
  | Interrupt nat nat nat bool bool "nat set" "nat set" nat
      \<comment> \<open>priority scanned, \<open>interruptCount\<close>, \<open>Count\<close>, flags, spinning, working, \<open>Priority\<close>\<close>
  | InterruptSlots "nat set" nat nat nat bool bool "nat set" "nat set" nat
  | InterruptCas nat nat "nat set" nat nat nat bool bool "nat set" "nat set" nat
  | Decide bool bool "nat set" "nat set" nat
  | FallbackLoad nat | FallbackExchange nat
  | WakeSlot nat nat                           \<comment> \<open>slot, priority\<close>

datatype teardown_pc = NotTearing | Stopping nat | WakingUp nat | Joining nat | Draining | Cleared

record cpu =
  ingest :: "nat \<Rightarrow> nat list"
  deque_of :: "nat \<Rightarrow> nat \<Rightarrow> nat list"           \<comment> \<open>thread, priority; the head is the top\<close>
  inbox_q :: "nat \<Rightarrow> (nat \<times> nat) list"
  inbox_in :: "nat \<Rightarrow> nat"                     \<comment> \<open>\<open>write_offset\<close> of an inbox, unwrapped\<close>
  inbox_out :: "nat \<Rightarrow> nat"                    \<comment> \<open>\<open>read_offset\<close>\<close>
  dequeued :: "nat \<Rightarrow> nat"                     \<comment> \<open>how many items have been taken from an ingest queue\<close>
  working :: "nat set"
  spinning :: "nat set"
  stoppers :: "nat \<Rightarrow> nat set"
  yield_priority :: "nat \<Rightarrow> nat"
  sleep_wait :: "nat \<Rightarrow> nat"                   \<comment> \<open>unwrapped: a thread is not woken \<open>2 ^ 32\<close> times while it falls asleep\<close>
  fallback_wake_states :: "nat \<Rightarrow> fallback"
  worker_at :: "nat \<Rightarrow> worker"
  spin_flag :: "nat \<Rightarrow> bool"                     \<comment> \<open>the local \<open>spinning\<close>\<close>
  prev_prio :: "nat \<Rightarrow> nat option"               \<comment> \<open>\<open>previousPrio\<close>; \<open>None\<close> is \<open>NO_TASK_RUNNING\<close>\<close>
  cached :: "nat \<Rightarrow> nat \<Rightarrow> nat option"           \<comment> \<open>the cached producer of a thread, per priority\<close>
  poster_at :: "nat \<Rightarrow> poster"                   \<comment> \<open>agents: the worker threads, then the threads outside\<close>
  ref_count :: "nat set"                        \<comment> \<open>the outside threads counted in \<open>ref_count\<close>\<close>
  stop_requested :: "nat \<Rightarrow> bool"
  teardown_at :: teardown_pc
  posted :: "nat multiset"                      \<comment> \<open>history: items given to the calls that post\<close>
  executed :: "nat multiset"                    \<comment> \<open>history: items run\<close>

section \<open>Decisions of the notifications\<close>

text \<open>The slots that \<open>notify_n\<close> may count: those of the priority.\<close>

definition sleeping_in :: "cpu_layout \<Rightarrow> nat \<Rightarrow> nat set \<Rightarrow> nat set \<Rightarrow> nat set" where
  "sleeping_in L P spin work = allowed_threads L P - (spin \<union> work)"

definition interrupt_max :: "cpu_layout \<Rightarrow> nat \<Rightarrow> nat \<Rightarrow> nat set \<Rightarrow> nat set \<Rightarrow> nat" where
  "interrupt_max L Count P spin work =
    (let A = allowed_threads L P; workingThreadCount = card (work \<inter> A);
         sleepingThreadCount = length (waker_row L P 0) - card ((spin \<union> work) \<inter> A)
     in if sleepingThreadCount < Count then min (Count - sleepingThreadCount) workingThreadCount else 0)"

definition notify_start :: "cpu_layout \<Rightarrow> nat \<Rightarrow> bool \<Rightarrow> bool \<Rightarrow> nat set \<Rightarrow> nat set \<Rightarrow> nat \<Rightarrow> poster" where
  "notify_start L Count allowed fromPost spin work P =
    (if 1 < PRIORITY_COUNT L \<and> fromPost \<and> interrupt_max L Count P spin work \<noteq> 0
     then Interrupt (PRIORITY_COUNT L - 1) 0 Count allowed fromPost spin work P
     else Decide allowed fromPost spin work P)"

definition notify_verdict :: "cpu_layout \<Rightarrow> nat \<Rightarrow> bool \<Rightarrow> bool \<Rightarrow> nat set \<Rightarrow> nat set \<Rightarrow> nat \<Rightarrow> poster" where
  "notify_verdict L me allowed fromPost spin work P =
    (let A = allowed_threads L P; sleeping = sleeping_in L P spin work;
         spinningThreadCount = card (spin \<inter> A); workingThreadCount = card (work \<inter> A)
     in if allowed then
          if sleeping = {} then NotPosting
          else if fromPost \<and> spinningThreadCount \<noteq> 0 then NotPosting
          else if workingThreadCount < spinningThreadCount * 2 then NotPosting
          else (case find (\<lambda>slot. slot \<notin> (spin \<union> work) \<inter> A) (tl (waker_row L P me)) of
              Some slot \<Rightarrow> WakeSlot slot P
            | None \<Rightarrow> NotPosting)
        else if sleeping \<noteq> {} \<and> spinningThreadCount = 0 then WakeSlot (Min sleeping) P
        else FallbackLoad P)"

definition hint_slot :: "cpu_layout \<Rightarrow> nat \<Rightarrow> nat \<Rightarrow> nat set \<Rightarrow> nat" where
  "hint_slot L P h work =
    (case find (\<lambda>slot. slot \<notin> work) (take (group_size L h) (waker_row L P h)) of Some slot \<Rightarrow> slot | None \<Rightarrow> h)"

section \<open>The worker\<close>

definition set_worker :: "nat \<Rightarrow> worker \<Rightarrow> cpu \<Rightarrow> cpu" where
  "set_worker t x s = s\<lparr>worker_at := (worker_at s)(t := x)\<rparr>"

definition set_poster :: "nat \<Rightarrow> poster \<Rightarrow> cpu \<Rightarrow> cpu" where
  "set_poster a x s = s\<lparr>poster_at := (poster_at s)(a := x)\<rparr>"

definition goto_top :: "cpu_layout \<Rightarrow> nat \<Rightarrow> cpu \<Rightarrow> cpu" where
  "goto_top L t s = set_worker t (Clearing (range_begin L t)) (s\<lparr>spin_flag := (spin_flag s)(t := True)\<rparr>)"

definition found :: "nat \<Rightarrow> nat \<Rightarrow> nat \<Rightarrow> cpu \<Rightarrow> cpu" where
  "found t x p s = set_worker t (if spin_flag s t then SetWorking x p else StoreYield x p) s"

definition inbox_pulled :: "nat \<Rightarrow> (nat \<times> nat) list \<Rightarrow> cpu \<Rightarrow> cpu" where
  "inbox_pulled x xs s = s\<lparr>inbox_q := (inbox_q s)(x := xs), inbox_out := (inbox_out s)(x := inbox_out s x + 1)\<rparr>"

definition ingest_taken :: "nat \<Rightarrow> nat list \<Rightarrow> cpu \<Rightarrow> cpu" where
  "ingest_taken p xs s = s\<lparr>ingest := (ingest s)(p := xs), dequeued := (dequeued s)(p := dequeued s p + 1)\<rparr>"

text \<open>What a test of the ingest queue remembers from its beginning.\<close>

definition ingest_mark :: "cpu \<Rightarrow> nat \<Rightarrow> nat option" where
  "ingest_mark s p = (if ingest s p = [] then None else Some (dequeued s p))"

definition victims :: "cpu_layout \<Rightarrow> cpu \<Rightarrow> nat \<Rightarrow> nat \<Rightarrow> nat list" where
  "victims L s t p = (case cached s t p of None \<Rightarrow> [] | Some v \<Rightarrow> [v]) @ steal_list L p t"

definition after_steals :: "cpu_layout \<Rightarrow> nat \<Rightarrow> nat \<Rightarrow> worker" where
  "after_steals L t p = (if p + 1 < range_end L t then PopOwn (p + 1) else Hook False)"

definition after_yield :: "cpu_layout \<Rightarrow> cpu \<Rightarrow> nat \<Rightarrow> nat \<Rightarrow> nat \<Rightarrow> worker" where
  "after_yield L s t x p = (if prev_prio s t = Some p then Running x p
     else if prev_prio s t = None then SetStopper x p else ClrStopper x p)"

definition after_counts :: "cpu_layout \<Rightarrow> nat \<Rightarrow> nat \<Rightarrow> worker" where
  "after_counts L c w = (if 2 * c \<le> w \<and> 0 < spins L then SpinInbox 0 else EndStopper)"

definition next_spin :: "cpu_layout \<Rightarrow> nat \<Rightarrow> worker" where
  "next_spin L i = (if i + 1 < spins L then SpinInbox (i + 1) else EndStopper)"

definition after_publish :: "cpu_layout \<Rightarrow> nat \<Rightarrow> nat \<Rightarrow> nat \<Rightarrow> worker" where
  "after_publish L t p wv = (if p + 1 < range_end L t then Publish (p + 1) wv else ClearSpin wv)"

definition after_deques :: "cpu_layout \<Rightarrow> nat \<Rightarrow> nat \<Rightarrow> nat \<Rightarrow> worker" where
  "after_deques L t p wv = (if p + 1 < range_end L t then CheckIngest (p + 1) wv else StopCheckEnd wv)"

definition set_fallback :: "nat \<Rightarrow> fallback \<Rightarrow> cpu \<Rightarrow> cpu" where
  "set_fallback p v s = s\<lparr>fallback_wake_states := (fallback_wake_states s)(p := v)\<rparr>"

definition wake :: "nat \<Rightarrow> cpu \<Rightarrow> cpu" where
  "wake slot s = s\<lparr>sleep_wait := (sleep_wait s)(slot := sleep_wait s slot + 1)\<rparr>"

definition set_deque :: "nat \<Rightarrow> nat \<Rightarrow> nat list \<Rightarrow> cpu \<Rightarrow> cpu" where
  "set_deque t p xs s = s\<lparr>deque_of := (deque_of s)(t := (deque_of s t)(p := xs))\<rparr>"

definition cache :: "nat \<Rightarrow> nat \<Rightarrow> nat option \<Rightarrow> cpu \<Rightarrow> cpu" where
  "cache t p v s = s\<lparr>cached := (cached s)(t := (cached s t)(p := v))\<rparr>"

text \<open>
  The run loop of \<open>make_worker\<close> with \<open>try_run_some\<close> and \<open>run_one\<close>.  A pull, a dequeue and a steal may fail although something is
  there; the owner's pop may not.
\<close>

inductive worker_step :: "cpu_layout \<Rightarrow> nat \<Rightarrow> cpu \<Rightarrow> cpu \<Rightarrow> bool" for L t where
  clear_fallback: "worker_at s t = Clearing p \<Longrightarrow> p < range_end L t \<Longrightarrow>
    worker_step L t s (set_worker t (Clearing (p + 1)) (if sentinel_thread L p = t then set_fallback p FALLBACK_WAKE_NONE s else s))"
| cleared: "worker_at s t = Clearing p \<Longrightarrow> \<not> p < range_end L t \<Longrightarrow> worker_step L t s (set_worker t StopCheck s)"
| stop: "worker_at s t = StopCheck \<Longrightarrow> stop_requested s t \<Longrightarrow> worker_step L t s (set_worker t Leaving s)"
| go_on: "worker_at s t = StopCheck \<Longrightarrow> \<not> stop_requested s t \<Longrightarrow>
    worker_step L t s (set_worker t (PopOwn (range_begin L t)) s)"
| pop: "worker_at s t = PopOwn p \<Longrightarrow> deque_of s t p = xs @ [x] \<Longrightarrow>
    worker_step L t s (found t x p (set_deque t p xs s))"
| pop_empty: "worker_at s t = PopOwn p \<Longrightarrow> deque_of s t p = [] \<Longrightarrow>
    worker_step L t s (set_worker t (if p = range_begin L t then PullInbox else Dequeue p) s)"
| pull: "worker_at s t = PullInbox \<Longrightarrow> inbox_q s (inbox_of L t) = (x, p) # xs \<Longrightarrow>
    worker_step L t s (found t x p (inbox_pulled (inbox_of L t) xs s))"
| pull_none: "worker_at s t = PullInbox \<Longrightarrow> worker_step L t s (set_worker t (Dequeue (range_begin L t)) s)"
| dequeue: "worker_at s t = Dequeue p \<Longrightarrow> ingest s p = xs @ x # ys \<Longrightarrow>
    worker_step L t s (found t x p (ingest_taken p (xs @ ys) s))"
| dequeue_none: "worker_at s t = Dequeue p \<Longrightarrow> worker_step L t s (set_worker t (StealFrom p (victims L s t p)) s)"
| steal: "worker_at s t = StealFrom p (v # vs) \<Longrightarrow> deque_of s v p = x # xs \<Longrightarrow>
    worker_step L t s (found t x p (set_deque v p xs (cache t p (Some v) s)))"
| steal_fail: "worker_at s t = StealFrom p (v # vs) \<Longrightarrow> worker_step L t s (set_worker t (StealFrom p vs) s)"
| steal_none: "worker_at s t = StealFrom p [] \<Longrightarrow>
    worker_step L t s (set_worker t (after_steals L t p) (cache t p None s))"
| set_working: "worker_at s t = SetWorking x p \<Longrightarrow>
    worker_step L t s (set_worker t (ClrSpinning x p) (s\<lparr>spin_flag := (spin_flag s)(t := False), working := insert t (working s)\<rparr>))"
| clr_spinning: "worker_at s t = ClrSpinning x p \<Longrightarrow> poster_at s t = NotPosting \<Longrightarrow>
    worker_step L t s (set_worker t (WakeOne x p) (set_poster t (NotifySpin 1 p True False)
      (s\<lparr>spinning := spinning s - {t}\<rparr>)))"
| woke_one: "worker_at s t = WakeOne x p \<Longrightarrow> poster_at s t = NotPosting \<Longrightarrow>
    worker_step L t s (set_worker t (StoreYield x p) s)"
| store_yield: "worker_at s t = StoreYield x p \<Longrightarrow>
    worker_step L t s (if 1 < PRIORITY_COUNT L
      then set_worker t (after_yield L s t x p) (s\<lparr>yield_priority := (yield_priority s)(t := p)\<rparr>)
      else set_worker t (Running x p) s)"
| clr_stopper: "worker_at s t = ClrStopper x p \<Longrightarrow> prev_prio s t = Some q \<Longrightarrow>
    worker_step L t s (set_worker t (SetStopper x p) (s\<lparr>stoppers := (stoppers s)(q := stoppers s q - {t})\<rparr>))"
| set_stopper: "worker_at s t = SetStopper x p \<Longrightarrow>
    worker_step L t s (set_worker t (Running x p)
      (s\<lparr>stoppers := (stoppers s)(p := insert t (stoppers s p)), prev_prio := (prev_prio s)(t := Some p)\<rparr>))"
| finish: "worker_at s t = Running x p \<Longrightarrow> poster_at s t = NotPosting \<Longrightarrow>
    worker_step L t s (set_worker t StopCheck (s\<lparr>executed := executed s + {#x#}\<rparr>))"
| hook_more: "worker_at s t = Hook b \<Longrightarrow> poster_at s t = NotPosting \<Longrightarrow> worker_step L t s (set_worker t StopCheck s)"
| hook_done: "worker_at s t = Hook b \<Longrightarrow> poster_at s t = NotPosting \<Longrightarrow> b \<longrightarrow> careless_hooks L \<Longrightarrow>
    worker_step L t s (set_worker t SetSpinning s)"
| count_spinning: "worker_at s t = SetSpinning \<Longrightarrow>
    sp = (if spin_flag s t then spinning s else insert t (spinning s)) \<Longrightarrow>
    worker_step L t s (set_worker t (ClrWorking (card sp)) (s\<lparr>spinning := sp\<rparr>))"
| count_working: "worker_at s t = ClrWorking c \<Longrightarrow>
    w = (if spin_flag s t then working s else working s - {t}) \<Longrightarrow>
    worker_step L t s (set_worker t (after_counts L c (card w)) (s\<lparr>working := w\<rparr>))"
| spin_inbox_load: "worker_at s t = SpinInbox i \<Longrightarrow>
    worker_step L t s (set_worker t (SpinInboxRead i (inbox_in s (inbox_of L t))) s)"
| spin_inbox_found: "worker_at s t = SpinInboxRead i woff \<Longrightarrow> inbox_out s (inbox_of L t) \<noteq> woff \<Longrightarrow> worker_step L t s (goto_top L t s)"
| spin_inbox: "worker_at s t = SpinInboxRead i woff \<Longrightarrow> inbox_out s (inbox_of L t) = woff \<Longrightarrow>
    worker_step L t s (set_worker t (SpinIngest i (range_begin L t)) s)"
| spin_ingest_begin: "worker_at s t = SpinIngest i p \<Longrightarrow>
    worker_step L t s (set_worker t (SpinIngestEnd i p (ingest_mark s p)) s)"
| spin_ingest_found: "worker_at s t = SpinIngestEnd i p m \<Longrightarrow> ingest s p \<noteq> [] \<Longrightarrow> worker_step L t s (goto_top L t s)"
| spin_ingest: "worker_at s t = SpinIngestEnd i p m \<Longrightarrow> m \<noteq> Some (dequeued s p) \<Longrightarrow>
    worker_step L t s (set_worker t (SpinDeques i p (steal_list L p t)) s)"
| spin_deque_found: "worker_at s t = SpinDeques i p (v # vs) \<Longrightarrow>
    worker_step L t s (goto_top L t (cache t p (Some v) s))"
| spin_deque: "worker_at s t = SpinDeques i p (v # vs) \<Longrightarrow> worker_step L t s (set_worker t (SpinDeques i p vs) s)"
| spin_next: "worker_at s t = SpinDeques i p [] \<Longrightarrow>
    worker_step L t s (set_worker t (if p + 1 < range_end L t then SpinIngest i (p + 1) else next_spin L i) s)"
| end_stopper: "worker_at s t = EndStopper \<Longrightarrow>
    worker_step L t s (set_worker t LoadWait (s\<lparr>prev_prio := (prev_prio s)(t := None),
      stoppers := (case prev_prio s t of Some q \<Rightarrow> if 1 < PRIORITY_COUNT L then (stoppers s)(q := stoppers s q - {t}) else stoppers s
        | None \<Rightarrow> stoppers s)\<rparr>))"
| load_wait: "worker_at s t = LoadWait \<Longrightarrow>
    worker_step L t s (set_worker t (Publish (range_begin L t) (sleep_wait s t)) s)"
| publish: "worker_at s t = Publish p wv \<Longrightarrow> sentinel_thread L p = t \<Longrightarrow>
    worker_step L t s (if fallback_wake_states s p = FALLBACK_WAKE_WAKE
      then goto_top L t (set_fallback p FALLBACK_WAKE_WAIT s)
      else set_worker t (after_publish L t p wv) (set_fallback p FALLBACK_WAKE_WAIT s))"
| publish_skip: "worker_at s t = Publish p wv \<Longrightarrow> sentinel_thread L p \<noteq> t \<Longrightarrow>
    worker_step L t s (set_worker t (after_publish L t p wv) s)"
| clear_spin: "worker_at s t = ClearSpin wv \<Longrightarrow>
    worker_step L t s (set_worker t (CheckInbox wv) (s\<lparr>spinning := spinning s - {t}\<rparr>))"
| inbox_load: "worker_at s t = CheckInbox wv \<Longrightarrow>
    worker_step L t s (set_worker t (CheckInboxRead wv (inbox_in s (inbox_of L t))) s)"
| inbox_found: "worker_at s t = CheckInboxRead wv woff \<Longrightarrow> inbox_out s (inbox_of L t) \<noteq> woff \<Longrightarrow>
    worker_step L t s (set_worker t SetSpinTop s)"
| inbox_none: "worker_at s t = CheckInboxRead wv woff \<Longrightarrow> inbox_out s (inbox_of L t) = woff \<Longrightarrow>
    worker_step L t s (set_worker t (CheckIngest (range_begin L t) wv) s)"
| ingest_begin: "worker_at s t = CheckIngest p wv \<Longrightarrow>
    worker_step L t s (set_worker t (CheckIngestEnd p wv (ingest_mark s p)) s)"
| ingest_found: "worker_at s t = CheckIngestEnd p wv m \<Longrightarrow> ingest s p \<noteq> [] \<Longrightarrow> worker_step L t s (set_worker t SetSpinTop s)"
| ingest_none: "worker_at s t = CheckIngestEnd p wv m \<Longrightarrow> m \<noteq> Some (dequeued s p) \<Longrightarrow>
    worker_step L t s (set_worker t (CheckDeques p (steal_list L p t) wv) s)"
| deque_found: "worker_at s t = CheckDeques p (v # vs) wv \<Longrightarrow>
    worker_step L t s (goto_top L t (cache t p (Some v) s))"
| deque_none: "worker_at s t = CheckDeques p (v # vs) wv \<Longrightarrow> worker_step L t s (set_worker t (CheckDeques p vs wv) s)"
| deques_done: "worker_at s t = CheckDeques p [] wv \<Longrightarrow> worker_step L t s (set_worker t (after_deques L t p wv) s)"
| spin_top: "worker_at s t = SetSpinTop \<Longrightarrow> worker_step L t s (goto_top L t (s\<lparr>spinning := insert t (spinning s)\<rparr>))"
| stop_end: "worker_at s t = StopCheckEnd wv \<Longrightarrow> stop_requested s t \<Longrightarrow> worker_step L t s (set_worker t Leaving s)"
| sleep: "worker_at s t = StopCheckEnd wv \<Longrightarrow> \<not> stop_requested s t \<Longrightarrow> worker_step L t s (set_worker t (Waiting wv) s)"
| wake_up: "worker_at s t = Waiting wv \<Longrightarrow> sleep_wait s t \<noteq> wv \<Longrightarrow> worker_step L t s (set_worker t Woken s)"
| woken_up: "worker_at s t = Woken \<Longrightarrow> worker_step L t s (goto_top L t (s\<lparr>spinning := insert t (spinning s)\<rparr>))"
| leave: "worker_at s t = Leaving \<Longrightarrow>
    worker_step L t s (set_worker t Exited (s\<lparr>working := working s - {t}\<rparr>))"


section \<open>The calls that post\<close>

definition clamp_priority :: "cpu_layout \<Rightarrow> nat \<Rightarrow> nat" where
  "clamp_priority L p = (if p > PRIORITY_COUNT L - 1 then PRIORITY_COUNT L - 1 else p)"

text \<open>A worker posts from within a work item or from its hook.\<close>

definition can_post :: "cpu_layout \<Rightarrow> cpu \<Rightarrow> nat \<Rightarrow> bool" where
  "can_post L s a \<longleftrightarrow> (if a < thread_count L then (case worker_at s a of Running _ _ \<Rightarrow> True | Hook _ \<Rightarrow> True | _ \<Rightarrow> False)
     else teardown_at s = NotTearing)"

definition start_post :: "cpu_layout \<Rightarrow> nat \<Rightarrow> nat list \<Rightarrow> nat \<Rightarrow> nat \<Rightarrow> cpu \<Rightarrow> cpu" where
  "start_post L a xs p h s =
    set_poster a (if h < thread_count L \<and> handles L h p then Inboxing xs p h 0 else Queueing xs p)
      (s\<lparr>ref_count := (if a < thread_count L then ref_count s else insert a (ref_count s)), posted := posted s + mset xs\<rparr>)"

definition end_post :: "nat \<Rightarrow> cpu \<Rightarrow> cpu" where
  "end_post a s = set_poster a NotPosting (s\<lparr>ref_count := ref_count s - {a}\<rparr>)"

definition after_inbox :: "cpu_layout \<Rightarrow> nat \<Rightarrow> nat list \<Rightarrow> nat \<Rightarrow> nat \<Rightarrow> nat \<Rightarrow> poster" where
  "after_inbox L a xs p h k =
    (if k \<noteq> 0 \<and> (\<not> a < thread_count L \<or> h \<noteq> a) then HintLoad xs p h else Queueing xs p)"

definition mark_hook :: "nat \<Rightarrow> cpu \<Rightarrow> cpu" where
  "mark_hook a s = set_worker a (case worker_at s a of Hook _ \<Rightarrow> Hook True | w \<Rightarrow> w) s"

text \<open>The loop that asks running threads to yield: the next slot, or the next lower priority.\<close>

definition next_slot :: "cpu \<Rightarrow> nat set \<Rightarrow> nat \<Rightarrow> nat \<Rightarrow> nat \<Rightarrow> bool \<Rightarrow> bool \<Rightarrow> nat set \<Rightarrow> nat set \<Rightarrow> nat \<Rightarrow> poster" where
  "next_slot s S q k Count allowed fromPost spin work P =
    (if S = {} then Interrupt (q - 1) k Count allowed fromPost spin work P
     else (let slot = Min S; cur = yield_priority s slot in
       if P < cur then InterruptCas slot cur (S - {slot}) q k Count allowed fromPost spin work P
       else InterruptSlots (S - {slot}) q k Count allowed fromPost spin work P))"

inductive poster_step :: "cpu_layout \<Rightarrow> nat \<Rightarrow> cpu \<Rightarrow> cpu \<Rightarrow> bool" for L a where
  post: "poster_at s a = NotPosting \<Longrightarrow> can_post L s a \<Longrightarrow> xs \<noteq> [] \<Longrightarrow> p = clamp_priority L prio \<Longrightarrow>
    poster_step L a s (start_post L a xs p h s)"
| inbox_push: "poster_at s a = Inboxing (x # xs) p h k \<Longrightarrow>
    poster_step L a s (set_poster a (Inboxing xs p h (k + 1))
      (s\<lparr>inbox_q := (inbox_q s)(inbox_of L h := inbox_q s (inbox_of L h) @ [(x, p)]),
        inbox_in := (inbox_in s)(inbox_of L h := inbox_in s (inbox_of L h) + 1)\<rparr>))"
| inbox_stop: "poster_at s a = Inboxing xs p h k \<Longrightarrow> poster_step L a s (set_poster a (after_inbox L a xs p h k) s)"
| hint_load: "poster_at s a = HintLoad xs p h \<Longrightarrow>
    poster_step L a s (set_poster a (HintWake xs p (hint_slot L p h (working s))) s)"
| hint_wake: "poster_at s a = HintWake xs p slot \<Longrightarrow> poster_step L a s (set_poster a (Queueing xs p) (wake slot s))"
| queue_none: "poster_at s a = Queueing [] p \<Longrightarrow> poster_step L a s (end_post a s)"
| queue_deque: "poster_at s a = Queueing xs p \<Longrightarrow> xs \<noteq> [] \<Longrightarrow> handles L a p \<Longrightarrow>
    poster_step L a s (set_poster a (NotifySpin (length xs) p True True) (mark_hook a
      (set_deque a p (deque_of s a p @ xs) s)))"
| queue_ingest: "poster_at s a = Queueing xs p \<Longrightarrow> xs \<noteq> [] \<Longrightarrow> \<not> handles L a p \<Longrightarrow>
    poster_step L a s (set_poster a (NotifySpin (length xs) p False True)
      (s\<lparr>ingest := (ingest s)(p := ingest s p @ xs)\<rparr>))"
| notify_spin: "poster_at s a = NotifySpin Count P allowed fromPost \<Longrightarrow>
    poster_step L a s (set_poster a (NotifyWork Count P allowed fromPost (spinning s)) s)"
| notify_work: "poster_at s a = NotifyWork Count P allowed fromPost spin \<Longrightarrow>
    poster_step L a s (set_poster a (notify_start L Count allowed fromPost spin (working s) P) s)"
| interrupt_load: "poster_at s a = Interrupt q k Count allowed fromPost spin work P \<Longrightarrow> P < q \<Longrightarrow>
    poster_step L a s (set_poster a (InterruptSlots (stoppers s q) q k Count allowed fromPost spin work P) s)"
| interrupt_end: "poster_at s a = Interrupt q k Count allowed fromPost spin work P \<Longrightarrow> \<not> P < q \<Longrightarrow>
    poster_step L a s (set_poster a (Decide allowed fromPost spin work P) s)"
| interrupt_slot: "poster_at s a = InterruptSlots S q k Count allowed fromPost spin work P \<Longrightarrow>
    poster_step L a s (set_poster a (next_slot s S q k Count allowed fromPost spin work P) s)"
| interrupt_ok: "poster_at s a = InterruptCas slot cur S q k Count allowed fromPost spin work P \<Longrightarrow>
    yield_priority s slot = cur \<Longrightarrow>
    poster_step L a s (set_poster a (if k + 1 = interrupt_max L Count P spin work then Decide allowed fromPost spin work P
        else InterruptSlots S q (k + 1) Count allowed fromPost spin work P)
      (s\<lparr>yield_priority := (yield_priority s)(slot := P)\<rparr>))"
| interrupt_fail: "poster_at s a = InterruptCas slot cur S q k Count allowed fromPost spin work P \<Longrightarrow>
    yield_priority s slot \<noteq> cur \<Longrightarrow>
    poster_step L a s (set_poster a (if P < yield_priority s slot
        then InterruptCas slot (yield_priority s slot) S q k Count allowed fromPost spin work P
        else InterruptSlots S q k Count allowed fromPost spin work P) s)"
| decide_return: "poster_at s a = Decide allowed fromPost spin work P \<Longrightarrow>
    notify_verdict L a allowed fromPost spin work P = NotPosting \<Longrightarrow> poster_step L a s (end_post a s)"
| decide: "poster_at s a = Decide allowed fromPost spin work P \<Longrightarrow>
    notify_verdict L a allowed fromPost spin work P = v \<Longrightarrow> v \<noteq> NotPosting \<Longrightarrow> poster_step L a s (set_poster a v s)"
| fallback_not_waiting: "poster_at s a = FallbackLoad P \<Longrightarrow> fallback_wake_states s P \<noteq> FALLBACK_WAKE_WAIT \<Longrightarrow>
    poster_step L a s (end_post a s)"
| fallback_waiting: "poster_at s a = FallbackLoad P \<Longrightarrow> fallback_wake_states s P = FALLBACK_WAKE_WAIT \<Longrightarrow>
    poster_step L a s (set_poster a (FallbackExchange P) s)"
| exchange_lost: "poster_at s a = FallbackExchange P \<Longrightarrow> fallback_wake_states s P \<noteq> FALLBACK_WAKE_WAIT \<Longrightarrow>
    poster_step L a s (end_post a (set_fallback P FALLBACK_WAKE_WAKE s))"
| exchange_won: "poster_at s a = FallbackExchange P \<Longrightarrow> fallback_wake_states s P = FALLBACK_WAKE_WAIT \<Longrightarrow>
    poster_step L a s (set_poster a (WakeSlot (sentinel_thread L P) P) (set_fallback P FALLBACK_WAKE_WAKE s))"
| wake_slot: "poster_at s a = WakeSlot slot P \<Longrightarrow> poster_step L a s (end_post a (wake slot s))"

section \<open>Teardown\<close>

inductive teardown_step :: "cpu_layout \<Rightarrow> cpu \<Rightarrow> cpu \<Rightarrow> bool" for L where
  teardown: "teardown_at s = NotTearing \<Longrightarrow> teardown_step L s (s\<lparr>teardown_at := Stopping 0\<rparr>)"
| request_stop: "teardown_at s = Stopping i \<Longrightarrow> i < thread_count L \<Longrightarrow>
    teardown_step L s (s\<lparr>teardown_at := WakingUp i, stop_requested := (stop_requested s)(i := True)\<rparr>)"
| wake_stopped: "teardown_at s = WakingUp i \<Longrightarrow>
    teardown_step L s (wake i (s\<lparr>teardown_at := (if i + 1 < thread_count L then Stopping (i + 1) else Joining 0)\<rparr>))"
| join: "teardown_at s = Joining i \<Longrightarrow> worker_at s i = Exited \<Longrightarrow>
    teardown_step L s (s\<lparr>teardown_at := (if i + 1 < thread_count L then Joining (i + 1) else Draining)\<rparr>)"
| drained: "teardown_at s = Draining \<Longrightarrow> ref_count s = {} \<Longrightarrow> teardown_step L s (s\<lparr>teardown_at := Cleared\<rparr>)"

section \<open>The machine\<close>

inductive cpu_step :: "cpu_layout \<Rightarrow> cpu \<Rightarrow> cpu \<Rightarrow> bool" for L where
  by_worker: "t < thread_count L \<Longrightarrow> worker_step L t s s' \<Longrightarrow> cpu_step L s s'"
| by_poster: "poster_step L a s s' \<Longrightarrow> cpu_step L s s'"
| by_teardown: "teardown_step L s s' \<Longrightarrow> cpu_step L s s'"

definition cpu_new :: "cpu_layout \<Rightarrow> cpu" where
  "cpu_new L = \<lparr>ingest = (\<lambda>_. []), deque_of = (\<lambda>_ _. []), inbox_q = (\<lambda>_. []), inbox_in = (\<lambda>_. 0),
     inbox_out = (\<lambda>_. 0), dequeued = (\<lambda>_. 0), working = {}, spinning = {..<thread_count L},
     stoppers = (\<lambda>_. {}), yield_priority = (\<lambda>_. PRIORITY_COUNT L), sleep_wait = (\<lambda>_. 0),
     fallback_wake_states = (\<lambda>_. FALLBACK_WAKE_NONE), worker_at = (\<lambda>t. Clearing (range_begin L t)), spin_flag = (\<lambda>_. True),
     prev_prio = (\<lambda>_. None), cached = (\<lambda>_ _. None), poster_at = (\<lambda>_. NotPosting), ref_count = {},
     stop_requested = (\<lambda>_. False), teardown_at = NotTearing, posted = {#}, executed = {#}\<rparr>"

text \<open>What \<open>init\<close> establishes.\<close>

definition layout_ok :: "cpu_layout \<Rightarrow> bool" where
  "layout_ok L \<longleftrightarrow> 0 < thread_count L \<and> 0 < PRIORITY_COUNT L \<and>
    (\<forall>t < thread_count L. range_begin L t < range_end L t \<and> range_end L t \<le> PRIORITY_COUNT L) \<and>
    (\<forall>P < PRIORITY_COUNT L. \<forall>t < thread_count L. waker_row L P t \<noteq> [] \<and> set (waker_row L P t) \<subseteq> allowed_threads L P \<and>
       (handles L t P \<longrightarrow> hd (waker_row L P t) = t)) \<and>
    (\<forall>t < thread_count L. \<forall>u < thread_count L. inbox_of L t = inbox_of L u \<longrightarrow>
       range_begin L t = range_begin L u \<and> range_end L t = range_end L u) \<and>
    (\<forall>t < thread_count L. 0 < group_size L t)"

definition cpu_start :: "cpu_layout \<Rightarrow> cpu \<Rightarrow> bool" where
  "cpu_start L s \<longleftrightarrow> layout_ok L \<and> s = cpu_new L"

end
