(* ===== verification/CpuInvariant.thy ===== *)
theory CpuInvariant
  imports CpuMachine
begin

text \<open>
  Invariants of the machine of theory \<open>CpuMachine\<close>: the protocol by which threads fall asleep, the account of the items, the
  requests to yield, the teardown.
\<close>

section \<open>The invariant\<close>

text \<open>Before a thread sleeps it loads \<open>sleep_wait\<close>; past a check it has seen the queue empty.\<close>

fun wait_value :: "worker \<Rightarrow> nat option" where
  "wait_value (Publish p wv) = Some wv" | "wait_value (ClearSpin wv) = Some wv" | "wait_value (CheckInbox wv) = Some wv"
| "wait_value (CheckInboxRead wv woff) = Some wv" | "wait_value (CheckIngestEnd p wv m) = Some wv"
| "wait_value (CheckIngest p wv) = Some wv" | "wait_value (CheckDeques p vs wv) = Some wv"
| "wait_value (StopCheckEnd wv) = Some wv" | "wait_value (Waiting wv) = Some wv" | "wait_value _ = None"

fun past_publish :: "worker \<Rightarrow> nat \<Rightarrow> bool" where
  "past_publish (Publish p wv) P = (P < p)" | "past_publish (ClearSpin wv) P = True"
| "past_publish (CheckInboxRead wv woff) P = True" | "past_publish (CheckIngestEnd p wv m) P = True"
| "past_publish (CheckInbox wv) P = True" | "past_publish (CheckIngest p wv) P = True"
| "past_publish (CheckDeques p vs wv) P = True" | "past_publish (StopCheckEnd wv) P = True"
| "past_publish (Waiting wv) P = True" | "past_publish _ P = False"

text \<open>With \<open>read_offset\<close>: a test under way that has loaded the same \<open>write_offset\<close> is going to find the inbox empty.\<close>

fun past_inbox :: "nat \<Rightarrow> worker \<Rightarrow> bool" where
  "past_inbox r (CheckInboxRead wv woff) = (r = woff)" | "past_inbox r (CheckIngestEnd p wv m) = True"
| "past_inbox r (CheckIngest p wv) = True" | "past_inbox r (CheckDeques p vs wv) = True"
| "past_inbox r (StopCheckEnd wv) = True" | "past_inbox r (Waiting wv) = True" | "past_inbox r _ = False"

text \<open>With the number of items taken so far: a test under way that may find the ingest queue of \<open>P\<close> empty.\<close>

fun past_ingest :: "nat \<Rightarrow> worker \<Rightarrow> nat \<Rightarrow> bool" where
  "past_ingest d (CheckIngest p wv) P = (P < p)" | "past_ingest d (CheckIngestEnd p wv m) P = (P < p \<or> P = p \<and> m \<noteq> Some d)"
| "past_ingest d (CheckDeques p vs wv) P = (P \<le> p)"
| "past_ingest d (StopCheckEnd wv) P = True" | "past_ingest d (Waiting wv) P = True" | "past_ingest d _ P = False"

fun leaving :: "worker \<Rightarrow> bool" where
  "leaving Leaving = True" | "leaving Exited = True" | "leaving _ = False"

text \<open>The own deque of priority \<open>P\<close> has been found empty and the thread has not posted since.\<close>

fun past_own :: "nat \<Rightarrow> worker \<Rightarrow> nat \<Rightarrow> bool" where
  "past_own b StopCheck P = False" | "past_own b (PopOwn p) P = (P < p)" | "past_own b PullInbox P = (P \<le> b)"
| "past_own b (Dequeue p) P = (P \<le> p)" | "past_own b (StealFrom p vs) P = (P \<le> p)"
| "past_own b (SetWorking x p) P = False" | "past_own b (ClrSpinning x p) P = False" | "past_own b (WakeOne x p) P = False"
| "past_own b (StoreYield x p) P = False" | "past_own b (ClrStopper x p) P = False" | "past_own b (SetStopper x p) P = False"
| "past_own b (Running x p) P = False" | "past_own b (Hook given) P = (\<not> given)" | "past_own b Leaving P = False"
| "past_own b Exited P = False" | "past_own b _ P = True"

text \<open>Where a thread may be while its working bit is set.\<close>

fun on_duty :: "bool \<Rightarrow> worker \<Rightarrow> bool" where
  "on_duty flag StopCheck = (\<not> flag)" | "on_duty flag (PopOwn p) = (\<not> flag)" | "on_duty flag PullInbox = (\<not> flag)"
| "on_duty flag (Dequeue p) = (\<not> flag)" | "on_duty flag (StealFrom p vs) = (\<not> flag)"
| "on_duty flag (ClrSpinning x p) = (\<not> flag)" | "on_duty flag (WakeOne x p) = (\<not> flag)"
| "on_duty flag (StoreYield x p) = (\<not> flag)" | "on_duty flag (ClrStopper x p) = (\<not> flag)"
| "on_duty flag (SetStopper x p) = (\<not> flag)" | "on_duty flag (Running x p) = (\<not> flag)" | "on_duty flag (Hook b) = (\<not> flag)"
| "on_duty flag SetSpinning = (\<not> flag)" | "on_duty flag (ClrWorking c) = (\<not> flag)" | "on_duty flag Leaving = True"
| "on_duty flag _ = False"

definition dormant :: "cpu \<Rightarrow> nat \<Rightarrow> bool" where
  "dormant s t \<longleftrightarrow> wait_value (worker_at s t) = Some (sleep_wait s t)"

text \<open>An agent has put an item into the ingest queue of a priority, or into an inbox, and has yet to notify.\<close>

fun notifying :: "poster \<Rightarrow> nat \<Rightarrow> bool" where
  "notifying (NotifySpin Count P' allowed fromPost) P = (P' = P \<and> \<not> allowed)"
| "notifying (NotifyWork Count P' allowed fromPost spin) P = (P' = P \<and> \<not> allowed)"
| "notifying (Interrupt q k Count allowed fromPost spin work P') P = (P' = P \<and> \<not> allowed)"
| "notifying (InterruptSlots S q k Count allowed fromPost spin work P') P = (P' = P \<and> \<not> allowed)"
| "notifying (InterruptCas slot cur S q k Count allowed fromPost spin work P') P = (P' = P \<and> \<not> allowed)"
| "notifying (Decide allowed fromPost spin work P') P = (P' = P \<and> \<not> allowed)"
| "notifying (FallbackLoad P') P = (P' = P)" | "notifying (FallbackExchange P') P = (P' = P)"
| "notifying (WakeSlot slot P') P = (P' = P)" | "notifying _ P = False"

fun hinting :: "cpu_layout \<Rightarrow> nat \<Rightarrow> poster \<Rightarrow> nat \<Rightarrow> bool" where
  "hinting L a (Inboxing xs p h k) x = (inbox_of L h = x \<and> 0 < k)"
| "hinting L a (HintLoad xs p h) x = (inbox_of L h = x)"
| "hinting L a (HintWake xs p slot) x = (inbox_of L slot = x)"
| "hinting L a _ x = False"

definition able_to_post :: "cpu \<Rightarrow> nat \<Rightarrow> bool" where
  "able_to_post s a \<longleftrightarrow> (case worker_at s a of Running _ _ \<Rightarrow> True | Hook _ \<Rightarrow> True | WakeOne _ _ \<Rightarrow> True | _ \<Rightarrow> False)"

fun poster_ok :: "cpu_layout \<Rightarrow> nat \<Rightarrow> poster \<Rightarrow> bool" where
  "poster_ok L a NotPosting = True"
| "poster_ok L a (Inboxing xs p h k) \<longleftrightarrow> handles L h p \<and> p < PRIORITY_COUNT L"
| "poster_ok L a (HintLoad xs p h) \<longleftrightarrow> handles L h p \<and> p < PRIORITY_COUNT L"
| "poster_ok L a (HintWake xs p slot) \<longleftrightarrow> handles L slot p \<and> p < PRIORITY_COUNT L"
| "poster_ok L a (Queueing xs p) \<longleftrightarrow> p < PRIORITY_COUNT L"
| "poster_ok L a (NotifySpin Count P allowed fromPost) \<longleftrightarrow> P < PRIORITY_COUNT L \<and> (allowed \<longrightarrow> a < thread_count L)"
| "poster_ok L a (NotifyWork Count P allowed fromPost spin) \<longleftrightarrow> P < PRIORITY_COUNT L \<and> (allowed \<longrightarrow> a < thread_count L)"
| "poster_ok L a (Interrupt q k Count allowed fromPost spin work P) \<longleftrightarrow> P < PRIORITY_COUNT L \<and> (allowed \<longrightarrow> a < thread_count L)"
| "poster_ok L a (InterruptSlots S q k Count allowed fromPost spin work P) \<longleftrightarrow>
     P < PRIORITY_COUNT L \<and> (allowed \<longrightarrow> a < thread_count L)"
| "poster_ok L a (InterruptCas slot cur S q k Count allowed fromPost spin work P) \<longleftrightarrow>
     P < PRIORITY_COUNT L \<and> P < cur \<and> (allowed \<longrightarrow> a < thread_count L)"
| "poster_ok L a (Decide allowed fromPost spin work P) \<longleftrightarrow> P < PRIORITY_COUNT L \<and> (allowed \<longrightarrow> a < thread_count L)"
| "poster_ok L a (FallbackLoad P) \<longleftrightarrow> P < PRIORITY_COUNT L"
| "poster_ok L a (FallbackExchange P) \<longleftrightarrow> P < PRIORITY_COUNT L"
| "poster_ok L a (WakeSlot slot P) \<longleftrightarrow> handles L slot P \<and> P < PRIORITY_COUNT L"


definition duty_ok :: "cpu \<Rightarrow> bool" where
  "duty_ok s \<longleftrightarrow> (\<forall>t \<in> working s. on_duty (spin_flag s t) (worker_at s t))"

definition wait_ok :: "cpu \<Rightarrow> bool" where
  "wait_ok s \<longleftrightarrow> (\<forall>t wv. wait_value (worker_at s t) = Some wv \<longrightarrow> wv \<le> sleep_wait s t)"

definition fallback_ok :: "cpu_layout \<Rightarrow> cpu \<Rightarrow> bool" where
  "fallback_ok L s \<longleftrightarrow> (\<forall>P < PRIORITY_COUNT L.
     (fallback_wake_states s P = FALLBACK_WAKE_NONE \<longrightarrow> \<not> past_publish (worker_at s (sentinel_thread L P)) P) \<and>
     (fallback_wake_states s P = FALLBACK_WAKE_WAKE \<longrightarrow> past_publish (worker_at s (sentinel_thread L P)) P \<longrightarrow>
        dormant s (sentinel_thread L P) \<longrightarrow> (\<exists>a. poster_at s a = WakeSlot (sentinel_thread L P) P)))"

definition ingest_ok :: "cpu_layout \<Rightarrow> cpu \<Rightarrow> bool" where
  "ingest_ok L s \<longleftrightarrow> (\<forall>P < PRIORITY_COUNT L. ingest s P \<noteq> [] \<longrightarrow>
     (\<exists>t. handles L t P \<and> \<not> (past_ingest (dequeued s P) (worker_at s t) P \<and> dormant s t)) \<or>
     (\<exists>a. notifying (poster_at s a) P))"

definition ticket_count_ok :: "cpu \<Rightarrow> bool" where
  "ticket_count_ok s \<longleftrightarrow> (\<forall>x. inbox_in s x = inbox_out s x + length (inbox_q s x))"

definition inboxes_ok :: "cpu_layout \<Rightarrow> cpu \<Rightarrow> bool" where
  "inboxes_ok L s \<longleftrightarrow> (\<forall>x. inbox_q s x \<noteq> [] \<longrightarrow>
     (\<exists>t < thread_count L. inbox_of L t = x \<and> \<not> (past_inbox (inbox_out s x) (worker_at s t) \<and> dormant s t)) \<or>
     (\<exists>a. hinting L a (poster_at s a) x))"

definition own_ok :: "cpu_layout \<Rightarrow> cpu \<Rightarrow> bool" where
  "own_ok L s \<longleftrightarrow> (\<forall>t P. deque_of s t P \<noteq> [] \<longrightarrow>
     handles L t P \<and> (careless_hooks L \<or> \<not> past_own (range_begin L t) (worker_at s t) P))"

definition posters_ok :: "cpu_layout \<Rightarrow> cpu \<Rightarrow> bool" where
  "posters_ok L s \<longleftrightarrow> (\<forall>a. poster_ok L a (poster_at s a)) \<and>
     (\<forall>a < thread_count L. poster_at s a \<noteq> NotPosting \<longrightarrow> able_to_post s a)"

definition calm :: "cpu \<Rightarrow> bool" where
  "calm s \<longleftrightarrow> (teardown_at s = NotTearing \<longrightarrow> (\<forall>t. \<not> stop_requested s t \<and> \<not> leaving (worker_at s t)))"

lemma layoutD:
  assumes "layout_ok L"
  shows "0 < thread_count L" "0 < PRIORITY_COUNT L"
    "t < thread_count L \<Longrightarrow> range_begin L t < range_end L t" "t < thread_count L \<Longrightarrow> range_end L t \<le> PRIORITY_COUNT L"
    "P < PRIORITY_COUNT L \<Longrightarrow> t < thread_count L \<Longrightarrow> waker_row L P t \<noteq> []"
    "P < PRIORITY_COUNT L \<Longrightarrow> t < thread_count L \<Longrightarrow> slot \<in> set (waker_row L P t) \<Longrightarrow> handles L slot P"
    "P < PRIORITY_COUNT L \<Longrightarrow> handles L t P \<Longrightarrow> hd (waker_row L P t) = t"
    "t < thread_count L \<Longrightarrow> u < thread_count L \<Longrightarrow> inbox_of L t = inbox_of L u \<Longrightarrow> handles L t P \<longleftrightarrow> handles L u P"
    "t < thread_count L \<Longrightarrow> 0 < group_size L t"
proof -
  have w: "\<forall>P < PRIORITY_COUNT L. \<forall>t < thread_count L. waker_row L P t \<noteq> [] \<and>
      set (waker_row L P t) \<subseteq> allowed_threads L P \<and> (handles L t P \<longrightarrow> hd (waker_row L P t) = t)"
    using assms by (simp add: layout_ok_def)
  then show "P < PRIORITY_COUNT L \<Longrightarrow> t < thread_count L \<Longrightarrow> waker_row L P t \<noteq> []" by blast
  show "P < PRIORITY_COUNT L \<Longrightarrow> t < thread_count L \<Longrightarrow> slot \<in> set (waker_row L P t) \<Longrightarrow> handles L slot P"
    using w by (auto simp: allowed_threads_def)
  show "P < PRIORITY_COUNT L \<Longrightarrow> handles L t P \<Longrightarrow> hd (waker_row L P t) = t" using w by (simp add: handles_def)
  show "t < thread_count L \<Longrightarrow> u < thread_count L \<Longrightarrow> inbox_of L t = inbox_of L u \<Longrightarrow> handles L t P \<longleftrightarrow> handles L u P"
    using assms unfolding layout_ok_def handles_def by metis
  show "0 < thread_count L" "0 < PRIORITY_COUNT L" using assms unfolding layout_ok_def by blast+
  show "t < thread_count L \<Longrightarrow> range_begin L t < range_end L t" "t < thread_count L \<Longrightarrow> range_end L t \<le> PRIORITY_COUNT L"
    "t < thread_count L \<Longrightarrow> 0 < group_size L t"
    using assms unfolding layout_ok_def by blast+
qed

lemma sentinel_handles:
  assumes "layout_ok L" and "P < PRIORITY_COUNT L"
  shows "handles L (sentinel_thread L P) P"
  using layoutD(5) [OF assms layoutD(1) [OF assms(1)]] layoutD(6) [OF assms layoutD(1) [OF assms(1)]]
  unfolding sentinel_thread_def by simp

lemmas worker_defs = set_worker_def set_poster_def goto_top_def found_def inbox_pulled_def ingest_taken_def set_fallback_def wake_def set_deque_def cache_def
  after_steals_def after_yield_def after_counts_def next_spin_def after_publish_def after_deques_def

lemmas poster_defs = set_poster_def set_worker_def start_post_def end_post_def after_inbox_def mark_hook_def wake_def set_deque_def
  set_fallback_def next_slot_def Let_def

lemma duty_worker: "worker_step L t s s' \<Longrightarrow> duty_ok s \<Longrightarrow> duty_ok s'"
  by (erule worker_step.cases) (auto simp: worker_defs duty_ok_def split: if_splits)

lemma worker_kept: "worker_step L t s s' \<Longrightarrow> u \<noteq> t \<Longrightarrow> worker_at s' u = worker_at s u"
  by (erule worker_step.cases) (simp_all add: worker_defs)

lemma worker_sleep: "worker_step L t s s' \<Longrightarrow> sleep_wait s' = sleep_wait s"
  by (erule worker_step.cases) (simp_all add: worker_defs)

lemma wait_worker: "worker_step L t s s' \<Longrightarrow> wait_ok s \<Longrightarrow> wait_ok s'"
  by (erule worker_step.cases) (auto simp: worker_defs wait_ok_def split: if_splits option.splits)

lemma calm_local: "worker_step L t s s' \<Longrightarrow> \<not> stop_requested s t \<Longrightarrow> \<not> leaving (worker_at s t) \<Longrightarrow> \<not> leaving (worker_at s' t)"
  by (erule worker_step.cases) (auto simp: worker_defs split: if_splits)

lemma worker_frame:
  assumes "worker_step L t s s'"
  shows "stop_requested s' = stop_requested s" "teardown_at s' = teardown_at s" "ref_count s' = ref_count s" "posted s' = posted s"
  using assms by (cases; simp add: worker_defs)+

lemma calm_worker: "worker_step L t s s' \<Longrightarrow> calm s \<Longrightarrow> calm s'"
  unfolding calm_def using calm_local [of L t s s'] worker_frame [of L t s s'] worker_kept [of L t s s'] by metis

lemma past_own_step:
  assumes "worker_step L t s s'" and "\<not> careless_hooks L" and "handles L t P"
    and "past_own (range_begin L t) (worker_at s' t) P"
  shows "past_own (range_begin L t) (worker_at s t) P \<or> deque_of s' t P = []"
  using assms by cases (auto simp: worker_defs handles_def le_less less_Suc_eq split: if_splits)

lemma queues_shrink:
  assumes "worker_step L t s s'"
  shows "deque_of s' u P \<noteq> [] \<Longrightarrow> deque_of s u P \<noteq> []" "ingest s' P \<noteq> [] \<Longrightarrow> ingest s P \<noteq> []"
    "inbox_q s' x \<noteq> [] \<Longrightarrow> inbox_q s x \<noteq> []"
  using assms by (cases; auto simp: worker_defs split: if_splits)+

lemma own_worker:
  assumes "worker_step L t s s'" and "own_ok L s"
  shows "own_ok L s'"
  unfolding own_ok_def
proof (intro allI impI)
  fix u P assume d: "deque_of s' u P \<noteq> []"
  then have o: "handles L u P" "careless_hooks L \<or> \<not> past_own (range_begin L u) (worker_at s u) P"
    using queues_shrink(1) [OF assms(1)] assms(2) unfolding own_ok_def by blast+
  show "handles L u P \<and> (careless_hooks L \<or> \<not> past_own (range_begin L u) (worker_at s' u) P)"
  proof (cases "u = t")
    case True
    then show ?thesis using past_own_step [OF assms(1)] o d by blast
  next
    case False
    then show ?thesis using o worker_kept [OF assms(1)] by simp
  qed
qed

lemma past_ingest_step:
  assumes "worker_step L t s s'" and "handles L t P" and "past_ingest (dequeued s' P) (worker_at s' t) P" and "dormant s' t"
  shows "(past_ingest (dequeued s P) (worker_at s t) P \<and> dormant s t) \<or> ingest s' P = []"
  using assms by cases (auto simp: worker_defs handles_def dormant_def ingest_mark_def le_less less_Suc_eq split: if_splits)

lemma past_inbox_step:
  assumes "worker_step L t s s'" and "ticket_count_ok s" and "past_inbox (inbox_out s' (inbox_of L t)) (worker_at s' t)" and "dormant s' t"
  shows "(past_inbox (inbox_out s (inbox_of L t)) (worker_at s t) \<and> dormant s t) \<or> inbox_q s' (inbox_of L t) = []"
  using assms by cases (auto simp: worker_defs dormant_def ticket_count_ok_def split: if_splits)

lemma tickets_worker: "worker_step L t s s' \<Longrightarrow> ticket_count_ok s \<Longrightarrow> ticket_count_ok s'"
  by (erule worker_step.cases) (auto simp: worker_defs ticket_count_ok_def)

text \<open>Only a thread that is awake, and stays so, takes an item.\<close>

lemma taker:
  assumes "worker_step L t s s'"
  shows "inbox_out s' x = inbox_out s x \<or> (x = inbox_of L t \<and> \<not> past_inbox r (worker_at s' t))"
    and "dequeued s' P = dequeued s P \<or> (worker_at s t = Dequeue P \<and> \<not> past_ingest d (worker_at s' t) P)"
  using assms by (cases; simp add: worker_defs)+

lemma worker_poster:
  assumes "worker_step L t s s'"
  shows "poster_at s' a = poster_at s a \<or> (poster_at s a = NotPosting \<and> a = t \<and>
    (\<exists>x p. poster_at s' a = NotifySpin 1 p True False \<and> worker_at s t = ClrSpinning x p \<and> worker_at s' t = WakeOne x p))"
  using assms by cases (simp_all add: worker_defs)

lemma dormant_kept: "worker_step L t s s' \<Longrightarrow> u \<noteq> t \<Longrightarrow> dormant s' u \<longleftrightarrow> dormant s u"
  using worker_kept worker_sleep unfolding dormant_def by metis

fun prio_fine :: "cpu_layout \<Rightarrow> nat \<Rightarrow> worker \<Rightarrow> bool" where
  "prio_fine L t (PopOwn p) = handles L t p" | "prio_fine L t (Dequeue p) = handles L t p"
| "prio_fine L t (StealFrom p vs) = handles L t p" | "prio_fine L t (SetWorking x p) = (p < PRIORITY_COUNT L)"
| "prio_fine L t (ClrSpinning x p) = (p < PRIORITY_COUNT L)" | "prio_fine L t _ = True"

definition prios_ok :: "cpu_layout \<Rightarrow> cpu \<Rightarrow> bool" where
  "prios_ok L s \<longleftrightarrow> (\<forall>t < thread_count L. prio_fine L t (worker_at s t)) \<and>
     (\<forall>x. \<forall>e \<in> set (inbox_q s x). snd e < PRIORITY_COUNT L)"

lemma ingest_worker:
  assumes "worker_step L t s s'" and "ingest_ok L s" and "prios_ok L s" and "t < thread_count L"
  shows "ingest_ok L s'"
  unfolding ingest_ok_def
proof (intro allI impI)
  fix P assume P: "P < PRIORITY_COUNT L" and i: "ingest s' P \<noteq> []"
  have "ingest s P \<noteq> []" using queues_shrink(2) [OF assms(1)] i .
  then consider (awake) u where "handles L u P" "\<not> (past_ingest (dequeued s P) (worker_at s u) P \<and> dormant s u)"
    | (notifying) a where "notifying (poster_at s a) P"
    using assms(2) P unfolding ingest_ok_def by blast
  then show "(\<exists>t. handles L t P \<and> \<not> (past_ingest (dequeued s' P) (worker_at s' t) P \<and> dormant s' t)) \<or> (\<exists>a. notifying (poster_at s' a) P)"
  proof cases
    case awake
    show ?thesis
    proof (cases "dequeued s' P = dequeued s P")
      case True
      then have "\<not> (past_ingest (dequeued s' P) (worker_at s' u) P \<and> dormant s' u)"
        using awake past_ingest_step [OF assms(1)] i worker_kept [OF assms(1)] dormant_kept [OF assms(1)] by metis
      then show ?thesis using awake(1) by blast
    next
      case False
      then have "worker_at s t = Dequeue P" "\<not> past_ingest (dequeued s' P) (worker_at s' t) P"
        using taker(2) [OF assms(1)] by blast+
      moreover from this have "handles L t P" using assms(3,4) unfolding prios_ok_def by fastforce
      ultimately show ?thesis by blast
    qed
  next
    case notifying
    then have "notifying (poster_at s' a) P" using worker_poster [OF assms(1), of a] by auto
    then show ?thesis by blast
  qed
qed

lemma inboxes_worker:
  assumes "worker_step L t s s'" and "inboxes_ok L s" and "ticket_count_ok s" and "t < thread_count L"
  shows "inboxes_ok L s'"
  unfolding inboxes_ok_def
proof (intro allI impI)
  fix x assume i: "inbox_q s' x \<noteq> []"
  have "inbox_q s x \<noteq> []" using queues_shrink(3) [OF assms(1)] i .
  then consider (awake) u where "u < thread_count L" "inbox_of L u = x" "\<not> (past_inbox (inbox_out s x) (worker_at s u) \<and> dormant s u)"
    | (hinting) a where "hinting L a (poster_at s a) x"
    using assms(2) unfolding inboxes_ok_def by blast
  then show "(\<exists>t < thread_count L. inbox_of L t = x \<and> \<not> (past_inbox (inbox_out s' x) (worker_at s' t) \<and> dormant s' t)) \<or>
    (\<exists>a. hinting L a (poster_at s' a) x)"
  proof cases
    case awake
    show ?thesis
    proof (cases "inbox_out s' x = inbox_out s x")
      case True
      then have "\<not> (past_inbox (inbox_out s' x) (worker_at s' u) \<and> dormant s' u)"
        using awake past_inbox_step [OF assms(1,3)] i worker_kept [OF assms(1)] dormant_kept [OF assms(1)] by metis
      then show ?thesis using awake(1,2) by blast
    next
      case False
      then show ?thesis using taker(1) [OF assms(1)] assms(4) by blast
    qed
  next
    case hinting
    then have "hinting L a (poster_at s' a) x" using worker_poster [OF assms(1), of a] by auto
    then show ?thesis by blast
  qed
qed

lemma posters_worker:
  assumes "worker_step L t s s'" and "posters_ok L s" and "\<And>x p. worker_at s t = ClrSpinning x p \<Longrightarrow> p < PRIORITY_COUNT L"
    and "t < thread_count L"
  shows "posters_ok L s'"
proof -
  have "poster_ok L a (poster_at s' a)" for a
    using worker_poster [OF assms(1), of a] assms(2-) unfolding posters_ok_def by auto
  moreover have "able_to_post s' a" if "a < thread_count L" "poster_at s' a \<noteq> NotPosting" for a
  proof (cases "poster_at s a = NotPosting")
    case True
    then show ?thesis using worker_poster [OF assms(1), of a] that(2) by (auto simp: able_to_post_def)
  next
    case False
    then have b: "able_to_post s a" using assms(2) that(1) unfolding posters_ok_def by blast
    show ?thesis
    proof (cases "a = t")
      case True
      have b: "able_to_post s t" "poster_at s t \<noteq> NotPosting" using b False True by simp_all
      from assms(1) have "able_to_post s' t" by cases (use b in \<open>auto simp: able_to_post_def worker_defs\<close>)
      then show ?thesis using True by simp
    next
      case False
      then show ?thesis using b worker_kept [OF assms(1)] by (simp add: able_to_post_def)
    qed
  qed
  ultimately show ?thesis by (simp add: posters_ok_def)
qed

lemma publish_step:
  assumes "worker_step L t s s'" and "handles L t P" and "sentinel_thread L P = t" and "past_publish (worker_at s' t) P"
  shows "(past_publish (worker_at s t) P \<and> fallback_wake_states s' P = fallback_wake_states s P) \<or>
    fallback_wake_states s' P = FALLBACK_WAKE_WAIT"
  using assms(1)
proof cases
  case (publish_skip p wv)
  then have "p \<noteq> P" using assms(3) by auto
  then show ?thesis using publish_skip assms(2,4) by (auto simp: worker_defs handles_def split: if_splits)
qed (use assms(2-4) in \<open>auto simp: worker_defs handles_def le_less less_Suc_eq split: if_splits\<close>)


lemma fallback_worker:
  assumes "worker_step L t s s'" and "fallback_ok L s" and "layout_ok L"
  shows "fallback_ok L s'"
  unfolding fallback_ok_def
proof (intro allI impI conjI)
  fix P assume P: "P < PRIORITY_COUNT L"
  let ?u = "sentinel_thread L P"
  have h: "handles L ?u P" by (rule sentinel_handles [OF assms(3) P])
  have old: "fallback_wake_states s P = FALLBACK_WAKE_NONE \<longrightarrow> \<not> past_publish (worker_at s ?u) P"
    "fallback_wake_states s P = FALLBACK_WAKE_WAKE \<longrightarrow> past_publish (worker_at s ?u) P \<longrightarrow> dormant s ?u \<longrightarrow>
      (\<exists>a. poster_at s a = WakeSlot ?u P)"
    using assms(2) P unfolding fallback_ok_def by blast+
  have states: "fallback_wake_states s' P = fallback_wake_states s P" if "?u \<noteq> t"
    using assms(1) by cases (use that in \<open>auto simp: worker_defs\<close>)
  have pub: "past_publish (worker_at s' ?u) P \<Longrightarrow>
      (past_publish (worker_at s ?u) P \<and> fallback_wake_states s' P = fallback_wake_states s P) \<or>
      fallback_wake_states s' P = FALLBACK_WAKE_WAIT"
    using publish_step [OF assms(1)] h states worker_kept [OF assms(1)] by metis
  show "\<not> past_publish (worker_at s' ?u) P" if "fallback_wake_states s' P = FALLBACK_WAKE_NONE"
    using pub old(1) that by auto
  have dorm: "dormant s' ?u \<Longrightarrow> past_publish (worker_at s' ?u) P \<Longrightarrow> past_publish (worker_at s ?u) P \<Longrightarrow> dormant s ?u"
  proof (cases "?u = t")
    case True
    assume "dormant s' ?u" "past_publish (worker_at s' ?u) P" "past_publish (worker_at s ?u) P"
    then have d: "dormant s' t" "past_publish (worker_at s' t) P" "past_publish (worker_at s t) P" using True by simp_all
    from assms(1) have "dormant s t" by cases (use d in \<open>auto simp: dormant_def worker_defs split: if_splits\<close>)
    then show ?thesis using True by simp
  qed (use dormant_kept [OF assms(1)] in simp)
  show "\<exists>a. poster_at s' a = WakeSlot ?u P" if w: "fallback_wake_states s' P = FALLBACK_WAKE_WAKE"
    "past_publish (worker_at s' ?u) P" "dormant s' ?u"
  proof -
    have "past_publish (worker_at s ?u) P" "fallback_wake_states s P = FALLBACK_WAKE_WAKE" using pub w by auto
    then obtain a where "poster_at s a = WakeSlot ?u P" using old(2) dorm w by blast
    then have "poster_at s' a = WakeSlot ?u P" using worker_poster [OF assms(1), of a] by auto
    then show ?thesis by blast
  qed
qed

lemma prios_worker:
  assumes "worker_step L t s s'" and "prios_ok L s" and "layout_ok L" and "t < thread_count L"
  shows "prios_ok L s'"
proof -
  have r: "range_begin L t < range_end L t" "range_end L t \<le> PRIORITY_COUNT L" using layoutD(3,4) [OF assms(3,4)] .
  have f: "prio_fine L t (worker_at s t)" "\<And>x e. e \<in> set (inbox_q s x) \<Longrightarrow> snd e < PRIORITY_COUNT L"
    using assms(2,4) by (auto simp: prios_ok_def)
  from assms(1) have "prio_fine L t (worker_at s' t)"
    by cases (use f(1) f(2) [of _ "inbox_of L t"] r assms(4) in \<open>force simp: worker_defs handles_def split: if_splits\<close>)+
  moreover from assms(1) have "\<forall>e \<in> set (inbox_q s' x). e \<in> set (inbox_q s x)" for x
    by cases (auto simp: worker_defs split: if_splits)
  ultimately show ?thesis using assms(2) worker_kept [OF assms(1)] unfolding prios_ok_def by metis
qed

section \<open>Steps of the posters\<close>

lemma poster_worker:
  assumes "poster_step L a s s'"
  shows "worker_at s' t = worker_at s t \<or> (t = a \<and> (\<exists>b. worker_at s a = Hook b \<and> worker_at s' a = Hook True))"
  using assms by cases (auto simp: poster_defs split: worker.splits)

lemma poster_kept: "poster_step L a s s' \<Longrightarrow> b \<noteq> a \<Longrightarrow> poster_at s' b = poster_at s b"
  by (erule poster_step.cases) (simp_all add: poster_defs)

lemma poster_frame:
  assumes "poster_step L a s s'"
  shows "working s' = working s" "spin_flag s' = spin_flag s" "stop_requested s' = stop_requested s" "teardown_at s' = teardown_at s"
    "spinning s' = spinning s" "executed s' = executed s" "inbox_out s' = inbox_out s" "dequeued s' = dequeued s"
  using assms by (cases; simp add: poster_defs)+

lemma tickets_poster: "poster_step L a s s' \<Longrightarrow> ticket_count_ok s \<Longrightarrow> ticket_count_ok s'"
  by (erule poster_step.cases) (auto simp: poster_defs ticket_count_ok_def)

lemma poster_sleep:
  assumes "poster_step L a s s'"
  shows "sleep_wait s t \<le> sleep_wait s' t"
  using assms by cases (auto simp: poster_defs)

text \<open>A notification undoes the readiness to sleep of the thread it wakes, and of nobody else does it restore it.\<close>

lemma wake_undoes: "wait_ok s \<Longrightarrow> \<not> dormant (wake t s) t"
proof
  assume "wait_ok s" "dormant (wake t s) t"
  then have "Suc (sleep_wait s t) \<le> sleep_wait s t" by (simp add: wait_ok_def dormant_def wake_def)
  then show False by simp
qed

lemma poster_dormant:
  assumes "poster_step L a s s'" and "wait_ok s" and "dormant s' t"
  shows "dormant s t"
proof -
  have "wait_value (worker_at s' t) = wait_value (worker_at s t)" using poster_worker [OF assms(1), of t] by auto
  moreover have "wait_value (worker_at s t) = Some wv \<Longrightarrow> wv \<le> sleep_wait s t" for wv
    using assms(2) by (simp add: wait_ok_def)
  ultimately show ?thesis using assms(3) poster_sleep [OF assms(1), of t] unfolding dormant_def by (metis order_antisym)
qed

lemma duty_poster: "poster_step L a s s' \<Longrightarrow> duty_ok s \<Longrightarrow> duty_ok s'"
  unfolding duty_ok_def using poster_worker [of L a s s'] poster_frame(1,2) [of L a s s']
  by (metis on_duty.simps(12))

lemma wait_poster:
  assumes "poster_step L a s s'" and "wait_ok s"
  shows "wait_ok s'"
  unfolding wait_ok_def
proof (intro allI impI)
  fix t wv assume w: "wait_value (worker_at s' t) = Some wv"
  then have "wait_value (worker_at s t) = Some wv" using poster_worker [OF assms(1), of t] by auto
  then show "wv \<le> sleep_wait s' t" using assms(2) poster_sleep [OF assms(1), of t] unfolding wait_ok_def by (meson order_trans)
qed

lemma calm_poster: "poster_step L a s s' \<Longrightarrow> calm s \<Longrightarrow> calm s'"
  unfolding calm_def using poster_worker [of L a s s'] poster_frame(3,4) [of L a s s'] by (metis leaving.simps(16))

lemma hint_slot_cases:
  assumes "layout_ok L" and "handles L h p" and "p < PRIORITY_COUNT L"
  shows "handles L (hint_slot L p h w) p" and "hint_slot L p h w \<noteq> h \<Longrightarrow> h \<in> w"
proof -
  have h: "h < thread_count L" using assms(2) by (simp add: handles_def)
  obtain n where n: "group_size L h = Suc n" using layoutD(9) [OF assms(1) h] by (metis Suc_pred')
  obtain r where r: "waker_row L p h = h # r"
    using layoutD(5) [OF assms(1,3) h] layoutD(7) [OF assms(1,3,2)] by (metis list.collapse)
  show "hint_slot L p h w \<noteq> h \<Longrightarrow> h \<in> w" using r n by (auto simp: hint_slot_def split: if_splits)
  have "slot \<in> set (waker_row L p h)" if "find f (take k (waker_row L p h)) = Some slot" for f k slot
    using that unfolding find_Some_iff by (metis in_set_takeD nth_mem)
  then show "handles L (hint_slot L p h w) p"
    using assms(2) layoutD(6) [OF assms(1,3) h] unfolding hint_slot_def by (auto split: option.splits)
qed

lemma verdict_ok:
  assumes "layout_ok L" and "P < PRIORITY_COUNT L" and "allowed \<longrightarrow> a < thread_count L"
  shows "poster_ok L a (notify_verdict L a allowed fromPost spin work P)"
    and "\<not> allowed \<Longrightarrow> notifying (notify_verdict L a allowed fromPost spin work P) P"
    and "notify_verdict L a allowed fromPost spin work P \<noteq> NotPosting \<Longrightarrow>
      notifying (notify_verdict L a allowed fromPost spin work P) P"
proof -
  have f: "handles L slot P" if "find f (tl (waker_row L P a)) = Some slot" "allowed" for f slot
  proof -
    have "slot \<in> set (tl (waker_row L P a))" using that(1) unfolding find_Some_iff by auto
    then have "slot \<in> set (waker_row L P a)" by (cases "waker_row L P a") simp_all
    then show ?thesis using layoutD(6) [OF assms(1,2)] assms(3) that(2) by blast
  qed
  have m: "handles L (Min (sleeping_in L P spin work)) P" if "sleeping_in L P spin work \<noteq> {}"
  proof -
    have "finite (sleeping_in L P spin work)"
      by (rule finite_subset [of _ "{..<thread_count L}"]) (auto simp: sleeping_in_def allowed_threads_def)
    then have "Min (sleeping_in L P spin work) \<in> sleeping_in L P spin work" using that by (rule Min_in)
    then show ?thesis by (simp add: sleeping_in_def allowed_threads_def)
  qed
  show "poster_ok L a (notify_verdict L a allowed fromPost spin work P)"
    using f m assms(2) unfolding notify_verdict_def by (auto simp: Let_def split: option.splits)
qed (auto simp: notify_verdict_def Let_def split: option.splits if_splits)


lemma own_poster:
  assumes "poster_step L a s s'" and "own_ok L s" and "posters_ok L s"
  shows "own_ok L s'"
  unfolding own_ok_def
proof (intro allI impI)
  fix t P assume d: "deque_of s' t P \<noteq> []"
  have w: "past_own b (worker_at s' t) P \<Longrightarrow> past_own b (worker_at s t) P" for b
    using poster_worker [OF assms(1), of t] by auto
  show "handles L t P \<and> (careless_hooks L \<or> \<not> past_own (range_begin L t) (worker_at s' t) P)"
  proof (cases "deque_of s t P = []")
    case False
    then show ?thesis using assms(2) w unfolding own_ok_def by blast
  next
    case True
    from assms(1) have "handles L t P \<and> t = a \<and> able_to_post s a \<and> (\<forall>b. worker_at s' a \<noteq> Hook False)"
    proof cases
      case (queue_deque xs p)
      then have "able_to_post s a" using assms(3) by (simp add: posters_ok_def handles_def)
      then show ?thesis using queue_deque d True
        by (auto simp: poster_defs able_to_post_def split: if_splits worker.splits)
    qed (use d True in \<open>simp_all add: poster_defs\<close>)
    then show ?thesis using poster_worker [OF assms(1), of a] by (auto simp: able_to_post_def split: worker.splits bool.splits)
  qed
qed

lemma ingest_poster:
  assumes "poster_step L a s s'" and "ingest_ok L s" and L: "layout_ok L" and w: "wait_ok s" and "posters_ok L s" and f: "fallback_ok L s"
  shows "ingest_ok L s'"
  unfolding ingest_ok_def
proof (intro allI impI)
  fix P assume P: "P < PRIORITY_COUNT L" and i: "ingest s' P \<noteq> []"
  have past: "past_ingest (dequeued s' P) (worker_at s' t) P \<Longrightarrow> past_ingest (dequeued s P) (worker_at s t) P" for t
    using poster_worker [OF assms(1), of t] poster_frame(8) [OF assms(1)] by auto
  have awake: "\<not> (past_ingest (dequeued s P) (worker_at s t) P \<and> dormant s t) \<Longrightarrow> \<not> (past_ingest (dequeued s' P) (worker_at s' t) P \<and> dormant s' t)" for t
    using past poster_dormant [OF assms(1) w] by blast
  let ?goal = "(\<exists>t. handles L t P \<and> \<not> (past_ingest (dequeued s' P) (worker_at s' t) P \<and> dormant s' t)) \<or> (\<exists>a. notifying (poster_at s' a) P)"
  have ok: "poster_ok L a (poster_at s a)" using assms(5) by (simp add: posters_ok_def)
  have h: "handles L (sentinel_thread L P) P" by (rule sentinel_handles [OF L P])
  have fb: "fallback_wake_states s P = FALLBACK_WAKE_NONE \<Longrightarrow> \<not> past_publish (worker_at s (sentinel_thread L P)) P"
    "fallback_wake_states s P = FALLBACK_WAKE_WAKE \<Longrightarrow> past_publish (worker_at s (sentinel_thread L P)) P \<Longrightarrow> dormant s (sentinel_thread L P)
      \<Longrightarrow> \<exists>b. poster_at s b = WakeSlot (sentinel_thread L P) P"
    using f P unfolding fallback_ok_def by blast+
  have pp: "past_ingest d pc P \<Longrightarrow> past_publish pc P" for pc d by (cases pc) auto
  have refused: ?goal if n: "fallback_wake_states s P \<noteq> FALLBACK_WAKE_WAIT" and "\<And>b. poster_at s a \<noteq> WakeSlot b P"
  proof (cases "past_ingest (dequeued s P) (worker_at s (sentinel_thread L P)) P \<and> dormant s (sentinel_thread L P)")
    case False
    then show ?thesis using h awake by blast
  next
    case True
    then have "fallback_wake_states s P = FALLBACK_WAKE_WAKE" using fb(1) pp n by (metis fallback.exhaust)
    then obtain b where b: "poster_at s b = WakeSlot (sentinel_thread L P) P" using fb(2) pp True by blast
    then have "b \<noteq> a" using that(2) by auto
    then have "notifying (poster_at s' b) P" using poster_kept [OF assms(1)] b by simp
    then show ?thesis by blast
  qed
  show ?goal
  proof (cases "notifying (poster_at s' a) P")
    case True
    then show ?thesis by blast
  next
    case False
    have old: ?goal if ne: "ingest s P \<noteq> []" and nn: "\<not> notifying (poster_at s a) P"
    proof -
      consider (awake) t where "handles L t P" "\<not> (past_ingest (dequeued s P) (worker_at s t) P \<and> dormant s t)"
        | (notifying) b where "notifying (poster_at s b) P"
        using assms(2) P ne unfolding ingest_ok_def by blast
      then show ?thesis
      proof cases
        case (notifying b)
        then have "b \<noteq> a" using nn by auto
        then show ?thesis using notifying poster_kept [OF assms(1)] by metis
      qed (use awake in blast)
    qed
    from assms(1) show ?thesis
    proof cases
      case (queue_ingest xs p)
      then show ?thesis using False old i by (cases "p = P") (auto simp: poster_defs)
    next
      case (decide_return allowed fromPost spin work P')
      have "allowed \<or> P' \<noteq> P"
      proof (rule ccontr)
        assume n: "\<not> (allowed \<or> P' \<noteq> P)"
        then have "notifying (notify_verdict L a allowed fromPost spin work P') P'"
          using verdict_ok(2) [OF L, of P' allowed a fromPost spin work] P by blast
        then show False using decide_return(3) by simp
      qed
      then show ?thesis by (intro old) (use decide_return i in \<open>auto simp: poster_defs\<close>)
    next
      case (decide allowed fromPost spin work P' v)
      then have "P' \<noteq> P" using verdict_ok(3) [of L P' allowed a fromPost spin work] ok L False by (auto simp: poster_defs)
      then show ?thesis using decide old i by (auto simp: poster_defs)
    next
      case (fallback_not_waiting P')
      then show ?thesis using refused old i by (cases "P' = P") (auto simp: poster_defs)
    next
      case (exchange_lost P')
      then show ?thesis using refused old i by (cases "P' = P") (auto simp: poster_defs)
    next
      case (wake_slot slot P')
      show ?thesis
      proof (cases "P' = P")
        case True
        then have "handles L slot P" using ok wake_slot by simp
        moreover have "\<not> dormant s' slot"
          using wake_undoes [OF w, of slot] unfolding wake_slot(1) by (simp add: dormant_def poster_defs)
        ultimately show ?thesis by blast
      qed (use wake_slot old i in \<open>auto simp: poster_defs\<close>)
    next
      case (notify_work Count P' allowed fromPost spin)
      then show ?thesis using False old i by (auto simp: poster_defs notify_start_def split: if_splits)
    next
      case (interrupt_slot S q k Count allowed fromPost spin work P')
      then show ?thesis using False old i by (auto simp: poster_defs split: if_splits)
    qed (use False old i in \<open>auto simp: poster_defs split: if_splits\<close>)
  qed
qed


lemma on_duty_awake: "on_duty flag pc \<Longrightarrow> \<not> past_inbox r pc"
  by (cases pc) auto

lemma inboxes_poster:
  assumes "poster_step L a s s'" and "inboxes_ok L s" and L: "layout_ok L" and w: "wait_ok s" and "posters_ok L s" and duty: "duty_ok s"
  shows "inboxes_ok L s'"
  unfolding inboxes_ok_def
proof (intro allI impI)
  fix x assume i: "inbox_q s' x \<noteq> []"
  have past: "past_inbox (inbox_out s' x) (worker_at s' t) \<Longrightarrow> past_inbox (inbox_out s x) (worker_at s t)" for t
    using poster_worker [OF assms(1), of t] poster_frame(7) [OF assms(1)] by auto
  have awake: "\<not> (past_inbox (inbox_out s x) (worker_at s t) \<and> dormant s t) \<Longrightarrow> \<not> (past_inbox (inbox_out s' x) (worker_at s' t) \<and> dormant s' t)" for t
    using past poster_dormant [OF assms(1) w] by blast
  let ?awake = "\<lambda>s. \<exists>t < thread_count L. inbox_of L t = x \<and> \<not> (past_inbox (inbox_out s x) (worker_at s t) \<and> dormant s t)"
  let ?goal = "?awake s' \<or> (\<exists>a. hinting L a (poster_at s' a) x)"
  have ok: "poster_ok L a (poster_at s a)" using assms(5) by (simp add: posters_ok_def)
  show ?goal
  proof (cases "hinting L a (poster_at s' a) x")
    case True
    then show ?thesis by blast
  next
    case False
    have old: ?goal if ne: "inbox_q s x \<noteq> []" and nn: "\<not> hinting L a (poster_at s a) x"
    proof -
      consider (awake) "?awake s" | (hinting) b where "hinting L b (poster_at s b) x"
        using assms(2) ne unfolding inboxes_ok_def by blast
      then show ?thesis
      proof cases
        case (hinting b)
        then have "b \<noteq> a" using nn by auto
        then show ?thesis using hinting poster_kept [OF assms(1)] by metis
      qed (use awake in blast)
    qed
    from assms(1) show ?thesis
    proof cases
      case (inbox_push y xs p h k)
      then show ?thesis using False old i by (cases "inbox_of L h = x") (auto simp: poster_defs)
    next
      case (inbox_stop xs p h k)
      show ?thesis
      proof (cases "inbox_of L h = x \<and> 0 < k")
        case True
        then have "a < thread_count L \<and> h = a" using False inbox_stop by (auto simp: poster_defs split: if_splits)
        moreover from this have "able_to_post s a" using assms(5) inbox_stop by (simp add: posters_ok_def)
        then have "\<not> past_inbox (inbox_out s x) (worker_at s a)" by (auto simp: able_to_post_def split: worker.splits)
        then have "\<not> past_inbox (inbox_out s' x) (worker_at s' a)" using past by blast
        ultimately show ?thesis using True by blast
      qed (use inbox_stop old i in \<open>auto simp: poster_defs\<close>)
    next
      case (hint_load xs p h)
      show ?thesis
      proof (cases "inbox_of L h = x")
        case True
        have h: "handles L h p" "p < PRIORITY_COUNT L" using ok hint_load by simp_all
        have "hint_slot L p h (working s) \<noteq> h" using False hint_load True by (auto simp: poster_defs)
        then have "h \<in> working s" using hint_slot_cases(2) [OF L h] by simp
        then have "on_duty (spin_flag s h) (worker_at s h)" using duty by (simp add: duty_ok_def)
        then have "\<not> past_inbox (inbox_out s' x) (worker_at s' h)" using past on_duty_awake by blast
        then show ?thesis using True h(1) unfolding handles_def by blast
      qed (use hint_load old i in \<open>auto simp: poster_defs\<close>)
    next
      case (hint_wake xs p slot)
      show ?thesis
      proof (cases "inbox_of L slot = x")
        case True
        have "slot < thread_count L" using ok hint_wake by (simp add: handles_def)
        moreover have "\<not> dormant s' slot"
          using wake_undoes [OF w, of slot] unfolding hint_wake(1) by (simp add: dormant_def poster_defs)
        ultimately show ?thesis using True by blast
      qed (use hint_wake old i in \<open>auto simp: poster_defs\<close>)
    qed (use False old i in \<open>auto simp: poster_defs notify_start_def split: if_splits\<close>)
  qed
qed

lemma clamp_less: "layout_ok L \<Longrightarrow> clamp_priority L p < PRIORITY_COUNT L"
  using layoutD(2) [of L] by (auto simp: clamp_priority_def)

lemma poster_ok_step:
  assumes "poster_step L a s s'" and "poster_ok L a (poster_at s a)" and L: "layout_ok L"
  shows "poster_ok L a (poster_at s' a)"
  using assms(1)
proof cases
  case (post xs p prio h)
  then show ?thesis using clamp_less [OF L] by (simp add: poster_defs)
next
  case (hint_load xs p h)
  then show ?thesis using assms(2) hint_slot_cases(1) [OF L] by (simp add: poster_defs)
next
  case (queue_deque xs p)
  then show ?thesis using assms(2) by (auto simp: poster_defs handles_def)
next
  case (decide allowed fromPost spin work P v)
  then show ?thesis using assms(2) verdict_ok(1) [OF L, of P allowed a fromPost spin work] by (simp add: poster_defs)
next
  case (exchange_won P)
  then show ?thesis using assms(2) sentinel_handles [OF L] by (simp add: poster_defs)
qed (use assms(2) in \<open>auto simp: poster_defs notify_start_def\<close>)

lemma able_poster:
  assumes "poster_step L a s s'"
  shows "able_to_post s t \<longleftrightarrow> able_to_post s' t"
  using poster_worker [OF assms, of t] by (auto simp: able_to_post_def)

lemma posters_poster:
  assumes "poster_step L a s s'" and "posters_ok L s" and L: "layout_ok L"
  shows "posters_ok L s'"
proof -
  have "poster_ok L b (poster_at s' b)" for b
    using poster_ok_step [OF assms(1) _ L] poster_kept [OF assms(1), of b] assms(2) unfolding posters_ok_def by (cases "b = a") auto
  moreover have "able_to_post s' b" if b: "b < thread_count L" "poster_at s' b \<noteq> NotPosting" for b
  proof (cases "poster_at s b = NotPosting")
    case False
    then show ?thesis using assms(2) b(1) able_poster [OF assms(1)] unfolding posters_ok_def by blast
  next
    case True
    then have "b = a" using b(2) poster_kept [OF assms(1)] by metis
    from assms(1) have "can_post L s b"
      by cases (use True \<open>b = a\<close> b in \<open>auto simp: poster_defs\<close>)
    then have "able_to_post s b" using b(1) by (simp add: can_post_def able_to_post_def split: worker.splits)
    then show ?thesis using able_poster [OF assms(1)] by blast
  qed
  ultimately show ?thesis by (simp add: posters_ok_def)
qed

lemma fallback_poster:
  assumes "poster_step L a s s'" and f: "fallback_ok L s" and w: "wait_ok s"
  shows "fallback_ok L s'"
  unfolding fallback_ok_def
proof (intro allI impI)
  fix P assume P: "P < PRIORITY_COUNT L"
  let ?u = "sentinel_thread L P"
  have old: "fallback_wake_states s P = FALLBACK_WAKE_NONE \<longrightarrow> \<not> past_publish (worker_at s ?u) P"
    "fallback_wake_states s P = FALLBACK_WAKE_WAKE \<longrightarrow> past_publish (worker_at s ?u) P \<longrightarrow> dormant s ?u \<longrightarrow>
      (\<exists>a. poster_at s a = WakeSlot ?u P)"
    using f P unfolding fallback_ok_def by blast+
  have pub: "past_publish (worker_at s' ?u) P \<longleftrightarrow> past_publish (worker_at s ?u) P"
    using poster_worker [OF assms(1), of ?u] by auto
  note dorm = poster_dormant [OF assms(1) w, of ?u]
  let ?goal = "(fallback_wake_states s' P = FALLBACK_WAKE_NONE \<longrightarrow> \<not> past_publish (worker_at s' ?u) P) \<and>
     (fallback_wake_states s' P = FALLBACK_WAKE_WAKE \<longrightarrow> past_publish (worker_at s' ?u) P \<longrightarrow>
        dormant s' ?u \<longrightarrow> (\<exists>a. poster_at s' a = WakeSlot ?u P))"
  have kept: ?goal if st: "fallback_wake_states s' P = fallback_wake_states s P" and n: "poster_at s a = WakeSlot ?u P \<Longrightarrow> \<not> dormant s' ?u"
  proof -
    have "\<exists>b. poster_at s' b = WakeSlot ?u P" if d: "fallback_wake_states s' P = FALLBACK_WAKE_WAKE"
      "past_publish (worker_at s' ?u) P" "dormant s' ?u"
    proof -
      obtain b where b: "poster_at s b = WakeSlot ?u P" using old(2) d pub dorm st by auto
      then have "b \<noteq> a" using n d(3) by auto
      then show ?thesis using b poster_kept [OF assms(1)] by metis
    qed
    then show ?thesis using old(1) st pub by simp
  qed
  show ?goal
    using assms(1)
  proof cases
    case (exchange_lost P')
    show ?thesis
    proof (cases "P' = P")
      case True
      have "\<exists>b. poster_at s' b = WakeSlot ?u P" if d: "past_publish (worker_at s' ?u) P" "dormant s' ?u"
      proof -
        have "fallback_wake_states s P = FALLBACK_WAKE_WAKE"
          using exchange_lost(3) True old(1) d(1) pub by (metis fallback.exhaust)
        then obtain b where b: "poster_at s b = WakeSlot ?u P" using old(2) d pub dorm by auto
        then have "b \<noteq> a" using exchange_lost(2) by auto
        then show ?thesis using b poster_kept [OF assms(1)] by metis
      qed
      then show ?thesis using True unfolding exchange_lost(1) by (simp add: poster_defs)
    qed (rule kept; use exchange_lost in \<open>simp add: poster_defs\<close>)
  next
    case (exchange_won P')
    show ?thesis
    proof (cases "P' = P")
      case True
      then have "poster_at s' a = WakeSlot ?u P" "fallback_wake_states s' P = FALLBACK_WAKE_WAKE"
        unfolding exchange_won(1) by (simp_all add: poster_defs)
      then show ?thesis by auto
    qed (rule kept; use exchange_won in \<open>simp add: poster_defs\<close>)
  next
    case (wake_slot slot P')
    have "\<not> dormant s' slot"
      using wake_undoes [OF w, of slot] unfolding wake_slot(1) by (simp add: dormant_def poster_defs)
    then show ?thesis by (intro kept) (use wake_slot in \<open>auto simp: poster_defs\<close>)
  qed (rule kept; simp add: poster_defs)+
qed

lemma prios_poster:
  assumes "poster_step L a s s'" and "prios_ok L s" and "posters_ok L s"
  shows "prios_ok L s'"
proof -
  have "prio_fine L t (worker_at s t) \<Longrightarrow> prio_fine L t (worker_at s' t)" for t
    using poster_worker [OF assms(1), of t] by auto
  moreover have "snd e < PRIORITY_COUNT L" if "e \<in> set (inbox_q s' x)" for e x
  proof (cases "e \<in> set (inbox_q s x)")
    case True
    then show ?thesis using assms(2) unfolding prios_ok_def by blast
  next
    case False
    have ok: "poster_ok L a (poster_at s a)" using assms(3) by (simp add: posters_ok_def)
    from assms(1) show ?thesis
      by cases (use that False ok in \<open>auto simp: poster_defs split: if_splits\<close>)
  qed
  ultimately show ?thesis using assms(2) unfolding prios_ok_def by blast
qed

section \<open>Steps of the teardown\<close>

lemma teardown_frame:
  assumes "teardown_step L s s'"
  shows "worker_at s' = worker_at s" "poster_at s' = poster_at s" "ingest s' = ingest s" "inbox_q s' = inbox_q s" "deque_of s' = deque_of s"
    "working s' = working s" "spin_flag s' = spin_flag s" "fallback_wake_states s' = fallback_wake_states s"
    "executed s' = executed s" "posted s' = posted s" "ref_count s' = ref_count s" "sleep_wait s t \<le> sleep_wait s' t" "inbox_in s' = inbox_in s" "inbox_out s' = inbox_out s" "dequeued s' = dequeued s"
  using assms by (cases; simp add: wake_def)+

lemma teardown_dormant: "teardown_step L s s' \<Longrightarrow> wait_ok s \<Longrightarrow> dormant s' t \<Longrightarrow> dormant s t"
  using teardown_frame(1,12) [of L s s' ] unfolding dormant_def wait_ok_def by (metis order_antisym)

section \<open>No work is forgotten\<close>

definition cpu_inv :: "cpu_layout \<Rightarrow> cpu \<Rightarrow> bool" where
  "cpu_inv L s \<longleftrightarrow> layout_ok L \<and> duty_ok s \<and> wait_ok s \<and> fallback_ok L s \<and> ingest_ok L s \<and> inboxes_ok L s \<and>
     own_ok L s \<and> posters_ok L s \<and> prios_ok L s \<and> calm s \<and> ticket_count_ok s"

lemma cpu_invD:
  assumes "cpu_inv L s"
  shows "layout_ok L" "duty_ok s" "wait_ok s" "fallback_ok L s" "ingest_ok L s" "inboxes_ok L s"
    "own_ok L s" "posters_ok L s" "prios_ok L s" "calm s" "ticket_count_ok s"
  using assms unfolding cpu_inv_def by blast+

lemma cpu_inv_teardown:
  assumes "teardown_step L s s'" and inv: "cpu_inv L s"
  shows "cpu_inv L s'"
proof -
  note i = cpu_invD [OF inv] and f = teardown_frame [OF assms(1)] and d = teardown_dormant [OF assms(1) i(3)]
  have "wait_ok s'" using i(3) f(1,12) unfolding wait_ok_def by (metis order_trans)
  moreover have "fallback_ok L s'" using i(4) f(1,2,8) d unfolding fallback_ok_def by metis
  moreover have "ingest_ok L s'" using i(5) f(1-3,15) d unfolding ingest_ok_def by metis
  moreover have "inboxes_ok L s'" using i(6) f(1,2,4,14) d unfolding inboxes_ok_def by metis
  moreover have "calm s'" using assms(1) i(10) by cases (simp_all add: calm_def wake_def)
  ultimately show ?thesis using i f
    unfolding cpu_inv_def duty_ok_def own_ok_def posters_ok_def prios_ok_def able_to_post_def ticket_count_ok_def by auto
qed

lemma cpu_inv_step:
  assumes "cpu_inv L s" and "cpu_step L s s'"
  shows "cpu_inv L s'"
  using assms(2)
proof cases
  case (by_worker t)
  note i = cpu_invD [OF assms(1)] and st = by_worker(2)
  have "p < PRIORITY_COUNT L" if "worker_at s t = ClrSpinning x p" for x p
    using i(9) by_worker(1) that unfolding prios_ok_def by fastforce
  then show ?thesis
    using i(1) duty_worker [OF st i(2)] wait_worker [OF st i(3)] fallback_worker [OF st i(4,1)] ingest_worker [OF st i(5,9) by_worker(1)]
      inboxes_worker [OF st i(6,11) by_worker(1)] own_worker [OF st i(7)] posters_worker [OF st i(8) _ by_worker(1)]
      prios_worker [OF st i(9,1) by_worker(1)] calm_worker [OF st i(10)] tickets_worker [OF st i(11)]
    unfolding cpu_inv_def by blast
next
  case (by_poster a)
  note i = cpu_invD [OF assms(1)] and st = by_poster
  show ?thesis
    using i(1) duty_poster [OF st i(2)] wait_poster [OF st i(3)] fallback_poster [OF st i(4,3)]
      ingest_poster [OF st i(5,1,3,8,4)] inboxes_poster [OF st i(6,1,3,8,2)] own_poster [OF st i(7,8)]
      posters_poster [OF st i(8,1)] prios_poster [OF st i(9,8)] calm_poster [OF st i(10)] tickets_poster [OF st i(11)]
    unfolding cpu_inv_def by blast
qed (rule cpu_inv_teardown [OF _ assms(1)])

lemma cpu_inv_start: "cpu_start L s \<Longrightarrow> cpu_inv L s"
  by (auto simp: cpu_start_def cpu_new_def cpu_inv_def duty_ok_def wait_ok_def fallback_ok_def ingest_ok_def inboxes_ok_def
    own_ok_def posters_ok_def prios_ok_def calm_def ticket_count_ok_def)

interpretation cpu: invariant_of "cpu_start L" "cpu_step L" "cpu_inv L" for L
  by unfold_locales (fact cpu_inv_start cpu_inv_step)+

section \<open>Each item runs once\<close>

fun in_hand_of :: "worker \<Rightarrow> nat multiset" where
  "in_hand_of (SetWorking x p) = {#x#}" | "in_hand_of (ClrSpinning x p) = {#x#}" | "in_hand_of (WakeOne x p) = {#x#}"
| "in_hand_of (StoreYield x p) = {#x#}" | "in_hand_of (ClrStopper x p) = {#x#}" | "in_hand_of (SetStopper x p) = {#x#}"
| "in_hand_of (Running x p) = {#x#}" | "in_hand_of _ = {#}"

text \<open>The items of a call that it has not put into a queue yet.\<close>

fun items_of_call :: "poster \<Rightarrow> nat multiset" where
  "items_of_call (Inboxing xs p h k) = mset xs" | "items_of_call (HintLoad xs p h) = mset xs"
| "items_of_call (HintWake xs p slot) = mset xs" | "items_of_call (Queueing xs p) = mset xs" | "items_of_call _ = {#}"

definition items_in_calls :: "cpu \<Rightarrow> nat multiset" where
  "items_in_calls s = (\<Sum>a | items_of_call (poster_at s a) \<noteq> {#}. items_of_call (poster_at s a))"

definition queued_items :: "cpu_layout \<Rightarrow> cpu \<Rightarrow> nat multiset" where
  "queued_items L s = (\<Sum>P<PRIORITY_COUNT L. mset (ingest s P)) +
     (\<Sum>t<thread_count L. \<Sum>P<PRIORITY_COUNT L. mset (deque_of s t P)) +
     (\<Sum>x\<in>inbox_of L ` {..<thread_count L}. mset (map fst (inbox_q s x)))"

definition items_in_hand :: "cpu_layout \<Rightarrow> cpu \<Rightarrow> nat multiset" where
  "items_in_hand L s = (\<Sum>t<thread_count L. in_hand_of (worker_at s t))"

text \<open>How each part of \<open>unfinished\<close> changes.\<close>

lemma hands_upd:
  "(t::nat) < n \<Longrightarrow> (\<Sum>i<n. in_hand_of ((f(t := v)) i)) + in_hand_of (f t) = (\<Sum>i<n. in_hand_of (f i)) + in_hand_of v"
  using sum_upd [of "{..<n::nat}" t in_hand_of f v] by simp

lemma ingest_upd:
  "(P::nat) < n \<Longrightarrow> (\<Sum>i<n. mset ((f(P := v)) i)) + mset (f P) = (\<Sum>i<n. mset (f i)) + mset v"
  using sum_upd [of "{..<n::nat}" P mset f v] by simp

lemma inbox_upd:
  "x \<in> A \<Longrightarrow> finite A \<Longrightarrow> (\<Sum>i\<in>A. mset (map fst ((f(x := v)) i))) + mset (map fst (f x)) = (\<Sum>i\<in>A. mset (map fst (f i))) + mset (map fst v)"
  using sum_upd [of A x "\<lambda>l. mset (map fst l)" f v] by simp

lemma deque_upd:
  assumes "(t::nat) < n" and "(P::nat) < m"
  shows "(\<Sum>i<n. \<Sum>j<m. mset ((f(t := (f t)(P := v))) i j)) + mset (f t P) = (\<Sum>i<n. \<Sum>j<m. mset (f i j)) + mset v"
proof -
  have a: "(\<Sum>i<n. \<Sum>j<m. mset ((f(t := (f t)(P := v))) i j)) + (\<Sum>j<m. mset (f t j)) =
      (\<Sum>i<n. \<Sum>j<m. mset (f i j)) + (\<Sum>j<m. mset (((f t)(P := v)) j))"
    using sum_upd [of "{..<n::nat}" t "\<lambda>h. \<Sum>j<m. mset (h j)" f "(f t)(P := v)"] assms(1) by simp
  have b: "(\<Sum>j<m. mset (((f t)(P := v)) j)) + mset (f t P) = (\<Sum>j<m. mset (f t j)) + mset v"
    by (rule ingest_upd [OF assms(2)])
  have "(\<Sum>i<n. \<Sum>j<m. mset ((f(t := (f t)(P := v))) i j)) + mset (f t P) + (\<Sum>j<m. mset (f t j)) =
      (\<Sum>i<n. \<Sum>j<m. mset (f i j)) + mset v + (\<Sum>j<m. mset (f t j))"
    (is "?A' + ?m + ?S = ?A + ?v + ?S")
  proof -
    have "?A' + ?m + ?S = (?A' + ?S) + ?m" by (simp only: ac_simps)
    also have "\<dots> = ?A + ((\<Sum>j<m. mset (((f t)(P := v)) j)) + ?m)" by (simp only: a add.assoc)
    also have "\<dots> = ?A + ?v + ?S" unfolding b by (simp only: ac_simps)
    finally show ?thesis .
  qed
  then show ?thesis by simp
qed

definition accounted :: "cpu_layout \<Rightarrow> cpu \<Rightarrow> bool" where
  "accounted L s \<longleftrightarrow> finite {a. items_of_call (poster_at s a) \<noteq> {#}} \<and>
     posted s = items_in_calls s + queued_items L s + items_in_hand L s + executed s"

lemma moved: "A + B = C + D \<Longrightarrow> B = D + {#x#} \<Longrightarrow> A + {#x#} = (C :: nat multiset)"
  by (metis add.assoc add.commute add_right_cancel)

lemma hands_same: "(\<And>t. in_hand_of (worker_at s' t) = in_hand_of (worker_at s t)) \<Longrightarrow> items_in_hand L s' = items_in_hand L s"
  by (simp add: items_in_hand_def)

text \<open>A step of a worker leaves the calls what they hold.\<close>

lemma calls_same:
  assumes "\<And>a. items_of_call (poster_at s' a) = items_of_call (poster_at s a)" and "accounted L s"
  shows "finite {a. items_of_call (poster_at s' a) \<noteq> {#}}" and "items_in_calls s' = items_in_calls s"
  using assms by (simp_all add: items_in_calls_def accounted_def)

lemma calls_worker: "worker_step L t s s' \<Longrightarrow> items_of_call (poster_at s' a) = items_of_call (poster_at s a)"
  using worker_poster [of L t s s' a] by auto

lemma queued_same: "ingest s' = ingest s \<Longrightarrow> deque_of s' = deque_of s \<Longrightarrow> inbox_q s' = inbox_q s \<Longrightarrow>
    queued_items L s' = queued_items L s"
  by (simp add: queued_items_def)

lemma queued_deque:
  assumes "handles L t P" and "layout_ok L"
  shows "queued_items L (s\<lparr>deque_of := (deque_of s)(t := (deque_of s t)(P := xs))\<rparr>) + mset (deque_of s t P) =
    queued_items L s + mset xs"
proof -
  have "t < thread_count L" "P < PRIORITY_COUNT L" using assms layoutD(4) [OF assms(2), of t] by (auto simp: handles_def)
  from deque_upd [OF this, of "deque_of s" xs] show ?thesis by (simp add: queued_items_def ac_simps)
qed

lemma queued_ingest:
  assumes "P < PRIORITY_COUNT L"
  shows "queued_items L (s\<lparr>ingest := (ingest s)(P := xs)\<rparr>) + mset (ingest s P) = queued_items L s + mset xs"
  using ingest_upd [OF assms, of "ingest s" xs] by (simp add: queued_items_def ac_simps)

lemma queued_inbox:
  assumes "t < thread_count L"
  shows "queued_items L (s\<lparr>inbox_q := (inbox_q s)(inbox_of L t := xs)\<rparr>) + mset (map fst (inbox_q s (inbox_of L t))) =
    queued_items L s + mset (map fst xs)"
  using inbox_upd [of "inbox_of L t" "inbox_of L ` {..<thread_count L}" "inbox_q s" xs] assms
  by (simp add: queued_items_def ac_simps)

text \<open>An item taken from a queue is in the hand of the worker.\<close>

lemma accounted_found:
  assumes "accounted L s" and "t < thread_count L" and "in_hand_of (worker_at s t) = {#}"
    and "queued_items L s1 + {#x#} = queued_items L s"
    and "worker_at s1 = worker_at s" "posted s1 = posted s" "executed s1 = executed s" "poster_at s1 = poster_at s"
  shows "accounted L (found t x p s1)"
proof -
  have "items_in_hand L (found t x p s1) = items_in_hand L s + {#x#}"
    using hands_upd [OF assms(2), of "worker_at s" "if spin_flag s1 t then SetWorking x p else StoreYield x p"] assms(3,5)
    by (simp add: items_in_hand_def found_def set_worker_def)
  moreover have "queued_items L (found t x p s1) = queued_items L s1"
    by (rule queued_same) (simp_all add: found_def set_worker_def)
  moreover have "queued_items L s + items_in_hand L s + executed s = queued_items L s1 + (items_in_hand L s + {#x#}) + executed s"
    unfolding assms(4) [symmetric] by (simp add: ac_simps)
  moreover have "items_in_calls (found t x p s1) = items_in_calls s"
    by (rule calls_same(2) [OF _ assms(1)]) (simp add: found_def set_worker_def assms(8))
  ultimately show ?thesis using assms(1,6,7,8) by (simp add: accounted_def found_def set_worker_def ac_simps)
qed

lemma accounted_worker:
  assumes "worker_step L t s s'" and "accounted L s" and t: "t < thread_count L" and "prios_ok L s" and own: "own_ok L s" and L: "layout_ok L"
  shows "accounted L s'"
proof -
  have f: "prio_fine L t (worker_at s t)" using assms(3,4) by (simp add: prios_ok_def)
  have e: "posted s = items_in_calls s + queued_items L s + items_in_hand L s + executed s" using assms(2) by (simp add: accounted_def)
  note c = calls_same [OF calls_worker [OF assms(1)] assms(2)]
  note found = accounted_found [OF assms(2) t]
  from assms(1) show ?thesis
  proof cases
    case (pop p xs x)
    have "queued_items L (set_deque t p xs s) + {#x#} = queued_items L s"
      unfolding set_deque_def using f pop(2,3) by (intro moved [OF queued_deque [OF _ L]]) simp_all
    then show ?thesis unfolding pop(1) by (intro found) (simp_all add: pop(2) set_deque_def)
  next
    case (pull x p xs)
    have "queued_items L (s\<lparr>inbox_q := (inbox_q s)(inbox_of L t := xs)\<rparr>) + {#x#} = queued_items L s"
      using pull(3) by (intro moved [OF queued_inbox [OF t]]) simp_all
    moreover have "queued_items L (inbox_pulled (inbox_of L t) xs s) = queued_items L (s\<lparr>inbox_q := (inbox_q s)(inbox_of L t := xs)\<rparr>)"
      by (rule queued_same) (simp_all add: inbox_pulled_def)
    ultimately show ?thesis unfolding pull(1) by (intro found) (simp_all add: pull(2) inbox_pulled_def)
  next
    case (dequeue p xs x ys)
    have "p < PRIORITY_COUNT L" using f dequeue(2) layoutD(4) [OF L t] by (simp add: handles_def)
    then have "queued_items L (s\<lparr>ingest := (ingest s)(p := xs @ ys)\<rparr>) + {#x#} = queued_items L s"
      using dequeue(3) by (intro moved [OF queued_ingest]) simp_all
    moreover have "queued_items L (ingest_taken p (xs @ ys) s) = queued_items L (s\<lparr>ingest := (ingest s)(p := xs @ ys)\<rparr>)"
      by (rule queued_same) (simp_all add: ingest_taken_def)
    ultimately show ?thesis unfolding dequeue(1) by (intro found) (simp_all add: dequeue(2) ingest_taken_def)
  next
    case (steal p v vs x xs)
    have "handles L v p" using own steal(3) unfolding own_ok_def by force
    then have "queued_items L (set_deque v p xs s) + {#x#} = queued_items L s"
      unfolding set_deque_def using steal(3) by (intro moved [OF queued_deque [OF _ L]]) simp_all
    moreover have "queued_items L (set_deque v p xs (cache t p (Some v) s)) = queued_items L (set_deque v p xs s)"
      by (rule queued_same) (simp_all add: set_deque_def cache_def)
    ultimately show ?thesis unfolding steal(1) by (intro found) (simp_all add: steal(2) set_deque_def cache_def)
  next
    case (finish x p)
    have "items_in_hand L s' + {#x#} = items_in_hand L s"
      using hands_upd [OF t, of "worker_at s" StopCheck] finish(1,2) by (simp add: items_in_hand_def set_worker_def)
    moreover have "queued_items L s' = queued_items L s" unfolding finish(1) by (rule queued_same) (simp_all add: set_worker_def)
    moreover have "posted s' = posted s" "executed s' = executed s + {#x#}" unfolding finish(1) by (simp_all add: set_worker_def)
    moreover have "queued_items L s + items_in_hand L s + executed s = queued_items L s + items_in_hand L s' + (executed s + {#x#})"
      unfolding calculation(1) [symmetric] by (simp add: ac_simps)
    ultimately show ?thesis using e c by (simp add: accounted_def ac_simps)
  qed (use e c hands_same [of s' s L] queued_same [of s' s L] in \<open>simp_all add: accounted_def worker_defs split: if_splits\<close>)
qed


text \<open>A step of a call: what it is given it holds, what it lets go is in a queue.\<close>

lemma call_moves:
  assumes "poster_step L a s s'" and ok: "poster_ok L a (poster_at s a)" and L: "layout_ok L"
  shows "queued_items L s' + items_of_call (poster_at s' a) + posted s = queued_items L s + items_of_call (poster_at s a) + posted s'"
  using assms(1)
proof cases
  case (post xs p prio h)
  have "queued_items L s' = queued_items L s" unfolding post(1) by (rule queued_same) (simp_all add: poster_defs)
  then show ?thesis unfolding post(1) using post(2) by (simp add: poster_defs ac_simps)
next
  case (inbox_push y xs p h k)
  have "queued_items L (s\<lparr>inbox_q := (inbox_q s)(inbox_of L h := inbox_q s (inbox_of L h) @ [(y, p)])\<rparr>) = queued_items L s + {#y#}"
    using queued_inbox [of h L s "inbox_q s (inbox_of L h) @ [(y, p)]"] ok inbox_push(2) by (simp add: handles_def)
  moreover have "queued_items L s' = queued_items L (s\<lparr>inbox_q := (inbox_q s)(inbox_of L h := inbox_q s (inbox_of L h) @ [(y, p)])\<rparr>)"
    unfolding inbox_push(1) by (rule queued_same) (simp_all add: poster_defs)
  moreover have "posted s' = posted s" "poster_at s' a = Inboxing xs p h (k + 1)" unfolding inbox_push(1) by (simp_all add: poster_defs)
  ultimately show ?thesis using inbox_push(2) by simp
next
  case (queue_deque xs p)
  have "queued_items L (s\<lparr>deque_of := (deque_of s)(a := (deque_of s a)(p := deque_of s a p @ xs))\<rparr>) = queued_items L s + mset xs"
    using queued_deque [OF queue_deque(4) L, of s "deque_of s a p @ xs"] by (simp add: ac_simps)
  moreover have "queued_items L s' = queued_items L (s\<lparr>deque_of := (deque_of s)(a := (deque_of s a)(p := deque_of s a p @ xs))\<rparr>)"
    unfolding queue_deque(1) by (rule queued_same) (simp_all add: poster_defs)
  moreover have "posted s' = posted s" "items_of_call (poster_at s' a) = {#}" unfolding queue_deque(1) by (simp_all add: poster_defs)
  ultimately show ?thesis using queue_deque(2) by simp
next
  case (queue_ingest xs p)
  have "p < PRIORITY_COUNT L" using ok queue_ingest(2) by simp
  then have "queued_items L (s\<lparr>ingest := (ingest s)(p := ingest s p @ xs)\<rparr>) = queued_items L s + mset xs"
    using queued_ingest [of p L s "ingest s p @ xs"] by (simp add: ac_simps)
  moreover have "queued_items L s' = queued_items L (s\<lparr>ingest := (ingest s)(p := ingest s p @ xs)\<rparr>)"
    unfolding queue_ingest(1) by (rule queued_same) (simp_all add: poster_defs)
  moreover have "posted s' = posted s" "items_of_call (poster_at s' a) = {#}" unfolding queue_ingest(1) by (simp_all add: poster_defs)
  ultimately show ?thesis using queue_ingest(2) by simp
next
  case (decide allowed fromPost spin work P v)
  have "queued_items L s' = queued_items L s" unfolding decide(1) by (rule queued_same) (simp_all add: poster_defs)
  moreover have "items_of_call v = {#}" unfolding decide(3) [symmetric]
    by (auto simp: notify_verdict_def Let_def split: option.splits)
  ultimately show ?thesis using decide by (simp add: poster_defs)
qed (use queued_same [of s' s L] in \<open>simp_all add: poster_defs notify_start_def\<close>)

lemma accounted_poster:
  assumes "poster_step L a s s'" and "accounted L s" and "posters_ok L s" and L: "layout_ok L"
  shows "accounted L s'"
proof -
  have "in_hand_of (worker_at s' t) = in_hand_of (worker_at s t)" for t
    using poster_worker [OF assms(1), of t] by auto
  then have h: "items_in_hand L s' = items_in_hand L s" by (rule hands_same)
  have x: "executed s' = executed s" by (rule poster_frame(6) [OF assms(1)])
  have e: "posted s = items_in_calls s + queued_items L s + items_in_hand L s + executed s"
    and fin: "finite {b. items_of_call (poster_at s b) \<noteq> {#}}"
    using assms(2) by (simp_all add: accounted_def)
  have "poster_at s' = (poster_at s)(a := poster_at s' a)" using poster_kept [OF assms(1)] by auto
  note c = support_sum_upd [OF fin this]
  have c2: "items_in_calls s' + items_of_call (poster_at s a) = items_in_calls s + items_of_call (poster_at s' a)"
    using c(2) by (simp add: items_in_calls_def)
  have m: "queued_items L s' + items_of_call (poster_at s' a) + posted s = queued_items L s + items_of_call (poster_at s a) + posted s'"
    by (rule call_moves [OF assms(1) _ L]) (use assms(3) in \<open>simp add: posters_ok_def\<close>)
  have "posted s' = items_in_calls s' + queued_items L s' + items_in_hand L s' + executed s'"
    by (rule balance [OF e c2 m, folded h x])
  then show ?thesis using c(1) by (simp add: accounted_def)
qed

lemma accounted_step:
  assumes "cpu_inv L s \<and> accounted L s" and "cpu_step L s s'"
  shows "cpu_inv L s' \<and> accounted L s'"
proof -
  note i = cpu_invD [OF conjunct1 [OF assms(1)]] and a = conjunct2 [OF assms(1)]
  have "accounted L s'"
    using assms(2)
  proof cases
    case (by_worker t)
    show ?thesis by (rule accounted_worker [OF by_worker(2) a by_worker(1) i(9,7,1)])
  next
    case (by_poster b)
    show ?thesis by (rule accounted_poster [OF by_poster a i(8,1)])
  next
    case by_teardown
    note f = teardown_frame [OF by_teardown]
    have "items_of_call (poster_at s' b) = items_of_call (poster_at s b)" for b using f by simp
    from calls_same [OF this a] show ?thesis using a hands_same [of s' s L] queued_same [of s' s L] f by (simp add: accounted_def)
  qed
  then show ?thesis using cpu_inv_step [OF _ assms(2)] assms(1) by blast
qed

lemma accounted_start: "cpu_start L s \<Longrightarrow> cpu_inv L s \<and> accounted L s"
  using cpu_inv_start [of L s]
  by (auto simp: cpu_start_def cpu_new_def accounted_def queued_items_def items_in_hand_def items_in_calls_def)

interpretation cpu_items: invariant_of "cpu_start L" "cpu_step L" "\<lambda>s. cpu_inv L s \<and> accounted L s" for L
  by unfold_locales (fact accounted_start accounted_step)+

section \<open>Requests to yield\<close>

definition priority_ok :: "cpu_layout \<Rightarrow> cpu \<Rightarrow> nat \<Rightarrow> bool" where
  "priority_ok L s t \<longleftrightarrow> (case worker_at s t of
      ClrStopper x p \<Rightarrow> yield_priority s t \<le> p \<and> prev_prio s t \<noteq> None \<and> (\<forall>q. t \<in> stoppers s q \<longleftrightarrow> prev_prio s t = Some q)
    | SetStopper x p \<Rightarrow> yield_priority s t \<le> p \<and> (\<forall>q. t \<notin> stoppers s q)
    | Running x p \<Rightarrow> yield_priority s t \<le> p \<and> (\<forall>q. t \<in> stoppers s q \<longleftrightarrow> q = p) \<and> prev_prio s t = Some p
    | _ \<Rightarrow> (\<forall>q. t \<in> stoppers s q \<longleftrightarrow> prev_prio s t = Some q))"

lemma priority_worker:
  assumes "worker_step L t s s'" and "priority_ok L s u" and "1 < PRIORITY_COUNT L"
  shows "priority_ok L s' u"
proof (cases "u = t")
  case True
  have "priority_ok L s t" using assms(2) True by simp
  with assms(1) have "priority_ok L s' t"
    by cases (use assms(3) in \<open>auto simp: priority_ok_def worker_defs split: if_splits worker.splits option.splits\<close>)
  then show ?thesis using True by simp
next
  case False
  from assms(1) have "yield_priority s' u = yield_priority s u" "prev_prio s' u = prev_prio s u" "\<And>q. u \<in> stoppers s' q \<longleftrightarrow> u \<in> stoppers s q"
    by (cases; use False in \<open>auto simp: worker_defs split: option.splits\<close>)+
  then show ?thesis using assms(2) worker_kept [OF assms(1) False] by (simp add: priority_ok_def split: worker.splits)
qed


lemma priority_poster:
  assumes "poster_step L a s s'" and "priority_ok L s u" and "posters_ok L s"
  shows "priority_ok L s' u" and "yield_priority s' u \<le> yield_priority s u"
proof -
  have ok: "poster_ok L a (poster_at s a)" using assms(3) by (simp add: posters_ok_def)
  from assms(1) show y: "yield_priority s' u \<le> yield_priority s u"
    by cases (use ok in \<open>auto simp: poster_defs\<close>)
  from assms(1) have p: "prev_prio s' u = prev_prio s u" "stoppers s' = stoppers s"
    by (cases; simp add: poster_defs)+
  show "priority_ok L s' u"
    using poster_worker [OF assms(1), of u]
  proof
    assume "worker_at s' u = worker_at s u"
    then show ?thesis using assms(2) y p by (auto simp: priority_ok_def split: worker.splits)
  next
    assume "u = a \<and> (\<exists>b. worker_at s a = Hook b \<and> worker_at s' a = Hook True)"
    then show ?thesis using assms(2) p by (auto simp: priority_ok_def)
  qed
qed

lemma priority_step:
  assumes "cpu_inv L s \<and> (1 < PRIORITY_COUNT L \<longrightarrow> (\<forall>u. priority_ok L s u))" and "cpu_step L s s'"
  shows "cpu_inv L s' \<and> (1 < PRIORITY_COUNT L \<longrightarrow> (\<forall>u. priority_ok L s' u))"
proof -
  have "priority_ok L s' u" if "1 < PRIORITY_COUNT L" for u
    using assms(2)
  proof cases
    case (by_worker t)
    then show ?thesis using priority_worker assms(1) that by blast
  next
    case (by_poster a)
    then show ?thesis using priority_poster(1) cpu_invD(8) assms(1) that by blast
  next
    case by_teardown
    then have "yield_priority s' = yield_priority s" "prev_prio s' = prev_prio s" "stoppers s' = stoppers s"
      by (cases; simp add: wake_def)+
    moreover have "priority_ok L s u" using assms(1) that by blast
    ultimately show ?thesis using teardown_frame(1) [OF by_teardown] by (simp add: priority_ok_def split: worker.splits)
  qed
  then show ?thesis using cpu_inv_step [OF conjunct1 [OF assms(1)] assms(2)] by blast
qed

lemma priority_start: "cpu_start L s \<Longrightarrow> cpu_inv L s \<and> (1 < PRIORITY_COUNT L \<longrightarrow> (\<forall>u. priority_ok L s u))"
  using cpu_inv_start [of L s] by (auto simp: cpu_start_def cpu_new_def priority_ok_def)

interpretation cpu_priorities: invariant_of "cpu_start L" "cpu_step L"
    "\<lambda>s. cpu_inv L s \<and> (1 < PRIORITY_COUNT L \<longrightarrow> (\<forall>u. priority_ok L s u))" for L
  by unfold_locales (fact priority_start priority_step)+

section \<open>Teardown\<close>

definition gone :: "cpu_layout \<Rightarrow> cpu \<Rightarrow> bool" where
  "gone L s \<longleftrightarrow> (case teardown_at s of
      Joining i \<Rightarrow> (\<forall>t < i. worker_at s t = Exited)
    | Draining \<Rightarrow> (\<forall>t < thread_count L. worker_at s t = Exited)
    | Cleared \<Rightarrow> (\<forall>t < thread_count L. worker_at s t = Exited) \<and> ref_count s = {}
    | _ \<Rightarrow> True) \<and> (\<forall>a. \<not> a < thread_count L \<longrightarrow> poster_at s a \<noteq> NotPosting \<longrightarrow> a \<in> ref_count s) \<and>
    (\<forall>t. teardown_at s = WakingUp t \<longrightarrow> t < thread_count L)"

lemma exited_stays: "worker_step L t s s' \<Longrightarrow> worker_at s u = Exited \<Longrightarrow> worker_at s' u = Exited"
  using worker_kept [of L t s s' u] by (cases "u = t") (auto elim: worker_step.cases)

lemma gone_step:
  assumes "cpu_inv L s \<and> gone L s" and "cpu_step L s s'"
  shows "cpu_inv L s' \<and> gone L s'"
proof -
  have g: "gone L s" and inv: "cpu_inv L s" using assms(1) by simp_all
  have "gone L s'"
    using assms(2)
  proof cases
    case (by_worker t)
    have "poster_at s' a = poster_at s a" if "\<not> a < thread_count L" for a
      using worker_poster [OF by_worker(2), of a] that by_worker(1) by auto
    then show ?thesis using g exited_stays [OF by_worker(2)] worker_frame [OF by_worker(2)]
      by (auto simp: gone_def split: teardown_pc.splits)
  next
    case (by_poster a)
    have w: "worker_at s u = Exited \<Longrightarrow> worker_at s' u = Exited" for u using poster_worker [OF by_poster, of u] by auto
    have t: "teardown_at s' = teardown_at s" by (rule poster_frame(4) [OF by_poster])
    have p: "b \<in> ref_count s'" if "\<not> b < thread_count L" "poster_at s' b \<noteq> NotPosting" for b
    proof (cases "b = a")
      case True
      from by_poster show ?thesis by cases (use g that True in \<open>auto simp: gone_def poster_defs\<close>)
    next
      case False
      then have "b \<in> ref_count s" using g that poster_kept [OF by_poster False] by (simp add: gone_def)
      with by_poster show ?thesis by cases (use False in \<open>auto simp: poster_defs\<close>)
    qed
    have r: "ref_count s' = {}" if c: "teardown_at s = Cleared" "ref_count s = {}"
    proof -
      have "a < thread_count L \<or> poster_at s a = NotPosting" using g c by (auto simp: gone_def)
      with by_poster show ?thesis by cases (use c in \<open>auto simp: poster_defs can_post_def split: if_splits\<close>)
    qed
    show ?thesis using g w t p r by (auto simp: gone_def split: teardown_pc.splits)
  next
    case by_teardown
    then show ?thesis
    proof cases
      case (join i)
      have e: "worker_at s t = Exited" if "t < Suc i" for t
        using g join(2,3) that by (cases "t = i") (auto simp: gone_def)
      moreover have "t < Suc i" if "t < thread_count L" "\<not> i + 1 < thread_count L" for t using that by linarith
      ultimately show ?thesis using g unfolding join(1) by (simp add: gone_def)
    qed (use g in \<open>auto simp: gone_def wake_def\<close>)
  qed
  then show ?thesis using cpu_inv_step [OF inv assms(2)] by blast
qed

lemma gone_start: "cpu_start L s \<Longrightarrow> cpu_inv L s \<and> gone L s"
  using cpu_inv_start [of L s] by (auto simp: cpu_start_def cpu_new_def gone_def)

interpretation cpu_teardown: invariant_of "cpu_start L" "cpu_step L" "\<lambda>s. cpu_inv L s \<and> gone L s" for L
  by unfold_locales (fact gone_start gone_step)+

end
