(* ===== verification/CpuExecutor.thy ===== *)
theory CpuExecutor
  imports CpuInvariant
begin

text \<open>What the run loop and the posting calls of \<open>ex_cpu\<close> guarantee, and runs of the machine.\<close>

text \<open>A thread is asleep when it waits on the value that \<open>sleep_wait\<close> still has.\<close>

definition asleep :: "cpu \<Rightarrow> nat \<Rightarrow> bool" where
  "asleep s t \<longleftrightarrow> worker_at s t = Waiting (sleep_wait s t)"

lemma cpu_no_lost_wakeup_parts:
  assumes "reach (cpu_start L) (cpu_step L) s" and "teardown_at s = NotTearing"
  shows "P < PRIORITY_COUNT L \<Longrightarrow> ingest s P \<noteq> [] \<Longrightarrow>
      (\<exists>t. handles L t P \<and> \<not> asleep s t) \<or> (\<exists>a. notifying (poster_at s a) P)"
    and "inbox_q s x \<noteq> [] \<Longrightarrow>
      (\<exists>t < thread_count L. inbox_of L t = x \<and> \<not> asleep s t) \<or> (\<exists>a. hinting L a (poster_at s a) x)"
    and "\<not> careless_hooks L \<Longrightarrow> deque_of s t P \<noteq> [] \<Longrightarrow> handles L t P \<and> \<not> asleep s t"
    and "\<not> careless_hooks L \<Longrightarrow> \<forall>t < thread_count L. asleep s t \<Longrightarrow> \<forall>a. poster_at s a = NotPosting \<Longrightarrow>
      queued_items L s = {#}"
proof -
  note i = cpu_invD [OF cpu.holds [OF assms(1)]]
  have a: "asleep s t \<Longrightarrow> past_ingest (dequeued s P) (worker_at s t) P \<and> past_inbox r (worker_at s t) \<and> dormant s t \<and>
      past_own b (worker_at s t) P" for t P b r
    by (simp add: asleep_def dormant_def)
  show in_ingest: "P < PRIORITY_COUNT L \<Longrightarrow> ingest s P \<noteq> [] \<Longrightarrow>
      (\<exists>t. handles L t P \<and> \<not> asleep s t) \<or> (\<exists>a. notifying (poster_at s a) P)" for P
    using i(5) a unfolding ingest_ok_def by blast
  show in_inbox: "inbox_q s x \<noteq> [] \<Longrightarrow>
      (\<exists>t < thread_count L. inbox_of L t = x \<and> \<not> asleep s t) \<or> (\<exists>a. hinting L a (poster_at s a) x)" for x
    using i(6) a unfolding inboxes_ok_def by blast
  show in_deque: "\<not> careless_hooks L \<Longrightarrow> deque_of s t P \<noteq> [] \<Longrightarrow> handles L t P \<and> \<not> asleep s t" for t P
    using i(7) a unfolding own_ok_def by blast
  assume c: "\<not> careless_hooks L" and all: "\<forall>t < thread_count L. asleep s t" and idle: "\<forall>a. poster_at s a = NotPosting"
  have "ingest s P = []" if "P < PRIORITY_COUNT L" for P using in_ingest [OF that] all idle by (auto simp: handles_def)
  moreover have "inbox_q s x = []" for x using in_inbox [of x] all idle by auto
  moreover have "deque_of s t P = []" for t P using in_deque [OF c, of t P] all by (auto simp: handles_def)
  ultimately show "queued_items L s = {#}" by (simp add: queued_items_def)
qed

text \<open>
  C4: No wakeup is lost.  Before teardown, in every interleaving: an item in the ingest queue of a priority has a thread
  of that priority that is not asleep, or a call that is about to notify one; an item in an inbox has such a thread
  among those that share the inbox; an item in a thread's own deque has that thread awake, if no hook posts to its own
  thread and returns false.  So when all threads are asleep and no call is under way, no work is left.
\<close>

theorem cpu_no_lost_wakeup:
  assumes "reach (cpu_start L) (cpu_step L) s" and "teardown_at s = NotTearing"
  shows "(\<forall>P < PRIORITY_COUNT L. ingest s P \<noteq> [] \<longrightarrow>
      (\<exists>t. handles L t P \<and> \<not> asleep s t) \<or> (\<exists>a. notifying (poster_at s a) P)) \<and>
    (\<forall>x. inbox_q s x \<noteq> [] \<longrightarrow>
      (\<exists>t < thread_count L. inbox_of L t = x \<and> \<not> asleep s t) \<or> (\<exists>a. hinting L a (poster_at s a) x)) \<and>
    (\<not> careless_hooks L \<longrightarrow> (\<forall>t P. deque_of s t P \<noteq> [] \<longrightarrow> handles L t P \<and> \<not> asleep s t) \<and>
      ((\<forall>t < thread_count L. asleep s t) \<and> (\<forall>a. poster_at s a = NotPosting) \<longrightarrow> queued_items L s = {#}))"
  using cpu_no_lost_wakeup_parts [OF assms] by blast

text \<open>
  C5: No item is lost or run twice.  An item counts as posted from the moment it is given to \<open>post\<close> or \<open>post_bulk\<close>; at every
  moment, teardown included, the items posted so far are those that a call has still to put into a queue, those in the
  queues, those in the hand of a worker and those that have run, each as often as it was posted.  (Finitely many calls
  hold items, so their sum is meant.)
\<close>

theorem cpu_items_conserved:
  assumes "reach (cpu_start L) (cpu_step L) s"
  shows "finite {a. items_of_call (poster_at s a) \<noteq> {#}} \<and>
    posted s = items_in_calls s + queued_items L s + items_in_hand L s + executed s"
  using cpu_items.holds [OF assms] by (simp add: accounted_def)

lemma cpu_yield_priority_parts:
  assumes "reach (cpu_start L) (cpu_step L) s" and "1 < PRIORITY_COUNT L"
  shows "worker_at s t = Running x p \<Longrightarrow> yield_priority s t \<le> p \<and> (\<forall>q. t \<in> stoppers s q \<longleftrightarrow> q = p)"
    and "poster_step L a s s' \<Longrightarrow> yield_priority s' t \<le> yield_priority s t"
proof -
  have i: "cpu_inv L s" "priority_ok L s t" using cpu_priorities.holds [OF assms(1)] assms(2) by blast+
  show "worker_at s t = Running x p \<Longrightarrow> yield_priority s t \<le> p \<and> (\<forall>q. t \<in> stoppers s q \<longleftrightarrow> q = p)"
    using i(2) by (simp add: priority_ok_def)
  show "poster_step L a s s' \<Longrightarrow> yield_priority s' t \<le> yield_priority s t"
    by (rule priority_poster(2) [OF _ i(2) cpu_invD(8) [OF i(1)]])
qed

text \<open>
  C6: With several priorities, a thread that runs an item of priority \<open>p\<close> is in the set of threads to stop of \<open>p\<close> and in no
  other, and what its item reads to decide whether to yield is never less urgent than \<open>p\<close>: a concurrent post can only
  lower it, so of two posts the more urgent one prevails.
\<close>

theorem cpu_yield_priority:
  assumes "reach (cpu_start L) (cpu_step L) s" and "1 < PRIORITY_COUNT L"
  shows "(\<forall>t x p. worker_at s t = Running x p \<longrightarrow> yield_priority s t \<le> p \<and> (\<forall>q. t \<in> stoppers s q \<longleftrightarrow> q = p)) \<and>
    (\<forall>a s' t. poster_step L a s s' \<longrightarrow> yield_priority s' t \<le> yield_priority s t)"
  using cpu_yield_priority_parts [OF assms] by blast

lemma cpu_teardown_safe_parts:
  assumes "reach (cpu_start L) (cpu_step L) s" and "teardown_at s = Cleared"
  shows "t < thread_count L \<Longrightarrow> worker_at s t = Exited" and "poster_at s a = NotPosting"
proof -
  have i: "cpu_inv L s" "gone L s" using cpu_teardown.holds [OF assms(1)] by blast+
  show w: "t < thread_count L \<Longrightarrow> worker_at s t = Exited" for t using i(2) assms(2) by (simp add: gone_def)
  show "poster_at s a = NotPosting"
  proof (cases "a < thread_count L")
    case True
    then show ?thesis using cpu_invD(8) [OF i(1)] w by (auto simp: posters_ok_def able_to_post_def)
  next
    case False
    then show ?thesis using i(2) assms(2) by (auto simp: gone_def)
  qed
qed


section \<open>Runs\<close>

definition one_thread :: "nat \<Rightarrow> bool \<Rightarrow> cpu_layout" where
  "one_thread n careless = \<lparr>thread_count = 1, PRIORITY_COUNT = n, range_begin = (\<lambda>_. 0), range_end = (\<lambda>_. n),
     waker_row = (\<lambda>_ _. [0]), steal_list = (\<lambda>_ _. []), inbox_of = (\<lambda>_. 0), group_size = (\<lambda>_. 1), spins = 0,
     careless_hooks = careless\<rparr>"

lemma one_thread_ok: "0 < n \<Longrightarrow> layout_ok (one_thread n b)"
  by (auto simp: layout_ok_def one_thread_def allowed_threads_def handles_def)

lemma one_thread_simps [simp]: "thread_count (one_thread n b) = 1" "PRIORITY_COUNT (one_thread n b) = n"
    "range_begin (one_thread n b) t = 0" "range_end (one_thread n b) t = n" "inbox_of (one_thread n b) t = 0"
    "sentinel_thread (one_thread n b) p = 0" "spins (one_thread n b) = 0" "careless_hooks (one_thread n b) = b"
    "steal_list (one_thread n b) p t = []" "handles (one_thread n b) t p \<longleftrightarrow> t = 0 \<and> p < n"
  by (auto simp: one_thread_def sentinel_thread_def handles_def)

text \<open>Steps of the thread, of an agent.\<close>

lemma run_worker: "(cpu_step L)\<^sup>*\<^sup>* s s' \<Longrightarrow> 0 < thread_count L \<Longrightarrow> worker_step L 0 s' s'' \<Longrightarrow> (cpu_step L)\<^sup>*\<^sup>* s s''"
  by (meson by_worker rtranclp.rtrancl_into_rtrancl)

lemma run_poster: "(cpu_step L)\<^sup>*\<^sup>* s s' \<Longrightarrow> poster_step L a s' s'' \<Longrightarrow> (cpu_step L)\<^sup>*\<^sup>* s s''"
  by (meson by_poster rtranclp.rtrancl_into_rtrancl)

lemma run_teardown: "(cpu_step L)\<^sup>*\<^sup>* s s' \<Longrightarrow> teardown_step L s' s'' \<Longrightarrow> (cpu_step L)\<^sup>*\<^sup>* s s''"
  by (meson by_teardown rtranclp.rtrancl_into_rtrancl)

lemma reach_run: "(cpu_step L)\<^sup>*\<^sup>* s s' \<Longrightarrow> reach start (cpu_step L) s \<Longrightarrow> reach start (cpu_step L) s'"
  by (induction rule: rtranclp_induct) (auto intro: reach.intros)

text \<open>A thread that finds nothing comes to its hook.\<close>

lemma run_to_hook:
  assumes "worker_at s 0 = Clearing 0" "\<not> stop_requested s 0" "deque_of s 0 0 = []" "cached s 0 0 = None"
  shows "(cpu_step (one_thread 1 b))\<^sup>*\<^sup>* s (set_worker 0 (Hook False) (cache 0 0 None (set_fallback 0 FALLBACK_WAKE_NONE s)))"
proof -
  define s1 where "s1 = set_worker 0 (Clearing (0 + 1)) (if sentinel_thread (one_thread 1 b) 0 = 0 then set_fallback 0 FALLBACK_WAKE_NONE s else s)"
  define s2 where "s2 = set_worker 0 StopCheck s1"
  define s3 where "s3 = set_worker 0 (PopOwn (range_begin (one_thread 1 b) 0)) s2"
  define s4 where "s4 = set_worker 0 (if 0 = range_begin (one_thread 1 b) 0 then PullInbox else Dequeue 0) s3"
  define s5 where "s5 = set_worker 0 (Dequeue (range_begin (one_thread 1 b) 0)) s4"
  define s6 where "s6 = set_worker 0 (StealFrom 0 (victims (one_thread 1 b) s5 0 0)) s5"
  define s7 where "s7 = set_worker 0 (after_steals (one_thread 1 b) 0 0) (cache 0 0 None s6)"
  note d = s1_def s2_def s3_def s4_def s5_def s6_def s7_def worker_defs victims_def
  have "(cpu_step (one_thread 1 b))\<^sup>*\<^sup>* s s1" unfolding s1_def
    by (rule run_worker [OF rtranclp.rtrancl_refl _ clear_fallback]) (simp_all add: assms)
  then have "(cpu_step (one_thread 1 b))\<^sup>*\<^sup>* s s2" unfolding s2_def by (rule run_worker [OF _ _ cleared [where p = 1]]) (simp_all add: d)
  then have "(cpu_step (one_thread 1 b))\<^sup>*\<^sup>* s s3" unfolding s3_def by (rule run_worker [OF _ _ go_on]) (simp_all add: d assms)
  then have "(cpu_step (one_thread 1 b))\<^sup>*\<^sup>* s s4" unfolding s4_def by (rule run_worker [OF _ _ pop_empty [where p = 0]]) (simp_all add: d assms)
  then have "(cpu_step (one_thread 1 b))\<^sup>*\<^sup>* s s5" unfolding s5_def by (rule run_worker [OF _ _ pull_none]) (simp_all add: d)
  then have "(cpu_step (one_thread 1 b))\<^sup>*\<^sup>* s s6" unfolding s6_def by (rule run_worker [OF _ _ dequeue_none [where p = 0]]) (simp_all add: d)
  then have "(cpu_step (one_thread 1 b))\<^sup>*\<^sup>* s s7" unfolding s7_def
    by (rule run_worker [OF _ _ steal_none [where p = 0]]) (simp_all add: d assms)
  also have "s7 = set_worker 0 (Hook False) (cache 0 0 None (set_fallback 0 FALLBACK_WAKE_NONE s))"
    by (simp add: d)
  finally show ?thesis .
qed


text \<open>A thread whose hook says that there is no more work goes to sleep when the inbox and the ingest queue are empty.\<close>

lemma run_to_sleep:
  assumes "worker_at s 0 = Hook h" "poster_at s 0 = NotPosting" "h \<longrightarrow> b" "spin_flag s 0" "prev_prio s 0 = None"
    "inbox_out s 0 = inbox_in s 0" "ingest s 0 = []" "\<not> stop_requested s 0" "fallback_wake_states s 0 = FALLBACK_WAKE_NONE"
  shows "(cpu_step (one_thread 1 b))\<^sup>*\<^sup>* s (set_worker 0 (Waiting (sleep_wait s 0))
    (set_fallback 0 FALLBACK_WAKE_WAIT (s\<lparr>spinning := spinning s - {0}\<rparr>)))"
proof -
  let ?L = "one_thread 1 b" and ?w = "sleep_wait s 0"
  define s1 where "s1 = set_worker 0 SetSpinning s"
  define s2 where "s2 = set_worker 0 (ClrWorking (card (spinning s))) (s1\<lparr>spinning := spinning s\<rparr>)"
  define s3 where "s3 = set_worker 0 (after_counts ?L (card (spinning s)) (card (working s))) (s2\<lparr>working := working s\<rparr>)"
  define s4 where "s4 = set_worker 0 LoadWait (s3\<lparr>prev_prio := (prev_prio s3)(0 := None), stoppers :=
    (case prev_prio s3 0 of Some q \<Rightarrow> if 1 < PRIORITY_COUNT ?L then (stoppers s3)(q := stoppers s3 q - {0}) else stoppers s3
      | None \<Rightarrow> stoppers s3)\<rparr>)"
  define s5 where "s5 = set_worker 0 (Publish (range_begin ?L 0) (sleep_wait s4 0)) s4"
  define s6 where "s6 = set_worker 0 (after_publish ?L 0 0 ?w) (set_fallback 0 FALLBACK_WAKE_WAIT s5)"
  define s7 where "s7 = set_worker 0 (CheckInbox ?w) (s6\<lparr>spinning := spinning s6 - {0}\<rparr>)"
  define i7 where "i7 = set_worker 0 (CheckInboxRead ?w (inbox_in s7 (inbox_of ?L 0))) s7"
  define s8 where "s8 = set_worker 0 (CheckIngest (range_begin ?L 0) ?w) i7"
  define i8 where "i8 = set_worker 0 (CheckIngestEnd 0 ?w (ingest_mark s8 0)) s8"
  define s9 where "s9 = set_worker 0 (CheckDeques 0 (steal_list ?L 0 0) ?w) i8"
  define s10 where "s10 = set_worker 0 (after_deques ?L 0 0 ?w) s9"
  define s11 where "s11 = set_worker 0 (Waiting ?w) s10"
  note d = s1_def s2_def s3_def s4_def s5_def s6_def s7_def s8_def s9_def s10_def s11_def i7_def i8_def worker_defs assms fun_upd_idem
    ingest_mark_def
  have "(cpu_step ?L)\<^sup>*\<^sup>* s s1" unfolding s1_def
    by (rule run_worker [OF rtranclp.rtrancl_refl _ hook_done [where b = h]]) (simp_all add: assms)
  then have "(cpu_step ?L)\<^sup>*\<^sup>* s s2" unfolding s2_def by (rule run_worker [OF _ _ count_spinning]) (simp_all add: d)
  then have "(cpu_step ?L)\<^sup>*\<^sup>* s s3" unfolding s3_def by (rule run_worker [OF _ _ count_working]) (simp_all add: d)
  then have "(cpu_step ?L)\<^sup>*\<^sup>* s s4" unfolding s4_def by (rule run_worker [OF _ _ end_stopper]) (simp_all add: d)
  then have "(cpu_step ?L)\<^sup>*\<^sup>* s s5" unfolding s5_def by (rule run_worker [OF _ _ load_wait]) (simp_all add: d)
  moreover have p: "worker_step ?L 0 s5 s6"
    using publish [of s5 0 0 ?w ?L] by (simp add: d)
  ultimately have "(cpu_step ?L)\<^sup>*\<^sup>* s s6" by (intro run_worker [OF _ _ p]) simp_all
  then have "(cpu_step ?L)\<^sup>*\<^sup>* s s7" unfolding s7_def by (rule run_worker [OF _ _ clear_spin]) (simp_all add: d)
  then have "(cpu_step ?L)\<^sup>*\<^sup>* s i7" unfolding i7_def by (rule run_worker [OF _ _ inbox_load]) (simp_all add: d)
  then have "(cpu_step ?L)\<^sup>*\<^sup>* s s8" unfolding s8_def by (rule run_worker [OF _ _ inbox_none]) (simp_all add: d)
  then have "(cpu_step ?L)\<^sup>*\<^sup>* s i8" unfolding i8_def by (rule run_worker [OF _ _ ingest_begin]) (simp_all add: d)
  then have "(cpu_step ?L)\<^sup>*\<^sup>* s s9" unfolding s9_def by (rule run_worker [OF _ _ ingest_none [where m = None]]) (simp_all add: d)
  then have "(cpu_step ?L)\<^sup>*\<^sup>* s s10" unfolding s10_def by (rule run_worker [OF _ _ deques_done]) (simp_all add: d)
  then have "(cpu_step ?L)\<^sup>*\<^sup>* s s11" unfolding s11_def by (rule run_worker [OF _ _ sleep]) (simp_all add: d)
  also have "s11 = set_worker 0 (Waiting (sleep_wait s 0)) (set_fallback 0 FALLBACK_WAKE_WAIT (s\<lparr>spinning := spinning s - {0}\<rparr>))"
    by (simp add: d)
  finally show ?thesis .
qed

text \<open>A hook posts an item to its own thread; nobody else is there to be notified.\<close>

lemma run_hook_post:
  assumes "worker_at s 0 = Hook False" "poster_at s 0 = NotPosting" "deque_of s 0 0 = []" "spinning s = {0}" "working s = {}"
    "0 \<notin> ref_count s"
  shows "(cpu_step (one_thread 1 b))\<^sup>*\<^sup>* s (set_worker 0 (Hook True) (set_deque 0 0 [x] (s\<lparr>posted := posted s + {#x#}\<rparr>)))"
proof -
  let ?L = "one_thread 1 b"
  define s1 where "s1 = start_post ?L 0 [x] 0 1 s"
  define s2 where "s2 = set_poster 0 (NotifySpin (length [x]) 0 True True) (mark_hook 0
      (set_deque 0 0 (deque_of s1 0 0 @ [x]) s1))"
  define s3 where "s3 = set_poster 0 (NotifyWork (length [x]) 0 True True (spinning s2)) s2"
  define s4 where "s4 = set_poster 0 (notify_start ?L (length [x]) True True (spinning s2) (working s3) 0) s3"
  define s5 where "s5 = end_post 0 s4"
  note d = s1_def s2_def s3_def s4_def s5_def poster_defs assms fun_upd_idem
  have n: "notify_start ?L 1 True True {0} {} 0 = Decide True True {0} {} 0"
    by (simp add: notify_start_def)
  have v: "notify_verdict ?L 0 True True {0} {} 0 = NotPosting"
    by (auto simp: notify_verdict_def sleeping_in_def allowed_threads_def Let_def)
  have "(cpu_step ?L)\<^sup>*\<^sup>* s s1" unfolding s1_def
    by (rule run_poster [OF rtranclp.rtrancl_refl post [where prio = 0]]) (simp_all add: assms can_post_def clamp_priority_def)
  then have "(cpu_step ?L)\<^sup>*\<^sup>* s s2" unfolding s2_def by (rule run_poster [OF _ queue_deque]) (simp_all add: d)
  then have "(cpu_step ?L)\<^sup>*\<^sup>* s s3" unfolding s3_def by (rule run_poster [OF _ notify_spin]) (simp add: d)
  then have "(cpu_step ?L)\<^sup>*\<^sup>* s s4" unfolding s4_def by (rule run_poster [OF _ notify_work]) (simp add: d)
  then have "(cpu_step ?L)\<^sup>*\<^sup>* s s5" unfolding s5_def
    by (rule run_poster [OF _ decide_return [where allowed = True and fromPost = True and spin = "{0}" and work = "{}" and P = 0]])
      (simp_all add: d n [simplified] v [simplified])
  also have "s5 = set_worker 0 (Hook True) (set_deque 0 0 [x] (s\<lparr>posted := posted s + {#x#}\<rparr>))"
    by (simp add: d)
  finally show ?thesis .
qed

text \<open>
  C39: The double check before a thread sleeps does not look at its own deque, and \<open>notify_n\<close> trusts the posting thread to
  stay awake.  So when the hook after a batch posts an item to its own executor and returns false, the item can be
  left in the deque of a thread that sleeps, with no call under way.
\<close>

theorem cpu_hook_post_forgotten:
  "\<exists>s. reach (cpu_start (one_thread 1 True)) (cpu_step (one_thread 1 True)) s \<and> teardown_at s = NotTearing \<and>
     deque_of s 0 0 = [x] \<and> asleep s 0 \<and> (\<forall>a. poster_at s a = NotPosting)"
proof -
  let ?L = "one_thread 1 True" and ?s = "cpu_new (one_thread 1 True)"
  let ?a = "set_worker 0 (Hook False) (cache 0 0 None (set_fallback 0 FALLBACK_WAKE_NONE ?s))"
  let ?b = "set_worker 0 (Hook True) (set_deque 0 0 [x] (?a\<lparr>posted := posted ?a + {#x#}\<rparr>))"
  let ?c = "set_worker 0 (Waiting (sleep_wait ?b 0)) (set_fallback 0 FALLBACK_WAKE_WAIT (?b\<lparr>spinning := spinning ?b - {0}\<rparr>))"
  have "(cpu_step ?L)\<^sup>*\<^sup>* ?s ?a" by (rule run_to_hook) (simp_all add: cpu_new_def)
  moreover have "(cpu_step ?L)\<^sup>*\<^sup>* ?a ?b" by (rule run_hook_post) (simp_all add: cpu_new_def worker_defs lessThan_Suc)
  moreover have "(cpu_step ?L)\<^sup>*\<^sup>* ?b ?c" by (rule run_to_sleep [where h = True]) (simp_all add: cpu_new_def worker_defs)
  ultimately have "(cpu_step ?L)\<^sup>*\<^sup>* ?s ?c" by (meson rtranclp_trans)
  then have "reach (cpu_start ?L) (cpu_step ?L) ?c"
    by (rule reach_run) (simp add: reach_start cpu_start_def one_thread_ok)
  then show ?thesis by (intro exI [of _ ?c]) (simp add: cpu_new_def worker_defs asleep_def)
qed


text \<open>The thread runs an item that a thread outside has posted.\<close>

lemma run_outside_post:
  assumes "poster_at s 1 = NotPosting" "teardown_at s = NotTearing" "ingest s 0 = []" "0 < n"
  shows "(cpu_step (one_thread n b))\<^sup>*\<^sup>* s (set_poster 1 (NotifySpin 1 0 False True)
    (s\<lparr>ref_count := insert 1 (ref_count s), ingest := (ingest s)(0 := [x]), posted := posted s + {#x#}\<rparr>))"
proof -
  let ?L = "one_thread n b"
  define s1 where "s1 = start_post ?L 1 [x] 0 1 s"
  define s2 where "s2 = set_poster 1 (NotifySpin (length [x]) 0 False True)
    (s1\<lparr>ingest := (ingest s1)(0 := ingest s1 0 @ [x])\<rparr>)"
  note d = s1_def s2_def poster_defs assms
  have "(cpu_step ?L)\<^sup>*\<^sup>* s s1" unfolding s1_def
    by (rule run_poster [OF rtranclp.rtrancl_refl post [where prio = 0]]) (simp_all add: assms [simplified] can_post_def clamp_priority_def)
  then have "(cpu_step ?L)\<^sup>*\<^sup>* s s2" unfolding s2_def by (rule run_poster [OF _ queue_ingest]) (simp_all add: d)
  also have "s2 = set_poster 1 (NotifySpin 1 0 False True)
    (s\<lparr>ref_count := insert 1 (ref_count s), ingest := (ingest s)(0 := [x]), posted := posted s + {#x#}\<rparr>)"
    by (simp add: d)
  finally show ?thesis .
qed

definition posted_state :: "nat \<Rightarrow> cpu" where
  "posted_state n = set_poster 1 (NotifySpin 1 0 False True)
    (cpu_new (one_thread n False) \<lparr>ref_count := {1}, ingest := (\<lambda>_. [])(0 := [7]), posted := {#7#}\<rparr>)"

lemma posted_state_reach: "0 < n \<Longrightarrow> reach (cpu_start (one_thread n False)) (cpu_step (one_thread n False)) (posted_state n)"
proof -
  assume n: "0 < n"
  let ?L = "one_thread n False" and ?s = "cpu_new (one_thread n False)"
  have "(cpu_step ?L)\<^sup>*\<^sup>* ?s (set_poster 1 (NotifySpin 1 0 False True)
    (?s\<lparr>ref_count := insert 1 (ref_count ?s), ingest := (ingest ?s)(0 := [7]), posted := posted ?s + {#7#}\<rparr>))"
    by (rule run_outside_post) (simp_all add: cpu_new_def n)
  also have "set_poster 1 (NotifySpin 1 0 False True)
    (?s\<lparr>ref_count := insert 1 (ref_count ?s), ingest := (ingest ?s)(0 := [7]), posted := posted ?s + {#7#}\<rparr>) = posted_state n"
    by (simp add: posted_state_def cpu_new_def)
  finally show ?thesis by (rule reach_run) (simp add: reach_start cpu_start_def one_thread_ok n)
qed

theorem cpu_no_lost_wakeup_witness:
  "(\<exists>t. handles (one_thread 1 False) t 0 \<and> \<not> asleep (posted_state 1) t) \<or> (\<exists>a. notifying (poster_at (posted_state 1) a) 0)"
  using cpu_no_lost_wakeup [OF posted_state_reach, of 1] by (simp add: posted_state_def cpu_new_def set_poster_def)

theorem cpu_items_conserved_witness:
  "{#7#} = items_in_calls (posted_state 1) + queued_items (one_thread 1 False) (posted_state 1) + items_in_hand (one_thread 1 False) (posted_state 1) + {#}"
  using cpu_items_conserved [OF posted_state_reach, of 1] by (simp add: posted_state_def cpu_new_def set_poster_def)


text \<open>The thread takes the item, notifies nobody, and runs it.\<close>

lemma run_to_item:
  assumes "worker_at s 0 = Clearing 0" "\<not> stop_requested s 0" "deque_of s 0 0 = []" "ingest s 0 = [x]" "spin_flag s 0"
    "poster_at s 0 = NotPosting" "spinning s = {0}" "working s = {}"
  shows "\<exists>s'. (cpu_step (one_thread 2 b))\<^sup>*\<^sup>* s s' \<and> worker_at s' 0 = StoreYield x 0 \<and> prev_prio s' 0 = prev_prio s 0"
proof -
  let ?L = "one_thread 2 b"
  define s1 where "s1 = set_worker 0 (Clearing (0 + 1)) (if sentinel_thread ?L 0 = 0 then set_fallback 0 FALLBACK_WAKE_NONE s else s)"
  define s2 where "s2 = set_worker 0 (Clearing (1 + 1)) (if sentinel_thread ?L 1 = 0 then set_fallback 1 FALLBACK_WAKE_NONE s1 else s1)"
  define s3 where "s3 = set_worker 0 StopCheck s2"
  define s4 where "s4 = set_worker 0 (PopOwn (range_begin ?L 0)) s3"
  define s5 where "s5 = set_worker 0 (if 0 = range_begin ?L 0 then PullInbox else Dequeue 0) s4"
  define s6 where "s6 = set_worker 0 (Dequeue (range_begin ?L 0)) s5"
  define s7 where "s7 = found 0 x 0 (ingest_taken 0 ([] @ []) s6)"
  define s8 where "s8 = set_worker 0 (ClrSpinning x 0) (s7\<lparr>spin_flag := (spin_flag s7)(0 := False), working := insert 0 (working s7)\<rparr>)"
  define s9 where "s9 = set_worker 0 (WakeOne x 0) (set_poster 0 (NotifySpin 1 0 True False) (s8\<lparr>spinning := spinning s8 - {0}\<rparr>))"
  define s10 where "s10 = set_poster 0 (NotifyWork 1 0 True False (spinning s9)) s9"
  define s11 where "s11 = set_poster 0 (notify_start ?L 1 True False (spinning s9) (working s10) 0) s10"
  define s12 where "s12 = end_post 0 s11"
  define s13 where "s13 = set_worker 0 (StoreYield x 0) s12"
  note d = s1_def s2_def s3_def s4_def s5_def s6_def s7_def s8_def s9_def s10_def s11_def s12_def s13_def worker_defs end_post_def
    assms notify_start_def
  have v: "notify_verdict ?L 0 True False {} {0} 0 = NotPosting"
    by (auto simp: notify_verdict_def sleeping_in_def allowed_threads_def Let_def)
  have "(cpu_step ?L)\<^sup>*\<^sup>* s s1" unfolding s1_def
    by (rule run_worker [OF rtranclp.rtrancl_refl _ clear_fallback]) (simp_all add: assms)
  then have "(cpu_step ?L)\<^sup>*\<^sup>* s s2" unfolding s2_def by (rule run_worker [OF _ _ clear_fallback]) (simp_all add: d)
  then have "(cpu_step ?L)\<^sup>*\<^sup>* s s3" unfolding s3_def by (rule run_worker [OF _ _ cleared [where p = 2]]) (simp_all add: d)
  then have "(cpu_step ?L)\<^sup>*\<^sup>* s s4" unfolding s4_def by (rule run_worker [OF _ _ go_on]) (simp_all add: d)
  then have "(cpu_step ?L)\<^sup>*\<^sup>* s s5" unfolding s5_def by (rule run_worker [OF _ _ pop_empty [where p = 0]]) (simp_all add: d)
  then have "(cpu_step ?L)\<^sup>*\<^sup>* s s6" unfolding s6_def by (rule run_worker [OF _ _ pull_none]) (simp_all add: d)
  then have "(cpu_step ?L)\<^sup>*\<^sup>* s s7" unfolding s7_def by (rule run_worker [OF _ _ dequeue]) (simp_all add: d)
  then have "(cpu_step ?L)\<^sup>*\<^sup>* s s8" unfolding s8_def by (rule run_worker [OF _ _ set_working]) (simp_all add: d)
  then have "(cpu_step ?L)\<^sup>*\<^sup>* s s9" unfolding s9_def by (rule run_worker [OF _ _ clr_spinning]) (simp_all add: d)
  then have "(cpu_step ?L)\<^sup>*\<^sup>* s s10" unfolding s10_def by (rule run_poster [OF _ notify_spin]) (simp add: d)
  then have "(cpu_step ?L)\<^sup>*\<^sup>* s s11" unfolding s11_def by (rule run_poster [OF _ notify_work]) (simp add: d)
  then have "(cpu_step ?L)\<^sup>*\<^sup>* s s12" unfolding s12_def
    by (rule run_poster [OF _ decide_return [where allowed = True and fromPost = False and spin = "{}" and work = "{0}" and P = 0]])
      (simp_all add: d v)
  then have "(cpu_step ?L)\<^sup>*\<^sup>* s s13" unfolding s13_def by (rule run_worker [OF _ _ woke_one]) (simp_all add: d)
  then show ?thesis by (intro exI [of _ s13]) (simp add: d)
qed

lemma run_item:
  assumes "worker_at s 0 = StoreYield x 0" "prev_prio s 0 = None"
  shows "\<exists>s'. (cpu_step (one_thread 2 b))\<^sup>*\<^sup>* s s' \<and> worker_at s' 0 = Running x 0"
proof -
  let ?L = "one_thread 2 b"
  define s1 where "s1 = set_worker 0 (after_yield ?L s 0 x 0) (s\<lparr>yield_priority := (yield_priority s)(0 := 0)\<rparr>)"
  define s2 where "s2 = set_worker 0 (Running x 0)
      (s1\<lparr>stoppers := (stoppers s1)(0 := insert 0 (stoppers s1 0)), prev_prio := (prev_prio s1)(0 := Some 0)\<rparr>)"
  note d = s1_def s2_def worker_defs assms
  have "worker_step ?L 0 s s1" using store_yield [of s 0 x 0 ?L] by (simp add: d)
  then have "(cpu_step ?L)\<^sup>*\<^sup>* s s1" by (intro run_worker [OF rtranclp.rtrancl_refl]) simp_all
  then have "(cpu_step ?L)\<^sup>*\<^sup>* s s2" unfolding s2_def by (rule run_worker [OF _ _ set_stopper]) (simp_all add: d)
  then show ?thesis by (intro exI [of _ s2]) (simp add: d)
qed

theorem cpu_yield_priority_witness:
  "\<exists>s::cpu. worker_at s 0 = Running 7 0 \<and> yield_priority s 0 = 0 \<and> 0 \<in> stoppers s 0 \<and> 0 \<notin> stoppers s 1"
proof -
  let ?L = "one_thread 2 False"
  have "poster_at (posted_state 2) 0 = NotPosting" by (simp add: posted_state_def set_poster_def cpu_new_def)
  then obtain s1 where s1: "(cpu_step ?L)\<^sup>*\<^sup>* (posted_state 2) s1" "worker_at s1 0 = StoreYield 7 0" "prev_prio s1 0 = None"
    using run_to_item [of "posted_state 2" 7 False] by (auto simp: posted_state_def cpu_new_def set_poster_def lessThan_Suc)
  obtain s2 where s2: "(cpu_step ?L)\<^sup>*\<^sup>* s1 s2" "worker_at s2 0 = Running 7 0" using run_item [OF s1(2,3)] by blast
  have "reach (cpu_start ?L) (cpu_step ?L) s2"
    by (rule reach_run [OF s2(1) reach_run [OF s1(1) posted_state_reach]]) simp
  from cpu_yield_priority [OF this] s2(2) have "yield_priority s2 0 \<le> 0 \<and> (\<forall>q. 0 \<in> stoppers s2 q \<longleftrightarrow> q = 0)" by fastforce
  with s2(2) show ?thesis by (intro exI [of _ s2]) simp
qed


end
