(* ===== verification/InboxIndexes.thy ===== *)
theory InboxIndexes
  imports Prelude
begin

text \<open>
  Inbox assignment (\<open>get_thread_inbox_indexes\<close> in \<open>src/include/tmc/detail/thread_layout.ipp\<close>): the
  threads of a group share an inbox when they serve the same range of priorities.  The code is
  compared with a numbering of the pairs (run of the group, range) by first occurrence.
\<close>

section \<open>The code\<close>

record ThreadInboxInfo =
  priorityRangeBegin :: nat
  priorityRangeEnd :: nat
  groupIdx :: nat

text \<open>\<open>TMC_ALL_ONES\<close> as a number: no group has this index.\<close>

definition NO_GROUP :: nat where
  "NO_GROUP = 2 ^ 64 - 1"

record inbox_state =
  inboxKeys :: "(nat \<times> nat) list"
  inboxIdxBase :: nat
  curGroup :: nat

text \<open>The search loop: the index of the first equal key, or the number of keys when there is none.\<close>

fun find_key :: "'k list \<Rightarrow> 'k \<Rightarrow> nat" where
  "find_key [] key = 0"
| "find_key (k # ks) key = (if k = key then 0 else Suc (find_key ks key))"

definition inbox_step :: "ThreadInboxInfo \<Rightarrow> inbox_state \<Rightarrow> nat \<times> inbox_state" where
  "inbox_step d s =
    (let s = (if groupIdx d \<noteq> curGroup s
              then \<lparr>inboxKeys = [], inboxIdxBase = inboxIdxBase s + length (inboxKeys s),
                    curGroup = groupIdx d\<rparr>
              else s);
         key = (priorityRangeBegin d, priorityRangeEnd d);
         inboxIdx = find_key (inboxKeys s) key;
         s' = (if inboxIdx = length (inboxKeys s) then s\<lparr>inboxKeys := inboxKeys s @ [key]\<rparr> else s)
     in (inboxIdx + inboxIdxBase s, s'))"

fun inbox_loop :: "ThreadInboxInfo list \<Rightarrow> inbox_state \<Rightarrow> nat list" where
  "inbox_loop [] s = []"
| "inbox_loop (d # ds) s = (let (i, s') = inbox_step d s in i # inbox_loop ds s')"

definition get_thread_inbox_indexes :: "ThreadInboxInfo list \<Rightarrow> nat list" where
  "get_thread_inbox_indexes ThreadData =
    inbox_loop ThreadData \<lparr>inboxKeys = [], inboxIdxBase = 0, curGroup = NO_GROUP\<rparr>"

section \<open>Numbering by first occurrence\<close>

fun numbering :: "'k list \<Rightarrow> 'k list \<Rightarrow> nat list" where
  "numbering seen [] = []"
| "numbering seen (k # ks) =
    find_key seen k # numbering (if k \<in> set seen then seen else seen @ [k]) ks"

lemma find_key_length: "find_key ks k = length ks \<longleftrightarrow> k \<notin> set ks"
  by (induction ks) auto

lemma find_key_le: "find_key ks k \<le> length ks"
  by (induction ks) auto

lemma find_key_less: "k \<in> set ks \<Longrightarrow> find_key ks k < length ks"
  by (induction ks) auto

lemma nth_find_key: "k \<in> set ks \<Longrightarrow> ks ! find_key ks k = k"
  by (induction ks) auto

lemma find_key_nth: "distinct ks \<Longrightarrow> i < length ks \<Longrightarrow> find_key ks (ks ! i) = i"
  by (induction ks arbitrary: i) (auto simp: nth_Cons split: nat.splits)

lemma find_key_append:
  "find_key (xs @ ys) k = (if k \<in> set xs then find_key xs k else length xs + find_key ys k)"
  by (induction xs) auto

lemma find_key_map_inj: "inj f \<Longrightarrow> find_key (map f ks) (f k) = find_key ks k"
  by (induction ks) (auto dest: injD)

fun firsts :: "'k list \<Rightarrow> 'k list \<Rightarrow> 'k list" where
  "firsts seen [] = seen"
| "firsts seen (k # ks) = firsts (if k \<in> set seen then seen else seen @ [k]) ks"

lemma firsts_all:
  "distinct seen \<Longrightarrow> distinct (firsts seen ks) \<and> set (firsts seen ks) = set seen \<union> set ks
    \<and> (\<exists>ys. firsts seen ks = seen @ ys)"
proof (induction ks arbitrary: seen)
  case (Cons k ks)
  show ?case
  proof (cases "k \<in> set seen")
    case False
    then have "distinct (seen @ [k])" using Cons.prems by simp
    from Cons.IH [OF this] show ?thesis using False by auto
  qed (use Cons.IH [OF Cons.prems] in auto)
qed auto

lemma firsts_props:
  assumes "distinct seen"
  shows "distinct (firsts seen ks)" and "set (firsts seen ks) = set seen \<union> set ks"
    and "\<exists>ys. firsts seen ks = seen @ ys"
  using firsts_all [OF assms, of ks] by simp_all

lemma numbering_eq:
  assumes "distinct seen"
  shows "numbering seen ks = map (find_key (firsts seen ks)) ks"
  using assms
proof (induction ks arbitrary: seen)
  case (Cons k ks)
  let ?seen = "if k \<in> set seen then seen else seen @ [k]"
  have d: "distinct ?seen" using Cons.prems by simp
  obtain ys where ys: "firsts ?seen ks = ?seen @ ys" using firsts_props(3) [OF d] by blast
  have "find_key (firsts ?seen ks) k = find_key seen k"
    unfolding ys by (simp add: find_key_append find_key_length [THEN iffD2])
  then show ?case using Cons.IH [OF d] by simp
qed simp

lemma numbering_spec:
  defines "ns \<equiv> \<lambda>ks. numbering [] ks"
  shows "i < length ks \<Longrightarrow> j < length ks \<Longrightarrow> ns ks ! i = ns ks ! j \<longleftrightarrow> ks ! i = ks ! j"
    and "set (ns ks) = {..<card (set ks)}" and "length (ns ks) = length ks"
proof -
  let ?f = "firsts [] ks"
  note f = firsts_props [of "[]" ks, simplified]
  have eq: "ns ks = map (find_key ?f) ks" by (simp add: ns_def numbering_eq)
  show "length (ns ks) = length ks" by (simp add: eq)
  show "ns ks ! i = ns ks ! j \<longleftrightarrow> ks ! i = ks ! j" if "i < length ks" "j < length ks"
  proof
    assume "ns ks ! i = ns ks ! j"
    then have "find_key ?f (ks ! i) = find_key ?f (ks ! j)" using that by (simp add: eq)
    moreover have "ks ! i \<in> set ?f" "ks ! j \<in> set ?f" using f(2) that by simp_all
    ultimately show "ks ! i = ks ! j" using nth_find_key by metis
  qed (use that in \<open>simp add: eq\<close>)
  have len: "length ?f = card (set ks)" using f(1,2) distinct_card by fastforce
  have "set (ns ks) = find_key ?f ` set ?f" by (simp add: eq f(2))
  also have "\<dots> = {..<length ?f}"
  proof
    show "find_key ?f ` set ?f \<subseteq> {..<length ?f}" using find_key_less by fastforce
    show "{..<length ?f} \<subseteq> find_key ?f ` set ?f"
      using find_key_nth [OF f(1)] by (metis image_eqI lessThan_iff nth_mem subsetI)
  qed
  finally show "set (ns ks) = {..<card (set ks)}" using len by simp
qed

section \<open>The code numbers the pairs of run and range\<close>

text \<open>\<open>thread_keys\<close> numbers the runs of equal groups; two threads of a run share an inbox when their
  ranges agree.\<close>

fun thread_keys :: "nat \<Rightarrow> nat \<Rightarrow> ThreadInboxInfo list \<Rightarrow> (nat \<times> nat \<times> nat) list" where
  "thread_keys run g [] = []"
| "thread_keys run g (d # ds) =
    (let run' = (if groupIdx d \<noteq> g then Suc run else run)
     in (run', priorityRangeBegin d, priorityRangeEnd d) # thread_keys run' (groupIdx d) ds)"

lemma inbox_loop_numbering:
  assumes "inboxIdxBase s = length old" and "\<forall>k \<in> set old. fst k < run" and "distinct old"
    and "distinct (inboxKeys s)"
  shows "inbox_loop ds s = numbering (old @ map (Pair run) (inboxKeys s)) (thread_keys run (curGroup s) ds)"
  using assms
proof (induction ds arbitrary: s old run)
  case (Cons d ds)
  let ?key = "(priorityRangeBegin d, priorityRangeEnd d)"
  have pair: "Pair r k \<in> set (map (Pair r) ks) \<longleftrightarrow> k \<in> set ks" for r :: nat and k :: "nat \<times> nat" and ks
    by auto
  show ?case
  proof (cases "groupIdx d = curGroup s")
    case True
    let ?s = "if ?key \<in> set (inboxKeys s) then s else s\<lparr>inboxKeys := inboxKeys s @ [?key]\<rparr>"
    have step: "inbox_step d s = (find_key (inboxKeys s) ?key + inboxIdxBase s, ?s)"
      using True by (simp add: inbox_step_def Let_def find_key_length)
    have old: "(run, ?key) \<notin> set old" using Cons.prems(2) by auto
    have "find_key (old @ map (Pair run) (inboxKeys s)) (run, ?key)
        = find_key (inboxKeys s) ?key + inboxIdxBase s"
      using old Cons.prems(1) find_key_map_inj [of "Pair run" "inboxKeys s" ?key]
      by (simp add: find_key_append inj_def)
    moreover have "inbox_loop ds ?s
        = numbering (old @ map (Pair run) (inboxKeys ?s)) (thread_keys run (curGroup ?s) ds)"
      by (rule Cons.IH) (use Cons.prems in auto)
    ultimately show ?thesis using True step old by (auto simp: Let_def)
  next
    case False
    let ?old = "old @ map (Pair run) (inboxKeys s)"
    let ?s = "\<lparr>inboxKeys = [?key], inboxIdxBase = length ?old, curGroup = groupIdx d\<rparr>"
    have step: "inbox_step d s = (length ?old, ?s)"
      using False Cons.prems(1) by (simp add: inbox_step_def Let_def)
    have less: "\<forall>k \<in> set ?old. fst k < Suc run" using Cons.prems(2) by auto
    have new: "(Suc run, ?key) \<notin> set ?old" using less by (metis fst_conv less_irrefl)
    have "distinct ?old"
      using Cons.prems by (auto simp: distinct_map inj_on_def)
    then have "inbox_loop ds ?s
        = numbering (?old @ map (Pair (Suc run)) (inboxKeys ?s)) (thread_keys (Suc run) (curGroup ?s) ds)"
      by (intro Cons.IH) (use less in auto)
    moreover have "find_key ?old (Suc run, ?key) = length ?old"
      using find_key_length [of ?old "(Suc run, ?key)"] new by blast
    ultimately show ?thesis using False step new by (simp add: Let_def)
  qed
qed simp

lemma inbox_indexes_numbering:
  "get_thread_inbox_indexes ds = numbering [] (thread_keys 0 NO_GROUP ds)"
  using inbox_loop_numbering [of "\<lparr>inboxKeys = [], inboxIdxBase = 0, curGroup = NO_GROUP\<rparr>" "[]" 0 ds]
  by (simp add: get_thread_inbox_indexes_def)


lemma thread_keys_length: "length (thread_keys run g ds) = length ds"
  by (induction ds arbitrary: run g) (auto simp: Let_def)

text \<open>When the threads of a group are consecutive, the runs are the groups.\<close>

definition key_of :: "ThreadInboxInfo \<Rightarrow> nat \<times> nat \<times> nat" where
  "key_of d = (groupIdx d, priorityRangeBegin d, priorityRangeEnd d)"

definition run_key :: "nat \<Rightarrow> ThreadInboxInfo \<Rightarrow> nat \<times> nat \<times> nat" where
  "run_key r d = (r, priorityRangeBegin d, priorityRangeEnd d)"

lemma thread_keys_grouped:
  assumes "sorted (map groupIdx ds)" and "\<forall>d \<in> set ds. g \<noteq> groupIdx d \<longrightarrow> g < groupIdx d \<or> fresh"
    and "fresh \<longrightarrow> (\<forall>d \<in> set ds. groupIdx d \<noteq> g)"
  shows "\<exists>f. inj_on f (groupIdx ` set ds) \<and> thread_keys run g ds = map (\<lambda>d. run_key (f (groupIdx d)) d) ds
      \<and> (\<forall>d \<in> set ds. f (groupIdx d) = run \<longleftrightarrow> groupIdx d = g) \<and> (\<forall>d \<in> set ds. run \<le> f (groupIdx d))"
  using assms
proof (induction ds arbitrary: run g fresh)
  case (Cons d ds)
  let ?run = "if groupIdx d \<noteq> g then Suc run else run"
  let ?g = "groupIdx d"
  have "\<forall>x \<in> set ds. ?g \<noteq> groupIdx x \<longrightarrow> ?g < groupIdx x \<or> False"
    using Cons.prems(1) by fastforce
  moreover have "sorted (map groupIdx ds)" using Cons.prems(1) by simp
  ultimately obtain f where f: "inj_on f (groupIdx ` set ds)"
    "thread_keys ?run ?g ds = map (\<lambda>d. run_key (f (groupIdx d)) d) ds"
    "\<forall>x \<in> set ds. f (groupIdx x) = ?run \<longleftrightarrow> groupIdx x = ?g" "\<forall>x \<in> set ds. ?run \<le> f (groupIdx x)"
    using Cons.IH [of ?g False ?run] by blast
  let ?f = "f(?g := ?run)"
  have at: "?f (groupIdx x) = f (groupIdx x)" if "x \<in> set ds" for x
    using f(3) that by (cases "groupIdx x = ?g") auto
  have "inj_on ?f (groupIdx ` set (d # ds))"
    using f(1,3) by (auto simp: inj_on_def)
  moreover have "thread_keys run g (d # ds) = map (\<lambda>d. run_key (?f (groupIdx d)) d) (d # ds)"
    using f(2) at by (auto simp: Let_def run_key_def)
  moreover have "\<forall>x \<in> set (d # ds). ?f (groupIdx x) = run \<longleftrightarrow> groupIdx x = g"
  proof (cases "?g = g")
    case True
    then show ?thesis using f(3) by auto
  next
    case False
    have "groupIdx x \<noteq> g" if "x \<in> set ds" for x
    proof (cases fresh)
      case False
      then have "g < ?g" using Cons.prems(2) \<open>?g \<noteq> g\<close> by auto
      then show ?thesis using Cons.prems(1) that by fastforce
    qed (use Cons.prems(3) that in auto)
    then show ?thesis using False f(4) by (auto simp: Suc_le_eq)
  qed
  moreover have "\<forall>x \<in> set (d # ds). run \<le> ?f (groupIdx x)"
    using f(4) by (auto split: if_splits dest: Suc_leD)
  ultimately show ?case by blast
qed auto

lemma not_no_group:
  "\<forall>d \<in> set ds. groupIdx d < NO_GROUP \<Longrightarrow> \<forall>d \<in> set ds. groupIdx d \<noteq> NO_GROUP"
  by (metis less_irrefl)

lemma thread_keys_key_of:
  assumes "sorted (map groupIdx ds)" and "\<forall>d \<in> set ds. groupIdx d < NO_GROUP"
    and "i < length ds" and "j < length ds"
  shows "thread_keys 0 NO_GROUP ds ! i = thread_keys 0 NO_GROUP ds ! j \<longleftrightarrow> key_of (ds ! i) = key_of (ds ! j)"
proof -
  obtain f where f: "inj_on f (groupIdx ` set ds)"
    "thread_keys 0 NO_GROUP ds = map (\<lambda>d. run_key (f (groupIdx d)) d) ds"
    using thread_keys_grouped [OF assms(1), of NO_GROUP True 0] not_no_group [OF assms(2)] by blast
  then have "f (groupIdx (ds ! i)) = f (groupIdx (ds ! j)) \<longleftrightarrow> groupIdx (ds ! i) = groupIdx (ds ! j)"
    using assms(3,4) by (auto dest: inj_onD)
  then show ?thesis using f(2) assms(3,4) by (simp add: run_key_def key_of_def)
qed

section \<open>Properties\<close>

lemma inbox_partition:
  assumes "sorted (map groupIdx ds)" and "\<forall>d \<in> set ds. groupIdx d < NO_GROUP"
  defines "out \<equiv> get_thread_inbox_indexes ds"
  shows "length out = length ds"
    and "\<forall>i < length ds. \<forall>j < length ds. out ! i = out ! j \<longleftrightarrow> key_of (ds ! i) = key_of (ds ! j)"
    and "set out = {..<card (key_of ` set ds)}"
proof -
  let ?ks = "thread_keys 0 NO_GROUP ds"
  note ns = numbering_spec [where ks = ?ks, unfolded thread_keys_length]
  have out: "out = numbering [] ?ks" by (simp add: out_def inbox_indexes_numbering)
  show "length out = length ds" by (simp add: out ns)
  show "\<forall>i < length ds. \<forall>j < length ds. out ! i = out ! j \<longleftrightarrow> key_of (ds ! i) = key_of (ds ! j)"
    using ns(1) thread_keys_key_of [OF assms(1,2)] by (simp add: out)
  obtain f where f: "inj_on f (groupIdx ` set ds)"
    "?ks = map (\<lambda>d. run_key (f (groupIdx d)) d) ds"
    using thread_keys_grouped [OF assms(1), of NO_GROUP True 0] not_no_group [OF assms(2)] by blast
  let ?h = "\<lambda>(g, r). (f g, r :: nat \<times> nat)"
  have "run_key (f (groupIdx d)) d = ?h (key_of d)" for d by (simp add: run_key_def key_of_def)
  then have "set ?ks = ?h ` key_of ` set ds" unfolding f(2) by (simp add: image_image)
  moreover have "inj_on ?h (key_of ` set ds)"
    using f(1) by (auto simp: inj_on_def key_of_def)
  ultimately have "card (set ?ks) = card (key_of ` set ds)" by (simp add: card_image)
  then show "set out = {..<card (key_of ` set ds)}" using ns(2) by (simp add: out)
qed

text \<open>
  when the threads come group by group, two threads get the same inbox exactly when they are in
  the same group and serve the same range of priorities, and the indexes are the numbers below the
  number of different inboxes, without gaps.
\<close>

lemma inbox_indexes_partition:
  assumes "sorted (map groupIdx ds)" and "\<forall>d \<in> set ds. groupIdx d < NO_GROUP"
  shows "let out = get_thread_inbox_indexes ds in length out = length ds
    \<and> (\<forall>i < length ds. \<forall>j < length ds. out ! i = out ! j \<longleftrightarrow> key_of (ds ! i) = key_of (ds ! j))
    \<and> set out = {..<card (key_of ` set ds)}"
  using inbox_partition [OF assms] by (simp add: Let_def)

section \<open>How many inboxes \<open>init\<close> makes\<close>

text \<open>A key gets the number of different keys before its first occurrence.\<close>

lemma firsts_append: "firsts seen (xs @ ys) = firsts (firsts seen xs) ys"
  by (induction xs arbitrary: seen) simp_all

lemma find_key_firsts:
  assumes "k \<in> set ks"
  shows "find_key (firsts [] ks) k = card (set (take (find_key ks k) ks))"
proof -
  obtain xs ys where ks: "ks = xs @ k # ys" and k: "k \<notin> set xs" using split_list_first [OF assms] by blast
  note f = firsts_props [of "[]" xs, simplified]
  have new: "k \<notin> set (firsts [] xs)" using f(2) k by simp
  then have "distinct (firsts [] xs @ [k])" using f(1) by simp
  then obtain zs where zs: "firsts (firsts [] xs @ [k]) ys = (firsts [] xs @ [k]) @ zs" using firsts_props(3) by blast
  have "firsts [] ks = (firsts [] xs @ [k]) @ zs" using new zs by (simp add: ks firsts_append)
  then have "find_key (firsts [] ks) k = length (firsts [] xs)"
    using new find_key_length [of "firsts [] xs" k] by (simp add: find_key_append)
  moreover have "find_key ks k = length xs" using k by (simp add: ks find_key_append)
  moreover have "length (firsts [] xs) = card (set xs)" using f(1,2) distinct_card by fastforce
  ultimately show ?thesis by (simp add: ks)
qed

lemma numbering_less:
  assumes "i < length ks" and "j < length ks"
  shows "numbering [] ks ! i < numbering [] ks ! j \<longleftrightarrow> find_key ks (ks ! i) < find_key ks (ks ! j)"
proof -
  have less: "card (set (take a ks)) < card (set (take b ks))" if ab: "a < b" and k: "k \<in> set ks" "a = find_key ks k" "b \<le> length ks" for a b k
  proof (rule psubset_card_mono)
    have a: "a < length ks" "ks ! a = k" using find_key_less [OF k(1)] nth_find_key [OF k(1)] k(2) by simp_all
    have "k \<notin> set (take a ks)"
    proof
      assume "k \<in> set (take a ks)"
      then have "find_key ks k < a" using find_key_append [of "take a ks" "drop a ks" k] find_key_less [of k "take a ks"] a(1) by simp
      then show False using k(2) by simp
    qed
    moreover have "k \<in> set (take b ks)" using a ab k(3) by (auto simp: in_set_conv_nth intro!: exI [of _ a])
    ultimately show "set (take a ks) \<subset> set (take b ks)" using set_take_subset_set_take [of a b ks] ab by auto
  qed simp
  have m: "ks ! i \<in> set ks" "ks ! j \<in> set ks" using assms by simp_all
  have "find_key (firsts [] ks) (ks ! i) < find_key (firsts [] ks) (ks ! j) \<longleftrightarrow> find_key ks (ks ! i) < find_key ks (ks ! j)"
    unfolding find_key_firsts [OF m(1)] find_key_firsts [OF m(2)]
    using less [OF _ m(1) refl find_key_le [of ks "ks ! j"]] less [OF _ m(2) refl find_key_le [of ks "ks ! i"]]
    by (cases "find_key ks (ks ! i)" "find_key ks (ks ! j)" rule: linorder_cases) fastforce+
  then show ?thesis using assms by (simp add: numbering_eq)
qed

lemma find_key_first:
  assumes "i < length ks"
  shows "find_key ks (ks ! i) \<le> i"
proof -
  have "ks ! i \<in> set (take (Suc i) ks)" using assms by (simp add: take_Suc_conv_app_nth)
  then have "find_key ks (ks ! i) < length (take (Suc i) ks)"
    using find_key_append [of "take (Suc i) ks" "drop (Suc i) ks" "ks ! i"] find_key_less [of "ks ! i" "take (Suc i) ks"] by simp
  then show ?thesis by simp
qed

text \<open>
  \<open>back () + 1\<close> inboxes are enough exactly when no range of priorities comes up in the last group for the first time after
  a thread that has the range of the last thread.
\<close>

definition last_range_last :: "ThreadInboxInfo list \<Rightarrow> bool" where
  "last_range_last ds \<longleftrightarrow> (\<forall>u < length ds. \<forall>w < u. key_of (ds ! w) = key_of (last ds) \<longrightarrow> (\<exists>v \<le> w. key_of (ds ! v) = key_of (ds ! u)))"

lemma inboxes_enough:
  assumes "sorted (map groupIdx ds)" and "\<forall>d \<in> set ds. groupIdx d < NO_GROUP" and "ds \<noteq> []"
  defines "out \<equiv> get_thread_inbox_indexes ds"
  shows "(\<forall>i < length ds. out ! i < last out + 1) \<longleftrightarrow> last_range_last ds"
proof -
  let ?ks = "thread_keys 0 NO_GROUP ds" and ?l = "length ds - 1"
  define first where "first = (\<lambda>i. find_key ?ks (?ks ! i))"
  note len = thread_keys_length [of 0 NO_GROUP ds] and key = thread_keys_key_of [OF assms(1,2)]
  have l: "?l < length ds" "last ds = ds ! ?l" using assms(3) by (simp_all add: last_conv_nth)
  have out: "out = numbering [] ?ks" by (simp add: out_def inbox_indexes_numbering)
  have "length out = length ds" by (simp add: out numbering_eq len)
  then have lo: "last out = out ! ?l" using assms(3) by (metis last_conv_nth length_0_conv)
  have less: "out ! i < out ! j \<longleftrightarrow> first i < first j" if "i < length ds" "j < length ds" for i j
    using numbering_less [of i ?ks j] that len by (simp add: out first_def)
  have first: "first i \<le> i" "first i < length ds" "key_of (ds ! first i) = key_of (ds ! i)" if i: "i < length ds" for i
  proof -
    show "first i \<le> i" using find_key_first [of i ?ks] i len by (simp add: first_def)
    then show f: "first i < length ds" using i by simp
    have "?ks ! first i = ?ks ! i" using nth_find_key [of "?ks ! i" ?ks] i len by (simp add: first_def)
    then show "key_of (ds ! first i) = key_of (ds ! i)" using key [OF f i] by blast
  qed
  have least: "first i \<le> v" if "v < length ds" "i < length ds" "key_of (ds ! v) = key_of (ds ! i)" for i v
    using key [OF that(1,2)] that(3) find_key_first [of v ?ks] that(1) len by (simp add: first_def)
  have "(\<forall>i < length ds. out ! i < last out + 1) \<longleftrightarrow> (\<forall>i < length ds. \<not> first ?l < first i)"
    using less [OF l(1)] by (auto simp: lo less_Suc_eq_le not_less simp flip: not_less)
  also have "\<dots> \<longleftrightarrow> last_range_last ds"
  proof
    assume a: "\<forall>i < length ds. \<not> first ?l < first i"
    have "\<exists>v \<le> w. key_of (ds ! v) = key_of (ds ! u)" if "u < length ds" "w < u" "key_of (ds ! w) = key_of (last ds)" for u w
    proof -
      have "first ?l \<le> w" by (rule least) (use that l in simp_all)
      then have "first u \<le> w" using a that(1) by (meson le_trans not_le)
      then show ?thesis using first(3) [OF that(1)] by blast
    qed
    then show "last_range_last ds" by (simp add: last_range_last_def)
  next
    assume a: "last_range_last ds"
    show "\<forall>i < length ds. \<not> first ?l < first i"
    proof (intro allI impI notI)
      fix i assume i: "i < length ds" and n: "first ?l < first i"
      have "key_of (ds ! first ?l) = key_of (last ds)" using first(3) [OF l(1)] l(2) by simp
      then obtain v where v: "v \<le> first ?l" "key_of (ds ! v) = key_of (ds ! first i)"
        using a first(2) [OF i] n unfolding last_range_last_def by blast
      have "first i \<le> v" by (rule least) (use v first(2) [OF l(1)] first(3) [OF i] i in simp_all)
      then show False using v(1) n by simp
    qed
  qed
  finally show ?thesis .
qed

definition inbox_sample :: "ThreadInboxInfo list" where
  "inbox_sample =
    [\<lparr>priorityRangeBegin = 0, priorityRangeEnd = 1, groupIdx = 0\<rparr>,
     \<lparr>priorityRangeBegin = 1, priorityRangeEnd = 2, groupIdx = 0\<rparr>,
     \<lparr>priorityRangeBegin = 0, priorityRangeEnd = 1, groupIdx = 0\<rparr>]"

theorem inbox_indexes_partition_witness:
  "get_thread_inbox_indexes inbox_sample ! 0 = get_thread_inbox_indexes inbox_sample ! 2"
proof -
  have "sorted (map groupIdx inbox_sample)" "\<forall>d \<in> set inbox_sample. groupIdx d < NO_GROUP"
    by (simp_all add: inbox_sample_def NO_GROUP_def)
  from inbox_indexes_partition [OF this] have "\<forall>i < 3. \<forall>j < 3. get_thread_inbox_indexes inbox_sample ! i
      = get_thread_inbox_indexes inbox_sample ! j \<longleftrightarrow> key_of (inbox_sample ! i) = key_of (inbox_sample ! j)"
    by (simp add: Let_def inbox_sample_def)
  from this [rule_format, of 0 2] show ?thesis by (simp add: inbox_sample_def key_of_def)
qed

text \<open>
  the indexes need not ascend: with ranges that alternate inside a group the last thread's index
  is not the greatest one, so that \<open>back() + 1\<close> inboxes (\<open>ex_cpu.ipp\<close>, lines 1009 to 1015) are too few.
\<close>

lemma inbox_indexes_not_ascending:
  "get_thread_inbox_indexes inbox_sample = [0, 1, 0]
    \<and> \<not> get_thread_inbox_indexes inbox_sample ! 1 < last (get_thread_inbox_indexes inbox_sample) + 1"
proof -
  have "get_thread_inbox_indexes inbox_sample = [0, 1, 0]"
    by (simp add: get_thread_inbox_indexes_def inbox_sample_def inbox_step_def NO_GROUP_def)
  then show ?thesis by simp
qed

end
