(* ===== verification/CpuSetup.thy ===== *)
theory CpuSetup
  imports WakeMatrix InboxIndexes CpuMachine
begin

text \<open>
  How \<open>ex_cpu::init\<close> turns groups of cores and partitions into the layout of the executor (\<open>detail/ex_cpu.ipp\<close>): the
  range of priorities of each thread, the threads of each priority, the waker matrices over all threads, the shared
  inboxes.  Which partitions the cpuset of a thread meets is asked of hwloc: it is an argument.
\<close>

section \<open>The priorities of a thread\<close>

definition ALL_ONES :: nat where
  "ALL_ONES = 2 ^ 64 - 1"

text \<open>\<open>end\<close> is cut to \<open>PRIORITY_COUNT\<close>.\<close>

definition cut_range :: "nat \<Rightarrow> nat \<times> nat \<Rightarrow> nat \<times> nat" where
  "cut_range n r = (if snd r > n then (fst r, n) else r)"

text \<open>The smallest range that holds those of the partitions met.\<close>

fun thread_range :: "((nat \<times> nat) \<times> bool) list \<Rightarrow> nat \<times> nat \<Rightarrow> nat \<times> nat" where
  "thread_range [] r = r"
| "thread_range (((b, e), meets) # ps) (b', e') =
    thread_range ps (if meets then (if b < b' then b else b', if e > e' then e else e') else (b', e'))"

definition priority_range :: "nat \<Rightarrow> (nat \<times> nat) list \<Rightarrow> bool list \<Rightarrow> nat \<times> nat" where
  "priority_range n ranges meets = thread_range (zip (map (cut_range n) ranges) meets) (ALL_ONES, 0)"

section \<open>The threads of each priority\<close>

record thread_setup =
  tidsByPrio :: "nat \<Rightarrow> nat list"
  slotsByPrio :: "nat \<Rightarrow> nat \<Rightarrow> nat"           \<comment> \<open>thread, priority\<close>
  sizes :: "nat \<Rightarrow> nat \<Rightarrow> nat"                 \<comment> \<open>priority, group: \<open>group_size\<close> in \<open>groupsByPrio\<close>\<close>
  threadData :: "ThreadInboxInfo list"        \<comment> \<open>range and group of the threads so far\<close>
  groupSizes :: "nat list"                    \<comment> \<open>\<open>thread_states[slot].group_size\<close>\<close>

definition assign_prio :: "nat \<Rightarrow> nat \<Rightarrow> nat \<times> nat \<Rightarrow> nat \<Rightarrow> thread_setup \<Rightarrow> thread_setup" where
  "assign_prio slot g rg prio s =
    (if prio \<ge> fst rg \<and> prio < snd rg
     then s\<lparr>slotsByPrio := (slotsByPrio s)(slot := (slotsByPrio s slot)(prio := length (tidsByPrio s prio))),
            tidsByPrio := (tidsByPrio s)(prio := tidsByPrio s prio @ [slot])\<rparr>
     else s\<lparr>slotsByPrio := (slotsByPrio s)(slot := (slotsByPrio s slot)(prio := ALL_ONES)),
            sizes := (sizes s)(prio := (sizes s prio)(g := sizes s prio g - 1))\<rparr>)"

definition assign_thread :: "nat \<Rightarrow> (nat \<Rightarrow> nat \<times> nat) \<Rightarrow> nat \<Rightarrow> nat \<Rightarrow> thread_setup \<Rightarrow> thread_setup" where
  "assign_thread n rg g groupSize s =
    (let slot = length (threadData s); s' = fold (assign_prio slot g (rg slot)) [0..<n] s
     in s'\<lparr>threadData := threadData s' @ [\<lparr>priorityRangeBegin = fst (rg slot), priorityRangeEnd = snd (rg slot), groupIdx = g\<rparr>],
           groupSizes := groupSizes s' @ [groupSize]\<rparr>)"

fun assign_groups :: "nat \<Rightarrow> (nat \<Rightarrow> nat \<times> nat) \<Rightarrow> nat \<Rightarrow> nat list \<Rightarrow> thread_setup \<Rightarrow> thread_setup" where
  "assign_groups n rg g [] s = s"
| "assign_groups n rg g (k # ks) s =
    assign_groups n rg (g + 1) ks (((\<lambda>s. assign_thread n rg g k s) ^^ k) s)"

definition setup_threads :: "nat \<Rightarrow> (nat \<Rightarrow> nat \<times> nat) \<Rightarrow> nat list \<Rightarrow> thread_setup" where
  "setup_threads n rg ks = assign_groups n rg 0 ks
    \<lparr>tidsByPrio = (\<lambda>_. []), slotsByPrio = (\<lambda>_ _. 0), sizes = (\<lambda>_ g. if g < length ks then ks ! g else 0),
     threadData = [], groupSizes = []\<rparr>"

section \<open>The waker matrix of a priority\<close>

text \<open>Step 1: the rows of the threads of the priority, with the numbers of all threads.\<close>

definition include_row :: "nat list \<Rightarrow> nat list \<Rightarrow> nat \<Rightarrow> (nat \<Rightarrow> nat list) option \<Rightarrow> (nat \<Rightarrow> nat list) option" where
  "include_row tids R localTid acc = Option.bind acc (\<lambda>rows.
     map_option (\<lambda>srcRow. rows(tids ! localTid := map ((!) tids) srcRow)) (slice_matrix R (length tids) localTid))"

definition included_rows :: "nat list \<Rightarrow> nat list \<Rightarrow> (nat \<Rightarrow> nat list) \<Rightarrow> (nat \<Rightarrow> nat list) option" where
  "included_rows tids R rows = fold (include_row tids R) [0..<length tids] (Some rows)"

text \<open>Step 2: the rows of the others are copies, in turn.\<close>

definition copy_excluded :: "nat list \<Rightarrow> nat \<Rightarrow> (nat \<Rightarrow> nat list) \<times> nat \<Rightarrow> (nat \<Rightarrow> nat list) \<times> nat" where
  "copy_excluded tids dst acc =
    (let rows = fst acc; src = snd acc in
     if hd (rows dst) = ALL_ONES
     then (rows(dst := rows (tids ! src)), if src + 1 = length tids then 0 else src + 1)
     else acc)"

definition make_waker_matrix :: "nat \<Rightarrow> nat list \<Rightarrow> nat list \<Rightarrow> (nat \<Rightarrow> nat list) option" where
  "make_waker_matrix threads tids M =
    Option.bind (invert_matrix M (length tids)) (\<lambda>R.
      map_option (\<lambda>rows. fst (fold (copy_excluded tids) [0..<threads] (rows, 0)))
        (included_rows tids R (\<lambda>_. replicate (length tids) ALL_ONES)))"

section \<open>The layout\<close>

text \<open>\<open>M P\<close> is the steal matrix of priority \<open>P\<close>, over the threads of that priority.\<close>

definition layout_of :: "nat \<Rightarrow> thread_setup \<Rightarrow> (nat \<Rightarrow> nat list) \<Rightarrow> (nat \<Rightarrow> nat \<Rightarrow> nat list) \<Rightarrow> nat list \<Rightarrow> nat \<Rightarrow> bool \<Rightarrow> cpu_layout" where
  "layout_of n s M wakers threadInboxIndexes k careless =
    \<lparr>thread_count = length (threadData s), PRIORITY_COUNT = n, range_begin = (\<lambda>t. priorityRangeBegin (threadData s ! t)),
     range_end = (\<lambda>t. priorityRangeEnd (threadData s ! t)), waker_row = wakers,
     steal_list = (\<lambda>P t. map ((!) (tidsByPrio s P)) (tl (matrix_row (M P) (length (tidsByPrio s P)) (slotsByPrio s t P)))),
     inbox_of = (\<lambda>t. threadInboxIndexes ! t), group_size = (\<lambda>t. groupSizes s ! t), spins = k, careless_hooks = careless\<rparr>"

text \<open>\<open>q_inbox\<close> gets \<open>back () + 1\<close> inboxes; \<open>None\<close> is a thread that is given an inbox beyond them.\<close>

definition make_layout :: "nat \<Rightarrow> thread_setup \<Rightarrow> (nat \<Rightarrow> nat list) \<Rightarrow> (nat \<Rightarrow> nat \<Rightarrow> nat list) \<Rightarrow> nat \<Rightarrow> bool \<Rightarrow> cpu_layout option" where
  "make_layout n s M wakers k careless =
    (let threadInboxIndexes = get_thread_inbox_indexes (threadData s); q_inbox_size = last threadInboxIndexes + 1
     in if threadInboxIndexes \<noteq> [] \<and> (\<forall>i < length (threadData s). threadInboxIndexes ! i < q_inbox_size)
        then Some (layout_of n s M wakers threadInboxIndexes k careless) else None)"

section \<open>The threads of each priority, in closed form\<close>

definition takes_part :: "(nat \<Rightarrow> nat \<times> nat) \<Rightarrow> nat \<Rightarrow> nat \<Rightarrow> bool" where
  "takes_part rg P t \<longleftrightarrow> fst (rg t) \<le> P \<and> P < snd (rg t)"

lemma assign_prio_fold:
  "fold (assign_prio slot g (rg slot)) [0..<m] s = s\<lparr>
    tidsByPrio := (\<lambda>P. tidsByPrio s P @ (if P < m \<and> takes_part rg P slot then [slot] else [])),
    slotsByPrio := (slotsByPrio s)(slot := (\<lambda>P. if P < m then if takes_part rg P slot then length (tidsByPrio s P) else ALL_ONES
      else slotsByPrio s slot P)),
    sizes := (\<lambda>P. (sizes s P)(g := sizes s P g - (if P < m \<and> \<not> takes_part rg P slot then 1 else 0)))\<rparr>"
proof (induction m)
  case 0
  show ?case by simp
next
  case (Suc m)
  show ?case
    unfolding upt_Suc_append [OF zero_le] fold_append comp_apply Suc.IH
    by (intro thread_setup.equality) (auto simp: assign_prio_def takes_part_def fun_eq_iff less_Suc_eq)
qed

text \<open>The threads, each with its group and the size of that group.\<close>

fun flat :: "nat \<Rightarrow> nat list \<Rightarrow> (nat \<times> nat) list" where
  "flat g [] = []"
| "flat g (k # ks) = replicate k (g, k) @ flat (g + 1) ks"

definition assign_flat :: "nat \<Rightarrow> (nat \<Rightarrow> nat \<times> nat) \<Rightarrow> (nat \<times> nat) list \<Rightarrow> thread_setup \<Rightarrow> thread_setup" where
  "assign_flat n rg gs s = fold (\<lambda>(g, k). assign_thread n rg g k) gs s"

lemma fold_replicate: "fold f (replicate k x) s = (f x ^^ k) s"
  by (induction k arbitrary: s) (simp_all add: funpow_swap1)

lemma assign_groups_flat: "assign_groups n rg g ks s = assign_flat n rg (flat g ks) s"
  by (induction ks arbitrary: g s) (simp_all add: assign_flat_def fold_replicate)

lemma flat_length [simp]: "length (flat g ks) = sum_list ks"
  by (induction ks arbitrary: g) simp_all

lemma flat_groups: "sorted (map fst (flat g ks)) \<and> (\<forall>x \<in> set (flat g ks). g \<le> fst x \<and> fst x < g + length ks \<and> 0 < snd x)"
proof (induction ks arbitrary: g)
  case (Cons k ks)
  have "\<forall>x \<in> set (flat (Suc g) ks). Suc g \<le> fst x \<and> fst x < Suc g + length ks \<and> 0 < snd x"
    using Cons.IH [of "Suc g"] by blast
  then show ?case using Cons.IH [of "Suc g"] by (fastforce simp: sorted_append sorted_replicate)
qed simp

definition no_part :: "(nat \<Rightarrow> nat \<times> nat) \<Rightarrow> (nat \<times> nat) list \<Rightarrow> nat \<Rightarrow> nat \<Rightarrow> nat" where
  "no_part rg gs P g = length (filter (\<lambda>t. fst (gs ! t) = g \<and> \<not> takes_part rg P t) [0..<length gs])"

lemma no_part_snoc:
  "no_part rg (gs @ [x]) P g = no_part rg gs P g + (if fst x = g \<and> \<not> takes_part rg P (length gs) then 1 else 0)"
proof -
  have "filter (\<lambda>t. fst ((gs @ [x]) ! t) = g \<and> \<not> takes_part rg P t) [0..<length gs] =
      filter (\<lambda>t. fst (gs ! t) = g \<and> \<not> takes_part rg P t) [0..<length gs]"
    by (rule filter_cong) (auto simp: nth_append)
  then show ?thesis by (simp add: no_part_def)
qed

definition start_setup :: "nat list \<Rightarrow> thread_setup" where
  "start_setup ks = \<lparr>tidsByPrio = (\<lambda>_. []), slotsByPrio = (\<lambda>_ _. 0), sizes = (\<lambda>_ g. if g < length ks then ks ! g else 0),
     threadData = [], groupSizes = []\<rparr>"

lemma assign_flat_closed:
  fixes n :: nat and ks :: "nat list" and rg :: "nat \<Rightarrow> nat \<times> nat"
  defines "s \<equiv> \<lambda>gs. assign_flat n rg gs (start_setup ks)"
  shows "P < n \<Longrightarrow> tidsByPrio (s gs) P = filter (takes_part rg P) [0..<length gs]"
    and "t < length gs \<Longrightarrow> P < n \<Longrightarrow> slotsByPrio (s gs) t P =
      (if takes_part rg P t then length (filter (takes_part rg P) [0..<t]) else ALL_ONES)"
    and "P < n \<Longrightarrow> sizes (s gs) P g = (if g < length ks then ks ! g else 0) - no_part rg gs P g"
    and "threadData (s gs) = map (\<lambda>t. \<lparr>priorityRangeBegin = fst (rg t), priorityRangeEnd = snd (rg t), groupIdx = fst (gs ! t)\<rparr>) [0..<length gs]"
    and "groupSizes (s gs) = map snd gs"
proof (induction gs rule: rev_induct)
  case Nil
  show "P < n \<Longrightarrow> tidsByPrio (s []) P = filter (takes_part rg P) [0..<length []]"
    "P < n \<Longrightarrow> sizes (s []) P g = (if g < length ks then ks ! g else 0) - no_part rg [] P g"
    "threadData (s []) = map (\<lambda>t. \<lparr>priorityRangeBegin = fst (rg t), priorityRangeEnd = snd (rg t), groupIdx = fst ([] ! t)\<rparr>) [0..<length []]"
    "groupSizes (s []) = map snd []"
    by (simp_all add: s_def assign_flat_def start_setup_def no_part_def)
  show "t < length [] \<Longrightarrow> P < n \<Longrightarrow> slotsByPrio (s []) t P =
      (if takes_part rg P t then length (filter (takes_part rg P) [0..<t]) else ALL_ONES)" by simp
next
  case (snoc x gs)
  obtain g' k where x: "x = (g', k)" by (cases x)
  let ?N = "length gs"
  have l: "length (threadData (s gs)) = ?N" using snoc.IH(4) by simp
  have s: "s (gs @ [x]) = assign_thread n rg g' k (s gs)" by (simp add: s_def assign_flat_def x)
  note closed = s assign_thread_def Let_def l assign_prio_fold
  show "P < n \<Longrightarrow> tidsByPrio (s (gs @ [x])) P = filter (takes_part rg P) [0..<length (gs @ [x])]"
    using snoc.IH(1) by (simp add: closed)
  show "t < length (gs @ [x]) \<Longrightarrow> P < n \<Longrightarrow> slotsByPrio (s (gs @ [x])) t P =
      (if takes_part rg P t then length (filter (takes_part rg P) [0..<t]) else ALL_ONES)"
    using snoc.IH(1,2) by (cases "t = ?N") (simp_all add: closed)
  show "P < n \<Longrightarrow> sizes (s (gs @ [x])) P g = (if g < length ks then ks ! g else 0) - no_part rg (gs @ [x]) P g"
  proof -
    assume P: "P < n"
    have z: "sizes (s (gs @ [x])) P = (sizes (s gs) P)(g' := sizes (s gs) P g' - (if \<not> takes_part rg P ?N then 1 else 0))"
      using P by (simp add: closed)
    have f: "fst x = g'" by (simp add: x)
    show ?thesis unfolding z no_part_snoc f using snoc.IH(3) [OF P] by auto
  qed
  show "threadData (s (gs @ [x])) = map (\<lambda>t. \<lparr>priorityRangeBegin = fst (rg t), priorityRangeEnd = snd (rg t), groupIdx = fst ((gs @ [x]) ! t)\<rparr>) [0..<length (gs @ [x])]"
  proof -
    have z: "threadData (s (gs @ [x])) = threadData (s gs) @ [\<lparr>priorityRangeBegin = fst (rg ?N), priorityRangeEnd = snd (rg ?N), groupIdx = g'\<rparr>]"
      by (simp add: closed)
    have f: "fst x = g'" by (simp add: x)
    show ?thesis unfolding z snoc.IH(4) using f by (simp add: nth_append)
  qed
  show "groupSizes (s (gs @ [x])) = map snd (gs @ [x])"
  proof -
    have z: "groupSizes (s (gs @ [x])) = groupSizes (s gs) @ [k]" by (simp add: closed)
    have f: "snd x = k" by (simp add: x)
    show ?thesis unfolding z snoc.IH(5) using f by simp
  qed
qed

lemma setup_threads_flat: "setup_threads n rg ks = assign_flat n rg (flat 0 ks) (start_setup ks)"
  by (simp add: setup_threads_def start_setup_def assign_groups_flat)


section \<open>The waker rows\<close>

lemma fold_rows:
  assumes "distinct tids" and "\<forall>l < m. slice_matrix R (length tids) l = Some (row l)" and "m \<le> length tids"
  shows "\<exists>rows'. fold (include_row tids R) [0..<m] (Some rows) = Some rows' \<and>
      (\<forall>l < m. rows' (tids ! l) = map ((!) tids) (row l)) \<and> (\<forall>t. t \<notin> set (take m tids) \<longrightarrow> rows' t = rows t)"
  using assms(2,3)
proof (induction m)
  case 0
  then show ?case by simp
next
  case (Suc m)
  then obtain rows' where r: "fold (include_row tids R) [0..<m] (Some rows) = Some rows'"
      "\<forall>l < m. rows' (tids ! l) = map ((!) tids) (row l)" "\<forall>t. t \<notin> set (take m tids) \<longrightarrow> rows' t = rows t" by auto
  have n: "tids ! l \<noteq> tids ! m" if "l < m" for l using assms(1) Suc.prems(2) that by (simp add: nth_eq_iff_index_eq)
  define rows2 where "rows2 = rows'(tids ! m := map ((!) tids) (row m))"
  have "fold (include_row tids R) [0..<Suc m] (Some rows) = Some rows2"
    using r(1) Suc.prems(1) by (simp add: include_row_def rows2_def)
  moreover have "\<forall>l < Suc m. rows2 (tids ! l) = map ((!) tids) (row l)"
    using r(2) n by (simp add: rows2_def less_Suc_eq)
  moreover have "\<forall>t. t \<notin> set (take (Suc m) tids) \<longrightarrow> rows2 t = rows t"
    using r(3) Suc.prems(2) by (simp add: rows2_def take_Suc_conv_app_nth)
  ultimately show ?case by blast
qed

text \<open>The second step leaves the rows of the first alone and gives each other thread one of them.\<close>

lemma copy_excluded_rows:
  assumes "tids \<noteq> []" and "\<forall>t \<in> set tids. hd (rows t) = t \<and> t < ALL_ONES" and "\<forall>t. t \<notin> set tids \<longrightarrow> hd (rows t) = ALL_ONES"
  shows "let (rows', src) = fold (copy_excluded tids) [0..<m] (rows, 0) in
    src < length tids \<and> (\<forall>t \<in> set tids. rows' t = rows t) \<and> (\<forall>t < m. t \<notin> set tids \<longrightarrow> (\<exists>u \<in> set tids. rows' t = rows u)) \<and>
    (\<forall>t \<ge> m. rows' t = rows t)"
proof (induction m)
  case 0
  then show ?case using assms(1) by simp
next
  case (Suc m)
  obtain rows' src where r: "fold (copy_excluded tids) [0..<m] (rows, 0) = (rows', src)" by fastforce
  have i: "src < length tids" "\<forall>t \<in> set tids. rows' t = rows t" "\<forall>t < m. t \<notin> set tids \<longrightarrow> (\<exists>u \<in> set tids. rows' t = rows u)"
    "\<forall>t \<ge> m. rows' t = rows t" using Suc.IH by (simp_all add: r)
  have u: "tids ! src \<in> set tids" "rows' (tids ! src) = rows (tids ! src)" using i(1,2) by simp_all
  have step: "fold (copy_excluded tids) [0..<Suc m] (rows, 0) = copy_excluded tids m (rows', src)" by (simp add: r)
  show ?case
  proof (cases "m \<in> set tids")
    case True
    then have "hd (rows' m) \<noteq> ALL_ONES" using i(2) assms(2) by force
    then show ?thesis unfolding step using i True by (auto simp: copy_excluded_def less_Suc_eq)
  next
    case False
    then have "hd (rows' m) = ALL_ONES" using i(4) assms(3) by simp
    then show ?thesis unfolding step using i u False by (auto simp: copy_excluded_def Let_def less_Suc_eq)
  qed
qed

lemma make_waker_matrix_rows:
  assumes M: "steal_order M (length tids)" and "distinct tids" and "tids \<noteq> []" and "\<forall>t \<in> set tids. t < threads" and "threads \<le> ALL_ONES"
  shows "\<exists>W. make_waker_matrix threads tids M = Some W \<and>
    (\<forall>t < threads. distinct (W t) \<and> set (W t) = set tids \<and> (t \<in> set tids \<longrightarrow> hd (W t) = t))"
proof -
  let ?N = "length tids"
  obtain R where R: "invert_matrix M ?N = Some R" "\<And>r. r < ?N \<Longrightarrow> slice_matrix R ?N r = Some (matrix_row R ?N r)"
    "\<And>r. r < ?N \<Longrightarrow> mset (matrix_row R ?N r) = mset [0..<?N]" "\<And>r. r < ?N \<Longrightarrow> hd (matrix_row R ?N r) = r"
    using invert_matrix_rows [OF M] by blast
  define row where "row = (\<lambda>l. map ((!) tids) (matrix_row R ?N l))"
  obtain rows where rows: "included_rows tids R (\<lambda>_. replicate ?N ALL_ONES) = Some rows"
      "\<And>l. l < ?N \<Longrightarrow> rows (tids ! l) = row l" "\<And>t. t \<notin> set tids \<Longrightarrow> rows t = replicate ?N ALL_ONES"
    using fold_rows [OF assms(2), of ?N R "\<lambda>l. matrix_row R ?N l" "\<lambda>_. replicate ?N ALL_ONES"] R(2)
    by (auto simp: included_rows_def row_def)
  have row: "distinct (row l)" "set (row l) = set tids" "hd (row l) = tids ! l" if l: "l < ?N" for l
  proof -
    have d: "distinct (matrix_row R ?N l)" "set (matrix_row R ?N l) = {0..<?N}"
      using mset_eq_upt_distinct [OF R(3) [OF l]] mset_eq_upt_set [OF R(3) [OF l]] by simp_all
    show "distinct (row l)" unfolding row_def distinct_map using d inj_on_nth [OF assms(2)] by simp
    show "set (row l) = set tids" using d(2) nth_image [of ?N tids] by (simp add: row_def)
    have "matrix_row R ?N l \<noteq> []" using d(2) l by auto
    then show "hd (row l) = tids ! l" using R(4) [OF l] by (simp add: row_def hd_map)
  qed
  have inc: "distinct (rows t) \<and> set (rows t) = set tids \<and> hd (rows t) = t" if "t \<in> set tids" for t
    
  proof -
    obtain l where "l < ?N" "tids ! l = t" using \<open>t \<in> set tids\<close> by (metis in_set_conv_nth)
    then show ?thesis using row [of l] rows(2) [of l] by simp
  qed
  obtain W src where W: "fold (copy_excluded tids) [0..<threads] (rows, 0) = (W, src)" by fastforce
  have "let (rows', src) = fold (copy_excluded tids) [0..<threads] (rows, 0) in
    src < length tids \<and> (\<forall>t \<in> set tids. rows' t = rows t) \<and> (\<forall>t < threads. t \<notin> set tids \<longrightarrow> (\<exists>u \<in> set tids. rows' t = rows u)) \<and>
    (\<forall>t \<ge> threads. rows' t = rows t)"
    by (rule copy_excluded_rows [OF assms(3)]) (use inc rows(3) assms(3-5) in \<open>auto simp: hd_replicate\<close>)
  then have "\<forall>t \<in> set tids. W t = rows t" "\<forall>t < threads. t \<notin> set tids \<longrightarrow> (\<exists>u \<in> set tids. W t = rows u)"
    by (simp_all add: W)
  then have "\<forall>t < threads. distinct (W t) \<and> set (W t) = set tids \<and> (t \<in> set tids \<longrightarrow> hd (W t) = t)"
    using inc by metis
  moreover have "make_waker_matrix threads tids M = Some W"
    using R(1) rows(1) W by (simp add: make_waker_matrix_def)
  ultimately show ?thesis by blast
qed


section \<open>The layout is the one the workers rely on\<close>

lemma priority_range_step:
  assumes "\<forall>((b, e), meets) \<in> set ps. b < e \<and> e \<le> n"
  shows "(snd r \<le> n \<longrightarrow> snd (thread_range ps r) \<le> n) \<and> fst (thread_range ps r) \<le> fst r \<and> snd r \<le> snd (thread_range ps r) \<and>
    (\<forall>b e. ((b, e), True) \<in> set ps \<longrightarrow> fst (thread_range ps r) \<le> b \<and> e \<le> snd (thread_range ps r))"
  using assms
proof (induction ps arbitrary: r)
  case (Cons x ps)
  obtain b' e' m where x: "x = ((b', e'), m)" by (metis surj_pair)
  obtain rb re where r: "r = (rb, re)" by (cases r)
  have i: "\<forall>((b, e), meets) \<in> set ps. b < e \<and> e \<le> n" "b' < e'" "e' \<le> n" using Cons.prems x by auto
  let ?r = "if m then (if b' < rb then b' else rb, if e' > re then e' else re) else (rb, re)"
  have t: "thread_range (x # ps) r = thread_range ps ?r" by (simp add: x r)
  have h: "(snd ?r \<le> n \<longrightarrow> snd (thread_range ps ?r) \<le> n) \<and> fst (thread_range ps ?r) \<le> fst ?r \<and> snd ?r \<le> snd (thread_range ps ?r) \<and>
    (\<forall>b e. ((b, e), True) \<in> set ps \<longrightarrow> fst (thread_range ps ?r) \<le> b \<and> e \<le> snd (thread_range ps ?r))"
    by (rule Cons.IH [OF i(1)])
  show ?case unfolding t using h i(2,3) by (auto simp: x r split: if_splits)
qed simp

text \<open>A thread that meets a partition gets a range with at least its priorities and none beyond \<open>PRIORITY_COUNT\<close>.\<close>

lemma priority_range_ok:
  assumes "length meets = length ranges" and "\<forall>(b, e) \<in> set ranges. b < e \<and> b < n" and "i < length ranges" and "meets ! i"
  shows "fst (priority_range n ranges meets) \<le> fst (ranges ! i)"
    and "min (snd (ranges ! i)) n \<le> snd (priority_range n ranges meets)"
    and "fst (priority_range n ranges meets) < snd (priority_range n ranges meets)" and "snd (priority_range n ranges meets) \<le> n"
proof -
  let ?ps = "zip (map (cut_range n) ranges) meets"
  have ok: "\<forall>((b, e), meets) \<in> set ?ps. b < e \<and> e \<le> n"
  proof clarify
    fix b e m assume "((b, e), m) \<in> set ?ps"
    then have "(b, e) \<in> cut_range n ` set ranges" using set_zip_leftD by fastforce
    then show "b < e \<and> e \<le> n" using assms(2) by (fastforce simp: cut_range_def split: if_splits)
  qed
  have m: "(cut_range n (ranges ! i), True) \<in> set ?ps"
    using assms(1,3,4) by (force simp: set_zip)
  obtain b e where be: "cut_range n (ranges ! i) = (b, e)" by fastforce
  note p = priority_range_step [OF ok, of "(ALL_ONES, 0)"] m [unfolded be]
  have b: "b = fst (ranges ! i)" "e = min (snd (ranges ! i)) n" using be by (auto simp: cut_range_def split: if_splits)
  have "b < e" using ok m be by auto
  moreover have "fst (thread_range ?ps (ALL_ONES, 0)) \<le> b" "e \<le> snd (thread_range ?ps (ALL_ONES, 0))"
    "snd (thread_range ?ps (ALL_ONES, 0)) \<le> n"
    using p by auto
  ultimately show "fst (priority_range n ranges meets) \<le> fst (ranges ! i)"
    "min (snd (ranges ! i)) n \<le> snd (priority_range n ranges meets)"
    "fst (priority_range n ranges meets) < snd (priority_range n ranges meets)" "snd (priority_range n ranges meets) \<le> n"
    unfolding b priority_range_def by linarith+
qed

lemma filter_upt_slot:
  assumes "t < N" and "p t"
  shows "length (filter p [0..<t]) < length (filter p [0..<N]) \<and> filter p [0..<N] ! length (filter p [0..<t]) = t"
proof -
  have "filter p [0..<N] = filter p [0..<t] @ t # filter p [Suc t..<N]"
    using assms upt_split [of 0 t N] by (simp add: upt_conv_Cons)
  then show ?thesis by (simp add: nth_append)
qed

definition init_ok :: "nat \<Rightarrow> (nat \<Rightarrow> nat \<times> nat) \<Rightarrow> nat list \<Rightarrow> bool" where
  "init_ok n rg ks \<longleftrightarrow> 0 < n \<and> 0 < sum_list ks \<and> sum_list ks < ALL_ONES \<and> length ks < ALL_ONES \<and>
     (\<forall>t < sum_list ks. fst (rg t) < snd (rg t) \<and> snd (rg t) \<le> n) \<and> (\<forall>P < n. \<exists>t < sum_list ks. takes_part rg P t)"

lemma setup_facts:
  fixes n :: nat and ks :: "nat list" and rg :: "nat \<Rightarrow> nat \<times> nat"
  defines "s \<equiv> setup_threads n rg ks"
  shows "P < n \<Longrightarrow> tidsByPrio s P = filter (takes_part rg P) [0..<sum_list ks]"
    and "t < sum_list ks \<Longrightarrow> P < n \<Longrightarrow> takes_part rg P t \<Longrightarrow>
      slotsByPrio s t P < length (tidsByPrio s P) \<and> tidsByPrio s P ! slotsByPrio s t P = t"
    and "length (threadData s) = sum_list ks" and "t < sum_list ks \<Longrightarrow> priorityRangeBegin (threadData s ! t) = fst (rg t)"
    and "t < sum_list ks \<Longrightarrow> priorityRangeEnd (threadData s ! t) = snd (rg t)"
    and "sorted (map groupIdx (threadData s))" and "\<forall>d \<in> set (threadData s). groupIdx d < length ks"
    and "t < sum_list ks \<Longrightarrow> 0 < groupSizes s ! t"
proof -
  note c = assign_flat_closed [where n = n and rg = rg and gs = "flat 0 ks" and ks = ks, folded setup_threads_flat, folded s_def]
  have g: "sorted (map fst (flat 0 ks))" "\<And>t. t < sum_list ks \<Longrightarrow> fst (flat 0 ks ! t) < length ks \<and> 0 < snd (flat 0 ks ! t)"
    using flat_groups [of 0 ks] nth_mem [of _ "flat 0 ks"] by auto
  show "P < n \<Longrightarrow> tidsByPrio s P = filter (takes_part rg P) [0..<sum_list ks]" using c(1) by simp
  then show "t < sum_list ks \<Longrightarrow> P < n \<Longrightarrow> takes_part rg P t \<Longrightarrow>
      slotsByPrio s t P < length (tidsByPrio s P) \<and> tidsByPrio s P ! slotsByPrio s t P = t"
    using c(2) [of t P] filter_upt_slot [of t "sum_list ks" "takes_part rg P"] by simp
  have d: "threadData s = map (\<lambda>t. \<lparr>priorityRangeBegin = fst (rg t), priorityRangeEnd = snd (rg t), groupIdx = fst (flat 0 ks ! t)\<rparr>) [0..<sum_list ks]"
    using c(4) by simp
  then show "length (threadData s) = sum_list ks" "t < sum_list ks \<Longrightarrow> priorityRangeBegin (threadData s ! t) = fst (rg t)"
    "t < sum_list ks \<Longrightarrow> priorityRangeEnd (threadData s ! t) = snd (rg t)" "\<forall>d \<in> set (threadData s). groupIdx d < length ks"
    using g(2) by auto
  have "map groupIdx (threadData s) = map fst (flat 0 ks)"
    unfolding d by (rule nth_equalityI) simp_all
  then show "sorted (map groupIdx (threadData s))" using g(1) by simp
  have "groupSizes s = map snd (flat 0 ks)"
    using c(5) by simp
  then show "t < sum_list ks \<Longrightarrow> 0 < groupSizes s ! t" using g(2) by simp
qed

lemma init_layout_ok_parts:
  fixes n k :: nat and ks :: "nat list" and rg :: "nat \<Rightarrow> nat \<times> nat" and M :: "nat \<Rightarrow> nat list" and careless :: bool
  defines "s \<equiv> setup_threads n rg ks"
  assumes ok: "init_ok n rg ks" and M: "\<forall>P < n. steal_order (M P) (length (tidsByPrio s P))"
  defines "W \<equiv> \<lambda>P. make_waker_matrix (sum_list ks) (tidsByPrio s P) (M P)"
  defines "R \<equiv> make_layout n s M (\<lambda>P. the (W P)) k careless"
  shows "P < n \<Longrightarrow> W P \<noteq> None" and "R = None \<longleftrightarrow> \<not> last_range_last (threadData s)" and "R = Some L \<Longrightarrow> layout_ok L"
    and "R = Some L \<Longrightarrow> handles L t P \<Longrightarrow> distinct (steal_list L P t) \<and> set (steal_list L P t) = allowed_threads L P - {t}"
proof -
  note f = setup_facts [where n = n and rg = rg and ks = ks, folded s_def]
  have o: "0 < n" "0 < sum_list ks" "sum_list ks < ALL_ONES" "length ks < ALL_ONES"
    "\<And>t. t < sum_list ks \<Longrightarrow> fst (rg t) < snd (rg t) \<and> snd (rg t) \<le> n" "\<And>P. P < n \<Longrightarrow> \<exists>t < sum_list ks. takes_part rg P t"
    using ok unfolding init_ok_def by blast+
  have tids: "distinct (tidsByPrio s P)" "tidsByPrio s P \<noteq> []" "set (tidsByPrio s P) = {t. t < sum_list ks \<and> takes_part rg P t}"
    if "P < n" for P
    using f(1) [OF that] o(6) [OF that] by (auto simp: filter_empty_conv)
  have W: "\<exists>w. W P = Some w \<and> (\<forall>t < sum_list ks. distinct (w t) \<and> set (w t) = set (tidsByPrio s P) \<and>
      (t \<in> set (tidsByPrio s P) \<longrightarrow> hd (w t) = t))" if P: "P < n" for P
    unfolding W_def by (rule make_waker_matrix_rows) (use M P tids [OF P] o(3) in auto)
  then show "P < n \<Longrightarrow> W P \<noteq> None" for P by fastforce
  have groups: "\<forall>d \<in> set (threadData s). groupIdx d < NO_GROUP" using f(7) o(4) by (auto simp: NO_GROUP_def ALL_ONES_def intro: less_trans)
  note part = inbox_indexes_partition [OF f(6) groups, unfolded Let_def]
  have "threadData s \<noteq> []" using f(3) o(2) by (metis less_irrefl list.size(3))
  moreover from this have "get_thread_inbox_indexes (threadData s) \<noteq> []" using part by (metis length_0_conv)
  ultimately show "R = None \<longleftrightarrow> \<not> last_range_last (threadData s)"
    using inboxes_enough [OF f(6) groups] by (simp add: R_def make_layout_def Let_def)
  assume R: "R = Some L"
  have L: "L = layout_of n s M (\<lambda>P. the (W P)) (get_thread_inbox_indexes (threadData s)) k careless"
    using R by (simp add: R_def make_layout_def Let_def split: if_split_asm)
  have sel: "thread_count L = sum_list ks" "PRIORITY_COUNT L = n" "\<And>P. waker_row L P = the (W P)"
    "\<And>t. t < sum_list ks \<Longrightarrow> range_begin L t = fst (rg t)" "\<And>t. t < sum_list ks \<Longrightarrow> range_end L t = snd (rg t)"
    "\<And>t. inbox_of L t = get_thread_inbox_indexes (threadData s) ! t" "\<And>t. group_size L t = groupSizes s ! t"
    using f(3-5) by (simp_all add: L layout_of_def)
  have h: "handles L t P \<longleftrightarrow> t < sum_list ks \<and> takes_part rg P t" for t P
    using sel(1,4,5) by (auto simp: handles_def takes_part_def)
  then have allowed: "allowed_threads L P = set (tidsByPrio s P)" if "P < n" for P
    using tids(3) [OF that] by (auto simp: allowed_threads_def sel)
  have inbox: "range_begin L t = range_begin L u \<and> range_end L t = range_end L u"
    if tu: "t < sum_list ks" "u < sum_list ks" "inbox_of L t = inbox_of L u" for t u
  proof -
    have "key_of (threadData s ! t) = key_of (threadData s ! u)"
      using part tu f(3) by (simp add: sel(6))
    then show ?thesis using tu f(4,5) sel(4,5) by (simp add: key_of_def)
  qed
  have wak: "waker_row L P t \<noteq> [] \<and> set (waker_row L P t) \<subseteq> allowed_threads L P \<and> (handles L t P \<longrightarrow> hd (waker_row L P t) = t)"
    if P: "P < n" and t: "t < sum_list ks" for P t
  proof -
    obtain w where Ws: "W P = Some w" and ww: "\<forall>t < sum_list ks. distinct (w t) \<and> set (w t) = set (tidsByPrio s P) \<and>
      (t \<in> set (tidsByPrio s P) \<longrightarrow> hd (w t) = t)" using W [OF P] by (elim exE conjE)
    have w: "waker_row L P t = w t" unfolding sel(3) Ws by simp
    have w': "set (w t) = set (tidsByPrio s P)" "t \<in> set (tidsByPrio s P) \<longrightarrow> hd (w t) = t" using ww t by blast+
    have "w t \<noteq> []" using tids(2) [OF P] w'(1) by force
    moreover have "handles L t P \<longrightarrow> t \<in> set (tidsByPrio s P)" unfolding h tids(3) [OF P] by simp
    ultimately show ?thesis unfolding w using w' allowed [OF P] by blast
  qed
  show "layout_ok L"
    unfolding layout_ok_def sel(1,2)
  proof (intro conjI allI impI)
    show "range_begin L t < range_end L t" "range_end L t \<le> n" if "t < sum_list ks" for t
      using o(5) [OF that] sel(4,5) [OF that] by simp_all
    show "hd (waker_row L P t) = t" if "P < n" "t < sum_list ks" "handles L t P" for P t
      using wak [OF that(1,2)] that(3) by blast
    show "waker_row L P t \<noteq> []" "set (waker_row L P t) \<subseteq> allowed_threads L P" if "P < n" "t < sum_list ks" for P t
      using wak [OF that] by blast+
    show "range_begin L t = range_begin L u" "range_end L t = range_end L u"
      if "t < sum_list ks" "u < sum_list ks" "inbox_of L t = inbox_of L u" for t u
      using inbox [OF that] by blast+
    show "0 < group_size L t" if "t < sum_list ks" for t
      using f(8) [OF that] sel(7) by metis
  qed (rule o(1,2))+
  show "distinct (steal_list L P t) \<and> set (steal_list L P t) = allowed_threads L P - {t}" if ht: "handles L t P"
  proof -
    have t: "t < sum_list ks" "takes_part rg P t" using ht h by simp_all
    have P: "P < n" using o(5) [OF t(1)] t(2) unfolding takes_part_def by linarith
    let ?N = "length (tidsByPrio s P)" and ?l = "slotsByPrio s t P"
    have l: "?l < ?N" "tidsByPrio s P ! ?l = t" using f(2) [OF t(1) P t(2)] by simp_all
    have m: "mset (matrix_row (M P) ?N ?l) = mset [0..<?N]" "hd (matrix_row (M P) ?N ?l) = ?l"
      using M P l(1) by (auto simp: steal_order_def)
    have "matrix_row (M P) ?N ?l \<noteq> []" using m(1) l(1) by auto
    then obtain xs where xs: "matrix_row (M P) ?N ?l = ?l # xs" using m(2) by (metis list.collapse)
    have d: "distinct (?l # xs)" "set (?l # xs) = {0..<?N}"
      using mset_eq_upt_distinct [OF m(1)] mset_eq_upt_set [OF m(1)] xs by simp_all
    have inj: "inj_on ((!) (tidsByPrio s P)) {0..<?N}" using inj_on_nth [OF tids(1) [OF P]] by simp
    have st: "steal_list L P t = map ((!) (tidsByPrio s P)) xs" by (simp add: L layout_of_def xs)
    have "distinct (steal_list L P t)" unfolding st distinct_map using d inj by (auto intro: inj_on_subset)
    moreover have "set (steal_list L P t) = set (tidsByPrio s P) - {t}"
    proof -
      have "set xs = {0..<?N} - {?l}" using d by auto
      then have "set (steal_list L P t) = (!) (tidsByPrio s P) ` {0..<?N} - (!) (tidsByPrio s P) ` {?l}"
        using inj l(1) by (simp add: st inj_on_image_set_diff)
      then show ?thesis using nth_image [of ?N "tidsByPrio s P"] l(2) by simp
    qed
    ultimately show ?thesis using allowed [OF P] by simp
  qed
qed

text \<open>
  C28: For any groups and partitions that give each thread a range and each priority a thread (fewer than \<open>2 ^ 64 - 1\<close> threads
  and groups), and any steal matrices whose rows are permutations that start with the own thread: \<open>init\<close> builds every waker
  matrix without reading out of bounds.  It gives every thread an inbox inside the array exactly when no range of
  priorities comes up in the last group for the first time after a thread that has the range of the last thread, and
  otherwise gives some thread an inbox beyond the array.  In the first case its result is a layout on which the workers
  can rely: the waker rows of a priority hold its threads and start with the own thread, also the rows copied for the
  other threads; threads that share an inbox have the same priorities; and the list a thread steals from holds the other
  threads of the priority, each once.
\<close>

theorem init_layout_ok:
  fixes n k :: nat and ks :: "nat list" and rg :: "nat \<Rightarrow> nat \<times> nat" and M :: "nat \<Rightarrow> nat list" and careless :: bool
  defines "s \<equiv> setup_threads n rg ks"
  assumes "init_ok n rg ks" and "\<forall>P < n. steal_order (M P) (length (tidsByPrio s P))"
  defines "W \<equiv> \<lambda>P. make_waker_matrix (sum_list ks) (tidsByPrio s P) (M P)"
  defines "R \<equiv> make_layout n s M (\<lambda>P. the (W P)) k careless"
  shows "(\<forall>P < n. W P \<noteq> None) \<and> (R = None \<longleftrightarrow> \<not> last_range_last (threadData s)) \<and>
    (\<forall>L. R = Some L \<longrightarrow> layout_ok L \<and>
      (\<forall>t P. handles L t P \<longrightarrow> distinct (steal_list L P t) \<and> set (steal_list L P t) = allowed_threads L P - {t}))"
  unfolding W_def R_def s_def
  using init_layout_ok_parts(1) [OF assms(2) assms(3) [unfolded s_def]]
    init_layout_ok_parts(2-4) [OF assms(2) assms(3) [unfolded s_def], where k = k and careless = careless] by blast

text \<open>Two groups of two threads and one thread, two priorities: thread 1 is excluded from priority 1, thread 2 from priority 0.\<close>

definition sample_rg :: "nat \<Rightarrow> nat \<times> nat" where
  "sample_rg t = (if t = 0 then (0, 2) else if t = 1 then (0, 1) else (1, 2))"

definition sample_steal :: "nat list" where
  "sample_steal = [0, 1, 1, 0]"

lemma sample_init_ok: "init_ok 2 sample_rg [2, 1]"
proof -
  have "\<exists>t < 3. takes_part sample_rg P t" if "P < 2" for P
    by (rule exI [of _ 0]) (use that in \<open>simp add: takes_part_def sample_rg_def\<close>)
  then show ?thesis by (simp add: init_ok_def sample_rg_def ALL_ONES_def)
qed

lemma sample_tids:
  "tidsByPrio (setup_threads 2 sample_rg [2, 1]) 0 = [0, 1]" "tidsByPrio (setup_threads 2 sample_rg [2, 1]) 1 = [0, 2]"
  using setup_facts(1) [of 0 2 sample_rg "[2, 1]"] setup_facts(1) [of 1 2 sample_rg "[2, 1]"]
  by (simp_all add: takes_part_def sample_rg_def upt_rec)

lemma sample_steals: "\<forall>P < 2. steal_order sample_steal (length (tidsByPrio (setup_threads 2 sample_rg [2, 1]) P))"
proof -
  have "steal_order sample_steal (length [a, b])" for a b :: nat
    by (auto simp: steal_order_def sample_steal_def matrix_row_def less_Suc_eq upt_rec)
  then have "steal_order sample_steal (length [0, 1 :: nat])" "steal_order sample_steal (length [0, 2 :: nat])" by blast+
  then show ?thesis using sample_tids by (metis less_2_cases One_nat_def)
qed

text \<open>Three threads of one group, of which the second has another range than the first and the last.\<close>

definition alternating_rg :: "nat \<Rightarrow> nat \<times> nat" where
  "alternating_rg t = (if t = 1 then (1, 2) else (0, 1))"

definition alternating_steal :: "nat \<Rightarrow> nat list" where
  "alternating_steal P = (if P = 0 then sample_steal else [0])"

lemma alternating_init_ok: "init_ok 2 alternating_rg [3]"
proof -
  have "\<exists>t < 3. takes_part alternating_rg P t" if "P < 2" for P
    by (rule exI [of _ P]) (use that in \<open>auto simp: takes_part_def alternating_rg_def less_2_cases_iff\<close>)
  then show ?thesis by (simp add: init_ok_def alternating_rg_def ALL_ONES_def)
qed

lemma alternating_tids:
  "tidsByPrio (setup_threads 2 alternating_rg [3]) 0 = [0, 2]" "tidsByPrio (setup_threads 2 alternating_rg [3]) 1 = [1]"
  using setup_facts(1) [of 0 2 alternating_rg "[3]"] setup_facts(1) [of 1 2 alternating_rg "[3]"]
  by (simp_all add: takes_part_def alternating_rg_def upt_rec)

lemma alternating_steals:
  "\<forall>P < 2. steal_order (alternating_steal P) (length (tidsByPrio (setup_threads 2 alternating_rg [3]) P))"
proof -
  have "steal_order sample_steal (length [0, 2 :: nat])" "steal_order [0] (length [1 :: nat])"
    by (auto simp: steal_order_def sample_steal_def matrix_row_def less_Suc_eq upt_rec)
  then show ?thesis using alternating_tids by (auto simp: alternating_steal_def less_2_cases_iff)
qed

lemma sample_threads:
  "threadData (setup_threads 2 sample_rg [2, 1]) = [\<lparr>priorityRangeBegin = 0, priorityRangeEnd = 2, groupIdx = 0\<rparr>,
     \<lparr>priorityRangeBegin = 0, priorityRangeEnd = 1, groupIdx = 0\<rparr>, \<lparr>priorityRangeBegin = 1, priorityRangeEnd = 2, groupIdx = 1\<rparr>]"
  "threadData (setup_threads 2 alternating_rg [3]) = [\<lparr>priorityRangeBegin = 0, priorityRangeEnd = 1, groupIdx = 0\<rparr>,
     \<lparr>priorityRangeBegin = 1, priorityRangeEnd = 2, groupIdx = 0\<rparr>, \<lparr>priorityRangeBegin = 0, priorityRangeEnd = 1, groupIdx = 0\<rparr>]"
  by (simp_all add: setup_threads_flat assign_flat_closed(4) sample_rg_def alternating_rg_def upt_rec numeral_3_eq_3 numeral_2_eq_2)

lemma some_result: "A \<and> (r = None \<longleftrightarrow> \<not> c) \<and> (\<forall>x. r = Some x \<longrightarrow> P x \<and> Q x) \<Longrightarrow> c \<Longrightarrow> \<exists>x. r = Some x \<and> P x"
  by (cases r) simp_all

theorem init_layout_ok_witness:
  "(\<exists>L. make_layout 2 (setup_threads 2 sample_rg [2, 1]) (\<lambda>_. sample_steal)
      (\<lambda>P. the (make_waker_matrix (sum_list [2, 1]) (tidsByPrio (setup_threads 2 sample_rg [2, 1]) P) sample_steal)) 0 False = Some L \<and>
      layout_ok L) \<and>
    make_layout 2 (setup_threads 2 alternating_rg [3]) alternating_steal
      (\<lambda>P. the (make_waker_matrix (sum_list [3]) (tidsByPrio (setup_threads 2 alternating_rg [3]) P) (alternating_steal P))) 0 False = None"
proof -
  have "last_range_last (threadData (setup_threads 2 sample_rg [2, 1]))"
    unfolding sample_threads last_range_last_def by (simp add: key_of_def less_Suc_eq)
  note a = some_result [OF init_layout_ok [OF sample_init_ok sample_steals, where k = 0 and careless = False] this]
  have "\<not> last_range_last (threadData (setup_threads 2 alternating_rg [3]))"
  proof
    assume "last_range_last (threadData (setup_threads 2 alternating_rg [3]))"
    from this [unfolded sample_threads last_range_last_def, rule_format, of 1 0] show False by (simp add: key_of_def)
  qed
  note b = init_layout_ok [OF alternating_init_ok alternating_steals, where k = 0 and careless = False,
    THEN conjunct2, THEN conjunct1, THEN iffD2, OF this]
  show ?thesis by (rule conjI [OF a b])
qed

end
