(* ===== verification/StealOrder.thy ===== *)
theory StealOrder
  imports CpuMachine
begin

text \<open>
  The array of pointers to deques that each thread of \<open>ex_cpu\<close> keeps in thread-local storage
  (\<open>init_queue_iteration_order\<close> of \<open>detail/ex_cpu.ipp\<close>), and the searches that walk it: \<open>try_steal_in_order\<close> and
  \<open>steal_empty\<close> of \<open>detail/qu_work_stealing.hpp\<close>, one pass of \<open>try_run_some\<close>.  An index stands for a pointer into the
  array, a cell is unset, null or points to a deque, named by its priority and its place among those of the priority.
\<close>

section \<open>The array\<close>

datatype cell = Unset | Null | Deque nat nat

text \<open>The offsets of the priorities: one more cell than threads each.\<close>

fun tls_offset :: "nat list \<Rightarrow> nat \<Rightarrow> nat" where
  "tls_offset [] P = 0"
| "tls_offset (k # ks) 0 = 0"
| "tls_offset (k # ks) (Suc P) = k + 1 + tls_offset ks P"

definition put_cell :: "nat \<Rightarrow> cell \<Rightarrow> cell list option \<Rightarrow> cell list option" where
  "put_cell i v = (\<lambda>a. case a of None \<Rightarrow> None | Some xs \<Rightarrow> if i < length xs then Some (xs[i := v]) else None)"

definition order_of_prio :: "nat list \<Rightarrow> nat list list \<Rightarrow> nat \<Rightarrow> cell list option \<Rightarrow> cell list option" where
  "order_of_prio counts Forward prio producers =
    (let offset = tls_offset counts prio; slotCount = counts ! prio + 1; thisMatrix = Forward ! prio
     in if thisMatrix = [] then fold (\<lambda>i. put_cell (offset + i) Null) [0..<slotCount] producers
        else fold (\<lambda>i. put_cell (offset + 1 + i) (Deque prio (thisMatrix ! i))) [1..<length thisMatrix]
               (put_cell (offset + 1) Null (put_cell offset (Deque prio (hd thisMatrix)) producers)))"

definition init_queue_iteration_order :: "nat list \<Rightarrow> nat list list \<Rightarrow> cell list option" where
  "init_queue_iteration_order counts Forward =
    fold (order_of_prio counts Forward) [0..<length counts] (Some (replicate (sum_list (map (\<lambda>k. k + 1) counts)) Unset))"

section \<open>The searches\<close>

text \<open>Dereference: the thread whose deque it is, and the priority.  \<open>tids\<close> lists the threads of each priority.\<close>

definition deref :: "(nat \<Rightarrow> nat list) \<Rightarrow> nat \<Rightarrow> cell list \<Rightarrow> (nat \<times> nat) option" where
  "deref tids i arr = (if i < length arr then
      (case arr ! i of Deque p k \<Rightarrow> if k < length (tids p) then Some (tids p ! k, p) else None | _ \<Rightarrow> None)
    else None)"

function steal_loop :: "(nat \<Rightarrow> nat list) \<Rightarrow> nat \<Rightarrow> nat \<Rightarrow> nat \<Rightarrow> cell list \<Rightarrow> cpu \<Rightarrow> (nat option \<times> nat \<times> cell list \<times> cpu) option" where
  "steal_loop tids cacheProd last_one producers arr s =
    (if producers = last_one then Some (None, producers, arr[cacheProd := Null], s)
     else case deref tids producers arr of None \<Rightarrow> None
       | Some (v, p) \<Rightarrow>
          (case deque_of s v p of x # xs \<Rightarrow> Some (Some x, producers, arr[cacheProd := arr ! producers], set_deque v p xs s)
           | [] \<Rightarrow> steal_loop tids cacheProd last_one (producers + 1) arr s))"
  by pat_completeness auto

termination by (relation "measure (\<lambda>(tids, c, e, i, arr, s). length arr - i)") (auto simp: deref_def split: if_splits)

definition try_steal_in_order :: "(nat \<Rightarrow> nat list) \<Rightarrow> nat \<Rightarrow> nat \<Rightarrow> cell list \<Rightarrow> cpu \<Rightarrow> (nat option \<times> nat \<times> cell list \<times> cpu) option" where
  "try_steal_in_order tids threadCount producers arr s =
    (if producers < length arr \<and> arr ! producers \<noteq> Unset
     then steal_loop tids producers (producers + threadCount) (if arr ! producers = Null then producers + 1 else producers) arr s
     else None)"

fun find_deque :: "(nat \<Rightarrow> nat list) \<Rightarrow> nat \<Rightarrow> nat list \<Rightarrow> cell list \<Rightarrow> cpu \<Rightarrow> (bool \<times> cell list) option" where
  "find_deque tids producers [] arr s = Some (True, arr)"
| "find_deque tids producers (d # ds) arr s =
    (case deref tids (producers + d) arr of None \<Rightarrow> None
     | Some (v, p) \<Rightarrow> if deque_of s v p \<noteq> [] then Some (False, arr[producers := arr ! (producers + d)])
         else find_deque tids producers ds arr s)"

definition steal_empty :: "(nat \<Rightarrow> nat list) \<Rightarrow> nat list \<Rightarrow> nat \<Rightarrow> cell list \<Rightarrow> cpu \<Rightarrow> (bool \<times> cell list) option" where
  "steal_empty tids counts prio arr s = find_deque tids (tls_offset counts prio + 1) [1..<counts ! prio] arr s"

definition pop_at :: "(nat \<Rightarrow> nat list) \<Rightarrow> nat \<Rightarrow> cell list \<Rightarrow> cpu \<Rightarrow> (nat option \<times> cpu) option" where
  "pop_at tids producers arr s =
    (case deref tids producers arr of None \<Rightarrow> None
     | Some (v, p) \<Rightarrow> Some (if deque_of s v p = [] then (None, s)
         else (Some (last (deque_of s v p)), set_deque v p (butlast (deque_of s v p)) s)))"

text \<open>One pass of \<open>try_run_some\<close> up to the item found, with its priority.\<close>

type_synonym pass = "((nat \<times> nat) option \<times> cell list \<times> cpu) option"

definition dequeue_or_steal :: "(nat \<Rightarrow> nat list) \<Rightarrow> nat list \<Rightarrow> nat \<Rightarrow> nat \<Rightarrow> cell list \<Rightarrow> cpu \<Rightarrow>
    (nat \<Rightarrow> cell list \<Rightarrow> cpu \<Rightarrow> pass) \<Rightarrow> pass" where
  "dequeue_or_steal tids counts prio producers arr s rest =
    (case ingest s prio of x # xs \<Rightarrow> Some (Some (x, prio), arr, ingest_taken prio xs s)
     | [] \<Rightarrow> (case try_steal_in_order tids (counts ! prio) producers arr s of None \<Rightarrow> None
         | Some (Some x, _, arr', s') \<Rightarrow> Some (Some (x, prio), arr', s')
         | Some (None, producers', arr', s') \<Rightarrow> rest producers' arr' s'))"

fun lower_priorities :: "(nat \<Rightarrow> nat list) \<Rightarrow> nat list \<Rightarrow> nat list \<Rightarrow> nat \<Rightarrow> cell list \<Rightarrow> cpu \<Rightarrow> pass" where
  "lower_priorities tids counts [] producers arr s = Some (None, arr, s)"
| "lower_priorities tids counts (prio # ps) producers arr s =
    (case pop_at tids producers arr s of None \<Rightarrow> None
     | Some (Some x, s') \<Rightarrow> Some (Some (x, prio), arr, s')
     | Some (None, s') \<Rightarrow> dequeue_or_steal tids counts prio (producers + 1) arr s' (lower_priorities tids counts ps))"

definition search :: "cpu_layout \<Rightarrow> (nat \<Rightarrow> nat list) \<Rightarrow> nat list \<Rightarrow> nat \<Rightarrow> cell list \<Rightarrow> cpu \<Rightarrow> pass" where
  "search L tids counts t arr s =
    (let b = range_begin L t; producers = tls_offset counts b
     in case pop_at tids producers arr s of None \<Rightarrow> None
     | Some (Some x, s') \<Rightarrow> Some (Some (x, b), arr, s')
     | Some (None, s') \<Rightarrow>
        (case inbox_q s' (inbox_of L t) of (x, p) # xs \<Rightarrow> Some (Some (x, p), arr, inbox_pulled (inbox_of L t) xs s')
         | [] \<Rightarrow> dequeue_or_steal tids counts b (producers + 1) arr s' (lower_priorities tids counts [b + 1..<range_end L t])))"

section \<open>The array stands for the steal order and the cache\<close>

definition points :: "(nat \<Rightarrow> nat list) \<Rightarrow> nat \<Rightarrow> cell \<Rightarrow> nat option \<Rightarrow> bool" where
  "points tids p c v = (case c of Unset \<Rightarrow> False | Null \<Rightarrow> v = None
     | Deque q i \<Rightarrow> q = p \<and> i < length (tids p) \<and> v = Some (tids p ! i))"

text \<open>Cells of one priority, from its offset on.\<close>

definition block_ok :: "cpu_layout \<Rightarrow> (nat \<Rightarrow> nat list) \<Rightarrow> nat \<Rightarrow> nat \<Rightarrow> nat option \<Rightarrow> cell list \<Rightarrow> nat \<Rightarrow> nat \<Rightarrow> bool" where
  "block_ok L tids t p c arr off n \<longleftrightarrow> 0 < n \<and> off + n + 1 \<le> length arr \<and> points tids p (arr ! off) (Some t) \<and>
     points tids p (arr ! (off + 1)) c \<and> length (steal_list L p t) + 1 = n \<and>
     (\<forall>i < length (steal_list L p t). points tids p (arr ! (off + 2 + i)) (Some (steal_list L p t ! i)))"

definition in_order :: "cpu_layout \<Rightarrow> (nat \<Rightarrow> nat list) \<Rightarrow> nat list \<Rightarrow> nat \<Rightarrow> (nat \<Rightarrow> nat option) \<Rightarrow> cell list \<Rightarrow> bool" where
  "in_order L tids counts t c arr \<longleftrightarrow> length counts = PRIORITY_COUNT L \<and> range_end L t \<le> PRIORITY_COUNT L \<and>
     (\<forall>p. handles L t p \<longrightarrow> block_ok L tids t p (c p) arr (tls_offset counts p) (counts ! p))"

lemma tls_offset_Suc: "P < length ks \<Longrightarrow> tls_offset ks (Suc P) = tls_offset ks P + ks ! P + 1"
proof (induction ks P rule: tls_offset.induct)
  case (2 k ks)
  then show ?case by (cases ks) auto
qed auto

lemma tls_offset_mono: "P < Q \<Longrightarrow> Q \<le> length ks \<Longrightarrow> tls_offset ks P + ks ! P + 1 \<le> tls_offset ks Q"
proof (induction Q)
  case (Suc Q)
  then show ?case using tls_offset_Suc [of Q ks] by (cases "P = Q") auto
qed simp

lemma tls_offset_total: "tls_offset ks (length ks) = sum_list (map (\<lambda>k. k + 1) ks)"
  by (induction ks) auto

text \<open>Different priorities do not share cells.\<close>

lemma blocks_apart:
  assumes "P < length ks" "Q < length ks" "P \<noteq> Q" "i \<le> ks ! P" "j \<le> ks ! Q"
  shows "tls_offset ks P + i \<noteq> tls_offset ks Q + j"
  using assms tls_offset_mono [of P Q ks] tls_offset_mono [of Q P ks] by (cases "P < Q") auto

lemma block_end: "P < length ks \<Longrightarrow> tls_offset ks P + ks ! P + 1 \<le> sum_list (map (\<lambda>k. k + 1) ks)"
  using tls_offset_mono [of P "length ks" ks] tls_offset_total [of ks] by simp


section \<open>The pass pass_follows the steps of the worker\<close>

definition with_cache :: "nat \<Rightarrow> (nat \<Rightarrow> nat option) \<Rightarrow> cpu \<Rightarrow> cpu" where
  "with_cache t c s = s\<lparr>cached := (cached s)(t := c)\<rparr>"

definition pass_end :: "nat \<Rightarrow> (nat \<times> nat) option \<Rightarrow> cpu \<Rightarrow> cpu" where
  "pass_end t r s = (case r of None \<Rightarrow> set_worker t (Hook False) s | Some (x, p) \<Rightarrow> found t x p s)"

definition pass_follows :: "cpu_layout \<Rightarrow> (nat \<Rightarrow> nat list) \<Rightarrow> nat list \<Rightarrow> nat \<Rightarrow> cpu \<Rightarrow> pass \<Rightarrow> bool" where
  "pass_follows L tids counts t m r \<longleftrightarrow> (\<exists>x arr s c. r = Some (x, arr, s) \<and> in_order L tids counts t c arr \<and>
     (worker_step L t)\<^sup>*\<^sup>* m (pass_end t x (with_cache t c s)))"

lemma pass_end_simps [simp]: "pass_end t None s = set_worker t (Hook False) s" "pass_end t (Some (x, p)) s = found t x p s"
  by (simp_all add: pass_end_def)

lemma with_cache_simps [simp]:
  "worker_at (set_worker t w s) t = w" "set_worker t w (set_worker t w' s) = set_worker t w s"
  "deque_of (set_worker t w s) = deque_of s" "ingest (set_worker t w s) = ingest s" "inbox_q (set_worker t w s) = inbox_q s"
  "cached (set_worker t w s) = cached s" "spin_flag (set_worker t w s) = spin_flag s"
  "deque_of (with_cache t c s) = deque_of s" "ingest (with_cache t c s) = ingest s" "inbox_q (with_cache t c s) = inbox_q s"
  "cached (with_cache t c s) t = c" "with_cache t (cached s t) s = s"
  "set_deque v p xs (set_worker t w s) = set_worker t w (set_deque v p xs s)"
  "set_deque v p xs (with_cache t c s) = with_cache t c (set_deque v p xs s)"
  "cache t p x (set_worker t w s) = set_worker t w (cache t p x s)"
  "cache t p x (with_cache t c s) = with_cache t (c(p := x)) s" "found t y p (set_worker t w s) = found t y p s"
  by (simp_all add: set_worker_def with_cache_def set_deque_def cache_def found_def)

lemma one_step: "worker_step L t m m' \<Longrightarrow> (worker_step L t)\<^sup>*\<^sup>* m m'"
  by (rule r_into_rtranclp)

lemma no_step: "(worker_step L t)\<^sup>*\<^sup>* m m"
  by (rule rtranclp.rtrancl_refl)

lemma step_run: "worker_step L t m m' \<Longrightarrow> (worker_step L t)\<^sup>*\<^sup>* m' m'' \<Longrightarrow> (worker_step L t)\<^sup>*\<^sup>* m m''"
  by (rule converse_rtranclp_into_rtranclp)

lemma run_step: "(worker_step L t)\<^sup>*\<^sup>* m m' \<Longrightarrow> worker_step L t m' m'' \<Longrightarrow> (worker_step L t)\<^sup>*\<^sup>* m m''"
  by (rule rtranclp.rtrancl_into_rtrancl)

lemma points_deref: "points tids p (arr ! i) (Some v) \<Longrightarrow> i < length arr \<Longrightarrow> deref tids i arr = Some (v, p)"
  by (auto simp: points_def deref_def split: cell.splits)

declare steal_loop.simps [simp del]

lemma steal_loop_run:
  fixes L :: cpu_layout and c :: "nat \<Rightarrow> nat option" and vs :: "nat list"
  assumes "producers + length vs = last_one" "last_one \<le> length arr"
    and "\<forall>i < length vs. points tids p (arr ! (producers + i)) (Some (vs ! i))"
  shows "(\<exists>x xs v q. steal_loop tids cacheProd last_one producers arr s =
        Some (Some x, q, arr[cacheProd := arr ! q], set_deque v p xs s) \<and> points tids p (arr ! q) (Some v) \<and>
        (worker_step L t)\<^sup>*\<^sup>* (set_worker t (StealFrom p vs) (with_cache t c s))
          (found t x p (set_deque v p xs (with_cache t (c(p := Some v)) s)))) \<or>
    steal_loop tids cacheProd last_one producers arr s = Some (None, last_one, arr[cacheProd := Null], s) \<and>
        (worker_step L t)\<^sup>*\<^sup>* (set_worker t (StealFrom p vs) (with_cache t c s)) (set_worker t (StealFrom p []) (with_cache t c s))"
  using assms
proof (induction vs arbitrary: producers)
  case Nil
  then show ?case by (simp add: steal_loop.simps)
next
  case (Cons v vs)
  have d: "points tids p (arr ! producers) (Some v)" "producers < length arr" "producers \<noteq> last_one" using Cons.prems by auto
  have loop: "steal_loop tids cacheProd last_one producers arr s = (case deque_of s v p of
      x # xs \<Rightarrow> Some (Some x, producers, arr[cacheProd := arr ! producers], set_deque v p xs s)
    | [] \<Rightarrow> steal_loop tids cacheProd last_one (producers + 1) arr s)"
    using d(3) points_deref [OF d(1,2)] by (subst steal_loop.simps) simp
  let ?m = "set_worker t (StealFrom p (v # vs)) (with_cache t c s)"
  show ?case
  proof (cases "deque_of s v p")
    case (Cons x xs)
    have "worker_step L t ?m (found t x p (set_deque v p xs (cache t p (Some v) ?m)))"
      by (rule worker_step.steal) (simp_all add: Cons)
    moreover have "steal_loop tids cacheProd last_one producers arr s =
        Some (Some x, producers, arr[cacheProd := arr ! producers], set_deque v p xs s)"
      unfolding loop Cons by simp
    ultimately show ?thesis
      using d(1) one_step [of L t]
      by - (rule disjI1, rule exI [of _ x], rule exI [of _ xs], rule exI [of _ v], rule exI [of _ producers], simp del: fun_upd_apply)
  next
    case Nil
    have step: "worker_step L t ?m (set_worker t (StealFrom p vs) (with_cache t c s))"
      using worker_step.steal_fail [of ?m t p v vs L] by simp
    have loop': "steal_loop tids cacheProd last_one producers arr s = steal_loop tids cacheProd last_one (producers + 1) arr s"
      unfolding loop Nil by simp
    have "\<forall>i < length vs. points tids p (arr ! (producers + 1 + i)) (Some (vs ! i))" using Cons.prems(3) by auto
    then show ?thesis
      unfolding loop' using Cons.IH [of "producers + 1"] Cons.prems(1,2) step_run [OF step] by simp blast
  qed
qed

lemma in_order_cache:
  assumes "in_order L tids counts t c arr" "handles L t p" "points tids p x v"
  shows "in_order L tids counts t (c(p := v)) (arr[tls_offset counts p + 1 := x])"
proof -
  have len: "length counts = PRIORITY_COUNT L" "range_end L t \<le> PRIORITY_COUNT L" using assms(1) by (auto simp: in_order_def)
  have "block_ok L tids t q ((c(p := v)) q) (arr[tls_offset counts p + 1 := x]) (tls_offset counts q) (counts ! q)"
    if q: "handles L t q" for q
  proof -
    have b: "block_ok L tids t q (c q) arr (tls_offset counts q) (counts ! q)" using assms(1) q by (auto simp: in_order_def)
    have bp: "0 < counts ! p" using assms(1,2) by (auto simp: in_order_def block_ok_def)
    have lt: "p < length counts" "q < length counts" using assms(2) q len by (auto simp: handles_def)
    have apart: "tls_offset counts p + 1 \<noteq> tls_offset counts q + j" if "p \<noteq> q" "j \<le> counts ! q" for j
      using blocks_apart [OF lt that(1) _ that(2), of 1] bp by simp
    show ?thesis
    proof (cases "p = q")
      case True
      then show ?thesis using b assms(3) by (simp add: block_ok_def nth_list_update)
    next
      case False
      then have "tls_offset counts p + 1 \<noteq> tls_offset counts q" "tls_offset counts p + 1 \<noteq> tls_offset counts q + 1"
        "\<And>i. i < length (steal_list L q t) \<Longrightarrow> tls_offset counts p + 1 \<noteq> tls_offset counts q + 2 + i"
        using apart [OF False, of 0] apart [OF False, of 1] apart [OF False, of "2 + i" for i] b
        by (auto simp: block_ok_def)
      then show ?thesis using b False by (simp add: block_ok_def nth_list_update_neq)
    qed
  qed
  then show ?thesis using len by (simp add: in_order_def)
qed

lemma steal_run:
  fixes L :: cpu_layout and c :: "nat \<Rightarrow> nat option" and counts :: "nat list"
  defines "rest_from \<equiv> \<lambda>p. tls_offset counts p + counts ! p + 1"
  assumes io: "in_order L tids counts t c arr" and h: "handles L t p"
  shows "(\<exists>x q arr' s' c'. try_steal_in_order tids (counts ! p) (tls_offset counts p + 1) arr s = Some (Some x, q, arr', s') \<and>
        in_order L tids counts t c' arr' \<and>
        (worker_step L t)\<^sup>*\<^sup>* (set_worker t (Dequeue p) (with_cache t c s)) (found t x p (with_cache t c' s'))) \<or>
    (\<exists>arr' c'. try_steal_in_order tids (counts ! p) (tls_offset counts p + 1) arr s = Some (None, rest_from p, arr', s) \<and>
        in_order L tids counts t c' arr' \<and>
        (worker_step L t)\<^sup>*\<^sup>* (set_worker t (Dequeue p) (with_cache t c s)) (set_worker t (after_steals L t p) (with_cache t c' s)))"
proof -
  let ?o = "tls_offset counts p" and ?m = "set_worker t (Dequeue p) (with_cache t c s)"
  have b: "block_ok L tids t p (c p) arr ?o (counts ! p)" using io h by (auto simp: in_order_def)
  have len: "?o + counts ! p + 1 \<le> length arr" "0 < counts ! p" using b by (auto simp: block_ok_def)
  obtain producers vs where start: "try_steal_in_order tids (counts ! p) (?o + 1) arr s =
        steal_loop tids (?o + 1) (rest_from p) producers arr s"
      "producers + length vs = rest_from p" "vs = victims L ?m t p"
      "\<forall>i < length vs. points tids p (arr ! (producers + i)) (Some (vs ! i))"
  proof (cases "c p")
    case None
    then have "arr ! (?o + 1) = Null" using b by (auto simp: block_ok_def points_def split: cell.splits)
    then show ?thesis
      by - (rule that [of "?o + 2" "steal_list L p t"],
        use b len None in \<open>auto simp: try_steal_in_order_def rest_from_def victims_def block_ok_def\<close>)
  next
    case (Some v)
    then have c: "arr ! (?o + 1) \<noteq> Null" "arr ! (?o + 1) \<noteq> Unset" "points tids p (arr ! (?o + 1)) (Some v)"
      using b by (auto simp: block_ok_def points_def split: cell.splits)
    have "points tids p (arr ! (?o + 1 + i)) (Some ((v # steal_list L p t) ! i))" if "i < length (v # steal_list L p t)" for i
      using that b c(3) by (cases i) (auto simp: block_ok_def)
    then show ?thesis
      by - (rule that [of "?o + 1" "v # steal_list L p t"],
        use b len Some c(1,2) in \<open>auto simp: try_steal_in_order_def rest_from_def victims_def block_ok_def\<close>)
  qed
  have last: "rest_from p \<le> length arr" using len by (simp add: rest_from_def)
  have step: "worker_step L t ?m (set_worker t (StealFrom p vs) (with_cache t c s))"
    using worker_step.dequeue_none [of ?m t p L] start(3) by simp
  have none: "worker_step L t (set_worker t (StealFrom p []) (with_cache t c s))
      (set_worker t (after_steals L t p) (with_cache t (c(p := None)) s))"
    using worker_step.steal_none [of "set_worker t (StealFrom p []) (with_cache t c s)" t p L] by simp
  from steal_loop_run [OF start(2) last start(4), of "?o + 1" s L t c]
  show ?thesis
  proof (elim disjE exE conjE)
    fix x xs v q
    assume r: "steal_loop tids (?o + 1) (rest_from p) producers arr s = Some (Some x, q, arr[?o + 1 := arr ! q], set_deque v p xs s)"
      "points tids p (arr ! q) (Some v)"
      and run: "(worker_step L t)\<^sup>*\<^sup>* (set_worker t (StealFrom p vs) (with_cache t c s))
          (found t x p (set_deque v p xs (with_cache t (c(p := Some v)) s)))"
    show ?thesis
      using r(1) start(1) in_order_cache [OF io h r(2)] step_run [OF step run] by (simp del: fun_upd_apply) metis
  next
    assume r: "steal_loop tids (?o + 1) (rest_from p) producers arr s = Some (None, rest_from p, arr[?o + 1 := Null], s)"
      and run: "(worker_step L t)\<^sup>*\<^sup>* (set_worker t (StealFrom p vs) (with_cache t c s)) (set_worker t (StealFrom p []) (with_cache t c s))"
    have "points tids p Null None" by (simp add: points_def)
    then show ?thesis
      using r(1) start(1) in_order_cache [OF io h] run_step [OF step_run [OF step run] none]
      by (simp del: fun_upd_apply) metis
  qed
qed

lemma followsI:
  "r = Some (x, arr, s) \<Longrightarrow> in_order L tids counts t c arr \<Longrightarrow> (worker_step L t)\<^sup>*\<^sup>* m (pass_end t x (with_cache t c s)) \<Longrightarrow>
   pass_follows L tids counts t m r"
  unfolding pass_follows_def by blast

lemma follows_later: "(worker_step L t)\<^sup>*\<^sup>* m m' \<Longrightarrow> pass_follows L tids counts t m' r \<Longrightarrow> pass_follows L tids counts t m r"
  unfolding pass_follows_def using rtranclp_trans [of "worker_step L t" m m'] by blast

lemma pop_run:
  fixes L :: cpu_layout and c :: "nat \<Rightarrow> nat option"
  assumes "in_order L tids counts t c arr" and h: "handles L t p"
  shows "(\<exists>x s'. pop_at tids (tls_offset counts p) arr s = Some (Some x, s') \<and>
        worker_step L t (set_worker t (PopOwn p) (with_cache t c s)) (found t x p (with_cache t c s'))) \<or>
    pop_at tids (tls_offset counts p) arr s = Some (None, s) \<and>
        worker_step L t (set_worker t (PopOwn p) (with_cache t c s))
          (set_worker t (if p = range_begin L t then PullInbox else Dequeue p) (with_cache t c s))"
proof -
  let ?m = "set_worker t (PopOwn p) (with_cache t c s)"
  have "block_ok L tids t p (c p) arr (tls_offset counts p) (counts ! p)" using assms by (auto simp: in_order_def)
  then have d: "deref tids (tls_offset counts p) arr = Some (t, p)" by (intro points_deref) (auto simp: block_ok_def)
  show ?thesis
  proof (cases "deque_of s t p" rule: rev_cases)
    case Nil
    then show ?thesis using worker_step.pop_empty [of ?m t p L] d by (simp add: pop_at_def)
  next
    case (snoc xs x)
    then show ?thesis using worker_step.pop [of ?m t p xs x L] d by (simp add: pop_at_def)
  qed
qed

lemma dequeue_or_steal_run:
  fixes L :: cpu_layout and c :: "nat \<Rightarrow> nat option"
  assumes io: "in_order L tids counts t c arr" and h: "handles L t p"
    and rest: "\<And>arr' c'. in_order L tids counts t c' arr' \<Longrightarrow> pass_follows L tids counts t
        (set_worker t (after_steals L t p) (with_cache t c' s)) (rest (tls_offset counts p + counts ! p + 1) arr' s)"
  shows "pass_follows L tids counts t (set_worker t (Dequeue p) (with_cache t c s))
    (dequeue_or_steal tids counts p (tls_offset counts p + 1) arr s rest)"
proof (cases "ingest s p")
  case (Cons x xs)
  let ?m = "set_worker t (Dequeue p) (with_cache t c s)"
  have "worker_step L t ?m (found t x p (ingest_taken p ([] @ xs) ?m))"
    by (rule worker_step.dequeue) (simp_all add: Cons)
  also have "found t x p (ingest_taken p ([] @ xs) ?m) =
      pass_end t (Some (x, p)) (with_cache t c (ingest_taken p xs s))"
    by (simp add: pass_end_def found_def set_worker_def with_cache_def inbox_pulled_def ingest_taken_def)
  finally show ?thesis
    by (intro followsI [OF _ io]) (simp add: dequeue_or_steal_def Cons, rule one_step)
next
  case Nil
  from steal_run [OF io h, of s] show ?thesis
  proof (elim disjE exE conjE)
    fix x q arr' s' c'
    assume r: "try_steal_in_order tids (counts ! p) (tls_offset counts p + 1) arr s = Some (Some x, q, arr', s')"
      "in_order L tids counts t c' arr'"
      "(worker_step L t)\<^sup>*\<^sup>* (set_worker t (Dequeue p) (with_cache t c s)) (found t x p (with_cache t c' s'))"
    then show ?thesis
      by (intro followsI [where x = "Some (x, p)", OF _ r(2)]) (simp_all add: dequeue_or_steal_def Nil)
  next
    fix arr' c'
    assume r: "try_steal_in_order tids (counts ! p) (tls_offset counts p + 1) arr s =
        Some (None, tls_offset counts p + counts ! p + 1, arr', s)" "in_order L tids counts t c' arr'"
      "(worker_step L t)\<^sup>*\<^sup>* (set_worker t (Dequeue p) (with_cache t c s)) (set_worker t (after_steals L t p) (with_cache t c' s))"
    then show ?thesis using follows_later [OF r(3) rest [OF r(2)]] by (simp add: dequeue_or_steal_def Nil)
  qed
qed

lemma lower_run:
  fixes L :: cpu_layout
  assumes "in_order L tids counts t c arr" "range_begin L t < p" "p \<le> range_end L t" "t < thread_count L"
  shows "pass_follows L tids counts t (set_worker t (if p < range_end L t then PopOwn p else Hook False) (with_cache t c s))
    (lower_priorities tids counts [p..<range_end L t] (tls_offset counts p) arr s)"
  using assms
proof (induction "range_end L t - p" arbitrary: p c arr s)
  case 0
  then show ?case by (intro followsI [where x = None and s = s, OF _ 0(2)]) (simp_all add: no_step)
next
  case (Suc n)
  then have p: "p < range_end L t" "[p..<range_end L t] = p # [p + 1..<range_end L t]" by (simp_all add: upt_rec)
  have h: "handles L t p" using Suc.prems p(1) by (simp add: handles_def)
  have lt: "p < length counts" using Suc.prems(1) p(1) by (simp add: in_order_def)
  have rest: "pass_follows L tids counts t (set_worker t (after_steals L t p) (with_cache t c' s))
      (lower_priorities tids counts [p + 1..<range_end L t] (tls_offset counts p + counts ! p + 1) arr' s)"
    if io: "in_order L tids counts t c' arr'" for c' arr'
    using Suc.hyps(1) [OF _ io, of "p + 1" s] Suc.hyps(2) Suc.prems(2,4) p(1) tls_offset_Suc [OF lt]
    by (simp add: after_steals_def)
  from pop_run [OF Suc.prems(1) h, of s] show ?case
  proof (elim disjE exE conjE)
    fix x s'
    assume r: "pop_at tids (tls_offset counts p) arr s = Some (Some x, s')"
      "worker_step L t (set_worker t (PopOwn p) (with_cache t c s)) (found t x p (with_cache t c s'))"
    show ?thesis
      by (rule followsI [where x = "Some (x, p)" and s = s', OF _ Suc.prems(1)]) (use r p(1) in \<open>simp_all add: p(2) one_step\<close>)
  next
    assume r: "pop_at tids (tls_offset counts p) arr s = Some (None, s)"
      "worker_step L t (set_worker t (PopOwn p) (with_cache t c s))
        (set_worker t (if p = range_begin L t then PullInbox else Dequeue p) (with_cache t c s))"
    have "(worker_step L t)\<^sup>*\<^sup>* (set_worker t (PopOwn p) (with_cache t c s)) (set_worker t (Dequeue p) (with_cache t c s))"
      using r(2) Suc.prems(2) by (simp add: one_step)
    from follows_later [OF this dequeue_or_steal_run [where rest = "lower_priorities tids counts [p + 1..<range_end L t]", OF Suc.prems(1) h rest]]
    show ?thesis using p r(1) by (simp del: upt.simps)
  qed
qed

theorem search_follows_worker:
  fixes L :: cpu_layout and t :: nat and s :: cpu
  assumes L: "handles L t (range_begin L t)" and io: "in_order L tids counts t (cached s t) arr"
    and s: "worker_at s t = StopCheck" "\<not> stop_requested s t"
  shows "\<exists>x arr' s' c'. search L tids counts t arr s = Some (x, arr', s') \<and> in_order L tids counts t c' arr' \<and>
     (worker_step L t)\<^sup>*\<^sup>* s (pass_end t x (with_cache t c' s'))"
proof -
  let ?b = "range_begin L t" and ?m = "\<lambda>w. set_worker t w (with_cache t (cached s t) s)"
  have lt: "?b < length counts" "?b < range_end L t" "t < thread_count L" using io L by (auto simp: in_order_def handles_def)
  have start: "worker_step L t s (?m (PopOwn ?b))" using worker_step.go_on [OF s] by simp
  have rest: "pass_follows L tids counts t (set_worker t (after_steals L t ?b) (with_cache t c' s))
      (lower_priorities tids counts [?b + 1..<range_end L t] (tls_offset counts ?b + counts ! ?b + 1) arr' s)"
    if io: "in_order L tids counts t c' arr'" for c' arr'
    using lower_run [OF io, of "?b + 1" s] lt tls_offset_Suc [OF lt(1)] by (simp add: after_steals_def)
  have "pass_follows L tids counts t (?m (PopOwn ?b)) (search L tids counts t arr s)"
    using pop_run [OF io L, of s]
  proof (elim disjE exE conjE)
    fix x s'
    assume r: "pop_at tids (tls_offset counts ?b) arr s = Some (Some x, s')"
      "worker_step L t (?m (PopOwn ?b)) (found t x ?b (with_cache t (cached s t) s'))"
    show ?thesis
      by (rule followsI [where x = "Some (x, ?b)" and s = s', OF _ io]) (use r in \<open>simp_all add: search_def one_step\<close>)
  next
    assume r: "pop_at tids (tls_offset counts ?b) arr s = Some (None, s)"
      "worker_step L t (?m (PopOwn ?b)) (?m (if ?b = ?b then PullInbox else Dequeue ?b))"
    show ?thesis
    proof (cases "inbox_q s (inbox_of L t)")
      case Nil
      have "(worker_step L t)\<^sup>*\<^sup>* (?m (PopOwn ?b)) (?m (Dequeue ?b))"
        using step_run [OF _ one_step, OF _ worker_step.pull_none [of "?m PullInbox" t L]] r(2) by simp
      from follows_later [OF this dequeue_or_steal_run [where rest = "lower_priorities tids counts [?b + 1..<range_end L t]", OF io L rest]]
      show ?thesis using r(1) Nil by (simp add: search_def Let_def)
    next
      case (Cons xp xs)
      obtain x p where xp: "xp = (x, p)" by force
      let ?n = "?m PullInbox"
      have "worker_step L t ?n (found t x p (inbox_pulled (inbox_of L t) xs ?n))"
        by (rule worker_step.pull) (simp_all add: Cons xp)
      also have "found t x p (inbox_pulled (inbox_of L t) xs ?n) =
          pass_end t (Some (x, p)) (with_cache t (cached s t) (inbox_pulled (inbox_of L t) xs s))"
        by (simp add: pass_end_def found_def set_worker_def with_cache_def inbox_pulled_def ingest_taken_def)
      finally have "(worker_step L t)\<^sup>*\<^sup>* (?m (PopOwn ?b)) \<dots>" using step_run [OF _ one_step] r(2) by simp
      then show ?thesis by (intro followsI [where x = "Some (x, p)" and s = "inbox_pulled (inbox_of L t) xs s", OF _ io])
        (use r(1) Cons xp in \<open>simp_all add: search_def\<close>)
    qed
  qed
  from follows_later [OF one_step, OF start this] show ?thesis unfolding pass_follows_def .
qed

lemma find_deque_run:
  fixes L :: cpu_layout and vs :: "nat list"
  assumes io: "in_order L tids counts t (cached s t) arr" and h: "handles L t p"
    and "producers = tls_offset counts p + 1" "\<forall>i < length vs. points tids p (arr ! (producers + (d + i))) (Some (vs ! i))"
    and "producers + d + length vs \<le> length arr"
  shows "\<exists>b arr' c'. find_deque tids producers [d..<d + length vs] arr s = Some (b, arr') \<and> in_order L tids counts t c' arr' \<and>
     (worker_step L t)\<^sup>*\<^sup>* (set_worker t (SpinDeques i p vs) s)
       (if b then set_worker t (SpinDeques i p []) s else goto_top L t (with_cache t c' s))"
  using assms(4,5)
proof (induction vs arbitrary: d)
  case Nil
  then show ?case using io no_step by auto
next
  case (Cons v vs)
  let ?m = "set_worker t (SpinDeques i p (v # vs)) s"
  have p0: "points tids p (arr ! (producers + d)) (Some v)" using Cons.prems(1) by force
  then have d0: "deref tids (producers + d) arr = Some (v, p)" using Cons.prems(2) by (intro points_deref) auto
  have split: "[d..<d + length (v # vs)] = d # [d + 1..<d + 1 + length vs]" by (simp add: upt_rec)
  show ?case
  proof (cases "deque_of s v p = []")
    case True
    have step: "worker_step L t ?m (set_worker t (SpinDeques i p vs) s)"
      using worker_step.spin_deque [of ?m t i p v vs L] True by simp
    have "\<forall>i < length vs. points tids p (arr ! (producers + (d + 1 + i))) (Some (vs ! i))" using Cons.prems(1) by auto
    moreover have "producers + (d + 1) + length vs \<le> length arr" using Cons.prems(2) by simp
    ultimately obtain b arr' c' where IH: "find_deque tids producers [d + 1..<d + 1 + length vs] arr s = Some (b, arr')"
      "in_order L tids counts t c' arr'"
      and run: "(worker_step L t)\<^sup>*\<^sup>* (set_worker t (SpinDeques i p vs) s)
        (if b then set_worker t (SpinDeques i p []) s else goto_top L t (with_cache t c' s))"
      using Cons.IH by blast
    have "find_deque tids producers [d..<d + length (v # vs)] arr s = Some (b, arr')"
      unfolding split using True d0 IH(1) by simp
    with IH(2) step_run [OF step run] show ?thesis by blast
  next
    case False
    have "worker_step L t ?m (goto_top L t (cache t p (Some v) ?m))"
      by (rule worker_step.spin_deque_found) (simp_all add: False)
    also have "goto_top L t (cache t p (Some v) ?m) = goto_top L t (with_cache t ((cached s t)(p := Some v)) s)"
      by (simp add: goto_top_def cache_def with_cache_def set_worker_def)
    finally have "(worker_step L t)\<^sup>*\<^sup>* ?m (goto_top L t (with_cache t ((cached s t)(p := Some v)) s))" by (rule one_step)
    moreover have "find_deque tids producers [d..<d + length (v # vs)] arr s = Some (False, arr[producers := arr ! (producers + d)])"
      unfolding split using False d0 by simp
    ultimately show ?thesis using in_order_cache [OF io h p0] unfolding assms(3)
      by (intro exI [of _ False] exI [of _ "arr[tls_offset counts p + 1 := arr ! (tls_offset counts p + 1 + d)]"]
        exI [of _ "(cached s t)(p := Some v)"]) (simp del: fun_upd_apply)
  qed
qed

lemma steal_empty_run:
  fixes L :: cpu_layout
  assumes io: "in_order L tids counts t (cached s t) arr" and h: "handles L t p"
  shows "\<exists>b arr' c'. steal_empty tids counts p arr s = Some (b, arr') \<and> in_order L tids counts t c' arr' \<and>
     (worker_step L t)\<^sup>*\<^sup>* (set_worker t (SpinDeques i p (steal_list L p t)) s)
       (if b then set_worker t (SpinDeques i p []) s else goto_top L t (with_cache t c' s))"
proof -
  have b: "block_ok L tids t p (cached s t p) arr (tls_offset counts p) (counts ! p)" using assms by (auto simp: in_order_def)
  then have n: "counts ! p = 1 + length (steal_list L p t)" by (simp add: block_ok_def)
  have "\<forall>i < length (steal_list L p t). points tids p (arr ! (tls_offset counts p + 1 + (1 + i))) (Some (steal_list L p t ! i))"
    "tls_offset counts p + 1 + 1 + length (steal_list L p t) \<le> length arr"
    using b by (auto simp: block_ok_def)
  from find_deque_run [OF io h refl this, of i] show ?thesis by (simp only: steal_empty_def n)
qed

section \<open>The array is filled as the layout says\<close>

definition cell_at :: "nat list list \<Rightarrow> nat \<Rightarrow> nat \<Rightarrow> cell" where
  "cell_at Forward P j = (if Forward ! P = [] then Null else if j = 0 then Deque P (hd (Forward ! P))
     else if j = 1 then Null else Deque P (Forward ! P ! (j - 1)))"

lemma fold_put_cell:
  "b + n \<le> length xs \<Longrightarrow> \<exists>ys. fold (\<lambda>i. put_cell (b + i) (f i)) [m..<n] (Some xs) = Some ys \<and> length ys = length xs \<and>
     (\<forall>k. ys ! k = (if b + m \<le> k \<and> k < b + n then f (k - b) else xs ! k))"
proof (induction n)
  case 0
  then show ?case by auto
next
  case (Suc n)
  then obtain ys where ys: "fold (\<lambda>i. put_cell (b + i) (f i)) [m..<n] (Some xs) = Some ys" "length ys = length xs"
    "\<And>k. ys ! k = (if b + m \<le> k \<and> k < b + n then f (k - b) else xs ! k)" by auto
  show ?case
  proof (cases "m \<le> n")
    case True
    then show ?thesis using ys Suc.prems by (auto simp: put_cell_def nth_list_update less_Suc_eq)
  next
    case False
    then show ?thesis using ys by auto
  qed
qed

lemma order_of_prio_cells:
  fixes counts :: "nat list" and Forward :: "nat list list" and P :: nat
  defines "off \<equiv> tls_offset counts P"
  assumes "off + counts ! P + 1 \<le> length xs" "Forward ! P = [] \<or> length (Forward ! P) = counts ! P"
  shows "\<exists>ys. order_of_prio counts Forward P (Some xs) = Some ys \<and> length ys = length xs \<and>
     (\<forall>k. ys ! k = (if off \<le> k \<and> k < off + counts ! P + 1 then cell_at Forward P (k - off) else xs ! k))"
proof (cases "Forward ! P = []")
  case True
  then have "cell_at Forward P k = Null" for k by (simp add: cell_at_def)
  then show ?thesis
    using True fold_put_cell [of off "counts ! P + 1" xs "\<lambda>_. Null" 0] assms
    by (simp add: order_of_prio_def Let_def add.assoc cong: if_cong del: upt_Suc split del: if_split)
next
  case False
  then have n: "length (Forward ! P) = counts ! P" "0 < counts ! P" using assms(3) False by (metis, metis length_greater_0_conv)
  let ?xs = "xs[off := Deque P (hd (Forward ! P)), off + 1 := Null]"
  obtain ys where ys: "fold (\<lambda>i. put_cell (off + 1 + i) (Deque P (Forward ! P ! i))) [1..<counts ! P] (Some ?xs) = Some ys"
    "length ys = length xs"
    "\<And>k. ys ! k = (if off + 1 + 1 \<le> k \<and> k < off + 1 + counts ! P then Deque P (Forward ! P ! (k - (off + 1))) else ?xs ! k)"
    using fold_put_cell [of "off + 1" "counts ! P" ?xs "\<lambda>i. Deque P (Forward ! P ! i)" 1] assms(2) by auto
  have "order_of_prio counts Forward P (Some xs) = Some ys"
    using False ys(1) n assms(2) by (simp add: order_of_prio_def off_def put_cell_def Let_def)
  moreover have "ys ! k = (if off \<le> k \<and> k < off + counts ! P + 1 then cell_at Forward P (k - off) else xs ! k)" for k
  proof -
    consider "k < off" | "k = off" | "k = off + 1" | "off + 2 \<le> k" by linarith
    then show ?thesis using False n assms(2) by cases (auto simp: ys(3) cell_at_def nth_list_update)
  qed
  ultimately show ?thesis using ys(2) by blast
qed

lemma init_order_cells:
  assumes "\<forall>P < length counts. Forward ! P = [] \<or> length (Forward ! P) = counts ! P"
  shows "\<exists>arr. init_queue_iteration_order counts Forward = Some arr \<and> length arr = sum_list (map (\<lambda>k. k + 1) counts) \<and>
     (\<forall>P < length counts. \<forall>j \<le> counts ! P. arr ! (tls_offset counts P + j) = cell_at Forward P j)"
proof -
  let ?n = "sum_list (map (\<lambda>k. k + 1) counts)"
  have "\<exists>arr. fold (order_of_prio counts Forward) [0..<m] (Some (replicate ?n Unset)) = Some arr \<and> length arr = ?n \<and>
     (\<forall>P < m. \<forall>j \<le> counts ! P. arr ! (tls_offset counts P + j) = cell_at Forward P j)" if "m \<le> length counts" for m
    using that
  proof (induction m)
    case (Suc m)
    then obtain xs where xs: "fold (order_of_prio counts Forward) [0..<m] (Some (replicate ?n Unset)) = Some xs" "length xs = ?n"
      "\<And>P j. P < m \<Longrightarrow> j \<le> counts ! P \<Longrightarrow> xs ! (tls_offset counts P + j) = cell_at Forward P j" by auto
    obtain ys where ys: "order_of_prio counts Forward m (Some xs) = Some ys" "length ys = length xs"
      "\<And>k. ys ! k = (if tls_offset counts m \<le> k \<and> k < tls_offset counts m + counts ! m + 1
         then cell_at Forward m (k - tls_offset counts m) else xs ! k)"
      using order_of_prio_cells [of counts m xs Forward] assms Suc.prems xs(2) block_end [of m counts] by auto
    have "ys ! (tls_offset counts P + j) = cell_at Forward P j" if "P < Suc m" "j \<le> counts ! P" for P j
    proof (cases "P = m")
      case True
      then show ?thesis using ys(3) that by simp
    next
      case False
      then have "tls_offset counts P + j < tls_offset counts m"
        using tls_offset_mono [of P m counts] that Suc.prems by simp
      then show ?thesis using ys(3) xs(3) False that by simp
    qed
    then show ?case using xs(1,2) ys(1,2) by simp
  qed simp
  from this [of "length counts"] show ?thesis by (simp add: init_queue_iteration_order_def)
qed

text \<open>What \<open>init\<close> passes for a thread: a row of the steal matrix for each of its priorities, nothing for the others.\<close>

definition rows_for :: "cpu_layout \<Rightarrow> (nat \<Rightarrow> nat list) \<Rightarrow> nat \<Rightarrow> nat list list \<Rightarrow> bool" where
  "rows_for L tids t Forward \<longleftrightarrow> length Forward = PRIORITY_COUNT L \<and> range_end L t \<le> PRIORITY_COUNT L \<and>
     (\<forall>P < PRIORITY_COUNT L. if handles L t P
        then Forward ! P \<noteq> [] \<and> length (Forward ! P) = length (tids P) \<and> (\<forall>i \<in> set (Forward ! P). i < length (tids P)) \<and>
          tids P ! hd (Forward ! P) = t \<and> steal_list L P t = map ((!) (tids P)) (tl (Forward ! P))
        else Forward ! P = [])"

lemma init_order_in_order:
  fixes L :: cpu_layout and tids :: "nat \<Rightarrow> nat list"
  defines "counts \<equiv> map (\<lambda>P. length (tids P)) [0..<PRIORITY_COUNT L]"
  assumes rows: "rows_for L tids t Forward"
  shows "\<exists>arr. init_queue_iteration_order counts Forward = Some arr \<and> in_order L tids counts t (\<lambda>_. None) arr"
proof -
  have n: "length counts = PRIORITY_COUNT L" "\<And>P. P < PRIORITY_COUNT L \<Longrightarrow> counts ! P = length (tids P)" by (simp_all add: counts_def)
  have r: "Forward ! P \<noteq> [] \<and> length (Forward ! P) = length (tids P) \<and> (\<forall>i \<in> set (Forward ! P). i < length (tids P)) \<and>
      tids P ! hd (Forward ! P) = t \<and> steal_list L P t = map ((!) (tids P)) (tl (Forward ! P))"
    if "P < PRIORITY_COUNT L" "handles L t P" for P using rows that by (auto simp: rows_for_def)
  have "\<forall>P < length counts. Forward ! P = [] \<or> length (Forward ! P) = counts ! P"
    using rows n by (auto simp: rows_for_def split: if_splits)
  then obtain arr where arr: "init_queue_iteration_order counts Forward = Some arr"
    "length arr = sum_list (map (\<lambda>k. k + 1) counts)"
    "\<And>P j. P < length counts \<Longrightarrow> j \<le> counts ! P \<Longrightarrow> arr ! (tls_offset counts P + j) = cell_at Forward P j"
    using init_order_cells by blast
  have "block_ok L tids t P None arr (tls_offset counts P) (counts ! P)" if h: "handles L t P" for P
  proof -
    have P: "P < PRIORITY_COUNT L" using h rows by (auto simp: handles_def rows_for_def)
    note rP = r [OF P h]
    obtain a as where F: "Forward ! P = a # as" using rP by (cases "Forward ! P") auto
    have c: "counts ! P = Suc (length as)" using n(2) [OF P] rP F by simp
    have cells: "arr ! tls_offset counts P = Deque P a" "arr ! (tls_offset counts P + 1) = Null"
      "\<And>i. i < length as \<Longrightarrow> arr ! (tls_offset counts P + 2 + i) = Deque P (as ! i)"
      using arr(3) [of P 0] arr(3) [of P 1] arr(3) [of P "2 + i" for i] P n(1) c F by (auto simp: cell_at_def add.assoc)
    have "as ! i < length (tids P)" if "i < length as" for i using rP F nth_mem [OF that] by simp
    moreover have "tids P \<noteq> []" using c n(2) [OF P] by auto
    ultimately show ?thesis
      unfolding block_ok_def using cells c rP F block_end [of P counts] P n(1) arr(2) by (simp add: points_def)
  qed
  then show ?thesis using arr(1) n(1) rows by (auto simp: in_order_def rows_for_def)
qed

lemma search_is_worker_run_parts:
  fixes L :: cpu_layout and tids :: "nat \<Rightarrow> nat list" and t :: nat and s :: cpu
  defines "counts \<equiv> map (\<lambda>P. length (tids P)) [0..<PRIORITY_COUNT L]"
  assumes rows: "rows_for L tids t Forward" and t: "handles L t (range_begin L t)"
  shows "\<exists>arr. init_queue_iteration_order counts Forward = Some arr \<and> in_order L tids counts t (\<lambda>_. None) arr"
    and "in_order L tids counts t (cached s t) arr \<Longrightarrow> worker_at s t = StopCheck \<Longrightarrow> \<not> stop_requested s t \<Longrightarrow>
      \<exists>x arr' s' c'. search L tids counts t arr s = Some (x, arr', s') \<and> in_order L tids counts t c' arr' \<and>
        (worker_step L t)\<^sup>*\<^sup>* s (pass_end t x (with_cache t c' s'))"
    and "in_order L tids counts t (cached s t) arr \<Longrightarrow> handles L t p \<Longrightarrow>
      \<exists>b arr' c'. steal_empty tids counts p arr s = Some (b, arr') \<and> in_order L tids counts t c' arr' \<and>
        (worker_step L t)\<^sup>*\<^sup>* (set_worker t (SpinDeques i p (steal_list L p t)) s)
          (if b then set_worker t (SpinDeques i p []) s else goto_top L t (with_cache t c' s))"
  unfolding counts_def using init_order_in_order [OF rows] search_follows_worker [OF t] steal_empty_run by blast+


text \<open>Three threads in one priority, two in another; thread 1 is the second of priority 0 and the first of priority 1.\<close>

definition order_tids :: "nat \<Rightarrow> nat list" where
  "order_tids P = (if P = 0 then [0, 1, 2] else [1, 2])"

definition order_layout :: cpu_layout where
  "order_layout = \<lparr>thread_count = 3, PRIORITY_COUNT = 2, range_begin = (\<lambda>t. 0), range_end = (\<lambda>t. if t = 0 then 1 else 2),
     waker_row = (\<lambda>P t. [t]), steal_list = (\<lambda>P t. if P = 0 then [2, 0] else [2]), inbox_of = (\<lambda>t. 0), group_size = (\<lambda>t. 3),
     spins = 0, careless_hooks = False\<rparr>"

lemma order_rows: "rows_for order_layout order_tids 1 [[1, 2, 0], [0, 1]]"
  by (auto simp: rows_for_def order_layout_def order_tids_def handles_def less_2_cases_iff)

lemma order_counts: "map (\<lambda>P. length (order_tids P)) [0..<PRIORITY_COUNT order_layout] = [3, 2]"
  by (simp add: order_tids_def order_layout_def upt_rec)

definition order_cpu :: cpu where
  "order_cpu = (cpu_new order_layout)\<lparr>worker_at := (\<lambda>_. StopCheck), ingest := (\<lambda>P. if P = 1 then [7] else [])\<rparr>"


text \<open>The array of thread 1: its deque, the cache, the others.\<close>

lemma sample_order: "init_queue_iteration_order [3, 2] [[1, 2, 0], [0, 1]] =
    Some [Deque 0 1, Null, Deque 0 2, Deque 0 0, Deque 1 0, Null, Deque 1 1]"
  by code_simp
end
