(* ===== verification/Spsc.thy ===== *)
theory Spsc
  imports Machines
begin

text \<open>
  The bounded queue of one producer and one consumer (\<open>qu_spsc_bounded.hpp\<close>), as a machine whose steps are the accesses
  to the elements of the ring: the flags of an element say that it holds data, that the queue was closed there, or who is
  suspended on it.  The offsets are words; \<open>push\<close> is \<open>push_bulk\<close> of one item, they make the same accesses.
\<close>

section \<open>The queue\<close>

text \<open>Values of \<open>element::flags\<close>: no bit, \<open>DATA_BIT\<close>, \<open>CLOSED_BIT\<close>, both, or a pointer to the one consumer or the one producer.\<close>

datatype flags = Zero | DATA | CLOSED | DATA_CLOSED | ConsumerPtr | ProducerPtr

definition data_bit :: "flags \<Rightarrow> bool" where
  "data_bit f \<longleftrightarrow> f = DATA \<or> f = DATA_CLOSED"

text \<open>The tests on pointers, \<open>f >= 4\<close>, do not tell whose it is.\<close>

definition is_pointer :: "flags \<Rightarrow> bool" where
  "is_pointer f \<longleftrightarrow> f = ConsumerPtr \<or> f = ProducerPtr"

datatype 'a producer =
    P_Idle
  | P_Ready "'a list"            \<comment> \<open>\<open>await_ready\<close> of a push of these items\<close>
  | P_Suspend "'a list" | P_Waiting "'a list"
  | P_Emplace "'a list" nat      \<comment> \<open>\<open>await_resume\<close>: the item to construct next\<close>
  | P_Store "'a list" nat        \<comment> \<open>\<dots> and the flags to store next\<close>
  | P_Publish "'a list"          \<comment> \<open>about to exchange the flags of the first element\<close>
  | P_Wake                       \<comment> \<open>about to post the consumer\<close>
  | P_Try 'a
  | P_Close | P_CloseAt | P_CloseLoad | P_CloseCas flags
  | P_CloseNull                  \<comment> \<open>about to tell the consumer that the queue is closed\<close>
  | P_Bad                        \<comment> \<open>misread a flags word, or posted what is not suspended\<close>

datatype consumer =
    C_Idle | C_Ready | C_Suspend | C_Waiting | C_Resume | C_Try
  | C_Hold                       \<comment> \<open>a scope refers to the element\<close>
  | C_Release                    \<comment> \<open>\<open>finish_read\<close>, the object is destroyed\<close>
  | C_WakeProducer | C_Republish
  | C_Bad

datatype 'a pulled = Pulled "'a option" | Was_Closed | Was_Empty

record 'a spsc =
  write_offset :: size_t
  read_offset :: size_t
  flags_at :: "nat \<Rightarrow> flags"
  storage :: "nat \<Rightarrow> 'a option"   \<comment> \<open>\<open>qu_storage\<close>: the object, while it exists\<close>
  closed :: bool
  write_closed_at :: size_t
  producer :: "'a producer"
  consumer :: consumer
  consumer_elem :: bool          \<comment> \<open>\<open>base.elem\<close> of the pull is not null\<close>
  published :: "'a list"         \<comment> \<open>history: the items pushed\<close>
  freed :: nat                   \<comment> \<open>history: the number of slots freed\<close>
  results :: "'a pulled list"    \<comment> \<open>history: what the pulls returned\<close>

definition slot :: "nat \<Rightarrow> size_t \<Rightarrow> nat" where
  "slot cap i = unat i mod cap"

definition at_write :: "nat \<Rightarrow> 'a spsc \<Rightarrow> nat \<Rightarrow> nat" where
  "at_write cap s i = slot cap (write_offset s + of_nat i)"

definition at_read :: "nat \<Rightarrow> 'a spsc \<Rightarrow> nat" where
  "at_read cap s = slot cap (read_offset s)"

definition set_flags :: "nat \<Rightarrow> flags \<Rightarrow> 'a spsc \<Rightarrow> 'a spsc" where
  "set_flags i f s = s\<lparr>flags_at := (flags_at s)(i := f)\<rparr>"

definition at_producer :: "'a producer \<Rightarrow> 'a spsc \<Rightarrow> 'a spsc" where
  "at_producer p s = s\<lparr>producer := p\<rparr>"

definition at_consumer :: "consumer \<Rightarrow> 'a spsc \<Rightarrow> 'a spsc" where
  "at_consumer c s = s\<lparr>consumer := c\<rparr>"

definition returns :: "'a pulled \<Rightarrow> 'a spsc \<Rightarrow> 'a spsc" where
  "returns r s = s\<lparr>consumer := C_Idle, results := results s @ [r]\<rparr>"

section \<open>The producer\<close>

text \<open>
  The remainder is taken of the wrapped offset: for a capacity that does not divide \<open>2 ^ 64\<close> the model stops at that many items.
\<close>

definition spsc_in_range :: "nat \<Rightarrow> 'a spsc \<Rightarrow> nat \<Rightarrow> bool" where
  "spsc_in_range cap s n \<longleftrightarrow> cap dvd 2 ^ 64 \<or> length (published s) + n < 2 ^ 64"

definition write_next :: "'a list \<Rightarrow> nat \<Rightarrow> 'a producer" where
  "write_next xs i = (if i < length xs then P_Emplace xs i else P_Publish xs)"

definition emplace :: "nat \<Rightarrow> 'a list \<Rightarrow> nat \<Rightarrow> 'a spsc \<Rightarrow> 'a spsc" where
  "emplace cap xs i s = s\<lparr>storage := (storage s)(at_write cap s i := Some (xs ! i)),
     producer := if i = 0 then write_next xs 1 else P_Store xs i\<rparr>"

text \<open>\<open>set_data_ready_or_get_waiting_consumer\<close>, or \<open>set_data_ready\<close> where the consumer cannot suspend; then the offset.\<close>

definition spsc_publish :: "nat \<Rightarrow> bool \<Rightarrow> 'a list \<Rightarrow> 'a spsc \<Rightarrow> 'a spsc" where
  "spsc_publish cap can_suspend xs s = (let prev = flags_at s (at_write cap s 0)
     in (set_flags (at_write cap s 0) DATA s)\<lparr>write_offset := write_offset s + of_nat (length xs), published := published s @ xs,
          producer := if \<not> can_suspend \<or> prev = Zero then P_Idle else if prev = ConsumerPtr then P_Wake else P_Bad\<rparr>)"

definition wake_consumer :: "'a spsc \<Rightarrow> 'a spsc" where
  "wake_consumer s = (if consumer s = C_Waiting then s\<lparr>producer := P_Idle, consumer := C_Resume\<rparr> else s\<lparr>producer := P_Bad\<rparr>)"

definition close_desired :: "flags \<Rightarrow> flags" where
  "close_desired cur = (if cur = DATA then DATA_CLOSED else CLOSED)"

inductive producer_step :: "nat \<Rightarrow> bool \<Rightarrow> 'a spsc \<Rightarrow> 'a spsc \<Rightarrow> bool" for cap can_suspend where
  push: "producer s = P_Idle \<Longrightarrow> \<not> closed s \<Longrightarrow> xs \<noteq> [] \<Longrightarrow> length xs \<le> cap \<Longrightarrow> spsc_in_range cap s (length xs) \<Longrightarrow>
    producer_step cap can_suspend s (at_producer (P_Ready xs) s)"
| push_ready: "producer s = P_Ready xs \<Longrightarrow>
    producer_step cap can_suspend s (at_producer
      (if flags_at s (at_write cap s (length xs - 1)) = DATA then P_Suspend xs else P_Emplace xs 0) s)"
| push_suspend: "producer s = P_Suspend xs \<Longrightarrow>
    producer_step cap can_suspend s (if flags_at s (at_write cap s (length xs - 1)) = DATA
      then at_producer (P_Waiting xs) (set_flags (at_write cap s (length xs - 1)) ProducerPtr s)
      else at_producer (P_Emplace xs 0) s)"
| try_push: "producer s = P_Idle \<Longrightarrow> \<not> closed s \<Longrightarrow> spsc_in_range cap s 1 \<Longrightarrow> producer_step cap can_suspend s (at_producer (P_Try x) s)"
| try_poll: "producer s = P_Try x \<Longrightarrow>
    producer_step cap can_suspend s (at_producer (if flags_at s (at_write cap s 0) = DATA then P_Idle else P_Emplace [x] 0) s)"
| emplaced: "producer s = P_Emplace xs i \<Longrightarrow> producer_step cap can_suspend s (emplace cap xs i s)"
| stored: "producer s = P_Store xs i \<Longrightarrow>
    producer_step cap can_suspend s (at_producer (write_next xs (i + 1)) (set_flags (at_write cap s i) DATA s))"
| published: "producer s = P_Publish xs \<Longrightarrow> producer_step cap can_suspend s (spsc_publish cap can_suspend xs s)"
| woken: "producer s = P_Wake \<Longrightarrow> producer_step cap can_suspend s (wake_consumer s)"
| close: "producer s = P_Idle \<Longrightarrow> producer_step cap can_suspend s (at_producer P_Close s)"
| close_flag: "producer s = P_Close \<Longrightarrow>
    producer_step cap can_suspend s (if closed s then at_producer P_Idle s else at_producer P_CloseAt (s\<lparr>closed := True\<rparr>))"
| close_offset: "producer s = P_CloseAt \<Longrightarrow>
    producer_step cap can_suspend s (at_producer P_CloseLoad (s\<lparr>write_closed_at := write_offset s\<rparr>))"
| close_load: "producer s = P_CloseLoad \<Longrightarrow>
    producer_step cap can_suspend s (at_producer (P_CloseCas (flags_at s (at_write cap s 0))) s)"
| close_cas: "producer s = P_CloseCas cur \<Longrightarrow> flags_at s (at_write cap s 0) = cur \<Longrightarrow>
    producer_step cap can_suspend s (at_producer (if cur = ConsumerPtr then P_CloseNull else if cur = ProducerPtr then P_Bad else P_Idle)
      (set_flags (at_write cap s 0) (close_desired cur) s))"
| close_cas_fails: "producer s = P_CloseCas cur \<Longrightarrow>
    producer_step cap can_suspend s (at_producer (P_CloseCas (flags_at s (at_write cap s 0))) s)"
| close_null: "producer s = P_CloseNull \<Longrightarrow>
    producer_step cap can_suspend s (at_producer P_Wake (s\<lparr>consumer_elem := False\<rparr>))"

section \<open>The consumer\<close>

definition try_wait :: "nat \<Rightarrow> 'a spsc \<Rightarrow> 'a spsc" where
  "try_wait cap s = (let prev = flags_at s (at_read cap s)
     in if prev = Zero then at_consumer C_Waiting (set_flags (at_read cap s) ConsumerPtr s)
        else at_consumer C_Resume (if prev = CLOSED then s\<lparr>consumer_elem := False\<rparr> else s))"

definition finish_read :: "nat \<Rightarrow> 'a spsc \<Rightarrow> 'a spsc" where
  "finish_read cap s = (let prev = flags_at s (at_read cap s)
     in (set_flags (at_read cap s) Zero s)\<lparr>read_offset := read_offset s + 1, freed := freed s + 1,
          consumer := if prev = ProducerPtr then C_WakeProducer else if prev = ConsumerPtr then C_Bad
            else if prev = CLOSED \<or> prev = DATA_CLOSED then C_Republish else C_Idle\<rparr>)"

definition wake_producer :: "'a spsc \<Rightarrow> 'a spsc" where
  "wake_producer s = (case producer s of P_Waiting xs \<Rightarrow> s\<lparr>producer := P_Emplace xs 0, consumer := C_Idle\<rparr>
     | _ \<Rightarrow> s\<lparr>consumer := C_Bad\<rparr>)"

inductive consumer_step :: "nat \<Rightarrow> bool \<Rightarrow> 'a spsc \<Rightarrow> 'a spsc \<Rightarrow> bool" for cap can_suspend where
  pull: "consumer s = C_Idle \<Longrightarrow> can_suspend \<Longrightarrow>
    consumer_step cap can_suspend s (at_consumer C_Ready (s\<lparr>consumer_elem := True\<rparr>))"
| pull_ready: "consumer s = C_Ready \<Longrightarrow> f = flags_at s (at_read cap s) \<Longrightarrow>
    consumer_step cap can_suspend s (at_consumer (if data_bit f \<or> is_pointer f then C_Resume else C_Suspend) s)"
| pull_suspend: "consumer s = C_Suspend \<Longrightarrow> consumer_step cap can_suspend s (try_wait cap s)"
| pull_resume: "consumer s = C_Resume \<Longrightarrow>
    consumer_step cap can_suspend s (if consumer_elem s then at_consumer C_Hold s else returns Was_Closed s)"
| try_pull: "consumer s = C_Idle \<Longrightarrow> consumer_step cap can_suspend s (at_consumer C_Try s)"
| try_pull_poll: "consumer s = C_Try \<Longrightarrow> f = flags_at s (at_read cap s) \<Longrightarrow>
    consumer_step cap can_suspend s (if data_bit f \<or> is_pointer f then at_consumer C_Hold s
      else returns (if f = CLOSED then Was_Closed else Was_Empty) s)"
| release: "consumer s = C_Hold \<Longrightarrow>
    consumer_step cap can_suspend s (s\<lparr>consumer := C_Release, results := results s @ [Pulled (storage s (at_read cap s))],
      storage := (storage s)(at_read cap s := None)\<rparr>)"
| finish: "consumer s = C_Release \<Longrightarrow> consumer_step cap can_suspend s (finish_read cap s)"
| woke: "consumer s = C_WakeProducer \<Longrightarrow> consumer_step cap can_suspend s (wake_producer s)"
| republish: "consumer s = C_Republish \<Longrightarrow>
    consumer_step cap can_suspend s (at_consumer C_Idle (set_flags (slot cap (read_offset s - 1)) CLOSED s))"

definition spsc_move :: "nat \<Rightarrow> bool \<Rightarrow> 'a spsc \<Rightarrow> 'a spsc \<Rightarrow> bool" where
  "spsc_move cap can_suspend s s' \<longleftrightarrow> producer_step cap can_suspend s s' \<or> consumer_step cap can_suspend s s'"

definition spsc_new :: "'a spsc" where
  "spsc_new = \<lparr>write_offset = 0, read_offset = 0, flags_at = (\<lambda>_. Zero), storage = (\<lambda>_. None), closed = False, write_closed_at = 0,
     producer = P_Idle, consumer = C_Idle, consumer_elem = False, published = [], freed = 0, results = []\<rparr>"

definition spsc_start :: "nat \<Rightarrow> 'a spsc \<Rightarrow> bool" where
  "spsc_start cap s \<longleftrightarrow> 0 < cap \<and> cap < 2 ^ 63 \<and> s = spsc_new"

definition spsc_empty :: "nat \<Rightarrow> 'a spsc \<Rightarrow> bool" where
  "spsc_empty cap s \<longleftrightarrow> flags_at s (at_read cap s) = Zero"

section \<open>The destructor\<close>

definition circular_less_than :: "size_t \<Rightarrow> size_t \<Rightarrow> bool" where
  "circular_less_than a b \<longleftrightarrow> a - b > push_bit 63 1"

definition is_data_waiting :: "flags \<Rightarrow> bool" where
  "is_data_waiting f \<longleftrightarrow> data_bit f \<or> is_pointer f"

text \<open>The destructor's own \<open>close\<close>, with nobody else about.\<close>

definition close_alone :: "nat \<Rightarrow> 'a spsc \<Rightarrow> 'a spsc" where
  "close_alone cap s = (if closed s then s
     else set_flags (at_write cap s 0) (close_desired (flags_at s (at_write cap s 0))) (s\<lparr>closed := True, write_closed_at := write_offset s\<rparr>))"

text \<open>The slots destroyed, and the storage afterwards.\<close>

lemma circular_less_than_measure: "circular_less_than i e \<Longrightarrow> unat (e - (i + 1)) < unat (e - i)"
proof -
  assume "circular_less_than i e"
  then have "e - i \<noteq> 0" by (auto simp: circular_less_than_def)
  then have "unat (e - i - 1) < unat (e - i)" by (rule measure_unat)
  then show ?thesis by (simp add: algebra_simps)
qed

function destroy_rest :: "nat \<Rightarrow> (nat \<Rightarrow> flags) \<Rightarrow> size_t \<Rightarrow> size_t \<Rightarrow> (nat \<Rightarrow> 'a option) \<Rightarrow> nat list \<times> (nat \<Rightarrow> 'a option)" where
  "destroy_rest cap fs i e st =
    (if circular_less_than i e
     then if is_data_waiting (fs (slot cap i))
       then (let r = destroy_rest cap fs (i + 1) e (st(slot cap i := None)) in (slot cap i # fst r, snd r))
       else destroy_rest cap fs (i + 1) e st
     else ([], st))"
  by pat_completeness auto

termination by (relation "measure (\<lambda>(cap, fs, i, e, st). unat (e - i))") (auto simp: circular_less_than_measure)

definition spsc_destructor :: "nat \<Rightarrow> 'a spsc \<Rightarrow> nat list \<times> (nat \<Rightarrow> 'a option)" where
  "spsc_destructor cap s = (let s' = close_alone cap s in destroy_rest cap (flags_at s') (read_offset s') (write_closed_at s') (storage s'))"


section \<open>The invariant\<close>

text \<open>The items of the push in progress, while it may write them, and how many are constructed and flagged.\<close>

fun spsc_writing :: "'a producer \<Rightarrow> 'a list" where
  "spsc_writing (P_Emplace xs i) = xs"
| "spsc_writing (P_Store xs i) = xs"
| "spsc_writing (P_Publish xs) = xs"
| "spsc_writing _ = []"

fun constructed :: "'a producer \<Rightarrow> nat" where
  "constructed (P_Emplace xs i) = i"
| "constructed (P_Store xs i) = i + 1"
| "constructed (P_Publish xs) = length xs"
| "constructed _ = 0"

fun flagged :: "'a producer \<Rightarrow> nat" where
  "flagged (P_Emplace xs i) = i"
| "flagged (P_Store xs i) = i"
| "flagged (P_Publish xs) = length xs"
| "flagged _ = 0"

fun asking :: "'a producer \<Rightarrow> 'a list" where
  "asking (P_Ready xs) = xs"
| "asking (P_Suspend xs) = xs"
| "asking (P_Waiting xs) = xs"
| "asking (P_Try x) = [x]"
| "asking p = spsc_writing p"

fun closing :: "'a producer \<Rightarrow> bool" where
  "closing P_CloseAt = True"
| "closing P_CloseLoad = True"
| "closing (P_CloseCas f) = True"
| "closing _ = False"

definition closed_here :: "'a spsc \<Rightarrow> bool" where
  "closed_here s \<longleftrightarrow> closed s \<and> \<not> closing (producer s)"

text \<open>The position that the last item asked for will take, while the producer is suspended on its slot.\<close>

fun producer_waits :: "'a spsc \<Rightarrow> nat option" where
  "producer_waits s = (case producer s of P_Waiting xs \<Rightarrow>
     if consumer s = C_WakeProducer then None else Some (length (published s) + length xs - 1) | _ \<Rightarrow> None)"

definition consumer_waits :: "'a spsc \<Rightarrow> bool" where
  "consumer_waits s \<longleftrightarrow> consumer s = C_Waiting \<and> producer s \<noteq> P_Wake \<and> producer s \<noteq> P_CloseNull"

text \<open>What the flags and the storage of position \<open>p\<close> are, for a position of the ring.\<close>

definition flags_of :: "nat \<Rightarrow> 'a spsc \<Rightarrow> nat \<Rightarrow> flags" where
  "flags_of cap s p = (let W = length (published s) in
     if p < W then (if producer_waits s = Some (p + cap) then ProducerPtr
       else if closed_here s \<and> p + cap = W then DATA_CLOSED else DATA)
     else if p = W then (if closed_here s then (if consumer s = C_Republish then Zero else CLOSED)
       else if consumer_waits s then ConsumerPtr else Zero)
     else if p < W + flagged (producer s) then DATA else Zero)"

definition storage_of :: "'a spsc \<Rightarrow> nat \<Rightarrow> 'a option" where
  "storage_of s p = (let W = length (published s) in
     if p < W then (if p = freed s \<and> consumer s = C_Release then None else Some (published s ! p))
     else if p < W + constructed (producer s) then Some (spsc_writing (producer s) ! (p - W)) else None)"

definition spsc_ring_ok :: "nat \<Rightarrow> 'a spsc \<Rightarrow> bool" where
  "spsc_ring_ok cap s \<longleftrightarrow> (\<forall>p. freed s \<le> p \<and> p < freed s + cap \<longrightarrow>
     flags_at s (p mod cap) = flags_of cap s p \<and> storage s (p mod cap) = storage_of s p)"

definition spsc_offsets_ok :: "nat \<Rightarrow> 'a spsc \<Rightarrow> bool" where
  "spsc_offsets_ok cap s \<longleftrightarrow> 0 < cap \<and> cap < 2 ^ 63 \<and> spsc_in_range cap s (length (asking (producer s))) \<and>
     write_offset s = of_nat (length (published s)) \<and> read_offset s = of_nat (freed s) \<and>
     freed s \<le> length (published s) \<and> length (published s) + length (spsc_writing (producer s)) \<le> freed s + cap"

fun producer_here :: "nat \<Rightarrow> 'a spsc \<Rightarrow> 'a producer \<Rightarrow> bool" where
  "producer_here cap s (P_Ready xs) = (xs \<noteq> [])"
| "producer_here cap s (P_Suspend xs) = (xs \<noteq> [])"
| "producer_here cap s (P_Waiting xs) = (xs \<noteq> [] \<and> (if consumer s = C_WakeProducer then length (published s) + length xs \<le> freed s + cap
     else freed s + cap < length (published s) + length xs))"
| "producer_here cap s (P_Emplace xs i) = (i < length xs)"
| "producer_here cap s (P_Store xs i) = (0 < i \<and> i < length xs)"
| "producer_here cap s (P_Publish xs) = (xs \<noteq> [])"
| "producer_here cap s P_CloseAt = closed s"
| "producer_here cap s P_CloseLoad = closed s"
| "producer_here cap s (P_CloseCas f) = closed s"
| "producer_here cap s P_CloseNull = (consumer s = C_Waiting \<and> closed s \<and> freed s = length (published s))"
| "producer_here cap s P_Wake = (consumer s = C_Waiting \<and> (if consumer_elem s then freed s < length (published s)
     else closed s \<and> freed s = length (published s)))"
| "producer_here cap s P_Bad = False"
| "producer_here cap s _ = True"

definition spsc_producer_ok :: "nat \<Rightarrow> 'a spsc \<Rightarrow> bool" where
  "spsc_producer_ok cap s \<longleftrightarrow> producer_here cap s (producer s) \<and>
     (asking (producer s) \<noteq> [] \<longrightarrow> \<not> closed s \<and> length (asking (producer s)) \<le> cap) \<and>
     (closed s \<and> producer s \<noteq> P_CloseAt \<longrightarrow> write_closed_at s = write_offset s)"

fun consumer_here :: "nat \<Rightarrow> bool \<Rightarrow> 'a spsc \<Rightarrow> consumer \<Rightarrow> bool" where
  "consumer_here cap can_suspend s C_Ready = (consumer_elem s \<and> can_suspend)"
| "consumer_here cap can_suspend s C_Suspend = (consumer_elem s \<and> can_suspend)"
| "consumer_here cap can_suspend s C_Waiting = (can_suspend \<and>
     (consumer_waits s \<longrightarrow> consumer_elem s \<and> freed s = length (published s) \<and> \<not> closed_here s))"
| "consumer_here cap can_suspend s C_Resume = (if consumer_elem s then freed s < length (published s)
     else closed_here s \<and> freed s = length (published s))"
| "consumer_here cap can_suspend s C_Hold = (freed s < length (published s))"
| "consumer_here cap can_suspend s C_Release = (freed s < length (published s))"
| "consumer_here cap can_suspend s C_WakeProducer = (\<exists>xs. producer s = P_Waiting xs)"
| "consumer_here cap can_suspend s C_Republish = (closed_here s \<and> 0 < freed s \<and> length (published s) + 1 = freed s + cap)"
| "consumer_here cap can_suspend s C_Bad = False"
| "consumer_here cap can_suspend s _ = True"

definition spsc_consumer_ok :: "nat \<Rightarrow> bool \<Rightarrow> 'a spsc \<Rightarrow> bool" where
  "spsc_consumer_ok cap can_suspend s \<longleftrightarrow> consumer_here cap can_suspend s (consumer s)"

fun pulled_items :: "'a pulled list \<Rightarrow> 'a option list" where
  "pulled_items [] = []"
| "pulled_items (Pulled x # rs) = x # pulled_items rs"
| "pulled_items (_ # rs) = pulled_items rs"

definition history_ok :: "'a spsc \<Rightarrow> bool" where
  "history_ok s \<longleftrightarrow> pulled_items (results s) =
       map Some (take (if consumer s = C_Release then freed s + 1 else freed s) (published s)) \<and>
     (Was_Closed \<in> set (results s) \<longrightarrow> closed_here s \<and> freed s = length (published s))"

definition spsc_inv :: "nat \<Rightarrow> bool \<Rightarrow> 'a spsc \<Rightarrow> bool" where
  "spsc_inv cap can_suspend s \<longleftrightarrow> spsc_offsets_ok cap s \<and> spsc_ring_ok cap s \<and> spsc_producer_ok cap s \<and> spsc_consumer_ok cap can_suspend s \<and> history_ok s"

lemma spsc_inv_start: "spsc_start cap s \<Longrightarrow> spsc_inv cap can_suspend s"
  by (auto simp: spsc_start_def spsc_new_def spsc_inv_def spsc_offsets_ok_def spsc_ring_ok_def spsc_producer_ok_def spsc_consumer_ok_def history_ok_def
      flags_of_def storage_of_def closed_here_def consumer_waits_def spsc_in_range_def)

subsection \<open>Slots\<close>

lemma slot_of_nat: "cap dvd 2 ^ 64 \<or> n < 2 ^ 64 \<Longrightarrow> slot cap (of_nat n) = n mod cap"
  by (auto simp: slot_def unat_of_nat mod_mod_cancel)

lemma at_write_slot:
  assumes "spsc_offsets_ok cap s" "i < length (asking (producer s)) \<or> i = 0"
  shows "at_write cap s i = (length (published s) + i) mod cap"
proof -
  have "cap dvd 2 ^ 64 \<or> length (published s) + i < 2 ^ 64" using assms by (auto simp: spsc_offsets_ok_def spsc_in_range_def)
  from slot_of_nat [OF this] assms(1) show ?thesis by (simp add: at_write_def spsc_offsets_ok_def)
qed

lemma at_read_slot: "spsc_offsets_ok cap s \<Longrightarrow> at_read cap s = freed s mod cap"
  using slot_of_nat [of cap "freed s"] by (auto simp: at_read_def spsc_offsets_ok_def spsc_in_range_def)

lemma ring_at:
  assumes "spsc_ring_ok cap s" "freed s \<le> p" "p < freed s + cap"
  shows "flags_at s (p mod cap) = flags_of cap s p" "storage s (p mod cap) = storage_of s p"
  using assms by (auto simp: spsc_ring_ok_def)

lemma slots_apart: "a \<le> p \<Longrightarrow> p < a + cap \<Longrightarrow> a \<le> q \<Longrightarrow> q < a + cap \<Longrightarrow> (p mod cap = q mod cap) = (p = (q :: nat))"
  using same_lap [of p cap q] same_lap [of q cap p] by (cases "p \<le> q") auto


lemma full_iff:
  assumes inv: "spsc_inv cap can_suspend s" and xs: "asking (producer s) = xs" "xs \<noteq> []"
    and idle: "spsc_writing (producer s) = []" "flagged (producer s) = 0" "producer_waits s = None"
  shows "flags_at s (at_write cap s (length xs - 1)) = DATA \<longleftrightarrow> freed s + cap < length (published s) + length xs"
proof -
  let ?W = "length (published s)" and ?n = "length xs"
  have i: "spsc_offsets_ok cap s" "spsc_ring_ok cap s" "spsc_producer_ok cap s" using inv by (auto simp: spsc_inv_def)
  have n: "0 < ?n" "?n \<le> cap" "\<not> closed s" using i(3) xs by (auto simp: spsc_producer_ok_def)
  have RW: "freed s \<le> ?W" "?W \<le> freed s + cap" using i(1) by (auto simp: spsc_offsets_ok_def)
  have slot: "at_write cap s (?n - 1) = (?W + (?n - 1)) mod cap" using at_write_slot [OF i(1)] xs n(1) by simp
  show ?thesis
  proof (cases "freed s + cap < ?W + ?n")
    case True
    let ?p = "?W + (?n - 1) - cap"
    have p: "freed s \<le> ?p" "?p < ?W" "?p < freed s + cap" using True n(1,2) RW by linarith+
    have "at_write cap s (?n - 1) = ?p mod cap" unfolding slot by (rule le_mod_geq) (use True n(1) in arith)
    moreover have "flags_of cap s ?p = DATA" using p(2) n(3) idle(3) by (simp add: flags_of_def closed_here_def Let_def)
    ultimately show ?thesis using ring_at(1) [OF i(2) p(1,3)] True by simp
  next
    case False
    then have p: "freed s \<le> ?W + (?n - 1)" "?W + (?n - 1) < freed s + cap" using n(1) RW by linarith+
    have "flags_of cap s (?W + (?n - 1)) \<noteq> DATA" using n(3) idle(2) by (auto simp: flags_of_def closed_here_def Let_def)
    then show ?thesis using ring_at(1) [OF i(2) p] slot False by simp
  qed
qed

text \<open>A step changes the flags of at most one position and the storage of at most one.\<close>

lemma ring_upd:
  assumes "spsc_ring_ok cap s" "freed s' = freed s" "freed s \<le> q" "q < freed s + cap"
    and "flags_at s' = (flags_at s)(q mod cap := f)" "storage s' = storage s"
    and "\<And>p. freed s \<le> p \<Longrightarrow> p < freed s + cap \<Longrightarrow> flags_of cap s' p = (if p = q then f else flags_of cap s p)"
    and "\<And>p. freed s \<le> p \<Longrightarrow> p < freed s + cap \<Longrightarrow> storage_of s' p = storage_of s p"
  shows "spsc_ring_ok cap s'"
proof -
  have "flags_at s' (p mod cap) = flags_of cap s' p \<and> storage s' (p mod cap) = storage_of s' p"
    if p: "freed s \<le> p" "p < freed s + cap" for p
    using slots_apart [OF p assms(3,4)] ring_at [OF assms(1) p] assms(5,6) assms(7,8) [OF p] by simp
  then show ?thesis unfolding spsc_ring_ok_def assms(2) by blast
qed

lemma ring_store:
  assumes "spsc_ring_ok cap s" "freed s' = freed s" "freed s \<le> q" "q < freed s + cap"
    and "storage s' = (storage s)(q mod cap := x)" "flags_at s' = flags_at s"
    and "\<And>p. freed s \<le> p \<Longrightarrow> p < freed s + cap \<Longrightarrow> storage_of s' p = (if p = q then x else storage_of s p)"
    and "\<And>p. freed s \<le> p \<Longrightarrow> p < freed s + cap \<Longrightarrow> flags_of cap s' p = flags_of cap s p"
  shows "spsc_ring_ok cap s'"
proof -
  have "flags_at s' (p mod cap) = flags_of cap s' p \<and> storage s' (p mod cap) = storage_of s' p"
    if p: "freed s \<le> p" "p < freed s + cap" for p
    using slots_apart [OF p assms(3,4)] ring_at [OF assms(1) p] assms(5,6) assms(7,8) [OF p] by simp
  then show ?thesis unfolding spsc_ring_ok_def assms(2) by blast
qed

lemma ring_kept:
  assumes "spsc_ring_ok cap s" "freed s' = freed s" "flags_at s' = flags_at s" "storage s' = storage s"
    and "\<And>p. freed s \<le> p \<Longrightarrow> p < freed s + cap \<Longrightarrow> flags_of cap s' p = flags_of cap s p \<and> storage_of s' p = storage_of s p"
  shows "spsc_ring_ok cap s'"
proof -
  have "flags_at s' (p mod cap) = flags_of cap s' p \<and> storage s' (p mod cap) = storage_of s' p"
    if p: "freed s \<le> p" "p < freed s + cap" for p
    using ring_at [OF assms(1) p] assms(3,4) assms(5) [OF p] by simp
  then show ?thesis unfolding spsc_ring_ok_def assms(2) by blast
qed

lemmas inv_parts = spsc_offsets_ok_def spsc_producer_ok_def spsc_consumer_ok_def history_ok_def
lemmas seen_parts = flags_of_def storage_of_def closed_here_def consumer_waits_def spsc_in_range_def

text \<open>The consumer's part depends on the producer only through a few facts.\<close>

lemma consumer_ok_kept:
  assumes "spsc_consumer_ok cap can_suspend s" "consumer s' = consumer s" "freed s' = freed s" "published s' = published s"
    and "consumer_elem s' = consumer_elem s" "closed_here s' = closed_here s" "consumer_waits s' = consumer_waits s"
    and "consumer s \<noteq> C_WakeProducer"
  shows "spsc_consumer_ok cap can_suspend s'"
  using assms by (cases "consumer s") (auto simp: spsc_consumer_ok_def)

lemma consumer_ok_more:
  assumes "spsc_consumer_ok cap can_suspend s" "consumer s' = consumer s" "freed s' = freed s"
    and "length (published s) \<le> length (published s')" "consumer_elem s' = consumer_elem s"
    and "\<not> closed_here s" "\<not> consumer_waits s'" "consumer s \<noteq> C_WakeProducer"
  shows "spsc_consumer_ok cap can_suspend s'"
  using assms by (cases "consumer s") (auto simp: spsc_consumer_ok_def split: if_splits)

lemma producer_ok_here: "spsc_producer_ok cap s \<Longrightarrow> producer s = p \<Longrightarrow> producer_here cap s p"
  by (simp add: spsc_producer_ok_def)

lemma wake_producer_at: "spsc_consumer_ok cap can_suspend s \<Longrightarrow> \<nexists>xs. producer s = P_Waiting xs \<Longrightarrow> consumer s \<noteq> C_WakeProducer"
  by (auto simp: spsc_consumer_ok_def)

lemma inv_producer_quiet:
  assumes inv: "spsc_inv cap can_suspend s"
    and same: "flags_at s' = flags_at s" "storage s' = storage s" "published s' = published s" "freed s' = freed s"
      "write_offset s' = write_offset s" "read_offset s' = read_offset s" "consumer s' = consumer s" "results s' = results s"
    and seen: "consumer_elem s' = consumer_elem s" "closed_here s' = closed_here s" "consumer_waits s' = consumer_waits s"
    and idle: "spsc_writing (producer s) = []" "flagged (producer s) = 0" "constructed (producer s) = 0" "\<nexists>xs. producer s = P_Waiting xs"
    and new: "flagged (producer s') = 0" "constructed (producer s') = 0" "\<nexists>xs. producer s' = P_Waiting xs"
    and ok: "spsc_producer_ok cap s'" "spsc_in_range cap s (length (asking (producer s')))"
      "length (published s) + length (spsc_writing (producer s')) \<le> freed s + cap"
  shows "spsc_inv cap can_suspend s'"
proof -
  have i: "spsc_offsets_ok cap s" "spsc_ring_ok cap s" "spsc_producer_ok cap s" "spsc_consumer_ok cap can_suspend s" "history_ok s"
    using inv by (auto simp: spsc_inv_def)
  have w: "consumer s \<noteq> C_WakeProducer" by (rule wake_producer_at [OF i(4) idle(4)])
  have pw: "producer_waits s = None" "producer_waits s' = None" using idle(4) new(3) by (auto split: producer.splits)
  have "spsc_consumer_ok cap can_suspend s'" by (rule consumer_ok_kept [OF i(4) same(7,4,3) seen w])
  moreover have "spsc_ring_ok cap s'"
    by (rule ring_kept [OF i(2) same(4,1,2)]) (unfold flags_of_def storage_of_def same seen pw idle(2,3) new(1,2) Let_def, simp)
  moreover have "spsc_offsets_ok cap s'" using i(1) ok(2,3) same by (simp add: spsc_offsets_ok_def spsc_in_range_def)
  moreover have "history_ok s'" using i(5) same seen by (simp add: history_ok_def)
  ultimately show ?thesis using ok(1) by (simp add: spsc_inv_def)
qed


lemma inv_facts:
  assumes "spsc_inv cap can_suspend s"
  shows "spsc_offsets_ok cap s" "spsc_ring_ok cap s" "spsc_producer_ok cap s" "spsc_consumer_ok cap can_suspend s" "history_ok s"
    and "freed s \<le> length (published s)" "length (published s) + length (spsc_writing (producer s)) \<le> freed s + cap" "0 < cap"
    "spsc_in_range cap s (length (asking (producer s)))"
  using assms by (auto simp: spsc_inv_def spsc_offsets_ok_def)

lemmas produces = at_producer_def set_flags_def closed_here_def consumer_waits_def spsc_producer_ok_def

lemma inv_push_suspend:
  assumes inv: "spsc_inv cap can_suspend s" and at: "producer s = P_Suspend xs"
  defines "e \<equiv> at_write cap s (length xs - 1)"
  shows "spsc_inv cap can_suspend (if flags_at s e = DATA then at_producer (P_Waiting xs) (set_flags e ProducerPtr s)
      else at_producer (P_Emplace xs 0) s)"
proof -
  note i = inv_facts [OF inv]
  have x: "xs \<noteq> []" using producer_ok_here [OF i(3) at] by simp
  have full: "flags_at s e = DATA \<longleftrightarrow> freed s + cap < length (published s) + length xs"
    unfolding e_def by (rule full_iff [OF inv]) (simp_all add: at x)
  have n: "length xs \<le> cap" "\<not> closed s" "0 < length xs" using i(3) at x by (simp_all add: spsc_producer_ok_def)
  have w: "consumer s \<noteq> C_WakeProducer" by (rule wake_producer_at [OF i(4)]) (simp add: at)
  show ?thesis
  proof (cases "flags_at s e = DATA")
    case False
    have "spsc_ring_ok cap (at_producer (P_Emplace xs 0) s)"
      by (rule ring_kept [OF i(2)]) (use at in \<open>simp_all add: seen_parts at_producer_def Let_def cong: if_cong\<close>)
    moreover have "spsc_consumer_ok cap can_suspend (at_producer (P_Emplace xs 0) s)"
      by (rule consumer_ok_kept [OF i(4)]) (use at w in \<open>simp_all add: produces\<close>)
    ultimately show ?thesis unfolding spsc_inv_def using i at False full n
      by (simp add: spsc_offsets_ok_def history_ok_def produces spsc_in_range_def i(8))
  next
    case True
    define p where "p = length (published s) + length xs - 1 - cap"
    have pe: "length (published s) + length xs - 1 = p + cap" unfolding p_def using True full by linarith
    have p: "freed s \<le> p" "p < freed s + cap" "p < length (published s)" using True full n i(6-8) pe by linarith+
    have "e = (length (published s) + (length xs - 1)) mod cap" unfolding e_def using at_write_slot [OF i(1)] at n(3) by simp
    then have slot: "e = p mod cap" using pe n(3) by simp
    let ?s = "at_producer (P_Waiting xs) (set_flags (p mod cap) ProducerPtr s)"
    have pw: "producer_waits ?s = Some (p + cap)" "producer_waits s = None" using pe w at by (simp_all add: produces)
    have "spsc_ring_ok cap ?s"
    proof (rule ring_upd [OF i(2) _ p(1,2), where f = ProducerPtr])
      show "flags_of cap ?s q = (if q = p then ProducerPtr else flags_of cap s q)" for q
        unfolding flags_of_def pw using p(3) at n(2) by (auto simp: produces Let_def simp del: producer_waits.simps)
    qed (simp_all add: at_producer_def set_flags_def storage_of_def at Let_def)
    moreover have "spsc_consumer_ok cap can_suspend ?s"
      by (rule consumer_ok_kept [OF i(4)]) (use at w in \<open>simp_all add: produces\<close>)
    ultimately show ?thesis unfolding spsc_inv_def using i at True slot full n w
      by (simp add: spsc_offsets_ok_def history_ok_def produces spsc_in_range_def i(8))
  qed
qed

lemma inv_emplaced:
  assumes inv: "spsc_inv cap can_suspend s" and at: "producer s = P_Emplace xs j"
  shows "spsc_inv cap can_suspend (emplace cap xs j s)"
proof -
  note i = inv_facts [OF inv]
  have j: "j < length xs" "xs \<noteq> []" using producer_ok_here [OF i(3) at] by auto
  have x: "length xs \<le> cap" "\<not> closed s" "length (published s) + length xs \<le> freed s + cap" "spsc_in_range cap s (length xs)"
    using i(1,3) at j by (auto simp: spsc_producer_ok_def spsc_offsets_ok_def)
  have w: "consumer s \<noteq> C_WakeProducer" by (rule wake_producer_at [OF i(4)]) (simp add: at)
  have p: "freed s \<le> length (published s) + j" "length (published s) + j < freed s + cap" using i(6) x(3) j by linarith+
  have slot: "at_write cap s j = (length (published s) + j) mod cap" using at_write_slot [OF i(1)] at j by simp
  note e = emplace_def slot write_next_def
  have "spsc_ring_ok cap (emplace cap xs j s)"
  proof (rule ring_store [OF i(2) _ p, where x = "Some (xs ! j)"])
    fix q
    show "storage_of (emplace cap xs j s) q = (if q = length (published s) + j then Some (xs ! j) else storage_of s q)"
      using at j by (auto simp: e storage_of_def Let_def)
    show "flags_of cap (emplace cap xs j s) q = flags_of cap s q"
      using at j by (auto simp: e seen_parts Let_def)
  qed (simp_all add: e)
  moreover have "spsc_consumer_ok cap can_suspend (emplace cap xs j s)"
    by (rule consumer_ok_kept [OF i(4)]) (use at w x in \<open>simp_all add: e produces\<close>)
  ultimately show ?thesis unfolding spsc_inv_def using i at x j
    by (simp add: spsc_offsets_ok_def history_ok_def produces spsc_in_range_def e i(8))
qed

lemma inv_stored:
  assumes inv: "spsc_inv cap can_suspend s" and at: "producer s = P_Store xs j"
  shows "spsc_inv cap can_suspend (at_producer (write_next xs (j + 1)) (set_flags (at_write cap s j) DATA s))" (is "spsc_inv _ _ ?s")
proof -
  note i = inv_facts [OF inv]
  have j: "0 < j" "j < length xs" "xs \<noteq> []" using producer_ok_here [OF i(3) at] by auto
  have x: "length xs \<le> cap" "\<not> closed s" "length (published s) + length xs \<le> freed s + cap" "spsc_in_range cap s (length xs)"
    using i(1,3) at j by (auto simp: spsc_producer_ok_def spsc_offsets_ok_def)
  have w: "consumer s \<noteq> C_WakeProducer" by (rule wake_producer_at [OF i(4)]) (simp add: at)
  have p: "freed s \<le> length (published s) + j" "length (published s) + j < freed s + cap" using i(6) x(3) j by linarith+
  have slot: "at_write cap s j = (length (published s) + j) mod cap" using at_write_slot [OF i(1)] at j by simp
  note e = slot write_next_def produces
  have "spsc_ring_ok cap ?s"
  proof (rule ring_upd [OF i(2) _ p, where f = DATA])
    fix q
    show "flags_of cap ?s q = (if q = length (published s) + j then DATA else flags_of cap s q)"
      using at j by (auto simp: e seen_parts Let_def)
    show "storage_of ?s q = storage_of s q"
      using at j by (auto simp: e storage_of_def Let_def)
  qed (simp_all add: e)
  moreover have "spsc_consumer_ok cap can_suspend ?s"
    by (rule consumer_ok_kept [OF i(4)]) (use at w x in \<open>simp_all add: e\<close>)
  ultimately show ?thesis unfolding spsc_inv_def using i at x j
    by (simp add: spsc_offsets_ok_def history_ok_def spsc_in_range_def e i(8))
qed

lemma inv_close_null:
  assumes inv: "spsc_inv cap can_suspend s" and at: "producer s = P_CloseNull"
  shows "spsc_inv cap can_suspend (at_producer P_Wake (s\<lparr>consumer_elem := False\<rparr>))" (is "spsc_inv _ _ ?s")
proof -
  note i = inv_facts [OF inv]
  have h: "consumer s = C_Waiting" "closed s" "freed s = length (published s)" using producer_ok_here [OF i(3) at] by simp_all
  have "spsc_ring_ok cap ?s"
    by (rule ring_kept [OF i(2)]) (use at in \<open>simp_all add: seen_parts at_producer_def Let_def\<close>)
  then show ?thesis unfolding spsc_inv_def using i at h
    by (simp add: spsc_offsets_ok_def history_ok_def spsc_consumer_ok_def produces spsc_in_range_def i(8))
qed

lemma inv_published:
  assumes inv: "spsc_inv cap can_suspend s" and at: "producer s = P_Publish xs"
  shows "spsc_inv cap can_suspend (spsc_publish cap can_suspend xs s)"
proof -
  note i = inv_facts [OF inv]
  let ?W = "length (published s)"
  have x: "xs \<noteq> []" "length xs \<le> cap" "\<not> closed s" "?W + length xs \<le> freed s + cap" "spsc_in_range cap s (length xs)"
    using producer_ok_here [OF i(3) at] i(1,3) at by (auto simp: spsc_producer_ok_def spsc_offsets_ok_def)
  have n: "0 < length xs" using x(1) by simp
  have w: "consumer s \<noteq> C_WakeProducer" by (rule wake_producer_at [OF i(4)]) (simp add: at)
  have c: "closed_here s = False" "consumer_waits s = (consumer s = C_Waiting)" "producer_waits s = None"
    using x(3) at by (simp_all add: produces)
  have p: "freed s \<le> ?W" "?W < freed s + cap" using i(6) x(4) n by linarith+
  have slot: "at_write cap s 0 = ?W mod cap" using at_write_slot [OF i(1), of 0] by simp
  have f: "flags_at s (?W mod cap) = (if consumer s = C_Waiting then ConsumerPtr else Zero)"
    using ring_at(1) [OF i(2) p] c by (simp add: flags_of_def)
  have can: "consumer s = C_Waiting \<Longrightarrow> can_suspend \<and> consumer_elem s \<and> freed s = ?W" using i(4) c by (simp add: spsc_consumer_ok_def)
  have rel: "consumer s = C_Release \<Longrightarrow> freed s < ?W" using i(4) by (simp add: spsc_consumer_ok_def)
  let ?p = "if consumer s = C_Waiting then P_Wake else P_Idle"
  define s' where "s' = (set_flags (?W mod cap) DATA s)\<lparr>write_offset := write_offset s + of_nat (length xs),
    published := published s @ xs, producer := ?p\<rparr>"
  have s': "spsc_publish cap can_suspend xs s = s'"
    using f can by (simp add: spsc_publish_def slot s'_def Let_def)
  have c': "closed_here s' = False" "consumer_waits s' = False" "producer_waits s' = None" "flagged (producer s') = 0"
    "constructed (producer s') = 0" "consumer s' = consumer s" "freed s' = freed s" "published s' = published s @ xs"
    using x(3) by (simp_all add: s'_def produces)
  have "spsc_ring_ok cap s'"
  proof (rule ring_upd [OF i(2) _ p, where f = DATA])
    fix q assume q: "freed s \<le> q" "q < freed s + cap"
    show "flags_of cap s' q = (if q = ?W then DATA else flags_of cap s q)"
      unfolding flags_of_def c c' Let_def using n at by auto
    show "storage_of s' q = storage_of s q"
      unfolding storage_of_def c' Let_def using n at rel by (auto simp: nth_append)
  qed (simp_all add: s'_def set_flags_def)
  moreover have "spsc_consumer_ok cap can_suspend s'"
    by (rule consumer_ok_more [OF i(4)]) (use c c' w in \<open>simp_all add: s'_def set_flags_def\<close>)
  moreover have "spsc_offsets_ok cap s'" using i(1,6,8) x at by (auto simp: spsc_offsets_ok_def s'_def set_flags_def spsc_in_range_def)
  moreover have "spsc_producer_ok cap s'"
    using i(3,8) x at can n by (auto simp: s'_def produces)
  moreover have "history_ok s'" using i(5) c p x rel unfolding history_ok_def c' by (auto simp: s'_def set_flags_def)
  ultimately show ?thesis unfolding s' spsc_inv_def by blast
qed

lemma inv_woken:
  assumes inv: "spsc_inv cap can_suspend s" and at: "producer s = P_Wake"
  shows "spsc_inv cap can_suspend (wake_consumer s)"
proof -
  note i = inv_facts [OF inv]
  have h: "consumer s = C_Waiting" "if consumer_elem s then freed s < length (published s) else closed s \<and> freed s = length (published s)"
    using producer_ok_here [OF i(3) at] by simp_all
  have s': "wake_consumer s = s\<lparr>producer := P_Idle, consumer := C_Resume\<rparr>" by (simp add: wake_consumer_def h)
  have "spsc_ring_ok cap (s\<lparr>producer := P_Idle, consumer := C_Resume\<rparr>)"
    by (rule ring_kept [OF i(2)]) (use at h in \<open>simp_all add: seen_parts Let_def\<close>)
  then show ?thesis unfolding s' spsc_inv_def using i at h
    by (simp add: spsc_offsets_ok_def history_ok_def spsc_consumer_ok_def produces spsc_in_range_def i(8))
qed

lemma inv_close_cas:
  assumes inv: "spsc_inv cap can_suspend s" and at: "producer s = P_CloseCas cur" and f: "flags_at s (at_write cap s 0) = cur"
  shows "spsc_inv cap can_suspend (at_producer (if cur = ConsumerPtr then P_CloseNull else if cur = ProducerPtr then P_Bad else P_Idle)
      (set_flags (at_write cap s 0) (close_desired cur) s))" (is "spsc_inv _ _ ?s")
proof -
  note i = inv_facts [OF inv]
  let ?W = "length (published s)"
  have h: "closed s" using producer_ok_here [OF i(3) at] by simp
  have w: "consumer s \<noteq> C_WakeProducer" by (rule wake_producer_at [OF i(4)]) (simp add: at)
  have c: "closed_here s = False" "consumer_waits s = (consumer s = C_Waiting)" "producer_waits s = None"
    "flagged (producer s) = 0" "constructed (producer s) = 0"
    using at by (simp_all add: produces)
  have slot: "at_write cap s 0 = ?W mod cap" using at_write_slot [OF i(1), of 0] by simp
  define p where "p = (if ?W < freed s + cap then ?W else freed s)"
  have p: "freed s \<le> p" "p < freed s + cap" "?W mod cap = p mod cap" "p + cap = ?W \<or> p = ?W"
    using i(6-8) at by (auto simp: p_def)
  have pw: "p < ?W \<longleftrightarrow> \<not> ?W < freed s + cap" using i(6-8) at by (auto simp: p_def)
  have cur: "cur = (if ?W < freed s + cap then if consumer s = C_Waiting then ConsumerPtr else Zero else DATA)"
  proof -
    have "cur = flags_of cap s p" using ring_at(1) [OF i(2) p(1,2)] f slot p(3) by metis
    then show ?thesis using pw p(4) unfolding flags_of_def c Let_def by auto
  qed
  have can: "consumer s = C_Waiting \<Longrightarrow> can_suspend \<and> consumer_elem s \<and> freed s = ?W" using i(4) c by (simp add: spsc_consumer_ok_def)
  have republish: "consumer s \<noteq> C_Republish" using i(4) c by (auto simp: spsc_consumer_ok_def)
  let ?p = "if consumer s = C_Waiting then P_CloseNull else P_Idle"
  have s': "?s = at_producer ?p (set_flags (p mod cap) (if ?W < freed s + cap then CLOSED else DATA_CLOSED) s)"
    unfolding slot p(3) using cur can i(8) by (auto simp: close_desired_def)
  define s' where "s' = at_producer ?p (set_flags (p mod cap) (if ?W < freed s + cap then CLOSED else DATA_CLOSED) s)"
  have c': "closed_here s' = True" "consumer_waits s' = False" "producer_waits s' = None" "flagged (producer s') = 0"
    "constructed (producer s') = 0" "consumer s' = consumer s" "freed s' = freed s" "published s' = published s"
    using h by (simp_all add: s'_def produces)
  have "spsc_ring_ok cap s'"
  proof (rule ring_upd [OF i(2) _ p(1,2), where f = "if ?W < freed s + cap then CLOSED else DATA_CLOSED"])
    fix q assume q: "freed s \<le> q" "q < freed s + cap"
    show "flags_of cap s' q = (if q = p then if ?W < freed s + cap then CLOSED else DATA_CLOSED else flags_of cap s q)"
      unfolding flags_of_def c c' Let_def using p q pw republish can i(6,8) by (auto simp: p_def)
    show "storage_of s' q = storage_of s q"
      unfolding storage_of_def c c' Let_def by simp
  qed (simp_all add: s'_def produces)
  moreover have "spsc_consumer_ok cap can_suspend s'"
    by (rule consumer_ok_more [OF i(4)]) (use c c' w in \<open>simp_all add: s'_def at_producer_def set_flags_def\<close>)
  moreover have "spsc_offsets_ok cap s'" using i(1,6,8) at by (auto simp: spsc_offsets_ok_def s'_def produces spsc_in_range_def)
  moreover have "spsc_producer_ok cap s'"
    using i(3,8) at can h by (auto simp: s'_def produces)
  moreover have "history_ok s'" using i(5) c unfolding history_ok_def c' by (auto simp: s'_def produces)
  ultimately show ?thesis unfolding s' spsc_inv_def s'_def by blast
qed

lemma inv_producer_step:
  assumes inv: "spsc_inv cap can_suspend s" and step: "producer_step cap can_suspend s s'"
  shows "spsc_inv cap can_suspend s'"
proof -
  have i: "spsc_offsets_ok cap s" "spsc_ring_ok cap s" "spsc_producer_ok cap s" "spsc_consumer_ok cap can_suspend s" "history_ok s"
    using inv by (auto simp: spsc_inv_def)
  let ?W = "length (published s)" and ?R = "freed s"
  have RW: "?R \<le> ?W" "?W + length (spsc_writing (producer s)) \<le> ?R + cap" "0 < cap" "spsc_in_range cap s 0"
    using i(1) by (auto simp: spsc_offsets_ok_def spsc_in_range_def)
  note sp = at_producer_def closed_here_def consumer_waits_def spsc_producer_ok_def
  show ?thesis
    using step
  proof cases
    case (push xs)
    show ?thesis by (rule inv_producer_quiet [OF inv]) (use push i(3) RW in \<open>simp_all add: sp\<close>)
  next
    case (push_ready xs)
    have x: "xs \<noteq> []" using producer_ok_here [OF i(3) push_ready(2)] by simp
    have f: "flags_at s (at_write cap s (length xs - 1)) = DATA \<longleftrightarrow> ?R + cap < ?W + length xs"
      by (rule full_iff [OF inv]) (simp_all add: push_ready(2) x)
    have r: "spsc_in_range cap s (length xs)" using i(1) push_ready(2) by (simp add: spsc_offsets_ok_def)
    show ?thesis by (rule inv_producer_quiet [OF inv]) (use push_ready i(3) RW f x r in \<open>simp_all add: sp split: if_splits\<close>)
  next
    case (try_push x)
    show ?thesis by (rule inv_producer_quiet [OF inv]) (use try_push i(3) RW in \<open>simp_all add: sp\<close>)
  next
    case (try_poll x)
    have f: "flags_at s (at_write cap s (length [x] - 1)) = DATA \<longleftrightarrow> ?R + cap < ?W + length [x]"
      by (rule full_iff [OF inv]) (simp_all add: try_poll(2))
    have r: "spsc_in_range cap s 1" using i(1) try_poll(2) by (simp add: spsc_offsets_ok_def)
    show ?thesis by (rule inv_producer_quiet [OF inv]) (use try_poll i(3) RW f r in \<open>simp_all add: sp split: if_splits\<close>)
  next
    case close
    show ?thesis by (rule inv_producer_quiet [OF inv]) (use close i(3) RW in \<open>simp_all add: sp\<close>)
  next
    case close_flag
    show ?thesis by (rule inv_producer_quiet [OF inv]) (use close_flag i(3) RW in \<open>simp_all add: sp spsc_in_range_def split: if_splits\<close>)
  next
    case close_offset
    show ?thesis by (rule inv_producer_quiet [OF inv])
      (use close_offset i(3) RW producer_ok_here [OF i(3) close_offset(2)] in \<open>simp_all add: sp spsc_in_range_def\<close>)
  next
    case close_load
    show ?thesis by (rule inv_producer_quiet [OF inv])
      (use close_load i(3) RW producer_ok_here [OF i(3) close_load(2)] in \<open>simp_all add: sp spsc_in_range_def\<close>)
  next
    case (close_cas_fails cur)
    show ?thesis by (rule inv_producer_quiet [OF inv])
      (use close_cas_fails i(3) RW producer_ok_here [OF i(3) close_cas_fails(2)] in \<open>simp_all add: sp spsc_in_range_def\<close>)
  next
    case (push_suspend xs)
    then show ?thesis using inv_push_suspend [OF inv] by simp
  next
    case (emplaced xs j)
    then show ?thesis using inv_emplaced [OF inv] by simp
  next
    case (stored xs j)
    then show ?thesis using inv_stored [OF inv] by simp
  next
    case (published xs)
    then show ?thesis using inv_published [OF inv] by simp
  next
    case woken
    then show ?thesis using inv_woken [OF inv] by simp
  next
    case (close_cas cur)
    then show ?thesis using inv_close_cas [OF inv close_cas(2,3)] by simp
  next
    case close_null
    then show ?thesis using inv_close_null [OF inv] by simp
  qed
qed

lemma inv_consumer_quiet:
  assumes inv: "spsc_inv cap can_suspend s"
    and same: "flags_at s' = flags_at s" "storage s' = storage s" "published s' = published s" "freed s' = freed s"
      "write_offset s' = write_offset s" "read_offset s' = read_offset s" "producer s' = producer s" "closed s' = closed s"
      "write_closed_at s' = write_closed_at s"
    and here: "consumer s \<notin> {C_Waiting, C_Republish, C_WakeProducer, C_Release}"
      "consumer s' \<notin> {C_Waiting, C_Republish, C_WakeProducer, C_Release}"
    and ok: "spsc_consumer_ok cap can_suspend s'" "pulled_items (results s') = pulled_items (results s)"
      "Was_Closed \<in> set (results s') \<longrightarrow> Was_Closed \<in> set (results s) \<or> closed_here s \<and> freed s = length (published s)"
  shows "spsc_inv cap can_suspend s'"
proof -
  note i = inv_facts [OF inv]
  have pw: "producer_waits s' = producer_waits s" using here same by (auto split: producer.splits)
  have ch: "closed_here s' = closed_here s" using same by (simp add: closed_here_def)
  have cw: "consumer_waits s = False" "consumer_waits s' = False" using here by (auto simp: consumer_waits_def)
  have cc: "(consumer s = C_Republish) = False" "(consumer s' = C_Republish) = False" "(consumer s = C_Release) = False"
    "(consumer s' = C_Release) = False" using here by auto
  have "spsc_ring_ok cap s'"
    by (rule ring_kept [OF i(2) same(4,1,2)]) (unfold flags_of_def storage_of_def same pw ch cw cc Let_def, simp)
  moreover have "producer_here cap s' (producer s)"
    using i(3) here unfolding spsc_producer_ok_def by (cases "producer s") (auto simp: same)
  moreover have "spsc_producer_ok cap s'" if "producer_here cap s' (producer s)" using i(3) that by (simp add: spsc_producer_ok_def same)
  moreover have "spsc_offsets_ok cap s'" using i(1) same by (simp add: spsc_offsets_ok_def spsc_in_range_def)
  moreover have "history_ok s'" using i(5) ok(2,3) unfolding history_ok_def cc same ch by auto
  ultimately show ?thesis using ok(1) by (simp add: spsc_inv_def)
qed

text \<open>What the consumer can see in its element.\<close>

lemma read_flags:
  assumes inv: "spsc_inv cap can_suspend s" and c: "consumer s \<noteq> C_Waiting" "consumer s \<noteq> C_Republish"
  shows "data_bit (flags_at s (at_read cap s)) \<or> is_pointer (flags_at s (at_read cap s)) \<longleftrightarrow> freed s < length (published s)"
    and "flags_at s (at_read cap s) = CLOSED \<longleftrightarrow> freed s = length (published s) \<and> closed_here s"
    and "flags_at s (at_read cap s) = Zero \<longleftrightarrow> freed s = length (published s) \<and> \<not> closed_here s"
proof -
  note i = inv_facts [OF inv]
  have f: "flags_at s (at_read cap s) = flags_of cap s (freed s)"
    using ring_at(1) [OF i(2) order_refl] at_read_slot [OF i(1)] i(8) by simp
  have "consumer_waits s = False" using c by (simp add: consumer_waits_def)
  then show "data_bit (flags_at s (at_read cap s)) \<or> is_pointer (flags_at s (at_read cap s)) \<longleftrightarrow> freed s < length (published s)"
    "flags_at s (at_read cap s) = CLOSED \<longleftrightarrow> freed s = length (published s) \<and> closed_here s"
    "flags_at s (at_read cap s) = Zero \<longleftrightarrow> freed s = length (published s) \<and> \<not> closed_here s"
    unfolding f flags_of_def Let_def using c i(6) by (auto simp: data_bit_def is_pointer_def)
qed

lemma pulled_items_append [simp]: "pulled_items (rs @ rs') = pulled_items rs @ pulled_items rs'"
  by (induction rs rule: pulled_items.induct) simp_all

lemma consumer_ok_here: "spsc_consumer_ok cap can_suspend s \<Longrightarrow> consumer s = c \<Longrightarrow> consumer_here cap can_suspend s c"
  by (simp add: spsc_consumer_ok_def)

lemma inv_try_wait:
  assumes inv: "spsc_inv cap can_suspend s" and at: "consumer s = C_Suspend"
  shows "spsc_inv cap can_suspend (try_wait cap s)"
proof -
  note i = inv_facts [OF inv]
  note f = read_flags [OF inv, unfolded at, simplified]
  have h: "consumer_elem s" "can_suspend" using consumer_ok_here [OF i(4) at] by simp_all
  show ?thesis
  proof (cases "flags_at s (at_read cap s) = Zero")
    case False
    then show ?thesis
      by (intro inv_consumer_quiet [OF inv])
        (use at f h i(6) in \<open>auto simp: try_wait_def at_consumer_def Let_def spsc_consumer_ok_def closed_here_def\<close>)
  next
    case True
    then have R: "freed s = length (published s)" "\<not> closed_here s" using f by auto
    have p: "freed s \<le> freed s" "freed s < freed s + cap" using i(8) by auto
    have slot: "at_read cap s = freed s mod cap" by (rule at_read_slot [OF i(1)])
    let ?s = "at_consumer C_Waiting (set_flags (freed s mod cap) ConsumerPtr s)"
    have pc: "producer s \<noteq> P_Wake" "producer s \<noteq> P_CloseNull" using i(3) at by (auto simp: spsc_producer_ok_def)
    have pw: "producer_waits ?s = producer_waits s" using at by (simp add: at_consumer_def set_flags_def split: producer.splits)
    have ch: "closed_here ?s = closed_here s" by (simp add: closed_here_def at_consumer_def set_flags_def)
    have cw: "consumer_waits s = False" "consumer_waits ?s = True" using at pc by (simp_all add: consumer_waits_def at_consumer_def set_flags_def)
    have "spsc_ring_ok cap ?s"
    proof (rule ring_upd [OF i(2) _ p, where f = ConsumerPtr])
      fix q
      show "flags_of cap ?s q = (if q = freed s then ConsumerPtr else flags_of cap s q)"
        unfolding flags_of_def pw ch cw Let_def using R at by (simp add: at_consumer_def set_flags_def)
      show "storage_of ?s q = storage_of s q"
        using at by (simp add: storage_of_def at_consumer_def set_flags_def Let_def)
    qed (simp_all add: at_consumer_def set_flags_def)
    moreover have "producer_here cap ?s (producer s)"
      using i(3) at unfolding spsc_producer_ok_def by (cases "producer s") (auto simp: at_consumer_def set_flags_def)
    moreover have "spsc_producer_ok cap ?s" if "producer_here cap ?s (producer s)"
      using i(3) that by (simp add: spsc_producer_ok_def at_consumer_def set_flags_def)
    moreover have "spsc_consumer_ok cap can_suspend ?s" using R h by (simp add: spsc_consumer_ok_def ch at_consumer_def set_flags_def closed_here_def)
    moreover have "spsc_offsets_ok cap ?s" using i(1) by (simp add: spsc_offsets_ok_def spsc_in_range_def at_consumer_def set_flags_def)
    moreover have "history_ok ?s" using i(5) at ch by (simp add: history_ok_def at_consumer_def set_flags_def closed_here_def)
    ultimately show ?thesis using True by (simp add: spsc_inv_def try_wait_def slot)
  qed
qed

lemma inv_release:
  assumes inv: "spsc_inv cap can_suspend s" and at: "consumer s = C_Hold"
  shows "spsc_inv cap can_suspend (s\<lparr>consumer := C_Release, results := results s @ [Pulled (storage s (at_read cap s))],
      storage := (storage s)(at_read cap s := None)\<rparr>)" (is "spsc_inv _ _ ?s")
proof -
  note i = inv_facts [OF inv]
  have R: "freed s < length (published s)" using consumer_ok_here [OF i(4) at] by simp
  have p: "freed s \<le> freed s" "freed s < freed s + cap" using i(8) by auto
  have slot: "at_read cap s = freed s mod cap" by (rule at_read_slot [OF i(1)])
  have v: "storage s (freed s mod cap) = Some (published s ! freed s)"
    using ring_at(2) [OF i(2) p] R at by (simp add: storage_of_def)
  have pw: "producer_waits ?s = producer_waits s" using at by (simp split: producer.splits)
  have ch: "closed_here ?s = closed_here s" by (simp add: closed_here_def)
  have cw: "consumer_waits s = False" "consumer_waits ?s = False" using at by (simp_all add: consumer_waits_def)
  have "spsc_ring_ok cap ?s"
  proof (rule ring_store [OF i(2) _ p, where x = None])
    fix q
    show "storage_of ?s q = (if q = freed s then None else storage_of s q)"
      using R at by (simp add: storage_of_def Let_def)
    show "flags_of cap ?s q = flags_of cap s q"
      unfolding flags_of_def pw ch cw Let_def using at by simp
  qed (simp_all add: slot)
  moreover have "producer_here cap ?s (producer s)"
    using i(3) at unfolding spsc_producer_ok_def by (cases "producer s") auto
  moreover have "spsc_producer_ok cap ?s" if "producer_here cap ?s (producer s)"
    using i(3) that by (simp add: spsc_producer_ok_def)
  moreover have "spsc_consumer_ok cap can_suspend ?s" using R by (simp add: spsc_consumer_ok_def)
  moreover have "spsc_offsets_ok cap ?s" using i(1) by (simp add: spsc_offsets_ok_def spsc_in_range_def)
  moreover have "history_ok ?s" using i(5) at R v slot by (simp add: history_ok_def ch take_Suc_conv_app_nth)
  ultimately show ?thesis by (simp add: spsc_inv_def)
qed

lemma inv_woke:
  assumes inv: "spsc_inv cap can_suspend s" and at: "consumer s = C_WakeProducer"
  shows "spsc_inv cap can_suspend (wake_producer s)"
proof -
  note i = inv_facts [OF inv]
  obtain xs where xs: "producer s = P_Waiting xs" using consumer_ok_here [OF i(4) at] by auto
  have x: "xs \<noteq> []" "length (published s) + length xs \<le> freed s + cap" "\<not> closed s" "length xs \<le> cap"
    using producer_ok_here [OF i(3) xs] at i(3) xs by (simp_all add: spsc_producer_ok_def)
  have s': "wake_producer s = s\<lparr>producer := P_Emplace xs 0, consumer := C_Idle\<rparr>" by (simp add: wake_producer_def xs)
  have "spsc_ring_ok cap (s\<lparr>producer := P_Emplace xs 0, consumer := C_Idle\<rparr>)"
    by (rule ring_kept [OF i(2)]) (use at xs in \<open>simp_all add: seen_parts Let_def\<close>)
  then show ?thesis unfolding s' spsc_inv_def using i at xs x
    by (simp add: spsc_offsets_ok_def history_ok_def spsc_consumer_ok_def produces spsc_in_range_def i(8))
qed


lemma flagged_room:
  assumes "spsc_inv cap can_suspend s"
  shows "flagged (producer s) \<le> length (spsc_writing (producer s))" "constructed (producer s) \<le> length (spsc_writing (producer s))"
  using inv_facts(3) [OF assms] unfolding spsc_producer_ok_def by (cases "producer s"; simp)+

lemma inv_finish:
  assumes inv: "spsc_inv cap can_suspend s" and at: "consumer s = C_Release"
  shows "spsc_inv cap can_suspend (finish_read cap s)"
proof -
  note i = inv_facts [OF inv]
  let ?W = "length (published s)" and ?R = "freed s"
  have R: "?R < ?W" using consumer_ok_here [OF i(4) at] by simp
  have p: "?R \<le> ?R" "?R < ?R + cap" using i(8) by auto
  have slot: "at_read cap s = ?R mod cap" by (rule at_read_slot [OF i(1)])
  define prev where "prev = flags_at s (?R mod cap)"
  have prev: "prev = (if producer_waits s = Some (?R + cap) then ProducerPtr else if closed_here s \<and> ?R + cap = ?W then DATA_CLOSED else DATA)"
    unfolding prev_def ring_at(1) [OF i(2) p] flags_of_def Let_def using R by simp
  define c where "c = (if prev = ProducerPtr then C_WakeProducer else if prev = DATA_CLOSED then C_Republish else C_Idle)"
  define s' where "s' = (set_flags (?R mod cap) Zero s)\<lparr>read_offset := read_offset s + 1, freed := ?R + 1, consumer := c\<rparr>"
  have s': "finish_read cap s = s'"
    using prev unfolding finish_read_def slot Let_def prev_def [symmetric] s'_def c_def by auto
  have same: "producer s' = producer s" "published s' = published s" "freed s' = ?R + 1" "consumer s' = c" "closed s' = closed s"
    "write_offset s' = write_offset s" "storage s' = storage s" "flags_at s' = (flags_at s)(?R mod cap := Zero)"
    "read_offset s' = read_offset s + 1" "write_closed_at s' = write_closed_at s" "consumer_elem s' = consumer_elem s"
    "results s' = results s"
    by (simp_all add: s'_def set_flags_def)
  have waits: "producer_waits s = Some q \<longleftrightarrow> (\<exists>xs. producer s = P_Waiting xs \<and> q = ?W + length xs - 1)" for q
    using at by (auto split: producer.splits)
  have c: "c = C_WakeProducer \<longleftrightarrow> producer_waits s = Some (?R + cap)" "c = C_Republish \<longleftrightarrow> closed_here s \<and> ?R + cap = ?W \<and> producer_waits s \<noteq> Some (?R + cap)"
    "c \<in> {C_WakeProducer, C_Republish, C_Idle}"
    unfolding c_def prev by auto
  have waiting: "closed s \<longrightarrow> producer_waits s = None" using i(3) unfolding spsc_producer_ok_def by (auto split: producer.splits)
  have pw: "producer_waits s' = (if c = C_WakeProducer then None else producer_waits s)"
    using at same by (auto split: producer.splits)
  have ch: "closed_here s' = closed_here s" by (simp add: closed_here_def same)
  have cw: "consumer_waits s = False" "consumer_waits s' = False" using at c(3) by (auto simp: consumer_waits_def same)
  have "spsc_ring_ok cap s'"
    unfolding spsc_ring_ok_def
  proof (intro allI impI)
    fix q assume q: "freed s' \<le> q \<and> q < freed s' + cap"
    show "flags_at s' (q mod cap) = flags_of cap s' q \<and> storage s' (q mod cap) = storage_of s' q"
    proof (cases "q = ?R + cap")
      case True
      have "flags_of cap s' q = Zero"
        unfolding flags_of_def ch cw Let_def same using c waiting i(7) flagged_room(1) [OF inv] True
        by (auto simp: closed_here_def)
      moreover have "storage_of s' q = None"
        unfolding storage_of_def Let_def same using i(7) flagged_room(2) [OF inv] True by auto
      moreover have "storage s (?R mod cap) = None"
        using ring_at(2) [OF i(2) p] at R by (simp add: storage_of_def Let_def)
      ultimately show ?thesis using True by (simp add: same)
    next
      case False
      then have q': "?R \<le> q" "q < ?R + cap" "q \<noteq> ?R" using q by (auto simp: same)
      have "q mod cap \<noteq> ?R mod cap" using slots_apart [OF q'(1,2) p] q'(3) by simp
      moreover have "flags_of cap s' q = flags_of cap s q"
        unfolding flags_of_def ch cw pw Let_def same using q' c at waiting by (auto simp: closed_here_def)
      moreover have "storage_of s' q = storage_of s q"
        unfolding storage_of_def Let_def same using q' c(3) at by auto
      ultimately show ?thesis using ring_at [OF i(2) q'(1,2)] by (simp add: same)
    qed
  qed
  moreover have "producer_here cap s' (producer s)"
  proof (cases "producer s")
    case (P_Waiting xs)
    then have "xs \<noteq> []" "?R + cap < ?W + length xs" using producer_ok_here [OF i(3) P_Waiting] at by simp_all
    moreover have "c = C_WakeProducer \<longleftrightarrow> ?R + cap = ?W + length xs - 1" using c(1) waits P_Waiting by simp
    ultimately show ?thesis using P_Waiting by (auto simp: same)
  qed (use i(3) at c(3) in \<open>auto simp: spsc_producer_ok_def same\<close>)
  moreover have "spsc_producer_ok cap s'" if "producer_here cap s' (producer s)"
    using i(3) that by (simp add: spsc_producer_ok_def same)
  moreover have "spsc_consumer_ok cap can_suspend s'"
    using c waits unfolding spsc_consumer_ok_def same by (auto simp: ch same)
  moreover have "spsc_offsets_ok cap s'" using i(1) R by (simp add: spsc_offsets_ok_def spsc_in_range_def same)
  moreover have "history_ok s'" using i(5) at R c(3) by (auto simp: history_ok_def ch same)
  ultimately show ?thesis by (simp add: spsc_inv_def s')
qed

lemma inv_republish:
  assumes inv: "spsc_inv cap can_suspend s" and at: "consumer s = C_Republish"
  shows "spsc_inv cap can_suspend (at_consumer C_Idle (set_flags (slot cap (read_offset s - 1)) CLOSED s))" (is "spsc_inv _ _ ?s")
proof -
  note i = inv_facts [OF inv]
  let ?W = "length (published s)" and ?R = "freed s"
  have h: "closed_here s" "0 < ?R" "?W + 1 = ?R + cap" using consumer_ok_here [OF i(4) at] by simp_all
  have "read_offset s - 1 = of_nat (?R - 1)" using i(1) h(2) by (simp add: spsc_offsets_ok_def of_nat_diff)
  moreover have "cap dvd 2 ^ 64 \<or> ?R - 1 < 2 ^ 64" using i(1,6) by (auto simp: spsc_offsets_ok_def spsc_in_range_def)
  ultimately have "slot cap (read_offset s - 1) = (?R - 1) mod cap" using slot_of_nat by metis
  also have "\<dots> = ?W mod cap" using h(2,3) by (metis add_diff_cancel_right' add_diff_assoc2 less_one mod_add_self2 not_less_iff_gr_or_eq nat_less_le le_add2 Suc_leI One_nat_def Suc_pred)
  finally have slot: "slot cap (read_offset s - 1) = ?W mod cap" .
  have p: "?R \<le> ?W" "?W < ?R + cap" using h(3) i(6) by auto
  have pw: "producer_waits ?s = producer_waits s" using at by (simp add: at_consumer_def set_flags_def split: producer.splits)
  have ch: "closed_here ?s = True" "closed_here s = True" using h(1) by (simp_all add: closed_here_def at_consumer_def set_flags_def)
  have cw: "consumer_waits s = False" "consumer_waits ?s = False" using at by (simp_all add: consumer_waits_def at_consumer_def set_flags_def)
  have fl: "flagged (producer s) = 0" using i(3) h(1) unfolding spsc_producer_ok_def closed_here_def by (cases "producer s") auto
  have "spsc_ring_ok cap ?s"
  proof (rule ring_upd [OF i(2) _ p, where f = CLOSED])
    fix q
    show "flags_of cap ?s q = (if q = ?W then CLOSED else flags_of cap s q)"
      unfolding flags_of_def pw ch cw Let_def using at by (simp add: at_consumer_def set_flags_def)
    show "storage_of ?s q = storage_of s q"
      using at by (simp add: storage_of_def at_consumer_def set_flags_def Let_def)
  qed (simp_all add: slot at_consumer_def set_flags_def)
  moreover have "producer_here cap ?s (producer s)"
    using i(3) at unfolding spsc_producer_ok_def by (cases "producer s") (auto simp: at_consumer_def set_flags_def)
  moreover have "spsc_producer_ok cap ?s" if "producer_here cap ?s (producer s)"
    using i(3) that by (simp add: spsc_producer_ok_def at_consumer_def set_flags_def)
  moreover have "spsc_consumer_ok cap can_suspend ?s" by (simp add: spsc_consumer_ok_def at_consumer_def)
  moreover have "spsc_offsets_ok cap ?s" using i(1) by (simp add: spsc_offsets_ok_def spsc_in_range_def at_consumer_def set_flags_def)
  moreover have "history_ok ?s" using i(5) at ch by (simp add: history_ok_def at_consumer_def set_flags_def closed_here_def)
  ultimately show ?thesis by (simp add: spsc_inv_def)
qed

lemma inv_consumer_step:
  assumes inv: "spsc_inv cap can_suspend s" and step: "consumer_step cap can_suspend s s'"
  shows "spsc_inv cap can_suspend s'"
proof -
  note i = inv_facts [OF inv]
  note c = at_consumer_def returns_def spsc_consumer_ok_def closed_here_def
  show ?thesis
    using step
  proof cases
    case pull
    show ?thesis by (rule inv_consumer_quiet [OF inv]) (use pull in \<open>simp_all add: c\<close>)
  next
    case (pull_ready f)
    show ?thesis
      by (rule inv_consumer_quiet [OF inv])
        (use pull_ready read_flags(1) [OF inv] consumer_ok_here [OF i(4) pull_ready(2)] in \<open>simp_all add: c\<close>)
  next
    case pull_suspend
    then show ?thesis using inv_try_wait [OF inv] by simp
  next
    case pull_resume
    have "if consumer_elem s then freed s < length (published s) else closed_here s \<and> freed s = length (published s)"
      using consumer_ok_here [OF i(4) pull_resume(2)] by simp
    then show ?thesis
      by - (rule inv_consumer_quiet [OF inv], use pull_resume in \<open>simp_all add: c split: if_splits\<close>)
  next
    case try_pull
    show ?thesis by (rule inv_consumer_quiet [OF inv]) (use try_pull in \<open>simp_all add: c\<close>)
  next
    case (try_pull_poll f)
    show ?thesis
      by (rule inv_consumer_quiet [OF inv])
        (use try_pull_poll read_flags [OF inv] in \<open>auto simp: c split: if_splits\<close>)
  next
    case release
    then show ?thesis using inv_release [OF inv] by simp
  next
    case finish
    then show ?thesis using inv_finish [OF inv] by simp
  next
    case woke
    then show ?thesis using inv_woke [OF inv] by simp
  next
    case republish
    then show ?thesis using inv_republish [OF inv] by simp
  qed
qed

lemma spsc_inv_step: "spsc_inv cap can_suspend s \<Longrightarrow> spsc_move cap can_suspend s s' \<Longrightarrow> spsc_inv cap can_suspend s'"
  by (auto simp: spsc_move_def intro: inv_producer_step inv_consumer_step)


section \<open>The queue refines a bounded queue\<close>

definition spsc_abs :: "'a spsc \<Rightarrow> 'a fifo" where
  "spsc_abs s = (published s, take (freed s) (published s))"

lemma spsc_abs_start: "spsc_start cap s \<Longrightarrow> fifo_start (spsc_abs s)"
  by (auto simp: spsc_start_def spsc_new_def spsc_abs_def fifo_start_def)

lemma spsc_abs_producer:
  assumes inv: "spsc_inv cap can_suspend s" and step: "producer_step cap can_suspend s s'"
  shows "spsc_abs s' = spsc_abs s \<or> (fifo_step cap)\<^sup>*\<^sup>* (spsc_abs s) (spsc_abs s')"
  using step
proof cases
  case (published xs)
  note i = inv_facts [OF inv]
  have "length (published s) + length xs \<le> length (take (freed s) (published s)) + cap" using i(6,7) published(2) by simp
  from fifo_pushes [OF this] show ?thesis using published(1) i(6) by (simp add: spsc_abs_def spsc_publish_def Let_def set_flags_def)
qed (auto simp: spsc_abs_def at_producer_def set_flags_def emplace_def wake_consumer_def)

lemma spsc_abs_consumer:
  assumes inv: "spsc_inv cap can_suspend s" and step: "consumer_step cap can_suspend s s'"
  shows "spsc_abs s' = spsc_abs s \<or> (fifo_step cap)\<^sup>*\<^sup>* (spsc_abs s) (spsc_abs s')"
  using step
proof cases
  case finish
  note i = inv_facts [OF inv]
  have R: "freed s < length (published s)" using consumer_ok_here [OF i(4) finish(2)] by simp
  have "fifo_step cap (published s, take (freed s) (published s))
      (published s, take (freed s) (published s) @ [published s ! length (take (freed s) (published s))])"
    by (rule fifo_pull) (use R in simp)
  then show ?thesis using finish(1) R
    by (simp add: spsc_abs_def finish_read_def Let_def set_flags_def take_Suc_conv_app_nth r_into_rtranclp)
qed (auto simp: spsc_abs_def at_consumer_def returns_def try_wait_def set_flags_def wake_producer_def Let_def split: producer.splits)

interpretation spsc: refines "spsc_start cap" "spsc_move cap can_suspend" "spsc_inv cap can_suspend" spsc_abs fifo_start
    "(fifo_step cap)\<^sup>*\<^sup>*" for cap can_suspend
proof unfold_locales
  show "spsc_start cap s \<Longrightarrow> spsc_inv cap can_suspend s" for s :: "'a spsc" by (rule spsc_inv_start)
  show "spsc_inv cap can_suspend s \<Longrightarrow> spsc_move cap can_suspend s s' \<Longrightarrow> spsc_inv cap can_suspend s'" for s s' :: "'a spsc"
    by (rule spsc_inv_step)
  show "spsc_start cap s \<Longrightarrow> fifo_start (spsc_abs s)" for s :: "'a spsc" by (rule spsc_abs_start)
  show "spsc_inv cap can_suspend s \<Longrightarrow> spsc_move cap can_suspend s s' \<Longrightarrow>
      spsc_abs s' = spsc_abs s \<or> (fifo_step cap)\<^sup>*\<^sup>* (spsc_abs s) (spsc_abs s')" for s s' :: "'a spsc"
    using spsc_abs_producer [of cap can_suspend s s'] spsc_abs_consumer [of cap can_suspend s s'] unfolding spsc_move_def by blast
qed

section \<open>What the queue guarantees\<close>

text \<open>
  C9: The queue of one producer and one consumer is a bounded first-in-first-out queue of its capacity, for any
  interleaving of pushes, bulk pushes, pulls and close.  The pulls return the items in the order in which they were
  pushed, each once, and a pull reports that the queue is closed only when it is closed and every item has been pulled.
\<close>

theorem spsc_refines_fifo:
  assumes "reach (spsc_start cap) (spsc_move cap can_suspend) s"
  shows "reach fifo_start (fifo_step cap) (published s, take (freed s) (published s)) \<and>
    (\<exists>n \<le> length (published s). pulled_items (results s) = map Some (take n (published s))) \<and>
    (Was_Closed \<in> set (results s) \<longrightarrow> closed s \<and> pulled_items (results s) = map Some (published s))"
proof -
  note i = inv_facts [OF spsc.holds [OF assms]]
  have "reach fifo_start (fifo_step cap) (spsc_abs s)" using reach_many_steps [OF spsc.simulates [OF assms]] .
  moreover have "\<exists>n \<le> length (published s). pulled_items (results s) = map Some (take n (published s))"
  proof (cases "consumer s = C_Release")
    case True
    then show ?thesis using i(5) consumer_ok_here [OF i(4) True] by (intro exI [of _ "freed s + 1"]) (simp add: history_ok_def)
  next
    case False
    then show ?thesis using i(5,6) by (intro exI [of _ "freed s"]) (simp add: history_ok_def)
  qed
  moreover have "closed s \<and> pulled_items (results s) = map Some (published s)" if "Was_Closed \<in> set (results s)"
    using i(5) that by (auto simp: history_ok_def closed_here_def)
  ultimately show ?thesis by (simp add: spsc_abs_def)
qed

text \<open>
  C10: No wakeup is lost.  A consumer suspended in \<open>pull\<close> is either about to be posted by the producer, or the queue is
  empty and \<open>close\<close> has not reached its slot; a producer suspended in a push is about to be posted by the consumer, or its
  items do not fit.  So they are never both suspended for good, and a call that is neither suspended nor finished can always
  make its next step.
\<close>

theorem spsc_no_lost_wakeup:
  assumes "reach (spsc_start cap) (spsc_move cap can_suspend) s"
  shows "(consumer s = C_Waiting \<longrightarrow> producer s \<in> {P_Wake, P_CloseNull} \<or> freed s = length (published s) \<and> \<not> closed_here s) \<and>
    (\<forall>xs. producer s = P_Waiting xs \<longrightarrow> consumer s = C_WakeProducer \<or>
      freed s < length (published s) \<and> freed s + cap < length (published s) + length xs \<and> consumer s \<noteq> C_Waiting) \<and>
    (consumer s \<noteq> C_Waiting \<or> (\<forall>xs. producer s \<noteq> P_Waiting xs)) \<and>
    ((\<exists>s'. producer_step cap can_suspend s s') \<or> (\<exists>xs. producer s = P_Waiting xs) \<or> producer s = P_Idle) \<and>
    ((\<exists>s'. consumer_step cap can_suspend s s') \<or> consumer s = C_Waiting)"
proof -
  note i = inv_facts [OF spsc.holds [OF assms]]
  have c: "producer s \<in> {P_Wake, P_CloseNull} \<or> freed s = length (published s) \<and> \<not> closed_here s" if "consumer s = C_Waiting"
    using consumer_ok_here [OF i(4) that] that by (auto simp: consumer_waits_def)
  have p: "consumer s = C_WakeProducer \<or>
      freed s < length (published s) \<and> freed s + cap < length (published s) + length xs \<and> consumer s \<noteq> C_Waiting"
    if xs: "producer s = P_Waiting xs" for xs
  proof (cases "consumer s = C_WakeProducer")
    case False
    then have f: "freed s + cap < length (published s) + length xs" "length xs \<le> cap"
      using producer_ok_here [OF i(3) xs] i(3) xs by (simp_all add: spsc_producer_ok_def)
    then have "freed s < length (published s)" by linarith
    then show ?thesis using c f xs by auto
  qed simp
  have "(\<exists>s'. producer_step cap can_suspend s s') \<or> (\<exists>xs. producer s = P_Waiting xs) \<or> producer s = P_Idle"
    using i(3) unfolding spsc_producer_ok_def by (cases "producer s") (auto intro: producer_step.intros)
  moreover have "(\<exists>s'. consumer_step cap can_suspend s s') \<or> consumer s = C_Waiting"
    using i(4) unfolding spsc_consumer_ok_def by (cases "consumer s") (auto intro: consumer_step.intros)
  moreover have "consumer s \<noteq> C_Waiting \<or> (\<forall>xs. producer s \<noteq> P_Waiting xs)" using p by auto
  ultimately show ?thesis using c p by blast
qed

text \<open>
  C11: The objects in the storage of the elements exist exactly for the items in the queue: an object is constructed only in
  an element without one, a scope refers to the object of the oldest item, an object is destroyed once, and no call takes a
  flags word for something else than it is (the casts of pointers to the producer or the consumer are right).
\<close>

theorem spsc_storage_typed:
  assumes "reach (spsc_start cap) (spsc_move cap can_suspend) s"
  shows "producer s \<noteq> P_Bad \<and> consumer s \<noteq> C_Bad \<and>
    (\<forall>xs j. producer s = P_Emplace xs j \<longrightarrow> storage s (at_write cap s j) = None) \<and>
    (consumer s = C_Hold \<longrightarrow> storage s (at_read cap s) = Some (published s ! freed s)) \<and>
    (consumer s = C_Release \<longrightarrow> storage s (at_read cap s) = None) \<and>
    (\<forall>p. freed s \<le> p \<and> p < freed s + cap \<longrightarrow> storage s (p mod cap) = storage_of s p)"
proof -
  note i = inv_facts [OF spsc.holds [OF assms]]
  have R: "at_read cap s = freed s mod cap" "storage s (freed s mod cap) = storage_of s (freed s)"
    using at_read_slot [OF i(1)] ring_at(2) [OF i(2)] i(8) by auto
  have "storage s (at_write cap s j) = None" if xs: "producer s = P_Emplace xs j" for xs j
  proof -
    have j: "j < length xs" using producer_ok_here [OF i(3) xs] by simp
    have "storage s ((length (published s) + j) mod cap) = storage_of s (length (published s) + j)"
      by (rule ring_at(2) [OF i(2)]) (use i(6,7) j xs in simp_all)
    then show ?thesis using at_write_slot [OF i(1)] j xs by (simp add: storage_of_def Let_def)
  qed
  moreover have "storage s (at_read cap s) = Some (published s ! freed s)" if "consumer s = C_Hold"
    using consumer_ok_here [OF i(4) that] R that by (simp add: storage_of_def)
  moreover have "storage s (at_read cap s) = None" if "consumer s = C_Release"
    using consumer_ok_here [OF i(4) that] R that by (simp add: storage_of_def)
  moreover have "producer s \<noteq> P_Bad" "consumer s \<noteq> C_Bad" using i(3,4) by (auto simp: spsc_producer_ok_def spsc_consumer_ok_def)
  ultimately show ?thesis using ring_at(2) [OF i(2)] by blast
qed

text \<open>
  The calls that do not suspend tell the truth: at its look at the flags, \<open>try_push\<close> finds no room exactly when \<open>capacity\<close>
  items are in the queue, \<open>push\<close> and \<open>push_bulk\<close> suspend exactly when their items do not fit, although they look at one
  element only; \<open>try_pull\<close> and \<open>empty\<close> find nothing exactly when all items have been pulled and \<open>close\<close> has not been published.
\<close>

lemma spsc_full_and_empty:
  assumes "reach (spsc_start cap) (spsc_move cap can_suspend) s"
  shows "(\<forall>x s'. producer s = P_Try x \<and> producer_step cap can_suspend s s' \<longrightarrow>
      (producer s' = P_Idle \<longleftrightarrow> length (published s) = freed s + cap)) \<and>
    (\<forall>xs s'. producer s = P_Ready xs \<and> producer_step cap can_suspend s s' \<longrightarrow>
      (producer s' = P_Suspend xs \<longleftrightarrow> freed s + cap < length (published s) + length xs)) \<and>
    (\<forall>s'. consumer s = C_Try \<and> consumer_step cap can_suspend s s' \<longrightarrow>
      (results s' = results s @ [Was_Empty] \<longleftrightarrow> freed s = length (published s) \<and> \<not> closed_here s) \<and>
      (results s' = results s @ [Was_Closed] \<longleftrightarrow> freed s = length (published s) \<and> closed_here s)) \<and>
    (consumer s = C_Idle \<longrightarrow> (spsc_empty cap s \<longleftrightarrow> freed s = length (published s) \<and> \<not> closed_here s))"
proof -
  note inv = spsc.holds [OF assms]
  note i = inv_facts [OF inv]
  have "producer s' = P_Idle \<longleftrightarrow> length (published s) = freed s + cap"
    if at: "producer s = P_Try x" and step: "producer_step cap can_suspend s s'" for x s'
  proof -
    have "flags_at s (at_write cap s 0) = DATA \<longleftrightarrow> freed s + cap < length (published s) + length [x]"
      using full_iff [OF inv, of "[x]"] at by simp
    with step at i(7) show ?thesis by cases (auto simp: at_producer_def)
  qed
  moreover have "producer s' = P_Suspend xs \<longleftrightarrow> freed s + cap < length (published s) + length xs"
    if at: "producer s = P_Ready xs" and step: "producer_step cap can_suspend s s'" for xs s'
  proof -
    have "xs \<noteq> []" using producer_ok_here [OF i(3) at] by simp
    then have "flags_at s (at_write cap s (length xs - 1)) = DATA \<longleftrightarrow> freed s + cap < length (published s) + length xs"
      using full_iff [OF inv, of xs] at by simp
    with step at show ?thesis by cases (auto simp: at_producer_def)
  qed
  moreover have "(results s' = results s @ [Was_Empty] \<longleftrightarrow> freed s = length (published s) \<and> \<not> closed_here s) \<and>
      (results s' = results s @ [Was_Closed] \<longleftrightarrow> freed s = length (published s) \<and> closed_here s)"
    if at: "consumer s = C_Try" and step: "consumer_step cap can_suspend s s'" for s'
  proof -
    have f: "data_bit (flags_at s (at_read cap s)) \<or> is_pointer (flags_at s (at_read cap s)) \<longleftrightarrow> freed s < length (published s)"
      "flags_at s (at_read cap s) = CLOSED \<longleftrightarrow> freed s = length (published s) \<and> closed_here s"
      using read_flags [OF inv] at by simp_all
    from step at show ?thesis using f i(6) by cases (auto simp: at_consumer_def returns_def)
  qed
  moreover have "spsc_empty cap s \<longleftrightarrow> freed s = length (published s) \<and> \<not> closed_here s" if "consumer s = C_Idle"
    using read_flags(3) [OF inv] that by (simp add: spsc_empty_def)
  ultimately show ?thesis by blast
qed


section \<open>The destructor\<close>

lemma circular_near:
  assumes "p \<le> W" "W < p + 2 ^ 63"
  shows "circular_less_than (of_nat p) (of_nat W) \<longleftrightarrow> p < W"
proof -
  have "of_nat (2 ^ 64 + p - W) = (of_nat p - of_nat W :: size_t)" using assms by (simp add: of_nat_diff)
  then have "unat (of_nat p - of_nat W :: size_t) = unat (of_nat (2 ^ 64 + p - W) :: size_t)" by (simp only:)
  also have "\<dots> = (2 ^ 64 + p - W) mod 2 ^ 64" by (simp only: unat_of_nat) simp
  also have "\<dots> = (if p < W then 2 ^ 64 + p - W else 0)" using assms by auto
  finally show ?thesis using assms unfolding circular_less_than_def by (auto simp: word_less_nat_alt)
qed

lemma destroy_rest_run:
  assumes "p \<le> W" "W \<le> p + cap" "cap < 2 ^ 63" "cap dvd 2 ^ 64 \<or> W < 2 ^ 64"
    and "\<And>q. p \<le> q \<Longrightarrow> q < W \<Longrightarrow> is_data_waiting (fs (q mod cap))"
  shows "destroy_rest cap fs (of_nat p) (of_nat W) st =
    (map (\<lambda>q. q mod cap) [p..<W], (\<lambda>e. if e \<in> (\<lambda>q. q mod cap) ` {p..<W} then None else st e))"
  using assms
proof (induction "W - p" arbitrary: p st)
  case 0
  then show ?case using circular_near [of p W] by (subst destroy_rest.simps) simp
next
  case (Suc n)
  have p: "p < W" using Suc.hyps(2) by simp
  have c: "circular_less_than (of_nat p) (of_nat W)" using circular_near [of p W] Suc.prems p by simp
  have slot: "slot cap (of_nat p) = p mod cap" using slot_of_nat [of cap p] Suc.prems(4) p by auto
  have "destroy_rest cap fs (of_nat (p + 1)) (of_nat W) (st(p mod cap := None)) = (map (\<lambda>q. q mod cap) [p + 1..<W],
      (\<lambda>e. if e \<in> (\<lambda>q. q mod cap) ` {p + 1..<W} then None else (st(p mod cap := None)) e))"
    by (rule Suc.hyps(1)) (use Suc.hyps(2) Suc.prems p in simp_all)
  moreover have "{p..<W} = insert p {p + 1..<W}" using p by auto
  moreover have "[p..<W] = p # [p + 1..<W]" using p by (simp add: upt_rec)
  ultimately show ?case
    using c slot Suc.prems(5) [of p] p by (subst destroy_rest.simps) (auto simp: Let_def add.commute fun_eq_iff)
qed

lemma slots_all:
  fixes a cap :: nat
  assumes "0 < cap"
  shows "(\<lambda>q. q mod cap) ` {a..<a + cap} = {..<cap}"
proof (rule card_subset_eq)
  have "inj_on (\<lambda>q. q mod cap) {a..<a + cap}" by (rule inj_onI) (use slots_apart [of a _ cap] in auto)
  then show "card ((\<lambda>q. q mod cap) ` {a..<a + cap}) = card {..<cap}" by (simp add: card_image)
qed (use assms in auto)

text \<open>
  The destructor, called when no other call is under way, destroys the objects that were not pulled, each once and in order, and
  leaves no object in the storage, whether or not the queue was closed before and also when it is full.
\<close>

lemma spsc_destructor_spec:
  assumes "reach (spsc_start cap) (spsc_move cap can_suspend) s" and "producer s = P_Idle" and "consumer s = C_Idle"
  shows "fst (spsc_destructor cap s) = map (\<lambda>p. p mod cap) [freed s..<length (published s)] \<and>
    (\<forall>e < cap. snd (spsc_destructor cap s) e = None)"
proof -
  let ?R = "freed s" and ?W = "length (published s)"
  note i = inv_facts [OF spsc.holds [OF assms(1)]]
  have slot: "at_write cap s 0 = ?W mod cap" using at_write_slot [OF i(1), of 0] by simp
  have w: "write_offset s = of_nat ?W" "read_offset s = of_nat ?R" "cap < 2 ^ 63" "cap dvd 2 ^ 64 \<or> ?W < 2 ^ 64"
    using i(1) assms(2) by (auto simp: spsc_offsets_ok_def spsc_in_range_def)
  have wc: "closed s \<Longrightarrow> write_closed_at s = of_nat ?W" using i(3) w(1) assms(2) by (simp add: spsc_producer_ok_def)
  define s' where "s' = close_alone cap s"
  have s': "read_offset s' = of_nat ?R" "write_closed_at s' = of_nat ?W" "storage s' = storage s"
    using w wc by (simp_all add: s'_def close_alone_def set_flags_def)
  have data: "is_data_waiting (flags_at s' (q mod cap))" if q: "?R \<le> q" "q < ?W" for q
  proof -
    have q': "q < ?R + cap" using q i(7) by simp
    have "flags_at s (q mod cap) = (if closed s \<and> q + cap = ?W then DATA_CLOSED else DATA)"
      using ring_at(1) [OF i(2) q(1) q'] q assms(2) by (simp add: flags_of_def closed_here_def Let_def)
    then have f: "flags_at s (q mod cap) \<in> (if closed s then {DATA, DATA_CLOSED} else {DATA})" by simp
    have e: "flags_at s' = (if closed s then flags_at s else (flags_at s)(?W mod cap := close_desired (flags_at s (?W mod cap))))"
      by (simp add: s'_def close_alone_def set_flags_def slot)
    have "flags_at s' (q mod cap) \<in> {DATA, DATA_CLOSED}"
    proof (cases "closed s")
      case False
      then have "flags_at s (q mod cap) = DATA" using f by simp
      moreover have "flags_at s' (q mod cap) = close_desired (flags_at s (q mod cap))" if "q mod cap = ?W mod cap"
        unfolding e that using False by (simp only: if_False fun_upd_same)
      moreover have "flags_at s' (q mod cap) = flags_at s (q mod cap)" if "q mod cap \<noteq> ?W mod cap"
        unfolding e using False that by (simp only: if_False fun_upd_other not_False_eq_True)
      ultimately show ?thesis by (cases "q mod cap = ?W mod cap") (simp_all only: close_desired_def, simp_all)
    qed (use f e in simp)
    then show ?thesis by (auto simp: is_data_waiting_def data_bit_def)
  qed
  have run: "spsc_destructor cap s = (map (\<lambda>q. q mod cap) [?R..<?W], (\<lambda>e. if e \<in> (\<lambda>q. q mod cap) ` {?R..<?W} then None else storage s e))"
    unfolding spsc_destructor_def s'_def [symmetric] s' Let_def
    by (rule destroy_rest_run [where fs = "flags_at s'", OF i(6) _ w(3,4) data]) (use i(7) assms(2) in simp_all)
  have "storage s e = None" if e: "e < cap" "e \<notin> (\<lambda>q. q mod cap) ` {?R..<?W}" for e
  proof -
    have "e \<in> (\<lambda>q. q mod cap) ` {?R..<?R + cap}" using slots_all [OF i(8)] e(1) by auto
    then obtain q where q: "?R \<le> q" "q < ?R + cap" "e = q mod cap" by auto
    then have "\<not> q < ?W" using e(2) by auto
    then show ?thesis using ring_at(2) [OF i(2) q(1,2)] q(3) assms(2) by (simp add: storage_of_def Let_def)
  qed
  then show ?thesis unfolding run by simp
qed


section \<open>A run\<close>

text \<open>A bulk push fills a queue of two; a third item suspends the producer; a scope releases the first item.\<close>

definition full_queue :: "nat spsc" where
  "full_queue = spsc_new\<lparr>flags_at := (\<lambda>_. Zero)(1 := DATA, 0 := DATA), storage := [0 \<mapsto> 5, 1 \<mapsto> 6], write_offset := 2,
     published := [5, 6]\<rparr>"

lemma move_producer: "reach (spsc_start cap) (spsc_move cap b) s \<Longrightarrow> producer_step cap b s s' \<Longrightarrow> reach (spsc_start cap) (spsc_move cap b) s'"
  unfolding spsc_move_def by (blast intro: reach_step)

lemma move_consumer: "reach (spsc_start cap) (spsc_move cap b) s \<Longrightarrow> consumer_step cap b s s' \<Longrightarrow> reach (spsc_start cap) (spsc_move cap b) s'"
  unfolding spsc_move_def by (blast intro: reach_step)

lemma full_queue_reach: "reach (spsc_start 2) (spsc_move 2 True) full_queue"
proof -
  note ops = at_producer_def set_flags_def at_write_def slot_def spsc_new_def emplace_def write_next_def spsc_publish_def Let_def
  let ?r = "reach (spsc_start 2) (spsc_move 2 True) :: nat spsc \<Rightarrow> bool"
  define s1 where "s1 = spsc_new\<lparr>producer := P_Ready [5, 6 :: nat]\<rparr>"
  define s2 where "s2 = spsc_new\<lparr>producer := P_Emplace [5, 6 :: nat] 0\<rparr>"
  define s3 where "s3 = spsc_new\<lparr>producer := P_Emplace [5, 6 :: nat] 1, storage := [0 \<mapsto> 5]\<rparr>"
  define s4 where "s4 = spsc_new\<lparr>producer := P_Store [5, 6 :: nat] 1, storage := [0 \<mapsto> 5, 1 \<mapsto> 6]\<rparr>"
  define s5 where "s5 = spsc_new\<lparr>producer := P_Publish [5, 6 :: nat], storage := [0 \<mapsto> 5, 1 \<mapsto> 6], flags_at := (\<lambda>_. Zero)(1 := DATA)\<rparr>"
  have "?r spsc_new" by (rule reach_start) (simp add: spsc_start_def)
  moreover have "producer_step 2 True spsc_new s1"
    using producer_step.push [of spsc_new "[5, 6 :: nat]" 2 True] by (simp add: s1_def spsc_new_def at_producer_def spsc_in_range_def)
  moreover have "producer_step 2 True s1 s2"
    using producer_step.push_ready [of s1 "[5, 6]" 2 True] by (simp add: s1_def s2_def ops)
  moreover have "producer_step 2 True s2 s3"
    using producer_step.emplaced [of s2 "[5, 6]" 0 2 True] by (simp add: s2_def s3_def ops)
  moreover have "producer_step 2 True s3 s4"
    using producer_step.emplaced [of s3 "[5, 6]" 1 2 True] by (simp add: s3_def s4_def ops)
  moreover have "producer_step 2 True s4 s5"
    using producer_step.stored [of s4 "[5, 6]" 1 2 True] by (simp add: s4_def s5_def ops)
  moreover have "producer_step 2 True s5 full_queue"
    using producer_step.published [of s5 "[5, 6]" 2 True] by (simp add: s5_def full_queue_def ops)
  ultimately show ?thesis by (meson move_producer)
qed

definition busy_queue :: "nat spsc" where
  "busy_queue = full_queue\<lparr>producer := P_Waiting [7], flags_at := (\<lambda>_. Zero)(1 := DATA, 0 := ProducerPtr), consumer := C_Release,
     results := [Pulled (Some 5)], storage := [1 \<mapsto> 6]\<rparr>"

lemma busy_queue_reach: "reach (spsc_start 2) (spsc_move 2 True) busy_queue"
proof -
  note ops = at_producer_def at_consumer_def set_flags_def at_write_def at_read_def slot_def spsc_new_def full_queue_def
    data_bit_def is_pointer_def
  define s1 where "s1 = full_queue\<lparr>producer := P_Ready [7]\<rparr>"
  define s2 where "s2 = full_queue\<lparr>producer := P_Suspend [7]\<rparr>"
  define s3 where "s3 = full_queue\<lparr>producer := P_Waiting [7], flags_at := (\<lambda>_. Zero)(1 := DATA, 0 := ProducerPtr)\<rparr>"
  define s4 where "s4 = s3\<lparr>consumer := C_Try\<rparr>"
  define s5 where "s5 = s3\<lparr>consumer := C_Hold\<rparr>"
  have "producer_step 2 True full_queue s1"
    using producer_step.push [of full_queue "[7]" 2 True] by (simp add: s1_def ops spsc_in_range_def)
  moreover have "producer_step 2 True s1 s2"
    using producer_step.push_ready [of s1 "[7]" 2 True] by (simp add: s1_def s2_def ops)
  moreover have "producer_step 2 True s2 s3"
    using producer_step.push_suspend [of s2 "[7]" 2 True] by (simp add: s2_def s3_def ops)
  ultimately have r: "reach (spsc_start 2) (spsc_move 2 True) s3" by (meson move_producer full_queue_reach)
  have "consumer_step 2 True s3 s4"
    using consumer_step.try_pull [of s3 2 True] by (simp add: s3_def s4_def ops)
  moreover have "consumer_step 2 True s4 s5"
    using consumer_step.try_pull_poll [of s4 "flags_at s4 0" 2 True] by (simp add: s3_def s4_def s5_def ops)
  moreover have "consumer_step 2 True s5 busy_queue"
    using consumer_step.release [of s5 2 True] by (simp add: s3_def s5_def busy_queue_def ops)
  ultimately show ?thesis by (meson move_consumer r)
qed

lemma busy_queue_simps [simp]:
  "published busy_queue = [5, 6]" "freed busy_queue = 0" "results busy_queue = [Pulled (Some 5)]" "producer busy_queue = P_Waiting [7]"
  "consumer busy_queue = C_Release" "storage busy_queue = [1 \<mapsto> 6]" "read_offset busy_queue = 0"
  by (simp_all add: busy_queue_def full_queue_def spsc_new_def)

theorem spsc_refines_fifo_witness: "reach fifo_start (fifo_step 2) ([5, 6 :: nat], []) \<and> (\<exists>n \<le> 2. [Some (5 :: nat)] = map Some (take n [5, 6]))"
  using spsc_refines_fifo [OF busy_queue_reach] by (simp add: numeral_2_eq_2)

theorem spsc_no_lost_wakeup_witness: "freed busy_queue + 2 < length (published busy_queue) + length [7 :: nat] \<and> consumer busy_queue \<noteq> C_Waiting"
  using spsc_no_lost_wakeup [OF busy_queue_reach] by simp

theorem spsc_storage_typed_witness: "storage busy_queue (at_read 2 busy_queue) = None"
  using spsc_storage_typed [OF busy_queue_reach] by simp

theorem spsc_full_and_empty_witness: "consumer full_queue = C_Idle \<and> \<not> spsc_empty 2 full_queue"
  using spsc_full_and_empty [OF full_queue_reach] by (simp add: full_queue_def spsc_new_def)

theorem spsc_destructor_spec_witness:
  "fst (spsc_destructor 2 full_queue) = [0, 1] \<and> snd (spsc_destructor 2 full_queue) 0 = None"
  using spsc_destructor_spec [OF full_queue_reach] by (simp add: full_queue_def spsc_new_def upt_rec)

end
