(* ===== verification/Mpsc.thy ===== *)
theory Mpsc
  imports Machines
begin

text \<open>
  The bounded queue of many producers and one consumer (\<open>qu_mpsc_bounded.hpp\<close>).  A producer takes a ticket, which names an
  element of the ring, and claims the element or parks on it; the consumer visits the elements in order, frees them and
  hands them to parked producers.  Steps are the accesses to shared words; a compare-exchange loop is one step, its last
  iteration: the earlier ones change nothing.  Parked producers form lists that stand for the links in their frames.  Offsets
  are numbers: the model stops at \<open>2 ^ 63\<close> tickets, below which \<open>circular_less_than\<close> is the order of numbers.
\<close>

section \<open>The queue\<close>

text \<open>\<open>element::flags\<close>: three bits and a chain of producers, or all ones in place of the chain.\<close>

record mflags =
  PROD_BIT :: bool
  DATA_BIT :: bool
  CONS_BIT :: bool
  chain_bits :: "nat list"      \<comment> \<open>the head was parked last\<close>
  close_sentinel :: bool

definition no_flags :: mflags where
  "no_flags = \<lparr>PROD_BIT = False, DATA_BIT = False, CONS_BIT = False, chain_bits = [], close_sentinel = False\<rparr>"

text \<open>\<open>(cur & ~CONS_BIT) == 0\<close>\<close>

definition claimable :: "mflags \<Rightarrow> bool" where
  "claimable f \<longleftrightarrow> \<not> PROD_BIT f \<and> \<not> DATA_BIT f \<and> chain_bits f = [] \<and> \<not> close_sentinel f"

text \<open>A call of \<open>push\<close> or \<open>close\<close> by an agent; the number is its ticket or the cutoff.\<close>

datatype 'a agent =
    A_Idle
  | A_Ticket 'a | A_Check 'a nat | A_Spin 'a nat       \<comment> \<open>\<open>get_write_ticket\<close>\<close>
  | A_Claim 'a nat | A_Park 'a nat | A_Parked 'a nat
  | A_Emplace 'a nat | A_Publish 'a nat
  | A_Take nat                                         \<comment> \<open>exchange of \<open>waiting_consumer\<close>\<close>
  | A_Post                                             \<comment> \<open>about to post the consumer\<close>
  | A_Close | A_Add | A_StoreCutoff nat | A_StoreReady nat
  | A_Look nat | A_LookIdx nat mflags | A_Mark nat mflags
  | A_CloseTake nat | A_Null
  | A_Bad

datatype mconsumer =
    K_Idle
  | K_Poll bool | K_PollClosed bool mflags | K_PollSpin bool mflags   \<comment> \<open>is it \<open>try_pull\<close>?\<close>
  | K_ArmIdx | K_ArmSelf | K_ArmFlags
  | K_Unarm bool                                       \<comment> \<open>because of the sentinel?\<close>
  | K_UnarmSpin | K_Waiting | K_Resume
  | K_Hold | K_Drain
  | K_Wake nat
  | K_Bad

record 'a mpsc =
  element_flags :: "nat \<Rightarrow> mflags"
  output_producers :: "nat \<Rightarrow> nat list"
  waiting_consumer :: "nat \<Rightarrow> bool"
  waiting_consumer_idx :: "nat \<Rightarrow> nat"
  object_in :: "nat \<Rightarrow> 'a option"
  tickets :: nat                                       \<comment> \<open>\<open>write_offset\<close>\<close>
  read_at :: nat                                       \<comment> \<open>\<open>read_offset\<close>\<close>
  is_closed :: bool
  closed_ready :: bool
  closed_at :: nat
  agent_at :: "nat \<Rightarrow> 'a agent"
  the_consumer :: mconsumer
  elem_null :: bool                                    \<comment> \<open>\<open>base.elem\<close> was set to null\<close>
  cutoff :: "nat option"                               \<comment> \<open>history: the ticket of \<open>close\<close>\<close>
  stored_in :: "nat \<Rightarrow> 'a list"                     \<comment> \<open>history: the items published in each element\<close>
  got :: "(nat \<times> 'a option) list"                   \<comment> \<open>history: the items pulled, with their positions\<close>
  claims :: "nat \<Rightarrow> nat"                           \<comment> \<open>history: how often each element was claimed\<close>
  drained :: "nat \<Rightarrow> nat"                          \<comment> \<open>history: how often it was freed\<close>
  refused :: "nat \<Rightarrow> nat"                          \<comment> \<open>history: the producers that found the sentinel\<close>
  said_closed :: bool                                  \<comment> \<open>history: a pull returned \<open>CLOSED\<close>\<close>
  said_empty :: nat                                    \<comment> \<open>history: how often \<open>try_pull\<close> returned \<open>EMPTY\<close>\<close>

definition put_agent :: "nat \<Rightarrow> 'a agent \<Rightarrow> 'a mpsc \<Rightarrow> 'a mpsc" where
  "put_agent a p s = s\<lparr>agent_at := (agent_at s)(a := p)\<rparr>"

definition put_flags :: "nat \<Rightarrow> mflags \<Rightarrow> 'a mpsc \<Rightarrow> 'a mpsc" where
  "put_flags i f s = s\<lparr>element_flags := (element_flags s)(i := f)\<rparr>"

section \<open>Producers and \<open>close\<close>\<close>

text \<open>\<open>get_write_ticket\<close>: after the increment, and after the wait for the cutoff\<close>

definition ticket_taken :: "nat \<Rightarrow> 'a \<Rightarrow> nat \<Rightarrow> 'a mpsc \<Rightarrow> 'a mpsc" where
  "ticket_taken a x k s = put_agent a (if is_closed s then A_Spin x k else A_Claim x k) s"

definition ticket_judged :: "nat \<Rightarrow> 'a \<Rightarrow> nat \<Rightarrow> 'a mpsc \<Rightarrow> 'a mpsc" where
  "ticket_judged a x k s = put_agent a (if k < closed_at s then A_Claim x k else A_Idle) s"

text \<open>\<open>producer_try_claim\<close>\<close>

definition try_claim :: "nat \<Rightarrow> nat \<Rightarrow> 'a \<Rightarrow> nat \<Rightarrow> 'a mpsc \<Rightarrow> 'a mpsc" where
  "try_claim cap a x k s = (let i = k mod cap; cur = element_flags s i
     in if claimable cur then put_agent a (A_Emplace x k) (put_flags i (cur\<lparr>PROD_BIT := True\<rparr>) (s\<lparr>claims := (claims s)(i := claims s i + 1)\<rparr>))
        else if close_sentinel cur then put_agent a A_Idle (s\<lparr>refused := (refused s)(i := refused s i + 1)\<rparr>)
        else put_agent a (A_Park x k) s)"

text \<open>\<open>producer_park\<close>\<close>

definition mpsc_park :: "nat \<Rightarrow> nat \<Rightarrow> 'a \<Rightarrow> nat \<Rightarrow> 'a mpsc \<Rightarrow> 'a mpsc" where
  "mpsc_park cap a x k s = (let i = k mod cap; cur = element_flags s i
     in if claimable cur then put_agent a (A_Claim x k) s
        else if close_sentinel cur then put_agent a A_Idle (s\<lparr>refused := (refused s)(i := refused s i + 1)\<rparr>)
        else put_agent a (A_Parked x k) (put_flags i (cur\<lparr>chain_bits := a # chain_bits cur\<rparr>) s))"

text \<open>\<open>producer_publish\<close>\<close>

definition mpsc_publish :: "nat \<Rightarrow> bool \<Rightarrow> nat \<Rightarrow> 'a \<Rightarrow> nat \<Rightarrow> 'a mpsc \<Rightarrow> 'a mpsc" where
  "mpsc_publish cap can_suspend a x k s = (let i = k mod cap; cur = element_flags s i
     in put_agent a (if can_suspend \<and> CONS_BIT cur then A_Take k else A_Idle)
       (put_flags i (cur\<lparr>PROD_BIT := False, CONS_BIT := False, DATA_BIT := True\<rparr>) (s\<lparr>stored_in := (stored_in s)(i := stored_in s i @ [x])\<rparr>)))"

definition take_consumer :: "nat \<Rightarrow> nat \<Rightarrow> 'a agent \<Rightarrow> 'a mpsc \<Rightarrow> 'a mpsc" where
  "take_consumer a i next s = put_agent a (if waiting_consumer s i then next else A_Idle)
     (s\<lparr>waiting_consumer := (waiting_consumer s)(i := False)\<rparr>)"

definition post_consumer :: "nat \<Rightarrow> 'a mpsc \<Rightarrow> 'a mpsc" where
  "post_consumer a s = (if the_consumer s = K_Waiting then put_agent a A_Idle (s\<lparr>the_consumer := K_Resume\<rparr>) else put_agent a A_Bad s)"

text \<open>The loop of \<open>close_get_waiting_consumer\<close>: where it leaves, sets the sentinel, or looks at the consumer's offset.\<close>

definition close_look :: "nat \<Rightarrow> nat \<Rightarrow> nat \<Rightarrow> 'a mpsc \<Rightarrow> 'a mpsc" where
  "close_look cap a c s = (let i = c mod cap; cur = element_flags s i
     in if DATA_BIT cur \<or> PROD_BIT cur then put_agent a A_Idle s
        else if CONS_BIT cur then put_agent a (A_LookIdx c cur) s
        else put_agent a A_Idle (put_flags i (no_flags\<lparr>close_sentinel := True\<rparr>) s))"

definition close_mark :: "nat \<Rightarrow> nat \<Rightarrow> nat \<Rightarrow> mflags \<Rightarrow> 'a mpsc \<Rightarrow> 'a mpsc" where
  "close_mark cap a c cur s = (let i = c mod cap
     in if element_flags s i = cur then put_agent a (A_CloseTake c) (put_flags i (cur\<lparr>CONS_BIT := False, chain_bits := [], close_sentinel := True\<rparr>) s)
        else put_agent a (A_Look c) s)"

inductive agent_step :: "nat \<Rightarrow> bool \<Rightarrow> nat \<Rightarrow> 'a mpsc \<Rightarrow> 'a mpsc \<Rightarrow> bool" for cap can_suspend a where
  push: "agent_at s a = A_Idle \<Longrightarrow> agent_step cap can_suspend a s (put_agent a (A_Ticket x) s)"
| take_ticket: "agent_at s a = A_Ticket x \<Longrightarrow> tickets s < 2 ^ 63 \<Longrightarrow>
    agent_step cap can_suspend a s (put_agent a (A_Check x (tickets s)) (s\<lparr>tickets := tickets s + 1\<rparr>))"
| check_closed: "agent_at s a = A_Check x k \<Longrightarrow>
    agent_step cap can_suspend a s (ticket_taken a x k s)"
| check_cutoff: "agent_at s a = A_Spin x k \<Longrightarrow> closed_ready s \<Longrightarrow>
    agent_step cap can_suspend a s (ticket_judged a x k s)"
| claim: "agent_at s a = A_Claim x k \<Longrightarrow> agent_step cap can_suspend a s (try_claim cap a x k s)"
| park: "agent_at s a = A_Park x k \<Longrightarrow> agent_step cap can_suspend a s (mpsc_park cap a x k s)"
| emplace: "agent_at s a = A_Emplace x k \<Longrightarrow>
    agent_step cap can_suspend a s (put_agent a (A_Publish x k) (s\<lparr>object_in := (object_in s)(k mod cap := Some x)\<rparr>))"
| publish: "agent_at s a = A_Publish x k \<Longrightarrow> agent_step cap can_suspend a s (mpsc_publish cap can_suspend a x k s)"
| take: "agent_at s a = A_Take k \<Longrightarrow> agent_step cap can_suspend a s (take_consumer a (k mod cap) A_Post s)"
| post: "agent_at s a = A_Post \<Longrightarrow> agent_step cap can_suspend a s (post_consumer a s)"
| close: "agent_at s a = A_Idle \<Longrightarrow> agent_step cap can_suspend a s (put_agent a A_Close s)"
| close_flag: "agent_at s a = A_Close \<Longrightarrow>
    agent_step cap can_suspend a s (if is_closed s then put_agent a A_Idle s else put_agent a A_Add (s\<lparr>is_closed := True\<rparr>))"
| close_add: "agent_at s a = A_Add \<Longrightarrow> tickets s < 2 ^ 63 \<Longrightarrow>
    agent_step cap can_suspend a s (put_agent a (A_StoreCutoff (tickets s)) (s\<lparr>tickets := tickets s + 1, cutoff := Some (tickets s)\<rparr>))"
| close_cutoff: "agent_at s a = A_StoreCutoff c \<Longrightarrow>
    agent_step cap can_suspend a s (put_agent a (A_StoreReady c) (s\<lparr>closed_at := c\<rparr>))"
| close_ready: "agent_at s a = A_StoreReady c \<Longrightarrow>
    agent_step cap can_suspend a s (put_agent a (if can_suspend then A_Look c else A_Idle) (s\<lparr>closed_ready := True\<rparr>))"
| close_look: "agent_at s a = A_Look c \<Longrightarrow> agent_step cap can_suspend a s (close_look cap a c s)"
| close_idx: "agent_at s a = A_LookIdx c cur \<Longrightarrow>
    agent_step cap can_suspend a s (put_agent a (if waiting_consumer_idx s (c mod cap) < c then A_Idle else A_Mark c cur) s)"
| close_mark: "agent_at s a = A_Mark c cur \<Longrightarrow> agent_step cap can_suspend a s (close_mark cap a c cur s)"
| close_take: "agent_at s a = A_CloseTake c \<Longrightarrow> agent_step cap can_suspend a s (take_consumer a (c mod cap) A_Null s)"
| close_null: "agent_at s a = A_Null \<Longrightarrow> agent_step cap can_suspend a s (put_agent a A_Post (s\<lparr>elem_null := True\<rparr>))"

section \<open>The consumer\<close>

definition consumer_at :: "mconsumer \<Rightarrow> 'a mpsc \<Rightarrow> 'a mpsc" where
  "consumer_at c s = s\<lparr>the_consumer := c\<rparr>"

definition say_closed :: "'a mpsc \<Rightarrow> 'a mpsc" where
  "say_closed s = s\<lparr>the_consumer := K_Idle, said_closed := True\<rparr>"

text \<open>No data and not closed here: \<open>try_pull\<close> returns \<open>EMPTY\<close>, \<open>pull\<close> goes on to suspend.\<close>

definition nothing :: "bool \<Rightarrow> 'a mpsc \<Rightarrow> 'a mpsc" where
  "nothing try s = (if try then s\<lparr>the_consumer := K_Idle, said_empty := said_empty s + 1\<rparr> else s\<lparr>the_consumer := K_ArmIdx\<rparr>)"

definition skip_position :: "mconsumer \<Rightarrow> 'a mpsc \<Rightarrow> 'a mpsc" where
  "skip_position c s = s\<lparr>read_at := read_at s + 1, the_consumer := c\<rparr>"

text \<open>\<open>consumer_drain_and_handoff\<close> of element \<open>i\<close>\<close>

definition hand_to :: "nat \<Rightarrow> nat \<Rightarrow> mflags \<Rightarrow> nat list \<Rightarrow> 'a mpsc \<Rightarrow> 'a mpsc" where
  "hand_to i a f out s = (put_flags i f s)\<lparr>output_producers := (output_producers s)(i := out), the_consumer := K_Wake a,
     claims := (claims s)(i := claims s i + 1), drained := (drained s)(i := drained s i + 1)\<rparr>"

definition drain_and_handoff :: "nat \<Rightarrow> 'a mpsc \<Rightarrow> 'a mpsc" where
  "drain_and_handoff i s = (let cur = element_flags s i
     in case output_producers s i of
          a # out \<Rightarrow> hand_to i a (no_flags\<lparr>PROD_BIT := True, chain_bits := chain_bits cur, close_sentinel := close_sentinel cur\<rparr>) out s
        | [] \<Rightarrow> if cur = no_flags\<lparr>DATA_BIT := True\<rparr>
            then (put_flags i no_flags s)\<lparr>the_consumer := K_Idle, drained := (drained s)(i := drained s i + 1)\<rparr>
            else (case rev (chain_bits cur) of a # out \<Rightarrow> hand_to i a (no_flags\<lparr>PROD_BIT := True\<rparr>) out s
              | [] \<Rightarrow> s\<lparr>the_consumer := K_Bad\<rparr>))"

definition wake_parked :: "nat \<Rightarrow> 'a mpsc \<Rightarrow> 'a mpsc" where
  "wake_parked a s = (case agent_at s a of A_Parked x k \<Rightarrow> put_agent a (A_Emplace x k) (s\<lparr>the_consumer := K_Idle\<rparr>)
     | _ \<Rightarrow> s\<lparr>the_consumer := K_Bad\<rparr>)"

inductive mconsumer_step :: "nat \<Rightarrow> bool \<Rightarrow> 'a mpsc \<Rightarrow> 'a mpsc \<Rightarrow> bool" for cap can_suspend where
  pull: "the_consumer s = K_Idle \<Longrightarrow> try \<or> can_suspend \<Longrightarrow>
    mconsumer_step cap can_suspend s (consumer_at (K_Poll try) (s\<lparr>elem_null := False\<rparr>))"
| poll: "the_consumer s = K_Poll try \<Longrightarrow> f = element_flags s (read_at s mod cap) \<Longrightarrow>
    mconsumer_step cap can_suspend s (consumer_at (if DATA_BIT f then K_Hold else K_PollClosed try f) s)"
| poll_closed: "the_consumer s = K_PollClosed try f \<Longrightarrow>
    mconsumer_step cap can_suspend s (if is_closed s then consumer_at (K_PollSpin try f) s else nothing try s)"
| poll_cutoff: "the_consumer s = K_PollSpin try f \<Longrightarrow> closed_ready s \<Longrightarrow>
    mconsumer_step cap can_suspend s (if \<not> read_at s < closed_at s then say_closed s
      else if close_sentinel f then skip_position (K_Poll try) s else nothing try s)"
| arm_idx: "the_consumer s = K_ArmIdx \<Longrightarrow> mconsumer_step cap can_suspend s (consumer_at K_ArmSelf
    (s\<lparr>waiting_consumer_idx := (waiting_consumer_idx s)(read_at s mod cap := read_at s)\<rparr>))"
| arm_self: "the_consumer s = K_ArmSelf \<Longrightarrow> mconsumer_step cap can_suspend s (consumer_at K_ArmFlags
    (s\<lparr>waiting_consumer := (waiting_consumer s)(read_at s mod cap := True)\<rparr>))"
| arm_flags: "the_consumer s = K_ArmFlags \<Longrightarrow> f = element_flags s (read_at s mod cap) \<Longrightarrow>
    mconsumer_step cap can_suspend s (if DATA_BIT f then consumer_at (K_Unarm False) s
      else if close_sentinel f then consumer_at (K_Unarm True) s
      else consumer_at K_Waiting (put_flags (read_at s mod cap) (f\<lparr>CONS_BIT := True\<rparr>) s))"
| unarm: "the_consumer s = K_Unarm closing \<Longrightarrow>
    mconsumer_step cap can_suspend s (if waiting_consumer s (read_at s mod cap)
      then consumer_at (if closing then K_UnarmSpin else K_Hold) (s\<lparr>waiting_consumer := (waiting_consumer s)(read_at s mod cap := False)\<rparr>)
      else consumer_at K_Waiting s)"
| unarm_cutoff: "the_consumer s = K_UnarmSpin \<Longrightarrow> closed_ready s \<Longrightarrow>
    mconsumer_step cap can_suspend s (if \<not> read_at s < closed_at s then say_closed s else skip_position K_ArmIdx s)"
| resume: "the_consumer s = K_Resume \<Longrightarrow>
    mconsumer_step cap can_suspend s (if elem_null s then say_closed s else consumer_at K_Hold s)"
| release: "the_consumer s = K_Hold \<Longrightarrow> i = read_at s mod cap \<Longrightarrow>
    mconsumer_step cap can_suspend s (s\<lparr>got := got s @ [(read_at s, object_in s i)], object_in := (object_in s)(i := None),
      read_at := read_at s + 1, the_consumer := K_Drain\<rparr>)"
| drain: "the_consumer s = K_Drain \<Longrightarrow> mconsumer_step cap can_suspend s (drain_and_handoff ((read_at s - 1) mod cap) s)"
| wake: "the_consumer s = K_Wake a \<Longrightarrow> mconsumer_step cap can_suspend s (wake_parked a s)"

text \<open>The agents are numbered below \<open>n\<close>.\<close>

definition mpsc_move :: "nat \<Rightarrow> nat \<Rightarrow> bool \<Rightarrow> 'a mpsc \<Rightarrow> 'a mpsc \<Rightarrow> bool" where
  "mpsc_move n cap can_suspend s s' \<longleftrightarrow> (\<exists>a < n. agent_step cap can_suspend a s s') \<or> mconsumer_step cap can_suspend s s'"

definition mpsc_new :: "'a mpsc" where
  "mpsc_new = \<lparr>element_flags = (\<lambda>_. no_flags), output_producers = (\<lambda>_. []), waiting_consumer = (\<lambda>_. False),
     waiting_consumer_idx = (\<lambda>_. 0), object_in = (\<lambda>_. None), tickets = 0, read_at = 0, is_closed = False, closed_ready = False,
     closed_at = 0, agent_at = (\<lambda>_. A_Idle), the_consumer = K_Idle, elem_null = False, cutoff = None, stored_in = (\<lambda>_. []),
     got = [], claims = (\<lambda>_. 0), drained = (\<lambda>_. 0), refused = (\<lambda>_. 0), said_closed = False, said_empty = 0\<rparr>"

definition mpsc_start :: "nat \<Rightarrow> 'a mpsc \<Rightarrow> bool" where
  "mpsc_start cap s \<longleftrightarrow> 0 < cap \<and> s = mpsc_new"

section \<open>One push and one pull with nobody in between\<close>

definition pushed_to :: "nat \<Rightarrow> nat \<Rightarrow> 'a \<Rightarrow> 'a mpsc \<Rightarrow> 'a mpsc" where
  "pushed_to cap a x s = (let i = tickets s mod cap in s\<lparr>agent_at := (agent_at s)(a := A_Idle), tickets := tickets s + 1,
     element_flags := (element_flags s)(i := no_flags\<lparr>DATA_BIT := True\<rparr>), object_in := (object_in s)(i := Some x),
     stored_in := (stored_in s)(i := stored_in s i @ [x]), claims := (claims s)(i := claims s i + 1)\<rparr>)"

lemma mpsc_push_run:
  assumes "agent_at s a = A_Idle" and "\<not> is_closed s" and "tickets s < 2 ^ 63"
    and f: "element_flags s (tickets s mod cap) = no_flags"
  shows "(agent_step cap cs a)\<^sup>*\<^sup>* s (pushed_to cap a x s)"
proof -
  let ?k = "tickets s"
  let ?i = "?k mod cap"
  define s1 where "s1 = put_agent a (A_Ticket x) s"
  define s2 where "s2 = put_agent a (A_Check x ?k) (s1\<lparr>tickets := ?k + 1\<rparr>)"
  define s3 where "s3 = put_agent a (A_Claim x ?k) s2"
  define s4 where "s4 = try_claim cap a x ?k s3"
  define s5 where "s5 = put_agent a (A_Publish x ?k) (s4\<lparr>object_in := (object_in s4)(?i := Some x)\<rparr>)"
  note ops = put_agent_def put_flags_def try_claim_def mpsc_publish_def Let_def claimable_def no_flags_def
  have "(agent_step cap cs a)\<^sup>*\<^sup>* s s" by simp
  also have "agent_step cap cs a s s1"
    unfolding s1_def by (rule agent_step.push) (use assms in simp)
  also (rtranclp.rtrancl_into_rtrancl) have "agent_step cap cs a s1 s2" unfolding s2_def
    using agent_step.take_ticket [of s1 a x cap cs] assms(3) by (simp add: s1_def put_agent_def)
  also (rtranclp.rtrancl_into_rtrancl) have "agent_step cap cs a s2 s3" unfolding s3_def
    using agent_step.check_closed [of s2 a x ?k cap cs] assms(2) by (simp add: s1_def s2_def put_agent_def ticket_taken_def)
  also (rtranclp.rtrancl_into_rtrancl) have "agent_step cap cs a s3 s4" unfolding s4_def
    by (rule agent_step.claim) (simp add: s3_def put_agent_def)
  also (rtranclp.rtrancl_into_rtrancl) have "agent_step cap cs a s4 s5" unfolding s5_def
    by (rule agent_step.emplace) (use f in \<open>simp add: s4_def s3_def s2_def s1_def ops\<close>)
  also (rtranclp.rtrancl_into_rtrancl) have "agent_step cap cs a s5 (mpsc_publish cap cs a x ?k s5)"
    by (rule agent_step.publish) (simp add: s5_def put_agent_def)
  also (rtranclp.rtrancl_into_rtrancl) have "mpsc_publish cap cs a x ?k s5 = pushed_to cap a x s"
    using f by (simp add: s5_def s4_def s3_def s2_def s1_def ops pushed_to_def)
  finally show ?thesis .
qed

definition pulled_from :: "nat \<Rightarrow> 'a mpsc \<Rightarrow> 'a mpsc" where
  "pulled_from cap s = (let i = read_at s mod cap in s\<lparr>elem_null := False, got := got s @ [(read_at s, object_in s i)],
     object_in := (object_in s)(i := None), read_at := read_at s + 1, element_flags := (element_flags s)(i := no_flags),
     drained := (drained s)(i := drained s i + 1)\<rparr>)"

lemma mpsc_pull_run:
  assumes "the_consumer s = K_Idle" and f: "element_flags s (read_at s mod cap) = no_flags\<lparr>DATA_BIT := True\<rparr>"
    and "output_producers s (read_at s mod cap) = []"
  shows "(mconsumer_step cap cs)\<^sup>*\<^sup>* s (pulled_from cap s)"
proof -
  let ?i = "read_at s mod cap"
  define s1 where "s1 = consumer_at (K_Poll True) (s\<lparr>elem_null := False\<rparr>)"
  define s2 where "s2 = consumer_at K_Hold s1"
  define s3 where "s3 = s2\<lparr>got := got s @ [(read_at s, object_in s ?i)], object_in := (object_in s)(?i := None),
    read_at := read_at s + 1, the_consumer := K_Drain\<rparr>"
  have "(mconsumer_step cap cs)\<^sup>*\<^sup>* s s" by simp
  also have "mconsumer_step cap cs s s1"
    unfolding s1_def by (rule mconsumer_step.pull) (use assms in simp_all)
  also (rtranclp.rtrancl_into_rtrancl) have "mconsumer_step cap cs s1 s2"
    using mconsumer_step.poll [of s1 True _ cap cs] f by (simp add: s2_def s1_def consumer_at_def)
  also (rtranclp.rtrancl_into_rtrancl) have "mconsumer_step cap cs s2 s3"
    using mconsumer_step.release [of s2 ?i cap cs] by (simp add: s3_def s2_def s1_def consumer_at_def)
  also (rtranclp.rtrancl_into_rtrancl) have "mconsumer_step cap cs s3 (drain_and_handoff ((read_at s3 - 1) mod cap) s3)"
    by (rule mconsumer_step.drain) (simp add: s3_def)
  also (rtranclp.rtrancl_into_rtrancl) have "drain_and_handoff ((read_at s3 - 1) mod cap) s3 = pulled_from cap s"
    using assms by (simp add: s3_def s2_def s1_def consumer_at_def drain_and_handoff_def pulled_from_def put_flags_def Let_def)
  finally show ?thesis .
qed

lemma move_agent: "reach (mpsc_start cap) (mpsc_move n cap cs) s \<Longrightarrow> agent_step cap cs a s s' \<Longrightarrow> a < n \<Longrightarrow>
    reach (mpsc_start cap) (mpsc_move n cap cs) s'"
  unfolding mpsc_move_def by (blast intro: reach_step)

lemma move_agent_run: "(agent_step cap cs a)\<^sup>*\<^sup>* s s' \<Longrightarrow> reach (mpsc_start cap) (mpsc_move n cap cs) s \<Longrightarrow> a < n \<Longrightarrow>
    reach (mpsc_start cap) (mpsc_move n cap cs) s'"
  by (induction rule: rtranclp_induct) (auto intro: move_agent)

text \<open>
  C12: The bounded queue is not linearizable as a first-in-first-out queue: with one other producer stalled after it took a
  ticket, a producer whose push of \<open>x\<close> has returned before its push of \<open>y\<close> starts has the two pulled as \<open>y\<close>, \<open>x\<close>.
\<close>

theorem mpsc_not_fifo:
  "\<exists>s0 s1 s2 s3. reach (mpsc_start 2) (mpsc_move 2 2 cs) s0 \<and> stored_in s0 = (\<lambda>_. []) \<and> got s0 = [] \<and>
     (agent_step 2 cs 1)\<^sup>*\<^sup>* s0 s1 \<and> agent_at s1 1 = A_Idle \<and> stored_in s1 0 = [] \<and> stored_in s1 1 = [x :: 'a] \<and>
     (agent_step 2 cs 1)\<^sup>*\<^sup>* s1 s2 \<and> agent_at s2 1 = A_Idle \<and> stored_in s2 0 = [y] \<and> stored_in s2 1 = [x] \<and>
     (mconsumer_step 2 cs)\<^sup>*\<^sup>* s2 s3 \<and> got s3 = [(0, Some y), (1, Some x)]"
proof -
  note ops = put_agent_def mpsc_new_def pushed_to_def Let_def
  define t :: "'a mpsc" where "t = put_agent 0 (A_Ticket x) mpsc_new"
  define s0 where "s0 = put_agent 0 (A_Check x 0) (t\<lparr>tickets := 1\<rparr>)"
  define s1 where "s1 = pushed_to 2 1 x s0"
  define s2 where "s2 = pushed_to 2 1 y s1"
  define s3 where "s3 = pulled_from 2 s2"
  have "reach (mpsc_start 2) (mpsc_move 2 2 cs) (mpsc_new :: 'a mpsc)" by (rule reach_start) (simp add: mpsc_start_def)
  moreover have "agent_step 2 cs 0 mpsc_new t" unfolding t_def by (rule agent_step.push) (simp add: mpsc_new_def)
  moreover have "agent_step 2 cs 0 t s0"
    using agent_step.take_ticket [of t 0 x 2 cs] by (simp add: s0_def t_def ops)
  ultimately have r: "reach (mpsc_start 2) (mpsc_move 2 2 cs) s0" by (meson move_agent zero_less_numeral)
  have p1: "(agent_step 2 cs 1)\<^sup>*\<^sup>* s0 s1" unfolding s1_def by (rule mpsc_push_run) (simp_all add: s0_def t_def ops)
  have p2: "(agent_step 2 cs 1)\<^sup>*\<^sup>* s1 s2" unfolding s2_def by (rule mpsc_push_run) (simp_all add: s1_def s0_def t_def ops)
  have "(mconsumer_step 2 cs)\<^sup>*\<^sup>* s2 s3" unfolding s3_def by (rule mpsc_pull_run) (simp_all add: s2_def s1_def s0_def t_def ops)
  moreover have "(mconsumer_step 2 cs)\<^sup>*\<^sup>* s3 (pulled_from 2 s3)"
    by (rule mpsc_pull_run) (simp_all add: s3_def pulled_from_def s2_def s1_def s0_def t_def ops)
  ultimately have p3: "(mconsumer_step 2 cs)\<^sup>*\<^sup>* s2 (pulled_from 2 s3)" by simp
  show ?thesis
    by (rule exI [of _ s0], rule exI [of _ s1], rule exI [of _ s2], rule exI [of _ "pulled_from 2 s3"])
      (use r p1 p2 p3 in \<open>simp add: s3_def pulled_from_def s2_def s1_def s0_def t_def ops\<close>)
qed

end
