(* ===== verification/MpscInvariant.thy ===== *)
theory MpscInvariant
  imports Mpsc
begin

text \<open>
  The invariant of the bounded queue of many producers and one consumer: the elements and their chains, the protocol of
  \<open>close\<close>, who may resume the consumer, the items, the tickets, and the consumer that waits at the cutoff.
\<close>

section \<open>Who is where\<close>

definition agents_at :: "('a agent \<Rightarrow> bool) \<Rightarrow> (nat \<Rightarrow> 'a agent) \<Rightarrow> nat set" where
  "agents_at P ag = {a. P (ag a)}"

lemma agents_at_same: "P p = P (ag a) \<Longrightarrow> agents_at P (ag(a := p)) = agents_at P ag"
  by (auto simp: agents_at_def)

lemma agents_at_in: "P p \<Longrightarrow> agents_at P (ag(a := p)) = insert a (agents_at P ag)"
  by (auto simp: agents_at_def)

lemma agents_at_out: "\<not> P p \<Longrightarrow> agents_at P (ag(a := p)) = agents_at P ag - {a}"
  by (auto simp: agents_at_def)

lemma agents_at_iff: "a \<in> agents_at P ag \<longleftrightarrow> P (ag a)"
  by (simp add: agents_at_def)

fun emplacing :: "nat \<Rightarrow> nat \<Rightarrow> 'a agent \<Rightarrow> bool" where
  "emplacing cap i (A_Emplace x k) \<longleftrightarrow> k mod cap = i"
| "emplacing cap i (A_Publish x k) \<longleftrightarrow> k mod cap = i"
| "emplacing cap i _ \<longleftrightarrow> False"

fun parking :: "nat \<Rightarrow> nat \<Rightarrow> 'a agent \<Rightarrow> bool" where
  "parking cap i (A_Parked x k) \<longleftrightarrow> k mod cap = i"
| "parking cap i _ \<longleftrightarrow> False"

definition handed :: "mconsumer \<Rightarrow> nat set" where
  "handed c = {a. c = K_Wake a}"

lemma handed_simps [simp]: "handed K_Idle = {}" "handed (K_Wake a) = {a}" "handed K_Drain = {}" "handed K_Waiting = {}" "handed K_Resume = {}"
  "handed K_Hold = {}" "handed (K_Poll b) = {}" "handed (K_PollClosed b f) = {}" "handed (K_PollSpin b f) = {}" "handed K_ArmIdx = {}"
  "handed K_ArmSelf = {}" "handed K_ArmFlags = {}" "handed (K_Unarm b) = {}" "handed K_UnarmSpin = {}"
  by (auto simp: handed_def)

section \<open>One element\<close>

text \<open>The parked producers are in the two chains, once each; a producer that may write holds the bit \<open>PROD\<close>.\<close>

definition elem_ok :: "mflags \<Rightarrow> nat list \<Rightarrow> nat set \<Rightarrow> nat set \<Rightarrow> nat set \<Rightarrow> bool" where
  "elem_ok f out W Q H \<longleftrightarrow> distinct (chain_bits f @ out) \<and> set (chain_bits f @ out) = Q - H \<and>
     (if PROD_BIT f then \<exists>a. W \<union> Q \<inter> H = {a} else W \<union> Q \<inter> H = {}) \<and> \<not> (PROD_BIT f \<and> DATA_BIT f) \<and>
     (\<not> PROD_BIT f \<and> \<not> DATA_BIT f \<longrightarrow> chain_bits f = [] \<and> out = []) \<and> (close_sentinel f \<longrightarrow> \<not> PROD_BIT f \<and> \<not> DATA_BIT f)"

definition elems_ok :: "nat \<Rightarrow> 'a mpsc \<Rightarrow> bool" where
  "elems_ok cap s \<longleftrightarrow> (\<forall>i < cap. elem_ok (element_flags s i) (output_producers s i) (agents_at (emplacing cap i) (agent_at s))
     (agents_at (parking cap i) (agent_at s)) (handed (the_consumer s)))"

fun remembered :: "'a agent \<Rightarrow> bool" where
  "remembered (A_LookIdx c f) \<longleftrightarrow> \<not> PROD_BIT f \<and> \<not> DATA_BIT f \<and> CONS_BIT f"
| "remembered (A_Mark c f) \<longleftrightarrow> \<not> PROD_BIT f \<and> \<not> DATA_BIT f \<and> CONS_BIT f"
| "remembered A_Bad \<longleftrightarrow> False"
| "remembered _ \<longleftrightarrow> True"

lemma elem_ok_claim: "elem_ok f out W Q H \<Longrightarrow> claimable f \<Longrightarrow> a \<notin> Q \<Longrightarrow> elem_ok (f\<lparr>PROD_BIT := True\<rparr>) out (insert a W) Q H"
  by (auto simp: elem_ok_def claimable_def)

lemma elem_ok_park: "elem_ok f out W Q H \<Longrightarrow> \<not> claimable f \<Longrightarrow> \<not> close_sentinel f \<Longrightarrow> a \<notin> Q \<Longrightarrow> a \<notin> H \<Longrightarrow>
    elem_ok (f\<lparr>chain_bits := a # chain_bits f\<rparr>) out W (insert a Q) H"
  by (auto simp: elem_ok_def claimable_def split: if_splits)

lemma elem_ok_publish:
  assumes "elem_ok f out W Q H" and "a \<in> W" and "a \<notin> Q"
  shows "elem_ok (f\<lparr>PROD_BIT := False, CONS_BIT := False, DATA_BIT := True\<rparr>) out (W - {a}) Q H"
proof -
  obtain b where "W \<union> Q \<inter> H = {b}" using assms(1,2) by (auto simp: elem_ok_def split: if_splits)
  then have "W \<union> Q \<inter> H = {a}" using assms(2) by (metis UnI1 singletonD)
  then have "W - {a} = {}" "Q \<inter> H = {}" using assms(3) by auto
  then show ?thesis using assms by (auto simp: elem_ok_def split: if_splits)
qed

lemma elem_ok_seal: "elem_ok f out W Q H \<Longrightarrow> \<not> PROD_BIT f \<Longrightarrow> \<not> DATA_BIT f \<Longrightarrow>
    elem_ok (f\<lparr>CONS_BIT := False, chain_bits := [], close_sentinel := True\<rparr>) out W Q H"
  by (auto simp: elem_ok_def)

lemma elem_ok_wait: "elem_ok (f\<lparr>CONS_BIT := b\<rparr>) out W Q H \<longleftrightarrow> elem_ok f out W Q H"
  by (simp add: elem_ok_def)

lemma elem_ok_free: "elem_ok f [] W Q {} \<Longrightarrow> f = no_flags\<lparr>DATA_BIT := True\<rparr> \<Longrightarrow> elem_ok no_flags [] W Q {}"
  by (auto simp: elem_ok_def no_flags_def)

lemma elem_ok_hand_out: "elem_ok f (a # out) W Q {} \<Longrightarrow> DATA_BIT f \<Longrightarrow>
    elem_ok (no_flags\<lparr>PROD_BIT := True, chain_bits := chain_bits f, close_sentinel := close_sentinel f\<rparr>) out W Q {a}"
  by (auto simp: elem_ok_def no_flags_def)

lemma elem_ok_hand_in: "elem_ok f [] W Q {} \<Longrightarrow> DATA_BIT f \<Longrightarrow> rev (chain_bits f) = a # out \<Longrightarrow>
    elem_ok (no_flags\<lparr>PROD_BIT := True\<rparr>) out W Q {a}"
  by (auto simp: elem_ok_def no_flags_def simp flip: distinct_rev [of "chain_bits f"] set_rev [of "chain_bits f"])

lemma elem_ok_other: "elem_ok f out W Q {} \<Longrightarrow> a \<notin> Q \<Longrightarrow> elem_ok f out W Q {a}"
  by (auto simp: elem_ok_def)

lemma elem_ok_woken: "elem_ok f out W Q {a} \<Longrightarrow> a \<in> Q \<Longrightarrow> elem_ok f out (insert a W) (Q - {a}) {}"
  by (auto simp: elem_ok_def split: if_splits)

lemma elem_ok_not_woken: "elem_ok f out W Q {a} \<Longrightarrow> a \<notin> Q \<Longrightarrow> elem_ok f out W Q {}"
  by (auto simp: elem_ok_def)

lemma elem_ok_writer: "elem_ok f out W Q H \<Longrightarrow> a \<in> W \<Longrightarrow> PROD_BIT f \<and> \<not> DATA_BIT f"
  by (auto simp: elem_ok_def split: if_splits)

definition all_remembered :: "'a mpsc \<Rightarrow> bool" where
  "all_remembered s \<longleftrightarrow> (\<forall>a. remembered (agent_at s a))"

lemmas mpsc_ops = ticket_taken_def ticket_judged_def put_agent_def put_flags_def try_claim_def mpsc_park_def mpsc_publish_def take_consumer_def post_consumer_def
  close_look_def close_mark_def consumer_at_def say_closed_def nothing_def skip_position_def hand_to_def Let_def

text \<open>A step that leaves the flags and moves an agent that is neither writing nor parked.\<close>

lemma elems_ok_quiet:
  assumes "elems_ok cap s" and "element_flags s' = element_flags s" and "output_producers s' = output_producers s"
    and "handed (the_consumer s') = handed (the_consumer s)" and "agent_at s' = (agent_at s)(a := p)"
    and "\<And>i. emplacing cap i p = emplacing cap i (agent_at s a)" and "\<And>i. parking cap i p = parking cap i (agent_at s a)"
  shows "elems_ok cap s'"
  using assms by (simp add: elems_ok_def agents_at_same)

text \<open>A step at one element.\<close>

lemma elems_ok_at:
  assumes "elems_ok cap s" and "element_flags s' = (element_flags s)(i := f)" and "output_producers s' = output_producers s"
    and "handed (the_consumer s') = handed (the_consumer s)" and "agent_at s' = (agent_at s)(a := p)"
    and "\<And>j. j \<noteq> i \<Longrightarrow> emplacing cap j p = emplacing cap j (agent_at s a)"
    and "\<And>j. j \<noteq> i \<Longrightarrow> parking cap j p = parking cap j (agent_at s a)"
    and "elem_ok (element_flags s i) (output_producers s i) (agents_at (emplacing cap i) (agent_at s)) (agents_at (parking cap i) (agent_at s))
      (handed (the_consumer s)) \<Longrightarrow>
      elem_ok f (output_producers s i) (agents_at (emplacing cap i) ((agent_at s)(a := p))) (agents_at (parking cap i) ((agent_at s)(a := p)))
      (handed (the_consumer s))"
  shows "elems_ok cap s'"
  using assms unfolding elems_ok_def by (simp add: agents_at_same)

lemma elems_ok_agent:
  assumes "elems_ok cap s" and "all_remembered s" and "\<And>b. the_consumer s = K_Wake b \<Longrightarrow> \<exists>x k. agent_at s b = A_Parked x k"
    and step: "agent_step cap cs a s s'"
  shows "elems_ok cap s'"
  using step
proof cases
  case (claim x k)
  show ?thesis
  proof (cases "claimable (element_flags s (k mod cap))")
    case True
    show ?thesis
      by (rule elems_ok_at [OF assms(1), where i = "k mod cap" and a = a and p = "A_Emplace x k"
            and f = "(element_flags s (k mod cap))\<lparr>PROD_BIT := True\<rparr>"])
        (use True claim assms(1) in \<open>auto simp: mpsc_ops agents_at_in agents_at_same agents_at_iff intro: elem_ok_claim\<close>)
  next
    case False
    then show ?thesis using claim
      by (intro elems_ok_quiet [OF assms(1), where a = a and p = "if close_sentinel (element_flags s (k mod cap)) then A_Idle else A_Park x k"])
        (simp_all add: mpsc_ops)
  qed
next
  case (park x k)
  show ?thesis
  proof (cases "claimable (element_flags s (k mod cap)) \<or> close_sentinel (element_flags s (k mod cap))")
    case True
    then show ?thesis using park
      by (intro elems_ok_quiet [OF assms(1), where a = a and p = "if claimable (element_flags s (k mod cap)) then A_Claim x k else A_Idle"])
        (auto simp: mpsc_ops)
  next
    case False
    have "a \<notin> handed (the_consumer s)" using assms(3) [of a] park by (auto simp: handed_def)
    show ?thesis
      by (rule elems_ok_at [OF assms(1), where i = "k mod cap" and a = a and p = "A_Parked x k"
            and f = "(element_flags s (k mod cap))\<lparr>chain_bits := a # chain_bits (element_flags s (k mod cap))\<rparr>"])
        (use False park \<open>a \<notin> handed (the_consumer s)\<close> assms(1) in \<open>auto simp: mpsc_ops agents_at_in agents_at_same agents_at_iff intro: elem_ok_park\<close>)
  qed
next
  case (publish x k)
  show ?thesis
    by (rule elems_ok_at [OF assms(1), where i = "k mod cap" and a = a and p = "if cs \<and> CONS_BIT (element_flags s (k mod cap)) then A_Take k else A_Idle"
          and f = "(element_flags s (k mod cap))\<lparr>PROD_BIT := False, CONS_BIT := False, DATA_BIT := True\<rparr>"])
      (use publish assms(1) in \<open>auto simp: mpsc_ops agents_at_out agents_at_same agents_at_iff intro: elem_ok_publish\<close>)
next
  case (close_look c)
  let ?f = "element_flags s (c mod cap)"
  show ?thesis
  proof (cases "DATA_BIT ?f \<or> PROD_BIT ?f \<or> CONS_BIT ?f")
    case True
    then show ?thesis using close_look
      by (intro elems_ok_quiet [OF assms(1), where a = a and p = "if DATA_BIT ?f \<or> PROD_BIT ?f then A_Idle else A_LookIdx c ?f"])
        (auto simp: mpsc_ops)
  next
    case False
    show ?thesis
      by (rule elems_ok_at [OF assms(1), where i = "c mod cap" and a = a and p = A_Idle and f = "no_flags\<lparr>close_sentinel := True\<rparr>"])
        (use False close_look assms(1) in \<open>auto simp: mpsc_ops agents_at_same agents_at_iff elem_ok_def no_flags_def\<close>)
  qed
next
  case (close_mark c cur)
  show ?thesis
  proof (cases "element_flags s (c mod cap) = cur")
    case True
    have "remembered (agent_at s a)" using assms(2) by (simp add: all_remembered_def)
    show ?thesis
      by (rule elems_ok_at [OF assms(1), where i = "c mod cap" and a = a and p = "A_CloseTake c"
            and f = "cur\<lparr>CONS_BIT := False, chain_bits := [], close_sentinel := True\<rparr>"])
        (use close_mark True \<open>remembered (agent_at s a)\<close> assms(1) in \<open>auto simp: mpsc_ops agents_at_same agents_at_iff intro: elem_ok_seal\<close>)
  next
    case False
    then show ?thesis using close_mark
      by (intro elems_ok_quiet [OF assms(1), where a = a and p = "A_Look c"]) (simp_all add: mpsc_ops)
  qed
next
  case (emplace x k)
  then show ?thesis
    by (intro elems_ok_quiet [OF assms(1), where a = a and p = "A_Publish x k"]) (simp_all add: mpsc_ops)
next
  case (post)
  then show ?thesis
    by (intro elems_ok_quiet [OF assms(1), where a = a and p = "if the_consumer s = K_Waiting then A_Idle else A_Bad"]) (simp_all add: mpsc_ops)
qed (rule elems_ok_quiet [OF assms(1), where a = a and p = "agent_at s' a"]; simp add: mpsc_ops)+


section \<open>Where the consumer is\<close>

definition sealed :: "'a mpsc \<Rightarrow> bool" where
  "sealed s \<longleftrightarrow> closed_ready s \<and> closed_at s \<le> read_at s"

definition here :: "nat \<Rightarrow> 'a mpsc \<Rightarrow> mflags" where
  "here cap s = element_flags s (read_at s mod cap)"

fun mconsumer_ok :: "nat \<Rightarrow> 'a mpsc \<Rightarrow> mconsumer \<Rightarrow> bool" where
  "mconsumer_ok cap s K_Hold \<longleftrightarrow> DATA_BIT (here cap s)"
| "mconsumer_ok cap s K_Resume \<longleftrightarrow> (if elem_null s then sealed s else DATA_BIT (here cap s))"
| "mconsumer_ok cap s (K_Unarm b) \<longleftrightarrow> (if b then close_sentinel (here cap s) else DATA_BIT (here cap s))"
| "mconsumer_ok cap s K_UnarmSpin \<longleftrightarrow> close_sentinel (here cap s)"
| "mconsumer_ok cap s (K_PollClosed b f) \<longleftrightarrow> (close_sentinel f \<longrightarrow> close_sentinel (here cap s))"
| "mconsumer_ok cap s (K_PollSpin b f) \<longleftrightarrow> (close_sentinel f \<longrightarrow> close_sentinel (here cap s))"
| "mconsumer_ok cap s K_Drain \<longleftrightarrow> 0 < read_at s \<and> DATA_BIT (element_flags s ((read_at s - 1) mod cap))"
| "mconsumer_ok cap s (K_Wake a) \<longleftrightarrow> (\<exists>x k. agent_at s a = A_Parked x k)"
| "mconsumer_ok cap s K_Bad \<longleftrightarrow> False"
| "mconsumer_ok cap s _ \<longleftrightarrow> True"

lemma element_drained:
  assumes "elem_ok f [] W Q H" and "DATA_BIT f" and "\<not> CONS_BIT f" and "chain_bits f = []"
  shows "f = no_flags\<lparr>DATA_BIT := True\<rparr>"
  using assms by (cases f) (simp add: elem_ok_def no_flags_def)

text \<open>What the consumer does at the end of a pull.\<close>

lemma drain_cases:
  assumes e: "elem_ok (element_flags s i) (output_producers s i) W Q H" and "DATA_BIT (element_flags s i)" and "\<not> CONS_BIT (element_flags s i)"
  obtains (free) "output_producers s i = []" "element_flags s i = no_flags\<lparr>DATA_BIT := True\<rparr>"
      "drain_and_handoff i s = (put_flags i no_flags s)\<lparr>the_consumer := K_Idle, drained := (drained s)(i := drained s i + 1)\<rparr>"
  | (hand_out) a out where "output_producers s i = a # out"
      "drain_and_handoff i s = hand_to i a (no_flags\<lparr>PROD_BIT := True, chain_bits := chain_bits (element_flags s i),
         close_sentinel := close_sentinel (element_flags s i)\<rparr>) out s"
  | (hand_in) a out where "output_producers s i = []" "rev (chain_bits (element_flags s i)) = a # out"
      "drain_and_handoff i s = hand_to i a (no_flags\<lparr>PROD_BIT := True\<rparr>) out s"
proof (cases "output_producers s i")
  case (Cons a out)
  then show ?thesis by (intro hand_out) (simp_all add: drain_and_handoff_def Let_def)
next
  case Nil
  show ?thesis
  proof (cases "rev (chain_bits (element_flags s i))")
    case Nil
    then have "element_flags s i = no_flags\<lparr>DATA_BIT := True\<rparr>"
      using assms \<open>output_producers s i = []\<close> by (intro element_drained) simp_all
    then show ?thesis using \<open>output_producers s i = []\<close> by (intro free) (simp_all add: drain_and_handoff_def Let_def)
  next
    case (Cons a out)
    then have "element_flags s i \<noteq> no_flags\<lparr>DATA_BIT := True\<rparr>" by (auto simp: no_flags_def)
    then show ?thesis using \<open>output_producers s i = []\<close> Cons by (intro hand_in) (simp_all add: drain_and_handoff_def Let_def)
  qed
qed

lemma elem_ok_handed: "elem_ok f out W Q {} \<Longrightarrow> a \<in> set (chain_bits f @ out) \<Longrightarrow> a \<in> Q"
  by (auto simp: elem_ok_def)

lemma parking_one: "parking cap i (ag a) \<Longrightarrow> parking cap j (ag a) \<Longrightarrow> i = j"
  by (cases "ag a") auto

text \<open>The element \<open>i\<close> is handed to \<open>a\<close>.\<close>

lemma elems_ok_hand:
  assumes "elems_ok cap s" and "i < cap" and "handed (the_consumer s) = {}" and "a \<in> agents_at (parking cap i) (agent_at s)"
    and "elem_ok f out (agents_at (emplacing cap i) (agent_at s)) (agents_at (parking cap i) (agent_at s)) {a}"
  shows "elems_ok cap (hand_to i a f out s)"
proof -
  have "a \<notin> agents_at (parking cap j) (agent_at s)" if "j \<noteq> i" for j
    using assms(4) parking_one [of cap i "agent_at s" a j] that by (auto simp: agents_at_iff)
  then show ?thesis using assms unfolding elems_ok_def
    by (auto simp: hand_to_def put_flags_def intro: elem_ok_other)
qed

lemma elems_ok_kept:
  assumes "elems_ok cap s" and "element_flags s' = element_flags s" and "output_producers s' = output_producers s"
    and "handed (the_consumer s') = handed (the_consumer s)" and "agent_at s' = agent_at s"
  shows "elems_ok cap s'"
  using assms by (simp add: elems_ok_def)

lemma elems_ok_consumer:
  assumes "0 < cap" and ok: "elems_ok cap s" and here: "mconsumer_ok cap s (the_consumer s)"
    and quiet: "the_consumer s = K_Drain \<Longrightarrow> \<not> CONS_BIT (element_flags s ((read_at s - 1) mod cap))"
    and step: "mconsumer_step cap cs s s'"
  shows "elems_ok cap s'"
  using step
proof cases
  case drain
  define i where "i = (read_at s - 1) mod cap"
  let ?f = "element_flags s i" and ?W = "agents_at (emplacing cap i) (agent_at s)" and ?Q = "agents_at (parking cap i) (agent_at s)"
  have i: "i < cap" using assms(1) by (simp add: i_def)
  have e: "elem_ok ?f (output_producers s i) ?W ?Q {}" using ok i drain(2) unfolding elems_ok_def by (metis handed_simps(3))
  have d: "DATA_BIT ?f" "\<not> CONS_BIT ?f" using here quiet drain(2) by (simp_all add: i_def)
  have s': "s' = drain_and_handoff i s" using drain(1) by (simp add: i_def)
  from e d show ?thesis
  proof (cases rule: drain_cases)
    case free
    then show ?thesis using ok i e drain(2) elem_ok_free [of ?f ?W ?Q] unfolding s' elems_ok_def by (simp add: put_flags_def)
  next
    case (hand_out a out)
    then show ?thesis unfolding s' hand_out(2) using e i drain(2) d
      by (intro elems_ok_hand ok elem_ok_hand_out) (auto intro: elem_ok_handed)
  next
    case (hand_in a out)
    then have "a \<in> set (rev (chain_bits ?f))" by simp
    then show ?thesis unfolding s' hand_in(3) using e i drain(2) d hand_in
      by (intro elems_ok_hand ok elem_ok_hand_in) (auto intro: elem_ok_handed)
  qed
next
  case (wake a)
  then obtain x k where a: "agent_at s a = A_Parked x k" using here by auto
  have s': "s' = put_agent a (A_Emplace x k) (s\<lparr>the_consumer := K_Idle\<rparr>)" using wake a by (simp add: wake_parked_def)
  show ?thesis
    unfolding elems_ok_def
  proof (intro allI impI)
    fix j assume "j < cap"
    then have e: "elem_ok (element_flags s j) (output_producers s j) (agents_at (emplacing cap j) (agent_at s))
        (agents_at (parking cap j) (agent_at s)) {a}" using ok wake(2) by (simp add: elems_ok_def)
    show "elem_ok (element_flags s' j) (output_producers s' j) (agents_at (emplacing cap j) (agent_at s'))
        (agents_at (parking cap j) (agent_at s')) (handed (the_consumer s'))"
    proof (cases "j = k mod cap")
      case True
      then show ?thesis using elem_ok_woken [OF e] a by (simp add: s' put_agent_def agents_at_in agents_at_out agents_at_iff)
    next
      case False
      then show ?thesis using elem_ok_not_woken [OF e] a by (simp add: s' put_agent_def agents_at_same agents_at_iff)
    qed
  qed
next
  case (arm_flags f)
  then show ?thesis using ok by (simp add: elems_ok_def mpsc_ops elem_ok_wait)
qed (rule elems_ok_kept [OF ok]; simp add: mpsc_ops)+

section \<open>The protocol of \<open>close\<close>\<close>

text \<open>The tickets below the limit are those whose producers may write.\<close>

definition limit :: "'a mpsc \<Rightarrow> nat" where
  "limit s = (case cutoff s of None \<Rightarrow> tickets s | Some c \<Rightarrow> c)"

fun agent_ok :: "'a mpsc \<Rightarrow> 'a agent \<Rightarrow> bool" where
  "agent_ok s A_Add \<longleftrightarrow> is_closed s \<and> cutoff s = None \<and> \<not> closed_ready s"
| "agent_ok s (A_StoreCutoff c) \<longleftrightarrow> is_closed s \<and> cutoff s = Some c \<and> \<not> closed_ready s"
| "agent_ok s (A_StoreReady c) \<longleftrightarrow> is_closed s \<and> cutoff s = Some c \<and> \<not> closed_ready s \<and> closed_at s = c"
| "agent_ok s (A_Look c) \<longleftrightarrow> closed_ready s \<and> closed_at s = c"
| "agent_ok s (A_LookIdx c f) \<longleftrightarrow> closed_ready s \<and> closed_at s = c"
| "agent_ok s (A_Mark c f) \<longleftrightarrow> closed_ready s \<and> closed_at s = c"
| "agent_ok s (A_CloseTake c) \<longleftrightarrow> closed_ready s \<and> closed_at s = c"
| "agent_ok s A_Null \<longleftrightarrow> closed_ready s"
| "agent_ok s (A_Check x k) \<longleftrightarrow> k < tickets s \<and> cutoff s \<noteq> Some k"
| "agent_ok s (A_Spin x k) \<longleftrightarrow> k < tickets s \<and> cutoff s \<noteq> Some k"
| "agent_ok s (A_Claim x k) \<longleftrightarrow> k < limit s"
| "agent_ok s (A_Park x k) \<longleftrightarrow> k < limit s"
| "agent_ok s (A_Parked x k) \<longleftrightarrow> k < limit s"
| "agent_ok s (A_Emplace x k) \<longleftrightarrow> k < limit s"
| "agent_ok s (A_Publish x k) \<longleftrightarrow> k < limit s"
| "agent_ok s _ \<longleftrightarrow> True"

fun preparing :: "'a agent \<Rightarrow> bool" where
  "preparing A_Add \<longleftrightarrow> True"
| "preparing (A_StoreCutoff c) \<longleftrightarrow> True"
| "preparing (A_StoreReady c) \<longleftrightarrow> True"
| "preparing _ \<longleftrightarrow> False"

fun in_close :: "'a agent \<Rightarrow> bool" where
  "in_close (A_Look c) \<longleftrightarrow> True"
| "in_close (A_LookIdx c f) \<longleftrightarrow> True"
| "in_close (A_Mark c f) \<longleftrightarrow> True"
| "in_close (A_CloseTake c) \<longleftrightarrow> True"
| "in_close A_Null \<longleftrightarrow> True"
| "in_close p \<longleftrightarrow> preparing p"

definition close_ok :: "'a mpsc \<Rightarrow> bool" where
  "close_ok s \<longleftrightarrow> (closed_ready s \<longrightarrow> cutoff s = Some (closed_at s)) \<and> (\<forall>c. cutoff s = Some c \<longrightarrow> c < tickets s \<and> is_closed s) \<and>
     (if is_closed s then closed_ready s \<or> (\<exists>a. preparing (agent_at s a)) else cutoff s = None \<and> (\<forall>a. \<not> in_close (agent_at s a)))"

definition agents_ok :: "'a mpsc \<Rightarrow> bool" where
  "agents_ok s \<longleftrightarrow> (\<forall>a. agent_ok s (agent_at s a)) \<and> (\<forall>a b. in_close (agent_at s a) \<and> in_close (agent_at s b) \<longrightarrow> a = b)"

lemma agent_ok_kept: "agent_ok s p \<Longrightarrow> tickets s' = tickets s \<Longrightarrow> cutoff s' = cutoff s \<Longrightarrow> is_closed s' = is_closed s \<Longrightarrow>
    closed_ready s' = closed_ready s \<Longrightarrow> closed_at s' = closed_at s \<Longrightarrow> agent_ok s' p"
  by (cases p) (simp_all add: limit_def split: option.splits)

text \<open>A step that leaves the words of \<open>close\<close>.\<close>

lemma protocol_quiet:
  assumes "close_ok s" and "agents_ok s" and "tickets s' = tickets s" and "cutoff s' = cutoff s" and "is_closed s' = is_closed s"
    and "closed_ready s' = closed_ready s" and "closed_at s' = closed_at s" and "agent_at s' = (agent_at s)(a := p)"
    and "agent_ok s p" and "in_close p \<Longrightarrow> in_close (agent_at s a)" and "preparing (agent_at s a) \<Longrightarrow> preparing p"
  shows "close_ok s' \<and> agents_ok s'"
proof
  show "close_ok s'" using assms unfolding close_ok_def by (auto; metis)
  show "agents_ok s'" using assms unfolding agents_ok_def by (auto intro: agent_ok_kept)
qed

lemma agents_ok_moved:
  assumes "agents_ok s" and "agent_at s' = (agent_at s)(a := p)" and "agent_ok s' p"
    and "in_close p \<Longrightarrow> in_close (agent_at s a) \<or> (\<forall>b. \<not> in_close (agent_at s b))"
    and "\<And>q. agent_ok s q \<Longrightarrow> \<not> (in_close (agent_at s a) \<and> in_close q) \<Longrightarrow> agent_ok s' q"
  shows "agents_ok s'"
  unfolding agents_ok_def
proof (intro conjI allI impI)
  fix b
  show "agent_ok s' (agent_at s' b)"
  proof (cases "b = a")
    case False
    then have "agent_ok s (agent_at s b)" "\<not> (in_close (agent_at s a) \<and> in_close (agent_at s b))"
      using assms(1) unfolding agents_ok_def by blast+
    then show ?thesis using assms(2,5) False by simp
  qed (use assms(2,3) in simp)
next
  fix b c assume bc: "in_close (agent_at s' b) \<and> in_close (agent_at s' c)"
  have u: "in_close (agent_at s b) \<Longrightarrow> in_close (agent_at s c) \<Longrightarrow> b = c" for b c
    using assms(1) unfolding agents_ok_def by blast
  show "b = c" using bc u [of b c] u [of a c] u [of b a] assms(2,4) by (auto split: if_splits)
qed

lemma agent_ok_grow: "agent_ok s q \<Longrightarrow> tickets s \<le> tickets s' \<Longrightarrow> cutoff s' = cutoff s \<Longrightarrow> is_closed s \<longrightarrow> is_closed s' \<Longrightarrow>
    closed_ready s' = closed_ready s \<Longrightarrow> closed_at s' = closed_at s \<Longrightarrow> agent_ok s' q"
  by (cases q) (auto simp: limit_def split: option.splits)

lemma protocol_agent:
  assumes ok: "close_ok s" "agents_ok s" and step: "agent_step cap cs a s s'"
  shows "close_ok s' \<and> agents_ok s'"
proof -
  have own: "agent_ok s (agent_at s a)" using ok(2) by (simp add: agents_ok_def)
  note q = protocol_quiet [OF ok, where a = a and p = "agent_at s' a"]
  show ?thesis using step
  proof cases
    case (take_ticket x)
    then have s': "s' = (s\<lparr>tickets := tickets s + 1, agent_at := (agent_at s)(a := A_Check x (tickets s))\<rparr>)" by (simp add: mpsc_ops)
    have "close_ok s'" using ok(1) take_ticket(2) unfolding s' close_ok_def by (auto simp: less_Suc_eq; metis preparing.simps)
    moreover have "agents_ok s'" using ok(1)
      by (intro agents_ok_moved [OF ok(2), where a = a and p = "A_Check x (tickets s)"])
        (auto simp: s' close_ok_def intro: agent_ok_grow)
    ultimately show ?thesis ..
  next
    case close_flag
    show ?thesis
    proof (cases "is_closed s")
      case True
      then show ?thesis using close_flag by (intro q) (simp_all add: mpsc_ops)
    next
      case False
      then have s': "s' = (s\<lparr>is_closed := True, agent_at := (agent_at s)(a := A_Add)\<rparr>)" using close_flag by (simp add: mpsc_ops)
      have "close_ok s'" using ok(1) False unfolding s' close_ok_def by auto
      moreover have "agents_ok s'" using ok(1) False
        by (intro agents_ok_moved [OF ok(2), where a = a and p = A_Add]) (auto simp: s' close_ok_def intro: agent_ok_grow)
      ultimately show ?thesis ..
    qed
  next
    case close_add
    then have s': "s' = (s\<lparr>tickets := tickets s + 1, cutoff := Some (tickets s), agent_at := (agent_at s)(a := A_StoreCutoff (tickets s))\<rparr>)"
      by (simp add: mpsc_ops)
    have o: "is_closed s" "cutoff s = None" "\<not> closed_ready s" using own close_add by simp_all
    have "close_ok s'" using o unfolding s' close_ok_def by auto
    moreover have "agent_ok s' r" if "agent_ok s r" "\<not> in_close r" for r
      using that o by (cases r) (auto simp: s' limit_def)
    then have "agents_ok s'" using o \<open>agent_at s a = A_Add\<close>
      by (intro agents_ok_moved [OF ok(2), where a = a and p = "A_StoreCutoff (tickets s)"]) (simp_all add: s')
    ultimately show ?thesis ..
  next
    case (close_cutoff c)
    then have s': "s' = (s\<lparr>closed_at := c, agent_at := (agent_at s)(a := A_StoreReady c)\<rparr>)" by (simp add: mpsc_ops)
    have o: "is_closed s" "cutoff s = Some c" "\<not> closed_ready s" using own close_cutoff by simp_all
    have "close_ok s'" using o ok(1) unfolding s' close_ok_def by auto
    moreover have "agent_ok s' r" if "agent_ok s r" "\<not> in_close r" for r
      using that o by (cases r) (auto simp: s' limit_def)
    then have "agents_ok s'" using o \<open>agent_at s a = A_StoreCutoff c\<close>
      by (intro agents_ok_moved [OF ok(2), where a = a and p = "A_StoreReady c"]) (simp_all add: s')
    ultimately show ?thesis ..
  next
    case (close_ready c)
    define p :: "'a agent" where "p = (if cs then A_Look c else A_Idle)"
    then have s': "s' = (s\<lparr>closed_ready := True, agent_at := (agent_at s)(a := p)\<rparr>)" using close_ready by (simp add: mpsc_ops)
    have o: "is_closed s" "cutoff s = Some c" "\<not> closed_ready s" "closed_at s = c" using own close_ready by simp_all
    have "close_ok s'" using o ok(1) unfolding s' close_ok_def by auto
    moreover have "agent_ok s' r" if "agent_ok s r" "\<not> in_close r" for r
      using that o by (cases r) (auto simp: s' limit_def)
    then have "agents_ok s'" using o \<open>agent_at s a = A_StoreReady c\<close>
      by (intro agents_ok_moved [OF ok(2), where a = a and p = p]) (auto simp: s' p_def)
    ultimately show ?thesis ..
  next
    case (check_closed x k)
    then show ?thesis using own ok(1) by (intro q) (auto simp: mpsc_ops close_ok_def limit_def split: if_splits)
  next
    case (check_cutoff x k)
    then show ?thesis using own ok(1) by (intro q) (auto simp: mpsc_ops close_ok_def limit_def split: if_splits)
  qed (rule q; use own in \<open>auto simp: mpsc_ops limit_def split: if_splits\<close>)+
qed


lemma protocol_consumer:
  assumes ok: "close_ok s" "agents_ok s" and here: "mconsumer_ok cap s (the_consumer s)" and step: "mconsumer_step cap cs s s'"
  shows "close_ok s' \<and> agents_ok s'"
  using step
proof cases
  case drain
  then show ?thesis using ok
    by (intro protocol_quiet [OF ok, where a = 0 and p = "agent_at s 0"])
      (auto simp: drain_and_handoff_def mpsc_ops agents_ok_def split: list.splits)
next
  case (wake a)
  then obtain x k where "agent_at s a = A_Parked x k" using here by auto
  moreover have "agent_ok s (agent_at s a)" using ok(2) by (simp add: agents_ok_def)
  ultimately show ?thesis using wake
    by (intro protocol_quiet [OF ok, where a = a and p = "A_Emplace x k"]) (simp_all add: wake_parked_def mpsc_ops)
qed (rule protocol_quiet [OF ok, where a = 0 and p = "agent_at s 0"]; use ok in \<open>simp add: mpsc_ops agents_ok_def\<close>)+

section \<open>Who may resume the consumer\<close>

fun taking :: "'a agent \<Rightarrow> bool" where
  "taking (A_Take k) \<longleftrightarrow> True"
| "taking (A_CloseTake c) \<longleftrightarrow> True"
| "taking A_Null \<longleftrightarrow> True"
| "taking A_Post \<longleftrightarrow> True"
| "taking _ \<longleftrightarrow> False"

fun posting :: "'a agent \<Rightarrow> bool" where
  "posting A_Null \<longleftrightarrow> True"
| "posting A_Post \<longleftrightarrow> True"
| "posting _ \<longleftrightarrow> False"

fun armed :: "mconsumer \<Rightarrow> bool" where
  "armed K_ArmFlags \<longleftrightarrow> True"
| "armed (K_Unarm b) \<longleftrightarrow> True"
| "armed _ \<longleftrightarrow> False"

fun token_ok :: "nat \<Rightarrow> 'a mpsc \<Rightarrow> 'a agent \<Rightarrow> bool" where
  "token_ok cap s (A_Take k) \<longleftrightarrow> k mod cap = read_at s mod cap \<and> DATA_BIT (here cap s)"
| "token_ok cap s (A_CloseTake c) \<longleftrightarrow> c mod cap = read_at s mod cap \<and> sealed s"
| "token_ok cap s A_Null \<longleftrightarrow> sealed s"
| "token_ok cap s A_Post \<longleftrightarrow> (if elem_null s then sealed s else DATA_BIT (here cap s))"
| "token_ok cap s (A_Mark c f) \<longleftrightarrow> c \<le> read_at s"
| "token_ok cap s _ \<longleftrightarrow> True"

text \<open>Either the bit \<open>CONS\<close> of the consumer's element is set or one agent has taken it over, and no other bit \<open>CONS\<close> is set.\<close>

definition tokens_ok :: "nat \<Rightarrow> 'a mpsc \<Rightarrow> bool" where
  "tokens_ok cap s \<longleftrightarrow>
     (\<forall>i < cap. CONS_BIT (element_flags s i) \<longrightarrow> the_consumer s = K_Waiting \<and> i = read_at s mod cap \<and> (\<forall>a. \<not> taking (agent_at s a))) \<and>
     (\<forall>a. taking (agent_at s a) \<longrightarrow> the_consumer s = K_Waiting \<and> (\<forall>b. taking (agent_at s b) \<longrightarrow> b = a)) \<and>
     (the_consumer s = K_Waiting \<longrightarrow> CONS_BIT (here cap s) \<or> (\<exists>a. taking (agent_at s a))) \<and>
     (\<forall>i < cap. waiting_consumer s i \<longleftrightarrow> i = read_at s mod cap \<and>
        (armed (the_consumer s) \<or> the_consumer s = K_Waiting \<and> (\<forall>a. \<not> posting (agent_at s a)))) \<and>
     (\<forall>a. token_ok cap s (agent_at s a)) \<and>
     (elem_null s \<longrightarrow> the_consumer s = K_Idle \<or> the_consumer s = K_Resume \<or> (\<exists>a. agent_at s a = A_Post)) \<and>
     (\<forall>i. waiting_consumer_idx s i \<le> read_at s)"

lemma tokens_okD:
  assumes "tokens_ok cap s"
  shows "i < cap \<Longrightarrow> CONS_BIT (element_flags s i) \<Longrightarrow> the_consumer s = K_Waiting \<and> i = read_at s mod cap \<and> \<not> taking (agent_at s a)"
    and "taking (agent_at s a) \<Longrightarrow> the_consumer s = K_Waiting" and "taking (agent_at s a) \<Longrightarrow> taking (agent_at s b) \<Longrightarrow> b = a"
    and "the_consumer s = K_Waiting \<Longrightarrow> \<forall>a. \<not> taking (agent_at s a) \<Longrightarrow> CONS_BIT (here cap s)"
    and "i < cap \<Longrightarrow> waiting_consumer s i \<longleftrightarrow> i = read_at s mod cap \<and>
        (armed (the_consumer s) \<or> the_consumer s = K_Waiting \<and> (\<forall>a. \<not> posting (agent_at s a)))"
    and "token_ok cap s (agent_at s a)"
    and "elem_null s \<Longrightarrow> the_consumer s = K_Idle \<or> the_consumer s = K_Resume \<or> (\<exists>a. agent_at s a = A_Post)"
    and "waiting_consumer_idx s i \<le> read_at s"
  using assms unfolding tokens_ok_def by blast+

lemma posting_taking: "posting p \<Longrightarrow> taking p"
  by (cases p) auto

lemma token_ok_kept: "token_ok cap s p \<Longrightarrow> read_at s' = read_at s \<Longrightarrow> (DATA_BIT (here cap s) \<longrightarrow> DATA_BIT (here cap s')) \<Longrightarrow>
    (sealed s \<longrightarrow> sealed s') \<Longrightarrow> elem_null s' = elem_null s \<or> p \<noteq> A_Post \<Longrightarrow> token_ok cap s' p"
  by (cases p) (auto split: if_splits)

text \<open>A step that leaves the words of the waiting consumer.\<close>

lemma tokens_quiet:
  assumes ok: "tokens_ok cap s" and ag: "agent_at s' = (agent_at s)(a := p)"
    and f: "\<And>i. CONS_BIT (element_flags s' i) = CONS_BIT (element_flags s i)"
    and same: "waiting_consumer s' = waiting_consumer s" "waiting_consumer_idx s' = waiting_consumer_idx s" "read_at s' = read_at s"
      "the_consumer s' = the_consumer s" "elem_null s' = elem_null s"
    and p: "\<not> taking (agent_at s a)" "\<not> taking p" "token_ok cap s' p"
    and mono: "DATA_BIT (here cap s) \<longrightarrow> DATA_BIT (here cap s')" "sealed s \<longrightarrow> sealed s'"
  shows "tokens_ok cap s'"
proof -
  have t: "taking (agent_at s' b) = taking (agent_at s b)" "posting (agent_at s' b) = posting (agent_at s b)" for b
    using p ag posting_taking by (auto simp: fun_upd_apply)
  have n: "(\<exists>b. agent_at s' b = A_Post) = (\<exists>b. agent_at s b = A_Post)" using p ag by (metis fun_upd_apply taking.simps(4))
  have k: "token_ok cap s' (agent_at s' b)" for b
    using ag p(3) token_ok_kept [OF tokens_okD(6) [OF ok, of b] same(3) mono] same(5) by (simp add: fun_upd_apply)
  show ?thesis using ok k unfolding tokens_ok_def t n same f here_def by simp
qed

text \<open>The agent \<open>a\<close> holds the right to resume the consumer after the step.\<close>

lemma tokens_take:
  assumes ok: "tokens_ok cap s" and cap: "0 < cap" and ag: "agent_at s' = (agent_at s)(a := p)"
    and f: "\<And>i. i < cap \<Longrightarrow> \<not> CONS_BIT (element_flags s' i)"
    and others: "\<And>b. b \<noteq> a \<Longrightarrow> \<not> taking (agent_at s b)" and w: "the_consumer s = K_Waiting"
    and same: "waiting_consumer_idx s' = waiting_consumer_idx s" "read_at s' = read_at s" "the_consumer s' = the_consumer s"
    and wait: "waiting_consumer s' = (if posting p then (waiting_consumer s)(read_at s mod cap := False) else waiting_consumer s)"
    and p: "taking p" "token_ok cap s' p" "posting (agent_at s a) \<longrightarrow> posting p"
    and mono: "DATA_BIT (here cap s) \<longrightarrow> DATA_BIT (here cap s')" "sealed s \<longrightarrow> sealed s'"
    and null: "elem_null s' \<longrightarrow> p = A_Post"
  shows "tokens_ok cap s'"
proof -
  have t: "taking (agent_at s' b) = (b = a)" for b using p(1) ag others by (auto simp: fun_upd_apply)
  have po: "(\<forall>b. \<not> posting (agent_at s' b)) = (\<not> posting p)" using ag others posting_taking by (auto simp: fun_upd_apply)
  have k: "token_ok cap s' (agent_at s' b)" for b
  proof (cases "b = a")
    case False
    then have "agent_at s b \<noteq> A_Post" using others [of b] by auto
    then show ?thesis
      using False ag token_ok_kept [OF tokens_okD(6) [OF ok, of b] same(2) mono] by simp
  qed (use ag p in simp)
  have wt: "waiting_consumer s' i \<longleftrightarrow> i = read_at s mod cap \<and> \<not> posting p" if "i < cap" for i
  proof (cases "posting p")
    case True
    then show ?thesis using tokens_okD(5) [OF ok that] wait by simp
  next
    case False
    then have "\<forall>b. \<not> posting (agent_at s b)" using others posting_taking p(3) by metis
    then show ?thesis using tokens_okD(5) [OF ok that] wait w False by simp
  qed
  have n: "elem_null s' \<longrightarrow> (\<exists>b. agent_at s' b = A_Post)" using null ag by (metis fun_upd_same)
  show ?thesis unfolding tokens_ok_def t po same
    using k wt f w n tokens_okD(8) [OF ok] by simp
qed

lemma sealed_agent:
  assumes "agents_ok s" and "agent_step cap cs a s s'" and "sealed s"
  shows "sealed s'"
  using assms(2)
proof cases
  case (close_cutoff c)
  then have "agent_ok s (A_StoreCutoff c)" using assms(1) unfolding agents_ok_def by metis
  then show ?thesis using assms(3) by (simp add: sealed_def)
qed (use assms(3) in \<open>auto simp: mpsc_ops sealed_def\<close>)

lemma data_agent:
  assumes "elems_ok cap s" and "all_remembered s" and "0 < cap" and step: "agent_step cap cs a s s'"
  shows "DATA_BIT (element_flags s i) \<Longrightarrow> DATA_BIT (element_flags s' i)"
    and "close_sentinel (element_flags s i) \<Longrightarrow> close_sentinel (element_flags s' i)"
  using step by (cases; auto simp: mpsc_ops no_flags_def split: if_splits)+

lemma tokens_agent:
  assumes cap: "0 < cap" and ok: "tokens_ok cap s" "close_ok s" "agents_ok s" "all_remembered s" "elems_ok cap s"
    and cs: "the_consumer s = K_Waiting \<Longrightarrow> cs" and step: "agent_step cap cs a s s'"
  shows "tokens_ok cap s'"
proof -
  note q = tokens_quiet [OF ok(1), where s' = s' and a = a and p = "agent_at s' a"]
  note tk = tokens_take [OF ok(1) cap, where s' = s' and a = a and p = "agent_at s' a"]
  have m: "DATA_BIT (here cap s) \<longrightarrow> DATA_BIT (here cap s')" if "read_at s' = read_at s"
    using data_agent(1) [OF ok(5,4) cap step] that by (simp add: here_def)
  have sl: "sealed s \<longrightarrow> sealed s'" using sealed_agent [OF ok(3) step] by blast
  have own: "token_ok cap s (agent_at s a)" "agent_ok s (agent_at s a)" "remembered (agent_at s a)"
    using ok tokens_okD(6) by (auto simp: agents_ok_def all_remembered_def)
  have only: "\<not> taking (agent_at s b)" if "taking (agent_at s a)" "b \<noteq> a" for b using tokens_okD(3) [OF ok(1)] that by blast
  have wait: "the_consumer s = K_Waiting" if "taking (agent_at s a)" using tokens_okD(2) [OF ok(1)] that by blast
  have nf: "\<not> CONS_BIT (element_flags s i)" if "taking (agent_at s a)" "i < cap" for i
    using tokens_okD(1) [OF ok(1)] that by blast
  show ?thesis using step
  proof cases
    case (publish x k)
    let ?i = "k mod cap"
    let ?f = "element_flags s ?i"
    show ?thesis
    proof (cases "CONS_BIT ?f")
      case True
      have i: "?i < cap" using cap by simp
      then have t: "the_consumer s = K_Waiting" "?i = read_at s mod cap" "\<And>b. \<not> taking (agent_at s b)"
        using tokens_okD(1) [OF ok(1) i True] by blast+
      have nn: "\<not> elem_null s" using tokens_okD(7) [OF ok(1)] t by (metis mconsumer.distinct taking.simps(4))
      have no: "\<not> CONS_BIT (element_flags s j)" if "j < cap" "j \<noteq> ?i" for j using tokens_okD(1) [OF ok(1) that(1)] t(2) that(2) by auto
      show ?thesis by (rule tk) (use publish True t nn no cs in \<open>auto simp: mpsc_ops here_def sealed_def\<close>)
    next
      case False
      show ?thesis by (rule q) (use publish False m sl in \<open>auto simp: mpsc_ops\<close>)
    qed
  next
    case (take k)
    have t: "the_consumer s = K_Waiting" "k mod cap = read_at s mod cap" "DATA_BIT (here cap s)" "k mod cap < cap"
      using wait own take cap by simp_all
    have np: "\<not> posting (agent_at s b)" for b using only [of b] take posting_taking by (cases "b = a") (auto)
    have w: "waiting_consumer s (k mod cap)" using tokens_okD(5) [OF ok(1) t(4)] t np by blast
    have nn: "\<not> elem_null s" using tokens_okD(7) [OF ok(1)] t(1) np by (metis mconsumer.distinct posting.simps(2))
    show ?thesis by (rule tk) (use take t w nn only nf in \<open>auto simp: mpsc_ops here_def sealed_def\<close>)
  next
    case post
    have w: "the_consumer s = K_Waiting" using wait post by simp
    have s': "s' = s\<lparr>the_consumer := K_Resume, agent_at := (agent_at s)(a := A_Idle)\<rparr>" using post w by (simp add: mpsc_ops)
    have nt: "\<not> taking (agent_at s' b)" for b using only [of b] post(2) by (cases "b = a") (auto simp: s')
    have k: "token_ok cap s' (agent_at s' b)" for b
    proof (cases "b = a")
      case False
      then have "agent_at s b \<noteq> A_Post" using only [of b] post(2) by auto
      then show ?thesis using False token_ok_kept [OF tokens_okD(6) [OF ok(1), of b]] s' sl by (simp add: here_def)
    qed (simp add: s')
    have "posting (agent_at s a)" using post by simp
    then have wt: "\<not> waiting_consumer s i" if "i < cap" for i using tokens_okD(5) [OF ok(1) that] w by auto
    show ?thesis unfolding tokens_ok_def using nt k wt nf post(2) tokens_okD(8) [OF ok(1)] by (simp add: s')
  next
    case (close_look c)
    show ?thesis by (rule q) (use close_look m sl in \<open>auto simp: mpsc_ops no_flags_def\<close>)
  next
    case (close_idx c f)
    have "waiting_consumer_idx s (c mod cap) \<le> read_at s" using tokens_okD(8) [OF ok(1)] .
    then show ?thesis by (intro q) (use close_idx m sl in \<open>auto simp: mpsc_ops\<close>)
  next
    case (close_mark c f)
    let ?i = "c mod cap"
    show ?thesis
    proof (cases "element_flags s ?i = f")
      case True
      have i: "?i < cap" and c: "CONS_BIT (element_flags s ?i)" using cap own(3) close_mark(2) True by simp_all
      then have t: "the_consumer s = K_Waiting" "?i = read_at s mod cap" "\<And>b. \<not> taking (agent_at s b)"
        using tokens_okD(1) [OF ok(1) i c] by blast+
      have nn: "\<not> elem_null s" using tokens_okD(7) [OF ok(1)] t by (metis mconsumer.distinct taking.simps(4))
      have no: "\<not> CONS_BIT (element_flags s j)" if "j < cap" "j \<noteq> ?i" for j using tokens_okD(1) [OF ok(1) that(1)] t(2) that(2) by auto
      show ?thesis by (rule tk) (use close_mark True t nn no own in \<open>auto simp: mpsc_ops here_def sealed_def\<close>)
    next
      case False
      show ?thesis by (rule q) (use close_mark False m sl in \<open>auto simp: mpsc_ops\<close>)
    qed
  next
    case (close_take c)
    have t: "the_consumer s = K_Waiting" "c mod cap = read_at s mod cap" "sealed s" "c mod cap < cap"
      using wait own close_take cap by simp_all
    have np: "\<not> posting (agent_at s b)" for b using only [of b] close_take posting_taking by (cases "b = a") (auto)
    have w: "waiting_consumer s (c mod cap)" using tokens_okD(5) [OF ok(1) t(4)] t np by blast
    have nn: "\<not> elem_null s" using tokens_okD(7) [OF ok(1)] t(1) np by (metis mconsumer.distinct posting.simps(2))
    show ?thesis by (rule tk) (use close_take t w nn only nf in \<open>auto simp: mpsc_ops here_def sealed_def\<close>)
  next
    case close_null
    have t: "the_consumer s = K_Waiting" "sealed s" using wait own close_null by simp_all
    have "read_at s mod cap < cap" using cap by simp
    then have w: "\<not> waiting_consumer s (read_at s mod cap)" using tokens_okD(5) [OF ok(1)] close_null t(1)
      by (metis armed.simps posting.simps(1))
    show ?thesis by (rule tk) (use close_null t w only nf in \<open>auto simp: mpsc_ops here_def sealed_def fun_upd_idem\<close>)
  qed (rule q; use m sl in \<open>auto simp: mpsc_ops split: if_splits\<close>)+
qed


text \<open>A step of a consumer that is not waiting.\<close>

lemma tokens_still:
  assumes ok: "tokens_ok cap s" and c: "the_consumer s \<noteq> K_Waiting" "the_consumer s' \<noteq> K_Waiting"
    and f: "\<And>i. CONS_BIT (element_flags s' i) \<Longrightarrow> CONS_BIT (element_flags s i)"
    and ag: "agent_at s' = (agent_at s)(a := p)" "\<not> taking p" "p = agent_at s a \<or> token_ok cap s' p" and r: "read_at s \<le> read_at s'"
    and wait: "\<And>i. i < cap \<Longrightarrow> waiting_consumer s' i \<longleftrightarrow> i = read_at s' mod cap \<and> armed (the_consumer s')"
    and null: "elem_null s' \<longrightarrow> the_consumer s' = K_Idle \<or> the_consumer s' = K_Resume"
    and idx: "\<And>i. waiting_consumer_idx s' i \<le> read_at s'"
  shows "tokens_ok cap s'"
proof -
  have nt: "\<not> taking (agent_at s b)" for b using tokens_okD(2) [OF ok] c(1) by blast
  have nt': "\<not> taking (agent_at s' b)" for b using nt ag(1,2) by (cases "b = a") auto
  have k: "token_ok cap s' q" if "token_ok cap s q" "\<not> taking q" for q
    using that r by (cases q) auto
  have k': "token_ok cap s' (agent_at s' b)" for b
    using k [OF tokens_okD(6) [OF ok, of b] nt] k [OF tokens_okD(6) [OF ok, of a] nt] ag(1,3) by (cases "b = a") auto
  have nf: "\<not> CONS_BIT (element_flags s' i)" if "i < cap" for i using f tokens_okD(1) [OF ok that] c(1) by blast
  show ?thesis unfolding tokens_ok_def using nt' k' nf c(2) wait null idx by auto
qed

lemma tokens_consumer:
  assumes cap: "0 < cap" and ok: "tokens_ok cap s" and here: "mconsumer_ok cap s (the_consumer s)" and step: "mconsumer_step cap cs s s'"
  shows "tokens_ok cap s'"
proof -
  note st = tokens_still [OF ok, where s' = s' and a = 0 and p = "agent_at s' 0"]
  have w: "waiting_consumer s i \<longleftrightarrow> i = read_at s mod cap \<and> armed (the_consumer s)" if "the_consumer s \<noteq> K_Waiting" "i < cap" for i
    using tokens_okD(5) [OF ok that(2)] that(1) by blast
  have nt: "\<not> taking (agent_at s b)" if "the_consumer s \<noteq> K_Waiting" for b using tokens_okD(2) [OF ok] that by blast
  have nf: "\<not> CONS_BIT (element_flags s i)" if "the_consumer s \<noteq> K_Waiting" "i < cap" for i using tokens_okD(1) [OF ok] that by blast
  have nn: "elem_null s \<longrightarrow> the_consumer s = K_Idle \<or> the_consumer s = K_Resume" if "the_consumer s \<noteq> K_Waiting"
    using tokens_okD(7) [OF ok] nt [OF that] by (metis taking.simps(4))
  have idx: "waiting_consumer_idx s i \<le> read_at s" for i using tokens_okD(8) [OF ok] .
  then have idx': "waiting_consumer_idx s i \<le> Suc (read_at s)" for i by (rule le_SucI)
  have rm: "read_at s mod cap < cap" using cap by simp
  show ?thesis using step
  proof cases
    case (arm_flags f)
    show ?thesis
    proof (cases "DATA_BIT f \<or> close_sentinel f")
      case True
      show ?thesis by (rule st) (use arm_flags True w nt nn idx in \<open>auto simp: mpsc_ops split: if_splits\<close>)
    next
      case False
      then have s': "s' = s\<lparr>element_flags := (element_flags s)(read_at s mod cap := f\<lparr>CONS_BIT := True\<rparr>), the_consumer := K_Waiting\<rparr>"
        using arm_flags by (simp add: mpsc_ops)
      have n: "\<not> taking (agent_at s b)" "\<not> posting (agent_at s b)" for b using nt [of b] arm_flags(2) posting_taking by auto
      have k: "token_ok cap s' (agent_at s b)" for b
        using tokens_okD(6) [OF ok, of b] n(1) [of b] by (cases "agent_at s b") (auto simp: s')
      show ?thesis unfolding tokens_ok_def using n k nf w nn idx arm_flags(2) by (auto simp: s' here_def)
    qed
  next
    case (unarm sealing)
    have "waiting_consumer s (read_at s mod cap)" using w rm unarm(2) by simp
    then show ?thesis by (intro st) (use unarm w nt nn idx rm in \<open>auto simp: mpsc_ops\<close>)
  next
    case drain
    then have d: "agent_at s' = agent_at s \<and> read_at s' = read_at s \<and> waiting_consumer s' = waiting_consumer s \<and>
        elem_null s' = elem_null s \<and> waiting_consumer_idx s' = waiting_consumer_idx s \<and> the_consumer s' \<noteq> K_Waiting \<and> \<not> armed (the_consumer s') \<and>
        (CONS_BIT (element_flags s' i) \<longrightarrow> CONS_BIT (element_flags s i))" for i
      by (auto simp: drain_and_handoff_def mpsc_ops no_flags_def split: list.splits)
    show ?thesis by (rule st) (use d drain(2) w nt nn idx in auto)
  next
    case (wake b)
    then obtain x k where b: "agent_at s b = A_Parked x k" using here by auto
    show ?thesis by (rule tokens_still [OF ok, where s' = s' and a = b and p = "A_Emplace x k"])
      (use wake b w nt nn idx in \<open>auto simp: mpsc_ops wake_parked_def\<close>)
  qed (rule st; use w nt nn idx idx' in \<open>auto simp: mpsc_ops split: if_splits\<close>)+
qed

section \<open>The invariant of the words\<close>

fun pulls :: "mconsumer \<Rightarrow> bool" where
  "pulls K_Idle \<longleftrightarrow> False"
| "pulls (K_Poll b) \<longleftrightarrow> \<not> b"
| "pulls (K_PollClosed b f) \<longleftrightarrow> \<not> b"
| "pulls (K_PollSpin b f) \<longleftrightarrow> \<not> b"
| "pulls K_Hold \<longleftrightarrow> False"
| "pulls K_Drain \<longleftrightarrow> False"
| "pulls (K_Wake a) \<longleftrightarrow> False"
| "pulls K_Bad \<longleftrightarrow> False"
| "pulls _ \<longleftrightarrow> True"

definition words_ok :: "nat \<Rightarrow> bool \<Rightarrow> 'a mpsc \<Rightarrow> bool" where
  "words_ok cap cs s \<longleftrightarrow> 0 < cap \<and> elems_ok cap s \<and> all_remembered s \<and> close_ok s \<and> agents_ok s \<and> tokens_ok cap s \<and>
     mconsumer_ok cap s (the_consumer s) \<and> (pulls (the_consumer s) \<longrightarrow> cs)"

lemma words_okD:
  assumes "words_ok cap cs s"
  shows "0 < cap" and "elems_ok cap s" and "all_remembered s" and "close_ok s" and "agents_ok s" and "tokens_ok cap s"
    and "mconsumer_ok cap s (the_consumer s)" and "pulls (the_consumer s) \<Longrightarrow> cs"
  using assms by (simp_all add: words_ok_def)

lemma words_ok_element: "words_ok cap cs s \<Longrightarrow> i < cap \<Longrightarrow> elem_ok (element_flags s i) (output_producers s i)
    (agents_at (emplacing cap i) (agent_at s)) (agents_at (parking cap i) (agent_at s)) (handed (the_consumer s))"
  by (simp add: words_ok_def elems_ok_def)

lemma remembered_moved: "all_remembered s \<Longrightarrow> agent_at s' = (agent_at s)(a := p) \<Longrightarrow> remembered p \<Longrightarrow> all_remembered s'"
  by (simp add: all_remembered_def)

lemma remembered_agent:
  assumes ok: "all_remembered s" "tokens_ok cap s" and step: "agent_step cap cs a s s'"
  shows "all_remembered s'"
proof -
  have own: "remembered (agent_at s a)" using ok(1) by (simp add: all_remembered_def)
  note q = remembered_moved [OF ok(1), where s' = s' and a = a and p = "agent_at s' a"]
  show ?thesis using step
  proof cases
    case post
    then have "the_consumer s = K_Waiting" using tokens_okD(2) [OF ok(2), of a] by simp
    then show ?thesis by (intro q) (use post in \<open>auto simp: mpsc_ops\<close>)
  qed (rule q; use own in \<open>auto simp: mpsc_ops split: if_splits\<close>)+
qed

lemma remembered_consumer:
  assumes ok: "all_remembered s" and step: "mconsumer_step cap cs s s'"
  shows "all_remembered s'"
  using step
proof cases
  case drain
  then show ?thesis using ok by (auto simp: all_remembered_def drain_and_handoff_def mpsc_ops split: list.splits)
next
  case (wake b)
  then show ?thesis using ok by (auto simp: all_remembered_def wake_parked_def mpsc_ops split: agent.splits)
qed (use ok in \<open>auto simp: all_remembered_def mpsc_ops\<close>)

lemma agent_keeps_consumer:
  assumes "agent_step cap cs a s s'"
  shows "read_at s' = read_at s" and "the_consumer s' = (if agent_at s a = A_Post \<and> the_consumer s = K_Waiting then K_Resume else the_consumer s)"
    and "elem_null s' = (elem_null s \<or> agent_at s a = A_Null)" and "output_producers s' = output_producers s"
    and "waiting_consumer_idx s' = waiting_consumer_idx s" and "got s' = got s" and "drained s' = drained s"
    and "said_closed s' = said_closed s"
  using assms by (cases; auto simp: mpsc_ops)+

lemma agent_moves_one: "agent_step cap cs a s s' \<Longrightarrow> b \<noteq> a \<Longrightarrow> agent_at s' b = agent_at s b"
  by (erule agent_step.cases) (auto simp: mpsc_ops)

lemma parked_stuck: "agent_step cap cs a s s' \<Longrightarrow> agent_at s a \<noteq> A_Parked x k"
  by (erule agent_step.cases) auto

lemma parked_stays: "agent_step cap cs a s s' \<Longrightarrow> agent_at s b = A_Parked x k \<Longrightarrow> agent_at s' b = A_Parked x k"
  using agent_moves_one [of cap cs a s s' b] parked_stuck [of cap cs a s s' x k] by (cases "b = a") auto

lemma mconsumer_ok_agent:
  assumes ok: "words_ok cap cs s" and step: "agent_step cap cs a s s'"
  shows "mconsumer_ok cap s' (the_consumer s')"
proof -
  note keep = agent_keeps_consumer [OF step]
  have d: "DATA_BIT (element_flags s i) \<longrightarrow> DATA_BIT (element_flags s' i)" "close_sentinel (element_flags s i) \<longrightarrow> close_sentinel (element_flags s' i)" for i
    using data_agent [OF words_okD(2,3,1) [OF ok] step] by blast+
  have se: "sealed s \<longrightarrow> sealed s'" using sealed_agent [OF words_okD(5) [OF ok] step] by blast
  have own: "token_ok cap s (agent_at s a)" using tokens_okD(6) [OF words_okD(6) [OF ok]] .
  have n: "agent_at s a \<noteq> A_Null" if "the_consumer s = K_Resume"
    using tokens_okD(2) [OF words_okD(6) [OF ok], of a] that by auto
  show ?thesis
  proof (cases "agent_at s a = A_Post \<and> the_consumer s = K_Waiting")
    case True
    then show ?thesis using own d se keep(1-3) by (auto simp: here_def)
  next
    case False
    then have "the_consumer s' = the_consumer s" using keep(2) by auto
    then show ?thesis
      using words_okD(7) [OF ok] d se keep(1,3) n parked_stays [OF step]
      by (cases "the_consumer s") (auto simp: here_def split: if_splits)
  qed
qed

lemma words_ok_agent:
  assumes ok: "words_ok cap cs s" and step: "agent_step cap cs a s s'"
  shows "words_ok cap cs s'"
  unfolding words_ok_def
proof (intro conjI)
  note w = words_okD [OF ok]
  show "0 < cap" by (fact w)
  show "elems_ok cap s'" using w(7) by (intro elems_ok_agent [OF w(2,3) _ step]) auto
  show "all_remembered s'" by (rule remembered_agent [OF w(3,6) step])
  show "close_ok s'" "agents_ok s'" using protocol_agent [OF w(4,5) step] by auto
  show "tokens_ok cap s'" by (rule tokens_agent [OF w(1,6,4,5,3,2) _ step]) (use w(8) in simp)
  show "mconsumer_ok cap s' (the_consumer s')" by (rule mconsumer_ok_agent [OF ok step])
  show "pulls (the_consumer s') \<longrightarrow> cs" using w(8) agent_keeps_consumer(2) [OF step] by auto
qed

lemma sentinel_kept:
  assumes ok: "words_ok cap cs s" and step: "mconsumer_step cap cs s s'" and "i < cap" and "close_sentinel (element_flags s i)"
  shows "close_sentinel (element_flags s' i)"
  using step
proof cases
  case drain
  have d: "DATA_BIT (element_flags s ((read_at s - 1) mod cap))" using words_okD(7) [OF ok] drain(2) by simp
  moreover have "\<not> DATA_BIT (element_flags s i)" using words_ok_element [OF ok assms(3)] assms(4) by (simp add: elem_ok_def)
  ultimately have "i \<noteq> (read_at s - 1) mod cap" by auto
  then show ?thesis using assms(4) drain by (auto simp: drain_and_handoff_def mpsc_ops split: list.splits)
next
  case (wake a)
  then show ?thesis using assms(4) by (simp add: wake_parked_def mpsc_ops split: agent.splits)
qed (use assms(4) in \<open>auto simp: mpsc_ops\<close>)

lemma mconsumer_ok_consumer:
  assumes ok: "words_ok cap cs s" and step: "mconsumer_step cap cs s s'"
  shows "mconsumer_ok cap s' (the_consumer s') \<and> (pulls (the_consumer s') \<longrightarrow> cs)"
proof -
  note w = words_okD [OF ok]
  have rm: "read_at s mod cap < cap" using w(1) by simp
  show ?thesis using step
  proof cases
    case drain
    define i where "i = (read_at s - 1) mod cap"
    have i: "i < cap" and d: "DATA_BIT (element_flags s i)" using w(1,7) drain(2) by (simp_all add: i_def)
    have nc: "\<not> CONS_BIT (element_flags s i)" using tokens_okD(1) [OF w(6) i] drain(2) by auto
    have e: "elem_ok (element_flags s i) (output_producers s i) (agents_at (emplacing cap i) (agent_at s)) (agents_at (parking cap i) (agent_at s)) {}"
      using words_ok_element [OF ok i] drain(2) by simp
    have pk: "\<exists>x k. agent_at s a = A_Parked x k" if "a \<in> set (chain_bits (element_flags s i) @ output_producers s i)" for a
      using elem_ok_handed [OF e that] by (cases "agent_at s a") (auto simp: agents_at_iff)
    have s': "s' = drain_and_handoff i s" using drain(1) by (simp add: i_def)
    from e d nc show ?thesis
    proof (cases rule: drain_cases)
      case free
      then show ?thesis by (simp add: s')
    next
      case (hand_out a out)
      then show ?thesis using pk [of a] by (simp add: s' hand_to_def put_flags_def)
    next
      case (hand_in a out)
      then have "a \<in> set (rev (chain_bits (element_flags s i)))" by simp
      then show ?thesis using hand_in pk [of a] by (simp add: s' hand_to_def put_flags_def)
    qed
  next
    case (wake b)
    then show ?thesis using w(7) by (auto simp: wake_parked_def mpsc_ops)
  next
    case (unarm sealing)
    have "waiting_consumer s (read_at s mod cap)" using tokens_okD(5) [OF w(6) rm] unarm(2) by simp
    then show ?thesis using unarm w(7,8) by (auto simp: mpsc_ops here_def)
  next
    case (resume)
    then show ?thesis using w(7,8) by (auto simp: mpsc_ops here_def)
  qed (use w(7,8) in \<open>auto simp: mpsc_ops here_def split: if_splits\<close>)
qed

lemma words_ok_consumer:
  assumes ok: "words_ok cap cs s" and step: "mconsumer_step cap cs s s'"
  shows "words_ok cap cs s'"
  unfolding words_ok_def
proof (intro conjI)
  note w = words_okD [OF ok]
  show "0 < cap" by (fact w)
  have "(read_at s - 1) mod cap < cap" using w(1) by simp
  then show "elems_ok cap s'" using tokens_okD(1) [OF w(6)] by (intro elems_ok_consumer [OF w(1,2,7) _ step]) auto
  show "all_remembered s'" by (rule remembered_consumer [OF w(3) step])
  show "close_ok s'" "agents_ok s'" using protocol_consumer [OF w(4,5,7) step] by auto
  show "tokens_ok cap s'" by (rule tokens_consumer [OF w(1,6,7) step])
  show "mconsumer_ok cap s' (the_consumer s')" "pulls (the_consumer s') \<longrightarrow> cs" using mconsumer_ok_consumer [OF ok step] by auto
qed

lemma words_ok_start: "mpsc_start cap s \<Longrightarrow> words_ok cap cs s"
  by (auto simp: mpsc_start_def words_ok_def elems_ok_def elem_ok_def all_remembered_def close_ok_def agents_ok_def tokens_ok_def mpsc_new_def
      agents_at_def no_flags_def)

section \<open>The items\<close>

fun publishes :: "nat \<Rightarrow> nat \<Rightarrow> 'a agent \<Rightarrow> 'a option" where
  "publishes cap i (A_Publish x k) = (if k mod cap = i then Some x else None)"
| "publishes cap i _ = None"

definition emplaced :: "nat \<Rightarrow> nat \<Rightarrow> (nat \<Rightarrow> 'a agent) \<Rightarrow> 'a set" where
  "emplaced cap i ag = {x. \<exists>a. publishes cap i (ag a) = Some x}"

lemma emplaced_same: "publishes cap i p = publishes cap i (ag a) \<Longrightarrow> emplaced cap i (ag(a := p)) = emplaced cap i ag"
  unfolding emplaced_def by (rule Collect_cong) (metis fun_upd_apply)

lemma emplaced_none:
  assumes "\<And>b. b \<noteq> a \<Longrightarrow> \<not> emplacing cap i (ag b)" and "publishes cap i p = None"
  shows "emplaced cap i (ag(a := p)) = {}"
proof -
  have "publishes cap i (ag b) = None" if "b \<noteq> a" for b using assms(1) [OF that] by (cases "ag b") auto
  then show ?thesis using assms(2) by (auto simp: emplaced_def split: if_splits)
qed

lemma emplaced_one:
  assumes "\<And>b. b \<noteq> a \<Longrightarrow> \<not> emplacing cap i (ag b)"
  shows "k mod cap = i \<Longrightarrow> emplaced cap i (ag(a := A_Publish x k)) = {x}"
proof -
  assume "k mod cap = i"
  moreover have "publishes cap i (ag b) = None" if "b \<noteq> a" for b using assms [OF that] by (cases "ag b") auto
  ultimately show ?thesis by (auto simp: emplaced_def split: if_splits)
qed

fun rounds :: "nat \<Rightarrow> nat \<Rightarrow> nat \<Rightarrow> nat" where
  "rounds cap i 0 = 0"
| "rounds cap i (Suc p) = rounds cap i p + (if p mod cap = i then 1 else 0)"

lemma rounds_mono: "p \<le> q \<Longrightarrow> rounds cap i p \<le> rounds cap i q"
  by (induction q) (auto simp: le_Suc_eq)

definition draining :: "nat \<Rightarrow> 'a mpsc \<Rightarrow> nat \<Rightarrow> bool" where
  "draining cap s i \<longleftrightarrow> the_consumer s = K_Drain \<and> i = (read_at s - 1) mod cap"

definition got_from :: "nat \<Rightarrow> nat \<Rightarrow> (nat \<times> 'a option) list \<Rightarrow> 'a option list" where
  "got_from cap i g = map snd (filter (\<lambda>(p, x). p mod cap = i) g)"

text \<open>The element's storage, its history and its counters.\<close>

definition item_ok :: "mflags \<Rightarrow> 'a option \<Rightarrow> 'a list \<Rightarrow> nat \<Rightarrow> nat \<Rightarrow> bool \<Rightarrow> nat \<Rightarrow> 'a set \<Rightarrow> 'a option list \<Rightarrow> bool" where
  "item_ok f obj st dr cl d ro pubs g \<longleftrightarrow> (DATA_BIT f \<and> \<not> d \<longrightarrow> st \<noteq> [] \<and> obj = Some (last st)) \<and> (\<forall>x \<in> pubs. obj = Some x) \<and>
     (obj \<noteq> None \<longrightarrow> DATA_BIT f \<and> \<not> d \<or> pubs \<noteq> {}) \<and> length st = dr + (if DATA_BIT f then 1 else 0) \<and>
     cl = dr + (if PROD_BIT f \<or> DATA_BIT f then 1 else 0) \<and> (\<not> close_sentinel f \<longrightarrow> dr + (if d then 1 else 0) = ro) \<and>
     g = map Some (take (dr + (if d then 1 else 0)) st)"

definition items_ok :: "nat \<Rightarrow> 'a mpsc \<Rightarrow> bool" where
  "items_ok cap s \<longleftrightarrow> (\<forall>i < cap. item_ok (element_flags s i) (object_in s i) (stored_in s i) (drained s i) (claims s i) (draining cap s i)
     (rounds cap i (read_at s)) (emplaced cap i (agent_at s)) (got_from cap i (got s)))"

lemma items_quiet:
  assumes "items_ok cap s" and "element_flags s' = element_flags s" and "object_in s' = object_in s" and "stored_in s' = stored_in s"
    and "drained s' = drained s" and "claims s' = claims s" and "\<And>i. draining cap s' i = draining cap s i" and "read_at s' = read_at s"
    and "got s' = got s" and "agent_at s' = (agent_at s)(a := p)" and "\<And>i. publishes cap i p = publishes cap i (agent_at s a)"
  shows "items_ok cap s'"
  using assms by (simp add: items_ok_def emplaced_same)

lemma items_at:
  assumes "items_ok cap s" and "element_flags s' = (element_flags s)(i := f)" and "object_in s' = (object_in s)(i := ob)"
    and "stored_in s' = (stored_in s)(i := st)" and "drained s' = drained s" and "claims s' = (claims s)(i := cl)"
    and "\<And>i. draining cap s' i = draining cap s i" and "read_at s' = read_at s" and "got s' = got s"
    and "agent_at s' = (agent_at s)(a := p)" and "\<And>j. j \<noteq> i \<Longrightarrow> publishes cap j p = publishes cap j (agent_at s a)"
    and "item_ok (element_flags s i) (object_in s i) (stored_in s i) (drained s i) (claims s i) (draining cap s i)
     (rounds cap i (read_at s)) (emplaced cap i (agent_at s)) (got_from cap i (got s)) \<Longrightarrow>
     item_ok f ob st (drained s i) cl (draining cap s i)
     (rounds cap i (read_at s)) (emplaced cap i ((agent_at s)(a := p))) (got_from cap i (got s))"
  shows "items_ok cap s'"
  using assms unfolding items_ok_def by (simp add: emplaced_same)

lemma one_writer:
  assumes ok: "words_ok cap cs s" and "i < cap" and "emplacing cap i (agent_at s a)"
  shows "PROD_BIT (element_flags s i) \<and> \<not> DATA_BIT (element_flags s i) \<and> (\<forall>b. b \<noteq> a \<longrightarrow> \<not> emplacing cap i (agent_at s b))"
proof -
  let ?W = "agents_at (emplacing cap i) (agent_at s)"
  have e: "elem_ok (element_flags s i) (output_producers s i) ?W (agents_at (parking cap i) (agent_at s)) (handed (the_consumer s))"
    by (rule words_ok_element [OF ok assms(2)])
  have a: "a \<in> ?W" using assms(3) by (simp add: agents_at_iff)
  then obtain h where "?W \<union> agents_at (parking cap i) (agent_at s) \<inter> handed (the_consumer s) = {h}"
    using e by (auto simp: elem_ok_def split: if_splits)
  then have "?W \<subseteq> {h}" by blast
  then have "\<forall>b. b \<noteq> a \<longrightarrow> b \<notin> ?W" using a by blast
  then show ?thesis using elem_ok_writer [OF e a] by (simp add: agents_at_iff)
qed

lemma draining_data: "words_ok cap cs s \<Longrightarrow> draining cap s i \<Longrightarrow> DATA_BIT (element_flags s i)"
  using words_okD(7) [of cap cs s] by (simp add: draining_def)

lemma items_agent:
  assumes w: "words_ok cap cs s" and ok: "items_ok cap s" and step: "agent_step cap cs a s s'"
  shows "items_ok cap s'"
proof -
  have d: "draining cap s' i = draining cap s i" for i
    using agent_keeps_consumer [OF step] by (auto simp: draining_def)
  have im: "k mod cap < cap" for k using words_okD(1) [OF w] by simp
  note q = items_quiet [OF ok, where s' = s' and a = a and p = "agent_at s' a"]
  note at = items_at [OF ok, where s' = s' and a = a and p = "agent_at s' a"]
  show ?thesis using step
  proof cases
    case (claim x k)
    show ?thesis
    proof (cases "claimable (element_flags s (k mod cap))")
      case True
      show ?thesis
        by (rule at [where i = "k mod cap" and f = "(element_flags s (k mod cap))\<lparr>PROD_BIT := True\<rparr>" and ob = "object_in s (k mod cap)"
              and st = "stored_in s (k mod cap)" and cl = "claims s (k mod cap) + 1"])
          (use claim True d in \<open>auto simp: mpsc_ops emplaced_same item_ok_def claimable_def\<close>)
    next
      case False
      show ?thesis by (rule q) (use claim False d in \<open>auto simp: mpsc_ops\<close>)
    qed
  next
    case (park x k)
    show ?thesis
      by (rule at [where i = "k mod cap" and f = "element_flags s' (k mod cap)" and ob = "object_in s (k mod cap)"
              and st = "stored_in s (k mod cap)" and cl = "claims s (k mod cap)"])
        (use park d in \<open>auto simp: mpsc_ops emplaced_same item_ok_def\<close>)
  next
    case (emplace x k)
    have o: "PROD_BIT (element_flags s (k mod cap)) \<and> \<not> DATA_BIT (element_flags s (k mod cap)) \<and>
      (\<forall>b. b \<noteq> a \<longrightarrow> \<not> emplacing cap (k mod cap) (agent_at s b))"
      by (rule one_writer [OF w im]) (use emplace in simp)
    then have e: "emplaced cap (k mod cap) ((agent_at s)(a := A_Publish x k)) = {x}" by (intro emplaced_one) auto
    show ?thesis
      by (rule at [where i = "k mod cap" and f = "element_flags s (k mod cap)" and ob = "Some x"
              and st = "stored_in s (k mod cap)" and cl = "claims s (k mod cap)"])
        (use emplace d o e in \<open>auto simp: mpsc_ops item_ok_def\<close>)
  next
    case (publish x k)
    let ?i = "k mod cap"
    have o: "PROD_BIT (element_flags s ?i) \<and> \<not> DATA_BIT (element_flags s ?i) \<and> (\<forall>b. b \<noteq> a \<longrightarrow> \<not> emplacing cap ?i (agent_at s b))"
      by (rule one_writer [OF w im]) (use publish in simp)
    then have nd: "\<not> draining cap s ?i" using draining_data [OF w] by blast
    have e: "emplaced cap ?i ((agent_at s)(a := agent_at s' a)) = {}"
      by (rule emplaced_none) (use o publish in \<open>auto simp: mpsc_ops\<close>)
    have x: "x \<in> emplaced cap ?i (agent_at s)" using publish by (auto simp: emplaced_def intro!: exI [of _ a])
    show ?thesis
      by (rule at [where i = ?i and f = "element_flags s' ?i" and ob = "object_in s ?i"
              and st = "stored_in s ?i @ [x]" and cl = "claims s ?i"])
        (use publish d o e x nd in \<open>auto simp: mpsc_ops item_ok_def\<close>)
  next
    case (close_look c)
    show ?thesis
      by (rule at [where i = "c mod cap" and f = "element_flags s' (c mod cap)" and ob = "object_in s (c mod cap)"
              and st = "stored_in s (c mod cap)" and cl = "claims s (c mod cap)"])
        (use close_look d in \<open>auto simp: mpsc_ops emplaced_same item_ok_def no_flags_def\<close>)
  next
    case (close_mark c f)
    show ?thesis
      by (rule at [where i = "c mod cap" and f = "element_flags s' (c mod cap)" and ob = "object_in s (c mod cap)"
              and st = "stored_in s (c mod cap)" and cl = "claims s (c mod cap)"])
        (use close_mark d in \<open>auto simp: mpsc_ops emplaced_same item_ok_def\<close>)
  qed (rule q; use d in \<open>auto simp: mpsc_ops\<close>)+
qed


text \<open>The consumer leaves a position whose element is sealed.\<close>

lemma items_skip:
  assumes ok: "items_ok cap s" and s: "close_sentinel (here cap s)" and c: "the_consumer s \<noteq> K_Drain" "c \<noteq> K_Drain"
  shows "items_ok cap (skip_position c s)"
  using assms unfolding items_ok_def by (auto simp: skip_position_def draining_def item_ok_def here_def)

lemma got_from_snoc: "got_from cap i (g @ [(p, x)]) = got_from cap i g @ (if p mod cap = i then [x] else [])"
  by (simp add: got_from_def)

lemma items_release:
  assumes w: "words_ok cap cs s" and ok: "items_ok cap s" and c: "the_consumer s = K_Hold" and i: "i = read_at s mod cap"
    and s': "s' = s\<lparr>got := got s @ [(read_at s, object_in s i)], object_in := (object_in s)(i := None), read_at := read_at s + 1,
      the_consumer := K_Drain\<rparr>"
  shows "items_ok cap s'"
  unfolding items_ok_def
proof (intro allI impI)
  fix j assume j: "j < cap"
  then have it: "item_ok (element_flags s j) (object_in s j) (stored_in s j) (drained s j) (claims s j) False
     (rounds cap j (read_at s)) (emplaced cap j (agent_at s)) (got_from cap j (got s))"
    using ok c by (simp add: items_ok_def draining_def)
  show "item_ok (element_flags s' j) (object_in s' j) (stored_in s' j) (drained s' j) (claims s' j) (draining cap s' j)
     (rounds cap j (read_at s')) (emplaced cap j (agent_at s')) (got_from cap j (got s'))"
  proof (cases "j = i")
    case False
    then show ?thesis using it i by (simp add: s' draining_def got_from_snoc)
  next
    case True
    have d: "DATA_BIT (element_flags s j)" using words_okD(7) [OF w] c i True by (simp add: here_def)
    have ns: "\<not> close_sentinel (element_flags s j)" using words_ok_element [OF w j] d by (auto simp: elem_ok_def)
    have "publishes cap j (agent_at s b) = None" for b using one_writer [OF w j, of b] d by (cases "agent_at s b") auto
    then have e: "emplaced cap j (agent_at s) = {}" by (simp add: emplaced_def)
    obtain st x where "stored_in s j = st @ [x]" "length st = drained s j" "object_in s j = Some x"
      using it d unfolding item_ok_def by (cases "stored_in s j" rule: rev_cases) auto
    then show ?thesis using it d ns e i True by (simp add: s' draining_def got_from_snoc item_ok_def)
  qed
qed

lemma items_drain:
  assumes w: "words_ok cap cs s" and ok: "items_ok cap s" and c: "the_consumer s = K_Drain" and i: "i = (read_at s - 1) mod cap"
  shows "items_ok cap (drain_and_handoff i s)"
proof -
  define s' where "s' = drain_and_handoff i s"
  have ic: "i < cap" using i words_okD(1) [OF w] by simp
  have d: "DATA_BIT (element_flags s i)" using words_okD(7) [OF w] c i by simp
  have nc: "\<not> CONS_BIT (element_flags s i)" using tokens_okD(1) [OF words_okD(6) [OF w] ic] c by auto
  have e: "elem_ok (element_flags s i) (output_producers s i) (agents_at (emplacing cap i) (agent_at s))
      (agents_at (parking cap i) (agent_at s)) (handed (the_consumer s))" by (rule words_ok_element [OF w ic])
  have ns: "\<not> close_sentinel (element_flags s i)" using e d by (auto simp: elem_ok_def)
  obtain h where s': "s' = s\<lparr>element_flags := (element_flags s)(i := element_flags s' i), output_producers := output_producers s',
      the_consumer := the_consumer s', drained := (drained s)(i := drained s i + 1),
      claims := (claims s)(i := claims s i + (if h then 1 else 0))\<rparr>"
    and h: "PROD_BIT (element_flags s' i) = h" "\<not> DATA_BIT (element_flags s' i)" "\<not> close_sentinel (element_flags s' i)"
    and c': "the_consumer s' \<noteq> K_Drain"
  proof (cases rule: drain_cases [OF e d nc])
    case 1
    then show ?thesis by (intro that [of False]) (simp_all add: s'_def put_flags_def no_flags_def)
  next
    case (2 a out)
    then show ?thesis using ns by (intro that [of True]) (simp_all add: s'_def hand_to_def put_flags_def no_flags_def)
  next
    case (3 a out)
    then show ?thesis by (intro that [of True]) (simp_all add: s'_def hand_to_def put_flags_def no_flags_def)
  qed
  have "publishes cap i (agent_at s b) = None" for b using one_writer [OF w ic, of b] d by (cases "agent_at s b") auto
  then have em: "emplaced cap i (agent_at s) = {}" by (simp add: emplaced_def)
  have nd: "\<not> draining cap s' j" for j using c' by (simp add: draining_def)
  have s: "stored_in s' = stored_in s" "object_in s' = object_in s" "read_at s' = read_at s" "agent_at s' = agent_at s" "got s' = got s"
    "drained s' = (drained s)(i := drained s i + 1)" "claims s' = (claims s)(i := claims s i + (if h then 1 else 0))"
    "j \<noteq> i \<Longrightarrow> element_flags s' j = element_flags s j" for j
    by (subst s', simp)+
  have "item_ok (element_flags s' j) (object_in s' j) (stored_in s' j) (drained s' j) (claims s' j) (draining cap s' j)
     (rounds cap j (read_at s')) (emplaced cap j (agent_at s')) (got_from cap j (got s'))" if j: "j < cap" for j
  proof -
    have it: "item_ok (element_flags s j) (object_in s j) (stored_in s j) (drained s j) (claims s j) (j = i)
     (rounds cap j (read_at s)) (emplaced cap j (agent_at s)) (got_from cap j (got s))"
      using ok c i j by (simp add: items_ok_def draining_def)
    show ?thesis
    proof (cases "j = i")
      case True
      then show ?thesis using it h nd [of i] em d ns by (simp add: s item_ok_def)
    next
      case False
      then show ?thesis using it nd [of j] by (simp add: s)
    qed
  qed
  then show ?thesis unfolding items_ok_def s'_def [symmetric] by blast
qed

lemma items_consumer:
  assumes w: "words_ok cap cs s" and ok: "items_ok cap s" and step: "mconsumer_step cap cs s s'"
  shows "items_ok cap s'"
proof -
  note q = items_quiet [OF ok, where s' = s' and a = 0 and p = "agent_at s' 0"]
  show ?thesis using step
  proof cases
    case (release i)
    show ?thesis by (rule items_release [OF w ok release(2,3,1)])
  next
    case drain
    then show ?thesis using items_drain [OF w ok drain(2) refl] by simp
  next
    case (poll_cutoff tr f)
    show ?thesis
    proof (cases "read_at s < closed_at s \<and> close_sentinel f")
      case True
      then have "close_sentinel (here cap s)" using words_okD(7) [OF w] poll_cutoff(2) by simp
      then show ?thesis using poll_cutoff True items_skip [OF ok, of "K_Poll tr"] by simp
    next
      case False
      show ?thesis by (rule q) (use poll_cutoff False in \<open>auto simp: mpsc_ops draining_def\<close>)
    qed
  next
    case unarm_cutoff
    show ?thesis
    proof (cases "read_at s < closed_at s")
      case True
      have "close_sentinel (here cap s)" using words_okD(7) [OF w] unarm_cutoff(2) by simp
      then show ?thesis using unarm_cutoff True items_skip [OF ok, of K_ArmIdx] by simp
    next
      case False
      show ?thesis by (rule q) (use unarm_cutoff False in \<open>auto simp: mpsc_ops draining_def\<close>)
    qed
  next
    case (arm_flags f)
    then show ?thesis using ok unfolding items_ok_def by (auto simp: mpsc_ops draining_def item_ok_def)
  next
    case (wake b)
    then obtain x k where "agent_at s b = A_Parked x k" using words_okD(7) [OF w] by auto
    then show ?thesis
      by (intro items_quiet [OF ok, where s' = s' and a = b and p = "A_Emplace x k"])
        (use wake in \<open>auto simp: wake_parked_def mpsc_ops draining_def\<close>)
  qed (rule q; auto simp: mpsc_ops draining_def)+
qed

lemma items_start: "mpsc_start cap s \<Longrightarrow> items_ok cap s"
  by (auto simp: mpsc_start_def mpsc_new_def items_ok_def item_ok_def no_flags_def draining_def emplaced_def got_from_def)

section \<open>The tickets\<close>

text \<open>Every ticket below the limit has claimed its element, is on its way to it, or found it sealed.\<close>

fun unserved :: "nat \<Rightarrow> nat \<Rightarrow> nat \<Rightarrow> 'a agent \<Rightarrow> bool" where
  "unserved cap lim i (A_Check x k) \<longleftrightarrow> k mod cap = i \<and> k < lim"
| "unserved cap lim i (A_Spin x k) \<longleftrightarrow> k mod cap = i \<and> k < lim"
| "unserved cap lim i (A_Claim x k) \<longleftrightarrow> k mod cap = i \<and> k < lim"
| "unserved cap lim i (A_Park x k) \<longleftrightarrow> k mod cap = i \<and> k < lim"
| "unserved cap lim i (A_Parked x k) \<longleftrightarrow> k mod cap = i \<and> k < lim"
| "unserved cap lim i _ \<longleftrightarrow> False"

definition on_the_way :: "nat \<Rightarrow> nat \<Rightarrow> 'a mpsc \<Rightarrow> nat set" where
  "on_the_way cap i s = agents_at (unserved cap (limit s) i) (agent_at s) - handed (the_consumer s)"

definition count_ok :: "nat \<Rightarrow> 'a mpsc \<Rightarrow> bool" where
  "count_ok cap s \<longleftrightarrow> finite {a. agent_at s a \<noteq> A_Idle} \<and> read_at s \<le> limit s \<and>
     (\<forall>i < cap. claims s i + card (on_the_way cap i s) + refused s i = rounds cap i (limit s) \<and>
        (0 < refused s i \<longrightarrow> close_sentinel (element_flags s i)) \<and>
        (close_sentinel (element_flags s i) \<longrightarrow> (\<exists>c. cutoff s = Some c \<and> i = c mod cap)))"

lemma on_the_way_finite: "count_ok cap s \<Longrightarrow> finite (on_the_way cap i s)"
proof -
  assume "count_ok cap s"
  moreover have "on_the_way cap i s \<subseteq> {a. agent_at s a \<noteq> A_Idle}" by (auto simp: on_the_way_def agents_at_iff)
  ultimately show ?thesis by (auto simp: count_ok_def intro: finite_subset)
qed

lemma busy_finite: "finite {a. ag a \<noteq> A_Idle} \<Longrightarrow> finite {b. (ag(a := p)) b \<noteq> A_Idle}"
  by (rule finite_subset [of _ "insert a {a. ag a \<noteq> A_Idle}"]) (auto split: if_splits)

lemma limit_kept: "cutoff s' = cutoff s \<Longrightarrow> tickets s' = tickets s \<Longrightarrow> limit s' = limit s"
  by (simp add: limit_def split: option.splits)

lemma limit_simps [simp]:
  "limit (s\<lparr>element_flags := x0\<rparr>) = limit s"
  "limit (s\<lparr>output_producers := x1\<rparr>) = limit s"
  "limit (s\<lparr>waiting_consumer := x2\<rparr>) = limit s"
  "limit (s\<lparr>waiting_consumer_idx := x3\<rparr>) = limit s"
  "limit (s\<lparr>object_in := x4\<rparr>) = limit s"
  "limit (s\<lparr>read_at := x5\<rparr>) = limit s"
  "limit (s\<lparr>agent_at := x6\<rparr>) = limit s"
  "limit (s\<lparr>the_consumer := x7\<rparr>) = limit s"
  "limit (s\<lparr>elem_null := x8\<rparr>) = limit s"
  "limit (s\<lparr>stored_in := x9\<rparr>) = limit s"
  "limit (s\<lparr>got := x10\<rparr>) = limit s"
  "limit (s\<lparr>claims := x11\<rparr>) = limit s"
  "limit (s\<lparr>drained := x12\<rparr>) = limit s"
  "limit (s\<lparr>refused := x13\<rparr>) = limit s"
  "limit (s\<lparr>said_closed := x14\<rparr>) = limit s"
  "limit (s\<lparr>said_empty := x15\<rparr>) = limit s"
  by (rule limit_kept; simp)+

lemma count_quiet:
  assumes ok: "count_ok cap s" and ag: "agent_at s' = (agent_at s)(a := p)" and same: "read_at s' = read_at s" "claims s' = claims s" "refused s' = refused s"
    and lim: "limit s' = limit s" and w: "handed (the_consumer s') = handed (the_consumer s)"
    and p: "\<And>i. unserved cap (limit s) i p = unserved cap (limit s) i (agent_at s a)"
    and f: "\<And>i. i < cap \<Longrightarrow> close_sentinel (element_flags s i) \<longrightarrow> close_sentinel (element_flags s' i)"
      "\<And>i. i < cap \<Longrightarrow> close_sentinel (element_flags s' i) \<longrightarrow> (\<exists>c. cutoff s' = Some c \<and> i = c mod cap)"
  shows "count_ok cap s'"
proof -
  have "on_the_way cap i s' = on_the_way cap i s" for i using p ag lim w by (simp add: on_the_way_def agents_at_same)
  then show ?thesis using ok f busy_finite [of "agent_at s" a p] unfolding count_ok_def same lim ag by auto
qed

text \<open>The ticket of \<open>a\<close> claims the element \<open>i\<close> or finds it sealed.\<close>

lemma count_settled:
  assumes ok: "count_ok cap s" and ag: "agent_at s' = (agent_at s)(a := p)" and r: "read_at s' = read_at s" and i: "i < cap"
    and same: "claims s' = (claims s)(i := claims s i + m)" "refused s' = (refused s)(i := refused s i + (1 - m))" "m \<le> 1"
    and lim: "cutoff s' = cutoff s" "tickets s' = tickets s" and w: "the_consumer s' = the_consumer s" "a \<notin> handed (the_consumer s)"
    and p: "\<And>j. \<not> unserved cap (limit s) j p" "\<And>j. unserved cap (limit s) j (agent_at s a) = (j = i)"
    and f: "\<And>i. close_sentinel (element_flags s' i) = close_sentinel (element_flags s i)" "m = 0 \<longrightarrow> close_sentinel (element_flags s i)"
  shows "count_ok cap s'"
proof -
  have l: "limit s' = limit s" by (rule limit_kept [OF lim])
  have o: "on_the_way cap j s' = on_the_way cap j s - (if j = i then {a} else {})" for j
    using ag l w p by (auto simp: on_the_way_def agents_at_iff split: if_splits)
  have "a \<in> on_the_way cap i s" using p w by (simp add: on_the_way_def agents_at_iff)
  then have "card (on_the_way cap i s) = Suc (card (on_the_way cap i s'))"
    using on_the_way_finite [OF ok, of i] o [of i] by (simp only: if_True refl card_Suc_Diff1)
  moreover have "m = 0 \<or> m = 1" using same(3) by auto
  ultimately show ?thesis
    using ok busy_finite [of "agent_at s" a p] f i unfolding count_ok_def r l same lim ag
    by (auto simp: o)
qed

lemma count_agent:
  assumes w: "words_ok cap cs s" and ok: "count_ok cap s" and step: "agent_step cap cs a s s'"
  shows "count_ok cap s'"
proof -
  note keep = agent_keeps_consumer [OF step]
  have im: "k mod cap < cap" for k using words_okD(1) [OF w] by simp
  have own: "agent_ok s (agent_at s a)" "remembered (agent_at s a)" using words_okD(3,5) [OF w] by (simp_all add: agents_ok_def all_remembered_def)
  have cl: "closed_ready s \<Longrightarrow> cutoff s = Some (closed_at s)" using words_okD(4) [OF w] by (simp add: close_ok_def)
  have se: "close_sentinel (element_flags s i) \<longrightarrow> (\<exists>c. cutoff s = Some c \<and> i = c mod cap)" if "i < cap" for i
    using ok that by (simp add: count_ok_def)
  have wk: "handed (the_consumer s') = handed (the_consumer s)" using keep(2) by simp
  have na: "a \<notin> handed (the_consumer s)" using words_okD(7) [OF w] parked_stuck [OF step] by (auto simp: handed_def)
  note q = count_quiet [OF ok, where s' = s' and a = a and p = "agent_at s' a"]
  note st = count_settled [OF ok, where s' = s' and a = a and p = "agent_at s' a"]
  have refuse: "count_ok cap s'" if "s' = put_agent a A_Idle (s\<lparr>refused := (refused s)(k mod cap := refused s (k mod cap) + 1)\<rparr>)"
      "agent_at s a = A_Claim x k \<or> agent_at s a = A_Park x k" "close_sentinel (element_flags s (k mod cap))" for x k
  proof -
    have "k < limit s" using that(2) own by auto
    then show ?thesis by (intro st [where i = "k mod cap" and m = 0]) (use that na im in \<open>auto simp: put_agent_def\<close>)
  qed
  show ?thesis using step
  proof cases
    case (take_ticket x)
    let ?t = "tickets s"
    show ?thesis
    proof (cases "cutoff s")
      case (Some c)
      then have "c < ?t" "limit s = c" using words_okD(4) [OF w] by (auto simp: close_ok_def limit_def)
      then show ?thesis using take_ticket se Some wk by (intro q) (auto simp: mpsc_ops limit_def)
    next
      case None
      then have l: "limit s = ?t" "limit s' = Suc ?t" using take_ticket(1) by (simp_all add: limit_def mpsc_ops)
      have "unserved cap (Suc ?t) j (agent_at s b) = unserved cap ?t j (agent_at s b)" for b j
      proof -
        have "agent_ok s (agent_at s b)" using words_okD(5) [OF w] by (simp add: agents_ok_def)
        then show ?thesis using None by (cases "agent_at s b") (auto simp: limit_def)
      qed
      then have o: "on_the_way cap j s' = (if j = ?t mod cap then insert a (on_the_way cap j s) else on_the_way cap j s)" for j
        using take_ticket l na wk by (auto simp: on_the_way_def mpsc_ops agents_at_iff split: if_splits)
      have na': "a \<notin> on_the_way cap j s" for j using take_ticket(2) by (simp add: on_the_way_def agents_at_iff)
      have fin: "finite {b. agent_at s' b \<noteq> A_Idle}" using ok busy_finite [of "agent_at s" a "A_Check x ?t"] take_ticket(1)
        by (simp add: count_ok_def mpsc_ops)
      show ?thesis using ok fin na' on_the_way_finite [OF ok] unfolding count_ok_def l o
        by (auto simp: take_ticket(1) mpsc_ops None)
    qed
  next
    case close_add
    have "limit s' = limit s" "cutoff s = None" using own(1) close_add by (simp_all add: mpsc_ops limit_def)
    then show ?thesis using close_add se wk by (intro q) (auto simp: mpsc_ops)
  next
    case (claim x k)
    let ?f = "element_flags s (k mod cap)"
    consider "claimable ?f" | "\<not> claimable ?f" "close_sentinel ?f" | "\<not> claimable ?f" "\<not> close_sentinel ?f" by blast
    then show ?thesis
    proof cases
      case 1
      have "k < limit s" using own claim(2) by simp
      then show ?thesis using 1 claim na im
        by (intro st [where i = "k mod cap" and m = 1]) (auto simp: mpsc_ops fun_upd_idem)
    next
      case 2
      then show ?thesis using refuse [of k x] claim by (simp add: try_claim_def Let_def)
    next
      case 3
      then show ?thesis using claim se wk by (intro q limit_kept) (auto simp: mpsc_ops)
    qed
  next
    case (park x k)
    let ?f = "element_flags s (k mod cap)"
    consider "claimable ?f" | "\<not> claimable ?f" "close_sentinel ?f" | "\<not> claimable ?f" "\<not> close_sentinel ?f" by blast
    then show ?thesis
    proof cases
      case 2
      then show ?thesis using refuse [of k x] park by (simp add: mpsc_park_def Let_def)
    qed (use park se wk in \<open>(intro q limit_kept; auto simp: mpsc_ops)+\<close>)
  next
    case (check_cutoff x k)
    then have "limit s = closed_at s" using cl by (simp add: limit_def)
    then show ?thesis using check_cutoff se wk by (intro q limit_kept) (auto simp: mpsc_ops)
  next
    case (close_look c)
    then show ?thesis using cl own(1) se wk by (intro q limit_kept) (auto simp: mpsc_ops no_flags_def split: if_splits)
  next
    case (close_mark c f)
    then show ?thesis using cl own(1) se wk by (intro q limit_kept) (auto simp: mpsc_ops split: if_splits)
  next
    case (publish x k)
    then show ?thesis using se wk by (intro q limit_kept) (auto simp: mpsc_ops split: if_splits)
  qed (rule q limit_kept; use se wk in \<open>auto simp: mpsc_ops split: if_splits\<close>)+
qed


lemma count_read:
  assumes "count_ok cap s" and "s' = s\<lparr>got := g, object_in := ob, read_at := read_at s + 1, the_consumer := c\<rparr>" and "read_at s < limit s"
    and "handed c = handed (the_consumer s)"
  shows "count_ok cap s'"
  using assms by (simp add: count_ok_def on_the_way_def)

lemma hold_below_limit:
  assumes w: "words_ok cap cs s" and it: "items_ok cap s" and ok: "count_ok cap s" and c: "the_consumer s = K_Hold"
  shows "read_at s < limit s"
proof (rule ccontr)
  let ?i = "read_at s mod cap"
  assume "\<not> read_at s < limit s"
  then have "rounds cap ?i (limit s) \<le> rounds cap ?i (read_at s)" by (intro rounds_mono) simp
  moreover have i: "?i < cap" using words_okD(1) [OF w] by simp
  moreover have d: "DATA_BIT (element_flags s ?i)" using words_okD(7) [OF w] c by (simp add: here_def)
  moreover have "\<not> close_sentinel (element_flags s ?i)" using words_ok_element [OF w i] d by (auto simp: elem_ok_def)
  moreover have "claims s ?i = drained s ?i + 1" "\<not> close_sentinel (element_flags s ?i) \<longrightarrow> drained s ?i = rounds cap ?i (read_at s)"
    using it i d c by (simp_all add: items_ok_def item_ok_def draining_def)
  moreover have "claims s ?i \<le> rounds cap ?i (limit s)" using ok i by (simp add: count_ok_def) (metis add.assoc le_add1)
  ultimately show False by simp
qed

lemma count_drain:
  assumes w: "words_ok cap cs s" and ok: "count_ok cap s" and c: "the_consumer s = K_Drain" and i: "i = (read_at s - 1) mod cap"
  shows "count_ok cap (drain_and_handoff i s)"
proof -
  have ic: "i < cap" using i words_okD(1) [OF w] by simp
  have d: "DATA_BIT (element_flags s i)" using words_okD(7) [OF w] c i by simp
  have nc: "\<not> CONS_BIT (element_flags s i)" using tokens_okD(1) [OF words_okD(6) [OF w] ic] c by auto
  have e: "elem_ok (element_flags s i) (output_producers s i) (agents_at (emplacing cap i) (agent_at s)) (agents_at (parking cap i) (agent_at s)) {}"
    using words_ok_element [OF w ic] c by simp
  have ns: "\<not> close_sentinel (element_flags s i)" using e d by (auto simp: elem_ok_def)
  have hand: "count_ok cap (hand_to i a f out s)" if a: "a \<in> set (chain_bits (element_flags s i) @ output_producers s i)"
    and f: "\<not> close_sentinel f" for a f out
  proof -
    have "parking cap i (agent_at s a)" using elem_ok_handed [OF e a] by (simp add: agents_at_iff)
    then obtain x k where p: "agent_at s a = A_Parked x k" "k mod cap = i" by (cases "agent_at s a") auto
    moreover have "agent_ok s (agent_at s a)" using words_okD(5) [OF w] by (simp add: agents_ok_def)
    ultimately have l: "k < limit s" by simp
    have o: "on_the_way cap j (hand_to i a f out s) = on_the_way cap j s - (if j = i then {a} else {})" for j
      using p l c by (auto simp: on_the_way_def hand_to_def put_flags_def agents_at_iff)
    have "a \<in> on_the_way cap i s" using p l c by (simp add: on_the_way_def agents_at_iff)
    then have "card (on_the_way cap i s) = Suc (card (on_the_way cap i s - {a}))"
      using on_the_way_finite [OF ok, of i] by (simp only: card_Suc_Diff1)
    then show ?thesis using ok f ic ns unfolding count_ok_def o by (auto simp: hand_to_def put_flags_def)
  qed
  show ?thesis
  proof (cases rule: drain_cases [OF e d nc])
    case 1
    then show ?thesis using ok c by (auto simp: count_ok_def put_flags_def on_the_way_def no_flags_def)
  next
    case (2 a out)
    then show ?thesis using ns by (simp add: hand)
  next
    case (3 a out)
    then have "a \<in> set (rev (chain_bits (element_flags s i)))" by simp
    then show ?thesis using 3 by (simp add: hand no_flags_def)
  qed
qed

lemma count_consumer:
  assumes w: "words_ok cap cs s" and it: "items_ok cap s" and ok: "count_ok cap s" and step: "mconsumer_step cap cs s s'"
  shows "count_ok cap s'"
proof -
  have se: "close_sentinel (element_flags s i) \<longrightarrow> (\<exists>c. cutoff s = Some c \<and> i = c mod cap)" if "i < cap" for i
    using ok that by (simp add: count_ok_def)
  have cl: "closed_ready s \<Longrightarrow> limit s = closed_at s" using words_okD(4) [OF w] by (simp add: close_ok_def limit_def)
  note q = count_quiet [OF ok, where s' = s' and a = 0 and p = "agent_at s' 0"]
  have skip: "count_ok cap (skip_position c s)" if "closed_ready s" "read_at s < closed_at s" "handed c = handed (the_consumer s)" for c
    by (rule count_read [OF ok, where g = "got s" and ob = "object_in s" and c = c]) (use that cl in \<open>simp_all add: skip_position_def\<close>)
  show ?thesis using step
  proof cases
    case (release i)
    show ?thesis by (rule count_read [OF ok release(1)]) (use hold_below_limit [OF w it ok release(2)] release(2) in simp_all)
  next
    case drain
    then show ?thesis using count_drain [OF w ok drain(2) refl] by simp
  next
    case (poll_cutoff tr f)
    show ?thesis
    proof (cases "read_at s < closed_at s \<and> close_sentinel f")
      case True
      then show ?thesis using poll_cutoff skip [of "K_Poll tr"] by simp
    next
      case False
      show ?thesis by (rule q) (use poll_cutoff False se in \<open>auto simp: mpsc_ops\<close>)
    qed
  next
    case unarm_cutoff
    show ?thesis
    proof (cases "read_at s < closed_at s")
      case True
      then show ?thesis using unarm_cutoff skip [of K_ArmIdx] by simp
    next
      case False
      show ?thesis by (rule q) (use unarm_cutoff False se in \<open>auto simp: mpsc_ops\<close>)
    qed
  next
    case (arm_flags f)
    show ?thesis by (rule q) (use arm_flags se in \<open>auto simp: mpsc_ops\<close>)
  next
    case (wake b)
    then obtain x k where b: "agent_at s b = A_Parked x k" using words_okD(7) [OF w] by auto
    then have s': "s' = s\<lparr>agent_at := (agent_at s)(b := A_Emplace x k), the_consumer := K_Idle\<rparr>"
      using wake by (simp add: wake_parked_def put_agent_def)
    then have o: "on_the_way cap i s' = on_the_way cap i s" for i
      using b wake(2) by (auto simp: on_the_way_def agents_at_iff split: if_splits)
    have "limit s' = limit s" by (simp add: s')
    then show ?thesis using ok busy_finite [of "agent_at s" b "A_Emplace x k"] unfolding count_ok_def o by (simp add: s')
  qed (rule q; use se in \<open>auto simp: mpsc_ops\<close>)+
qed

lemma count_start: "mpsc_start cap s \<Longrightarrow> count_ok cap s"
  by (auto simp: mpsc_start_def mpsc_new_def count_ok_def on_the_way_def agents_at_def limit_def no_flags_def)

section \<open>A consumer that waits behind the cutoff\<close>

fun late :: "mconsumer \<Rightarrow> bool" where
  "late K_ArmIdx \<longleftrightarrow> True"
| "late K_ArmSelf \<longleftrightarrow> True"
| "late K_ArmFlags \<longleftrightarrow> True"
| "late (K_Unarm b) \<longleftrightarrow> True"
| "late K_UnarmSpin \<longleftrightarrow> True"
| "late K_Waiting \<longleftrightarrow> True"
| "late _ \<longleftrightarrow> False"

fun will_look :: "'a agent \<Rightarrow> bool" where
  "will_look (A_StoreCutoff c) \<longleftrightarrow> True"
| "will_look (A_StoreReady c) \<longleftrightarrow> True"
| "will_look (A_Look c) \<longleftrightarrow> True"
| "will_look _ \<longleftrightarrow> False"

fun looks :: "'a agent \<Rightarrow> bool" where
  "looks (A_LookIdx c f) \<longleftrightarrow> True"
| "looks (A_Mark c f) \<longleftrightarrow> True"
| "looks _ \<longleftrightarrow> False"

definition seen :: "nat \<Rightarrow> 'a mpsc \<Rightarrow> bool" where
  "seen cap s \<longleftrightarrow> close_sentinel (here cap s) \<or> (\<exists>a. will_look (agent_at s a)) \<or>
     (\<exists>a. looks (agent_at s a)) \<and> the_consumer s = K_Waiting \<and> CONS_BIT (here cap s)"

definition late_ok :: "nat \<Rightarrow> 'a mpsc \<Rightarrow> bool" where
  "late_ok cap s \<longleftrightarrow> (cutoff s = Some (read_at s) \<and> late (the_consumer s) \<longrightarrow> seen cap s) \<and>
     (the_consumer s = K_ArmSelf \<or> the_consumer s = K_ArmFlags \<or> the_consumer s = K_Waiting \<longrightarrow>
        waiting_consumer_idx s (read_at s mod cap) = read_at s) \<and>
     (\<forall>i < cap. CONS_BIT (element_flags s i) \<longrightarrow> \<not> close_sentinel (element_flags s i) \<and> \<not> DATA_BIT (element_flags s i)) \<and>
     (said_closed s \<longrightarrow> sealed s)"

definition mpsc_inv :: "nat \<Rightarrow> bool \<Rightarrow> 'a mpsc \<Rightarrow> bool" where
  "mpsc_inv cap cs s \<longleftrightarrow> words_ok cap cs s \<and> items_ok cap s \<and> count_ok cap s \<and> late_ok cap s"

lemma mpsc_invD:
  assumes "mpsc_inv cap cs s"
  shows "words_ok cap cs s" and "items_ok cap s" and "count_ok cap s" and "late_ok cap s"
  using assms by (simp_all add: mpsc_inv_def)

text \<open>When the consumer has reached the limit nothing is in the queue.\<close>

lemma all_read:
  assumes w: "words_ok cap cs s" and it: "items_ok cap s" and ok: "count_ok cap s" and i: "i < cap" and nd: "\<not> draining cap s i"
    and lim: "limit s \<le> read_at s"
  shows "\<not> PROD_BIT (element_flags s i) \<and> \<not> DATA_BIT (element_flags s i)"
proof (cases "close_sentinel (element_flags s i)")
  case True
  then show ?thesis using words_ok_element [OF w i] by (simp add: elem_ok_def)
next
  case False
  have "claims s i \<le> rounds cap i (limit s)" using ok i by (simp add: count_ok_def) (metis add.assoc le_add1)
  also have "\<dots> \<le> rounds cap i (read_at s)" by (rule rounds_mono [OF lim])
  also have "\<dots> = drained s i" using it i nd False by (auto simp: items_ok_def item_ok_def)
  finally show ?thesis using it i by (simp add: items_ok_def item_ok_def split: if_splits)
qed

lemma late_agent:
  assumes ok: "mpsc_inv cap cs s" and step: "agent_step cap cs a s s'"
  shows "late_ok cap s'"
proof -
  note w = mpsc_invD(1) [OF ok] and it = mpsc_invD(2) [OF ok] and cnt = mpsc_invD(3) [OF ok] and lo = mpsc_invD(4) [OF ok]
  note keep = agent_keeps_consumer [OF step]
  have rm: "read_at s mod cap < cap" using words_okD(1) [OF w] by simp
  have own: "agent_ok s (agent_at s a)" "remembered (agent_at s a)" using words_okD(3,5) [OF w] by (simp_all add: agents_ok_def all_remembered_def)
  have cl: "closed_ready s \<Longrightarrow> cutoff s = Some (closed_at s)" using words_okD(4) [OF w] by (simp add: close_ok_def)
  have sent: "close_sentinel (here cap s) \<Longrightarrow> close_sentinel (here cap s')"
    using data_agent(2) [OF words_okD(2,3,1) [OF w] step] keep(1) by (simp add: here_def)
  have seen: "seen cap s'" if c: "cutoff s' = Some (read_at s)" and l: "late (the_consumer s')"
  proof -
    have lc: "the_consumer s' = the_consumer s" "late (the_consumer s)" using l keep(2) by (auto split: if_splits)
    then have pc: "cs" using words_okD(8) [OF w] by (cases "the_consumer s") auto
    have nd: "\<not> draining cap s i" for i using lc by (auto simp: draining_def)
    have old: "seen cap s" "limit s \<le> read_at s" if "cutoff s' = cutoff s"
      using lo c lc that by (simp_all add: late_ok_def limit_def)
    have free: "\<not> PROD_BIT (here cap s)" "\<not> DATA_BIT (here cap s)" if "cutoff s' = cutoff s"
      using all_read [OF w it cnt rm nd old(2) [OF that]] by (simp_all add: here_def)
    have q: "seen cap s'" if "cutoff s' = cutoff s" "will_look (agent_at s a) \<longrightarrow> will_look (agent_at s' a)"
      "looks (agent_at s a) \<longrightarrow> will_look (agent_at s' a) \<or> looks (agent_at s' a)" "CONS_BIT (here cap s) \<longrightarrow> CONS_BIT (here cap s')"
      using old(1) [OF that(1)] sent agent_moves_one [OF step] that(2-4) lc(1) unfolding seen_def by metis
    show ?thesis using step
    proof cases
      case close_add
      then show ?thesis unfolding seen_def by (intro disjI2 disjI1 exI [of _ a]) (simp add: mpsc_ops)
    next
      case (publish x k)
      have k: "k mod cap \<noteq> read_at s mod cap"
      proof
        assume e: "k mod cap = read_at s mod cap"
        have "PROD_BIT (element_flags s (read_at s mod cap))"
          using one_writer [OF w rm, of a] publish(2) e by simp
        then show False using free publish(1) by (simp add: here_def mpsc_ops)
      qed
      then show ?thesis by (intro q) (use publish in \<open>auto simp: mpsc_ops here_def\<close>)
    next
      case (close_ready c)
      then show ?thesis using pc unfolding seen_def by (intro disjI2 disjI1 exI [of _ a]) (simp add: mpsc_ops)
    next
      case (close_look c)
      then have cr: "c = read_at s" using own(1) cl c by (auto simp: mpsc_ops split: if_splits)
      have f: "\<not> PROD_BIT (here cap s)" "\<not> DATA_BIT (here cap s)" using free close_look(1) by (auto simp: mpsc_ops split: if_splits)
      show ?thesis
      proof (cases "CONS_BIT (here cap s)")
        case True
        then have "the_consumer s = K_Waiting" using tokens_okD(1) [OF words_okD(6) [OF w] rm] by (simp add: here_def)
        then show ?thesis using close_look f True cr unfolding seen_def
          by (intro disjI2 disjI2 conjI exI [of _ a]) (simp_all add: mpsc_ops here_def)
      next
        case False
        then show ?thesis using close_look f cr unfolding seen_def by (intro disjI1) (simp add: mpsc_ops here_def)
      qed
    next
      case (close_idx c f)
      have cr: "c = read_at s" using own(1) cl c close_idx by (auto simp: mpsc_ops)
      show ?thesis
      proof (cases "the_consumer s = K_Waiting")
        case True
        then have "waiting_consumer_idx s (read_at s mod cap) = read_at s" using lo by (simp add: late_ok_def)
        then show ?thesis by (intro q) (use close_idx cr in \<open>auto simp: mpsc_ops here_def\<close>)
      next
        case False
        have "cutoff s' = cutoff s" using close_idx by (simp add: mpsc_ops)
        moreover have "\<not> will_look (agent_at s a)" using close_idx by simp
        ultimately have "close_sentinel (here cap s) \<or> (\<exists>b. b \<noteq> a \<and> will_look (agent_at s b))"
          using old(1) False unfolding seen_def by metis
        then show ?thesis using sent agent_moves_one [OF step] unfolding seen_def by metis
      qed
    next
      case (close_mark c f)
      have cr: "c = read_at s" using own(1) cl c close_mark by (auto simp: mpsc_ops split: if_splits)
      show ?thesis
      proof (cases "element_flags s (c mod cap) = f")
        case True
        then show ?thesis using close_mark cr unfolding seen_def by (intro disjI1) (simp add: mpsc_ops here_def)
      next
        case False
        then show ?thesis using close_mark unfolding seen_def by (intro disjI2 disjI1 exI [of _ a]) (simp add: mpsc_ops)
      qed
    qed (rule q; auto simp: mpsc_ops here_def split: if_splits)+
  qed
  have cons: "\<not> close_sentinel (element_flags s' i) \<and> \<not> DATA_BIT (element_flags s' i)" if "i < cap" "CONS_BIT (element_flags s' i)" for i
  proof -
    have o: "CONS_BIT (element_flags s i) \<longrightarrow> \<not> close_sentinel (element_flags s i) \<and> \<not> DATA_BIT (element_flags s i)"
      using lo that(1) by (simp add: late_ok_def)
    show ?thesis using step by cases (use o that(2) in \<open>auto simp: mpsc_ops no_flags_def split: if_splits\<close>)
  qed
  show ?thesis unfolding late_ok_def keep(1)
    using seen cons keep lo sealed_agent [OF words_okD(5) [OF w] step] by (auto simp: late_ok_def split: if_splits)
qed


lemma late_consumer:
  assumes ok: "mpsc_inv cap cs s" and step: "mconsumer_step cap cs s s'"
  shows "late_ok cap s'"
proof -
  note w = mpsc_invD(1) [OF ok] and it = mpsc_invD(2) [OF ok] and cnt = mpsc_invD(3) [OF ok] and lo = mpsc_invD(4) [OF ok]
  have rm: "read_at s mod cap < cap" using words_okD(1) [OF w] by simp
  have se: "close_sentinel (element_flags s i) \<longrightarrow> (\<exists>c. cutoff s = Some c \<and> i = c mod cap)" if "i < cap" for i
    using cnt that by (simp add: count_ok_def)
  have cl: "closed_ready s \<Longrightarrow> cutoff s = Some (closed_at s)" and op: "\<not> is_closed s \<Longrightarrow> cutoff s = None"
    using words_okD(4) [OF w] by (auto simp: close_ok_def split: if_splits)
  have here: "mconsumer_ok cap s (the_consumer s)" by (rule words_okD(7) [OF w])
  have sent: "close_sentinel (element_flags s' i)" if "i < cap" "close_sentinel (element_flags s i)" for i
    by (rule sentinel_kept [OF w step that])
  have ag: "will_look (agent_at s' b)" if "will_look (agent_at s b)" for b
  proof (cases "\<exists>a. the_consumer s = K_Wake a")
    case True
    then obtain a where a: "the_consumer s = K_Wake a" ..
    then obtain x k where p: "agent_at s a = A_Parked x k" using here by auto
    show ?thesis using step by cases (use p a that in \<open>auto simp: wake_parked_def mpsc_ops\<close>)
  next
    case False
    show ?thesis using step by cases (use False that in \<open>auto simp: drain_and_handoff_def mpsc_ops split: list.splits if_splits\<close>)
  qed
  have cut: "cutoff s' = cutoff s" and wt: "the_consumer s \<noteq> K_Waiting"
    using step by (cases; auto simp: wake_parked_def drain_and_handoff_def mpsc_ops split: agent.splits list.splits)+
  have old: "seen cap s'" if "cutoff s = Some (read_at s)" "late (the_consumer s)" "read_at s' = read_at s"
    using lo that wt sent [OF rm] ag unfolding late_ok_def seen_def here_def by metis
  have seen: "seen cap s'" if c: "cutoff s' = Some (read_at s')" and l: "late (the_consumer s')"
    using step
  proof cases
    case (poll_closed tr f)
    then show ?thesis using c l op by (auto simp: mpsc_ops split: if_splits)
  next
    case (poll_cutoff tr f)
    then show ?thesis using c l cl by (auto simp: mpsc_ops split: if_splits)
  next
    case unarm_cutoff
    then have r: "read_at s' = Suc (read_at s)" "closed_at s = Suc (read_at s)" using c l cl cut by (auto simp: mpsc_ops split: if_splits)
    have "close_sentinel (element_flags s (read_at s mod cap))" using here unarm_cutoff by (simp add: here_def)
    moreover from this have "read_at s mod cap = Suc (read_at s) mod cap" using se [OF rm] cl unarm_cutoff(3) r by auto
    ultimately show ?thesis using sent rm r unfolding seen_def here_def by metis
  next
    case drain
    then show ?thesis using l by (auto simp: drain_and_handoff_def mpsc_ops split: list.splits if_splits)
  next
    case (wake a)
    then show ?thesis using l by (auto simp: wake_parked_def mpsc_ops split: agent.splits)
  qed (use c l old cut in \<open>auto simp: mpsc_ops split: if_splits\<close>)
  have idx: "waiting_consumer_idx s' (read_at s' mod cap) = read_at s'"
    if "the_consumer s' = K_ArmSelf \<or> the_consumer s' = K_ArmFlags \<or> the_consumer s' = K_Waiting"
    using step
  proof cases
    case (unarm sealing)
    have "waiting_consumer s (read_at s mod cap)" using tokens_okD(5) [OF words_okD(6) [OF w] rm] unarm(2) by simp
    then show ?thesis using unarm that by (auto simp: mpsc_ops split: if_splits)
  next
    case drain
    then show ?thesis using that by (auto simp: drain_and_handoff_def mpsc_ops split: list.splits if_splits)
  next
    case (wake a)
    then show ?thesis using that by (auto simp: wake_parked_def mpsc_ops split: agent.splits)
  qed (use that lo in \<open>auto simp: mpsc_ops late_ok_def split: if_splits\<close>)
  have cons: "\<not> close_sentinel (element_flags s' i) \<and> \<not> DATA_BIT (element_flags s' i)" if "i < cap" "CONS_BIT (element_flags s' i)" for i
  proof -
    have o: "CONS_BIT (element_flags s i) \<longrightarrow> \<not> close_sentinel (element_flags s i) \<and> \<not> DATA_BIT (element_flags s i)"
      using lo that(1) by (simp add: late_ok_def)
    show ?thesis using step
    proof cases
      case drain
      then show ?thesis using that(2) o by (auto simp: drain_and_handoff_def mpsc_ops no_flags_def split: list.splits if_splits)
    next
      case (wake a)
      then show ?thesis using that(2) o by (auto simp: wake_parked_def mpsc_ops split: agent.splits)
    qed (use that(2) o in \<open>auto simp: mpsc_ops split: if_splits\<close>)
  qed
  have cld: "sealed s'" if "said_closed s'"
  proof (cases "said_closed s")
    case True
    then have "sealed s" using lo by (simp add: late_ok_def)
    moreover have "closed_ready s' = closed_ready s" "closed_at s' = closed_at s" "read_at s \<le> read_at s'"
      using step by (cases; auto simp: wake_parked_def drain_and_handoff_def mpsc_ops split: agent.splits list.splits)+
    ultimately show ?thesis by (simp add: sealed_def)
  next
    case False
    show ?thesis using step
    proof cases
      case resume
      then show ?thesis using that False here by (auto simp: mpsc_ops sealed_def split: if_splits)
    next
      case drain
      then show ?thesis using that False by (auto simp: drain_and_handoff_def mpsc_ops split: list.splits if_splits)
    next
      case (wake a)
      then show ?thesis using that False by (auto simp: wake_parked_def mpsc_ops split: agent.splits)
    qed (use that False in \<open>auto simp: mpsc_ops sealed_def split: if_splits\<close>)
  qed
  show ?thesis unfolding late_ok_def using seen idx cons cld by blast
qed

lemma mpsc_inv_start: "mpsc_start cap s \<Longrightarrow> mpsc_inv cap cs s"
  using words_ok_start [of cap s cs] items_start [of cap s] count_start [of cap s]
  by (auto simp: mpsc_inv_def late_ok_def mpsc_start_def mpsc_new_def no_flags_def)

lemma mpsc_inv_step: "mpsc_inv cap cs s \<Longrightarrow> mpsc_move n cap cs s s' \<Longrightarrow> mpsc_inv cap cs s'"
  unfolding mpsc_move_def
proof (elim disjE exE conjE)
  assume ok: "mpsc_inv cap cs s"
  note d = mpsc_invD [OF ok]
  show "mpsc_inv cap cs s'" if "agent_step cap cs a s s'" for a
    unfolding mpsc_inv_def
    using words_ok_agent [OF d(1) that] items_agent [OF d(1,2) that] count_agent [OF d(1,3) that] late_agent [OF ok that] by blast
  show "mpsc_inv cap cs s'" if "mconsumer_step cap cs s s'"
    unfolding mpsc_inv_def
    using words_ok_consumer [OF d(1) that] items_consumer [OF d(1,2) that] count_consumer [OF d(1,2,3) that] late_consumer [OF ok that] by blast
qed

interpretation mpsc: invariant_of "mpsc_start cap" "mpsc_move n cap cs" "mpsc_inv cap cs"
  by unfold_locales (fact mpsc_inv_start, fact mpsc_inv_step)

end
