(* ===== verification/MpscQueue.thy ===== *)
theory MpscQueue
  imports MpscInvariant
begin

text \<open>
  What the bounded queue of many producers and one consumer promises, its destructor, and an item that \<open>empty\<close> misses.
\<close>

section \<open>What the queue promises\<close>

text \<open>
  C15: The storage of the bounded queue is used correctly: a producer constructs its item in an empty element and is then the
  only one that may, the consumer finds an item where it reads one, and neither a wrong wake-up of the consumer nor a
  hand-off without a parked producer happens.
\<close>

theorem mpsc_storage:
  assumes "reach (mpsc_start cap) (mpsc_move n cap cs) s"
  shows "(agent_at s a = A_Emplace x k \<longrightarrow> object_in s (k mod cap) = None \<and> (\<forall>b. emplacing cap (k mod cap) (agent_at s b) \<longrightarrow> b = a)) \<and>
    (the_consumer s = K_Hold \<longrightarrow> stored_in s (read_at s mod cap) \<noteq> [] \<and>
       object_in s (read_at s mod cap) = Some (last (stored_in s (read_at s mod cap)))) \<and>
    agent_at s a \<noteq> A_Bad \<and> the_consumer s \<noteq> K_Bad"
proof -
  note inv = mpsc.holds [OF assms]
  note w = mpsc_invD(1) [OF inv] and it = mpsc_invD(2) [OF inv]
  have im: "j mod cap < cap" for j using words_okD(1) [OF w] by simp
  have "object_in s (k mod cap) = None \<and> (\<forall>b. emplacing cap (k mod cap) (agent_at s b) \<longrightarrow> b = a)" if "agent_at s a = A_Emplace x k"
  proof -
    have o: "PROD_BIT (element_flags s (k mod cap)) \<and> \<not> DATA_BIT (element_flags s (k mod cap)) \<and>
      (\<forall>b. b \<noteq> a \<longrightarrow> \<not> emplacing cap (k mod cap) (agent_at s b))" by (rule one_writer [OF w im]) (use that in simp)
    then have "emplaced cap (k mod cap) ((agent_at s)(a := agent_at s a)) = {}" by (intro emplaced_none) (use that in auto)
    then show ?thesis using it im [of k] o by (auto simp: items_ok_def item_ok_def)
  qed
  moreover have "stored_in s (read_at s mod cap) \<noteq> [] \<and> object_in s (read_at s mod cap) = Some (last (stored_in s (read_at s mod cap)))"
    if "the_consumer s = K_Hold"
    using it im [of "read_at s"] words_okD(7) [OF w] that by (simp add: items_ok_def item_ok_def draining_def here_def)
  moreover have "agent_at s a \<noteq> A_Bad" using words_okD(3) [OF w] by (metis all_remembered_def remembered.simps(3))
  moreover have "the_consumer s \<noteq> K_Bad" using words_okD(7) [OF w] by auto
  ultimately show ?thesis by blast
qed

text \<open>
  Each element of the bounded queue hands its items on in the order in which they were stored there, and holds at most one.
\<close>

lemma mpsc_element_fifo:
  assumes "reach (mpsc_start cap) (mpsc_move n cap cs) s" and "i < cap"
  shows "\<exists>m \<le> length (stored_in s i). got_from cap i (got s) = map Some (take m (stored_in s i)) \<and> length (stored_in s i) \<le> m + 1"
proof -
  note inv = mpsc.holds [OF assms(1)]
  let ?m = "drained s i + (if draining cap s i then 1 else 0)"
  have "got_from cap i (got s) = map Some (take ?m (stored_in s i))"
    and "length (stored_in s i) = drained s i + (if DATA_BIT (element_flags s i) then 1 else 0)"
    using mpsc_invD(2) [OF inv] assms(2) by (auto simp: items_ok_def item_ok_def)
  moreover have "draining cap s i \<longrightarrow> DATA_BIT (element_flags s i)" using draining_data [OF mpsc_invD(1) [OF inv]] by blast
  ultimately show ?thesis by (intro exI [of _ ?m]) auto
qed

lemma no_parked:
  assumes w: "words_ok cap cs s" and "i < cap" and "\<not> PROD_BIT (element_flags s i)" and "\<not> DATA_BIT (element_flags s i)"
    and "handed (the_consumer s) = {}"
  shows "\<not> parking cap i (agent_at s a)"
  using words_ok_element [OF w assms(2)] assms(3-5) by (auto simp: elem_ok_def agents_at_def)

text \<open>
  C14: Once a pull has returned \<open>CLOSED\<close>, every item that was ever stored in the bounded queue has been pulled, in the order of
  its element, and no producer is storing one.
\<close>

theorem mpsc_closed_drained:
  assumes "reach (mpsc_start cap) (mpsc_move n cap cs) s" and "said_closed s" and "i < cap"
  shows "got_from cap i (got s) = map Some (stored_in s i) \<and> (\<forall>a. \<not> emplacing cap i (agent_at s a))"
proof -
  note inv = mpsc.holds [OF assms(1)]
  note w = mpsc_invD(1) [OF inv] and it = mpsc_invD(2) [OF inv] and cnt = mpsc_invD(3) [OF inv]
  have "sealed s" using mpsc_invD(4) [OF inv] assms(2) by (simp add: late_ok_def)
  then have lim: "limit s \<le> read_at s" using words_okD(4) [OF w] by (simp add: sealed_def close_ok_def limit_def)
  have d: "draining cap s i \<or> \<not> PROD_BIT (element_flags s i) \<and> \<not> DATA_BIT (element_flags s i)"
    using all_read [OF w it cnt assms(3) _ lim] by blast
  have "\<not> emplacing cap i (agent_at s a)" for a
    using one_writer [OF w assms(3), of a] d draining_data [OF w, of i] by blast
  moreover have "got_from cap i (got s) = map Some (stored_in s i)"
    using it assms(3) d draining_data [OF w, of i] by (auto simp: items_ok_def item_ok_def)
  ultimately show ?thesis by blast
qed

text \<open>
  C13: The consumer of the bounded queue is never forgotten: when it is suspended and every other call has returned or is
  parked, the queue is open, every ticket was served and every item pulled, and no producer is parked.
\<close>

theorem mpsc_no_lost_wakeup:
  assumes "reach (mpsc_start cap) (mpsc_move n cap cs) s" and c: "the_consumer s = K_Waiting"
    and idle: "\<And>a. agent_at s a = A_Idle \<or> (\<exists>x k. agent_at s a = A_Parked x k)"
  shows "\<not> is_closed s \<and> read_at s = tickets s \<and> (\<forall>a. agent_at s a = A_Idle) \<and>
    (\<forall>i < cap. got_from cap i (got s) = map Some (stored_in s i))"
proof -
  note inv = mpsc.holds [OF assms(1)]
  note w = mpsc_invD(1) [OF inv] and it = mpsc_invD(2) [OF inv] and cnt = mpsc_invD(3) [OF inv] and lo = mpsc_invD(4) [OF inv]
  let ?i = "read_at s mod cap"
  have i: "j mod cap < cap" for j using words_okD(1) [OF w] by simp
  have quiet: "\<not> taking (agent_at s a)" "\<not> emplacing cap j (agent_at s a)" "\<not> preparing (agent_at s a)" "\<not> will_look (agent_at s a)"
    "\<not> looks (agent_at s a)" for a j
    using idle [of a] by auto
  have cons: "CONS_BIT (element_flags s ?i)" using tokens_okD(4) [OF words_okD(6) [OF w] c] quiet by (simp add: here_def)
  then have ns: "\<not> close_sentinel (element_flags s ?i)" and nd: "\<not> DATA_BIT (element_flags s ?i)"
    using lo i by (auto simp: late_ok_def)
  have np: "\<not> PROD_BIT (element_flags s j)" if "j < cap" for j
    using words_ok_element [OF w that] quiet c by (auto simp: elem_ok_def agents_at_def)
  have dr: "\<not> draining cap s j" for j using c by (simp add: draining_def)
  have "\<not> parking cap ?i (agent_at s a)" for a using no_parked [OF w i np [OF i] nd] c by simp
  then have o: "on_the_way cap ?i s = {}" using idle c by (auto simp: on_the_way_def agents_at_iff, metis parking.simps(1) unserved.simps(5,6))
  have "claims s ?i + card (on_the_way cap ?i s) + refused s ?i = rounds cap ?i (limit s)" and "refused s ?i = 0"
    using cnt i [of "read_at s"] ns by (auto simp: count_ok_def)
  moreover have "claims s ?i = drained s ?i" and "drained s ?i = rounds cap ?i (read_at s)"
    using it i [of "read_at s"] ns nd np [OF i] dr [of ?i] by (auto simp: items_ok_def item_ok_def)
  ultimately have "rounds cap ?i (limit s) = rounds cap ?i (read_at s)" using o by simp
  moreover have "rounds cap ?i (Suc (read_at s)) \<le> rounds cap ?i (limit s)" if "read_at s < limit s" using that by (intro rounds_mono) simp
  ultimately have lim: "limit s = read_at s" using cnt by (fastforce simp: count_ok_def)
  have cut: "cutoff s = None"
  proof (rule ccontr)
    assume "cutoff s \<noteq> None"
    then have "cutoff s = Some (read_at s)" using lim by (auto simp: limit_def)
    then show False using lo c ns quiet by (simp add: late_ok_def seen_def here_def)
  qed
  then have op: "\<not> is_closed s" using words_okD(4) [OF w] quiet by (auto simp: close_ok_def split: if_splits)
  have nd': "\<not> DATA_BIT (element_flags s j)" if "j < cap" for j using all_read [OF w it cnt that dr] lim by simp
  have "got_from cap j (got s) = map Some (stored_in s j)" if "j < cap" for j
    using it that nd' [OF that] dr by (simp add: items_ok_def item_ok_def)
  moreover have "\<not> parking cap j (agent_at s a)" if "j < cap" for j a using no_parked [OF w that np [OF that] nd' [OF that]] c by simp
  then have "agent_at s a = A_Idle" for a using idle [of a] i by (metis parking.simps(1))
  moreover have "tickets s = read_at s" using lim cut by (simp add: limit_def)
  ultimately show ?thesis using op by simp
qed


section \<open>Witnesses\<close>

definition two_in :: "nat mpsc" where
  "two_in = pushed_to 2 0 8 (pushed_to 2 0 7 mpsc_new)"

definition one_out :: "nat mpsc" where
  "one_out = pulled_from 2 two_in"

lemma two_in_reach: "reach (mpsc_start 2) (mpsc_move 1 2 cs) two_in"
proof -
  have "reach (mpsc_start 2) (mpsc_move 1 2 cs) (mpsc_new :: nat mpsc)" by (rule reach_start) (simp add: mpsc_start_def)
  moreover have "(agent_step 2 cs 0)\<^sup>*\<^sup>* mpsc_new (pushed_to 2 0 (7 :: nat) mpsc_new)"
    by (rule mpsc_push_run) (simp_all add: mpsc_new_def)
  moreover have "(agent_step 2 cs 0)\<^sup>*\<^sup>* (pushed_to 2 0 (7 :: nat) mpsc_new) two_in"
    unfolding two_in_def by (rule mpsc_push_run) (simp_all add: pushed_to_def mpsc_new_def Let_def)
  ultimately show ?thesis by (meson move_agent_run zero_less_one)
qed

lemma move_consumer_run: "(mconsumer_step cap cs)\<^sup>*\<^sup>* s s' \<Longrightarrow> reach (mpsc_start cap) (mpsc_move n cap cs) s \<Longrightarrow>
    reach (mpsc_start cap) (mpsc_move n cap cs) s'"
  by (induction rule: rtranclp_induct) (auto simp: mpsc_move_def intro: reach_step)

lemma one_out_reach: "reach (mpsc_start 2) (mpsc_move 1 2 cs) one_out"
proof -
  have "(mconsumer_step 2 cs)\<^sup>*\<^sup>* two_in one_out"
    unfolding one_out_def by (rule mpsc_pull_run) (simp_all add: two_in_def pushed_to_def mpsc_new_def Let_def)
  then show ?thesis using two_in_reach by (rule move_consumer_run)
qed

lemma one_out_simps: "got one_out = [(0, Some 7)]" "stored_in one_out 0 = [7]" "object_in one_out 0 = None" "stored_in one_out (Suc 0) = [8]"
  "object_in one_out (Suc 0) = Some 8" "agent_at one_out a = A_Idle" "the_consumer one_out = K_Idle" "read_at one_out = 1" "\<not> is_closed one_out"
  "element_flags one_out (Suc 0) = no_flags\<lparr>DATA_BIT := True\<rparr>" "tickets one_out = 2" "output_producers one_out i = []"
  by (simp_all add: one_out_def two_in_def pulled_from_def pushed_to_def mpsc_new_def Let_def)

text \<open>The consumer starts to pull the second item.\<close>

definition holding :: "nat mpsc" where
  "holding = consumer_at K_Hold (consumer_at (K_Poll True) (one_out\<lparr>elem_null := False\<rparr>))"

lemma holding_reach: "reach (mpsc_start 2) (mpsc_move 1 2 cs) holding"
proof -
  let ?s = "consumer_at (K_Poll True) (one_out\<lparr>elem_null := False\<rparr>)"
  have "mconsumer_step 2 cs one_out ?s" by (rule mconsumer_step.pull) (simp_all add: one_out_simps)
  moreover have "mconsumer_step 2 cs ?s holding"
    using mconsumer_step.poll [of ?s True _ 2 cs] by (simp add: holding_def consumer_at_def one_out_simps)
  ultimately show ?thesis by (meson one_out_reach move_consumer_run rtranclp.rtrancl_into_rtrancl rtranclp.rtrancl_refl)
qed

text \<open>The queue is empty, and the consumer waits or finds it closed.\<close>

definition two_out :: "nat mpsc" where
  "two_out = pulled_from 2 one_out"

lemma two_out_reach: "reach (mpsc_start 2) (mpsc_move 1 2 cs) two_out"
proof -
  have "(mconsumer_step 2 cs)\<^sup>*\<^sup>* one_out two_out"
    unfolding two_out_def by (rule mpsc_pull_run) (simp_all add: one_out_simps)
  then show ?thesis using one_out_reach by (rule move_consumer_run)
qed

lemma two_out_simps: "got two_out = [(0, Some 7), (1, Some 8)]" "stored_in two_out 0 = [7]" "stored_in two_out (Suc 0) = [8]"
  "agent_at two_out a = A_Idle" "the_consumer two_out = K_Idle" "read_at two_out = 2" "\<not> is_closed two_out" "tickets two_out = 2"
  "element_flags two_out 0 = no_flags" "\<not> said_closed two_out"
  by (simp_all add: two_out_def pulled_from_def one_out_simps Let_def)
    (simp_all add: one_out_def two_in_def pulled_from_def pushed_to_def mpsc_new_def Let_def)

definition mpsc_waiting :: "nat mpsc" where
  "mpsc_waiting = two_out\<lparr>elem_null := False, waiting_consumer_idx := (waiting_consumer_idx two_out)(0 := 2),
     waiting_consumer := (waiting_consumer two_out)(0 := True), element_flags := (element_flags two_out)(0 := no_flags\<lparr>CONS_BIT := True\<rparr>),
     the_consumer := K_Waiting\<rparr>"

lemma mpsc_waiting_reach: "reach (mpsc_start 2) (mpsc_move 1 2 True) mpsc_waiting"
proof -
  define s1 where "s1 = two_out\<lparr>elem_null := False, the_consumer := K_Poll False\<rparr>"
  define s2 where "s2 = s1\<lparr>the_consumer := K_PollClosed False no_flags\<rparr>"
  define s3 where "s3 = s1\<lparr>the_consumer := K_ArmIdx\<rparr>"
  define s4 where "s4 = s1\<lparr>waiting_consumer_idx := (waiting_consumer_idx s1)(0 := 2), the_consumer := K_ArmSelf\<rparr>"
  define s5 where "s5 = s4\<lparr>waiting_consumer := (waiting_consumer s4)(0 := True), the_consumer := K_ArmFlags\<rparr>"
  note ops = consumer_at_def two_out_simps no_flags_def
  have "(mconsumer_step 2 True)\<^sup>*\<^sup>* two_out two_out" by simp
  also have "mconsumer_step 2 True two_out s1"
    using mconsumer_step.pull [of two_out False True 2] by (simp add: s1_def ops)
  also (rtranclp.rtrancl_into_rtrancl) have "mconsumer_step 2 True s1 s2"
    using mconsumer_step.poll [of s1 False _ 2 True] by (simp add: s1_def s2_def ops)
  also (rtranclp.rtrancl_into_rtrancl) have "mconsumer_step 2 True s2 s3"
    using mconsumer_step.poll_closed [of s2 False no_flags 2 True] by (simp add: s1_def s2_def s3_def ops nothing_def)
  also (rtranclp.rtrancl_into_rtrancl) have "mconsumer_step 2 True s3 s4"
    using mconsumer_step.arm_idx [of s3 2 True] by (simp add: s1_def s3_def s4_def ops)
  also (rtranclp.rtrancl_into_rtrancl) have "mconsumer_step 2 True s4 s5"
    using mconsumer_step.arm_self [of s4 2 True] by (simp add: s1_def s4_def s5_def ops)
  also (rtranclp.rtrancl_into_rtrancl) have "mconsumer_step 2 True s5 mpsc_waiting"
    using mconsumer_step.arm_flags [of s5 _ 2 True] by (simp add: s1_def s4_def s5_def mpsc_waiting_def ops put_flags_def)
  finally (rtranclp.rtrancl_into_rtrancl) show ?thesis using two_out_reach by (rule move_consumer_run)
qed

definition closed_out :: "nat mpsc" where
  "closed_out = (put_agent 0 A_Idle (two_out\<lparr>is_closed := True, tickets := 3, cutoff := Some 2, closed_at := 2, closed_ready := True\<rparr>))
     \<lparr>elem_null := False, the_consumer := K_Idle, said_closed := True\<rparr>"

lemma closed_out_reach: "reach (mpsc_start 2) (mpsc_move 1 2 False) closed_out"
proof -
  define s1 where "s1 = put_agent 0 A_Close two_out"
  define s2 where "s2 = put_agent 0 A_Add (two_out\<lparr>is_closed := True\<rparr>)"
  define s3 where "s3 = put_agent 0 (A_StoreCutoff 2) (s2\<lparr>tickets := 3, cutoff := Some 2\<rparr>)"
  define s4 where "s4 = put_agent 0 (A_StoreReady 2) (s3\<lparr>closed_at := 2\<rparr>)"
  define s5 where "s5 = put_agent 0 A_Idle (s4\<lparr>closed_ready := True\<rparr>)"
  define s6 where "s6 = s5\<lparr>elem_null := False, the_consumer := K_Poll True\<rparr>"
  define s7 where "s7 = s6\<lparr>the_consumer := K_PollClosed True no_flags\<rparr>"
  define s8 where "s8 = s6\<lparr>the_consumer := K_PollSpin True no_flags\<rparr>"
  have ops: "agent_at two_out = (\<lambda>_. A_Idle)" "the_consumer two_out = K_Idle" "read_at two_out = 2" "\<not> is_closed two_out" "tickets two_out = 2"
    "element_flags two_out 0 = no_flags" by (simp_all add: two_out_simps fun_eq_iff)
  note upd = put_agent_def consumer_at_def ops say_closed_def
  have "(agent_step 2 False 0)\<^sup>*\<^sup>* two_out two_out" by simp
  also have "agent_step 2 False 0 two_out s1" unfolding s1_def by (rule agent_step.close) (simp add: ops)
  also (rtranclp.rtrancl_into_rtrancl) have "agent_step 2 False 0 s1 s2"
    using agent_step.close_flag [of s1 0 2 False] by (simp add: s1_def s2_def upd)
  also (rtranclp.rtrancl_into_rtrancl) have "agent_step 2 False 0 s2 s3"
    using agent_step.close_add [of s2 0 2 False] by (simp add: s2_def s3_def upd numeral_3_eq_3)
  also (rtranclp.rtrancl_into_rtrancl) have "agent_step 2 False 0 s3 s4"
    using agent_step.close_cutoff [of s3 0 2 2 False] by (simp add: s2_def s3_def s4_def upd)
  also (rtranclp.rtrancl_into_rtrancl) have "agent_step 2 False 0 s4 s5"
    using agent_step.close_ready [of s4 0 2 2 False] by (simp add: s2_def s3_def s4_def s5_def upd)
  finally (rtranclp.rtrancl_into_rtrancl) have r: "reach (mpsc_start 2) (mpsc_move 1 2 False) s5"
    using two_out_reach by (rule move_agent_run) simp
  note s = s2_def s3_def s4_def s5_def s6_def s7_def s8_def
  have "(mconsumer_step 2 False)\<^sup>*\<^sup>* s5 s5" by simp
  also have "mconsumer_step 2 False s5 s6" using mconsumer_step.pull [of s5 True False 2] by (simp add: s upd)
  also (rtranclp.rtrancl_into_rtrancl) have "mconsumer_step 2 False s6 s7"
    using mconsumer_step.poll [of s6 True _ 2 False] by (simp add: s upd no_flags_def)
  also (rtranclp.rtrancl_into_rtrancl) have "mconsumer_step 2 False s7 s8"
    using mconsumer_step.poll_closed [of s7 True no_flags 2 False] by (simp add: s upd)
  also (rtranclp.rtrancl_into_rtrancl) have "mconsumer_step 2 False s8 closed_out"
    using mconsumer_step.poll_cutoff [of s8 True no_flags 2 False] by (simp add: s upd closed_out_def)
  finally (rtranclp.rtrancl_into_rtrancl) show ?thesis using r by (rule move_consumer_run)
qed

theorem mpsc_storage_witness: "object_in holding 1 = Some 8 \<and> agent_at holding 0 \<noteq> A_Bad"
  using mpsc_storage [OF holding_reach [of True], of 0] by (simp add: holding_def consumer_at_def one_out_simps)

theorem mpsc_element_fifo_witness: "\<exists>m \<le> 1. [Some (8 :: nat)] = map Some (take m [8])"
  using mpsc_element_fifo [OF two_out_reach [of True], of 1] by (simp add: two_out_simps got_from_def)

theorem mpsc_closed_drained_witness: "got_from 2 0 [(0, Some 7), (1, Some (8 :: nat))] = map Some [7] \<and> \<not> emplacing 2 0 (agent_at closed_out 0)"
  using mpsc_closed_drained [OF closed_out_reach, of 0] by (simp add: closed_out_def put_agent_def two_out_simps)

theorem mpsc_no_lost_wakeup_witness: "read_at mpsc_waiting = tickets mpsc_waiting \<and> got_from 2 1 (got mpsc_waiting) = [Some 8]"
proof -
  have "agent_at mpsc_waiting a = A_Idle \<or> (\<exists>x k. agent_at mpsc_waiting a = A_Parked x k)" for a by (simp add: mpsc_waiting_def two_out_simps)
  from mpsc_no_lost_wakeup [OF mpsc_waiting_reach _ this] show ?thesis by (simp add: mpsc_waiting_def two_out_simps)
qed

section \<open>\<open>empty\<close> and the destructor\<close>

text \<open>\<open>empty\<close>, called by the consumer when \<open>close\<close> has stored the cutoff\<close>

definition mpsc_empty :: "nat \<Rightarrow> 'a mpsc \<Rightarrow> bool" where
  "mpsc_empty cap s \<longleftrightarrow> \<not> DATA_BIT (element_flags s (read_at s mod cap)) \<and> (is_closed s \<longrightarrow> read_at s < closed_at s)"

text \<open>The destructor: \<open>close\<close> takes the tickets as the cutoff unless there is one; the destroyed elements and the storage.\<close>

definition mpsc_destructor :: "nat \<Rightarrow> 'a mpsc \<Rightarrow> nat list \<times> (nat \<Rightarrow> 'a option)" where
  "mpsc_destructor cap s = (let ps = filter (\<lambda>p. DATA_BIT (element_flags s (p mod cap))) [read_at s..<(if is_closed s then closed_at s else tickets s)]
     in (map (\<lambda>p. p mod cap) ps, fold (\<lambda>p st. st(p mod cap := None)) ps (object_in s)))"

lemma rounds_lap: "p \<le> q \<Longrightarrow> p mod cap = i \<Longrightarrow> p < q \<Longrightarrow> rounds cap i p + 1 \<le> rounds cap i q"
  using rounds_mono [of "Suc p" q cap i] by simp

lemma rounds_none: "p \<le> q \<Longrightarrow> (\<And>j. p \<le> j \<Longrightarrow> j < q \<Longrightarrow> j mod cap \<noteq> i) \<Longrightarrow> rounds cap i q = rounds cap i p"
  by (induction q) (auto simp: le_Suc_eq)

lemma clear_all: "fold (\<lambda>p st. st(p mod cap := None)) ps st i = (if i \<in> (\<lambda>p. p mod cap) ` set ps then None else st i)"
  by (induction ps arbitrary: st) auto

text \<open>
  When no call is under way, the destructor of the bounded queue destroys every item that is left exactly once and nothing else.
\<close>

lemma mpsc_destructor_spec:
  assumes "reach (mpsc_start cap) (mpsc_move n cap cs) s" and c: "the_consumer s = K_Idle" and idle: "\<And>a. agent_at s a = A_Idle"
  shows "distinct (fst (mpsc_destructor cap s)) \<and> set (fst (mpsc_destructor cap s)) = {i. i < cap \<and> object_in s i \<noteq> None} \<and>
    (\<forall>i < cap. snd (mpsc_destructor cap s) i = None)"
proof -
  note inv = mpsc.holds [OF assms(1)]
  note w = mpsc_invD(1) [OF inv] and it = mpsc_invD(2) [OF inv] and cnt = mpsc_invD(3) [OF inv]
  have cap: "0 < cap" using words_okD(1) [OF w] .
  have o: "on_the_way cap i s = {}" for i using idle by (auto simp: on_the_way_def agents_at_iff)
  have e: "emplaced cap i (agent_at s) = {}" for i using idle by (simp add: emplaced_def)
  have dr: "\<not> draining cap s i" for i using c by (simp add: draining_def)
  have lim: "(if is_closed s then closed_at s else tickets s) = limit s"
    using words_okD(4) [OF w] idle by (auto simp: close_ok_def limit_def split: if_splits)
  let ?D = "\<lambda>i. DATA_BIT (element_flags s i)"
  have one: "rounds cap i (limit s) = rounds cap i (read_at s) + 1" if "i < cap" "?D i" for i
  proof -
    have ns: "\<not> close_sentinel (element_flags s i)" using words_ok_element [OF w that(1)] that(2) by (auto simp: elem_ok_def)
    then have "refused s i = 0" "claims s i + refused s i = rounds cap i (limit s)" using cnt that(1) o by (auto simp: count_ok_def)
    moreover have "claims s i = rounds cap i (read_at s) + 1" using it that ns dr by (auto simp: items_ok_def item_ok_def)
    ultimately show ?thesis by simp
  qed
  have has: "object_in s i \<noteq> None \<longleftrightarrow> ?D i" if "i < cap" for i using it that e dr by (auto simp: items_ok_def item_ok_def)
  define ps where "ps = filter (\<lambda>p. ?D (p mod cap)) [read_at s..<limit s]"
  have "p = q" if pq: "p \<in> set ps" "q \<in> set ps" "p mod cap = q mod cap" "p \<le> q" for p q
  proof (rule ccontr)
    assume "p \<noteq> q"
    then have "p < q" using pq(4) by simp
    have "rounds cap (q mod cap) (read_at s) \<le> rounds cap (q mod cap) p" using pq(1) by (intro rounds_mono) (simp add: ps_def)
    moreover have "rounds cap (q mod cap) p + 1 \<le> rounds cap (q mod cap) q" using \<open>p < q\<close> pq(3) by (intro rounds_lap) simp_all
    moreover have "rounds cap (q mod cap) q + 1 \<le> rounds cap (q mod cap) (limit s)" using pq(2) by (intro rounds_lap) (simp_all add: ps_def)
    ultimately show False using one [of "q mod cap"] pq(2) cap by (simp add: ps_def)
  qed
  then have inj: "inj_on (\<lambda>p. p mod cap) (set ps)" by (intro inj_onI) (metis nat_le_linear)
  have hit: "i \<in> (\<lambda>p. p mod cap) ` set ps" if "i < cap" "?D i" for i
  proof (rule ccontr)
    assume n: "i \<notin> (\<lambda>p. p mod cap) ` set ps"
    have "rounds cap i (limit s) = rounds cap i (read_at s)"
    proof (rule rounds_none)
      show "read_at s \<le> limit s" using cnt by (simp add: count_ok_def)
      fix j assume "read_at s \<le> j" "j < limit s"
      then show "j mod cap \<noteq> i" using n that(2) by (auto simp: ps_def)
    qed
    then show False using one [OF that] by simp
  qed
  then have im: "(\<lambda>p. p mod cap) ` set ps = {i. i < cap \<and> object_in s i \<noteq> None}" using has cap by (auto simp: ps_def)
  have "mpsc_destructor cap s = (map (\<lambda>p. p mod cap) ps, fold (\<lambda>p st. st(p mod cap := None)) ps (object_in s))"
    by (simp only: mpsc_destructor_def lim ps_def Let_def)
  moreover have "distinct ps" by (simp add: ps_def)
  ultimately show ?thesis using inj im by (auto simp: distinct_map clear_all)
qed

theorem mpsc_destructor_spec_witness: "set (fst (mpsc_destructor 2 two_in)) = {0, 1}"
proof -
  have "the_consumer two_in = K_Idle" "agent_at two_in a = A_Idle" for a
    by (simp_all add: two_in_def pushed_to_def mpsc_new_def Let_def)
  from mpsc_destructor_spec [OF two_in_reach [of True] this]
  have "set (fst (mpsc_destructor 2 two_in)) = {i. i < 2 \<and> object_in two_in i \<noteq> None}" by blast
  also have "\<dots> = {0, 1}" by (auto simp: two_in_def pushed_to_def mpsc_new_def Let_def)
  finally show ?thesis .
qed

section \<open>Items behind a sealed element\<close>

text \<open>
  C16: With every call of \<open>push\<close> and \<open>close\<close> returned, \<open>empty\<close> can return true although the next \<open>try_pull\<close> gets an item: the
  element at the consumer's position is sealed by \<open>close\<close>, and the item is behind it.
\<close>

theorem mpsc_empty_misses_item:
  "\<exists>s s'. reach (mpsc_start 2) (mpsc_move 2 2 True) s \<and> (\<forall>a. agent_at s a = A_Idle) \<and> the_consumer s = K_Idle \<and> mpsc_empty 2 s \<and>
     got s = [] \<and> (mconsumer_step 2 True)\<^sup>*\<^sup>* s s' \<and> said_empty s' = said_empty s \<and> got s' = [(1, Some (x :: 'a))]"
proof -
  note ops = put_agent_def mpsc_new_def pushed_to_def Let_def consumer_at_def put_flags_def no_flags_def
  let ?r = "reach (mpsc_start 2) (mpsc_move 2 2 True) :: 'a mpsc \<Rightarrow> bool"
  define s1 where "s1 = put_agent 0 (A_Ticket x) mpsc_new"
  define s2 where "s2 = put_agent 0 (A_Check x 0) (s1\<lparr>tickets := 1\<rparr>)"
  define s3 where "s3 = put_agent 0 (A_Claim x 0) s2"
  define t where "t = pushed_to 2 1 x s3"
  define t1 where "t1 = put_agent 1 A_Close t"
  define t2 where "t2 = put_agent 1 A_Add (t1\<lparr>is_closed := True\<rparr>)"
  define t3 where "t3 = put_agent 1 (A_StoreCutoff 2) (t2\<lparr>tickets := 3, cutoff := Some 2\<rparr>)"
  define t4 where "t4 = put_agent 1 (A_StoreReady 2) (t3\<lparr>closed_at := 2\<rparr>)"
  define t5 where "t5 = put_agent 1 (A_Look 2) (t4\<lparr>closed_ready := True\<rparr>)"
  define t6 where "t6 = put_agent 1 A_Idle (put_flags 0 (no_flags\<lparr>close_sentinel := True\<rparr>) t5)"
  define t7 where "t7 = put_agent 0 A_Idle (t6\<lparr>refused := (refused t6)(0 := 1)\<rparr>)"
  note ss = s1_def s2_def s3_def and tt = t_def t1_def t2_def t3_def t4_def t5_def t6_def t7_def
  have "?r mpsc_new" by (rule reach_start) (simp add: mpsc_start_def)
  moreover have "agent_step 2 True 0 mpsc_new s1" unfolding s1_def by (rule agent_step.push) (simp add: mpsc_new_def)
  moreover have "agent_step 2 True 0 s1 s2" using agent_step.take_ticket [of s1 0 x 2 True] by (simp add: ss ops)
  moreover have "agent_step 2 True 0 s2 s3" using agent_step.check_closed [of s2 0 x 0 2 True] by (simp add: ss ops ticket_taken_def)
  ultimately have "?r s3" by (meson move_agent zero_less_numeral)
  moreover have "(agent_step 2 True 1)\<^sup>*\<^sup>* s3 t" unfolding t_def by (rule mpsc_push_run) (simp_all add: ss ops)
  ultimately have "?r t" by (meson move_agent_run one_less_numeral_iff semiring_norm(76))
  moreover have "agent_step 2 True 1 t t1" unfolding t1_def by (rule agent_step.close) (simp add: t_def ss ops)
  moreover have "agent_step 2 True 1 t1 t2" using agent_step.close_flag [of t1 1 2 True] by (simp add: tt ss ops)
  moreover have "tickets t2 = 2" "agent_at t2 1 = A_Add" by (simp_all add: tt ss ops)
  then have "agent_step 2 True 1 t2 t3" using agent_step.close_add [of t2 1 2 True] by (simp add: t3_def)
  moreover have "agent_step 2 True 1 t3 t4" using agent_step.close_cutoff [of t3 1 2 2 True] by (simp add: tt ss ops)
  moreover have "agent_step 2 True 1 t4 t5" using agent_step.close_ready [of t4 1 2 2 True] by (simp add: tt ss ops)
  moreover have "agent_step 2 True 1 t5 t6" using agent_step.close_look [of t5 1 2 2 True] by (simp add: tt ss ops close_look_def)
  ultimately have "?r t6" by (meson move_agent one_less_numeral_iff semiring_norm(76))
  moreover have "agent_step 2 True 0 t6 t7" using agent_step.claim [of t6 0 x 0 2 True] by (simp add: tt ss ops try_claim_def claimable_def)
  ultimately have r: "?r t7" by (meson move_agent zero_less_numeral)
  define f where "f = no_flags\<lparr>close_sentinel := True\<rparr>"
  define u1 where "u1 = consumer_at (K_Poll True) (t7\<lparr>elem_null := False\<rparr>)"
  define u2 where "u2 = consumer_at (K_PollClosed True f) u1"
  define u3 where "u3 = consumer_at (K_PollSpin True f) u1"
  define u4 where "u4 = u1\<lparr>read_at := 1\<rparr>"
  define u5 where "u5 = consumer_at K_Hold u4"
  define u6 where "u6 = u5\<lparr>got := [(1, Some x)], object_in := (object_in u5)(1 := None), read_at := 2, the_consumer := K_Drain\<rparr>"
  note uu = u1_def u2_def u3_def u4_def u5_def u6_def f_def
  have "(mconsumer_step 2 True)\<^sup>*\<^sup>* t7 t7" by simp
  also have "mconsumer_step 2 True t7 u1" unfolding u1_def by (rule mconsumer_step.pull) (simp_all add: tt ss ops)
  also (rtranclp.rtrancl_into_rtrancl) have "mconsumer_step 2 True u1 u2"
    using mconsumer_step.poll [of u1 True _ 2 True] by (simp add: uu tt ss ops)
  also (rtranclp.rtrancl_into_rtrancl) have "mconsumer_step 2 True u2 u3"
    using mconsumer_step.poll_closed [of u2 True f 2 True] by (simp add: uu tt ss ops)
  also (rtranclp.rtrancl_into_rtrancl) have "mconsumer_step 2 True u3 u4"
    using mconsumer_step.poll_cutoff [of u3 True f 2 True] by (simp add: uu tt ss ops skip_position_def)
  also (rtranclp.rtrancl_into_rtrancl) have "mconsumer_step 2 True u4 u5"
    using mconsumer_step.poll [of u4 True _ 2 True] by (simp add: uu tt ss ops)
  also (rtranclp.rtrancl_into_rtrancl) have "mconsumer_step 2 True u5 u6"
    using mconsumer_step.release [of u5 1 2 True] by (simp add: uu tt ss ops numeral_2_eq_2)
  finally (rtranclp.rtrancl_into_rtrancl) have p: "(mconsumer_step 2 True)\<^sup>*\<^sup>* t7 u6" .
  have "the_consumer t7 = K_Idle" "got t7 = []" "mpsc_empty 2 t7" "agent_at t7 a = A_Idle" for a
    by (simp_all add: tt ss ops mpsc_empty_def)
  moreover have "said_empty u6 = said_empty t7" "got u6 = [(1, Some x)]" by (simp_all add: uu consumer_at_def)
  ultimately show ?thesis using r p by blast
qed

end
