(* ===== verification/Spec2Isabelle.thy ===== *)
theory Spec2Isabelle
  imports Matrix ThreadGroups CpuQuota AtomicBitmap SyncSteps MuxGroup RwLock ChaseLev LatchBarrier CondVar Inbox CpuExecutor CpuSetup StealOrder Spsc MpscQueue
begin

text \<open>
  A verification development for TooManyCooks, a C++20 coroutine runtime.  Paths are relative to
  \<open>src/include/tmc\<close>; \<open>detail/\<close> holds the implementation files.

  \<^bold>\<open>The program.\<close>  An executor (\<open>ex_cpu\<close>) reads the cache hierarchy of the machine, forms groups of cores that share a
  cache, decides how many threads each group gets, and computes for each thread the order in which it steals from the
  others and, inverted, the order in which it wakes them.  Work is kept in one work-stealing deque per thread and one
  inbox per group.  Coroutines are launched alone or in groups and joined through customizers that count the finished
  children down.  The synchronisation primitives suspend coroutines on intrusive lists and resume them on the executor
  and priority where they suspended.

  \<^bold>\<open>Theories.\<close>
  \<^item> \<open>Prelude\<close>: the machine types (\<open>size_t\<close> is a 64-bit word), fact collections, generic lemmas.
  \<^item> \<open>GroupOrder\<close>, \<open>GroupIterator\<close>, \<open>StealMatrix\<close>, \<open>WakeMatrix\<close>, \<open>InboxIndexes\<close>, \<open>ThreadGroups\<close>
    (\<open>detail/thread_layout.ipp\<close>, \<open>topology.hpp\<close>): the visiting order of the groups (\<open>recursively_subdivide\<close>,
    \<open>get_flat_group_iteration_order\<close>), the iterators over the hierarchy, \<open>get_lattice_matrix\<close> and
    \<open>get_hierarchical_matrix\<close>, \<open>invert_matrix\<close> and \<open>slice_matrix\<close>, \<open>get_thread_inbox_indexes\<close>,
    \<open>adjust_thread_groups\<close>.  The lemmas show that orders and rows are permutations that start with the own group and
    thread, that wakers invert stealers, that thread counts meet the request, and when the loop that grows them hangs.
  \<^item> \<open>Matrix\<close> (\<open>detail/matrix.hpp\<close>, \<open>matrix.ipp\<close>): the class over an explicit store; every block has one owner.
  \<^item> \<open>CpuQuota\<close> (\<open>detail/container_cpu_quota.ipp\<close>): the cgroup parsers; the file system is a parameter.
  \<^item> \<open>BitManip\<close>, \<open>AtomicBitmap\<close> (\<open>detail/bit_manip.hpp\<close>, \<open>detail/atomic_bitmap.hpp\<close>, \<open>init_params.ipp\<close>): both builds
    of the thread bitmap implement a set of thread indexes (locale \<open>thread_bitmap\<close>).
  \<^item> \<open>ChaseLev\<close> (\<open>detail/qu_chase_lev64.hpp\<close>): the deque as a machine of the owner's and the thieves' accesses; it
    refines a queue.
  \<^item> \<open>WaiterList\<close>, \<open>SyncPrimitives\<close>, \<open>SyncSteps\<close> (\<open>detail/waiter_list.hpp\<close>, \<open>waiter_list.ipp\<close>, \<open>mutex.hpp\<close>,
    \<open>semaphore.hpp\<close>, \<open>auto_reset_event.hpp\<close>): the waiter list on an explicit heap (locale \<open>waiter_queue\<close>), the calls
    of the primitives one at a time (locale \<open>signal\<close>; they refine a counter with a queue), and their atomic accesses
    interleaved (mutual exclusion, first in first out, no lost wakeup, conservation of units).
  \<^item> \<open>ManualEvent\<close>, \<open>LatchBarrier\<close> (\<open>manual_reset_event.hpp\<close>, \<open>latch.hpp\<close>, \<open>barrier.hpp\<close>), \<open>CondVar\<close>
    (\<open>atomic_condvar.hpp\<close>), \<open>RwLock\<close> (\<open>rw_lock.hpp\<close>, \<open>detail/rw_lock.ipp\<close>): the other primitives.
  \<^item> \<open>Customizer\<close>, \<open>SpawnGroup\<close>, \<open>JoinGroup\<close>, \<open>MuxGroup\<close> (\<open>detail/awaitable_customizer.hpp\<close>, \<open>spawn_many.hpp\<close>,
    \<open>spawn_tuple.hpp\<close>, \<open>fork_group.hpp\<close>, \<open>mux_many.hpp\<close>, \<open>detail/mux_shared.ipp\<close>): launching each child once, and
    resuming the parent once, after the last child.
  \<^item> \<open>Machines\<close>: reachable states, the locales of invariants and of refinement that the machines below instantiate, and the
    bounded first-in-first-out queue that the queues refine.
  \<^item> \<open>Inbox\<close> (\<open>detail/qu_inbox.hpp\<close>): the inbox that the threads of a group share, many producers and many consumers; it
    refines the abstract queue, and a block of one element does not.
  \<^item> \<open>CpuMachine\<close>, \<open>CpuInvariant\<close>, \<open>CpuExecutor\<close> (\<open>ex_cpu.hpp\<close>, \<open>detail/ex_cpu.ipp\<close>): the run loop of the workers, posting,
    the notifications and teardown, interleaved; no item is lost, no wake-up is lost, the yield priority is the one of the
    running item, teardown frees nothing in use.  The two loads of \<open>empty()\<close> of an inbox are two steps, with the offsets
    unwrapped; the ingest queue (\<open>detail/qu_mc.hpp\<close>) is used through what its calls promise.
    \<open>CpuSetup\<close>: what \<open>init\<close> computes satisfies what the machine relies on, and when it makes too few inboxes.
    \<open>StealOrder\<close> (with \<open>detail/qu_work_stealing.hpp\<close>): the array of deque pointers of a thread and the searches that
    walk it follow the machine's steps.
  \<^item> \<open>Spsc\<close> (\<open>qu_spsc_bounded.hpp\<close>): the bounded queue of one producer and one consumer; it refines the abstract queue, loses
    no wake-up, keeps objects exactly in the elements that hold an item, and its destructor destroys the rest.
  \<^item> \<open>Mpsc\<close>, \<open>MpscInvariant\<close>, \<open>MpscQueue\<close> (\<open>qu_mpsc_bounded.hpp\<close>): the bounded queue of many producers and one consumer.
    Every element is a first-in-first-out cell with one writer at a time, a suspended consumer is never forgotten, a closed
    queue is drained completely, the destructor destroys the rest; as a whole the queue is not first in first out, and
    \<open>empty\<close> can miss an item behind a sealed element.

  \<^bold>\<open>Conventions.\<close>  A call that runs without interference is a function on its state; a protocol between threads is an
  inductive step relation whose steps are the accesses to shared words, under sequential consistency: the memory orders
  weaker than that are not modelled.  \<open>None\<close> stands for undefined behaviour (a null or dangling pointer, an index out of
  range) or for a loop that does not end (\<open>partial_function\<close>); theorems that a call returns say so.  \<open>ThreadGroups\<close> keeps
  the two apart: there \<open>None\<close> is only the loop that does not end.  Debug assertions are
  not executed.  Fields marked as history are not in the code; no step reads them to decide what the code does, except
  that a guard may use them to exclude a wrap-around (stated where it is: 32-bit indices of the deque that a sleeping
  thief would miss, an inbox producer or consumer that is \<open>2 ^ 63\<close> positions behind, queue offsets beyond \<open>2 ^ 63\<close>, counters beyond \<open>2 ^ 62\<close>, more than \<open>2 ^ 20\<close> readers).

  \<^bold>\<open>Not modelled.\<close>  The hwloc query and thread pinning (third-party library); coroutine promises, concepts and awaitable
  traits (compile-time plumbing); the asio integration; \<open>detail/qu_mc.hpp\<close> and \<open>channel.hpp\<close>, lock-free queues of two
  thousand lines each whose correctness rests on their block reclamation; the unbounded queues of one and of many producers
  and the blocking queue, which are chains of blocks; the 32-bit deque; the executors with one thread, which run
  those queues; \<open>spawn\<close>, \<open>spawn_func\<close>, \<open>spawn_group\<close>, \<open>mux_tuple\<close> and
  \<open>select\<close>, which repeat the counting of the modelled groups over single or heterogeneous awaitables; results and
  exceptions of awaitables, which the groups pass through untouched.
\<close>

end
